(* ===== verification/Prelude.thy ===== *)
theory Prelude
  imports Main "HOL-Library.Word"
begin

text \<open>
  Shared material of the development: the result type that makes every early return and
  every panic of the Rust code a value, bytes and little-endian codecs of the machine
  integers, slices, and the lemma collections the component theories use.

  Integer conventions.  The shipped binary is a release build (\<open>[profile.release]\<close> sets no
  \<open>overflow-checks\<close>), so \<open>u8\<close>/\<open>u16\<close>/\<open>u32\<close>/\<open>u64\<close> arithmetic wraps: those integers are words.
  Division by zero, subrange and array indexing, \<open>unwrap\<close>, \<open>expect\<close> and \<open>assert!\<close> still panic
  in a release build: they are the \<open>Panic\<close> branch.  Lengths and indices of in-memory
  buffers (\<open>usize\<close>) are natural numbers; where the code casts them to a narrower type the
  cast is written out.
\<close>

unbundle bit_operations_syntax

section \<open>Results\<close>

datatype ('e, 'a) res = Ok 'a | Err 'e | Panic

fun res_bind :: "('e, 'a) res \<Rightarrow> ('a \<Rightarrow> ('e, 'b) res) \<Rightarrow> ('e, 'b) res" where
  "res_bind (Ok x) f = f x"
| "res_bind (Err e) f = Err e"
| "res_bind Panic f = Panic"

definition ensure :: "bool \<Rightarrow> 'e \<Rightarrow> ('e, unit) res" where
  "ensure c e = (if c then Ok () else Err e)"

definition assert_res :: "bool \<Rightarrow> ('e, unit) res" where
  "assert_res c = (if c then Ok () else Panic)"

fun map_err :: "('e \<Rightarrow> 'f) \<Rightarrow> ('e, 'a) res \<Rightarrow> ('f, 'a) res" where
  "map_err f (Ok x) = Ok x"
| "map_err f (Err e) = Err (f e)"
| "map_err f Panic = Panic"

fun ok_or :: "'e \<Rightarrow> 'a option \<Rightarrow> ('e, 'a) res" where
  "ok_or e None = Err e"
| "ok_or e (Some x) = Ok x"

fun unwrap_opt :: "'a option \<Rightarrow> ('e, 'a) res" where
  "unwrap_opt None = Panic"
| "unwrap_opt (Some x) = Ok x"

text \<open>\<open>iter().map(f).collect::<Result<Vec<_>, _>>()\<close>: the first error ends the traversal.\<close>

fun res_map :: "('a \<Rightarrow> ('e, 'b) res) \<Rightarrow> 'a list \<Rightarrow> ('e, 'b list) res" where
  "res_map f [] = Ok []"
| "res_map f (x # xs) = res_bind (f x) (\<lambda>y. res_bind (res_map f xs) (\<lambda>ys. Ok (y # ys)))"

text \<open>A \<open>for\<close> loop whose body may fail or panic, threading its state.\<close>

fun res_fold :: "('a \<Rightarrow> 's \<Rightarrow> ('e, 's) res) \<Rightarrow> 'a list \<Rightarrow> 's \<Rightarrow> ('e, 's) res" where
  "res_fold f [] s = Ok s"
| "res_fold f (x # xs) s = res_bind (f x s) (res_fold f xs)"

named_theorems res_simps "facts that take results apart"

lemma res_bind_Ok_iff [res_simps]:
  "res_bind m f = Ok y \<longleftrightarrow> (\<exists>x. m = Ok x \<and> f x = Ok y)"
  by (cases m) auto

lemma res_bind_Err_iff [res_simps]:
  "res_bind m f = Err e \<longleftrightarrow> m = Err e \<or> (\<exists>x. m = Ok x \<and> f x = Err e)"
  by (cases m) auto

lemma res_bind_Panic_iff [res_simps]:
  "res_bind m f = Panic \<longleftrightarrow> m = Panic \<or> (\<exists>x. m = Ok x \<and> f x = Panic)"
  by (cases m) auto

lemma res_bind_assoc: "res_bind (res_bind m f) g = res_bind m (\<lambda>x. res_bind (f x) g)"
  by (cases m) auto

lemma ensure_simps [simp]:
  "ensure True e = Ok ()" "ensure False e = Err e"
  "ensure c e = Ok u \<longleftrightarrow> c" "ensure c e = Err e' \<longleftrightarrow> \<not> c \<and> e = e'" "ensure c e \<noteq> Panic"
  by (auto simp: ensure_def)

lemma assert_res_simps [simp]:
  "assert_res True = Ok ()" "assert_res False = Panic"
  "assert_res c = Ok u \<longleftrightarrow> c" "assert_res c = Panic \<longleftrightarrow> \<not> c" "assert_res c \<noteq> Err e"
  by (auto simp: assert_res_def)

lemma map_err_iff [simp]:
  "map_err f m = Ok x \<longleftrightarrow> m = Ok x" "map_err f m = Panic \<longleftrightarrow> m = Panic"
  by (cases m; auto)+

lemma map_err_Err_iff [res_simps]: "map_err f m = Err e \<longleftrightarrow> (\<exists>e'. m = Err e' \<and> e = f e')"
  by (cases m) auto

lemma ok_or_iff [simp]:
  "ok_or e x = Ok y \<longleftrightarrow> x = Some y" "ok_or e x = Err e' \<longleftrightarrow> x = None \<and> e = e'" "ok_or e x \<noteq> Panic"
  by (cases x; auto)+

lemma res_map_Ok_iff:
  "res_map f xs = Ok ys \<longleftrightarrow> list_all2 (\<lambda>x y. f x = Ok y) xs ys"
  by (induction xs arbitrary: ys) (auto simp: res_simps list_all2_Cons1)

lemma res_map_all_Ok: "(\<And>x. x \<in> set xs \<Longrightarrow> f x = Ok (g x)) \<Longrightarrow> res_map f xs = Ok (map g xs)"
  by (induction xs) auto

lemma res_map_map: "res_map f (map g xs) = res_map (\<lambda>x. f (g x)) xs"
  by (induction xs) auto

lemma res_map_length: "res_map f xs = Ok ys \<Longrightarrow> length ys = length xs"
  by (auto simp: res_map_Ok_iff dest: list_all2_lengthD)

lemma res_fold_append:
  "res_fold f (xs @ ys) s = res_bind (res_fold f xs s) (res_fold f ys)"
proof (induction xs arbitrary: s)
  case Nil
  then show ?case by simp
next
  case (Cons x xs)
  have "res_fold f (xs @ ys) = (\<lambda>s. res_bind (res_fold f xs s) (res_fold f ys))"
    using Cons.IH by (rule ext)
  then show ?case by (simp add: res_bind_assoc)
qed

section \<open>Machine integers and bytes\<close>

type_synonym i8 = "8 word"
type_synonym i32 = "32 word"
type_synonym u8 = "8 word"
type_synonym u16 = "16 word"
type_synonym u32 = "32 word"
type_synonym u64 = "64 word"
type_synonym u128 = "128 word"
type_synonym bytes = "8 word list"

text \<open>Little-endian bytes of a number, and back; the big-endian forms are the reversals.\<close>

fun nat_to_le :: "nat \<Rightarrow> nat \<Rightarrow> bytes" where
  "nat_to_le 0 x = []"
| "nat_to_le (Suc n) x = of_nat (x mod 256) # nat_to_le n (x div 256)"

fun le_to_nat :: "bytes \<Rightarrow> nat" where
  "le_to_nat [] = 0"
| "le_to_nat (b # bs) = unat b + 256 * le_to_nat bs"

definition be_to_nat :: "bytes \<Rightarrow> nat" where
  "be_to_nat bs = le_to_nat (rev bs)"

named_theorems codec "encoders, decoders and their lengths"

lemma length_nat_to_le [simp, codec]: "length (nat_to_le n x) = n"
  by (induction n arbitrary: x) auto

lemma unat_of_nat_byte: "unat (of_nat (x mod 256) :: u8) = x mod 256"
  by (simp add: unat_of_nat)

lemma le_to_nat_nat_to_le [simp, codec]: "le_to_nat (nat_to_le n x) = x mod 256 ^ n"
proof (induction n arbitrary: x)
  case 0
  then show ?case by simp
next
  case (Suc n)
  have "x mod (256 * 256 ^ n) = x mod 256 + 256 * (x div 256 mod 256 ^ n)"
    by (simp add: mod_mult2_eq)
  then show ?case by (simp add: Suc.IH unat_of_nat_byte)
qed

lemma le_to_nat_less: "le_to_nat bs < 256 ^ length bs"
proof (induction bs)
  case Nil
  then show ?case by simp
next
  case (Cons b bs)
  have "unat b < 256" using unsigned_less [of b, where ?'a = nat] by simp
  with Cons.IH show ?case by simp
qed

lemma nat_to_le_le_to_nat [simp]: "nat_to_le (length bs) (le_to_nat bs) = bs"
proof (induction bs)
  case Nil
  then show ?case by simp
next
  case (Cons b bs)
  have "unat b < 256" using unsigned_less [of b, where ?'a = nat] by simp
  with Cons.IH show ?case by simp
qed

lemma nat_to_le_le_to_nat_len: "length bs = n \<Longrightarrow> nat_to_le n (le_to_nat bs) = bs"
  using nat_to_le_le_to_nat by blast

lemma le_to_nat_inj: "length bs = length cs \<Longrightarrow> le_to_nat bs = le_to_nat cs \<Longrightarrow> bs = cs"
  by (metis nat_to_le_le_to_nat)

lemma le_to_nat_append: "le_to_nat (bs @ cs) = le_to_nat bs + 256 ^ length bs * le_to_nat cs"
  by (induction bs) (auto simp: algebra_simps)

lemma le_to_nat_replicate_0 [simp]: "le_to_nat (replicate n 0) = 0"
  by (induction n) auto

definition u16_le :: "u16 \<Rightarrow> bytes" where "u16_le w = nat_to_le 2 (unat w)"
definition u32_le :: "u32 \<Rightarrow> bytes" where "u32_le w = nat_to_le 4 (unat w)"
definition u64_le :: "u64 \<Rightarrow> bytes" where "u64_le w = nat_to_le 8 (unat w)"

definition u16_from_le :: "bytes \<Rightarrow> u16" where "u16_from_le bs = of_nat (le_to_nat bs)"
definition u32_from_le :: "bytes \<Rightarrow> u32" where "u32_from_le bs = of_nat (le_to_nat bs)"
definition u64_from_le :: "bytes \<Rightarrow> u64" where "u64_from_le bs = of_nat (le_to_nat bs)"

lemma uN_le_length [simp, codec]:
  "length (u16_le a) = 2" "length (u32_le b) = 4" "length (u64_le c) = 8"
  by (simp_all add: u16_le_def u32_le_def u64_le_def)

lemma u16_roundtrip [simp, codec]: "u16_from_le (u16_le w) = w"
  using unsigned_less [of w, where ?'a = nat] by (simp add: u16_from_le_def u16_le_def)

lemma u32_roundtrip [simp, codec]: "u32_from_le (u32_le w) = w"
  using unsigned_less [of w, where ?'a = nat] by (simp add: u32_from_le_def u32_le_def)

lemma u64_roundtrip [simp, codec]: "u64_from_le (u64_le w) = w"
  using unsigned_less [of w, where ?'a = nat] by (simp add: u64_from_le_def u64_le_def)

lemma u16_le_from_le [codec]: "length bs = 2 \<Longrightarrow> u16_le (u16_from_le bs) = bs"
  using le_to_nat_less [of bs] nat_to_le_le_to_nat [of bs]
  by (simp add: u16_from_le_def u16_le_def unat_of_nat)

lemma u32_le_from_le [codec]: "length bs = 4 \<Longrightarrow> u32_le (u32_from_le bs) = bs"
  using le_to_nat_less [of bs] nat_to_le_le_to_nat [of bs]
  by (simp add: u32_from_le_def u32_le_def unat_of_nat)

lemma u64_le_from_le [codec]: "length bs = 8 \<Longrightarrow> u64_le (u64_from_le bs) = bs"
  using le_to_nat_less [of bs] nat_to_le_le_to_nat [of bs]
  by (simp add: u64_from_le_def u64_le_def unat_of_nat)

section \<open>Slices\<close>

text \<open>\<open>&xs[a..b]\<close>, used where the bounds are known to hold; \<open>subrange_res\<close> is the indexing
  expression that panics when they do not.\<close>

definition subrange :: "nat \<Rightarrow> nat \<Rightarrow> 'a list \<Rightarrow> 'a list" where
  "subrange a b xs = take (b - a) (drop a xs)"

definition subrange_res :: "nat \<Rightarrow> nat \<Rightarrow> 'a list \<Rightarrow> ('e, 'a list) res" where
  "subrange_res a b xs = (if a \<le> b \<and> b \<le> length xs then Ok (subrange a b xs) else Panic)"

definition nth_res :: "'a list \<Rightarrow> nat \<Rightarrow> ('e, 'a) res" where
  "nth_res xs i = (if i < length xs then Ok (xs ! i) else Panic)"

text \<open>\<open>buf[start..start + xs.len()].copy_from_slice(xs)\<close>, where the bounds are known to hold.\<close>

definition copy_into :: "nat \<Rightarrow> 'a list \<Rightarrow> 'a list \<Rightarrow> 'a list" where
  "copy_into start xs buf = take start buf @ xs @ drop (start + length xs) buf"

lemma length_copy_into [simp]: "start + length xs \<le> length buf \<Longrightarrow> length (copy_into start xs buf) = length buf"
  by (simp add: copy_into_def)

lemma nth_copy_into:
  "start + length xs \<le> length buf \<Longrightarrow> i < length buf \<Longrightarrow> copy_into start xs buf ! i
    = (if start \<le> i \<and> i < start + length xs then xs ! (i - start) else buf ! i)"
  by (auto simp: copy_into_def nth_append)

lemma length_subrange [simp, codec]: "length (subrange a b xs) = min (b - a) (length xs - a)"
  by (simp add: subrange_def)

lemma subrange_append_left [codec]: "b \<le> length xs \<Longrightarrow> subrange a b (xs @ ys) = subrange a b xs"
  by (auto simp: subrange_def)

lemma subrange_append_right [codec]:
  "length xs \<le> a \<Longrightarrow> subrange a b (xs @ ys) = subrange (a - length xs) (b - length xs) ys"
  by (simp add: subrange_def)

lemma subrange_full [codec]: "length xs = n \<Longrightarrow> subrange 0 n xs = xs"
  by (simp add: subrange_def)

lemma subrange_join: "a \<le> b \<Longrightarrow> b \<le> c \<Longrightarrow> subrange a b xs @ subrange b c xs = subrange a c xs"
proof -
  assume "a \<le> b" and "b \<le> c"
  then have "drop b xs = drop (b - a) (drop a xs)" and "c - a = (b - a) + (c - b)" by simp_all
  then show ?thesis by (simp only: subrange_def take_add)
qed

lemma nth_subrange: "i < b - a \<Longrightarrow> b \<le> length xs \<Longrightarrow> subrange a b xs ! i = xs ! (a + i)"
  by (simp add: subrange_def)

section \<open>Lists and words\<close>

lemma distinct_concat_map:
  assumes "distinct xs" and "\<And>x. x \<in> set xs \<Longrightarrow> distinct (f x)"
    and "\<And>x y. x \<in> set xs \<Longrightarrow> y \<in> set xs \<Longrightarrow> x \<noteq> y \<Longrightarrow> set (f x) \<inter> set (f y) = {}"
  shows "distinct (concat (map f xs))"
  using assms
proof (induction xs)
  case Nil
  then show ?case by simp
next
  case (Cons x xs)
  have "set (f x) \<inter> (\<Union>y\<in>set xs. set (f y)) = {}"
    using Cons.prems(1) Cons.prems(3) [of x] by fastforce
  with Cons show ?case by simp
qed

lemma concat_chunks:
  "length xs = k * d \<Longrightarrow> concat (map (\<lambda>q. subrange (q * d) (q * d + d) xs) [0..<k]) = xs"
proof (induction k arbitrary: xs)
  case 0
  then show ?case by simp
next
  case (Suc k)
  have "map (\<lambda>q. subrange (q * d) (q * d + d) xs) [0..<k]
      = map (\<lambda>q. subrange (q * d) (q * d + d) (take (k * d) xs)) [0..<k]"
  proof (rule map_cong [OF refl])
    fix q assume "q \<in> set [0..<k]"
    then have "q * d + d \<le> k * d"
      by (metis add.commute atLeastLessThan_iff less_iff_succ_less_eq mult_Suc mult_le_mono1 set_upt
          Suc_leI)
    then show "subrange (q * d) (q * d + d) xs = subrange (q * d) (q * d + d) (take (k * d) xs)"
      by (simp add: subrange_def drop_take min_def)
  qed
  then have "concat (map (\<lambda>q. subrange (q * d) (q * d + d) xs) [0..<k])
      = concat (map (\<lambda>q. subrange (q * d) (q * d + d) (take (k * d) xs)) [0..<k])"
    by (simp only:)
  moreover have "concat (map (\<lambda>q. subrange (q * d) (q * d + d) (take (k * d) xs)) [0..<k]) = take (k * d) xs"
    using Suc by simp
  moreover have "subrange (k * d) (k * d + d) xs = drop (k * d) xs"
    using Suc.prems by (simp add: subrange_def)
  ultimately show ?case by (simp cong: map_cong)
qed

lemma unat_mult_small: "unat a * unat b < 2 ^ LENGTH('a) \<Longrightarrow> unat (a * b) = unat a * unat b"
  for a b :: "'a::len word"
  by (simp add: unat_word_ariths)

lemma unat_add_small: "unat a + unat b < 2 ^ LENGTH('a) \<Longrightarrow> unat (a + b) = unat a + unat b"
  for a b :: "'a::len word"
  by (simp add: unat_word_ariths)

lemma unat_byte_less: "unat (b :: u8) < 256"
  using unsigned_less [of b, where ?'a = nat] by simp

lemma unat_u32_less: "unat (b :: u32) < 4294967296"
  using unsigned_less [of b, where ?'a = nat] by simp

lemma unat_ucast_8_32 [simp]: "unat (ucast (b :: u8) :: u32) = unat b"
proof -
  have "unat b < 2 ^ 32" using unat_byte_less [of b] by (rule less_trans) simp
  then show ?thesis by (simp add: unsigned_ucast_eq take_bit_nat_eq_self_iff)
qed

lemma ucast_8_32_8 [simp]: "ucast (ucast (b :: u8) :: u32) = b"
  by transfer (simp add: min_def)

section \<open>Buffers filled piece by piece\<close>

lemma length_concat_chunks:
  "(\<And>c. c < k \<Longrightarrow> length (f c) = d) \<Longrightarrow> length (concat (map f [0..<k])) = k * d"
  by (induction k) auto

lemma copy_chunks_prefix:
  assumes "\<And>c. c < k \<Longrightarrow> length (f c) = d" and "k * d \<le> M"
  shows "foldl (\<lambda>out c. copy_into (c * d) (f c) out) (replicate M z) [0..<k]
    = concat (map f [0..<k]) @ replicate (M - k * d) z"
  using assms
proof (induction k)
  case 0
  then show ?case by simp
next
  case (Suc k)
  have "length (concat (map f [0..<k])) = k * d"
    using Suc.prems(1) by (simp add: length_concat_chunks)
  with Suc show ?case by (simp add: copy_into_def)
qed

lemma copy_chunks:
  assumes "\<And>c. c < N \<Longrightarrow> length (f c) = d" and "M = N * d"
  shows "foldl (\<lambda>out c. copy_into (c * d) (f c) out) (replicate M z) [0..<N] = concat (map f [0..<N])"
  using copy_chunks_prefix [of N f d M z] assms by simp

lemma nth_concat_chunks:
  assumes "\<And>c. c < N \<Longrightarrow> length (f c) = d" and "i < N * d"
  shows "concat (map f [0..<N]) ! i = f (i div d) ! (i mod d)"
  using assms
proof (induction N)
  case 0
  then show ?case by simp
next
  case (Suc N)
  have len: "length (concat (map f [0..<N])) = N * d"
    using Suc.prems(1) by (simp add: length_concat_chunks)
  show ?case
  proof (cases "i < N * d")
    case True
    with Suc len show ?thesis by (simp add: nth_append)
  next
    case False
    with Suc.prems(2) have q: "i div d = N" by (intro div_nat_eqI) (simp_all add: mult.commute)
    then have "i mod d = i - N * d" by (simp add: modulo_nat_def mult.commute)
    with q False len show ?thesis by (simp add: nth_append)
  qed
qed

lemma fill_row:
  assumes "length pre = p"
  shows "foldl (\<lambda>out j. out[p + j := g j]) (pre @ xs @ rest) [0..<length xs] = pre @ map g [0..<length xs] @ rest"
  using assms
proof (induction xs arbitrary: rest rule: rev_induct)
  case Nil
  then show ?case by simp
next
  case (snoc x xs)
  have "foldl (\<lambda>out j. out[p + j := g j]) (pre @ (xs @ [x]) @ rest) [0..<length xs]
      = pre @ map g [0..<length xs] @ x # rest"
    using snoc.IH [OF snoc.prems, of "x # rest"] by simp
  with snoc.prems show ?case by (simp add: list_update_append)
qed

lemma fill_grid_prefix:
  "k \<le> m \<Longrightarrow> foldl (\<lambda>out i. foldl (\<lambda>out j. out[i * n + j := g i j]) out [0..<n]) (replicate (m * n) z) [0..<k]
    = concat (map (\<lambda>i. map (g i) [0..<n]) [0..<k]) @ replicate ((m - k) * n) z"
proof (induction k)
  case 0
  then show ?case by simp
next
  case (Suc k)
  have split: "replicate ((m - k) * n) z = replicate n z @ replicate ((m - Suc k) * n) z"
    using Suc.prems by (simp flip: replicate_add) (metis Suc_diff_Suc Suc_le_lessD mult_Suc)
  have len: "length (concat (map (\<lambda>i. map (g i) [0..<n]) [0..<k])) = k * n"
    by (simp add: length_concat comp_def sum_list_triv)
  have "foldl (\<lambda>out j. out[k * n + j := g k j])
      (concat (map (\<lambda>i. map (g i) [0..<n]) [0..<k]) @ replicate n z @ replicate ((m - Suc k) * n) z) [0..<n]
    = concat (map (\<lambda>i. map (g i) [0..<n]) [0..<k]) @ map (g k) [0..<n] @ replicate ((m - Suc k) * n) z"
    using fill_row [OF len, of "g k" "replicate n z"] by simp
  with Suc split show ?case by simp
qed

lemma fill_grid:
  "foldl (\<lambda>out i. foldl (\<lambda>out j. out[i * n + j := g i j]) out [0..<n]) (replicate (m * n) z) [0..<m]
    = concat (map (\<lambda>i. map (g i) [0..<n]) [0..<m])"
  using fill_grid_prefix [of m m] by simp

lemma nth_grid:
  assumes "i < m" and "j < n"
  shows "concat (map (\<lambda>i. map (g i) [0..<n]) [0..<m]) ! (i * n + j) = g i j"
proof -
  have "i * n + j < m * n"
    using assms by (metis add.commute add_mono_thms_linordered_field(4) less_eq_Suc_le mult_Suc mult_le_mono1 nat_add_left_cancel_less order_less_le_trans)
  then show ?thesis
    using nth_concat_chunks [of m "\<lambda>i. map (g i) [0..<n]" n "i * n + j"] assms by simp
qed

lemma concat_blocks: "concat (map (\<lambda>b. [b * d..<b * d + d]) [lo..<hi]) = [lo * d..<hi * d]" if "lo \<le> hi" for lo hi d :: nat
  using that
proof (induction hi)
  case 0
  then show ?case by simp
next
  case (Suc hi)
  show ?case
  proof (cases "lo = Suc hi")
    case True
    then show ?thesis by simp
  next
    case False
    with Suc.prems have "lo \<le> hi" by simp
    moreover have "[lo * d..<hi * d] @ [hi * d..<hi * d + d] = [lo * d..<hi * d + d]"
      by (rule upt_add_eq_append [symmetric]) (rule mult_le_mono1 [OF \<open>lo \<le> hi\<close>])
    ultimately show ?thesis using Suc.IH by (simp add: add.commute [of d])
  qed
qed

lemma concat_blocks_trunc:
  assumes "0 < d"
  shows "concat (map (\<lambda>b. [b * d..<b * d + min d (k - b * d)]) [0..<(k + (d - 1)) div d]) = [0..<k]"
proof -
  have step: "concat (map (\<lambda>b. [b * d..<b * d + min d (k - b * d)]) [0..<N]) = [0..<min k (N * d)]" for N
  proof (induction N)
    case 0
    then show ?case by simp
  next
    case (Suc N)
    have "[0..<min k (N * d)] @ [N * d..<N * d + min d (k - N * d)] = [0..<min k (Suc N * d)]"
    proof (cases "N * d \<le> k")
      case True
      then have "min k (N * d) = N * d" and "min k (Suc N * d) = N * d + min d (k - N * d)" by auto
      then show ?thesis using upt_add_eq_append [of 0 "N * d" "min d (k - N * d)"] by simp
    next
      case False
      then show ?thesis by (simp add: min_def)
    qed
    with Suc show ?case by simp
  qed
  have "k \<le> (k + (d - 1)) div d * d"
  proof -
    have "(k + (d - 1)) mod d < d" using assms by simp
    moreover have "(k + (d - 1)) div d * d + (k + (d - 1)) mod d = k + (d - 1)" by simp
    ultimately show ?thesis by linarith
  qed
  then show ?thesis using step [of "(k + (d - 1)) div d"] by simp
qed

end
