(* ===== verification/Periodic_Pattern.thy ===== *)
theory Periodic_Pattern
  imports Prelude
begin

text \<open>
  \<open>PeriodicPattern\<close> of deps/zk-pow/src/api/proof_utils.rs and api/proof.rs: the generalised
  arithmetic progressions that select the rows of A and the columns of B, with
  \<open>list_to_pattern\<close> (ffi/plain_proof.rs) and \<open>threads_partition\<close> (ffi/mine.rs).
  A pattern is three (stride, length) pairs of \<open>u32\<close>; \<open>anyhow\<close> errors carry their message,
  interpolated values dropped.
\<close>

type_synonym anyhow = string

record periodic_pattern =
  shape :: "(u32 \<times> u32) list"

definition NUM_DIMS :: nat where "NUM_DIMS = 3"

section \<open>Operations\<close>

text \<open>The loop of \<open>from_bytes\<close> over the two-byte chunks, with its \<open>min_stride\<close> and \<open>is_done\<close>.\<close>

fun from_bytes_loop :: "bytes \<Rightarrow> u32 \<Rightarrow> bool \<Rightarrow> (anyhow, (u32 \<times> u32) list) res" where
  "from_bytes_loop (b0 # b1 # rest) min_stride is_done =
     (let factor = 1 + ucast b0; len = 1 + ucast b1 in
      res_bind
        (if len = 1 \<or> is_done
         then res_bind (ensure (factor = 1 \<and> len = 1) ''Using non-canonical representation'')
                (\<lambda>_. Ok True)
         else if factor \<le> 1 \<and> min_stride \<noteq> 1 then Err ''A single stride must not be broken''
         else Ok is_done)
        (\<lambda>is_done'.
      res_bind (ensure (min_stride \<le> 16777216 div (factor * len)) ''Pattern must have period <= 2^24'')
        (\<lambda>_. let stride = factor * min_stride in
          res_bind (from_bytes_loop rest (stride * len) is_done') (\<lambda>sh. Ok ((stride, len) # sh)))))"
| "from_bytes_loop _ min_stride is_done = Ok []"

definition pp_from_bytes :: "bytes \<Rightarrow> (anyhow, periodic_pattern) res" where
  "pp_from_bytes data =
     res_bind (ensure (length data = 2 * NUM_DIMS) ''Expected 6 bytes'') (\<lambda>_.
     res_bind (from_bytes_loop data 1 False) (\<lambda>sh. Ok \<lparr>shape = sh\<rparr>))"

text \<open>\<open>to_bytes\<close>: the division panics when a product of stride and length has wrapped to 0.\<close>

fun to_bytes_loop :: "(u32 \<times> u32) list \<Rightarrow> u32 \<Rightarrow> (anyhow, bytes) res" where
  "to_bytes_loop [] min_stride = Ok []"
| "to_bytes_loop ((stride, len) # sh) min_stride =
     (if min_stride = 0 then Panic
      else let factor = stride div min_stride in
        res_bind (to_bytes_loop sh (stride * len))
          (\<lambda>bs. Ok (ucast (factor - 1) # ucast (len - 1) # bs)))"

definition pp_to_bytes :: "periodic_pattern \<Rightarrow> (anyhow, bytes) res" where
  "pp_to_bytes p = to_bytes_loop (shape p) 1"

definition is_valid :: "periodic_pattern \<Rightarrow> (anyhow, bool) res" where
  "is_valid p = res_bind (pp_to_bytes p) (\<lambda>bs.
     case pp_from_bytes bs of Ok restored \<Rightarrow> Ok (shape restored = shape p) | Err _ \<Rightarrow> Ok False
     | Panic \<Rightarrow> Panic)"

definition expand_dim :: "u32 \<times> u32 \<Rightarrow> u32 list \<Rightarrow> u32 list" where
  "expand_dim sl res =
     concat (map (\<lambda>i. map (\<lambda>r. r + of_nat i * fst sl) res) [0..<unat (snd sl)])"

definition to_list :: "periodic_pattern \<Rightarrow> u32 list" where
  "to_list p = fold expand_dim (shape p) [0]"

definition pp_max :: "periodic_pattern \<Rightarrow> (anyhow, u32) res" where
  "pp_max p = (if to_list p = [] then Panic else Ok (Max (set (to_list p))))"

definition pp_period :: "periodic_pattern \<Rightarrow> (anyhow, u32) res" where
  "pp_period p = (if shape p = [] then Panic
     else Ok (fst (last (shape p)) * snd (last (shape p))))"

definition pp_size :: "periodic_pattern \<Rightarrow> u32" where
  "pp_size p = fold (\<lambda>sl acc. acc * snd sl) (shape p) 1"

definition indices_with_offset :: "periodic_pattern \<Rightarrow> u32 \<Rightarrow> u32 list" where
  "indices_with_offset p off = map (\<lambda>i. i + off) (to_list p)"

fun offset_loop :: "(u32 \<times> u32) list \<Rightarrow> u32 \<Rightarrow> (anyhow, bool) res" where
  "offset_loop [] off = Ok True"
| "offset_loop ((stride, len) # sh) off =
     (if stride * len = 0 then Panic
      else let off' = off mod (stride * len) in
        if off' \<ge> stride then Ok False else offset_loop sh off')"

definition offset_is_valid :: "periodic_pattern \<Rightarrow> u32 \<Rightarrow> (anyhow, bool) res" where
  "offset_is_valid p off = offset_loop (rev (shape p)) off"

text \<open>\<open>from_list\<close>: the inner \<open>for\<close> takes the first period that divides the length and under
  which the list repeats with a constant shift; the outer loop cuts the list down to it.
  \<open>shape_vec\<close> is pushed to the back and reversed at the end: here it grows at the front.\<close>

definition is_periodic :: "u32 list \<Rightarrow> nat \<Rightarrow> bool" where
  "is_periodic p period \<longleftrightarrow>
     list_all (\<lambda>i. p ! i + p ! period = p ! (i + period)) [0..<length p - period]"

definition find_period :: "u32 list \<Rightarrow> nat option" where
  "find_period p =
     find (\<lambda>period. length p mod period = 0 \<and> is_periodic p period) [1..<length p]"

lemma find_period_Some:
  "find_period p = Some d \<Longrightarrow> 1 \<le> d \<and> d < length p \<and> d dvd length p \<and> is_periodic p d"
  by (auto simp: find_period_def find_Some_iff)

function decompose :: "u32 list \<Rightarrow> (u32 \<times> u32) list \<Rightarrow> (anyhow, (u32 \<times> u32) list) res" where
  "decompose p acc =
     (if length p \<le> 1 then Ok acc
      else case find_period p of
        None \<Rightarrow> Err ''Pattern is not periodic''
      | Some period \<Rightarrow>
          decompose (take period p) ((p ! period, of_nat (length p div period)) # acc))"
  by pat_completeness auto
termination
  by (relation "measure (\<lambda>(p, acc). length p)") (auto dest: find_period_Some)

declare decompose.simps [simp del]

definition strictly_increasing :: "'a::linorder list \<Rightarrow> bool" where
  "strictly_increasing xs \<longleftrightarrow> list_all (\<lambda>i. xs ! i < xs ! Suc i) [0..<length xs - 1]"

definition pad_dims :: "(u32 \<times> u32) list \<Rightarrow> (u32 \<times> u32) list" where
  "pad_dims sh =
     (let period = (if sh = [] then 1 else fst (last sh) * snd (last sh))
      in sh @ replicate (NUM_DIMS - length sh) (period, 1))"

definition from_list :: "u32 list \<Rightarrow> (anyhow, periodic_pattern) res" where
  "from_list pattern =
     res_bind (ensure (pattern \<noteq> []) ''Pattern cannot be empty'') (\<lambda>_.
     res_bind (ensure (strictly_increasing pattern) ''Pattern must be sorted and have no duplicates'') (\<lambda>_.
     res_bind (ensure (hd pattern = 0) ''Pattern must start at 0'') (\<lambda>_.
     res_bind (decompose pattern []) (\<lambda>shape_vec.
     let sh = pad_dims shape_vec in
     if length sh \<noteq> NUM_DIMS then Panic
     else res_bind (is_valid \<lparr>shape = sh\<rparr>) (\<lambda>v.
       res_bind (ensure v ''Constructed pattern is not valid'') (\<lambda>_. Ok \<lparr>shape = sh\<rparr>))))))"

definition list_to_pattern :: "u32 list \<Rightarrow> (anyhow, periodic_pattern \<times> u32) res" where
  "list_to_pattern indices =
     (if indices = [] then Err ''pattern parsing error: Empty indices''
      else if \<not> strictly_increasing indices
      then Err ''pattern parsing error: Indices not strictly increasing''
      else let offset = hd indices; normalized = map (\<lambda>i. i - offset) indices in
        res_bind (map_err (\<lambda>_. ''pattern parsing error'') (from_list normalized)) (\<lambda>pattern.
        res_bind (offset_is_valid pattern offset) (\<lambda>v.
        if \<not> v then Err ''pattern parsing error: offset is not valid for pattern''
        else Ok (pattern, offset))))"

text \<open>\<open>threads_partition\<close> of ffi/mine.rs: the rows (columns) each thread works on.\<close>

definition threads_partition :: "periodic_pattern \<Rightarrow> nat \<Rightarrow> (anyhow, nat list list) res" where
  "threads_partition p dim =
     res_bind (pp_period p) (\<lambda>period.
     if \<not> (if unat period = 0 then dim = 0 else dim mod unat period = 0) then Panic
     else let base_indices = map unat (to_list p) in
       res_bind (res_map (\<lambda>i. res_bind (offset_is_valid p (of_nat i)) (\<lambda>v. Ok (i, v))) [0..<dim])
         (\<lambda>ivs. Ok (map (\<lambda>(off, _). map (\<lambda>d. off + d) base_indices) (filter snd ivs))))"

section \<open>Well-formed patterns\<close>

fun wf_shape :: "nat \<Rightarrow> (u32 \<times> u32) list \<Rightarrow> bool" where
  "wf_shape m [] = True"
| "wf_shape m ((s, l) # sh) \<longleftrightarrow>
     0 < unat l \<and> unat l \<le> 256 \<and> 0 < unat s \<and> m dvd unat s \<and> unat s * unat l \<le> 2 ^ 24 \<and>
     wf_shape (unat s * unat l) sh"

definition wf_pattern :: "periodic_pattern \<Rightarrow> bool" where
  "wf_pattern p \<longleftrightarrow> length (shape p) = NUM_DIMS \<and> wf_shape 1 (shape p)"

lemma unat_byte_factor: "unat (1 + ucast (b :: u8) :: u32) = 1 + unat b"
proof -
  have "unat (ucast b :: u32) = unat b" by simp
  moreover have "unat b < 256" by (rule unat_byte_less)
  ultimately have "unat (1 :: u32) + unat (ucast b :: u32) < 2 ^ 32" by simp
  then show ?thesis by (subst unat_add_small) simp_all
qed

lemma stride_bounds:
  fixes m :: u32 and b0 b1 :: u8
  defines "f \<equiv> 1 + ucast b0 :: u32" and "l \<equiv> 1 + ucast b1 :: u32"
  assumes le: "m \<le> 16777216 div (f * l)"
  shows "unat (f * m) = unat f * unat m" and "unat f * unat m * unat l \<le> 2 ^ 24"
    and "unat (f * m * l) = unat f * unat m * unat l" and "0 < unat f" and "0 < unat l" and "unat l \<le> 256"
proof -
  have f: "0 < unat f" "unat f \<le> 256" and l: "0 < unat l" "unat l \<le> 256"
    using unat_byte_less [of b0] unat_byte_less [of b1]
    unfolding f_def l_def unat_byte_factor by linarith+
  then have "unat f * unat l \<le> 256 * 256" by (intro mult_le_mono)
  then have fl: "unat (f * l) = unat f * unat l" by (subst unat_mult_small) simp_all
  have "unat m \<le> 2 ^ 24 div (unat f * unat l)"
    using le by (simp add: word_le_nat_alt unat_div fl)
  then have "unat m * (unat f * unat l) \<le> 2 ^ 24"
    using f l by (simp add: less_eq_div_iff_mult_less_eq)
  then show b: "unat f * unat m * unat l \<le> 2 ^ 24" by (simp add: ac_simps)
  have "unat f * unat m \<le> unat f * unat m * unat l" using l by simp
  with b have "unat f * unat m \<le> 2 ^ 24" by (rule order_trans [rotated])
  then have "unat f * unat m < 2 ^ 32" by (rule le_less_trans) simp
  then show fm: "unat (f * m) = unat f * unat m" by (subst unat_mult_small) simp_all
  from b show "unat (f * m * l) = unat f * unat m * unat l"
    by (subst unat_mult_small) (simp_all add: fm)
  show "0 < unat f" "0 < unat l" "unat l \<le> 256" using f l by simp_all
qed

lemma from_bytes_loop_Cons:
  assumes "from_bytes_loop (b0 # b1 # rest) m d = Ok sh"
  obtains d' sh' where "m \<le> 16777216 div ((1 + ucast b0) * (1 + ucast b1))"
    and "from_bytes_loop rest ((1 + ucast b0) * m * (1 + ucast b1)) d' = Ok sh'"
    and "sh = ((1 + ucast b0) * m, 1 + ucast b1) # sh'"
  using assms by (auto simp: Let_def res_simps)

lemma from_bytes_loop_wf:
  "from_bytes_loop bs m d = Ok sh \<Longrightarrow> 0 < unat m \<Longrightarrow> wf_shape (unat m) sh"
proof (induction bs arbitrary: m d sh rule: induct_list012)
  case (3 b0 b1 rest)
  from "3.prems"(1) show ?case
  proof (rule from_bytes_loop_Cons)
    fix d' sh'
    assume le: "m \<le> 16777216 div ((1 + ucast b0) * (1 + ucast b1))"
      and rest: "from_bytes_loop rest ((1 + ucast b0) * m * (1 + ucast b1)) d' = Ok sh'"
      and sh: "sh = ((1 + ucast b0) * m, 1 + ucast b1) # sh'"
    note b = stride_bounds [OF le]
    have "0 < unat ((1 + ucast b0) * m * (1 + ucast b1))" using b "3.prems"(2) by simp
    with "3.IH"(1) [OF rest] have "wf_shape (unat ((1 + ucast b0) * m * (1 + ucast b1))) sh'" .
    then show "wf_shape (unat m) sh" using b "3.prems"(2) by (simp add: sh)
  qed
qed auto

lemma from_bytes_loop_to_bytes:
  "from_bytes_loop bs m d = Ok sh \<Longrightarrow> 0 < unat m \<Longrightarrow> even (length bs) \<Longrightarrow> to_bytes_loop sh m = Ok bs"
proof (induction bs arbitrary: m d sh rule: induct_list012)
  case (3 b0 b1 rest)
  from "3.prems"(1) show ?case
  proof (rule from_bytes_loop_Cons)
    fix d' sh'
    assume le: "m \<le> 16777216 div ((1 + ucast b0) * (1 + ucast b1))"
      and rest: "from_bytes_loop rest ((1 + ucast b0) * m * (1 + ucast b1)) d' = Ok sh'"
      and sh: "sh = ((1 + ucast b0) * m, 1 + ucast b1) # sh'"
    note b = stride_bounds [OF le]
    have pos: "0 < unat ((1 + ucast b0) * m * (1 + ucast b1))" using b "3.prems"(2) by simp
    have "to_bytes_loop sh' ((1 + ucast b0) * m * (1 + ucast b1)) = Ok rest"
      using "3.IH"(1) [OF rest pos] "3.prems"(3) by simp
    moreover have "((1 + ucast b0) * m) div m = 1 + ucast b0"
    proof (rule word_unat_eq_iff [THEN iffD2])
      show "unat ((1 + ucast b0) * m div m) = unat (1 + ucast b0 :: u32)"
        unfolding unat_div b(1) using "3.prems"(2) by simp
    qed
    moreover have "m \<noteq> 0" using "3.prems"(2) by auto
    ultimately show "to_bytes_loop sh m = Ok (b0 # b1 # rest)" by (simp add: sh)
  qed
qed auto

lemma from_bytes_loop_length: "from_bytes_loop bs m d = Ok sh \<Longrightarrow> length sh = length bs div 2"
  by (induction bs arbitrary: m d sh rule: induct_list012) (auto elim!: from_bytes_loop_Cons simp del: from_bytes_loop.simps(1))

section \<open>The bytes of a pattern\<close>

lemma pp_from_bytes_wf: "pp_from_bytes bs = Ok p \<Longrightarrow> wf_pattern p"
  by (auto simp: pp_from_bytes_def wf_pattern_def res_simps NUM_DIMS_def
      dest: from_bytes_loop_length from_bytes_loop_wf)

lemma pp_from_bytes_to_bytes: "pp_from_bytes bs = Ok p \<Longrightarrow> pp_to_bytes p = Ok bs"
  by (auto simp: pp_from_bytes_def pp_to_bytes_def res_simps NUM_DIMS_def
      intro: from_bytes_loop_to_bytes)

lemma is_valid_True:
  "is_valid p = Ok True \<longleftrightarrow>
     (\<exists>bs q. pp_to_bytes p = Ok bs \<and> pp_from_bytes bs = Ok q \<and> shape q = shape p)"
proof -
  have "(case m of Ok restored \<Rightarrow> Ok (shape restored = shape p) | Err _ \<Rightarrow> Ok False | Panic \<Rightarrow> Panic) = (Ok True :: (anyhow, bool) res)
    \<longleftrightarrow> (\<exists>q. m = Ok q \<and> shape q = shape p)" for m :: "(anyhow, periodic_pattern) res"
    by (cases m) auto
  then show ?thesis by (simp add: is_valid_def res_bind_Ok_iff)
qed

lemma is_valid_wf: "is_valid p = Ok True \<Longrightarrow> wf_pattern p"
  by (auto simp: is_valid_True wf_pattern_def dest: pp_from_bytes_wf)

lemma is_valid_roundtrip:
  "is_valid p = Ok True \<longleftrightarrow> (\<exists>bs. pp_to_bytes p = Ok bs \<and> pp_from_bytes bs = Ok p)"
proof -
  have "shape q = shape p \<longleftrightarrow> q = p" for q :: periodic_pattern by (cases q; cases p) simp
  then show ?thesis by (auto simp: is_valid_True)
qed

section \<open>Patterns over the natural numbers\<close>

text \<open>
  The arithmetic of a well-formed pattern never wraps, so its operations refine these
  mixed-radix functions on natural numbers.  The dimensions come last one first, the order in
  which \<open>offset_is_valid\<close> visits them.
\<close>

fun rwf :: "(nat \<times> nat) list \<Rightarrow> bool" and rper :: "(nat \<times> nat) list \<Rightarrow> nat" where
  "rper [] = 1"
| "rper ((s, l) # rs) = s * l"
| "rwf [] = True"
| "rwf ((s, l) # rs) \<longleftrightarrow> 0 < s \<and> 0 < l \<and> rper rs dvd s \<and> rwf rs"

fun rlist :: "(nat \<times> nat) list \<Rightarrow> nat list" where
  "rlist [] = [0]"
| "rlist ((s, l) # rs) = concat (map (\<lambda>i. map (\<lambda>r. r + i * s) (rlist rs)) [0..<l])"

fun rvalid :: "(nat \<times> nat) list \<Rightarrow> nat \<Rightarrow> bool" where
  "rvalid [] off = True"
| "rvalid ((s, l) # rs) off \<longleftrightarrow> off mod (s * l) < s \<and> rvalid rs (off mod (s * l))"

lemma rper_pos: "rwf rs \<Longrightarrow> 0 < rper rs"
  by (cases rs) auto

lemma rlist_less: "rwf rs \<Longrightarrow> d \<in> set (rlist rs) \<Longrightarrow> d < rper rs"
proof (induction rs arbitrary: d)
  case (Cons sl rs)
  obtain s l where sl: "sl = (s, l)" by (cases sl)
  from Cons.prems obtain i r where i: "i < l" and r: "r \<in> set (rlist rs)" and d: "d = r + i * s"
    by (auto simp: sl)
  have "r < rper rs" using Cons r by (simp add: sl)
  also have "\<dots> \<le> s" using Cons.prems(1) by (simp add: sl dvd_imp_le)
  finally have "d < (i + 1) * s" by (simp add: d)
  also have "\<dots> \<le> l * s" using i by (intro mult_le_mono1) simp
  finally show ?case by (simp add: sl mult.commute)
qed simp

lemma rvalid_fits:
  "rwf rs \<Longrightarrow> rvalid rs w \<Longrightarrow> d \<in> set (rlist rs) \<Longrightarrow> w mod rper rs + d < rper rs"
proof (induction rs arbitrary: w d)
  case (Cons sl rs)
  obtain s l where sl: "sl = (s, l)" by (cases sl)
  let ?w = "w mod (s * l)"
  from Cons.prems(3) obtain j d1 where j: "j < l" and d1: "d1 \<in> set (rlist rs)" and d: "d = d1 + j * s"
    by (auto simp: sl)
  have ws: "?w < s" and v: "rvalid rs ?w" using Cons.prems(2) by (simp_all add: sl)
  have fit: "?w mod rper rs + d1 < rper rs" using Cons.IH [OF _ v d1] Cons.prems(1) by (simp add: sl)
  obtain c where c: "s = rper rs * c" using Cons.prems(1) by (auto simp: sl)
  have "?w div rper rs < c" using ws c by (simp add: less_mult_imp_div_less mult.commute)
  then have "rper rs * (?w div rper rs) + rper rs \<le> s"
    unfolding c by (metis Suc_leI mult.commute mult_Suc mult_le_mono1 add.commute)
  with fit have "?w + d1 < s"
    using mult_div_mod_eq [of "rper rs" ?w] by linarith
  moreover have "j * s + s \<le> s * l"
    using j by (metis Suc_leI mult.commute mult_Suc mult_le_mono1 add.commute)
  ultimately show ?case by (simp add: sl d)
qed simp

lemma rlist_decompose:
  assumes "rwf rs" shows "\<exists>!d. d \<in> set (rlist rs) \<and> d \<le> x \<and> rvalid rs (x - d)"
  using assms
proof (induction rs arbitrary: x)
  case (Cons sl rs)
  obtain s l where sl: "sl = (s, l)" by (cases sl)
  have s: "0 < s" "0 < l" and wf: "rwf rs" using Cons.prems by (simp_all add: sl)
  let ?y = "x mod (s * l)" and ?q = "x div (s * l) * (s * l)"
  define i z where "i = ?y div s" and "z = ?y mod s"
  have y: "?y = i * s + z" "z < s" "x = ?q + i * s + z"
    using s div_mult_mod_eq [of x "s * l"] div_mult_mod_eq [of ?y s] by (simp_all add: i_def z_def)
  have il: "i < l" using s by (simp add: i_def less_mult_imp_div_less mult.commute)
  obtain d0 where d0: "d0 \<in> set (rlist rs)" "d0 \<le> z" "rvalid rs (z - d0)"
    and uniq: "\<And>d. d \<in> set (rlist rs) \<Longrightarrow> d \<le> z \<Longrightarrow> rvalid rs (z - d) \<Longrightarrow> d = d0"
    using Cons.IH [OF wf, of z] by blast
  show ?case
  proof (rule ex1I [of _ "d0 + i * s"], intro conjI)
    show "d0 + i * s \<in> set (rlist (sl # rs))" using d0(1) il by (auto simp: sl)
    show "d0 + i * s \<le> x" using d0(2) y(3) by linarith
    have sub: "x - (d0 + i * s) = (z - d0) + ?q" using d0(2) y(3) by linarith
    have zs: "z - d0 < s" "s \<le> s * l" using y(2) s by simp_all
    then have "(x - (d0 + i * s)) mod (s * l) = z - d0"
      unfolding sub mod_mult_self1 by (intro mod_less) linarith
    then show "rvalid (sl # rs) (x - (d0 + i * s))" using d0(3) zs by (simp add: sl)
  next
    fix d assume A: "d \<in> set (rlist (sl # rs)) \<and> d \<le> x \<and> rvalid (sl # rs) (x - d)"
    then obtain j d1 where j: "j < l" and d1: "d1 \<in> set (rlist rs)" and d: "d = d1 + j * s"
      by (auto simp: sl)
    define w where "w = (x - d) mod (s * l)"
    have w: "w < s" "rvalid rs w" using A by (simp_all add: sl w_def)
    have fit: "w mod rper rs + d1 < rper rs" using rvalid_fits [OF wf w(2) d1] .
    obtain c where c: "s = rper rs * c" using Cons.prems by (auto simp: sl)
    have "w div rper rs < c" using w(1) c by (simp add: less_mult_imp_div_less mult.commute)
    then have "rper rs * (w div rper rs) + rper rs \<le> s"
      unfolding c by (metis Suc_leI mult.commute mult_Suc mult_le_mono1 add.commute)
    with fit have wd: "w + d1 < s" using mult_div_mod_eq [of "rper rs" w] by linarith
    have jl: "j * s + s \<le> s * l"
      using j by (metis Suc_leI mult.commute mult_Suc mult_le_mono1 add.commute)
    have "?y = (w + d) mod (s * l)"
      using A by (simp add: w_def mod_add_left_eq)
    also have "\<dots> = w + d1 + j * s" using wd jl by (simp add: d)
    finally have yw: "?y = (w + d1) + j * s" by simp
    then have "j = i" and "z = w + d1" using wd s by (simp_all add: i_def z_def)
    then show "d = d0 + i * s" using uniq [OF d1] w(2) d by simp
  qed
qed auto

lemma distinct_rlist: "rwf rs \<Longrightarrow> distinct (rlist rs)"
proof (induction rs)
  case (Cons sl rs)
  obtain s l where sl: "sl = (s, l)" by (cases sl)
  have wf: "rwf rs" and s: "0 < s" and per: "rper rs \<le> s"
    using Cons.prems by (simp_all add: sl dvd_imp_le)
  have "distinct (concat (map (\<lambda>i. map (\<lambda>r. r + i * s) (rlist rs)) [0..<l]))"
  proof (rule distinct_concat_map)
    fix i j :: nat assume "i \<noteq> j"
    show "set (map (\<lambda>r. r + i * s) (rlist rs)) \<inter> set (map (\<lambda>r. r + j * s) (rlist rs)) = {}"
    proof (rule ccontr)
      assume "\<not> ?thesis"
      then obtain a b where ab: "a \<in> set (rlist rs)" "b \<in> set (rlist rs)" "a + i * s = b + j * s" by auto
      then have "a < s" "b < s" using rlist_less [OF wf] per by (meson less_le_trans)+
      then have "(a + i * s) div s = i" "(b + j * s) div s = j" using s by simp_all
      with ab(3) \<open>i \<noteq> j\<close> show False by simp
    qed
  qed (auto simp: distinct_map Cons.IH wf inj_on_def)
  then show ?case by (simp add: sl)
qed simp

lemma length_rlist: "length (rlist rs) = (\<Prod>(s, l) \<leftarrow> rs. l)"
proof (induction rs)
  case (Cons sl rs)
  obtain s l where "sl = (s, l)" by (cases sl)
  then show ?case using Cons by (simp add: length_concat comp_def sum_list_triv)
qed simp

section \<open>The word operations refine the mixed-radix functions\<close>

definition nat_dim :: "u32 \<times> u32 \<Rightarrow> nat \<times> nat" where
  "nat_dim sl = (unat (fst sl), unat (snd sl))"

lemma nat_dim_pair [simp]: "nat_dim (s, l) = (unat s, unat l)"
  by (simp add: nat_dim_def)

definition dims :: "periodic_pattern \<Rightarrow> (nat \<times> nat) list" where
  "dims p = rev (map nat_dim (shape p))"

lemma wf_shape_rwf: "wf_shape (rper rs) sh \<Longrightarrow> rwf rs \<Longrightarrow> rwf (rev (map nat_dim sh) @ rs)"
proof (induction sh arbitrary: rs)
  case (Cons sl sh)
  obtain s l where sl: "sl = (s, l)" by (cases sl)
  have "rwf (rev (map nat_dim sh) @ ((unat s, unat l) # rs))"
    by (rule Cons.IH) (use Cons.prems in \<open>simp_all add: sl\<close>)
  then show ?case by (simp add: sl)
qed simp

lemma wf_pattern_rwf: "wf_pattern p \<Longrightarrow> rwf (dims p)"
  using wf_shape_rwf [of "[]" "shape p"] by (simp add: wf_pattern_def dims_def)

lemma wf_shape_small: "wf_shape m sh \<Longrightarrow> sl \<in> set sh \<Longrightarrow> unat (fst sl) * unat (snd sl) \<le> 2 ^ 24"
  by (induction m sh rule: wf_shape.induct) auto

lemma wf_shape_pos: "wf_shape m sh \<Longrightarrow> sl \<in> set sh \<Longrightarrow> 0 < unat (fst sl) \<and> 0 < unat (snd sl)"
  by (induction m sh rule: wf_shape.induct) auto

lemma unat_mult_24:
  fixes a b :: u32
  assumes "unat a * unat b \<le> 2 ^ 24" shows "unat (a * b) = unat a * unat b"
proof (rule unat_mult_small)
  show "unat a * unat b < 2 ^ LENGTH(32)" by (rule le_less_trans [OF assms]) simp
qed

lemma unat_shift:
  fixes r s :: u32
  assumes "unat r + i * unat s < 2 ^ 32" shows "unat (r + of_nat i * s) = unat r + i * unat s"
proof -
  have "r + of_nat i * s = of_nat (unat r + i * unat s)" by simp
  then have "unat (r + of_nat i * s) = unat (of_nat (unat r + i * unat s) :: u32)" by (rule arg_cong)
  also have "\<dots> = unat r + i * unat s"
    using assms by (subst unat_of_nat) (rule mod_less, simp)
  finally show ?thesis .
qed

lemma unat_expand_dim:
  assumes "map unat res = rlist rs" and "rwf rs" and "rper rs dvd unat s" and "0 < unat s"
    and "unat s * unat l \<le> 2 ^ 24"
  shows "map unat (expand_dim (s, l) res) = rlist ((unat s, unat l) # rs)"
proof -
  have "map unat (map (\<lambda>r. r + of_nat i * s) res) = map (\<lambda>r. r + i * unat s) (map unat res)"
    if i: "i < unat l" for i
  proof -
    have "unat (r + of_nat i * s) = unat r + i * unat s" if "r \<in> set res" for r
    proof (rule unat_shift)
      from that have "unat r \<in> set (rlist rs)" by (simp flip: assms(1))
      then have "unat r < rper rs" by (rule rlist_less [OF assms(2)])
      also have "\<dots> \<le> unat s" using assms(3,4) by (rule dvd_imp_le)
      finally have "unat r + i * unat s < Suc i * unat s" by simp
      also have "\<dots> \<le> unat l * unat s" using i by (intro mult_le_mono1) simp
      also have "\<dots> \<le> 2 ^ 24" using assms(5) by (simp add: mult.commute)
      also have "(2::nat) ^ 24 < 2 ^ 32" by simp
      finally show "unat r + i * unat s < 2 ^ 32" .
    qed
    then show ?thesis by simp
  qed
  then show ?thesis
    unfolding expand_dim_def rlist.simps assms(1) [symmetric] map_concat
    by (auto intro!: arg_cong [where f = concat] simp: comp_def)
qed

lemma unat_fold_expand:
  "wf_shape (rper rs) sh \<Longrightarrow> rwf rs \<Longrightarrow> map unat res = rlist rs \<Longrightarrow>
   map unat (fold expand_dim sh res) = rlist (rev (map nat_dim sh) @ rs)"
proof (induction sh arbitrary: rs res)
  case (Cons sl sh)
  obtain s l where sl: "sl = (s, l)" by (cases sl)
  have "map unat (fold expand_dim sh (expand_dim (s, l) res))
      = rlist (rev (map nat_dim sh) @ ((unat s, unat l) # rs))"
  proof (rule Cons.IH)
    show "map unat (expand_dim (s, l) res) = rlist ((unat s, unat l) # rs)"
      by (rule unat_expand_dim) (use Cons.prems in \<open>simp_all add: sl\<close>)
  qed (use Cons.prems in \<open>simp_all add: sl\<close>)
  then show ?case by (simp add: sl)
qed simp

lemma unat_to_list: "wf_pattern p \<Longrightarrow> map unat (to_list p) = rlist (dims p)"
  unfolding to_list_def dims_def
  using unat_fold_expand [of "[]" "shape p" "[0]"] by (simp add: wf_pattern_def)

lemma offset_loop_rvalid:
  assumes "\<And>sl. sl \<in> set sh \<Longrightarrow> unat (fst sl) * unat (snd sl) \<le> 2 ^ 24 \<and> 0 < unat (fst sl) * unat (snd sl)"
  shows "offset_loop sh off = Ok (rvalid (map nat_dim sh) (unat off))"
  using assms
proof (induction sh arbitrary: off)
  case (Cons sl sh)
  obtain s l where sl: "sl = (s, l)" by (cases sl)
  have m: "unat (s * l) = unat s * unat l" and pos: "0 < unat s * unat l"
    using Cons.prems [of sl] by (simp_all add: sl unat_mult_24)
  have nz: "s * l \<noteq> 0" using m pos by (metis less_numeral_extra(3) unat_0)
  have IH: "offset_loop sh (off mod (s * l)) = Ok (rvalid (map nat_dim sh) (unat (off mod (s * l))))"
    using Cons by simp
  have "off mod (s * l) \<ge> s \<longleftrightarrow> \<not> unat off mod (unat s * unat l) < unat s"
    by (simp add: word_le_nat_alt unat_mod m not_less)
  then show ?case using nz IH by (simp add: sl Let_def unat_mod m)
qed simp

lemma offset_is_valid_rvalid: "wf_pattern p \<Longrightarrow> offset_is_valid p off = Ok (rvalid (dims p) (unat off))"
  unfolding offset_is_valid_def dims_def rev_map
  by (rule offset_loop_rvalid) (use wf_shape_small wf_shape_pos in \<open>fastforce simp: wf_pattern_def\<close>)

lemma pp_period_rper: "wf_pattern p \<Longrightarrow> \<exists>w. pp_period p = Ok w \<and> unat w = rper (dims p)"
proof -
  assume wf: "wf_pattern p"
  then have ne: "shape p \<noteq> []" by (auto simp: wf_pattern_def NUM_DIMS_def)
  obtain s l where sl: "last (shape p) = (s, l)" by (cases "last (shape p)")
  have "unat s * unat l \<le> 2 ^ 24"
    using wf wf_shape_small [of 1 "shape p" "(s, l)"] last_in_set [OF ne] by (simp add: wf_pattern_def sl)
  then have "unat (s * l) = unat s * unat l" by (rule unat_mult_24)
  moreover have "dims p = (unat s, unat l) # rev (map nat_dim (butlast (shape p)))"
  proof -
    have "shape p = butlast (shape p) @ [(s, l)]" using append_butlast_last_id [OF ne] sl by simp
    then have "rev (map nat_dim (shape p)) = rev (map nat_dim (butlast (shape p) @ [(s, l)]))" by simp
    then show ?thesis by (simp add: dims_def)
  qed
  ultimately show ?thesis using ne by (simp add: pp_period_def sl)
qed

lemma rper_dims_le: "wf_pattern p \<Longrightarrow> rper (dims p) \<le> 2 ^ 24"
proof -
  assume wf: "wf_pattern p"
  have "\<forall>(s, l) \<in> set (dims p). s * l \<le> 2 ^ 24"
    using wf wf_shape_small [of 1 "shape p"] by (auto simp: wf_pattern_def dims_def nat_dim_def)
  then show ?thesis by (cases "dims p") auto
qed

section \<open>Patterns built from index lists\<close>

lemma is_periodic_nth:
  assumes "is_periodic p d" and "0 < d" and "q * d + r < length p"
  shows "p ! (q * d + r) = p ! r + of_nat q * p ! d"
  using assms(3)
proof (induction q)
  case (Suc q)
  have "(q * d + r) < length p - d" using Suc.prems by simp
  then have "p ! (q * d + r) + p ! d = p ! (q * d + r + d)"
    using assms(1) by (auto simp: is_periodic_def list_all_iff)
  then show ?case using Suc by (simp add: algebra_simps)
qed simp

lemma expand_period:
  assumes per: "is_periodic p d" and d: "0 < d" and len: "length p = k * d" and k: "k < 2 ^ 32"
    and k1: "1 < k"
  shows "expand_dim (p ! d, of_nat k) (take d p) = p"
proof -
  have uk: "unat (of_nat k :: u32) = k" using k by (subst unat_of_nat) (rule mod_less, simp)
  have "map (\<lambda>r. r + of_nat q * p ! d) (take d p) = subrange (q * d) (q * d + d) p" if "q < k" for q
  proof (rule nth_equalityI)
    have kd: "q * d + d \<le> k * d"
      using that by (metis Suc_leI mult_Suc mult_le_mono1 add.commute)
    then show "length (map (\<lambda>r. r + of_nat q * p ! d) (take d p)) = length (subrange (q * d) (q * d + d) p)"
      using len k1 by simp
    fix i assume "i < length (map (\<lambda>r. r + of_nat q * p ! d) (take d p))"
    then have i: "i < d" by simp
    have "p ! (q * d + i) = p ! i + of_nat q * p ! d"
      using i kd len by (intro is_periodic_nth [OF per d]) linarith
    then show "map (\<lambda>r. r + of_nat q * p ! d) (take d p) ! i = subrange (q * d) (q * d + d) p ! i"
      using i kd len k1 by (simp add: nth_subrange)
  qed
  then have "map (\<lambda>i. map (\<lambda>r. r + of_nat i * p ! d) (take d p)) [0..<k]
      = map (\<lambda>q. subrange (q * d) (q * d + d) p) [0..<k]" by (intro map_cong) auto
  then have "concat (map (\<lambda>i. map (\<lambda>r. r + of_nat i * p ! d) (take d p)) [0..<k]) = p"
    by (simp only: concat_chunks [OF len])
  then show ?thesis unfolding expand_dim_def by (simp only: uk fst_conv snd_conv)
qed

lemma decompose_expand:
  "decompose p acc = Ok sh \<Longrightarrow> p \<noteq> [] \<Longrightarrow> hd p = 0 \<Longrightarrow> length p < 2 ^ 32 \<Longrightarrow>
   \<exists>sh1. sh = sh1 @ acc \<and> fold expand_dim sh1 [0] = p"
proof (induction p acc rule: decompose.induct)
  case (1 p acc)
  show ?case
  proof (cases "length p \<le> 1")
    case True
    then have "p = [0]" using "1.prems" by (cases p) auto
    then show ?thesis using "1.prems"(1) by (simp add: decompose.simps [of "[0]"])
  next
    case False
    then obtain d where d: "find_period p = Some d"
      using "1.prems"(1) by (auto simp: decompose.simps [of p acc] split: option.splits)
    note fp = find_period_Some [OF d]
    obtain k where k: "length p = k * d" using fp by (metis dvd_def mult.commute)
    have kd: "length p div d = k" using fp k by simp
    have k1: "1 < k" using fp k by (metis One_nat_def Suc_lessI less_irrefl mult_eq_0_iff nat_mult_1 neq0_conv less_nat_zero_code)
    let ?acc = "(p ! d, of_nat (length p div d)) # acc"
    have "decompose (take d p) ?acc = Ok sh"
      using "1.prems"(1) False d by (simp add: decompose.simps [of p acc])
    moreover have "take d p \<noteq> []" "hd (take d p) = 0" "length (take d p) < 2 ^ 32"
      using "1.prems" fp by (auto simp: hd_take)
    ultimately obtain sh1 where sh: "sh = sh1 @ ?acc" and ex: "fold expand_dim sh1 [0] = take d p"
      using "1.IH" [OF False d] by blast
    have "k \<le> length p" using fp k by simp
    then have k32: "k < 2 ^ 32" using "1.prems"(4) by (rule le_less_trans)
    have "expand_dim (p ! d, of_nat k) (take d p) = p"
      using fp k by (intro expand_period k1 k32) auto
    then have "fold expand_dim (sh1 @ [(p ! d, of_nat (length p div d))]) [0] = p"
      by (simp add: ex kd)
    then show ?thesis using sh by (intro exI [of _ "sh1 @ [(p ! d, of_nat (length p div d))]"]) simp
  qed
qed

lemma expand_dim_1 [simp]: "expand_dim (s, 1) res = res"
  by (simp add: expand_dim_def)

lemma fold_expand_pad: "fold expand_dim (pad_dims sh) [0] = fold expand_dim sh [0]"
proof -
  have "fold expand_dim (replicate n (s, 1)) res = res" for n s res
    by (induction n) simp_all
  then show ?thesis by (simp add: pad_dims_def Let_def)
qed

lemma from_list_Ok:
  assumes "from_list xs = Ok p" and "length xs < 2 ^ 32"
  shows "to_list p = xs" and "wf_pattern p" and "is_valid p = Ok True"
proof -
  from assms(1) obtain sh where ne: "xs \<noteq> []" and hd: "hd xs = 0" and dec: "decompose xs [] = Ok sh"
    and p: "p = \<lparr>shape = pad_dims sh\<rparr>" and v: "is_valid p = Ok True"
    by (auto simp: from_list_def res_simps Let_def split: if_splits)
  from decompose_expand [OF dec ne hd assms(2)] have "fold expand_dim sh [0] = xs" by simp
  then show "to_list p = xs" by (simp add: to_list_def p fold_expand_pad)
  show "wf_pattern p" using v by (rule is_valid_wf)
  show "is_valid p = Ok True" by (rule v)
qed

lemma list_to_pattern_Ok:
  assumes "list_to_pattern xs = Ok (p, off)" and "length xs < 2 ^ 32"
  shows "indices_with_offset p off = xs" and "wf_pattern p" and "offset_is_valid p off = Ok True"
proof -
  from assms(1) have off: "off = hd xs" and fl: "from_list (map (\<lambda>i. i - off) xs) = Ok p"
    and v: "offset_is_valid p off = Ok True"
    by (auto simp: list_to_pattern_def res_simps Let_def split: if_splits)
  have "to_list p = map (\<lambda>i. i - off) xs" and wf: "wf_pattern p"
    using from_list_Ok [OF fl] assms(2) by simp_all
  then show "indices_with_offset p off = xs" by (simp add: indices_with_offset_def comp_def)
  show "wf_pattern p" "offset_is_valid p off = Ok True" by (rule wf, rule v)
qed

section \<open>The partition of a matrix dimension\<close>

lemma threads_partition_tiles:
  assumes wf: "wf_pattern p" and dim: "dim < 2 ^ 32" and dvd: "rper (dims p) dvd dim"
  shows "threads_partition p dim = Ok (map (\<lambda>off. map ((+) off) (rlist (dims p)))
      (filter (rvalid (dims p)) [0..<dim]))"
proof -
  obtain w where w: "pp_period p = Ok w" "unat w = rper (dims p)" using pp_period_rper [OF wf] by blast
  have pos: "0 < rper (dims p)" by (rule rper_pos [OF wf_pattern_rwf [OF wf]])
  have "res_map (\<lambda>i. res_bind (offset_is_valid p (of_nat i)) (\<lambda>v. Ok (i, v))) [0..<dim]
      = Ok (map (\<lambda>i. (i, rvalid (dims p) i)) [0..<dim])"
  proof (rule res_map_all_Ok)
    fix i assume "i \<in> set [0..<dim]"
    then have "i < 2 ^ 32" using dim by simp
    then have "unat (of_nat i :: u32) = i" by (subst unat_of_nat) (rule mod_less, simp)
    then show "res_bind (offset_is_valid p (of_nat i)) (\<lambda>v. Ok (i, v)) = Ok (i, rvalid (dims p) i)"
      by (simp add: offset_is_valid_rvalid [OF wf])
  qed
  moreover have "dim mod unat w = 0" "unat w \<noteq> 0" using dvd pos w(2) by simp_all
  ultimately show ?thesis
    by (simp add: threads_partition_def w(1) unat_to_list [OF wf] filter_map comp_def)
qed

lemma partition_mem:
  assumes wf: "rwf rs" and dvd: "rper rs dvd dim"
  shows "(\<Union>off \<in> {off. off < dim \<and> rvalid rs off}. (+) off ` set (rlist rs)) = {0..<dim}"
proof (intro equalityI subsetI)
  fix x assume "x \<in> (\<Union>off \<in> {off. off < dim \<and> rvalid rs off}. (+) off ` set (rlist rs))"
  then obtain off d where off: "off < dim" "rvalid rs off" and d: "d \<in> set (rlist rs)" and x: "x = off + d"
    by auto
  obtain c where c: "dim = rper rs * c" using dvd by blast
  have "off div rper rs < c" using off(1) c by (simp add: less_mult_imp_div_less mult.commute)
  then have "rper rs * (off div rper rs) + rper rs \<le> dim"
    unfolding c by (metis Suc_leI mult.commute mult_Suc mult_le_mono1 add.commute)
  moreover have "off mod rper rs + d < rper rs" by (rule rvalid_fits [OF wf off(2) d])
  ultimately show "x \<in> {0..<dim}" using mult_div_mod_eq [of "rper rs" off] unfolding x atLeastLessThan_iff by linarith
next
  fix x assume "x \<in> {0..<dim}"
  moreover obtain d where "d \<in> set (rlist rs)" "d \<le> x" "rvalid rs (x - d)"
    using rlist_decompose [OF wf, of x] by blast
  ultimately show "x \<in> (\<Union>off \<in> {off. off < dim \<and> rvalid rs off}. (+) off ` set (rlist rs))"
    by (intro UN_I [of "x - d"] image_eqI [of x _ d]) auto
qed

lemma partition_distinct:
  assumes wf: "rwf rs"
  shows "distinct (concat (map (\<lambda>off. map ((+) off) (rlist rs)) (filter (rvalid rs) [0..<dim])))"
proof (rule distinct_concat_map)
  fix x y :: nat
  assume "x \<in> set (filter (rvalid rs) [0..<dim])" "y \<in> set (filter (rvalid rs) [0..<dim])" "x \<noteq> y"
  then have v: "rvalid rs x" "rvalid rs y" by simp_all
  show "set (map ((+) x) (rlist rs)) \<inter> set (map ((+) y) (rlist rs)) = {}"
  proof (rule ccontr)
    assume "\<not> ?thesis"
    then obtain a b where ab: "a \<in> set (rlist rs)" "b \<in> set (rlist rs)" "x + a = y + b" by auto
    have "a = b"
      using rlist_decompose [OF wf, of "x + a"] ab v
      by (metis add_diff_cancel_right' le_add2)
    with ab(3) \<open>x \<noteq> y\<close> show False by simp
  qed
qed (auto simp: distinct_map distinct_rlist wf)

section \<open>One string of bytes for each index list\<close>

text \<open>The dimensions a decoder that has read \<open>m\<close> (the period so far) and \<open>d\<close> (whether a trivial dimension has been
  read) accepts: proper dimensions, each with a stride above the period, and then trivial ones.\<close>

fun canonical :: "nat \<Rightarrow> bool \<Rightarrow> (nat \<times> nat) list \<Rightarrow> bool" where
  "canonical m d [] = True"
| "canonical m d ((s, l) # sh) \<longleftrightarrow>
     (if l = 1 \<or> d then s = m \<and> l = 1 \<and> canonical m True sh
      else m dvd s \<and> 0 < s \<and> 0 < l \<and> (m = 1 \<or> m < s) \<and> canonical (s * l) False sh)"

lemma from_bytes_loop_canonical:
  "from_bytes_loop bs m d = Ok sh \<Longrightarrow> 0 < unat m \<Longrightarrow> canonical (unat m) d (map nat_dim sh)"
proof (induction bs arbitrary: m d sh rule: induct_list012)
  case (3 b0 b1 rest)
  let ?f = "1 + ucast b0 :: u32" and ?l = "1 + ucast b1 :: u32"
  obtain d' sh' where le: "m \<le> 16777216 div (?f * ?l)"
    and rest: "from_bytes_loop rest (?f * m * ?l) d' = Ok sh'" and sh: "sh = (?f * m, ?l) # sh'"
    and d': "if ?l = 1 \<or> d then ?f = 1 \<and> ?l = 1 \<and> d' else \<not> (?f \<le> 1 \<and> m \<noteq> 1) \<and> d' = d"
    using "3.prems"(1) by (auto simp: Let_def res_simps split: if_splits)
  note b = stride_bounds [OF le]
  have pos: "0 < unat (?f * m * ?l)" using b "3.prems"(2) by simp
  have IH: "canonical (unat (?f * m * ?l)) d' (map nat_dim sh')" using "3.IH"(1) [OF rest pos] .
  have one: "?l = 1 \<longleftrightarrow> unat ?l = 1" by (metis unat_1 word_unat_eq_iff)
  show ?case
  proof (cases "?l = 1 \<or> d")
    case True
    then have "?f = 1" "?l = 1" "d'" using d' by auto
    then show ?thesis using IH by (simp add: sh)
  next
    case False
    then have g: "m = 1 \<or> 1 < unat ?f" "d' = d" "\<not> d" using d' by (auto simp: word_le_nat_alt)
    have "unat m = 1 \<or> unat m < unat ?f * unat m" using g(1) "3.prems"(2) by auto
    then show ?thesis using False IH b "3.prems"(2) one g(2) by (simp add: sh)
  qed
qed auto

text \<open>The index list, built up from the last dimension.\<close>

fun dims_list :: "(nat \<times> nat) list \<Rightarrow> nat list" where
  "dims_list [] = [0]"
| "dims_list ((s, l) # sh) = concat (map (\<lambda>b. map (\<lambda>i. b + i * s) [0..<l]) (dims_list sh))"

lemma concat_of_concat: "concat (concat xss) = concat (map concat xss)"
  by (induction xss) simp_all

lemma rlist_append: "rlist (rs @ [(s, l)]) = concat (map (\<lambda>b. map (\<lambda>i. b + i * s) [0..<l]) (rlist rs))"
proof (induction rs)
  case (Cons sl rs)
  obtain s' l' where sl: "sl = (s', l')" by (cases sl)
  have "rlist ((sl # rs) @ [(s, l)]) = concat (map (\<lambda>i. map (\<lambda>r. r + i * s') (concat (map (\<lambda>b. map (\<lambda>i. b + i * s) [0..<l]) (rlist rs)))) [0..<l'])"
    by (simp add: sl Cons)
  also have "\<dots> = concat (map (\<lambda>b. map (\<lambda>i. b + i * s) [0..<l]) (concat (map (\<lambda>i. map (\<lambda>r. r + i * s') (rlist rs)) [0..<l'])))"
    by (simp add: map_concat concat_of_concat comp_def add.assoc add.commute add.left_commute)
  finally show ?case by (simp add: sl)
qed simp

lemma dims_list_rlist: "dims_list sh = rlist (rev sh)"
  by (induction sh rule: dims_list.induct) (simp_all add: rlist_append)

lemma length_dims_list_Cons: "length (dims_list ((s, l) # sh)) = length (dims_list sh) * l"
  by (simp add: length_concat comp_def sum_list_triv)

lemma dims_list_ne: "canonical m d sh \<Longrightarrow> 0 < length (dims_list sh)"
  by (induction m d sh rule: canonical.induct) (auto simp: length_dims_list_Cons simp del: dims_list.simps(2) split: if_splits)

lemma nth_dims_list: "j < length (dims_list sh) \<Longrightarrow> i < l \<Longrightarrow> dims_list ((s, l) # sh) ! (j * l + i) = dims_list sh ! j + i * s"
proof -
  have "concat (map (\<lambda>b. map (\<lambda>i. b + i * s) [0..<l]) xs) ! (j * l + i) = xs ! j + i * s" if "j < length xs" "i < l" for xs j
    using that
  proof (induction xs arbitrary: j)
    case (Cons x xs)
    show ?case
    proof (cases j)
      case 0
      then show ?thesis using Cons.prems by (simp add: nth_append)
    next
      case (Suc k)
      then show ?thesis using Cons.IH [of k] Cons.prems by (simp add: nth_append)
    qed
  qed simp
  then show "j < length (dims_list sh) \<Longrightarrow> i < l \<Longrightarrow> dims_list ((s, l) # sh) ! (j * l + i) = dims_list sh ! j + i * s" by simp
qed

lemma dims_list_0: "canonical m d sh \<Longrightarrow> dims_list sh ! 0 = 0"
proof (induction m d sh rule: canonical.induct)
  case (2 m d s l sh)
  have "\<exists>m d. canonical m d sh \<and> 0 < l \<and> dims_list sh ! 0 = 0" using 2 by (auto split: if_splits)
  then obtain m' d' where sh: "canonical m' d' sh" "0 < l" "dims_list sh ! 0 = 0" by blast
  then show ?case using nth_dims_list [OF dims_list_ne [OF sh(1)], of 0 l s] by (simp del: dims_list.simps)
qed simp

lemma dims_list_trivial: "canonical m True sh \<Longrightarrow> length (dims_list sh) = 1"
  by (induction sh) (auto simp: length_dims_list_Cons simp del: dims_list.simps(2))

text \<open>The second element is the first proper stride.\<close>

lemma dims_list_1:
  assumes "canonical m d ((s, l) # sh)" "l \<noteq> 1" shows "dims_list ((s, l) # sh) ! 1 = s" "1 < length (dims_list ((s, l) # sh))"
proof -
  have c: "canonical (s * l) False sh" "1 < l" using assms by (auto split: if_splits)
  note ne = dims_list_ne [OF c(1)]
  show "dims_list ((s, l) # sh) ! 1 = s" using nth_dims_list [OF ne c(2), of s] dims_list_0 [OF c(1)] by (simp del: dims_list.simps)
  have "1 * 1 < length (dims_list sh) * l" using ne c(2) by (metis One_nat_def less_le_trans mult.right_neutral mult_le_mono1 Suc_leI nat_mult_1)
  then show "1 < length (dims_list ((s, l) # sh))" by (simp only: length_dims_list_Cons)
qed

lemma dims_list_after:
  assumes c: "canonical m d ((s, l) # sh)" "l \<noteq> 1" and more: "l < length (dims_list ((s, l) # sh))"
  shows "l * s < dims_list ((s, l) # sh) ! l"
proof -
  have c': "canonical (s * l) False sh" "1 < l" "0 < s" using c by (auto split: if_splits)
  have len: "1 < length (dims_list sh)" using more c'(2) by (simp add: length_dims_list_Cons del: dims_list.simps)
  then obtain s' l' sh' where sh: "sh = (s', l') # sh'" by (cases sh) auto
  have l': "l' \<noteq> 1"
  proof
    assume "l' = 1"
    then have "canonical (s * l) True sh'" "length (dims_list sh) = length (dims_list sh')" using c'(1) by (simp_all add: sh length_dims_list_Cons del: dims_list.simps)
    then show False using dims_list_trivial len by auto
  qed
  then have "s * l < s'" using c'(1,2,3) by (auto simp: sh)
  moreover have "dims_list ((s, l) # sh) ! l = dims_list sh ! 1" using nth_dims_list [OF len, of 0 l s] c'(2) by (simp del: dims_list.simps)
  moreover have "dims_list sh ! 1 = s'" using dims_list_1(1) [OF c'(1) [unfolded sh] l'] by (simp add: sh del: dims_list.simps)
  ultimately show ?thesis by (simp add: mult.commute)
qed

lemma canonical_unique:
  assumes "canonical m d sh" "canonical m d sh'" "length sh = length sh'" "dims_list sh = dims_list sh'"
  shows "sh = sh'"
  using assms(3,1,2,4)
proof (induction sh sh' arbitrary: m d rule: list_induct2)
  case (Cons x sh y sh')
  obtain s l where x: "x = (s, l)" by (cases x)
  obtain s' l' where y: "y = (s', l')" by (cases y)
  note c = Cons.prems(1) [unfolded x] and c' = Cons.prems(2) [unfolded y] and eq = Cons.prems(3) [unfolded x y]
  show ?case
  proof (cases "l = 1 \<or> l' = 1")
    case True
    have "l = 1 \<and> l' = 1"
    proof (rule ccontr)
      assume "\<not> (l = 1 \<and> l' = 1)"
      then consider "l = 1" "l' \<noteq> 1" | "l \<noteq> 1" "l' = 1" using True by blast
      then show False
      proof cases
        case 1
        have "length (dims_list ((s, l) # sh)) = 1" using dims_list_trivial [of m "(s, l) # sh"] c 1(1) by simp
        then show False using dims_list_1(2) [OF c' 1(2)] eq by simp
      next
        case 2
        have "length (dims_list ((s', l') # sh')) = 1" using dims_list_trivial [of m "(s', l') # sh'"] c' 2(2) by simp
        then show False using dims_list_1(2) [OF c 2(1)] eq by simp
      qed
    qed
    then have "x = y" "canonical m True sh" "canonical m True sh'" "dims_list sh = dims_list sh'" using c c' eq by (simp_all add: x y)
    then show ?thesis using Cons.IH by blast
  next
    case False
    then have l: "l \<noteq> 1" "l' \<noteq> 1" by simp_all
    have s: "s' = s" using dims_list_1(1) [OF c l(1)] dims_list_1(1) [OF c' l(2)] eq by simp
    have run: "dims_list ((s, l) # sh) ! i = i * s" if "i < l" "canonical m d ((s, l) # sh)" "l \<noteq> 1" for l sh i
    proof -
      have "canonical (s * l) False sh" using that by (auto split: if_splits)
      then show ?thesis using nth_dims_list [OF dims_list_ne that(1), of "s * l" False sh s] dims_list_0 [of "s * l" False sh] by (simp del: dims_list.simps)
    qed
    have no: "\<not> k < k'" if "canonical m d ((s, k) # zs)" "canonical m d ((s, k') # zs')" "k \<noteq> 1" "k' \<noteq> 1" "dims_list ((s, k) # zs) = dims_list ((s, k') # zs')" for k k' zs zs'
    proof
      assume "k < k'"
      then have "dims_list ((s, k) # zs) ! k = k * s" using run [OF _ that(2,4)] that(5) by simp
      moreover have "0 < length (dims_list zs')" using that(2,4) by (intro dims_list_ne [of "s * k'" False]) (auto split: if_splits)
      then have "k' \<le> length (dims_list ((s, k') # zs'))" by (simp add: length_dims_list_Cons Suc_le_eq del: dims_list.simps)
      then have "k < length (dims_list ((s, k) # zs))" using \<open>k < k'\<close> that(5) by simp
      ultimately show False using dims_list_after [OF that(1,3)] by simp
    qed
    have ll: "l' = l" using no [OF c c' [unfolded s] l eq [unfolded s]] no [OF c' [unfolded s] c l(2,1) eq [unfolded s, symmetric]] by simp
    have sub: "canonical (s * l) False sh" "canonical (s * l) False sh'" "0 < l" using c c' l by (auto simp: s ll split: if_splits)
    have "dims_list sh = dims_list sh'"
    proof (rule nth_equalityI)
      show len: "length (dims_list sh) = length (dims_list sh')" using arg_cong [OF eq, of length] sub(3) by (simp add: length_dims_list_Cons ll del: dims_list.simps)
      fix j assume j: "j < length (dims_list sh)"
      then show "dims_list sh ! j = dims_list sh' ! j"
        using nth_dims_list [OF j sub(3), of s] nth_dims_list [OF j [unfolded len] sub(3), of s] eq by (simp add: s ll del: dims_list.simps)
    qed
    then show ?thesis using Cons.IH [OF sub(1,2)] by (simp add: x y s ll)
  qed
qed simp

lemma pattern_bytes_unique:
  assumes "pp_from_bytes bs = Ok p" "pp_from_bytes cs = Ok q" "to_list p = to_list q"
  shows "bs = cs"
proof -
  have shapes: "canonical 1 False (map nat_dim (shape r)) \<and> length (shape r) = 3 \<and> dims_list (map nat_dim (shape r)) = map unat (to_list r)"
    if "pp_from_bytes ds = Ok r" for ds r
  proof -
    have "from_bytes_loop ds 1 False = Ok (shape r)" using that by (auto simp: pp_from_bytes_def res_simps)
    then have "canonical 1 False (map nat_dim (shape r))" using from_bytes_loop_canonical [of ds 1 False "shape r"] by simp
    moreover have "wf_pattern r" by (rule pp_from_bytes_wf [OF that])
    moreover have "dims_list (map nat_dim (shape r)) = map unat (to_list r)"
      unfolding unat_to_list [OF \<open>wf_pattern r\<close>] dims_def by (rule dims_list_rlist)
    ultimately show ?thesis by (simp add: wf_pattern_def NUM_DIMS_def)
  qed
  have "map nat_dim (shape p) = map nat_dim (shape q)"
    using shapes [OF assms(1)] shapes [OF assms(2)] assms(3) by (intro canonical_unique [of 1 False]) simp_all
  moreover have "inj nat_dim" by (rule injI) (simp add: nat_dim_def prod_eq_iff word_unat_eq_iff)
  ultimately have "shape p = shape q" by (simp add: inj_map_eq_map)
  then have "p = q" by (cases p; cases q) simp
  then show ?thesis using pp_from_bytes_to_bytes [OF assms(1)] pp_from_bytes_to_bytes [OF assms(2)] by simp
qed

section \<open>Properties\<close>

text \<open>C30: \<open>PeriodicPattern::from_bytes\<close> accepts only canonical encodings: whatever it decodes,
  \<open>to_bytes\<close> encodes back to the very same six bytes, the pattern has three well-formed
  dimensions (every stride a positive multiple of the previous period, lengths 1..256, periods
  at most 2^24) and is reported valid; and no other six bytes that it accepts describe the same
  index list, since a trivial dimension may only be followed by trivial ones and a stride may not
  be split over two dimensions.\<close>

theorem pattern_decode_canonical:
  assumes "pp_from_bytes bs = Ok p"
  shows "pp_to_bytes p = Ok bs \<and> wf_pattern p \<and> is_valid p = Ok True
    \<and> (\<forall>cs q. pp_from_bytes cs = Ok q \<and> to_list q = to_list p \<longrightarrow> cs = bs)"
proof (intro conjI allI impI)
  show "pp_to_bytes p = Ok bs" "wf_pattern p" by (rule pp_from_bytes_to_bytes [OF assms], rule pp_from_bytes_wf [OF assms])
  then show "is_valid p = Ok True" unfolding is_valid_roundtrip using assms by blast
qed (use pattern_bytes_unique [OF _ assms] in blast)

theorem pattern_decode_canonical_witness:
  "pp_to_bytes \<lparr>shape = [(8, 2), (16, 1), (16, 1)]\<rparr> = Ok [7, 1, 0, 0, 0, 0]
   \<and> {cs. \<exists>q. pp_from_bytes cs = Ok q \<and> to_list q = [0, 8]} = {[7, 1, 0, 0, 0, 0]}"
proof -
  have d: "pp_from_bytes [7, 1, 0, 0, 0, 0] = Ok \<lparr>shape = [(8, 2), (16, 1), (16, 1)]\<rparr>"
    by (simp add: pp_from_bytes_def NUM_DIMS_def Let_def)
  have l: "to_list \<lparr>shape = [(8, 2), (16, 1), (16, 1)]\<rparr> = [0, 8]" by code_simp
  from pattern_decode_canonical [OF d] d l show ?thesis by auto
qed

text \<open>C31: \<open>PeriodicPattern::from_list\<close> is a right inverse of \<open>to_list\<close>: a list it accepts is the
  list its pattern enumerates, and the pattern survives serialization.  (The length bound only
  says that the list is shorter than the 2^32 values its elements can take.)\<close>

theorem pattern_from_list_to_list:
  assumes "from_list xs = Ok p" and "length xs < 2 ^ 32"
  shows "to_list p = xs \<and> wf_pattern p \<and> (\<exists>bs. pp_to_bytes p = Ok bs \<and> pp_from_bytes bs = Ok p)"
  using from_list_Ok [OF assms] is_valid_roundtrip [of p] by simp

theorem pattern_from_list_to_list_witness:
  "from_list [0, 1, 8, 9] = Ok \<lparr>shape = [(1, 2), (8, 2), (16, 1)]\<rparr> \<and>
   to_list \<lparr>shape = [(1, 2), (8, 2), (16, 1)]\<rparr> = [0, 1, 8, 9]"
proof -
  have "from_list [0, 1, 8, 9] = Ok \<lparr>shape = [(1, 2), (8, 2), (16, 1)]\<rparr>" by code_simp
  with pattern_from_list_to_list [OF this] show ?thesis by simp
qed

text \<open>C19: the threads of \<open>threads_partition\<close> partition the matrix dimension: for every valid
  pattern whose period divides the dimension, the call succeeds and every row index below the
  dimension is worked on by exactly one thread, exactly once.\<close>

theorem threads_partition_exact:
  assumes "wf_pattern p" and "dim < 2 ^ 32"
    and "pp_period p = Ok period" and "unat period dvd dim"
  shows "\<exists>tiles. threads_partition p dim = Ok tiles \<and>
    distinct (concat tiles) \<and> set (concat tiles) = {0..<dim}"
proof -
  have dvd: "rper (dims p) dvd dim" using pp_period_rper [OF assms(1)] assms(3,4) by auto
  note wf = wf_pattern_rwf [OF assms(1)]
  show ?thesis
    unfolding threads_partition_tiles [OF assms(1,2) dvd]
    using partition_distinct [OF wf, of dim] partition_mem [OF wf dvd] by (auto simp: Bex_def)
qed

theorem threads_partition_exact_witness:
  "\<exists>tiles. threads_partition \<lparr>shape = [(8, 2), (16, 1), (16, 1)]\<rparr> 32 = Ok tiles \<and>
    distinct (concat tiles) \<and> set (concat tiles) = {0..<32}"
  by (rule threads_partition_exact [where period = 16])
     (simp_all add: wf_pattern_def NUM_DIMS_def pp_period_def)

text \<open>A pattern with four proper dimensions is sorted, starts at 0 and is periodic, yet
  \<open>from_list\<close> does not return its error for it: converting the four-element shape vector to
  three dimensions is an \<open>unwrap\<close> that panics.  The same holds where a stride times its length
  wraps to 0: the padding dimension then makes \<open>to_bytes\<close> divide by zero.\<close>

theorem from_list_panics:
  "from_list [0, 1, 3, 4, 9, 10, 12, 13, 27, 28, 30, 31, 36, 37, 39, 40] = Panic \<and>
   from_list [0, 2147483648] = Panic"
  by code_simp

end
