(* ===== verification/Headers.thy ===== *)
theory Headers
  imports Periodic_Pattern
begin

text \<open>
  The wire formats of deps/zk-pow/src/api/proof.rs and api/proof_utils.rs: the 76-byte
  incomplete block header, the 52-byte mining configuration, the 164-byte public data and the
  proof data, with their readers.  Fixed-size arrays (\<open>[u8; 32]\<close>) are byte lists; the
  predicates \<open>wf_...\<close> state their lengths, which the Rust types enforce.
\<close>

section \<open>Data\<close>

record block_header =
  hversion :: u32
  prev_block :: bytes
  merkle_root :: bytes
  timestamp :: u32
  nbits :: u32

datatype mma_type = Int7xInt7ToInt32

record mining_config =
  common_dim :: u32
  rank :: u16
  mma_type :: mma_type
  rows_pattern :: periodic_pattern
  cols_pattern :: periodic_pattern
  reserved :: bytes

record public_params =
  p_header :: block_header
  p_config :: mining_config
  hash_a :: bytes
  hash_b :: bytes
  hash_jackpot :: bytes
  p_m :: u32
  p_n :: u32
  t_rows :: u32
  t_cols :: u32

record zk_proof =
  pow_bits :: bytes
  rate_bits :: bytes
  zeta :: bytes
  plonky2_proof :: bytes

definition RESERVED_VALUE :: bytes where "RESERVED_VALUE = replicate 32 0"

definition wf_header :: "block_header \<Rightarrow> bool" where
  "wf_header h \<longleftrightarrow> length (prev_block h) = 32 \<and> length (merkle_root h) = 32"

definition wf_zk_proof :: "zk_proof \<Rightarrow> bool" where
  "wf_zk_proof z \<longleftrightarrow> length (pow_bits z) = 3 \<and> length (rate_bits z) = 3 \<and> length (zeta z) = 16"

section \<open>Incomplete block header\<close>

definition header_to_bytes :: "block_header \<Rightarrow> bytes" where
  "header_to_bytes h = u32_le (hversion h) @ rev (prev_block h) @ rev (merkle_root h)
     @ u32_le (timestamp h) @ u32_le (nbits h)"

definition header_from_bytes :: "bytes \<Rightarrow> (anyhow, block_header) res" where
  "header_from_bytes data =
     res_bind (ensure (length data = 76) ''Expected 76 bytes'') (\<lambda>_. Ok
       \<lparr>hversion = u32_from_le (subrange 0 4 data),
        prev_block = rev (subrange 4 36 data),
        merkle_root = rev (subrange 36 68 data),
        timestamp = u32_from_le (subrange 68 72 data),
        nbits = u32_from_le (subrange 72 76 data)\<rparr>)"

section \<open>Mining configuration\<close>

fun mma_to_u16 :: "mma_type \<Rightarrow> u16" where
  "mma_to_u16 Int7xInt7ToInt32 = 0"

text \<open>\<open>bytes.try_into().unwrap()\<close> into the 52-byte array panics on any other length.\<close>

definition config_to_bytes :: "mining_config \<Rightarrow> (anyhow, bytes) res" where
  "config_to_bytes c =
     res_bind (pp_to_bytes (rows_pattern c)) (\<lambda>rows.
     res_bind (pp_to_bytes (cols_pattern c)) (\<lambda>cols.
     let bs = u32_le (common_dim c) @ u16_le (rank c) @ u16_le (mma_to_u16 (mma_type c))
       @ rows @ cols @ reserved c
     in if length bs = 52 then Ok bs else Panic))"

definition config_from_bytes :: "bytes \<Rightarrow> (anyhow, mining_config) res" where
  "config_from_bytes data =
     res_bind (ensure (length data = 52) ''Expected 52 bytes'') (\<lambda>_.
     res_bind (if u16_from_le (subrange 6 8 data) = 0 then Ok Int7xInt7ToInt32
               else Err ''Invalid MMAType'') (\<lambda>mma.
     res_bind (pp_from_bytes (subrange 8 14 data)) (\<lambda>rows.
     res_bind (pp_from_bytes (subrange 14 20 data)) (\<lambda>cols.
     res_bind (ensure (subrange 20 52 data = RESERVED_VALUE) ''Reserved field must be all zeros'') (\<lambda>_.
     Ok \<lparr>common_dim = u32_from_le (subrange 0 4 data), rank = u16_from_le (subrange 4 6 data),
         mma_type = mma, rows_pattern = rows, cols_pattern = cols,
         reserved = subrange 20 52 data\<rparr>)))))"

text \<open>\<open>common_dim % rank\<close> panics on rank 0.\<close>

definition dot_product_length :: "mining_config \<Rightarrow> (anyhow, nat) res" where
  "dot_product_length c =
     (let k = unat (common_dim c); r = unat (rank c)
      in if r = 0 then Panic else Ok (k - k mod r))"

section \<open>Public parameters\<close>

definition public_to_bytes :: "public_params \<Rightarrow> (anyhow, bytes) res" where
  "public_to_bytes p =
     res_bind (config_to_bytes (p_config p)) (\<lambda>cfg.
     Ok (cfg @ hash_a p @ hash_b p @ hash_jackpot p
       @ u32_le (p_m p) @ u32_le (p_n p) @ u32_le (t_rows p) @ u32_le (t_cols p)))"

definition public_from_bytes :: "block_header \<Rightarrow> bytes \<Rightarrow> (anyhow, public_params) res" where
  "public_from_bytes header bs =
     res_bind (config_from_bytes (subrange 0 52 bs)) (\<lambda>cfg.
     let tr = u32_from_le (subrange 156 160 bs); tc = u32_from_le (subrange 160 164 bs) in
     res_bind (offset_is_valid (rows_pattern cfg) tr) (\<lambda>vr.
     res_bind (ensure vr ''t_rows must be a valid offset for rows_pattern'') (\<lambda>_.
     res_bind (offset_is_valid (cols_pattern cfg) tc) (\<lambda>vc.
     res_bind (ensure vc ''t_cols must be a valid offset for cols_pattern'') (\<lambda>_.
     Ok \<lparr>p_header = header, p_config = cfg, hash_a = subrange 52 84 bs, hash_b = subrange 84 116 bs,
         hash_jackpot = subrange 116 148 bs, p_m = u32_from_le (subrange 148 152 bs),
         p_n = u32_from_le (subrange 152 156 bs), t_rows = tr, t_cols = tc\<rparr>)))))"

text \<open>Accessors of \<open>impl PublicProofParams\<close>, and \<open>new\<close> / \<open>new_dummy\<close>.\<close>

definition a_rows_indices :: "public_params \<Rightarrow> u32 list" where
  "a_rows_indices p = indices_with_offset (rows_pattern (p_config p)) (t_rows p)"

definition b_cols_indices :: "public_params \<Rightarrow> u32 list" where
  "b_cols_indices p = indices_with_offset (cols_pattern (p_config p)) (t_cols p)"

definition pub_h :: "public_params \<Rightarrow> nat" where
  "pub_h p = unat (pp_size (rows_pattern (p_config p)))"

definition pub_w :: "public_params \<Rightarrow> nat" where
  "pub_w p = unat (pp_size (cols_pattern (p_config p)))"

definition pub_rank :: "public_params \<Rightarrow> nat" where
  "pub_rank p = unat (rank (p_config p))"

definition pub_common_dim :: "public_params \<Rightarrow> nat" where
  "pub_common_dim p = unat (common_dim (p_config p))"

definition public_new ::
  "block_header \<Rightarrow> mining_config \<Rightarrow> bytes \<Rightarrow> bytes \<Rightarrow> bytes \<Rightarrow> u32 \<Rightarrow> u32 \<Rightarrow> u32 \<Rightarrow> u32 \<Rightarrow> public_params" where
  "public_new h c ha hb hj m n tr tc =
     \<lparr>p_header = h, p_config = c, hash_a = ha, hash_b = hb, hash_jackpot = hj,
      p_m = m, p_n = n, t_rows = tr, t_cols = tc\<rparr>"

definition public_new_dummy ::
  "block_header \<Rightarrow> mining_config \<Rightarrow> u32 \<Rightarrow> u32 \<Rightarrow> u32 \<Rightarrow> u32 \<Rightarrow> public_params" where
  "public_new_dummy h c m n tr tc =
     public_new h c (replicate 32 1) (replicate 32 2) (replicate 32 3) m n tr tc"

text \<open>\<open>job_key\<close> and \<open>commitment_hash\<close>; the BLAKE3 digest is a parameter
  (\<open>digest data key\<close>, the \<open>blake3\<close> crate).\<close>

type_synonym digest_fn = "bytes \<Rightarrow> bytes option \<Rightarrow> bytes"

definition job_key :: "digest_fn \<Rightarrow> public_params \<Rightarrow> (anyhow, bytes) res" where
  "job_key digest p =
     res_bind (config_to_bytes (p_config p)) (\<lambda>cfg.
     Ok (digest (header_to_bytes (p_header p) @ cfg) None))"

definition commitment_hash :: "digest_fn \<Rightarrow> public_params \<Rightarrow> bytes \<Rightarrow> bytes \<times> bytes" where
  "commitment_hash digest p key =
     (let b_noise_seed = digest (key @ hash_b p) None;
          a_noise_seed = digest (b_noise_seed @ hash_a p) None
      in (b_noise_seed, a_noise_seed))"

section \<open>Proof data\<close>

definition PROOFDATA_PREAMBLE :: nat where "PROOFDATA_PREAMBLE = 22"

definition zk_from_bytes :: "bytes \<Rightarrow> (anyhow, zk_proof) res" where
  "zk_from_bytes d =
     res_bind (ensure (PROOFDATA_PREAMBLE \<le> length d) ''proof_data too short'') (\<lambda>_.
     Ok \<lparr>pow_bits = subrange 0 3 d, rate_bits = subrange 3 6 d,
         zeta = subrange 6 PROOFDATA_PREAMBLE d, plonky2_proof = drop PROOFDATA_PREAMBLE d\<rparr>)"

definition zk_to_bytes :: "zk_proof \<Rightarrow> bytes" where
  "zk_to_bytes z = pow_bits z @ rate_bits z @ zeta z @ plonky2_proof z"

definition zk_deserialize ::
  "block_header \<Rightarrow> bytes \<Rightarrow> bytes \<Rightarrow> (anyhow, public_params \<times> zk_proof) res" where
  "zk_deserialize header public_data proof_data =
     res_bind (public_from_bytes header public_data) (\<lambda>params.
     res_bind (zk_from_bytes proof_data) (\<lambda>z. Ok (params, z)))"

definition zk_serialize :: "zk_proof \<Rightarrow> public_params \<Rightarrow> (anyhow, bytes \<times> bytes) res" where
  "zk_serialize z params = res_bind (public_to_bytes params) (\<lambda>bs. Ok (bs, zk_to_bytes z))"

definition get_rate_bits :: "zk_proof \<Rightarrow> nat \<Rightarrow> (anyhow, nat) res" where
  "get_rate_bits z stage = (if stage < 3 then res_bind (nth_res (rate_bits z) stage) (\<lambda>b. Ok (unat b)) else Panic)"

definition get_pow_bits :: "zk_proof \<Rightarrow> nat \<Rightarrow> (anyhow, nat) res" where
  "get_pow_bits z stage = (if stage < 3 then res_bind (nth_res (pow_bits z) stage) (\<lambda>b. Ok (unat b)) else Panic)"

text \<open>\<open>compute_jackpot_hash\<close>: the 16 words of the jackpot transcript, little-endian, hashed
  under the commitment key.\<close>

definition compute_jackpot_hash :: "digest_fn \<Rightarrow> u32 list \<Rightarrow> bytes \<Rightarrow> bytes" where
  "compute_jackpot_hash digest jackpot key = digest (concat (map u32_le jackpot)) (Some key)"

section \<open>Round trips\<close>

lemma header_to_bytes_length [codec]: "wf_header h \<Longrightarrow> length (header_to_bytes h) = 76"
  by (simp add: header_to_bytes_def wf_header_def)

lemma header_from_to: "wf_header h \<Longrightarrow> header_from_bytes (header_to_bytes h) = Ok h"
  by (cases h) (simp add: header_from_bytes_def header_to_bytes_def wf_header_def codec)

lemma header_to_from:
  assumes "header_from_bytes bs = Ok h" shows "wf_header h \<and> header_to_bytes h = bs"
proof -
  from assms have len: "length bs = 76" by (simp add: header_from_bytes_def res_simps)
  have "subrange 0 4 bs @ subrange 4 36 bs @ subrange 36 68 bs @ subrange 68 72 bs @ subrange 72 76 bs = bs"
    using len by (simp add: subrange_join subrange_full)
  with assms len show ?thesis
    by (auto simp: header_from_bytes_def header_to_bytes_def wf_header_def u32_le_from_le)
qed

lemma config_from_to:
  assumes "is_valid (rows_pattern c) = Ok True" and "is_valid (cols_pattern c) = Ok True"
    and "reserved c = RESERVED_VALUE"
  obtains bs where "config_to_bytes c = Ok bs" and "length bs = 52" and "config_from_bytes bs = Ok c"
proof -
  obtain rb cb where r: "pp_to_bytes (rows_pattern c) = Ok rb" "pp_from_bytes rb = Ok (rows_pattern c)"
    and k: "pp_to_bytes (cols_pattern c) = Ok cb" "pp_from_bytes cb = Ok (cols_pattern c)"
    using assms(1,2) by (auto simp: is_valid_roundtrip)
  have len: "length rb = 6" "length cb = 6"
    using r(2) k(2) by (simp_all add: pp_from_bytes_def res_simps NUM_DIMS_def)
  let ?bs = "u32_le (common_dim c) @ u16_le (rank c) @ u16_le (mma_to_u16 (mma_type c)) @ rb @ cb @ reserved c"
  have l: "length ?bs = 52" using len by (simp add: assms(3) RESERVED_VALUE_def)
  have t: "config_to_bytes c = Ok ?bs" using l r k by (simp add: config_to_bytes_def Let_def)
  have m: "mma_to_u16 (mma_type c) = 0" "mma_type c = Int7xInt7ToInt32" by (cases "mma_type c"; simp)+
  have res: "subrange 0 32 RESERVED_VALUE = RESERVED_VALUE" by (simp add: RESERVED_VALUE_def subrange_full)
  have "config_from_bytes ?bs = Ok c"
    using l len r k m assms(3) by (cases c) (simp add: config_from_bytes_def codec res)
  with t l that show ?thesis by blast
qed

lemma config_to_from:
  assumes "config_from_bytes bs = Ok c" shows "config_to_bytes c = Ok bs"
proof -
  from assms obtain rows cols where len: "length bs = 52" and m0: "u16_from_le (subrange 6 8 bs) = 0"
    and rows: "pp_from_bytes (subrange 8 14 bs) = Ok rows" and cols: "pp_from_bytes (subrange 14 20 bs) = Ok cols"
    and c: "c = \<lparr>common_dim = u32_from_le (subrange 0 4 bs), rank = u16_from_le (subrange 4 6 bs),
         mma_type = Int7xInt7ToInt32, rows_pattern = rows, cols_pattern = cols,
         reserved = subrange 20 52 bs\<rparr>"
    by (auto simp: config_from_bytes_def res_simps split: if_splits)
  have m: "u16_le 0 = subrange 6 8 bs" using u16_le_from_le [of "subrange 6 8 bs"] m0 len by simp
  have "subrange 0 4 bs @ subrange 4 6 bs @ subrange 6 8 bs @ subrange 8 14 bs @ subrange 14 20 bs @ subrange 20 52 bs = bs"
    using len by (simp add: subrange_join subrange_full)
  then show ?thesis
    using len pp_from_bytes_to_bytes [OF rows] pp_from_bytes_to_bytes [OF cols]
    by (simp add: c config_to_bytes_def Let_def u32_le_from_le u16_le_from_le m)
qed

lemma public_from_to:
  assumes "is_valid (rows_pattern (p_config p)) = Ok True" and "is_valid (cols_pattern (p_config p)) = Ok True"
    and "reserved (p_config p) = RESERVED_VALUE"
    and "length (hash_a p) = 32" and "length (hash_b p) = 32" and "length (hash_jackpot p) = 32"
    and "offset_is_valid (rows_pattern (p_config p)) (t_rows p) = Ok True"
    and "offset_is_valid (cols_pattern (p_config p)) (t_cols p) = Ok True"
  obtains bs where "public_to_bytes p = Ok bs" and "length bs = 164"
    and "public_from_bytes (p_header p) bs = Ok p"
proof -
  obtain cb where cb: "config_to_bytes (p_config p) = Ok cb" "length cb = 52"
    "config_from_bytes cb = Ok (p_config p)"
    using config_from_to [OF assms(1-3)] by blast
  let ?bs = "cb @ hash_a p @ hash_b p @ hash_jackpot p
       @ u32_le (p_m p) @ u32_le (p_n p) @ u32_le (t_rows p) @ u32_le (t_cols p)"
  have "public_to_bytes p = Ok ?bs" "length ?bs = 164"
    using cb assms(4-6) by (simp_all add: public_to_bytes_def)
  moreover have "public_from_bytes (p_header p) ?bs = Ok p"
    using cb assms(4-8) by (cases p) (simp add: public_from_bytes_def codec Let_def)
  ultimately show thesis by (rule that)
qed

lemma public_to_from:
  assumes "public_from_bytes h bs = Ok p" and len: "length bs = 164"
  shows "public_to_bytes p = Ok bs \<and> p_header p = h"
proof -
  from assms obtain cfg where cfg: "config_from_bytes (subrange 0 52 bs) = Ok cfg"
    and p: "p = \<lparr>p_header = h, p_config = cfg, hash_a = subrange 52 84 bs, hash_b = subrange 84 116 bs,
         hash_jackpot = subrange 116 148 bs, p_m = u32_from_le (subrange 148 152 bs),
         p_n = u32_from_le (subrange 152 156 bs), t_rows = u32_from_le (subrange 156 160 bs),
         t_cols = u32_from_le (subrange 160 164 bs)\<rparr>"
    by (auto simp: public_from_bytes_def res_simps Let_def)
  have "subrange 0 52 bs @ subrange 52 84 bs @ subrange 84 116 bs @ subrange 116 148 bs @
    subrange 148 152 bs @ subrange 152 156 bs @ subrange 156 160 bs @ subrange 160 164 bs = bs"
    using len by (simp add: subrange_join subrange_full)
  then show ?thesis
    using config_to_from [OF cfg] len by (simp add: p public_to_bytes_def u32_le_from_le)
qed

lemma zk_from_to: "wf_zk_proof z \<Longrightarrow> zk_from_bytes (zk_to_bytes z) = Ok z"
  by (cases z) (simp add: zk_from_bytes_def zk_to_bytes_def wf_zk_proof_def PROOFDATA_PREAMBLE_def codec)

lemma zk_to_from: "zk_from_bytes d = Ok z \<Longrightarrow> zk_to_bytes z = d \<and> wf_zk_proof z"
proof -
  assume a: "zk_from_bytes d = Ok z"
  have "subrange 0 3 d @ subrange 3 6 d @ subrange 6 22 d @ drop 22 d = take 22 d @ drop 22 d"
    by (simp add: subrange_join flip: append_assoc) (simp add: subrange_def)
  with a show ?thesis
    by (auto simp: zk_from_bytes_def zk_to_bytes_def wf_zk_proof_def PROOFDATA_PREAMBLE_def res_simps)
qed

section \<open>Interface: a partial decoder with its encoder\<close>

text \<open>
  Every wire format here has the same contract: the encoder succeeds on well-formed values, the
  decoder inverts it, and the decoder accepts nothing but encodings of well-formed values.
  The facts a client needs (the encoding determines the value, decoding is injective) are proved
  once from the contract.
\<close>

locale wire_format =
  fixes enc :: "'v \<Rightarrow> (anyhow, bytes) res"
    and dec :: "bytes \<Rightarrow> (anyhow, 'v) res"
    and good :: "'v \<Rightarrow> bool"
  assumes enc_dec: "good v \<Longrightarrow> \<exists>bs. enc v = Ok bs \<and> dec bs = Ok v"
    and dec_enc: "dec bs = Ok v \<Longrightarrow> good v \<and> enc v = Ok bs"
begin

lemma enc_inj: "good v \<Longrightarrow> good w \<Longrightarrow> enc v = enc w \<Longrightarrow> v = w"
  using enc_dec by (metis res.inject(1))

lemma dec_inj: "dec bs = Ok v \<Longrightarrow> dec cs = Ok v \<Longrightarrow> bs = cs"
  using dec_enc by (metis res.inject(1))

lemma dec_iff: "good v \<Longrightarrow> dec bs = Ok v \<longleftrightarrow> enc v = Ok bs"
  using enc_dec dec_enc by (metis res.inject(1))

end

definition config_good :: "mining_config \<Rightarrow> bool" where
  "config_good c \<longleftrightarrow> is_valid (rows_pattern c) = Ok True \<and> is_valid (cols_pattern c) = Ok True
     \<and> reserved c = RESERVED_VALUE"

lemma config_from_bytes_good: "config_from_bytes bs = Ok c \<Longrightarrow> config_good c"
  using pp_from_bytes_to_bytes
  by (auto simp: config_from_bytes_def config_good_def res_simps is_valid_roundtrip RESERVED_VALUE_def
      split: if_splits)

interpretation pattern_wire: wire_format pp_to_bytes pp_from_bytes "\<lambda>p. is_valid p = Ok True"
  by unfold_locales (auto simp: is_valid_roundtrip dest: pp_from_bytes_to_bytes)

interpretation header_wire: wire_format "\<lambda>h. Ok (header_to_bytes h)" header_from_bytes wf_header
  by unfold_locales (use header_from_to header_to_from in auto)

interpretation config_wire: wire_format config_to_bytes config_from_bytes config_good
proof
  fix v assume "config_good v"
  then show "\<exists>bs. config_to_bytes v = Ok bs \<and> config_from_bytes bs = Ok v"
    unfolding config_good_def by (elim conjE) (rule config_from_to, auto)
qed (auto dest: config_to_from config_from_bytes_good)

interpretation zk_wire: wire_format "\<lambda>z. Ok (zk_to_bytes z)" zk_from_bytes wf_zk_proof
  by unfold_locales (use zk_from_to zk_to_from in auto)

lemma zero_u16: "length bs = 2 \<Longrightarrow> u16_from_le bs = 0 \<longleftrightarrow> bs = [0, 0]"
  using u16_le_from_le [of bs] by (auto simp: u16_le_def u16_from_le_def numeral_2_eq_2)

lemma config_accepted:
  "(\<exists>c. config_from_bytes bs = Ok c) \<longleftrightarrow> length bs = 52 \<and> subrange 6 8 bs = [0, 0] \<and> subrange 20 52 bs = replicate 32 0
    \<and> (\<exists>p q. pp_from_bytes (subrange 8 14 bs) = Ok p \<and> pp_from_bytes (subrange 14 20 bs) = Ok q)"
proof (cases "length bs = 52")
  case True
  then have "u16_from_le (subrange 6 8 bs) = 0 \<longleftrightarrow> subrange 6 8 bs = [0, 0]" by (intro zero_u16) simp
  then show ?thesis using True by (auto simp: config_from_bytes_def res_simps RESERVED_VALUE_def)
qed (simp add: config_from_bytes_def res_simps)

section \<open>Properties\<close>

text \<open>C21: the mining configuration's 52-byte format is a bijection between the accepted byte
  strings and the configurations with valid patterns and a zero reserved field: two such
  configurations with the same encoding are equal, so the job key commits to the configuration;
  whatever is decoded is such a configuration and encodes to the bytes it was read from; and the
  accepted strings are the 52 bytes with two accepted patterns, the code 0 of the only matrix
  operation and 32 reserved zeros.\<close>

theorem config_encoding_injective:
  assumes "config_good c" and "config_good d"
  shows "(config_to_bytes c = config_to_bytes d \<longleftrightarrow> c = d) \<and>
    (\<exists>bs. config_to_bytes c = Ok bs \<and> length bs = 52 \<and> config_from_bytes bs = Ok c) \<and>
    (\<forall>bs v. config_from_bytes bs = Ok v \<longrightarrow> config_good v \<and> config_to_bytes v = Ok bs) \<and>
    (\<forall>bs. (\<exists>v. config_from_bytes bs = Ok v) \<longleftrightarrow>
      length bs = 52 \<and> subrange 6 8 bs = [0, 0] \<and> subrange 20 52 bs = replicate 32 0 \<and>
      (\<exists>p q. pp_from_bytes (subrange 8 14 bs) = Ok p \<and> pp_from_bytes (subrange 14 20 bs) = Ok q))"
proof -
  obtain bs where bs: "config_to_bytes c = Ok bs" "config_from_bytes bs = Ok c"
    using config_wire.enc_dec [OF assms(1)] by blast
  then have "length bs = 52" by (auto simp: config_from_bytes_def res_simps)
  with bs show ?thesis using config_wire.enc_inj [OF assms] config_accepted config_to_from config_from_bytes_good by auto
qed

text \<open>C22: the public data blob round-trips: for parameters a prover can hold (valid patterns and
  offsets, 32-byte hashes) \<open>to_bytes\<close> gives 164 bytes from which \<open>from_bytes\<close> recovers the
  parameters, and a 164-byte blob the verifier accepts is the encoding of what it decoded.\<close>

theorem public_data_roundtrip:
  assumes "config_good (p_config p)"
    and "length (hash_a p) = 32" and "length (hash_b p) = 32" and "length (hash_jackpot p) = 32"
    and "offset_is_valid (rows_pattern (p_config p)) (t_rows p) = Ok True"
    and "offset_is_valid (cols_pattern (p_config p)) (t_cols p) = Ok True"
  shows "(\<exists>bs. public_to_bytes p = Ok bs \<and> length bs = 164 \<and> public_from_bytes (p_header p) bs = Ok p) \<and>
    (\<forall>h cs q. public_from_bytes h cs = Ok q \<and> length cs = 164 \<longrightarrow> public_to_bytes q = Ok cs)"
proof -
  obtain bs where "public_to_bytes p = Ok bs" "length bs = 164" "public_from_bytes (p_header p) bs = Ok p"
    using assms by (auto simp: config_good_def intro: public_from_to [of p])
  then show ?thesis using public_to_from by blast
qed

text \<open>C32: the proof data and the block header round-trip in both directions.\<close>

theorem header_and_proof_roundtrip:
  assumes "wf_header h" and "wf_zk_proof z"
  shows "header_from_bytes (header_to_bytes h) = Ok h \<and> length (header_to_bytes h) = 76 \<and>
    zk_from_bytes (zk_to_bytes z) = Ok z \<and>
    (\<forall>bs h'. header_from_bytes bs = Ok h' \<longrightarrow> header_to_bytes h' = bs) \<and>
    (\<forall>d z'. zk_from_bytes d = Ok z' \<longrightarrow> zk_to_bytes z' = d)"
  using assms header_from_to header_to_from zk_from_to zk_to_from by (auto simp: header_to_bytes_length)

theorem config_encoding_injective_witness:
  "\<exists>bs. config_to_bytes \<lparr>common_dim = 2048, rank = 128, mma_type = Int7xInt7ToInt32,
      rows_pattern = \<lparr>shape = [(1, 2), (2, 1), (2, 1)]\<rparr>, cols_pattern = \<lparr>shape = [(1, 128), (128, 1), (128, 1)]\<rparr>,
      reserved = RESERVED_VALUE\<rparr> = Ok bs \<and> length bs = 52"
proof -
  have "config_good \<lparr>common_dim = 2048, rank = 128, mma_type = Int7xInt7ToInt32,
      rows_pattern = \<lparr>shape = [(1, 2), (2, 1), (2, 1)]\<rparr>, cols_pattern = \<lparr>shape = [(1, 128), (128, 1), (128, 1)]\<rparr>,
      reserved = RESERVED_VALUE\<rparr>" (is "config_good ?c")
    by code_simp
  from config_encoding_injective [OF this this] show ?thesis by blast
qed

theorem public_data_roundtrip_witness:
  "\<exists>bs. public_to_bytes (public_new_dummy
      \<lparr>hversion = 1, prev_block = replicate 32 1, merkle_root = replicate 32 2, timestamp = 3, nbits = 4\<rparr>
      \<lparr>common_dim = 2048, rank = 128, mma_type = Int7xInt7ToInt32,
       rows_pattern = \<lparr>shape = [(8, 2), (16, 1), (16, 1)]\<rparr>, cols_pattern = \<lparr>shape = [(1, 2), (2, 1), (2, 1)]\<rparr>,
       reserved = RESERVED_VALUE\<rparr> 256 256 17 4) = Ok bs \<and> length bs = 164"
proof -
  let ?c = "\<lparr>common_dim = 2048, rank = 128, mma_type = Int7xInt7ToInt32,
       rows_pattern = \<lparr>shape = [(8, 2), (16, 1), (16, 1)]\<rparr>, cols_pattern = \<lparr>shape = [(1, 2), (2, 1), (2, 1)]\<rparr>,
       reserved = RESERVED_VALUE\<rparr> :: mining_config"
  let ?h = "\<lparr>hversion = 1, prev_block = replicate 32 1, merkle_root = replicate 32 2, timestamp = 3, nbits = 4\<rparr> :: block_header"
  let ?p = "public_new_dummy ?h ?c 256 256 17 4"
  have good: "config_good ?c" by code_simp
  have "offset_is_valid (rows_pattern ?c) 17 = Ok True" "offset_is_valid (cols_pattern ?c) 4 = Ok True"
    by code_simp+
  then have "\<exists>bs. public_to_bytes ?p = Ok bs \<and> length bs = 164 \<and> public_from_bytes (p_header ?p) bs = Ok ?p"
    using good by (intro public_data_roundtrip [THEN conjunct1]) (simp_all add: public_new_dummy_def public_new_def)
  then show ?thesis by blast
qed

theorem header_and_proof_roundtrip_witness:
  "zk_from_bytes (zk_to_bytes \<lparr>pow_bits = [18, 18, 22], rate_bits = [1, 3, 7], zeta = replicate 16 9,
      plonky2_proof = [1, 2, 3]\<rparr>) = Ok \<lparr>pow_bits = [18, 18, 22], rate_bits = [1, 3, 7],
      zeta = replicate 16 9, plonky2_proof = [1, 2, 3]\<rparr>"
proof -
  have "wf_header \<lparr>hversion = 1, prev_block = replicate 32 1, merkle_root = replicate 32 2, timestamp = 3, nbits = 4\<rparr>"
    by (simp add: wf_header_def)
  moreover have "wf_zk_proof \<lparr>pow_bits = [18, 18, 22], rate_bits = [1, 3, 7], zeta = replicate 16 9,
      plonky2_proof = [1, 2, 3]\<rparr>"
    by (simp add: wf_zk_proof_def)
  ultimately show ?thesis by (rule header_and_proof_roundtrip [THEN conjunct2, THEN conjunct2, THEN conjunct1])
qed

end
