(* ===== verification/Noise.thy ===== *)
theory Noise
  imports Headers
begin

unbundle bit_operations_syntax

text \<open>
  The noise added to the matrices, on both sides. The miner's kernels are specified by the CPU
  references beside them (\<open>src/src/kernels/noise_gen.rs\<close>, \<open>random_int8.rs\<close>, \<open>noisy_gemm.rs\<close>,
  \<open>commitment_hash.rs\<close>), which the GPU code is tested against byte for byte; the verifier has its
  own generator (\<open>src/deps/zk-pow/src/circuit/pearl_noise.rs\<close>). The theory models both and shows
  that they add the same noise, and that a noised entry never leaves the range of an \<open>i8\<close>.
  BLAKE3 is the parameter \<open>D\<close> (data, optional key). Matrices on the miner's side are flat row-major
  lists, on the verifier's side lists of rows, as in the code.
\<close>

section \<open>The miner's references\<close>

text \<open>\<open>R\<close> of \<open>noise_gen.rs\<close>.\<close>

definition R_RANK :: nat where "R_RANK = 128"

definition keyed_compress :: "digest_fn \<Rightarrow> bytes \<Rightarrow> bytes \<Rightarrow> bytes" where
  "keyed_compress D key msg = D msg (Some key)"

text \<open>Every call has \<open>slot\<close> 0 or 1 and a 32-byte seed, so the slices are in bounds.\<close>

definition make_message :: "bytes \<Rightarrow> nat \<Rightarrow> u32 \<Rightarrow> bytes" where
  "make_message seed slot chunk_idx_plus_one =
     (let msg = copy_into 32 seed (replicate 64 0)
      in copy_into (slot * 4) (u32_le chunk_idx_plus_one) msg)"

text \<open>\<open>((hb as i32 + 128).rem_euclid(64)) - 32\<close>, as an \<open>i8\<close>.\<close>

definition dense_value :: "u8 \<Rightarrow> i8" where
  "dense_value b = word_of_int ((sint b + 128) mod 64 - 32)"

text \<open>A negative \<open>rows\<close> becomes a huge \<open>usize\<close>: the wrapped byte count is at least
  \<open>2 ^ 64 - 2 ^ 38\<close>, more than a \<open>Vec\<close> can hold, and \<open>vec!\<close> panics.\<close>

definition reference_dense_int8 :: "digest_fn \<Rightarrow> i32 \<Rightarrow> bytes \<Rightarrow> bytes \<Rightarrow> (anyhow, i8 list) res" where
  "reference_dense_int8 D rows key seed =
     (if sint rows < 0 then Panic
      else let n = nat (sint rows) * R_RANK; num_chunks = n div 32 in
        Ok (foldl (\<lambda>out chunk.
              let cv = keyed_compress D key (make_message seed 0 (of_nat (chunk + 1)));
                  row = (chunk * 32) div R_RANK;
                  col0 = (chunk * 32) mod R_RANK
              in copy_into (row * R_RANK + col0) (map dense_value cv) out)
            (replicate n 0) [0..<num_chunks]))"

text \<open>The half-precision variant; the conversion of an \<open>i32\<close> through \<open>f32\<close> to the 16 bits of a
  \<open>half::f16\<close> is the parameter \<open>f16_bits\<close>, and the product with the scale wraps.\<close>

definition reference_dense_fp16 ::
  "(i32 \<Rightarrow> u16) \<Rightarrow> digest_fn \<Rightarrow> i32 \<Rightarrow> bytes \<Rightarrow> bytes \<Rightarrow> i32 \<Rightarrow> (anyhow, u16 list) res" where
  "reference_dense_fp16 f16_bits D rows key seed scale_factor =
     (if sint rows < 0 then Panic
      else let n = nat (sint rows) * R_RANK; num_chunks = n div 32 in
        Ok (foldl (\<lambda>out chunk.
              let cv = keyed_compress D key (make_message seed 0 (of_nat (chunk + 1)));
                  row = (chunk * 32) div R_RANK;
                  col0 = (chunk * 32) mod R_RANK
              in copy_into (row * R_RANK + col0)
                   (map (\<lambda>b. f16_bits (word_of_int ((sint b + 128) mod 64 - 32) * scale_factor)) cv) out)
            (replicate n 0) [0..<num_chunks]))"

text \<open>The two columns of a sparse row, from one 32-bit word of the digest.\<close>

definition sparse_indices :: "u32 \<Rightarrow> nat \<times> nat" where
  "sparse_indices u =
     (let r_mask = of_nat R_RANK - 1 :: u32;
          k0 = u AND r_mask;
          mul_hi = ucast (drop_bit 32 ((ucast r_mask :: u64) * ucast u)) :: u32;
          k1 = (k0 XOR (1 + mul_hi)) mod of_nat R_RANK
      in (unat k0, unat k1))"

definition reference_sparse :: "digest_fn \<Rightarrow> i32 \<Rightarrow> bytes \<Rightarrow> bytes \<Rightarrow> (anyhow, i8 list) res" where
  "reference_sparse D k key seed =
     (if sint k < 0 then Panic
      else let kk = nat (sint k); num_chunks = (kk + 7) div 8 in
        Ok (foldl (\<lambda>out chunk.
              let cv = keyed_compress D key (make_message seed 1 (of_nat (chunk + 1)));
                  k_base = chunk * 8
              in foldl (\<lambda>out j.
                   let row = k_base + j;
                       (k0, k1) = sparse_indices (u32_from_le (subrange (j * 4) (j * 4 + 4) cv));
                       off = row * R_RANK
                   in out[off + k0 := 1, off + k1 := - 1])
                 out (takeWhile (\<lambda>j. k_base + j < kk) [0..<8]))
            (replicate (kk * R_RANK) 0) [0..<num_chunks]))"

text \<open>\<open>random_int8.rs\<close>: the per-iteration fill of the matrix \<open>A\<close>.\<close>

definition random_message :: "bytes \<Rightarrow> u64 \<Rightarrow> nat \<Rightarrow> bytes" where
  "random_message seed iter_idx chunk =
     (let msg = copy_into 0 (u32_le (ucast (iter_idx AND 0xFFFFFFFF))) (replicate 64 0);
          msg = copy_into 4 (u32_le (ucast (drop_bit 32 iter_idx))) msg;
          msg = copy_into 8 (u32_le (of_nat chunk)) msg
      in copy_into 32 seed msg)"

definition random_value :: "u8 \<Rightarrow> i8" where
  "random_value b = word_of_int (sint (ucast b mod 127 :: i32) - 63)"

definition random_int8_reference :: "digest_fn \<Rightarrow> nat \<Rightarrow> bytes \<Rightarrow> u64 \<Rightarrow> (anyhow, i8 list) res" where
  "random_int8_reference D total_bytes seed iter_idx =
     (if \<not> (total_bytes > 0 \<and> total_bytes mod 32 = 0) then Panic
      else Ok (foldl (\<lambda>out chunk.
             let cv = D (random_message seed iter_idx chunk) None
             in copy_into (chunk * 32) (map random_value cv) out)
           (replicate total_bytes 0) [0..<total_bytes div 32]))"

text \<open>\<open>noisy_gemm.rs\<close>: \<open>wrap_int8(X + Y Z\<^sup>T)\<close> and the \<open>i32\<close> product, with wrapping accumulators.\<close>

definition add_gemm_acc :: "nat \<Rightarrow> nat \<Rightarrow> i8 list \<Rightarrow> i8 list \<Rightarrow> i8 list \<Rightarrow> nat \<Rightarrow> nat \<Rightarrow> i32" where
  "add_gemm_acc n k_inner x y z i j =
     foldl (\<lambda>acc r. acc + scast (y ! (i * k_inner + r)) * scast (z ! (j * k_inner + r)))
       (scast (x ! (i * n + j))) [0..<k_inner]"

definition reference_add_gemm ::
  "nat \<Rightarrow> nat \<Rightarrow> nat \<Rightarrow> i8 list \<Rightarrow> i8 list \<Rightarrow> i8 list \<Rightarrow> (anyhow, i8 list) res" where
  "reference_add_gemm m n k_inner x y z =
     (if length x \<noteq> m * n \<or> length y \<noteq> m * k_inner \<or> length z \<noteq> n * k_inner then Panic
      else Ok (foldl (\<lambda>out i. foldl (\<lambda>out j.
             out[i * n + j := ucast (add_gemm_acc n k_inner x y z i j AND 0xff)]) out [0..<n])
           (replicate (m * n) 0) [0..<m]))"

definition reference_gemm_int32 ::
  "nat \<Rightarrow> nat \<Rightarrow> nat \<Rightarrow> i8 list \<Rightarrow> i8 list \<Rightarrow> (anyhow, i32 list) res" where
  "reference_gemm_int32 m n k a b =
     (if length a \<noteq> m * k \<or> length b \<noteq> k * n then Panic
      else Ok (foldl (\<lambda>c i. foldl (\<lambda>c j.
             c[i * n + j := foldl (\<lambda>acc kk. acc + scast (a ! (i * k + kk)) * scast (b ! (kk * n + j)))
                              0 [0..<k]]) c [0..<n])
           (replicate (m * n) 0) [0..<m]))"

text \<open>\<open>commitment_hash.rs\<close>.\<close>

definition commitment_reference :: "digest_fn \<Rightarrow> bytes \<Rightarrow> bytes \<Rightarrow> bytes \<Rightarrow> bytes \<times> bytes" where
  "commitment_reference D a_root b_root key =
     (let concat_b = copy_into 32 b_root (copy_into 0 key (replicate 64 0));
          b_commit = D concat_b None;
          concat_a = copy_into 32 a_root (copy_into 0 b_commit (replicate 64 0));
          a_commit = D concat_a None
      in (a_commit, b_commit))"

section \<open>The verifier's generator\<close>

definition NOISE_RANGE :: nat where "NOISE_RANGE = 128"
definition IDXS_PER_COL :: nat where "IDXS_PER_COL = 2"
definition UNIFORM_NOISE_RANGE :: nat where "UNIFORM_NOISE_RANGE = NOISE_RANGE div IDXS_PER_COL"
definition ZERO_POINT_TRANSLATION :: i8 where "ZERO_POINT_TRANSLATION = of_nat (UNIFORM_NOISE_RANGE div 2)"
definition RANGE_MASK :: u8 where "RANGE_MASK = of_nat (UNIFORM_NOISE_RANGE - 1)"

definition padded_seed_label :: "string \<Rightarrow> bytes" where
  "padded_seed_label label = copy_into 0 (map of_char label) (replicate 32 0)"

definition SEED_LABEL_A :: bytes where "SEED_LABEL_A = padded_seed_label ''A_tensor''"
definition SEED_LABEL_B :: bytes where "SEED_LABEL_B = padded_seed_label ''B_tensor''"

definition matvec_sparse_perm :: "(u32 \<times> u32) list \<Rightarrow> i8 list \<Rightarrow> (anyhow, i8 list) res" where
  "matvec_sparse_perm perm vec =
     res_map (\<lambda>(first_idx, second_idx).
       res_bind (nth_res vec (unat first_idx)) (\<lambda>pos_val.
       res_bind (nth_res vec (unat second_idx)) (\<lambda>neg_val.
       Ok (ucast (scast pos_val - scast neg_val :: i32))))) perm"

text \<open>The index is a \<open>usize\<close>, written as an \<open>i32\<close>; \<open>prepend_index\<close> is 0 or 1 in every call.\<close>

definition get_random_hash :: "digest_fn \<Rightarrow> nat \<Rightarrow> bytes \<Rightarrow> bytes \<Rightarrow> nat \<Rightarrow> bytes" where
  "get_random_hash D index seed key prepend_index =
     (let message = copy_into (prepend_index * 4) (u32_le (of_nat (1 + index))) (replicate (32 + 32) 0);
          message = copy_into 32 seed message
      in D message (Some key))"

definition generate_uniform_random_matrix ::
  "digest_fn \<Rightarrow> bytes \<Rightarrow> bytes \<Rightarrow> nat list \<Rightarrow> nat \<Rightarrow> i8 list list" where
  "generate_uniform_random_matrix D seed key row_indices num_cols =
     map (\<lambda>row_idx.
       let start_idx = row_idx * num_cols in
       concat (map (\<lambda>block.
         map (\<lambda>(k, byte). (byte AND RANGE_MASK) - ZERO_POINT_TRANSLATION)
           (filter (\<lambda>(k, byte). let idx = block * 32 + k in start_idx \<le> idx \<and> idx < start_idx + num_cols)
             (enumerate 0 (get_random_hash D block seed key 0))))
         [start_idx div 32..<(start_idx + num_cols + 31) div 32]))
     row_indices"

definition mul_hi_u32 :: "u32 \<Rightarrow> u32 \<Rightarrow> u32" where
  "mul_hi_u32 a b = ucast (drop_bit 32 (ucast a * ucast b :: u64))"

definition permutation_pair :: "nat \<Rightarrow> bytes \<Rightarrow> nat \<Rightarrow> u32 \<times> u32" where
  "permutation_pair noise_rank random_hash j =
     (let random_uint32 = u32_from_le [random_hash ! (j * 4), random_hash ! (j * 4 + 1),
                                       random_hash ! (j * 4 + 2), random_hash ! (j * 4 + 3)];
          rank_mask = of_nat noise_rank - 1;
          first_idx = random_uint32 AND rank_mask;
          second_idx = first_idx XOR (1 + mul_hi_u32 (of_nat noise_rank - 1) random_uint32)
      in (first_idx, second_idx))"

text \<open>\<open>par_chunks_mut(8)\<close>: chunk \<open>i\<close> has the slots from \<open>8 i\<close> on, at most 8 of them.\<close>

definition generate_permutation_matrix ::
  "digest_fn \<Rightarrow> bytes \<Rightarrow> bytes \<Rightarrow> nat \<Rightarrow> nat \<Rightarrow> (u32 \<times> u32) list" where
  "generate_permutation_matrix D seed key k noise_rank =
     concat (map (\<lambda>i. let random_hash = get_random_hash D i seed key 1 in
       map (permutation_pair noise_rank random_hash) [0..<min 8 (k - i * 8)])
     [0..<(k + 7) div 8])"

record mm_slice =
  mm_a :: "i8 list list"
  mm_b :: "i8 list list"

text \<open>In a release build the two debug assertions on the rank are not checked.\<close>

definition compute_noise_for_indices ::
  "digest_fn \<Rightarrow> nat \<Rightarrow> nat \<Rightarrow> bytes \<times> bytes \<Rightarrow> nat list \<Rightarrow> nat list \<Rightarrow> (anyhow, mm_slice) res" where
  "compute_noise_for_indices D k noise_rank commitment a_rows b_cols =
     (let (b_noise_seed, a_noise_seed) = commitment;
          e_al = generate_uniform_random_matrix D SEED_LABEL_A a_noise_seed a_rows noise_rank;
          e_ar_transposed = generate_permutation_matrix D SEED_LABEL_A a_noise_seed k noise_rank;
          e_bl = generate_permutation_matrix D SEED_LABEL_B b_noise_seed k noise_rank;
          e_br_transposed = generate_uniform_random_matrix D SEED_LABEL_B b_noise_seed b_cols noise_rank
      in res_bind (res_map (matvec_sparse_perm e_ar_transposed) e_al) (\<lambda>noise_a.
         res_bind (res_map (matvec_sparse_perm e_bl) e_br_transposed) (\<lambda>noise_b_t.
         Ok \<lparr>mm_a = noise_a, mm_b = noise_b_t\<rparr>)))"

section \<open>Words\<close>

lemma dense_value_mask: "dense_value b = (b AND 63) - 32"
proof -
  have "dense_value b = word_of_int ((sint b + 128) mod 64) - 32"
    by (simp add: dense_value_def)
  moreover have "(sint b + 128) mod 64 = uint b mod 64"
  proof -
    have "uint b = sint b mod 256" by (simp add: uint_sint take_bit_eq_mod)
    then have "uint b mod 64 = sint b mod 64" by (simp add: mod_mod_cancel)
    moreover have "(sint b + 128) mod 64 = sint b mod 64"
      using mod_add_eq [of "sint b" 64 128] by simp
    ultimately show ?thesis by simp
  qed
  moreover have "word_of_int (uint b mod 64) = b AND 63"
  proof -
    have "b AND 63 = take_bit 6 b" by (simp add: take_bit_eq_mask mask_eq_exp_minus_1)
    moreover have "uint (take_bit 6 b) = uint b mod 64"
      by (subst unsigned_take_bit_eq) (simp add: take_bit_eq_mod)
    ultimately show ?thesis by (metis word_of_int_uint)
  qed
  ultimately show ?thesis by simp
qed

lemma ucast_i32_add: "ucast (a + b :: i32) = (ucast a + ucast b :: i8)"
proof transfer
  fix a b :: int
  show "take_bit LENGTH(8) (take_bit LENGTH(32) (a + b)) = take_bit LENGTH(8) (take_bit LENGTH(32) a + take_bit LENGTH(32) b)"
    using take_bit_add [of 8 "take_bit 32 a" "take_bit 32 b"] take_bit_add [of 8 a b] by simp
qed

lemma ucast_i32_mult: "ucast (a * b :: i32) = (ucast a * ucast b :: i8)"
proof transfer
  fix a b :: int
  show "take_bit LENGTH(8) (take_bit LENGTH(32) (a * b)) = take_bit LENGTH(8) (take_bit LENGTH(32) a * take_bit LENGTH(32) b)"
    using take_bit_mult [of 8 "take_bit 32 a" "take_bit 32 b"] take_bit_mult [of 8 a b] by simp
qed

lemma ucast_i32_diff: "ucast (a - b :: i32) = (ucast a - ucast b :: i8)"
proof transfer
  fix a b :: int
  show "take_bit LENGTH(8) (take_bit LENGTH(32) (a - b)) = take_bit LENGTH(8) (take_bit LENGTH(32) a - take_bit LENGTH(32) b)"
    using take_bit_diff [of 8 "take_bit 32 a" "take_bit 32 b"] take_bit_diff [of 8 a b] by simp
qed

lemma ucast_scast_i8 [simp]: "ucast (scast (y :: i8) :: i32) = y"
  by transfer (simp add: take_bit_signed_take_bit)

lemma ucast_low_byte: "ucast (a AND 0xff :: i32) = (ucast a :: i8)"
proof -
  have \<open>(0xff :: i32) = mask 8\<close> by (simp add: mask_eq_exp_minus_1)
  show ?thesis unfolding \<open>(0xff :: i32) = mask 8\<close> by (rule bit_word_eqI) (simp add: bit_simps del: mask_numeral)
qed

section \<open>Both generators as streams\<close>

text \<open>A digest function with 32-byte digests, as BLAKE3 has.\<close>

definition digest32 :: "digest_fn \<Rightarrow> bool" where
  "digest32 D \<longleftrightarrow> (\<forall>msg key. length (D msg key) = 32)"

lemma digest32_length [simp]: "digest32 D \<Longrightarrow> length (D msg key) = 32"
  by (simp add: digest32_def)

lemma length_random_hash [simp]: "digest32 D \<Longrightarrow> length (get_random_hash D i seed key p) = 32"
  by (simp add: get_random_hash_def Let_def)

text \<open>The two sides hash the same message.\<close>

lemma same_message:
  assumes "length seed = 32" and "slot < 8"
  shows "D (make_message seed slot (of_nat (i + 1))) (Some key) = get_random_hash D i seed key slot"
proof -
  have "copy_into (slot * 4) w (copy_into 32 seed (replicate 64 0)) = copy_into 32 seed (copy_into (slot * 4) w (replicate 64 0))"
    if "length w = 4" for w :: bytes
    using assms that by (intro nth_equalityI) (auto simp: nth_copy_into)
  then show ?thesis by (simp add: make_message_def get_random_hash_def Let_def add.commute)
qed

definition noise_byte :: "digest_fn \<Rightarrow> bytes \<Rightarrow> bytes \<Rightarrow> nat \<Rightarrow> i8" where
  "noise_byte D seed key i = (get_random_hash D (i div 32) seed key 0 ! (i mod 32) AND 63) - 32"

lemma noise_constants [simp]: "RANGE_MASK = 63" "ZERO_POINT_TRANSLATION = 32"
  by (simp_all add: RANGE_MASK_def ZERO_POINT_TRANSLATION_def UNIFORM_NOISE_RANGE_def NOISE_RANGE_def
      IDXS_PER_COL_def)

lemma uniform_block:
  assumes "length xs = 32"
  shows "map (\<lambda>(k, byte). F byte) (filter (\<lambda>(k, byte). P (b * 32 + k)) (enumerate 0 xs))
    = map (\<lambda>i. F (xs ! (i mod 32))) (filter P [b * 32..<b * 32 + 32])"
proof -
  have "enumerate 0 xs = map (\<lambda>i. (i mod 32, xs ! (i mod 32))) [b * 32..<b * 32 + 32]"
    using assms by (intro nth_equalityI) (auto simp: nth_enumerate_eq)
  moreover have "filter (\<lambda>(k, byte). P (b * 32 + k)) (map (\<lambda>i. (i mod 32, xs ! (i mod 32))) [b * 32..<b * 32 + 32])
      = map (\<lambda>i. (i mod 32, xs ! (i mod 32))) (filter P [b * 32..<b * 32 + 32])"
  proof -
    have "P (b * 32 + i mod 32) = P i" if "i \<in> set [b * 32..<b * 32 + 32]" for i
    proof -
      from that obtain r where "i = b * 32 + r" and "r < 32"
        by (metis add_less_cancel_left atLeastLessThan_iff le_Suc_ex set_upt)
      then show ?thesis by simp
    qed
    then have "filter (\<lambda>i. P (b * 32 + i mod 32)) [b * 32..<b * 32 + 32] = filter P [b * 32..<b * 32 + 32]"
      by (intro filter_cong) auto
    then show ?thesis by (simp add: filter_map comp_def)
  qed
  ultimately show ?thesis by simp
qed

lemma filter_interval:
  fixes a c lo hi :: nat
  assumes "lo \<le> a" and "c \<le> hi" and "a \<le> c"
  shows "filter (\<lambda>i. a \<le> i \<and> i < c) [lo..<hi] = [a..<c]"
proof -
  have "[lo..<hi] = [lo..<a] @ [a..<c] @ [c..<hi]"
    using assms by (metis le_Suc_ex upt_add_eq_append le_trans append.assoc)
  then show ?thesis by simp
qed

lemma uniform_row:
  assumes "digest32 D"
  shows "(let start_idx = r * c in
       concat (map (\<lambda>block.
         map (\<lambda>(k, byte). (byte AND RANGE_MASK) - ZERO_POINT_TRANSLATION)
           (filter (\<lambda>(k, byte). let idx = block * 32 + k in start_idx \<le> idx \<and> idx < start_idx + c)
             (enumerate 0 (get_random_hash D block seed key 0))))
         [start_idx div 32..<(start_idx + c + 31) div 32]))
    = map (noise_byte D seed key) [r * c..<r * c + c]"
proof -
  let ?P = "\<lambda>i. r * c \<le> i \<and> i < r * c + c"
  let ?lo = "r * c div 32" and ?hi = "(r * c + c + 31) div 32"
  have bl: "map (\<lambda>(k, byte). (byte AND RANGE_MASK) - ZERO_POINT_TRANSLATION)
           (filter (\<lambda>(k, byte). ?P (b * 32 + k)) (enumerate 0 (get_random_hash D b seed key 0)))
      = map (noise_byte D seed key) (filter ?P [b * 32..<b * 32 + 32])" for b
  proof -
    have "map (\<lambda>(k, byte). (byte AND 63) - 32)
           (filter (\<lambda>(k, byte). ?P (b * 32 + k)) (enumerate 0 (get_random_hash D b seed key 0)))
      = map (\<lambda>i. (get_random_hash D b seed key 0 ! (i mod 32) AND 63) - 32) (filter ?P [b * 32..<b * 32 + 32])"
      by (rule uniform_block) (simp add: assms)
    also have "\<dots> = map (noise_byte D seed key) (filter ?P [b * 32..<b * 32 + 32])"
    proof (rule map_cong [OF refl])
      fix i assume "i \<in> set (filter ?P [b * 32..<b * 32 + 32])"
      then have "i div 32 = b" by (auto intro!: div_nat_eqI)
      then show "(get_random_hash D b seed key 0 ! (i mod 32) AND 63) - 32 = noise_byte D seed key i"
        by (simp add: noise_byte_def)
    qed
    finally show ?thesis by simp
  qed
  have "concat (map (\<lambda>b. map (noise_byte D seed key) (filter ?P [b * 32..<b * 32 + 32])) [?lo..<?hi])
      = map (noise_byte D seed key) (filter ?P (concat (map (\<lambda>b. [b * 32..<b * 32 + 32]) [?lo..<?hi])))"
    by (simp add: map_concat filter_concat comp_def)
  also have "\<dots> = map (noise_byte D seed key) (filter ?P [?lo * 32..<?hi * 32])"
    using concat_blocks [of ?lo ?hi 32] by (simp add: div_le_mono)
  also have "filter ?P [?lo * 32..<?hi * 32] = [r * c..<r * c + c]"
    by (rule filter_interval) linarith+
  finally show ?thesis by (simp only: Let_def bl)
qed

lemma uniform_matrix:
  "digest32 D \<Longrightarrow> generate_uniform_random_matrix D seed key rows c
    = map (\<lambda>r. map (noise_byte D seed key) [r * c..<r * c + c]) rows"
  unfolding generate_uniform_random_matrix_def by (rule map_cong [OF refl]) (rule uniform_row)

definition noise_pair :: "digest_fn \<Rightarrow> bytes \<Rightarrow> bytes \<Rightarrow> nat \<Rightarrow> nat \<Rightarrow> u32 \<times> u32" where
  "noise_pair D seed key nr t = permutation_pair nr (get_random_hash D (t div 8) seed key 1) (t mod 8)"

lemma map_blocks_trunc:
  assumes "0 < d" and "\<And>i j. j < d \<Longrightarrow> h i j = g (i * d + j)"
  shows "concat (map (\<lambda>i. map (h i) [0..<min d (k - i * d)]) [0..<(k + (d - 1)) div d]) = map g [0..<k]"
proof -
  have "map (h i) [0..<min d (k - i * d)] = map g [i * d..<i * d + min d (k - i * d)]" for i
    using assms(2) by (intro nth_equalityI) auto
  then have "concat (map (\<lambda>i. map (h i) [0..<min d (k - i * d)]) [0..<(k + (d - 1)) div d])
      = map g (concat (map (\<lambda>b. [b * d..<b * d + min d (k - b * d)]) [0..<(k + (d - 1)) div d]))"
    by (simp add: map_concat comp_def)
  then show ?thesis by (simp only: concat_blocks_trunc [OF assms(1)])
qed

lemma permutation_matrix:
  "generate_permutation_matrix D seed key k nr = map (noise_pair D seed key nr) [0..<k]"
  using map_blocks_trunc [of 8 "\<lambda>i. permutation_pair nr (get_random_hash D i seed key 1)" "noise_pair D seed key nr" k]
  by (simp add: generate_permutation_matrix_def noise_pair_def Let_def)

section \<open>The references in closed form\<close>

lemma dense_closed:
  assumes "digest32 D" and "length seed = 32" and "0 \<le> sint rows"
  shows "reference_dense_int8 D rows key seed
    = Ok (map (noise_byte D seed key) [0..<nat (sint rows) * R_RANK])"
proof -
  define n where "n = nat (sint rows) * R_RANK"
  define f where "f c = map dense_value (get_random_hash D c seed key 0)" for c
  have n: "n = (n div 32) * 32" by (simp add: n_def R_RANK_def)
  have off: "(c * 32) div R_RANK * R_RANK + (c * 32) mod R_RANK = c * 32" for c
    by (rule div_mult_mod_eq)
  have hash: "keyed_compress D key (make_message seed 0 (of_nat (c + 1))) = get_random_hash D c seed key 0" for c
    using same_message [OF assms(2), of 0] by (simp add: keyed_compress_def)
  have "foldl (\<lambda>out chunk.
              let cv = keyed_compress D key (make_message seed 0 (of_nat (chunk + 1)));
                  row = (chunk * 32) div R_RANK;
                  col0 = (chunk * 32) mod R_RANK
              in copy_into (row * R_RANK + col0) (map dense_value cv) out)
            (replicate n 0) [0..<n div 32] = concat (map f [0..<n div 32])"
    unfolding Let_def off hash f_def [symmetric]
    by (rule copy_chunks) (use n assms(1) in \<open>simp_all add: f_def\<close>)
  also have "\<dots> = map (noise_byte D seed key) [0..<n]"
  proof (rule nth_equalityI)
    have "length (concat (map f [0..<n div 32])) = n div 32 * 32"
      by (rule length_concat_chunks) (simp add: f_def assms(1))
    then show len: "length (concat (map f [0..<n div 32])) = length (map (noise_byte D seed key) [0..<n])"
      using n by simp
    fix i assume "i < length (concat (map f [0..<n div 32]))"
    then have i: "i < n div 32 * 32" using len n by simp
    then have "concat (map f [0..<n div 32]) ! i = f (i div 32) ! (i mod 32)"
      by (intro nth_concat_chunks) (simp_all add: f_def assms(1))
    with i n show "concat (map f [0..<n div 32]) ! i = map (noise_byte D seed key) [0..<n] ! i"
      by (simp add: f_def noise_byte_def dense_value_mask assms(1))
  qed
  finally show ?thesis using assms(3) by (simp add: reference_dense_int8_def n_def Let_def)
qed

lemma mul_hi_small:
  assumes "0 < unat c"
  shows "unat (mul_hi_u32 c u) < unat c"
proof -
  have u: "unat u < 4294967296" and c: "unat c < 4294967296" by (rule unat_u32_less)+
  have wide: "unat (ucast w :: u64) = unat w" if "unat w < 4294967296" for w :: u32
    using that by (simp add: unsigned_ucast_eq take_bit_nat_eq_self_iff)
  have "unat c * unat u \<le> 4294967295 * 4294967295" by (rule mult_le_mono) (use u c in simp_all)
  then have p: "unat (ucast c * ucast u :: u64) = unat c * unat u"
    using u c by (subst unat_mult_small) (simp_all add: wide)
  have d: "unat (drop_bit 32 (ucast c * ucast u :: u64)) = unat c * unat u div 4294967296"
    by (subst unat_drop_bit_eq) (simp add: p drop_bit_eq_div)
  have lt: "unat c * unat u div 4294967296 < unat c"
    using u assms by (simp add: div_less_iff_less_mult)
  moreover have "unat (mul_hi_u32 c u) = unat (drop_bit 32 (ucast c * ucast u :: u64)) mod 4294967296"
    by (simp add: mul_hi_u32_def unsigned_ucast_eq take_bit_eq_mod)
  ultimately show ?thesis using d c by simp
qed

text \<open>For a rank that is a power of two both columns of a sparse row are in range, and they differ.\<close>

lemma pair_range:
  assumes pair: "permutation_pair (2 ^ e) cv j = (a, b)" and e: "0 < e" "e < 32"
  shows "unat a < 2 ^ e" and "unat b < 2 ^ e" and "a \<noteq> b"
proof -
  define u where "u = u32_from_le [cv ! (j * 4), cv ! (j * 4 + 1), cv ! (j * 4 + 2), cv ! (j * 4 + 3)]"
  define t where "t = 1 + mul_hi_u32 (mask e) u"
  have mask: "of_nat (2 ^ e) - 1 = (mask e :: u32)" by (simp add: mask_eq_exp_minus_1)
  have a: "a = u AND mask e" and b: "b = (u AND mask e) XOR t"
    using pair mask by (auto simp: permutation_pair_def u_def t_def Let_def)
  have "(2 :: nat) ^ 1 \<le> 2 ^ e" using e by (intro power_increasing) simp_all
  moreover have big: "(2 :: nat) ^ e < 4294967296" using power_strict_increasing [OF e(2), of "2 :: nat"] by simp
  moreover have unat_mask: "unat (mask e :: u32) = 2 ^ e - 1"
  proof -
    have "mask e = (of_nat (2 ^ e - 1) :: u32)" by (simp add: mask_eq_exp_minus_1 of_nat_diff)
    then show ?thesis using big by (simp only: unat_of_nat) simp
  qed
  ultimately have small: "unat (mul_hi_u32 (mask e) u) < 2 ^ e - 1"
    using mul_hi_small [of "mask e" u] unat_mask by simp
  then have t: "unat t = 1 + unat (mul_hi_u32 (mask e) u)"
    using big unfolding t_def by (subst unat_add_small) simp_all
  have a7: "take_bit e a = a" unfolding a by (simp flip: take_bit_eq_mask)
  have t7: "take_bit e t = t"
    using t small by (simp add: take_bit_nat_eq_self_iff word_unat_eq_iff unsigned_take_bit_eq)
  have b7: "take_bit e b = b"
    using a7 t7 unfolding a b by (simp add: take_bit_xor)
  have "unat w < 2 ^ e" if "take_bit e w = w" for w :: u32
  proof -
    have "unat w = take_bit e (unat w)" using that by (metis unsigned_take_bit_eq)
    then show ?thesis using take_bit_nat_less_exp [of e "unat w"] by simp
  qed
  with a7 b7 show "unat a < 2 ^ e" and "unat b < 2 ^ e" by simp_all
  have "t \<noteq> 0" using t by auto
  moreover have "a XOR b = t" unfolding a b by (simp flip: xor.assoc)
  ultimately show "a \<noteq> b" by auto
qed

lemma pair_128:
  assumes "permutation_pair 128 cv j = (a, b)"
  shows "unat a < 128" and "unat b < 128" and "a \<noteq> b"
  using pair_range [of 7 cv j a b] assms by simp_all

lemma subrange_4:
  assumes "length cv = 32" and "j < 8"
  shows "subrange (j * 4) (j * 4 + 4) cv = [cv ! (j * 4), cv ! (j * 4 + 1), cv ! (j * 4 + 2), cv ! (j * 4 + 3)]"
proof (rule nth_equalityI)
  show "length (subrange (j * 4) (j * 4 + 4) cv) = length [cv ! (j * 4), cv ! (j * 4 + 1), cv ! (j * 4 + 2), cv ! (j * 4 + 3)]"
    using assms by simp
  fix i assume "i < length (subrange (j * 4) (j * 4 + 4) cv)"
  then have "i < 4" by simp
  then have "i = 0 \<or> i = 1 \<or> i = 2 \<or> i = 3" by arith
  then show "subrange (j * 4) (j * 4 + 4) cv ! i = [cv ! (j * 4), cv ! (j * 4 + 1), cv ! (j * 4 + 2), cv ! (j * 4 + 3)] ! i"
    using assms by (auto simp: nth_subrange numeral_2_eq_2 numeral_3_eq_3)
qed

lemma sparse_indices_pair:
  assumes "length cv = 32" and "j < 8"
  shows "sparse_indices (u32_from_le (subrange (j * 4) (j * 4 + 4) cv))
    = (unat (fst (permutation_pair 128 cv j)), unat (snd (permutation_pair 128 cv j)))"
proof -
  obtain a b where ab: "permutation_pair 128 cv j = (a, b)" by fastforce
  define u where "u = u32_from_le [cv ! (j * 4), cv ! (j * 4 + 1), cv ! (j * 4 + 2), cv ! (j * 4 + 3)]"
  have a: "a = u AND 127" and b: "b = (u AND 127) XOR (1 + mul_hi_u32 127 u)"
    using ab by (auto simp: permutation_pair_def u_def Let_def)
  have m: "of_nat R_RANK - 1 = (127 :: u32)" "of_nat R_RANK = (128 :: u32)" by (simp_all add: R_RANK_def)
  have "unat b < 128" by (rule pair_128 [OF ab])
  then have "b mod 128 = b" by (simp add: word_unat_eq_iff unat_mod_distrib)
  then show ?thesis
    unfolding subrange_4 [OF assms] u_def [symmetric] ab sparse_indices_def m Let_def
    using a b by (simp add: mul_hi_u32_def mult.commute)
qed

definition spike :: "u32 \<times> u32 \<Rightarrow> i8 list" where
  "spike p = (replicate R_RANK 0)[unat (fst p) := 1, unat (snd p) := - 1]"

lemma length_spike [simp]: "length (spike p) = R_RANK"
  by (simp add: spike_def)

lemma nth_spike:
  assumes "a \<noteq> b" and "c < 128"
  shows "spike (a, b) ! c = (if c = unat a then 1 else if c = unat b then - 1 else 0)"
proof -
  have "unat a \<noteq> unat b" using assms(1) by (simp add: word_unat_eq_iff)
  with assms(2) show ?thesis by (auto simp: spike_def R_RANK_def nth_list_update)
qed

lemma takeWhile_upt: "takeWhile (\<lambda>j. base + j < kk) [0..<n] = [0..<min n (kk - base)]" for base kk n :: nat
proof -
  have "takeWhile (\<lambda>j. base + j < kk) [0..<n] = take (min n (kk - base)) [0..<n]"
    by (rule takeWhile_eq_take_P_nth) auto
  then show ?thesis by (simp add: take_upt)
qed

lemma foldl_blocks_trunc:
  assumes "0 < d"
  shows "foldl (\<lambda>out i. foldl (\<lambda>out j. h (i * d + j) out) out [0..<min d (k - i * d)]) x [0..<(k + (d - 1)) div d]
    = foldl (\<lambda>out t. h t out) x [0..<k]"
proof -
  have "foldl (\<lambda>out j. h (i * d + j) out) y [0..<n] = foldl (\<lambda>out t. h t out) y [i * d..<i * d + n]" for i y n
    by (induction n) simp_all
  then have "foldl (\<lambda>out i. foldl (\<lambda>out j. h (i * d + j) out) out [0..<min d (k - i * d)]) x is
      = foldl (\<lambda>out t. h t out) x (concat (map (\<lambda>b. [b * d..<b * d + min d (k - b * d)]) is))" for "is"
    by (induction "is" arbitrary: x) simp_all
  then show ?thesis by (simp only: concat_blocks_trunc [OF assms])
qed

lemma spikes_prefix:
  assumes "\<And>t. t < k \<Longrightarrow> unat (fst (p t)) < 128 \<and> unat (snd (p t)) < 128" and "k \<le> m"
  shows "foldl (\<lambda>out t. out[t * R_RANK + unat (fst (p t)) := 1, t * R_RANK + unat (snd (p t)) := - 1])
      (replicate (m * R_RANK) 0) [0..<k]
    = concat (map (\<lambda>t. spike (p t)) [0..<k]) @ replicate ((m - k) * R_RANK) 0"
  using assms
proof (induction k)
  case 0
  then show ?case by simp
next
  case (Suc k)
  let ?pre = "concat (map (\<lambda>t. spike (p t)) [0..<k])"
  have len: "length ?pre = k * R_RANK" by (rule length_concat_chunks) simp
  have split: "replicate ((m - k) * R_RANK) 0 = replicate R_RANK (0 :: i8) @ replicate ((m - Suc k) * R_RANK) 0"
    using Suc.prems by (simp flip: replicate_add) (metis Suc_diff_Suc Suc_le_lessD mult_Suc)
  have "(?pre @ replicate R_RANK 0 @ replicate ((m - Suc k) * R_RANK) 0)
      [k * R_RANK + unat (fst (p k)) := 1, k * R_RANK + unat (snd (p k)) := - 1]
    = ?pre @ spike (p k) @ replicate ((m - Suc k) * R_RANK) 0"
    using Suc.prems(1) [of k] len by (simp add: list_update_append spike_def R_RANK_def)
  with Suc split show ?case by simp
qed

lemma noise_pair_128:
  assumes "noise_pair D seed key 128 t = (a, b)"
  shows "unat a < 128" "unat b < 128" "a \<noteq> b"
  using pair_128 [of _ "t mod 8" a b] assms unfolding noise_pair_def by auto

lemma sparse_closed:
  assumes "digest32 D" and "length seed = 32" and "0 \<le> sint k"
  shows "reference_sparse D k key seed
    = Ok (concat (map (\<lambda>t. spike (noise_pair D seed key 128 t)) [0..<nat (sint k)]))"
proof -
  define kk where "kk = nat (sint k)"
  define p where "p = noise_pair D seed key 128"
  define h where "h t out = out[t * R_RANK + unat (fst (p t)) := 1, t * R_RANK + unat (snd (p t)) := (- 1 :: i8)]" for t out
  have hash: "keyed_compress D key (make_message seed 1 (of_nat (c + 1))) = get_random_hash D c seed key 1" for c
    using same_message [OF assms(2), of 1] by (simp add: keyed_compress_def)
  have idx: "sparse_indices (u32_from_le (subrange (j * 4) (j * 4 + 4) (get_random_hash D c seed key 1)))
      = (unat (fst (p (c * 8 + j))), unat (snd (p (c * 8 + j))))" if "j < 8" for c j
    using that assms(1) by (simp add: sparse_indices_pair p_def noise_pair_def)
  have inner: "foldl (\<lambda>out j. case sparse_indices (u32_from_le (subrange (j * 4) (j * 4 + 4) (get_random_hash D c seed key 1))) of
        (k0, k1) \<Rightarrow> out[(c * 8 + j) * R_RANK + k0 := 1, (c * 8 + j) * R_RANK + k1 := - 1])
      out (takeWhile (\<lambda>j. c * 8 + j < kk) [0..<8])
    = foldl (\<lambda>out j. h (c * 8 + j) out) out [0..<min 8 (kk - c * 8)]" for c out
    unfolding takeWhile_upt by (rule foldl_cong [OF refl refl]) (simp add: idx [simplified] h_def)
  have "foldl (\<lambda>out c. foldl (\<lambda>out j. h (c * 8 + j) out) out [0..<min 8 (kk - c * 8)])
      (replicate (kk * R_RANK) 0) [0..<(kk + 7) div 8]
    = concat (map (\<lambda>t. spike (p t)) [0..<kk])"
  proof -
    have "unat (fst (p t)) < 128 \<and> unat (snd (p t)) < 128" for t
      unfolding p_def by (cases "noise_pair D seed key 128 t") (auto dest: noise_pair_128)
    then have "foldl (\<lambda>out t. h t out) (replicate (kk * R_RANK) 0) [0..<kk] = concat (map (\<lambda>t. spike (p t)) [0..<kk])"
      using spikes_prefix [of kk p kk] by (simp add: h_def)
    with foldl_blocks_trunc [of 8 h kk] show ?thesis by simp
  qed
  then show ?thesis
    using assms(3) unfolding reference_sparse_def Let_def hash kk_def [symmetric] p_def [symmetric] inner
    by simp
qed

section \<open>The noise of one entry\<close>

definition noise_entry :: "digest_fn \<Rightarrow> bytes \<Rightarrow> bytes \<Rightarrow> nat \<Rightarrow> nat \<Rightarrow> nat \<Rightarrow> i8" where
  "noise_entry D seed key nr r t =
     (let (a, b) = noise_pair D seed key nr t
      in noise_byte D seed key (r * nr + unat a) - noise_byte D seed key (r * nr + unat b))"

lemma noise_pair_range:
  assumes "noise_pair D seed key (2 ^ e) t = (a, b)" and "0 < e" "e < 32"
  shows "unat a < 2 ^ e" "unat b < 2 ^ e" "a \<noteq> b"
  using pair_range [of e _ "t mod 8" a b] assms unfolding noise_pair_def by auto

lemma noise_rows:
  assumes "digest32 D" and "0 < e" "e < 32"
  shows "res_map (matvec_sparse_perm (generate_permutation_matrix D seed key k (2 ^ e)))
      (generate_uniform_random_matrix D seed key rows (2 ^ e))
    = Ok (map (\<lambda>r. map (noise_entry D seed key (2 ^ e) r) [0..<k]) rows)"
proof -
  have "matvec_sparse_perm (map (noise_pair D seed key (2 ^ e)) [0..<k])
      (map (noise_byte D seed key) [r * 2 ^ e..<r * 2 ^ e + 2 ^ e])
    = Ok (map (noise_entry D seed key (2 ^ e) r) [0..<k])" for r
  proof -
    have "(case noise_pair D seed key (2 ^ e) t of (first_idx, second_idx) \<Rightarrow>
        res_bind (nth_res (map (noise_byte D seed key) [r * 2 ^ e..<r * 2 ^ e + 2 ^ e]) (unat first_idx)) (\<lambda>pos_val.
        res_bind (nth_res (map (noise_byte D seed key) [r * 2 ^ e..<r * 2 ^ e + 2 ^ e]) (unat second_idx)) (\<lambda>neg_val.
        Ok (ucast (scast pos_val - scast neg_val :: i32)))))
      = Ok (noise_entry D seed key (2 ^ e) r t)" for t
    proof -
      obtain a b where ab: "noise_pair D seed key (2 ^ e) t = (a, b)" by fastforce
      with noise_pair_range [OF ab assms(2,3)] show ?thesis
        by (simp add: nth_res_def noise_entry_def ucast_i32_diff)
    qed
    then have "res_map (\<lambda>t. case noise_pair D seed key (2 ^ e) t of (first_idx, second_idx) \<Rightarrow>
        res_bind (nth_res (map (noise_byte D seed key) [r * 2 ^ e..<r * 2 ^ e + 2 ^ e]) (unat first_idx)) (\<lambda>pos_val.
        res_bind (nth_res (map (noise_byte D seed key) [r * 2 ^ e..<r * 2 ^ e + 2 ^ e]) (unat second_idx)) (\<lambda>neg_val.
        Ok (ucast (scast pos_val - scast neg_val :: i32))))) [0..<k]
      = Ok (map (noise_entry D seed key (2 ^ e) r) [0..<k])"
      by (intro res_map_all_Ok)
    then show ?thesis by (simp add: matvec_sparse_perm_def res_map_map comp_def)
  qed
  then have "res_map (\<lambda>r. matvec_sparse_perm (map (noise_pair D seed key (2 ^ e)) [0..<k])
      (map (noise_byte D seed key) [r * 2 ^ e..<r * 2 ^ e + 2 ^ e])) rows
    = Ok (map (\<lambda>r. map (noise_entry D seed key (2 ^ e) r) [0..<k]) rows)"
    by (intro res_map_all_Ok)
  then show ?thesis using assms(1) by (simp add: permutation_matrix uniform_matrix res_map_map comp_def)
qed

text \<open>For every sound rank the verifier's noise is computed without a panic, and every row of it
  depends on its own index only.\<close>

lemma noise_for_indices:
  assumes "digest32 D" and "0 < e" "e < 32"
  shows "compute_noise_for_indices D k (2 ^ e) (b_seed, a_seed) rows cols
    = Ok \<lparr>mm_a = map (\<lambda>r. map (noise_entry D SEED_LABEL_A a_seed (2 ^ e) r) [0..<k]) rows,
           mm_b = map (\<lambda>r. map (noise_entry D SEED_LABEL_B b_seed (2 ^ e) r) [0..<k]) cols\<rparr>"
  by (simp add: compute_noise_for_indices_def noise_rows [OF assms])

lemma noise_byte_range: "- 32 \<le> sint (noise_byte D seed key i) \<and> sint (noise_byte D seed key i) \<le> 31"
proof -
  obtain b where "noise_byte D seed key i = dense_value b"
    by (simp add: noise_byte_def dense_value_mask)
  moreover have "sint (word_of_int v :: i8) = v" if "- 32 \<le> v" "v \<le> 31" for v
    using that by (simp add: sint_word_ariths signed_of_int signed_take_bit_int_eq_self)
  from this [of "(sint b + 128) mod 64 - 32"] have "sint (dense_value b) = (sint b + 128) mod 64 - 32"
    unfolding dense_value_def by linarith
  ultimately show ?thesis by simp
qed

lemma sint_plus_small: "- 128 \<le> sint a + sint b \<Longrightarrow> sint a + sint b < 128 \<Longrightarrow> sint (a + b :: i8) = sint a + sint b"
  by (simp add: sint_word_ariths signed_take_bit_int_eq_self)

lemma sint_minus_small: "- 128 \<le> sint a - sint b \<Longrightarrow> sint a - sint b < 128 \<Longrightarrow> sint (a - b :: i8) = sint a - sint b"
  by (simp add: sint_word_ariths signed_take_bit_int_eq_self)

lemma noise_entry_range: "- 63 \<le> sint (noise_entry D seed key nr r t) \<and> sint (noise_entry D seed key nr r t) \<le> 63"
proof (cases "noise_pair D seed key nr t")
  case (Pair a b)
  have "sint (noise_byte D seed key i - noise_byte D seed key j) = sint (noise_byte D seed key i) - sint (noise_byte D seed key j)" for i j
    using noise_byte_range [of D seed key i] noise_byte_range [of D seed key j]
    by (intro sint_minus_small) linarith+
  with Pair show ?thesis
    using noise_byte_range [of D seed key "r * nr + unat a"] noise_byte_range [of D seed key "r * nr + unat b"]
    by (simp add: noise_entry_def)
qed

section \<open>The noising product\<close>

lemma add_gemm_closed:
  assumes "length x = m * n" "length y = m * k" "length z = n * k"
  shows "reference_add_gemm m n k x y z
    = Ok (concat (map (\<lambda>i. map (\<lambda>j. ucast (add_gemm_acc n k x y z i j)) [0..<n]) [0..<m]))"
  using assms by (simp add: reference_add_gemm_def fill_grid ucast_low_byte)

lemma foldl_plus: "foldl (\<lambda>acc r. acc + f r) x [0..<n] = x + (\<Sum>r<n. f r)" for x :: "'a::comm_monoid_add"
  by (induction n) (simp_all add: add.assoc)

lemma ucast_acc:
  "ucast (add_gemm_acc n k x y z i j) = x ! (i * n + j) + (\<Sum>r<k. y ! (i * k + r) * z ! (j * k + r))"
proof -
  have H: "ucast (foldl (\<lambda>acc r. acc + scast (f r) * scast (g r)) s xs) = foldl (\<lambda>acc r. acc + f r * g r) (ucast s :: i8) xs"
    for f g :: "nat \<Rightarrow> i8" and s :: i32 and xs
    by (induction xs arbitrary: s) (simp_all add: ucast_i32_add ucast_i32_mult)
  show ?thesis
    unfolding add_gemm_acc_def H [of "\<lambda>r. y ! (i * k + r)" "\<lambda>r. z ! (j * k + r)"] by (simp add: foldl_plus)
qed

lemma sum_spike:
  assumes "a \<noteq> b" and "unat a < 128" and "unat b < 128"
  shows "(\<Sum>r<128. f r * spike (a, b) ! r) = f (unat a) - f (unat b)"
proof -
  have ab: "unat a \<noteq> unat b" using assms(1) by (simp add: word_unat_eq_iff)
  have "(\<Sum>r<128. f r * spike (a, b) ! r)
      = (\<Sum>r<128. (if r = unat a then f r else 0) - (if r = unat b then f r else 0))"
    using assms(1) ab by (intro sum.cong refl) (auto simp: nth_spike)
  also have "\<dots> = f (unat a) - f (unat b)"
    using assms by (simp add: sum_subtractf)
  finally show ?thesis .
qed

lemma nth_concat_spikes:
  assumes "t < k" and "r < 128"
  shows "concat (map (\<lambda>t. spike (p t)) [0..<k]) ! (t * 128 + r) = spike (p t) ! r"
proof -
  have "t * 128 + r < k * 128" using assms by linarith
  moreover have "(t * 128 + r) div 128 = t" and "(t * 128 + r) mod 128 = r" using assms by simp_all
  ultimately show ?thesis
    using nth_concat_chunks [of k "\<lambda>t. spike (p t)" 128 "t * 128 + r"] by (simp add: R_RANK_def)
qed

text \<open>One side of the pipeline, in the order the kernels run: dense factor, sparse factor,
  wrapping product added to the matrix.\<close>

definition reference_noised :: "digest_fn \<Rightarrow> i32 \<Rightarrow> i32 \<Rightarrow> bytes \<Rightarrow> bytes \<Rightarrow> i8 list \<Rightarrow> (anyhow, i8 list) res" where
  "reference_noised D rows k key seed x =
     res_bind (reference_dense_int8 D rows key seed) (\<lambda>dense.
     res_bind (reference_sparse D k key seed) (\<lambda>sparse.
     reference_add_gemm (nat (sint rows)) (nat (sint k)) R_RANK x dense sparse))"

lemma reference_noised_entry:
  assumes "digest32 D" and "length seed = 32" and "length x = nat (sint m) * nat (sint k)"
    and "0 \<le> sint m" "0 \<le> sint k"
  shows "\<exists>out. reference_noised D m k key seed x = Ok out
    \<and> (\<forall>i < nat (sint m). \<forall>j < nat (sint k).
         out ! (i * nat (sint k) + j) = x ! (i * nat (sint k) + j) + noise_entry D seed key 128 i j)"
proof -
  define M where "M = nat (sint m)"
  define K where "K = nat (sint k)"
  define dense where "dense = map (noise_byte D seed key) [0..<M * R_RANK]"
  define p where "p = noise_pair D seed key 128"
  define sparse where "sparse = concat (map (\<lambda>t. spike (p t)) [0..<K])"
  define out where "out = concat (map (\<lambda>i. map (\<lambda>j. ucast (add_gemm_acc K R_RANK x dense sparse i j) :: i8) [0..<K]) [0..<M])"
  have len: "length dense = M * R_RANK" "length sparse = K * R_RANK"
    using length_concat_chunks [of K "\<lambda>t. spike (p t)" R_RANK] by (simp_all add: dense_def sparse_def)
  have entry: "out ! (i * K + j) = x ! (i * K + j) + noise_entry D seed key 128 i j"
    if "i < M" "j < K" for i j
  proof -
    obtain u v where uv: "p j = (u, v)" by fastforce
    note r = noise_pair_128 [OF uv [unfolded p_def]]
    have y: "dense ! (i * 128 + r) = noise_byte D seed key (i * 128 + r)" if "r < 128" for r
    proof -
      have "i * 128 + r < M * 128" using \<open>i < M\<close> that by linarith
      then show ?thesis by (simp add: dense_def R_RANK_def)
    qed
    have "(\<Sum>r<128. dense ! (i * 128 + r) * sparse ! (j * 128 + r))
        = (\<Sum>r<128. noise_byte D seed key (i * 128 + r) * spike (u, v) ! r)"
      using that nth_concat_spikes [of j K _ p] uv by (intro sum.cong refl) (simp add: y sparse_def)
    then have "(\<Sum>r<128. dense ! (i * 128 + r) * sparse ! (j * 128 + r)) = noise_entry D seed key 128 i j"
      using uv r by (simp add: sum_spike noise_entry_def p_def)
    moreover have "out ! (i * K + j) = ucast (add_gemm_acc K R_RANK x dense sparse i j)"
      unfolding out_def by (rule nth_grid [OF that])
    ultimately show ?thesis by (simp add: ucast_acc R_RANK_def)
  qed
  have "reference_dense_int8 D m key seed = Ok dense" "reference_sparse D k key seed = Ok sparse"
    using dense_closed [OF assms(1,2,4)] sparse_closed [OF assms(1,2,5)]
    by (simp_all add: dense_def sparse_def p_def M_def K_def)
  moreover have "reference_add_gemm M K R_RANK x dense sparse = Ok out"
    unfolding out_def by (rule add_gemm_closed) (use assms(3) len in \<open>simp_all add: M_def K_def\<close>)
  ultimately show ?thesis using entry by (simp add: reference_noised_def M_def K_def)
qed

text \<open>Entry by entry, for any list of row indices (repeated or out of order): the noised matrix has
  at row \<open>rows ! t\<close> the entry of \<open>x\<close> plus the \<open>t\<close>-th row of the noise.\<close>

definition noised_rows :: "nat list \<Rightarrow> nat \<Rightarrow> i8 list \<Rightarrow> i8 list list \<Rightarrow> i8 list \<Rightarrow> bool" where
  "noised_rows rows k x noise out \<longleftrightarrow> length noise = length rows
     \<and> (\<forall>t < length rows. length (noise ! t) = k \<and> (\<forall>j < k. let p = rows ! t * k + j in
        out ! p = x ! p + noise ! t ! j
      \<and> (- 64 \<le> sint (x ! p) \<and> sint (x ! p) \<le> 64 \<longrightarrow> sint (out ! p) = sint (x ! p) + sint (noise ! t ! j))))"

lemma noised_rowsI:
  assumes "\<forall>i < m. \<forall>j < k. out ! (i * k + j) = x ! (i * k + j) + noise_entry D seed key 128 i j" and "\<forall>r \<in> set rows. r < m"
  shows "noised_rows rows k x (map (\<lambda>r. map (noise_entry D seed key 128 r) [0..<k]) rows) out"
proof -
  have "sint (x ! t + noise_entry D seed key 128 i j) = sint (x ! t) + sint (noise_entry D seed key 128 i j)"
    if "- 64 \<le> sint (x ! t)" "sint (x ! t) \<le> 64" for t i j
    using noise_entry_range [of D seed key 128 i j] that by (intro sint_plus_small) linarith+
  moreover have "rows ! t < m" if "t < length rows" for t using assms(2) that by simp
  ultimately show ?thesis using assms(1) by (simp add: noised_rows_def Let_def)
qed

lemma length_seed_labels [simp]: "length SEED_LABEL_A = 32" "length SEED_LABEL_B = 32"
  by (simp_all add: SEED_LABEL_A_def SEED_LABEL_B_def padded_seed_label_def)

text \<open>C12: The miner's noising pipeline (dense factor, sparse factor, wrapping product) runs over the
  whole matrix; the verifier computes the noise only for the rows and columns a proof opens. For
  every shape and every list of row and of column indices inside it, in any order and with
  repetitions, neither side panics and the entries the miner ends with at those rows and columns
  are the original ones plus exactly the verifier's noise. On entries between -64 and 64, which is
  what the verifier demands of a matrix, the 8-bit result does not wrap: it is the integer sum of
  entry and noise that the verifier's jackpot multiplies.\<close>

theorem noise_pipeline_exact:
  assumes "digest32 D" and "0 \<le> sint m" "0 \<le> sint n" "0 \<le> sint k"
    and "length a = nat (sint m) * nat (sint k)" and "length b = nat (sint n) * nat (sint k)"
    and "\<forall>r \<in> set rows. r < nat (sint m)" and "\<forall>c \<in> set cols. c < nat (sint n)"
  shows "\<exists>noise out_a out_b.
      compute_noise_for_indices D (nat (sint k)) R_RANK (b_commit, a_commit) rows cols = Ok noise
    \<and> reference_noised D m k a_commit SEED_LABEL_A a = Ok out_a
    \<and> reference_noised D n k b_commit SEED_LABEL_B b = Ok out_b
    \<and> noised_rows rows (nat (sint k)) a (mm_a noise) out_a
    \<and> noised_rows cols (nat (sint k)) b (mm_b noise) out_b"
proof -
  obtain out_a where out_a: "reference_noised D m k a_commit SEED_LABEL_A a = Ok out_a"
      "\<forall>i < nat (sint m). \<forall>j < nat (sint k). out_a ! (i * nat (sint k) + j)
         = a ! (i * nat (sint k) + j) + noise_entry D SEED_LABEL_A a_commit 128 i j"
    using reference_noised_entry [OF assms(1) _ assms(5) assms(2,4), of SEED_LABEL_A a_commit] by auto
  obtain out_b where out_b: "reference_noised D n k b_commit SEED_LABEL_B b = Ok out_b"
      "\<forall>i < nat (sint n). \<forall>j < nat (sint k). out_b ! (i * nat (sint k) + j)
         = b ! (i * nat (sint k) + j) + noise_entry D SEED_LABEL_B b_commit 128 i j"
    using reference_noised_entry [OF assms(1) _ assms(6) assms(3,4), of SEED_LABEL_B b_commit] by auto
  show ?thesis
    using noise_for_indices [OF assms(1), of 7 "nat (sint k)" b_commit a_commit rows cols]
      out_a(1) out_b(1) noised_rowsI [OF out_a(2) assms(7)] noised_rowsI [OF out_b(2) assms(8)]
    by (simp add: R_RANK_def)
qed

definition sample_digest :: digest_fn where
  "sample_digest msg key = take 32 (drop 32 msg @ replicate 32 0)"

lemma sample_digest32: "digest32 sample_digest"
  by (auto simp: digest32_def sample_digest_def min_def)

lemma noise_pipeline_exact_witness:
  "\<exists>noise out_a out_b.
      compute_noise_for_indices sample_digest 3 R_RANK ([1], [2]) [1, 1] [0] = Ok noise
    \<and> reference_noised sample_digest 2 3 [2] SEED_LABEL_A [64, 5, -64, 0, 1, 2] = Ok out_a
    \<and> reference_noised sample_digest 1 3 [1] SEED_LABEL_B [7, 8, 9] = Ok out_b
    \<and> noised_rows [1, 1] 3 [64, 5, -64, 0, 1, 2] (mm_a noise) out_a
    \<and> noised_rows [0] 3 [7, 8, 9] (mm_b noise) out_b"
  using noise_pipeline_exact [OF sample_digest32, of 2 1 3 "[64, 5, -64, 0, 1, 2]" "[7, 8, 9]" "[1, 1]" "[0]" "[1]" "[2]"]
  by simp

section \<open>The random fill and the commitment\<close>

lemma random_value_range: "- 63 \<le> sint (random_value b) \<and> sint (random_value b) \<le> 63"
proof -
  define x where "x = (ucast b mod 127 :: i32)"
  have "uint x < 127" by (simp add: x_def uint_mod_distrib)
  moreover have "0 \<le> uint x" by simp
  ultimately have "- 2147483648 \<le> uint x \<and> uint x < 2147483648" by linarith
  then have "sint x = uint x"
    unfolding sint_uint by (simp add: signed_take_bit_int_eq_self)
  with \<open>uint x < 127\<close> \<open>0 \<le> uint x\<close> have x: "0 \<le> sint x" "sint x < 127" by simp_all
  have "sint (word_of_int v :: i8) = v" if "- 63 \<le> v" "v \<le> 63" for v
    using that by (simp add: signed_of_int signed_take_bit_int_eq_self)
  from this [of "sint x - 63"] x have "sint (random_value b) = sint x - 63"
    unfolding random_value_def x_def [symmetric] by linarith
  with x show ?thesis by simp
qed

lemma u32_le_inj [simp]: "u32_le v = u32_le w \<longleftrightarrow> v = w"
  by (metis u32_roundtrip)

lemma random_message_layout:
  assumes "length seed = 32"
  shows "random_message seed iter_idx chunk
    = u32_le (ucast iter_idx) @ u32_le (ucast (drop_bit 32 iter_idx)) @ u32_le (of_nat chunk) @ replicate 20 0 @ seed"
proof -
  have "ucast (iter_idx AND 0xFFFFFFFF) = (ucast iter_idx :: u32)"
  proof -
    have m: \<open>(0xFFFFFFFF :: u64) = mask 32\<close> by (simp add: mask_eq_exp_minus_1)
    show ?thesis unfolding m by (rule bit_word_eqI) (simp add: bit_simps del: mask_numeral)
  qed
  with assms show ?thesis by (simp add: random_message_def copy_into_def Let_def)
qed

lemma u64_halves:
  assumes "(ucast v :: u32) = ucast w" and "(ucast (drop_bit 32 v) :: u32) = ucast (drop_bit 32 w)"
  shows "v = (w :: u64)"
proof (rule bit_word_eqI)
  fix n assume n: "n < LENGTH(64)"
  show "bit v n \<longleftrightarrow> bit w n"
  proof (cases "n < 32")
    case True
    have "bit (ucast v :: u32) n = bit (ucast w :: u32) n" using assms(1) by simp
    with True show ?thesis by (simp add: bit_simps)
  next
    case False
    then have "n = 32 + (n - 32)" by simp
    have "bit (ucast (drop_bit 32 v) :: u32) (n - 32) = bit (ucast (drop_bit 32 w) :: u32) (n - 32)"
      using assms(2) by simp
    moreover have "n - 32 < 32" using False n by simp
    ultimately show ?thesis using False n by (simp add: bit_simps)
  qed
qed

lemma random_chunks:
  assumes "digest32 D" "0 < total_bytes" "32 dvd total_bytes"
  shows "random_int8_reference D total_bytes seed iter_idx
    = Ok (concat (map (\<lambda>c. map random_value (D (random_message seed iter_idx c) None)) [0..<total_bytes div 32]))"
proof -
  define f where "f c = map random_value (D (random_message seed iter_idx c) None)" for c
  have f: "length (f c) = 32" for c by (simp add: f_def assms(1))
  have "total_bytes = total_bytes div 32 * 32" using assms(3) by simp
  with copy_chunks [of "total_bytes div 32" f 32 total_bytes 0] f assms(2,3) show ?thesis
    by (simp add: random_int8_reference_def Let_def flip: f_def)
qed

text \<open>C26: The fill of the matrix \<open>A\<close>. For a positive multiple of 32 bytes it returns exactly that
  many values, each between -63 and 63 (so inside what the verifier accepts and, with the noise
  added, inside an \<open>i8\<close>); every other size panics. Value \<open>i\<close> is the residue of byte \<open>i mod 32\<close> of
  the digest of the message of seed, iteration and chunk \<open>i div 32\<close>, and of nothing else; below
  \<open>2 ^ 32\<close> chunks no two chunks, of the same or of different iterations, share a message.\<close>

theorem random_fill:
  assumes "digest32 D" and "length seed = 32"
  shows "(case random_int8_reference D total_bytes seed iter_idx of
      Ok out \<Rightarrow> 0 < total_bytes \<and> 32 dvd total_bytes \<and> length out = total_bytes \<and> (\<forall>v \<in> set out. - 63 \<le> sint v \<and> sint v \<le> 63)
        \<and> (\<forall>i < total_bytes. out ! i = random_value (D (random_message seed iter_idx (i div 32)) None ! (i mod 32)))
    | Err _ \<Rightarrow> False
    | Panic \<Rightarrow> \<not> (0 < total_bytes \<and> 32 dvd total_bytes))
    \<and> (\<forall>i i' c c'. c < 2 ^ 32 \<and> c' < 2 ^ 32 \<and> random_message seed i c = random_message seed i' c'
         \<longrightarrow> i = i' \<and> c = c')"
proof
  define f where "f c = map random_value (D (random_message seed iter_idx c) None)" for c
  have f: "length (f c) = 32" for c by (simp add: f_def assms(1))
  show "case random_int8_reference D total_bytes seed iter_idx of
      Ok out \<Rightarrow> 0 < total_bytes \<and> 32 dvd total_bytes \<and> length out = total_bytes \<and> (\<forall>v \<in> set out. - 63 \<le> sint v \<and> sint v \<le> 63)
        \<and> (\<forall>i < total_bytes. out ! i = random_value (D (random_message seed iter_idx (i div 32)) None ! (i mod 32)))
    | Err _ \<Rightarrow> False
    | Panic \<Rightarrow> \<not> (0 < total_bytes \<and> 32 dvd total_bytes)"
  proof (cases "0 < total_bytes \<and> 32 dvd total_bytes")
    case True
    define out where "out = concat (map f [0..<total_bytes div 32])"
    have total: "total_bytes div 32 * 32 = total_bytes" using True by simp
    have "length out = total_bytes" using length_concat_chunks [of "total_bytes div 32" f 32, OF f] total by (simp add: out_def)
    moreover have "- 63 \<le> sint v \<and> sint v \<le> 63" if "v \<in> set out" for v
      using that random_value_range by (auto simp: out_def f_def)
    moreover have "out ! i = random_value (D (random_message seed iter_idx (i div 32)) None ! (i mod 32))" if "i < total_bytes" for i
      using nth_concat_chunks [of "total_bytes div 32" f 32 i] f that total assms(1) by (simp add: out_def) (simp add: f_def)
    moreover have "random_int8_reference D total_bytes seed iter_idx = Ok out"
      using random_chunks [OF assms(1)] True unfolding out_def f_def by simp
    ultimately show ?thesis using True by simp
  qed (auto simp: random_int8_reference_def dvd_eq_mod_eq_0)
next
  show "\<forall>i i' c c'. c < 2 ^ 32 \<and> c' < 2 ^ 32 \<and> random_message seed i c = random_message seed i' c'
         \<longrightarrow> i = i' \<and> c = c'"
  proof (intro allI impI, elim conjE)
    fix i i' c c' assume c: "c < 2 ^ 32" "c' < (2 :: nat) ^ 32" and eq: "random_message seed i c = random_message seed i' c'"
    have "(ucast i :: u32) = ucast i'" "(ucast (drop_bit 32 i) :: u32) = ucast (drop_bit 32 i')" "(of_nat c :: u32) = of_nat c'"
      using eq by (simp_all add: random_message_layout [OF assms(2)])
    moreover have "c = c'"
    proof -
      have "unat (of_nat c :: u32) = unat (of_nat c' :: u32)" using \<open>(of_nat c :: u32) = of_nat c'\<close> by simp
      with c show ?thesis by (simp add: unat_of_nat)
    qed
    ultimately show "i = i' \<and> c = c'" by (simp add: u64_halves)
  qed
qed

lemma random_fill_witness:
  "\<exists>out. random_int8_reference sample_digest 64 SEED_LABEL_A 7 = Ok out \<and> length out = 64
    \<and> (\<forall>v \<in> set out. - 63 \<le> sint v \<and> sint v \<le> 63)
    \<and> out ! 40 = random_value (sample_digest (random_message SEED_LABEL_A 7 1) None ! 8)"
  using random_fill [OF sample_digest32, of SEED_LABEL_A 64 7]
  by (cases "random_int8_reference sample_digest 64 SEED_LABEL_A 7") auto

text \<open>The kernel's commitment chain is the verifier's, with the two seeds named the other way
  around.\<close>

lemma commitment_same:
  assumes "length (hash_a p) = 32" "length (hash_b p) = 32" "length key = 32" "digest32 D"
  shows "commitment_reference D (hash_a p) (hash_b p) key = prod.swap (commitment_hash D p key)"
  using assms by (simp add: commitment_reference_def commitment_hash_def copy_into_def Let_def)

end
