(* ===== verification/Merkle_Tree.thy ===== *)
theory Merkle_Tree
  imports Prelude
begin

text \<open>
  The keyed BLAKE3 Merkle tree of deps/pearl-blake3 (hasher.rs and merkle.rs): the tree of a
  padded matrix, multi-leaf proofs, their verification and the extraction of matrix bytes from
  a proof's leaves.  The primitives of the \<open>blake3\<close> crate are the fields of \<open>blake3_lib\<close>, a
  parameter; a \<open>BTreeSet\<close> is a strictly increasing list and a \<open>BTreeMap\<close> an association list
  with strictly increasing keys, in the order the code iterates over them.  The parallel
  iterators write disjoint slots, so they are maps.
\<close>

type_synonym digest = bytes

definition CHUNK_LEN :: nat where "CHUNK_LEN = 1024"
definition CHUNKS_PER_SEGMENT :: nat where "CHUNKS_PER_SEGMENT = 64"
definition BYTES_PER_SEGMENT :: nat where "BYTES_PER_SEGMENT = CHUNKS_PER_SEGMENT * CHUNK_LEN"
definition B3F_CHUNK_START :: u8 where "B3F_CHUNK_START = 1"
definition B3F_CHUNK_END :: u8 where "B3F_CHUNK_END = 2"
definition B3F_KEYED_HASH :: u8 where "B3F_KEYED_HASH = 16"

text \<open>The crate: full hash, non-root chaining value of a chunk at an input offset, the two
  merges, and \<open>Platform::hash_many\<close> on whole chunks with an incremented counter
  (key words, counter, flags, start flags, end flags, chunks).\<close>

record blake3_lib =
  lib_hash :: "bytes option \<Rightarrow> bytes \<Rightarrow> digest"
  lib_chunk :: "bytes option \<Rightarrow> u64 \<Rightarrow> bytes \<Rightarrow> digest"
  lib_parent :: "bytes option \<Rightarrow> digest \<Rightarrow> digest \<Rightarrow> digest"
  lib_root :: "bytes option \<Rightarrow> digest \<Rightarrow> digest \<Rightarrow> digest"
  lib_hash_many :: "u32 list \<Rightarrow> u64 \<Rightarrow> u8 \<Rightarrow> u8 \<Rightarrow> u8 \<Rightarrow> bytes list \<Rightarrow> digest list"

section \<open>Blake3Hasher\<close>

definition IV :: "u32 list" where
  "IV = [0x6A09E667, 0xBB67AE85, 0x3C6EF372, 0xA54FF53A, 0x510E527F, 0x9B05688C, 0x1F83D9AB, 0x5BE0CD19]"

definition key_to_words :: "bytes \<Rightarrow> u32 list" where
  "key_to_words key = map (\<lambda>i. u32_from_le (subrange (i * 4) (i * 4 + 4) key)) [0..<8]"

record blake3_hasher =
  h_key :: "bytes option"
  key_words :: "u32 list"
  base_flags :: u8

definition hasher_new :: blake3_hasher where
  "hasher_new = \<lparr>h_key = None, key_words = IV, base_flags = 0\<rparr>"

definition with_key :: "bytes \<Rightarrow> blake3_hasher" where
  "with_key key = \<lparr>h_key = Some key, key_words = key_to_words key, base_flags = B3F_KEYED_HASH\<rparr>"

definition hasher_hash :: "blake3_lib \<Rightarrow> blake3_hasher \<Rightarrow> bytes \<Rightarrow> digest" where
  "hasher_hash B H data = lib_hash B (h_key H) data"

definition chunk_cv :: "blake3_lib \<Rightarrow> blake3_hasher \<Rightarrow> bytes \<Rightarrow> u64 \<Rightarrow> digest" where
  "chunk_cv B H data chunk_index = lib_chunk B (h_key H) (chunk_index * of_nat CHUNK_LEN) data"

definition parent_cv :: "blake3_lib \<Rightarrow> blake3_hasher \<Rightarrow> digest \<Rightarrow> digest \<Rightarrow> digest" where
  "parent_cv B H left right = lib_parent B (h_key H) left right"

definition root_cv :: "blake3_lib \<Rightarrow> blake3_hasher \<Rightarrow> digest \<Rightarrow> digest \<Rightarrow> digest" where
  "root_cv B H left right = lib_root B (h_key H) left right"

definition blake3_digest :: "blake3_lib \<Rightarrow> bytes \<Rightarrow> bytes option \<Rightarrow> digest" where
  "blake3_digest B data key = lib_hash B key data"

definition process_segment ::
  "blake3_lib \<Rightarrow> blake3_hasher \<Rightarrow> bytes \<Rightarrow> nat \<Rightarrow> digest list \<Rightarrow> digest list" where
  "process_segment B H data seg_idx cv_slice =
     (let start_chunk = seg_idx * CHUNKS_PER_SEGMENT;
          start_byte = start_chunk * CHUNK_LEN;
          end_byte = min ((seg_idx + 1) * BYTES_PER_SEGMENT) (length data);
          segment_data = subrange start_byte end_byte data;
          num_full = length segment_data div CHUNK_LEN;
          full_chunks = map (\<lambda>i. subrange (i * CHUNK_LEN) (i * CHUNK_LEN + CHUNK_LEN) segment_data) [0..<num_full];
          last_chunk = drop (num_full * CHUNK_LEN) segment_data;
          cvs = (if full_chunks = [] then cv_slice
            else let simd_out = lib_hash_many B (key_words H) (of_nat start_chunk) (base_flags H)
                        B3F_CHUNK_START B3F_CHUNK_END full_chunks
                 in simd_out @ drop num_full cv_slice)
      in if last_chunk = [] then cvs
         else cvs[num_full := lib_chunk B (h_key H)
           (of_nat (start_chunk + num_full) * of_nat CHUNK_LEN) last_chunk])"

definition hash_chunks :: "blake3_lib \<Rightarrow> blake3_hasher \<Rightarrow> bytes \<Rightarrow> digest list" where
  "hash_chunks B H data =
     (if data = [] then []
      else let num_chunks = (length data + CHUNK_LEN - 1) div CHUNK_LEN;
               num_segments = (num_chunks + CHUNKS_PER_SEGMENT - 1) div CHUNKS_PER_SEGMENT
           in concat (map (\<lambda>seg_idx. process_segment B H data seg_idx
                (replicate (min CHUNKS_PER_SEGMENT (num_chunks - seg_idx * CHUNKS_PER_SEGMENT))
                  (replicate 32 0))) [0..<num_segments]))"

fun combine_layer :: "blake3_lib \<Rightarrow> blake3_hasher \<Rightarrow> digest list \<Rightarrow> digest list" where
  "combine_layer B H (l # r # rest) = lib_parent B (h_key H) l r # combine_layer B H rest"
| "combine_layer B H [l] = [l]"
| "combine_layer B H [] = []"

section \<open>Padding\<close>

definition padded_chunk_len :: "nat \<Rightarrow> nat" where
  "padded_chunk_len raw_len = (raw_len + CHUNK_LEN - 1) div CHUNK_LEN * CHUNK_LEN"

definition pad_to_chunk_boundary :: "bytes \<Rightarrow> bytes" where
  "pad_to_chunk_boundary data = data @ replicate (padded_chunk_len (length data) - length data) 0"

section \<open>BTreeSet and BTreeMap\<close>

fun set_insert :: "nat \<Rightarrow> nat list \<Rightarrow> nat list" where
  "set_insert k [] = [k]"
| "set_insert k (x # xs) = (if k < x then k # x # xs else if k = x then x # xs else x # set_insert k xs)"

definition btree_set :: "nat list \<Rightarrow> nat list" where
  "btree_set xs = fold set_insert xs []"

fun map_insert :: "nat \<Rightarrow> 'v \<Rightarrow> (nat \<times> 'v) list \<Rightarrow> (nat \<times> 'v) list" where
  "map_insert k v [] = [(k, v)]"
| "map_insert k v ((x, w) # xs) =
     (if k < x then (k, v) # (x, w) # xs else if k = x then (k, v) # xs
      else (x, w) # map_insert k v xs)"

definition btree_map :: "(nat \<times> 'v) list \<Rightarrow> (nat \<times> 'v) list" where
  "btree_map kvs = fold (\<lambda>(k, v). map_insert k v) kvs []"

section \<open>MerkleTree\<close>

record merkle_tree =
  tree_key :: bytes
  layers :: "digest list list"
  tree_data :: bytes

lemma length_combine_layer [simp]: "length (combine_layer B H prev) = (length prev + 1) div 2"
  by (induction B H prev rule: combine_layer.induct) simp_all

function grow_layers :: "blake3_lib \<Rightarrow> blake3_hasher \<Rightarrow> digest list \<Rightarrow> digest list list" where
  "grow_layers B H prev =
     (if length prev > 2 then prev # grow_layers B H (combine_layer B H prev)
      else if length prev = 2 then [prev, [root_cv B H (prev ! 0) (prev ! 1)]]
      else [prev])"
  by pat_completeness auto
termination
  by (relation "measure (\<lambda>(_, _, prev). length prev)") auto

declare grow_layers.simps [simp del]

definition merkle_tree_new :: "blake3_lib \<Rightarrow> bytes \<Rightarrow> bytes \<Rightarrow> merkle_tree" where
  "merkle_tree_new B data key =
     (let hasher = with_key key in
      if data = [] then \<lparr>tree_key = key, layers = [[]], tree_data = []\<rparr>
      else if length data \<le> CHUNK_LEN
      then \<lparr>tree_key = key, layers = [[hasher_hash B hasher data]], tree_data = data\<rparr>
      else \<lparr>tree_key = key, layers = grow_layers B hasher (hash_chunks B hasher data), tree_data = data\<rparr>)"

definition tree_root :: "merkle_tree \<Rightarrow> (string, digest) res" where
  "tree_root t = (if layers t = [] then Ok (replicate 32 0) else nth_res (last (layers t)) 0)"

definition num_leaves :: "merkle_tree \<Rightarrow> nat" where
  "num_leaves t = length (layers t ! 0)"

record merkle_proof =
  leaf_data :: "bytes list"
  leaf_indices :: "nat list"
  total_leaves :: nat
  proof_root :: digest
  siblings :: "digest list"

text \<open>One level of the walk: the siblings the verifier will not be able to compute.\<close>

definition level_siblings :: "digest list \<Rightarrow> nat list \<Rightarrow> nat \<Rightarrow> digest list" where
  "level_siblings level_nodes current_set level_len =
     concat (map (\<lambda>i.
       if i mod 2 = 1
       then (if i - 1 \<notin> set current_set then [level_nodes ! (i - 1)] else [])
       else (if i + 1 \<notin> set current_set \<and> i + 1 < level_len then [level_nodes ! (i + 1)] else []))
       current_set)"

function collect_siblings ::
  "digest list list \<Rightarrow> nat \<Rightarrow> nat list \<Rightarrow> nat \<Rightarrow> (string, digest list) res" where
  "collect_siblings lays level current_set level_len =
     (if level_len > 1 \<and> current_set \<noteq> []
      then res_bind (nth_res lays level) (\<lambda>level_nodes.
           res_bind (collect_siblings lays (level + 1)
               (btree_set (map (\<lambda>i. i div 2) current_set)) ((level_len + 1) div 2)) (\<lambda>rest.
           Ok (level_siblings level_nodes current_set level_len @ rest)))
      else Ok [])"
  by pat_completeness auto
termination
  by (relation "measure (\<lambda>(_, _, _, level_len). level_len)") auto

declare collect_siblings.simps [simp del]

definition leaf_chunk :: "bytes \<Rightarrow> nat \<Rightarrow> bytes" where
  "leaf_chunk data i =
     (let start = i * CHUNK_LEN; e = min (start + CHUNK_LEN) (length data)
      in subrange start e data @ replicate (CHUNK_LEN - (e - start)) 0)"

definition get_multileaf_proof :: "merkle_tree \<Rightarrow> nat list \<Rightarrow> (string, merkle_proof) res" where
  "get_multileaf_proof t leaf_idx =
     res_bind (assert_res (leaf_idx \<noteq> [])) (\<lambda>_.
     let unique = btree_set leaf_idx; total = num_leaves t in
     res_bind (assert_res (last unique < total)) (\<lambda>_.
     res_bind (collect_siblings (layers t) 0 unique total) (\<lambda>sibs.
     res_bind (tree_root t) (\<lambda>root.
     Ok \<lparr>leaf_data = map (leaf_chunk (tree_data t)) unique, leaf_indices = unique,
         total_leaves = total, proof_root = root, siblings = sibs\<rparr>))))"

text \<open>\<open>(row + 1) * cols - 1\<close> is a \<open>usize\<close> subtraction: it wraps when \<open>cols\<close> is 0.\<close>

definition compute_leaf_indices_from_rows :: "nat list \<Rightarrow> nat \<times> nat \<Rightarrow> nat list" where
  "compute_leaf_indices_from_rows row_indices shp =
     (let cols = snd shp in
      btree_set (concat (map (\<lambda>row.
        let first = row * cols div CHUNK_LEN;
            last = ((row + 1) * cols + (2 ^ 64 - 1)) mod 2 ^ 64 div CHUNK_LEN
        in [first..<last + 1]) row_indices)))"

section \<open>MerkleProof\<close>

definition proof_sanity_check :: "merkle_proof \<Rightarrow> (string, unit) res" where
  "proof_sanity_check p =
     res_bind (ensure (leaf_indices p \<noteq> []) ''leaf_indices must be non-empty'') (\<lambda>_.
     res_bind (ensure (length (leaf_indices p) = length (leaf_data p))
       ''leaf_indices and leaf_data must have the same length'') (\<lambda>_.
     ensure (list_all (\<lambda>k. leaf_indices p ! k < leaf_indices p ! (k + 1)) [0..<length (leaf_indices p) - 1])
       ''leaf_indices must be sorted and unique''))"

definition leaf_hashes :: "blake3_lib \<Rightarrow> merkle_proof \<Rightarrow> bytes \<Rightarrow> digest list" where
  "leaf_hashes B p key =
     map (\<lambda>(idx, data). chunk_cv B (with_key key) data (of_nat idx)) (zip (leaf_indices p) (leaf_data p))"

text \<open>The \<open>for\<close> over one level: the entries still to visit, the sibling iterator and the next
  level's map; \<open>None\<close> is the early return when the siblings run out.\<close>

fun reduce_level ::
  "blake3_lib \<Rightarrow> blake3_hasher \<Rightarrow> nat \<Rightarrow> (nat \<times> digest) list \<Rightarrow> (nat \<times> digest) list \<Rightarrow> digest list
   \<Rightarrow> (nat \<times> digest) list \<Rightarrow> ((nat \<times> digest) list \<times> digest list) option" where
  "reduce_level B H level_len current [] sibs next_level = Some (next_level, sibs)"
| "reduce_level B H level_len current ((i, cv) # rest) sibs next_level =
     (if i mod 2 = 0
      then (case map_of current (i + 1) of
          Some r \<Rightarrow> reduce_level B H level_len current rest sibs
            (map_insert (i div 2) (parent_cv B H cv r) next_level)
        | None \<Rightarrow>
            if i + 1 < level_len
            then (case sibs of
                [] \<Rightarrow> None
              | s # sibs' \<Rightarrow> reduce_level B H level_len current rest sibs'
                  (map_insert (i div 2) (parent_cv B H cv s) next_level))
            else reduce_level B H level_len current rest sibs (map_insert (i div 2) cv next_level))
      else if map_of current (i - 1) \<noteq> None
      then reduce_level B H level_len current rest sibs next_level
      else (case sibs of
          [] \<Rightarrow> None
        | s # sibs' \<Rightarrow> reduce_level B H level_len current rest sibs'
            (map_insert (i div 2) (parent_cv B H s cv) next_level)))"

definition take_or_next :: "(nat \<times> digest) list \<Rightarrow> nat \<Rightarrow> digest list \<Rightarrow> (digest \<times> digest list) option" where
  "take_or_next current k sibs = (case map_of current k of
       Some v \<Rightarrow> Some (v, sibs)
     | None \<Rightarrow> (case sibs of [] \<Rightarrow> None | s # sibs' \<Rightarrow> Some (s, sibs')))"

function reduce_levels ::
  "blake3_lib \<Rightarrow> blake3_hasher \<Rightarrow> nat \<Rightarrow> (nat \<times> digest) list \<Rightarrow> digest list \<Rightarrow> digest option" where
  "reduce_levels B H level_len current sibs =
     (if level_len > 2
      then (case reduce_level B H level_len current current sibs [] of
          None \<Rightarrow> None
        | Some (next_level, sibs') \<Rightarrow> reduce_levels B H ((level_len + 1) div 2) next_level sibs')
      else case take_or_next current 0 sibs of
          None \<Rightarrow> None
        | Some (left, sibs1) \<Rightarrow> (case take_or_next current 1 sibs1 of
              None \<Rightarrow> None
            | Some (right, sibs2) \<Rightarrow> if sibs2 \<noteq> [] then None else Some (root_cv B H left right)))"
  by pat_completeness auto
termination
  by (relation "measure (\<lambda>(_, _, level_len, _). level_len)") auto

declare reduce_levels.simps [simp del]

text \<open>\<open>current[&0]\<close> panics when leaf 0 is not in the map.\<close>

definition compute_root :: "blake3_lib \<Rightarrow> merkle_proof \<Rightarrow> bytes \<Rightarrow> (string, digest option) res" where
  "compute_root B p key =
     (if leaf_indices p = [] then Ok None
      else let hasher = with_key key;
               current = btree_map (zip (leaf_indices p) (leaf_hashes B p key))
           in if total_leaves p = 1
              then (if siblings p = [] then res_bind (unwrap_opt (map_of current 0)) (\<lambda>d. Ok (Some d)) else Ok None)
              else Ok (reduce_levels B hasher (total_leaves p) current (siblings p)))"

definition verify :: "blake3_lib \<Rightarrow> merkle_proof \<Rightarrow> bytes \<Rightarrow> (string, bool) res" where
  "verify B p key = res_bind (compute_root B p key) (\<lambda>r. Ok (r = Some (proof_root p)))"

text \<open>The loop over the leaves, with the result buffer and the number of bytes copied.\<close>

definition extract_step ::
  "nat \<Rightarrow> nat \<Rightarrow> nat \<times> bytes \<Rightarrow> bytes \<times> nat \<Rightarrow> bytes \<times> nat" where
  "extract_step global_start global_end leaf acc =
     (case leaf of (leaf_idx, data) \<Rightarrow> case acc of (result, copied) \<Rightarrow>
      let leaf_start = leaf_idx * CHUNK_LEN; leaf_end = leaf_start + CHUNK_LEN in
      if leaf_start < global_end \<and> global_start < leaf_end
      then let copy_start = max global_start leaf_start; copy_end = min global_end leaf_end;
               len = copy_end - copy_start
           in (copy_into (copy_start - global_start)
                 (subrange (copy_start - leaf_start) (copy_start - leaf_start + len) data) result,
               copied + len)
      else (result, copied))"

definition extract_bytes :: "merkle_proof \<Rightarrow> nat \<Rightarrow> nat \<Rightarrow> (string, bytes) res" where
  "extract_bytes p global_start len =
     (let (result, copied) = fold (extract_step global_start (global_start + len))
            (zip (leaf_indices p) (leaf_data p)) (replicate len 0, 0)
      in res_bind (ensure (copied = len) ''Not all required bytes covered by leaves'') (\<lambda>_. Ok result))"

fun next_power_of_two :: "nat \<Rightarrow> nat" where
  "next_power_of_two n = (if n \<le> 1 then 1 else 2 * next_power_of_two ((n + 1) div 2))"

declare next_power_of_two.simps [simp del]

text \<open>\<open>compute_sibling_ranges\<close>: one level, then the loop over levels.\<close>

fun sibling_ranges_level ::
  "nat \<Rightarrow> nat \<Rightarrow> nat \<Rightarrow> nat list \<Rightarrow> nat list \<Rightarrow> digest list
   \<Rightarrow> (nat \<times> nat \<times> digest) list \<times> digest list" where
  "sibling_ranges_level total_size level level_size current [] sibs = ([], sibs)"
| "sibling_ranges_level total_size level level_size current (idx # rest) sibs =
     (let sib = (if idx mod 2 = 0 then idx + 1 else idx - 1);
          need_sib = (if idx mod 2 = 1 then sib \<notin> set current
            else sib < level_size \<and> sib \<notin> set current);
          chunk = CHUNK_LEN * 2 ^ level
      in case sibs of
          s # sibs' \<Rightarrow>
            if need_sib
            then let (ranges, left) = sibling_ranges_level total_size level level_size current rest sibs'
                 in ((sib * chunk, min ((sib + 1) * chunk) total_size, s) # ranges, left)
            else sibling_ranges_level total_size level level_size current rest sibs
        | [] \<Rightarrow> sibling_ranges_level total_size level level_size current rest sibs)"

function sibling_ranges_levels ::
  "nat \<Rightarrow> nat \<Rightarrow> nat \<Rightarrow> nat list \<Rightarrow> digest list \<Rightarrow> (nat \<times> nat \<times> digest) list" where
  "sibling_ranges_levels total_size level level_size current sibs =
     (if level_size > 1 \<and> current \<noteq> [] \<and> sibs \<noteq> []
      then let (ranges, sibs') = sibling_ranges_level total_size level level_size current current sibs
           in ranges @ sibling_ranges_levels total_size (level + 1) ((level_size + 1) div 2)
                (btree_set (map (\<lambda>idx. idx div 2) current)) sibs'
      else [])"
  by pat_completeness auto
termination
  by (relation "measure (\<lambda>(_, _, level_size, _). level_size)") auto

declare sibling_ranges_levels.simps [simp del]

definition compute_sibling_ranges :: "merkle_proof \<Rightarrow> nat \<Rightarrow> (nat \<times> nat \<times> digest) list" where
  "compute_sibling_ranges p total_size =
     (if leaf_indices p = [] \<or> siblings p = [] then []
      else sibling_ranges_levels total_size 0 ((total_size + CHUNK_LEN - 1) div CHUNK_LEN)
             (btree_set (leaf_indices p)) (siblings p))"

text \<open>\<open>compute_cv\<close> does not return on a range below one byte per half; \<open>None\<close> is that case.\<close>

partial_function (option) compute_cv ::
  "blake3_lib \<Rightarrow> merkle_proof \<Rightarrow> nat \<Rightarrow> nat \<Rightarrow> (nat \<times> nat \<times> digest) list \<Rightarrow> bytes
   \<Rightarrow> (string, digest) res option" where
  "compute_cv B p s e ranges key =
     (case find (\<lambda>(rs, re, _). rs = s \<and> re = e) ranges of
        Some (_, _, h) \<Rightarrow> Some (Ok h)
      | None \<Rightarrow>
          if e - s = CHUNK_LEN
          then Some (res_bind (extract_bytes p s (e - s)) (\<lambda>data.
                 Ok (chunk_cv B (with_key key) data (of_nat (s div CHUNK_LEN)))))
          else let mid = s + next_power_of_two (e - s) div 2 in
               Option.bind (compute_cv B p s mid ranges key) (\<lambda>l. case l of
                   Err x \<Rightarrow> Some (Err x) | Panic \<Rightarrow> Some Panic
                 | Ok left \<Rightarrow> Option.bind (compute_cv B p mid e ranges key) (\<lambda>r. case r of
                       Err x \<Rightarrow> Some (Err x) | Panic \<Rightarrow> Some Panic
                     | Ok right \<Rightarrow> Some (Ok (parent_cv B (with_key key) left right)))))"

section \<open>Sorted sets and maps\<close>

abbreviation strict :: "nat list \<Rightarrow> bool" where "strict \<equiv> sorted_wrt (<)"

lemma set_set_insert [simp]: "set (set_insert k xs) = insert k (set xs)"
  by (induction xs) auto

lemma strict_set_insert [simp]: "strict xs \<Longrightarrow> strict (set_insert k xs)"
  by (induction xs) auto

lemma set_insert_member: "strict xs \<Longrightarrow> k \<in> set xs \<Longrightarrow> set_insert k xs = xs"
  by (induction xs) auto

lemma set_insert_last: "\<forall>x \<in> set xs. x < k \<Longrightarrow> set_insert k xs = xs @ [k]"
  by (induction xs) auto

lemma btree_set_snoc: "btree_set (xs @ [x]) = set_insert x (btree_set xs)"
  by (simp add: btree_set_def)

lemma btree_set_Nil [simp]: "btree_set [] = []"
  by (simp add: btree_set_def)

lemma set_btree_set [simp]: "set (btree_set xs) = set xs"
  by (induction xs rule: rev_induct) (simp_all add: btree_set_snoc)

lemma strict_btree_set [simp]: "strict (btree_set xs)"
  by (induction xs rule: rev_induct) (simp_all add: btree_set_snoc)

lemma btree_set_Nil_iff [simp]: "btree_set xs = [] \<longleftrightarrow> xs = []"
  by (metis set_btree_set set_empty)

lemma btree_set_strict: "strict xs \<Longrightarrow> btree_set xs = xs"
  by (induction xs rule: rev_induct) (simp_all add: btree_set_snoc sorted_wrt_append set_insert_last)

definition entries :: "(nat \<Rightarrow> 'v) \<Rightarrow> nat list \<Rightarrow> (nat \<times> 'v) list" where
  "entries g s = map (\<lambda>j. (j, g j)) s"

lemma entries_simps [simp]:
  "entries g [] = []" "entries g (x # xs) = (x, g x) # entries g xs"
  by (simp_all add: entries_def)

lemma map_insert_entries: "map_insert k (g k) (entries g s) = entries g (set_insert k s)"
  by (induction s) auto

lemma map_of_entries: "map_of (entries g s) k = (if k \<in> set s then Some (g k) else None)"
  by (induction s) auto

lemma btree_map_entries: "btree_map (entries g s) = entries g (btree_set s)"
proof -
  have "fold (\<lambda>(k, v). map_insert k v) (entries g s) (entries g t) = entries g (fold set_insert s t)" for t
    by (induction s arbitrary: t) (simp_all add: map_insert_entries)
  from this [of "[]"] show ?thesis by (simp add: btree_map_def btree_set_def)
qed

section \<open>The prover and the verifier walk the same tree\<close>

lemma combine_layer_nth:
  "j < (length L + 1) div 2 \<Longrightarrow> combine_layer B H L ! j
    = (if 2 * j + 1 < length L then parent_cv B H (L ! (2 * j)) (L ! (2 * j + 1)) else L ! (2 * j))"
proof (induction B H L arbitrary: j rule: combine_layer.induct)
  case (1 B H l r rest)
  then show ?case by (cases j) (auto simp: parent_cv_def)
qed simp_all

text \<open>The sibling the walk emits for one node, and the set of parents.\<close>

definition sibling_of :: "digest list \<Rightarrow> nat list \<Rightarrow> nat \<Rightarrow> nat \<Rightarrow> digest list" where
  "sibling_of L cur m i =
     (if i mod 2 = 1 then (if i - 1 \<notin> set cur then [L ! (i - 1)] else [])
      else (if i + 1 \<notin> set cur \<and> i + 1 < m then [L ! (i + 1)] else []))"

lemma level_siblings_eq: "level_siblings L cur m = concat (map (sibling_of L cur m) cur)"
  by (simp add: level_siblings_def sibling_of_def cong: map_cong)

abbreviation halves :: "nat list \<Rightarrow> nat list" where "halves xs \<equiv> btree_set (map (\<lambda>i. i div 2) xs)"

lemma reduce_level_correct:
  assumes cur: "cur = pre @ rest" and strict: "strict cur" and bound: "\<forall>i \<in> set cur. i < length L"
  shows "reduce_level B H (length L) (entries ((!) L) cur) (entries ((!) L) rest)
      (concat (map (sibling_of L cur (length L)) rest) @ tail)
      (entries ((!) (combine_layer B H L)) (halves pre))
    = Some (entries ((!) (combine_layer B H L)) (halves cur), tail)"
  using cur
proof (induction rest arbitrary: pre)
  case Nil
  then show ?case by simp
next
  case (Cons i rest)
  let ?C = "combine_layer B H L"
  have i: "i \<in> set cur" "i < length L" using Cons.prems bound by auto
  have next_level: "map_insert (i div 2) (?C ! (i div 2)) (entries ((!) ?C) (halves pre)) = entries ((!) ?C) (halves (pre @ [i]))"
    by (simp add: map_insert_entries btree_set_snoc)
  note ih = Cons.IH [of "pre @ [i]"]
  show ?case
  proof (cases "i mod 2 = 0")
    case True
    then have j: "i = 2 * (i div 2)" by presburger
    have par: "?C ! (i div 2) = (if i + 1 < length L then parent_cv B H (L ! i) (L ! (i + 1)) else L ! i)"
      using combine_layer_nth [of "i div 2" L B H] i(2) j by auto
    consider "i + 1 \<in> set cur" | "i + 1 \<notin> set cur" "i + 1 < length L" | "i + 1 \<notin> set cur" "\<not> i + 1 < length L"
      by blast
    then show ?thesis
    proof cases
      case 1
      then have "i + 1 < length L" using bound by auto
      then show ?thesis
        using True 1 ih Cons.prems next_level par by (simp add: map_of_entries sibling_of_def)
    next
      case 2
      then show ?thesis
        using True ih Cons.prems next_level par by (simp add: map_of_entries sibling_of_def)
    next
      case 3
      then show ?thesis
        using True ih Cons.prems next_level par by (simp add: map_of_entries sibling_of_def)
    qed
  next
    case False
    then have odd: "i mod 2 = 1" by presburger
    then have j: "i = 2 * (i div 2) + 1" by presburger
    have par: "?C ! (i div 2) = parent_cv B H (L ! (i - 1)) (L ! i)"
    proof -
      have "i - 1 = 2 * (i div 2)" using j by linarith
      then show ?thesis using combine_layer_nth [of "i div 2" L B H] i(2) j by auto
    qed
    show ?thesis
    proof (cases "i - 1 \<in> set cur")
      case True
      have "i - 1 < i" using odd by (cases i) simp_all
      moreover have "\<forall>k \<in> set (i # rest). i \<le> k"
        using strict Cons.prems by (auto simp: sorted_wrt_append)
      ultimately have "i - 1 \<in> set pre" using True Cons.prems by force
      moreover have "(i - 1) div 2 = i div 2" using odd by presburger
      ultimately have "i div 2 \<in> set (map (\<lambda>i. i div 2) pre)"
        by (metis image_eqI list.set_map)
      then have "halves (pre @ [i]) = halves pre" by (simp add: btree_set_snoc set_insert_member)
      then show ?thesis
        using odd False True ih Cons.prems by (simp add: map_of_entries sibling_of_def)
    next
      case no_left: False
      then show ?thesis
        using odd False ih Cons.prems next_level par by (simp add: map_of_entries sibling_of_def)
    qed
  qed
qed

lemma reduce_level_full:
  assumes "strict cur" and "\<forall>i \<in> set cur. i < length L"
  shows "reduce_level B H (length L) (entries ((!) L) cur) (entries ((!) L) cur) (level_siblings L cur (length L) @ tail) []
    = Some (entries ((!) (combine_layer B H L)) (halves cur), tail)"
  using reduce_level_correct [of cur "[]" cur L B H tail] assms by (simp add: level_siblings_eq)

lemma strict_below_two: "strict S \<Longrightarrow> S \<noteq> [] \<Longrightarrow> \<forall>i \<in> set S. i < 2 \<Longrightarrow> S = [0] \<or> S = [1] \<or> S = [0, 1]"
proof -
  assume a: "strict S" "S \<noteq> []" "\<forall>i \<in> set S. i < 2"
  obtain x xs where S: "S = x # xs" using a(2) by (cases S) auto
  show ?thesis
  proof (cases xs)
    case Nil
    then show ?thesis using a S by auto
  next
    case (Cons y ys)
    then show ?thesis using a S by (cases ys) auto
  qed
qed

lemma grow_layers_walk:
  assumes "length L = m" and "2 \<le> m" and "strict S" and "S \<noteq> []" and "\<forall>i \<in> set S. i < m"
  shows "\<exists>sibs. collect_siblings (pre @ grow_layers B H L) (length pre) S m = Ok sibs
    \<and> reduce_levels B H m (entries ((!) L) S) sibs = Some (hd (last (grow_layers B H L)))
    \<and> length (last (grow_layers B H L)) = 1"
  using assms
proof (induction m arbitrary: L S pre rule: less_induct)
  case (less m)
  show ?case
  proof (cases "m > 2")
    case True
    let ?C = "combine_layer B H L"
    have g: "grow_layers B H L = L # grow_layers B H ?C"
      using True less.prems by (subst grow_layers.simps) simp
    have ne: "grow_layers B H ?C \<noteq> []" by (subst grow_layers.simps) simp
    have "\<exists>sibs. collect_siblings ((pre @ [L]) @ grow_layers B H ?C) (length (pre @ [L])) (halves S) ((m + 1) div 2) = Ok sibs
      \<and> reduce_levels B H ((m + 1) div 2) (entries ((!) ?C) (halves S)) sibs = Some (hd (last (grow_layers B H ?C)))
      \<and> length (last (grow_layers B H ?C)) = 1"
    proof (rule less.IH)
      show "(m + 1) div 2 < m" using True by simp
      show "2 \<le> (m + 1) div 2" using True by simp
      show "\<forall>i \<in> set (halves S). i < (m + 1) div 2" using less.prems(5) by auto
    qed (use less.prems in simp_all)
    then obtain sibs where c: "collect_siblings (pre @ L # grow_layers B H ?C) (Suc (length pre)) (halves S) ((m + 1) div 2) = Ok sibs"
      and r: "reduce_levels B H ((m + 1) div 2) (entries ((!) ?C) (halves S)) sibs = Some (hd (last (grow_layers B H ?C)))"
      and len: "length (last (grow_layers B H ?C)) = 1" by auto
    have "collect_siblings (pre @ grow_layers B H L) (length pre) S m = Ok (level_siblings L S m @ sibs)"
      using True less.prems c by (subst collect_siblings.simps) (simp add: g nth_res_def)
    moreover have "reduce_levels B H m (entries ((!) L) S) (level_siblings L S m @ sibs) = Some (hd (last (grow_layers B H L)))"
      using True less.prems reduce_level_full [of S L B H sibs] r ne by (subst reduce_levels.simps) (simp add: g)
    ultimately show ?thesis using len ne by (simp add: g)
  next
    case False
    then have m: "m = 2" using less.prems by simp
    have g: "grow_layers B H L = [L, [root_cv B H (L ! 0) (L ! 1)]]"
      using m less.prems by (subst grow_layers.simps) simp
    have c: "collect_siblings (pre @ grow_layers B H L) (length pre) S 2 = Ok (level_siblings L S 2)"
      using less.prems by (subst collect_siblings.simps) (simp add: g nth_res_def collect_siblings.simps)
    have "reduce_levels B H 2 (entries ((!) L) S) (level_siblings L S 2) = Some (root_cv B H (L ! 0) (L ! 1))"
      using strict_below_two [of S] less.prems m
      by (auto simp: reduce_levels.simps take_or_next_def level_siblings_def)
    then show ?thesis using c m g by simp
  qed
qed

section \<open>Chunk hashing in segments\<close>

text \<open>The documented behaviour of \<open>Platform::hash_many\<close> with an incrementing counter: it returns
  the chaining value of every chunk at its own offset.\<close>

definition simd_law :: "blake3_lib \<Rightarrow> bytes \<Rightarrow> bool" where
  "simd_law B key \<longleftrightarrow> (\<forall>ctr chunks.
     lib_hash_many B (key_to_words key) ctr B3F_KEYED_HASH B3F_CHUNK_START B3F_CHUNK_END chunks
       = map (\<lambda>i. lib_chunk B (Some key) ((ctr + of_nat i) * of_nat CHUNK_LEN) (chunks ! i)) [0..<length chunks])"

lemma subrange_subrange: "subrange a b (subrange c d xs) = subrange (c + a) (min (c + b) d) xs"
proof -
  have "min (b - a) (d - c - a) = min (c + b) d - (c + a)" by linarith
  then show ?thesis by (simp add: subrange_def drop_take add.commute min.commute)
qed

lemma subrange_min_length: "subrange a (min b (length xs)) xs = subrange a b xs"
  by (cases "b \<le> length xs") (simp_all add: min_def subrange_def)

definition data_chunk :: "bytes \<Rightarrow> nat \<Rightarrow> bytes" where
  "data_chunk data i = subrange (i * CHUNK_LEN) (i * CHUNK_LEN + CHUNK_LEN) data"

definition num_chunks :: "bytes \<Rightarrow> nat" where
  "num_chunks data = (length data + CHUNK_LEN - 1) div CHUNK_LEN"

lemma div_up_1024: "(n + 1023) div 1024 = n div 1024 + (if n mod 1024 = 0 then 0 else 1)"
  for n :: nat
proof -
  define q r where "q = n div 1024" and "r = n mod 1024"
  have n: "n + 1023 = (r + 1023) + q * 1024" and r: "r < 1024" by (simp_all add: q_def r_def)
  have "(n + 1023) div 1024 = q + (r + 1023) div 1024" unfolding n by (simp only: div_mult_self1 zero_neq_numeral not_False_eq_True)
  moreover have "(r + 1023) div 1024 = (if r = 0 then 0 else 1)"
  proof (cases "r = 0")
    case False
    then have "(r + 1023) div 1024 = 1" using r by (intro div_nat_eqI) simp_all
    then show ?thesis using False by simp
  qed simp
  ultimately show ?thesis by (simp add: q_def r_def)
qed

lemma process_segment_eq:
  assumes law: "simd_law B key" and s: "s * 64 < num_chunks data"
  shows "process_segment B (with_key key) data s (replicate (min 64 (num_chunks data - s * 64)) z)
    = map (\<lambda>i. chunk_cv B (with_key key) (data_chunk data (s * 64 + i)) (of_nat (s * 64 + i)))
        [0..<min 64 (num_chunks data - s * 64)]"
proof -
  define m where "m = min 64 (num_chunks data - s * 64)"
  define seg where "seg = subrange (s * 64 * 1024) (min ((s + 1) * (64 * 1024)) (length data)) data"
  define full where "full = length seg div 1024"
  define F where "F = (\<lambda>i. chunk_cv B (with_key key) (data_chunk data (s * 64 + i)) (of_nat (s * 64 + i)))"
  have start: "s * 64 * 1024 < length data" using s by (simp add: num_chunks_def CHUNK_LEN_def)
  define x where "x = length data - s * 65536"
  have x: "length data = s * 65536 + x" "0 < x" using start by (simp_all add: x_def)
  have len: "length seg = min 65536 x"
    by (simp add: seg_def x min_def)
  have "length data + 1024 - 1 = (x + 1023) + s * 64 * 1024" using x by simp
  then have "num_chunks data = s * 64 + (x + 1023) div 1024"
    unfolding num_chunks_def CHUNK_LEN_def by (simp only: div_mult_self1 zero_neq_numeral not_False_eq_True)
  moreover have "min 64 ((x + 1023) div 1024) = (min 65536 x + 1023) div 1024"
  proof (cases "x \<le> 65536")
    case True
    then have "(x + 1023) div 1024 \<le> (65536 + 1023) div 1024" by (intro div_le_mono) simp
    then show ?thesis using True by (simp add: min_def)
  next
    case False
    then have "(65536 + 1023) div 1024 \<le> (x + 1023) div 1024" by (intro div_le_mono) simp
    then show ?thesis using False by (simp add: min_def)
  qed
  ultimately have m: "m = (length seg + 1023) div 1024" by (simp add: m_def len x)
  have chunk: "subrange (i * 1024) (i * 1024 + 1024) seg = data_chunk data (s * 64 + i)" if "i < m" for i
  proof -
    have "i < 64" using that by (simp add: m_def)
    then have "min (s * 64 * 1024 + (i * 1024 + 1024)) (min ((s + 1) * (64 * 1024)) (length data))
      = min (s * 64 * 1024 + (i * 1024 + 1024)) (length data)" by simp
    then have "subrange (i * 1024) (i * 1024 + 1024) seg
        = subrange (s * 64 * 1024 + i * 1024) (s * 64 * 1024 + (i * 1024 + 1024)) data"
      unfolding seg_def subrange_subrange by (simp only: subrange_min_length)
    then show ?thesis by (simp add: data_chunk_def CHUNK_LEN_def algebra_simps)
  qed
  have hm: "lib_hash_many B (key_words (with_key key)) (of_nat (s * 64)) (base_flags (with_key key))
      B3F_CHUNK_START B3F_CHUNK_END (map (\<lambda>i. subrange (i * 1024) (i * 1024 + 1024) seg) [0..<full])
    = map F [0..<full]"
    using law m by (auto simp: simd_law_def with_key_def F_def chunk_cv_def full_def chunk)
  have full_m: "full \<le> m" by (simp add: full_def m)
  define part where "part = drop (full * 1024) seg"
  have part_len: "length part = length seg mod 1024"
    by (simp add: part_def full_def minus_div_mult_eq_mod [symmetric])
  have F_full: "F full = lib_chunk B (Some key) (of_nat (s * 64 + full) * of_nat CHUNK_LEN) part" if "part \<noteq> []"
  proof -
    have "length seg mod 1024 \<noteq> 0" using that part_len by (metis length_0_conv)
    then have "full < m" by (simp add: full_def m div_up_1024)
    then have "data_chunk data (s * 64 + full) = subrange (full * 1024) (full * 1024 + 1024) seg" by (rule chunk [symmetric])
    also have "\<dots> = part"
    proof -
      have "length part \<le> 1024" using part_len by (simp add: less_imp_le)
      then show ?thesis by (simp add: subrange_def part_def)
    qed
    finally show ?thesis by (simp add: F_def chunk_cv_def with_key_def)
  qed
  have ps: "process_segment B (with_key key) data s (replicate m z) =
     (let cvs = map F [0..<full] @ replicate (m - full) z in if part = [] then cvs
       else cvs[full := lib_chunk B (Some key) (of_nat (s * 64 + full) * of_nat CHUNK_LEN) part])"
    unfolding process_segment_def CHUNKS_PER_SEGMENT_def BYTES_PER_SEGMENT_def CHUNK_LEN_def Let_def
      seg_def [symmetric] full_def [symmetric] part_def [symmetric] hm
    using full_m by (simp add: with_key_def)
  show ?thesis
  proof (cases "part = []")
    case True
    then have "m = full" using part_len by (simp add: m full_def div_up_1024)
    then show ?thesis using ps True by (simp add: F_def m_def)
  next
    case False
    then have "length seg mod 1024 \<noteq> 0" using part_len by (metis length_0_conv)
    then have "m = full + 1" by (simp add: m full_def div_up_1024)
    then show ?thesis using ps False F_full by (simp add: F_def m_def list_update_append)
  qed
qed

lemma concat_upt_segments:
  "0 < k \<Longrightarrow> concat (map (\<lambda>s. map F [s * k..<min ((s + 1) * k) n]) [0..<q]) = map F [0..<min (q * k) n]"
proof (induction q)
  case 0
  then show ?case by simp
next
  case (Suc q)
  have "[0..<min (q * k) n] @ [q * k..<min ((q + 1) * k) n] = [0..<min (Suc q * k) n]"
  proof (cases "q * k \<le> n")
    case True
    then have "[0..<min (Suc q * k) n] = [0..<q * k] @ [q * k..<min (Suc q * k) n]"
      using upt_add_eq_append [of 0 "q * k" "min (Suc q * k) n - q * k"] by simp
    then show ?thesis using True by (simp add: min_def)
  next
    case False
    then have "n \<le> q * k" and "n \<le> k + q * k" by simp_all
    then show ?thesis by (simp add: min_def)
  qed
  then have "map F [0..<min (q * k) n] @ map F [q * k..<min ((q + 1) * k) n] = map F [0..<min (Suc q * k) n]"
    by (simp only: map_append [symmetric])
  then show ?case using Suc by simp
qed

lemma map_upt_shift: "map (\<lambda>i. F (a + i)) [0..<m] = map F [a..<a + m]"
  by (rule nth_equalityI) simp_all

lemma hash_chunks_eq:
  assumes "simd_law B key" and "data \<noteq> []"
  shows "hash_chunks B (with_key key) data
    = map (\<lambda>i. chunk_cv B (with_key key) (data_chunk data i) (of_nat i)) [0..<num_chunks data]"
proof -
  define F where "F = (\<lambda>i. chunk_cv B (with_key key) (data_chunk data i) (of_nat i))"
  define q where "q = (num_chunks data + 64 - 1) div 64"
  have seg: "process_segment B (with_key key) data s (replicate (min 64 (num_chunks data - s * 64)) z)
      = map F [s * 64..<min ((s + 1) * 64) (num_chunks data)]" if "s < q" for s z
  proof -
    have "s * 64 < num_chunks data" using that unfolding q_def by linarith
    then have "min ((s + 1) * 64) (num_chunks data) = s * 64 + min 64 (num_chunks data - s * 64)"
      by (simp add: min_def) linarith
    then show ?thesis
      using process_segment_eq [OF assms(1) \<open>s * 64 < num_chunks data\<close>, of z] map_upt_shift [of F "s * 64"]
      by (simp add: F_def)
  qed
  have "hash_chunks B (with_key key) data = concat (map (\<lambda>s. map F [s * 64..<min ((s + 1) * 64) (num_chunks data)]) [0..<q])"
    unfolding hash_chunks_def Let_def CHUNKS_PER_SEGMENT_def num_chunks_def [symmetric] q_def [symmetric]
    using assms(2) by (simp only: if_False) (intro arg_cong [where f = concat] map_cong refl seg, simp)
  also have "\<dots> = map F [0..<min (q * 64) (num_chunks data)]" by (rule concat_upt_segments) simp
  also have "min (q * 64) (num_chunks data) = num_chunks data" unfolding q_def by linarith
  finally show ?thesis by (simp add: F_def)
qed

section \<open>Proofs from a tree verify\<close>

lemma data_chunk_full: "length data = n * 1024 \<Longrightarrow> i < n \<Longrightarrow> length (data_chunk data i) = 1024"
  by (simp add: data_chunk_def CHUNK_LEN_def)

lemma leaf_chunk_eq:
  assumes "length data = n * 1024" and "i < n"
  shows "leaf_chunk data i = data_chunk data i"
proof -
  have "i * 1024 + 1024 \<le> length data" using assms by simp
  then show ?thesis by (simp add: leaf_chunk_def data_chunk_def CHUNK_LEN_def Let_def min_def)
qed

lemma num_chunks_exact: "length data = n * 1024 \<Longrightarrow> num_chunks data = n"
  by (simp add: num_chunks_def CHUNK_LEN_def div_up_1024)

text \<open>The tree over at least two whole chunks.\<close>

lemma tree_new_layers:
  assumes "simd_law B key" and "length data = n * 1024" and "2 \<le> n"
  defines "L \<equiv> map (\<lambda>i. chunk_cv B (with_key key) (data_chunk data i) (of_nat i)) [0..<n]"
  shows "merkle_tree_new B data key = \<lparr>tree_key = key, layers = grow_layers B (with_key key) L, tree_data = data\<rparr>"
    and "num_leaves (merkle_tree_new B data key) = n"
proof -
  have big: "data \<noteq> []" "\<not> length data \<le> CHUNK_LEN" using assms(2,3) by (auto simp: CHUNK_LEN_def)
  show eq: "merkle_tree_new B data key = \<lparr>tree_key = key, layers = grow_layers B (with_key key) L, tree_data = data\<rparr>"
    using big hash_chunks_eq [OF assms(1) big(1)] num_chunks_exact [OF assms(2)]
    by (simp add: merkle_tree_new_def L_def Let_def)
  have "grow_layers B (with_key key) L ! 0 = L" by (subst grow_layers.simps) simp
  then show "num_leaves (merkle_tree_new B data key) = n" by (simp add: eq num_leaves_def L_def)
qed

lemma entries_zip: "zip s (map g s) = entries g s"
  by (induction s) simp_all

lemma strict_sanity: "strict s \<Longrightarrow> list_all (\<lambda>k. s ! k < s ! (k + 1)) [0..<length s - 1]"
  by (auto simp: list_all_iff sorted_wrt_iff_nth_less)

lemma multileaf_proof_Ok:
  assumes law: "simd_law B key" and len: "length data = n * 1024" and n: "2 \<le> n"
    and idx: "leaf_idx \<noteq> []" "\<forall>i \<in> set leaf_idx. i < n"
  shows "\<exists>sibs r. get_multileaf_proof (merkle_tree_new B data key) leaf_idx = Ok
      \<lparr>leaf_data = map (data_chunk data) (btree_set leaf_idx), leaf_indices = btree_set leaf_idx,
       total_leaves = n, proof_root = r, siblings = sibs\<rparr>
    \<and> tree_root (merkle_tree_new B data key) = Ok r
    \<and> reduce_levels B (with_key key) n
        (entries (\<lambda>i. chunk_cv B (with_key key) (data_chunk data i) (of_nat i)) (btree_set leaf_idx)) sibs = Some r"
proof -
  define t where "t = merkle_tree_new B data key"
  define S where "S = btree_set leaf_idx"
  define cv where "cv = (\<lambda>i. chunk_cv B (with_key key) (data_chunk data i) (of_nat i))"
  define L where "L = map cv [0..<n]"
  have t: "t = \<lparr>tree_key = key, layers = grow_layers B (with_key key) L, tree_data = data\<rparr>"
    and nl: "num_leaves t = n"
    using tree_new_layers [OF law len n] by (simp_all add: t_def L_def cv_def)
  have S: "strict S" "S \<noteq> []" "\<forall>i \<in> set S. i < n" using idx by (simp_all add: S_def)
  have ent: "entries ((!) L) S = entries cv S"
    using S(3) by (simp add: entries_def L_def)
  obtain sibs where c: "collect_siblings (grow_layers B (with_key key) L) 0 S n = Ok sibs"
    and r: "reduce_levels B (with_key key) n (entries cv S) sibs = Some (hd (last (grow_layers B (with_key key) L)))"
    and one: "length (last (grow_layers B (with_key key) L)) = 1"
    using grow_layers_walk [of L n S "[]" B "with_key key"] n S ent by (auto simp: L_def)
  have ne: "grow_layers B (with_key key) L \<noteq> []" by (subst grow_layers.simps) simp
  have root: "tree_root t = Ok (hd (last (grow_layers B (with_key key) L)))"
    using one ne by (cases "last (grow_layers B (with_key key) L)") (simp_all add: tree_root_def t nth_res_def)
  have "last S < n" using S by auto
  moreover have "map (leaf_chunk data) S = map (data_chunk data) S"
    using S(3) leaf_chunk_eq [OF len] by simp
  ultimately have "get_multileaf_proof t leaf_idx = Ok
      \<lparr>leaf_data = map (data_chunk data) S, leaf_indices = S, total_leaves = n,
       proof_root = hd (last (grow_layers B (with_key key) L)), siblings = sibs\<rparr>"
    using idx c root by (simp add: get_multileaf_proof_def Let_def nl [unfolded t] t flip: S_def)
  then show ?thesis using root r by (auto simp: t_def S_def cv_def)
qed

lemma verify_entries:
  assumes "length (leaf_data p) = length (leaf_indices p)" and "leaf_indices p \<noteq> []" and "total_leaves p \<noteq> 1"
    and "leaf_data p = map f (leaf_indices p)"
  shows "compute_root B p key = Ok (reduce_levels B (with_key key) (total_leaves p)
    (entries (\<lambda>i. chunk_cv B (with_key key) (f i) (of_nat i)) (btree_set (leaf_indices p))) (siblings p))"
proof -
  have "leaf_hashes B p key = map (\<lambda>i. chunk_cv B (with_key key) (f i) (of_nat i)) (leaf_indices p)"
    unfolding leaf_hashes_def assms(4) by (simp add: zip_map2 zip_same_conv_map o_def)
  then show ?thesis using assms by (simp add: compute_root_def Let_def entries_zip btree_map_entries)
qed

text \<open>C11: Proof completeness.  For a matrix padded to at least two whole chunks, under the crate's
  contract for batched chunk hashing, and for any non-empty choice of leaves (repetitions and any
  order allowed), proof generation does not panic, and the proof it returns is well formed, covers
  exactly the chosen leaves in increasing order, carries the tree's root and verifies.\<close>

theorem multileaf_proof_verifies:
  assumes "simd_law B key" and "length data mod 1024 = 0" and "1024 < length data"
    and "leaf_idx \<noteq> []" and "\<forall>i \<in> set leaf_idx. i < length data div 1024"
  shows "\<exists>p. get_multileaf_proof (merkle_tree_new B data key) leaf_idx = Ok p
    \<and> proof_sanity_check p = Ok () \<and> verify B p key = Ok True
    \<and> sorted_wrt (<) (leaf_indices p) \<and> set (leaf_indices p) = set leaf_idx
    \<and> tree_root (merkle_tree_new B data key) = Ok (proof_root p)"
proof -
  define n where "n = length data div 1024"
  have len: "length data = n * 1024" using assms(2) by (simp add: n_def minus_mod_eq_div_mult [symmetric])
  moreover from this have n: "2 \<le> n" using assms(3) by simp
  ultimately obtain sibs r where
    p: "get_multileaf_proof (merkle_tree_new B data key) leaf_idx = Ok
      \<lparr>leaf_data = map (data_chunk data) (btree_set leaf_idx), leaf_indices = btree_set leaf_idx,
       total_leaves = n, proof_root = r, siblings = sibs\<rparr>" (is "_ = Ok ?p")
    and root: "tree_root (merkle_tree_new B data key) = Ok r"
    and red: "reduce_levels B (with_key key) n
        (entries (\<lambda>i. chunk_cv B (with_key key) (data_chunk data i) (of_nat i)) (btree_set leaf_idx)) sibs = Some r"
    using multileaf_proof_Ok [OF assms(1) _ _ assms(4) assms(5) [folded n_def]] by blast
  have "btree_set (btree_set leaf_idx) = btree_set leaf_idx" by (simp add: btree_set_strict)
  then have "verify B ?p key = Ok True"
    using verify_entries [of ?p "data_chunk data" B key] n red assms(4) by (simp add: verify_def)
  moreover have "proof_sanity_check ?p = Ok ()"
    using assms(4) by (simp add: proof_sanity_check_def strict_sanity del: One_nat_def)
  ultimately show ?thesis using p root by auto
qed

definition sample_blake3 :: blake3_lib where
  "sample_blake3 = \<lparr>lib_hash = (\<lambda>k d. [1]), lib_chunk = (\<lambda>k off d. [ucast off, hd d]),
     lib_parent = (\<lambda>k a b. a @ [2] @ b), lib_root = (\<lambda>k a b. a @ [3] @ b),
     lib_hash_many = (\<lambda>kw ctr fl s e cs.
       map (\<lambda>i. [ucast ((ctr + of_nat i) * of_nat CHUNK_LEN), hd (cs ! i)]) [0..<length cs])\<rparr>"

lemma sample_blake3_law: "simd_law sample_blake3 key"
  by (simp add: simd_law_def sample_blake3_def)

theorem multileaf_proof_verifies_witness:
  "\<exists>p. get_multileaf_proof (merkle_tree_new sample_blake3 (replicate 3072 7) []) [2, 0, 2] = Ok p
    \<and> verify sample_blake3 p [] = Ok True \<and> set (leaf_indices p) = {0, 2}"
proof -
  have "length (replicate 3072 (7 :: u8)) = 3072" by (rule length_replicate)
  then show ?thesis
    using multileaf_proof_verifies [OF sample_blake3_law, of "replicate 3072 7" "[2, 0, 2]" "[]"] by auto
qed

text \<open>C34: A matrix of at most one chunk has a one-leaf tree whose root is the full hash, but the
  verifier recomputes the non-root chaining value of the padded leaf: the tree's own proof is
  rejected unless those two digests happen to be equal.\<close>

theorem single_leaf_proof:
  assumes "data \<noteq> []" and "length data \<le> 1024"
  shows "\<exists>p. get_multileaf_proof (merkle_tree_new B data key) [0] = Ok p
    \<and> proof_root p = lib_hash B (Some key) data
    \<and> verify B p key = Ok (lib_chunk B (Some key) 0 (data @ replicate (1024 - length data) 0) = lib_hash B (Some key) data)"
proof -
  have "merkle_tree_new B data key = \<lparr>tree_key = key, layers = [[lib_hash B (Some key) data]], tree_data = data\<rparr>"
    using assms by (simp add: merkle_tree_new_def CHUNK_LEN_def hasher_hash_def with_key_def)
  then show ?thesis
    using assms
    by (simp add: get_multileaf_proof_def Let_def btree_set_def num_leaves_def collect_siblings.simps tree_root_def
        nth_res_def verify_def compute_root_def btree_map_def leaf_hashes_def chunk_cv_def with_key_def leaf_chunk_def
        CHUNK_LEN_def min_def subrange_def)
qed

theorem single_leaf_proof_witness:
  "\<exists>p. get_multileaf_proof (merkle_tree_new sample_blake3 [5, 6] []) [0] = Ok p \<and> verify sample_blake3 p [] = Ok False"
proof -
  obtain p where "get_multileaf_proof (merkle_tree_new sample_blake3 [5, 6] []) [0] = Ok p"
    and "verify sample_blake3 p [] = Ok (lib_chunk sample_blake3 (Some []) 0 ([5, 6] @ replicate (1024 - length [5, 6 :: u8]) 0)
      = lib_hash sample_blake3 (Some []) [5, 6])"
    using single_leaf_proof [of "[5, 6]" sample_blake3 "[]"] by auto
  then show ?thesis by (simp add: sample_blake3_def)
qed

section \<open>Reading matrix bytes from a proof\<close>

lemma chunk_positions:
  fixes gs :: nat
  shows
  "{x. x < len \<and> (gs + x) div 1024 = i} = {max gs (i * 1024) - gs..<min (gs + len) (i * 1024 + 1024) - gs}"
proof (rule set_eqI)
  fix x
  have "(gs + x) div 1024 = i \<longleftrightarrow> i * 1024 \<le> gs + x \<and> gs + x < i * 1024 + 1024"
  proof
    assume "(gs + x) div 1024 = i"
    then have "gs + x = i * 1024 + (gs + x) mod 1024" using div_mult_mod_eq [of "gs + x" 1024] by simp
    moreover have "(gs + x) mod 1024 < 1024" by simp
    ultimately show "i * 1024 \<le> gs + x \<and> gs + x < i * 1024 + 1024" by linarith
  qed (simp add: div_nat_eqI)
  moreover have "x < len \<and> i * 1024 \<le> gs + x \<and> gs + x < i * 1024 + 1024
    \<longleftrightarrow> max gs (i * 1024) - gs \<le> x \<and> x < min (gs + len) (i * 1024 + 1024) - gs" by linarith
  ultimately show "x \<in> {x. x < len \<and> (gs + x) div 1024 = i}
    \<longleftrightarrow> x \<in> {max gs (i * 1024) - gs..<min (gs + len) (i * 1024 + 1024) - gs}" by simp
qed

definition extract_inv :: "bytes \<Rightarrow> nat \<Rightarrow> nat \<Rightarrow> nat list \<Rightarrow> bytes \<times> nat \<Rightarrow> bool" where
  "extract_inv data gs len S acc \<longleftrightarrow> length (fst acc) = len
     \<and> (\<forall>x < len. fst acc ! x = (if (gs + x) div 1024 \<in> set S then data ! (gs + x) else 0))
     \<and> snd acc = card {x. x < len \<and> (gs + x) div 1024 \<in> set S}"

lemma extract_step_inv:
  assumes inv: "extract_inv data gs len S acc" and i: "i \<notin> set S" "i < n" and data: "length data = n * 1024"
  shows "extract_inv data gs len (S @ [i]) (extract_step gs (gs + len) (i, data_chunk data i) acc)"
proof -
  obtain result copied where acc: "acc = (result, copied)" by (cases acc)
  define a b where "a = max gs (i * 1024)" and "b = min (gs + len) (i * 1024 + 1024)"
  have pos: "{x. x < len \<and> (gs + x) div 1024 = i} = {a - gs..<b - gs}"
    unfolding a_def b_def by (rule chunk_positions)
  have res: "length result = len" "\<forall>x < len. result ! x = (if (gs + x) div 1024 \<in> set S then data ! (gs + x) else 0)"
    and cop: "copied = card {x. x < len \<and> (gs + x) div 1024 \<in> set S}"
    using inv by (simp_all add: extract_inv_def acc)
  have "{x. x < len \<and> (gs + x) div 1024 \<in> set (S @ [i])}
      = {x. x < len \<and> (gs + x) div 1024 \<in> set S} \<union> {a - gs..<b - gs}"
    using pos by auto
  moreover have "{x. x < len \<and> (gs + x) div 1024 \<in> set S} \<inter> {a - gs..<b - gs} = {}"
    using i(1) unfolding pos [symmetric] by auto
  ultimately have card: "card {x. x < len \<and> (gs + x) div 1024 \<in> set (S @ [i])} = copied + ((b - gs) - (a - gs))"
    using cop by (simp add: card_Un_disjoint)
  have chunk_len: "length (data_chunk data i) = 1024" using data_chunk_full [OF data i(2)] .
  show ?thesis
  proof (cases "i * 1024 < gs + len \<and> gs < i * 1024 + 1024")
    case True
    then have ab: "gs \<le> a" "i * 1024 \<le> a" "a \<le> b" "b \<le> gs + len" "b \<le> i * 1024 + 1024"
      by (simp_all add: a_def b_def)
    define piece where "piece = subrange (a - i * 1024) (a - i * 1024 + (b - a)) (data_chunk data i)"
    have piece_len: "length piece = b - a" using ab chunk_len by (simp add: piece_def)
    have step: "extract_step gs (gs + len) (i, data_chunk data i) acc = (copy_into (a - gs) piece result, copied + (b - a))"
      using True by (simp add: extract_step_def acc CHUNK_LEN_def Let_def piece_def flip: a_def b_def)
    have fits: "a - gs + length piece \<le> length result" using ab piece_len res(1) by simp
    have "copy_into (a - gs) piece result ! x = (if (gs + x) div 1024 \<in> set (S @ [i]) then data ! (gs + x) else 0)"
      if x: "x < len" for x
    proof (cases "(gs + x) div 1024 = i")
      case True
      then have "x \<in> {a - gs..<b - gs}" using x pos by blast
      then have in_range: "a - gs \<le> x" "x < a - gs + length piece" using ab piece_len by auto
      then have "copy_into (a - gs) piece result ! x = piece ! (x - (a - gs))"
        using fits x res(1) by (simp add: nth_copy_into)
      also have "\<dots> = data_chunk data i ! (a - i * 1024 + (x - (a - gs)))"
        unfolding piece_def using in_range piece_len chunk_len ab by (intro nth_subrange) simp_all
      also have "a - i * 1024 + (x - (a - gs)) = gs + x - i * 1024" using ab in_range by simp
      also have "data_chunk data i ! (gs + x - i * 1024) = data ! (i * 1024 + (gs + x - i * 1024))"
      proof -
        have "i * 1024 + 1024 \<le> length data" using data i(2) by simp
        moreover have "gs + x - i * 1024 < 1024" using ab in_range piece_len by simp
        ultimately show ?thesis unfolding data_chunk_def CHUNK_LEN_def by (intro nth_subrange) simp_all
      qed
      also have "i * 1024 + (gs + x - i * 1024) = gs + x" using ab in_range by simp
      finally show ?thesis using True by simp
    next
      case False
      then have "x \<notin> {a - gs..<b - gs}" using pos by blast
      then have "\<not> (a - gs \<le> x \<and> x < a - gs + length piece)" using ab piece_len by auto
      then have "copy_into (a - gs) piece result ! x = result ! x"
        using fits x res(1) by (subst nth_copy_into) auto
      then show ?thesis using False res(2) x by simp
    qed
    moreover have "b - gs - (a - gs) = b - a" using ab by simp
    ultimately show ?thesis
      unfolding extract_inv_def step fst_conv snd_conv using card fits res(1) by simp
  next
    case False
    then have empty: "b - gs \<le> a - gs" by (auto simp: a_def b_def)
    have step: "extract_step gs (gs + len) (i, data_chunk data i) acc = acc"
      by (simp only: extract_step_def acc CHUNK_LEN_def Let_def prod.case False if_False)
    have "(gs + x) div 1024 \<noteq> i" if "x < len" for x using that pos empty by auto
    then show ?thesis
      unfolding extract_inv_def step using res card empty by (simp add: acc)
  qed
qed

lemma extract_fold_inv:
  assumes "length data = n * 1024" and "distinct S" and "\<forall>i \<in> set S. i < n"
  shows "extract_inv data gs len S
    (fold (extract_step gs (gs + len)) (zip S (map (data_chunk data) S)) (replicate len 0, 0))"
  using assms(2,3)
proof (induction S rule: rev_induct)
  case Nil
  then show ?case by (simp add: extract_inv_def)
next
  case (snoc i S)
  then show ?case using extract_step_inv [OF snoc.IH _ _ assms(1), of i] by simp
qed

lemma card_all: "card {x. x < len \<and> P x} = len \<longleftrightarrow> (\<forall>x < (len :: nat). P x)"
proof
  assume c: "card {x. x < len \<and> P x} = len"
  have "{x. x < len \<and> P x} = {..<len}" by (rule card_subset_eq) (use c in auto)
  then show "\<forall>x < len. P x" by auto
next
  assume "\<forall>x < len. P x"
  then have "{x. x < len \<and> P x} = {..<len}" by auto
  then show "card {x. x < len \<and> P x} = len" by simp
qed

lemma extract_bytes_eq:
  assumes data: "length data = n * 1024" and S: "distinct S" "\<forall>i \<in> set S. i < n"
    and p: "leaf_indices p = S" "leaf_data p = map (data_chunk data) S" and range: "gs + len \<le> length data"
  shows "extract_bytes p gs len = (if \<forall>x < len. (gs + x) div 1024 \<in> set S
    then Ok (subrange gs (gs + len) data) else Err ''Not all required bytes covered by leaves'')"
proof -
  obtain result copied where f: "fold (extract_step gs (gs + len)) (zip S (map (data_chunk data) S)) (replicate len 0, 0)
    = (result, copied)" by fastforce
  have inv: "extract_inv data gs len S (result, copied)"
    using extract_fold_inv [OF data S, of gs len] f by simp
  then have c: "copied = len \<longleftrightarrow> (\<forall>x < len. (gs + x) div 1024 \<in> set S)"
    using card_all [of len "\<lambda>x. (gs + x) div 1024 \<in> set S"] by (simp add: extract_inv_def)
  have "result = subrange gs (gs + len) data" if "\<forall>x < len. (gs + x) div 1024 \<in> set S"
  proof (rule nth_equalityI)
    show "length result = length (subrange gs (gs + len) data)" using inv range by (simp add: extract_inv_def)
  next
    fix x assume "x < length result"
    then have "x < len" using inv by (simp add: extract_inv_def)
    then show "result ! x = subrange gs (gs + len) data ! x"
      using inv that range by (simp add: extract_inv_def nth_subrange)
  qed
  moreover have "extract_bytes p gs len = (if copied = len then Ok result else Err ''Not all required bytes covered by leaves'')"
    by (simp add: extract_bytes_def p f)
  ultimately show ?thesis using c by (cases "\<forall>x < len. (gs + x) div 1024 \<in> set S") simp_all
qed

lemma wrap_pred:
  assumes "0 < a" and "a < 2 ^ 64" shows "(a + (2 ^ 64 - 1)) mod 2 ^ 64 = a - (1 :: nat)"
proof -
  have "a + (2 ^ 64 - 1) = (a - 1) + 2 ^ 64" using assms(1) by simp
  then have "(a + (2 ^ 64 - 1)) mod 2 ^ 64 = (a - 1) mod 2 ^ 64" by (simp only: mod_add_self2)
  also have "\<dots> = a - 1" using assms(2) by (intro mod_less) linarith
  finally show ?thesis .
qed

lemma leaf_indices_from_rows_set:
  assumes "0 < cols" and "\<forall>row \<in> set rows. (row + 1) * cols < 2 ^ 64"
  shows "set (compute_leaf_indices_from_rows rows (m, cols))
    = (\<Union>row \<in> set rows. {row * cols div 1024..((row + 1) * cols - 1) div 1024})"
proof -
  have "((row + 1) * cols + (2 ^ 64 - 1)) mod 2 ^ 64 = (row + 1) * cols - 1" if "row \<in> set rows" for row
    using assms that by (intro wrap_pred) simp_all
  then show ?thesis
    unfolding compute_leaf_indices_from_rows_def Let_def CHUNK_LEN_def set_btree_set
    by (auto simp: less_Suc_eq_le)
qed

lemma btree_set_zeros:
  assumes "xs \<noteq> []" and "\<forall>i \<in> set xs. i < 1" shows "btree_set xs = [0]"
proof -
  obtain y ys where y: "btree_set xs = y # ys" using assms(1) btree_set_Nil_iff by (cases "btree_set xs") auto
  have all: "\<forall>i \<in> set (y # ys). i = 0" using assms(2) by (simp flip: y)
  moreover have "strict (y # ys)" by (simp flip: y)
  ultimately show ?thesis using y by (cases ys) auto
qed

text \<open>The proof of any leaves, of a matrix of one chunk or more.\<close>

lemma opened_proof:
  assumes "simd_law B key" and len: "length data = n * 1024" and "0 < n"
    and idx: "idx \<noteq> []" "\<forall>i \<in> set idx. i < n"
  shows "\<exists>sibs r. get_multileaf_proof (merkle_tree_new B data key) idx = Ok
      \<lparr>leaf_data = map (data_chunk data) (btree_set idx), leaf_indices = btree_set idx,
       total_leaves = n, proof_root = r, siblings = sibs\<rparr>
    \<and> tree_root (merkle_tree_new B data key) = Ok r
    \<and> verify B \<lparr>leaf_data = map (data_chunk data) (btree_set idx), leaf_indices = btree_set idx,
       total_leaves = n, proof_root = r, siblings = sibs\<rparr> key
      = Ok (1 < n \<or> lib_chunk B (Some key) 0 data = lib_hash B (Some key) data)"
proof (cases "n = 1")
  case True
  have l: "length data = 1024" using len True by simp
  then have d: "data \<noteq> []" by auto
  have "merkle_tree_new B data key = \<lparr>tree_key = key, layers = [[lib_hash B (Some key) data]], tree_data = data\<rparr>"
    using d l by (simp add: merkle_tree_new_def CHUNK_LEN_def hasher_hash_def with_key_def)
  moreover have s: "btree_set idx = [0]" using btree_set_zeros idx True by blast
  ultimately show ?thesis
    using idx(1) True l
    by (simp add: get_multileaf_proof_def Let_def num_leaves_def collect_siblings.simps tree_root_def
        nth_res_def verify_def compute_root_def btree_map_def leaf_hashes_def chunk_cv_def with_key_def leaf_chunk_def
        CHUNK_LEN_def min_def subrange_def data_chunk_def)
next
  case False
  then have n: "2 \<le> n" using assms(3) by simp
  obtain sibs r where
    p: "get_multileaf_proof (merkle_tree_new B data key) idx = Ok
      \<lparr>leaf_data = map (data_chunk data) (btree_set idx), leaf_indices = btree_set idx,
       total_leaves = n, proof_root = r, siblings = sibs\<rparr>" (is "_ = Ok ?p")
    and root: "tree_root (merkle_tree_new B data key) = Ok r"
    and red: "reduce_levels B (with_key key) n
        (entries (\<lambda>i. chunk_cv B (with_key key) (data_chunk data i) (of_nat i)) (btree_set idx)) sibs = Some r"
    using multileaf_proof_Ok [OF assms(1) len n idx] by blast
  have "btree_set (btree_set idx) = btree_set idx" by (simp add: btree_set_strict)
  then have "verify B ?p key = Ok True"
    using verify_entries [of ?p "data_chunk data" B key] n red idx by (simp add: verify_def)
  then show ?thesis using p root n by auto
qed

lemma row_leaves:
  assumes "length data = n * 1024" "0 < n" "length data < 2 ^ 64" and "0 < cols" "rows \<noteq> []"
    and "\<forall>row \<in> set rows. (row + 1) * cols \<le> length data"
  shows "compute_leaf_indices_from_rows rows (m, cols) \<noteq> []"
    and "\<forall>i \<in> set (compute_leaf_indices_from_rows rows (m, cols)). i < n"
proof -
  define idx where "idx = compute_leaf_indices_from_rows rows (m, cols)"
  have idx_set: "set idx = (\<Union>row \<in> set rows. {row * cols div 1024..((row + 1) * cols - 1) div 1024})"
    unfolding idx_def using assms(3,4,6) by (intro leaf_indices_from_rows_set) auto
  have "((row + 1) * cols - 1) div 1024 < n" if "row \<in> set rows" for row
  proof -
    have "(row + 1) * cols \<le> n * 1024" "0 < (row + 1) * cols" using assms(1,4,6) that by simp_all
    then have "(row + 1) * cols - 1 < n * 1024" by linarith
    then show ?thesis by (simp add: less_mult_imp_div_less)
  qed
  then show "\<forall>i \<in> set (compute_leaf_indices_from_rows rows (m, cols)). i < n"
    unfolding idx_def [symmetric] idx_set by fastforce
  obtain row0 where "row0 \<in> set rows" using assms(5) by (cases rows) auto
  moreover have "row0 * cols div 1024 \<le> ((row0 + 1) * cols - 1) div 1024"
    using assms(4) by (intro div_le_mono) simp
  ultimately have "set idx \<noteq> {}" using idx_set by force
  then show "compute_leaf_indices_from_rows rows (m, cols) \<noteq> []" unfolding idx_def by auto
qed

text \<open>C10: Opening rows.  For a padded matrix (one whole chunk or more) and any rows inside it, the
  leaf indices computed for those rows are exactly the chunks the rows touch, and the proof made
  for them passes the sanity check, stores the tree's own root, verifies, and gives every one of
  the rows back exactly as it is in the matrix. The one exception is a matrix of a single chunk,
  whose proof verifies only if the digest of the chunk equals its chaining value.\<close>

theorem rows_open_exactly:
  assumes "simd_law B key" and "length data mod 1024 = 0" and "data \<noteq> []" and "length data < 2 ^ 64"
    and "0 < cols" and "rows \<noteq> []" and "\<forall>row \<in> set rows. (row + 1) * cols \<le> length data"
  shows "\<exists>p r. get_multileaf_proof (merkle_tree_new B data key) (compute_leaf_indices_from_rows rows (m, cols)) = Ok p
    \<and> set (leaf_indices p) = (\<Union>row \<in> set rows. {row * cols div 1024..((row + 1) * cols - 1) div 1024})
    \<and> total_leaves p = length data div 1024
    \<and> proof_sanity_check p = Ok ()
    \<and> tree_root (merkle_tree_new B data key) = Ok r \<and> proof_root p = r
    \<and> verify B p key = Ok (1024 < length data \<or> lib_chunk B (Some key) 0 data = lib_hash B (Some key) data)
    \<and> (1024 < length data \<longrightarrow> compute_root B p key = Ok (Some r))
    \<and> (\<forall>row \<in> set rows. extract_bytes p (row * cols) cols = Ok (subrange (row * cols) ((row + 1) * cols) data))"
proof -
  define n where "n = length data div 1024"
  have len: "length data = n * 1024" using assms(2) by (simp add: n_def minus_mod_eq_div_mult [symmetric])
  have n: "0 < n" using assms(3) len by (cases n) auto
  define idx where "idx = compute_leaf_indices_from_rows rows (m, cols)"
  have idx_set: "set idx = (\<Union>row \<in> set rows. {row * cols div 1024..((row + 1) * cols - 1) div 1024})"
    unfolding idx_def using assms(4,5,7) by (intro leaf_indices_from_rows_set) auto
  note idx = row_leaves [OF len n assms(4-7), of m, folded idx_def]
  define P where "P sibs r = \<lparr>leaf_data = map (data_chunk data) (btree_set idx), leaf_indices = btree_set idx,
       total_leaves = n, proof_root = r, siblings = sibs\<rparr>" for sibs r
  obtain sibs r where p: "get_multileaf_proof (merkle_tree_new B data key) idx = Ok (P sibs r)"
    and root: "tree_root (merkle_tree_new B data key) = Ok r"
    and ver: "verify B (P sibs r) key = Ok (1 < n \<or> lib_chunk B (Some key) 0 data = lib_hash B (Some key) data)"
    using opened_proof [OF assms(1) len n idx] unfolding P_def by blast
  have "1 < n \<longleftrightarrow> 1024 < length data" using len by auto
  with ver have ver': "verify B (P sibs r) key = Ok (1024 < length data \<or> lib_chunk B (Some key) 0 data = lib_hash B (Some key) data)" by simp
  then have "1024 < length data \<longrightarrow> compute_root B (P sibs r) key = Ok (Some r)"
    by (cases "compute_root B (P sibs r) key") (auto simp: verify_def P_def)
  moreover have "proof_sanity_check (P sibs r) = Ok ()"
    using idx(1) by (simp add: proof_sanity_check_def P_def strict_sanity del: One_nat_def)
  moreover have "extract_bytes (P sibs r) (row * cols) cols = Ok (subrange (row * cols) ((row + 1) * cols) data)"
    if row: "row \<in> set rows" for row
  proof -
    have "(row * cols + x) div 1024 \<in> set (btree_set idx)" if "x < cols" for x
    proof -
      have "row * cols div 1024 \<le> (row * cols + x) div 1024" by (intro div_le_mono) simp
      moreover have "(row * cols + x) div 1024 \<le> ((row + 1) * cols - 1) div 1024"
        using that by (intro div_le_mono) simp
      ultimately show ?thesis using row by (auto simp: idx_set)
    qed
    moreover have "row * cols + cols \<le> length data" using assms(7) row by (auto simp: algebra_simps)
    ultimately have "extract_bytes (P sibs r) (row * cols) cols = Ok (subrange (row * cols) (row * cols + cols) data)"
      using extract_bytes_eq [OF len, of "btree_set idx" "P sibs r" "row * cols" cols] idx(2)
      using strict_sorted_iff [of "btree_set idx"] by (simp add: P_def)
    then show ?thesis by (simp add: algebra_simps)
  qed
  ultimately show ?thesis using p root ver' idx_set n_def unfolding idx_def [symmetric] by (intro exI [of _ "P sibs r"] exI [of _ r]) (simp add: P_def)
qed

theorem rows_open_exactly_witness:
  "\<exists>p r. get_multileaf_proof (merkle_tree_new sample_blake3 (replicate 4096 7) []) (compute_leaf_indices_from_rows [3, 0] (4, 1000)) = Ok p
    \<and> verify sample_blake3 p [] = Ok True
    \<and> tree_root (merkle_tree_new sample_blake3 (replicate 4096 7) []) = Ok r \<and> proof_root p = r
    \<and> extract_bytes p 3000 1000 = Ok (subrange 3000 4000 (replicate 4096 7))"
proof -
  have l: "length (replicate 4096 (7 :: u8)) = 4096" by (rule length_replicate)
  have "length (replicate 4096 (7 :: u8)) mod 1024 = 0" "replicate 4096 (7 :: u8) \<noteq> []" "length (replicate 4096 (7 :: u8)) < 2 ^ 64"
    "\<forall>row \<in> set [3, 0]. (row + 1) * 1000 \<le> length (replicate 4096 (7 :: u8))"
    unfolding l by simp_all
  note rows_open_exactly [OF sample_blake3_law this(1-3), of 1000 "[3, 0]" "[]" 4] this(4)
  then show ?thesis unfolding l by auto
qed

section \<open>The layers are BLAKE3's left-balanced tree\<close>

lemma next_power_of_two_eq: "2 ^ k < n \<Longrightarrow> n \<le> 2 ^ (k + 1) \<Longrightarrow> next_power_of_two n = 2 ^ (k + 1)"
proof (induction k arbitrary: n)
  case 0
  then have "n = 2" by simp
  then show ?case by (simp add: next_power_of_two.simps)
next
  case (Suc k)
  have "1 < n" using Suc.prems(1) by (metis le_less_trans one_le_numeral one_le_power)
  then have "next_power_of_two n = 2 * next_power_of_two ((n + 1) div 2)"
    by (subst next_power_of_two.simps) simp
  also have "next_power_of_two ((n + 1) div 2) = 2 ^ (k + 1)"
    using Suc.prems by (intro Suc.IH) simp_all
  finally show ?case by simp
qed

lemma next_power_of_two_ex:
  assumes "1 < n"
  obtains k where "2 ^ k < n" and "n \<le> 2 ^ (k + 1)" and "next_power_of_two n div 2 = 2 ^ k"
proof -
  obtain k where "2 ^ k < n" "n \<le> 2 ^ (k + 1)" using ex_power_ivl2 [of 2 n] assms by auto
  then show thesis using that next_power_of_two_eq [of k n] by simp
qed

text \<open>The tree of the BLAKE3 specification over the chunks \<open>s\<close>, ..., \<open>s + c - 1\<close>: the left subtree
  takes the largest power of two below the number of chunks.\<close>

function balanced_cv ::
  "blake3_lib \<Rightarrow> blake3_hasher \<Rightarrow> (nat \<Rightarrow> digest) \<Rightarrow> nat \<Rightarrow> nat \<Rightarrow> digest" where
  "balanced_cv B H leaf s c =
     (if c \<le> 1 then leaf s
      else let half = next_power_of_two c div 2
           in parent_cv B H (balanced_cv B H leaf s half) (balanced_cv B H leaf (s + half) (c - half)))"
  by pat_completeness auto
termination
proof (relation "measure (\<lambda>(_, _, _, _, c). c)", goal_cases)
  case (2 B H leaf s c x)
  then obtain k where "2 ^ k < c" "next_power_of_two c div 2 = 2 ^ k" using next_power_of_two_ex [of c] by auto
  then show ?case using 2 by simp
next
  case (3 B H leaf s c x)
  then obtain k where "2 ^ k < c" "next_power_of_two c div 2 = 2 ^ k" using next_power_of_two_ex [of c] by auto
  then show ?case using 3 by simp
qed simp

declare balanced_cv.simps [simp del]


text \<open>Entry \<open>j\<close> of layer \<open>l\<close> is the balanced tree over its \<open>2 ^ l\<close> chunks, the last one over what
  is left.\<close>

definition layer_ok ::
  "blake3_lib \<Rightarrow> blake3_hasher \<Rightarrow> (nat \<Rightarrow> digest) \<Rightarrow> nat \<Rightarrow> nat \<Rightarrow> digest list \<Rightarrow> bool" where
  "layer_ok B H leaf n l L \<longleftrightarrow> length L = (n + 2 ^ l - 1) div 2 ^ l
     \<and> (\<forall>j < length L. L ! j = balanced_cv B H leaf (j * 2 ^ l) (min (2 ^ l) (n - j * 2 ^ l)))"

lemma add_le_pred: "0 < p \<Longrightarrow> p + x \<le> n + p - 1 \<longleftrightarrow> x < n" for p x n :: nat
  by linarith

lemma layer_length_less: "j < (n + 2 ^ l - 1) div 2 ^ l \<longleftrightarrow> j * 2 ^ l < n" for j n l :: nat
proof -
  have "j < (n + 2 ^ l - 1) div 2 ^ l \<longleftrightarrow> (j + 1) * 2 ^ l \<le> n + 2 ^ l - 1"
    by (simp add: less_eq_div_iff_mult_less_eq Suc_le_eq [symmetric])
  also have "\<dots> \<longleftrightarrow> j * 2 ^ l < n"
    using add_le_pred [of "2 ^ l" "j * 2 ^ l" n] by (simp add: add_mult_distrib)
  finally show ?thesis .
qed

lemma combine_layer_ok:
  assumes ok: "layer_ok B H leaf n l L"
  shows "layer_ok B H leaf n (l + 1) (combine_layer B H L)"
proof -
  let ?C = "combine_layer B H L"
  have len_iff: "j < length L \<longleftrightarrow> j * 2 ^ l < n" for j
    using ok layer_length_less [of j n l] by (simp add: layer_ok_def)
  have C_iff: "j < length ?C \<longleftrightarrow> j * 2 ^ (l + 1) < n" for j
  proof -
    have "j < length ?C \<longleftrightarrow> 2 * j < length L" by simp linarith
    also have "\<dots> \<longleftrightarrow> j * 2 ^ (l + 1) < n" using len_iff [of "2 * j"] by (simp add: ac_simps)
    finally show ?thesis .
  qed
  have "length ?C = (n + 2 ^ (l + 1) - 1) div 2 ^ (l + 1)"
    using C_iff layer_length_less [of _ n "l + 1"] by (metis linorder_neqE_nat less_irrefl)
  moreover have "?C ! j = balanced_cv B H leaf (j * 2 ^ (l + 1)) (min (2 ^ (l + 1)) (n - j * 2 ^ (l + 1)))"
    if j: "j < length ?C" for j
  proof -
    define s where "s = j * 2 ^ (l + 1)"
    define c where "c = min (2 ^ (l + 1)) (n - s)"
    have s2: "2 * j * 2 ^ l = s" "(2 * j + 1) * 2 ^ l = s + 2 ^ l" by (simp_all add: s_def algebra_simps)
    have node: "L ! k = balanced_cv B H leaf (k * 2 ^ l) (min (2 ^ l) (n - k * 2 ^ l))" if "k < length L" for k
      using ok that by (simp add: layer_ok_def)
    have "2 * j < length L" using j by simp
    then have left: "L ! (2 * j) = balanced_cv B H leaf s (min (2 ^ l) (n - s))"
      using node [of "2 * j"] unfolding s2 by simp
    show ?thesis
    proof (cases "2 * j + 1 < length L")
      case True
      then have more: "s + 2 ^ l < n" using len_iff [of "2 * j + 1"] s2 by simp
      have right: "L ! (2 * j + 1) = balanced_cv B H leaf (s + 2 ^ l) (min (2 ^ l) (n - (s + 2 ^ l)))"
        using node [OF True] unfolding s2 .
      have c: "2 ^ l < c" "c \<le> 2 ^ (l + 1)" using more by (auto simp: c_def)
      then have half: "next_power_of_two c div 2 = 2 ^ l" using next_power_of_two_eq [of l c] by simp
      have "1 < c" using c(1) by (metis le_less_trans one_le_numeral one_le_power)
      then have "balanced_cv B H leaf s c = parent_cv B H (balanced_cv B H leaf s (2 ^ l)) (balanced_cv B H leaf (s + 2 ^ l) (c - 2 ^ l))"
        by (subst balanced_cv.simps) (simp add: half Let_def)
      moreover have "min (2 ^ l) (n - s) = 2 ^ l" "c - 2 ^ l = min (2 ^ l) (n - (s + 2 ^ l))"
        using more by (auto simp: c_def min_def)
      ultimately show ?thesis
        unfolding s_def [symmetric] c_def [symmetric]
        using combine_layer_nth [of j L B H] j True left right by simp
    next
      case False
      then have "n \<le> s + 2 ^ l" using len_iff [of "2 * j + 1"] s2 by simp
      then have "min (2 ^ l) (n - s) = c" by (auto simp: c_def min_def)
      then show ?thesis
        unfolding s_def [symmetric] c_def [symmetric]
        using combine_layer_nth [of j L B H] j False left by simp
    qed
  qed
  ultimately show ?thesis by (simp add: layer_ok_def)
qed

lemma grow_layers_root:
  assumes "layer_ok B H leaf n l L" and "2 \<le> length L"
  shows "hd (last (grow_layers B H L)) = (let half = next_power_of_two n div 2
    in root_cv B H (balanced_cv B H leaf 0 half) (balanced_cv B H leaf half (n - half)))"
  using assms
proof (induction B H L arbitrary: l rule: grow_layers.induct)
  case (1 B H L)
  show ?case
  proof (cases "length L > 2")
    case True
    then have "hd (last (grow_layers B H L)) = hd (last (grow_layers B H (combine_layer B H L)))"
      by (subst grow_layers.simps) (simp add: grow_layers.simps [of B H "combine_layer B H L"])
    then show ?thesis using "1.IH" [OF True combine_layer_ok [OF "1.prems"(1)]] True by simp
  next
    case False
    then have L2: "length L = 2" using "1.prems"(2) by simp
    then have ne: "hd (last (grow_layers B H L)) = root_cv B H (L ! 0) (L ! 1)"
      by (subst grow_layers.simps) simp
    have "1 * 2 ^ l < n" "\<not> 2 * 2 ^ l < n"
      using layer_length_less [of 1 n l] layer_length_less [of 2 n l] "1.prems"(1) L2 by (simp_all add: layer_ok_def)
    then have n: "2 ^ l < n" "n \<le> 2 ^ (l + 1)" by simp_all
    then have half: "next_power_of_two n div 2 = 2 ^ l" using next_power_of_two_eq [of l n] by simp
    have mins: "min (2 ^ l) n = 2 ^ l" "min (2 ^ l) (n - 2 ^ l) = n - 2 ^ l" using n by simp_all
    have node: "L ! k = balanced_cv B H leaf (k * 2 ^ l) (min (2 ^ l) (n - k * 2 ^ l))" if "k < 2" for k
      using "1.prems"(1) that L2 by (simp add: layer_ok_def)
    have "L ! 0 = balanced_cv B H leaf 0 (2 ^ l)" "L ! 1 = balanced_cv B H leaf (2 ^ l) (n - 2 ^ l)"
      using node [of 0] node [of 1] by (simp_all add: mins)
    then show ?thesis using ne half by (simp add: Let_def)
  qed
qed

lemma tree_root_balanced:
  assumes "simd_law B key" and "length data = n * 1024" and "2 \<le> n"
  shows "tree_root (merkle_tree_new B data key) = Ok
    (let H = with_key key; half = next_power_of_two n div 2;
         leaf = (\<lambda>i. chunk_cv B H (subrange (i * 1024) (i * 1024 + 1024) data) (of_nat i))
     in root_cv B H (balanced_cv B H leaf 0 half) (balanced_cv B H leaf half (n - half)))"
proof -
  define leaf where "leaf = (\<lambda>i. chunk_cv B (with_key key) (data_chunk data i) (of_nat i))"
  define L where "L = map leaf [0..<n]"
  have "layer_ok B (with_key key) leaf n 0 L"
    by (auto simp: layer_ok_def L_def balanced_cv.simps)
  then have root: "hd (last (grow_layers B (with_key key) L)) = (let half = next_power_of_two n div 2
    in root_cv B (with_key key) (balanced_cv B (with_key key) leaf 0 half) (balanced_cv B (with_key key) leaf half (n - half)))"
    using assms(3) by (intro grow_layers_root) (auto simp: L_def)
  have "length (last (grow_layers B (with_key key) L)) = 1"
    using grow_layers_walk [of L n "[0]" "[]" B "with_key key"] assms(3) by (auto simp: L_def)
  moreover have "grow_layers B (with_key key) L \<noteq> []" by (subst grow_layers.simps) simp
  ultimately have "tree_root (merkle_tree_new B data key) = Ok (hd (last (grow_layers B (with_key key) L)))"
    using tree_new_layers(1) [OF assms]
    by (cases "last (grow_layers B (with_key key) L)") (simp_all add: tree_root_def nth_res_def L_def leaf_def)
  then show ?thesis using root by (simp add: Let_def leaf_def data_chunk_def CHUNK_LEN_def)
qed

text \<open>C16: The layer-by-layer tree is BLAKE3's: over at least two whole chunks, \<open>root()\<close> is the root
  merge of the two halves the specification prescribes (the largest power of two of chunks on the
  left, the rest on the right), each hashed recursively the same way over the keyed chunk
  chaining values.\<close>

theorem tree_root_is_blake3:
  assumes "simd_law B key" and "length data = n * 1024" and "2 \<le> n"
  shows "tree_root (merkle_tree_new B data key) = Ok
    (let H = with_key key; half = next_power_of_two n div 2;
         leaf = (\<lambda>i. chunk_cv B H (subrange (i * 1024) (i * 1024 + 1024) data) (of_nat i))
     in root_cv B H (balanced_cv B H leaf 0 half) (balanced_cv B H leaf half (n - half)))"
  by (rule tree_root_balanced [OF assms])

theorem tree_root_is_blake3_witness:
  "\<exists>r. tree_root (merkle_tree_new sample_blake3 (replicate 3072 7) []) = Ok r"
proof -
  have "length (replicate 3072 (7 :: u8)) = 3 * 1024" by (simp only: length_replicate)
  from tree_root_is_blake3 [OF sample_blake3_law this, of "[]"] show ?thesis by simp
qed

end
