(* ===== verification/Miner_Error.thy ===== *)
theory Miner_Error
  imports Prelude
begin

text \<open>
  The miner's error type (src/error.rs) and the conversion of a driver status into a result.
  The message of a formatted error is its fixed text: the values the code interpolates into it
  are for the operator only and no branch reads them.
\<close>

datatype miner_error =
    CudaError string string
  | KernelNotFound string
  | IoError string
  | RpcError string string
  | OtherError string

type_synonym 'a miner_res = "(miner_error, 'a) res"

type_synonym cu_result = nat

definition CUDA_SUCCESS :: cu_result where "CUDA_SUCCESS = 0"

text \<open>\<open>cuGetErrorName\<close> is the driver's: it may leave the name pointer null, and then the debug
  form of the status is the message.\<close>

definition cu_check ::
  "(cu_result \<Rightarrow> string option) \<Rightarrow> (cu_result \<Rightarrow> string) \<Rightarrow> cu_result \<Rightarrow> string \<Rightarrow> unit miner_res" where
  "cu_check error_name debug_form r operation =
     (if r = CUDA_SUCCESS then Ok ()
      else case error_name r of
          None \<Rightarrow> Err (CudaError operation (''err='' @ debug_form r))
        | Some n \<Rightarrow> Err (CudaError operation n))"

lemma cu_check_Ok_iff [simp]: "cu_check en df r operation = Ok u \<longleftrightarrow> r = CUDA_SUCCESS"
  by (simp add: cu_check_def split: option.split)

lemma cu_check_not_Panic [simp]: "cu_check en df r operation \<noteq> Panic"
  by (simp add: cu_check_def split: option.split)

lemma cu_check_Err_op: "cu_check en df r operation = Err e \<Longrightarrow> \<exists>m. e = CudaError operation m"
  by (auto simp: cu_check_def split: if_splits option.splits)

end
