(* ===== verification/Difficulty.thy ===== *)
theory Difficulty
  imports Headers Miner_Error
begin

text \<open>
  Difficulty targets on both sides of the protocol: the miner's \<open>bits_to_target\<close>,
  \<open>target_be_to_le\<close> (gateway/block.rs) and \<open>mul_u256_u128\<close> (gateway/mining_job.rs), and the
  verifier's \<open>nbits_to_difficulty\<close> (api/proof_utils.rs), \<open>extract_difficulty_bound\<close>,
  \<open>check_jackpot_difficulty\<close> and \<open>public_params_sanity_check\<close> (api/sanity_checks.rs).
  The \<open>U256\<close> of the \<open>primitive_types\<close> crate is a 256-bit word: its shifts drop bits, its
  division by zero and its overflowing product panic.
\<close>

type_synonym u256 = "256 word"

section \<open>The miner's target\<close>

text \<open>\<open>start\<close> is a \<open>usize\<close> and wraps for exponents above 32, so the test after it fails.\<close>

definition bits_to_target :: "u32 \<Rightarrow> bytes" where
  "bits_to_target bits =
     (let exponent = drop_bit 24 bits AND 0xff;
          mantissa = (ucast (bits AND 0x00ffffff) :: u64);
          be = replicate 32 0
      in if exponent \<ge> 3
         then let shift_bytes = (ucast (exponent - 3) :: u64);
                  mantissa3 = drop 5 (rev (u64_le mantissa));
                  start = 32 - 3 - shift_bytes
              in if start \<le> 32 - 3 then copy_into (unat start) mantissa3 be else be
         else let mantissa_shifted = drop_bit (unat (8 * (3 - exponent))) mantissa
              in copy_into 24 (rev (u64_le mantissa_shifted)) be)"

definition target_be_to_le :: "bytes \<Rightarrow> bytes" where
  "target_be_to_le target_be = rev target_be"

text \<open>\<open>mul_u256_u128\<close>: the \<open>while\<close> that spreads a carry over the 33 accumulators, one step of
  the schoolbook loop, and the final pass that leaves one byte per accumulator.\<close>

function spread :: "u128 list \<Rightarrow> nat \<Rightarrow> u128 \<Rightarrow> u128 list" where
  "spread out j carry =
     (if carry > 0 \<and> j < length out
      then let s = out ! j + (carry AND 0xff)
           in spread (out[j := s AND 0xff]) (j + 1) (drop_bit 8 carry + drop_bit 8 s)
      else out)"
  by pat_completeness auto
termination
  by (relation "measure (\<lambda>(out, j, carry). length out - j)") auto

declare spread.simps [simp del]

definition mul_row :: "bytes \<Rightarrow> u128 \<Rightarrow> nat \<Rightarrow> u128 list \<Rightarrow> u128 list" where
  "mul_row a_le b i out =
     (let prod = ucast (a_le ! i) * b
      in spread (out[i := out ! i + (prod AND 0xff)]) (i + 1) (drop_bit 8 prod))"

fun tidy :: "u128 list \<Rightarrow> u128 \<Rightarrow> bytes \<times> u128" where
  "tidy [] carry = ([], carry)"
| "tidy (x # xs) carry =
     (let s = x + carry; (le, c) = tidy xs (drop_bit 8 s) in (ucast (s AND 0xff) # le, c))"

definition mul_u256_u128 :: "bytes \<Rightarrow> u128 \<Rightarrow> bytes miner_res" where
  "mul_u256_u128 a_be b =
     (let a_le = rev a_be;
          out = fold (mul_row a_le b) [0..<32] (replicate 33 0);
          (le, carry) = tidy (take 32 out) 0;
          overflow = out ! 32 + carry
      in if overflow > 0 then Err (RpcError ''build_job'' ''adjusted target overflow (> 2^256)'') else Ok (rev le))"

section \<open>The verifier's bound\<close>

definition nbits_to_difficulty :: "u32 \<Rightarrow> u256" where
  "nbits_to_difficulty bits =
     (let exponent = unat (drop_bit 24 bits); mantissa = bits AND 0x00ffffff
      in if mantissa = 0 \<or> exponent = 0 then 0
         else if mantissa AND 0x00800000 \<noteq> 0 then 0
         else if exponent \<le> 3 then drop_bit (8 * (3 - exponent)) (ucast mantissa)
         else push_bit (8 * (exponent - 3)) (ucast mantissa))"

definition extract_difficulty_bound :: "u32 \<Rightarrow> mining_config \<Rightarrow> (anyhow, u256) res" where
  "extract_difficulty_bound bits config =
     (let target = nbits_to_difficulty bits;
          tile_size = (ucast (pp_size (rows_pattern config)) * ucast (pp_size (cols_pattern config)) :: u64)
      in res_bind (dot_product_length config) (\<lambda>dpl.
         let factor = tile_size * of_nat dpl
         in if factor = 0 then Panic
            else if target > (- 1 :: u256) div ucast factor then Ok (- 1)
            else Ok (target * ucast factor)))"

definition u256_from_le :: "bytes \<Rightarrow> u256" where
  "u256_from_le bs = of_nat (le_to_nat bs)"

definition check_jackpot_difficulty_with_nbits ::
  "public_params \<Rightarrow> u32 option \<Rightarrow> (anyhow, unit) res" where
  "check_jackpot_difficulty_with_nbits p nbits_override =
     (let bits = (case nbits_override of None \<Rightarrow> nbits (p_header p) | Some b \<Rightarrow> b)
      in res_bind (extract_difficulty_bound bits (p_config p)) (\<lambda>bound.
         ensure (u256_from_le (hash_jackpot p) \<le> bound)
           ''Jackpot condition not satisfied: hash does not meet difficulty target''))"

definition check_jackpot_difficulty :: "public_params \<Rightarrow> (anyhow, unit) res" where
  "check_jackpot_difficulty p = check_jackpot_difficulty_with_nbits p None"

definition TILE_D :: nat where "TILE_D = 16"
definition TILE_H :: nat where "TILE_H = 2"

definition USIZE_MAX :: nat where "USIZE_MAX = 2 ^ 64 - 1"

definition saturate :: "nat \<Rightarrow> nat" where "saturate x = min x USIZE_MAX"

definition is_power_of_two :: "nat \<Rightarrow> bool" where
  "is_power_of_two r \<longleftrightarrow> list_ex (\<lambda>i. r = 2 ^ i) [0..<64]"

definition DWORD_SIZE :: nat where "DWORD_SIZE = 8"

definition public_params_sanity_check :: "public_params \<Rightarrow> (anyhow, unit) res" where
  "public_params_sanity_check p =
     (let k = pub_common_dim p; r = pub_rank p; h = pub_h p; w = pub_w p in
      res_bind (dot_product_length (p_config p)) (\<lambda>dpl.
      let worker_input_size = saturate (saturate (h + w) * dpl) in
      res_bind (ensure (is_power_of_two r \<and> 32 \<le> r \<and> r \<le> 1024) ''Rank must be 2^5..2^10'') (\<lambda>_.
      res_bind (ensure (r mod TILE_D = 0) ''r must be divisible by TILE_D'') (\<lambda>_.
      res_bind (ensure (k \<le> 2 ^ 16) ''k must be <= 2^16'') (\<lambda>_.
      res_bind (ensure (k mod 64 = 0) ''k must be divisible by 64'') (\<lambda>_.
      res_bind (ensure (k \<le> 4 * r * r) ''k must be no more than 4r^2'') (\<lambda>_.
      res_bind (ensure (16 * r \<le> k) ''k must be >= 16r'') (\<lambda>_.
      res_bind (ensure (1024 \<le> k) ''k must be >= 1024'') (\<lambda>_.
      res_bind (ensure (h mod TILE_H = 0 \<and> w mod TILE_H = 0)
        ''Inner hash tile dimensions must be divisible by TILE_H'') (\<lambda>_.
      res_bind (ensure (32 \<le> h * w) ''Inner hash size must be >= 32'') (\<lambda>_.
      res_bind (ensure (dpl mod DWORD_SIZE = 0) ''dot_product_length must be divisible by DWORD_SIZE'') (\<lambda>_.
      res_bind (ensure (p_m p \<le> 0x1000000) ''m must be <= 2^24'') (\<lambda>_.
      res_bind (ensure (p_n p \<le> 0x1000000) ''n must be <= 2^24'') (\<lambda>_.
      res_bind (ensure (worker_input_size \<le> 2 ^ 22) ''Worker input supported up to 4 MiB'') (\<lambda>_.
      res_bind (pp_max (rows_pattern (p_config p))) (\<lambda>rmax.
      res_bind (pp_max (cols_pattern (p_config p))) (\<lambda>cmax.
      res_bind (ensure (t_rows p + rmax < p_m p) ''t_rows + pattern max must be < m'') (\<lambda>_.
      res_bind (ensure (t_cols p + cmax < p_n p) ''t_cols + pattern max must be < n'') (\<lambda>_.
      ensure (reserved (p_config p) = RESERVED_VALUE) ''Reserved must be 32 bytes and all zeros''
      )))))))))))))))))))"

section \<open>The target multiplication computes the product\<close>

text \<open>The number a list of base-256 accumulators stands for, entries above 255 allowed.\<close>

fun acc_val :: "u128 list \<Rightarrow> nat" where
  "acc_val [] = 0"
| "acc_val (x # xs) = unat x + 256 * acc_val xs"

lemma acc_val_update:
  "j < length xs \<Longrightarrow> acc_val (xs[j := v]) + 256 ^ j * unat (xs ! j) = acc_val xs + 256 ^ j * unat v"
proof (induction xs arbitrary: j)
  case Nil
  then show ?case by simp
next
  case (Cons x xs)
  then show ?case
  proof (cases j)
    case (Suc i)
    then have "256 * (acc_val (xs[i := v]) + 256 ^ i * unat (xs ! i)) = 256 * (acc_val xs + 256 ^ i * unat v)"
      using Cons.IH [of i] Cons.prems by simp
    then show ?thesis using Suc by (simp add: algebra_simps)
  qed simp
qed

lemma acc_val_append: "acc_val (xs @ ys) = acc_val xs + 256 ^ length xs * acc_val ys"
  by (induction xs) (auto simp: algebra_simps)

lemma and_255: "(c :: u128) AND 0xff = take_bit 8 c"
  by (simp add: take_bit_eq_mask mask_eq_exp_minus_1)

lemma unat_and_255: "unat ((c :: u128) AND 0xff) = unat c mod 256"
  by (simp add: and_255 unsigned_take_bit_eq take_bit_nat_def)

lemma unat_shift_8: "unat (drop_bit 8 (c :: u128)) = unat c div 256"
proof -
  have "take_bit 128 (unat c) = unat c"
    using unsigned_less [of c, where ?'a = nat] by (simp add: take_bit_nat_eq_self_iff)
  then show ?thesis by (simp add: unsigned_drop_bit_eq drop_bit_nat_def)
qed

lemma carry_split: "s = x + c mod 256 \<Longrightarrow> s mod 256 + 256 * (c div 256 + s div 256) = x + c"
  for s x c :: nat
  using mod_mult_div_eq [of s 256] mod_mult_div_eq [of c 256] unfolding distrib_left
  by (simp only:)

text \<open>Spreading a carry from \<open>j\<close> keeps the entries below \<open>j\<close>, leaves bytes from \<open>j\<close> on and
  adds \<open>carry * 256 ^ j\<close>, up to a multiple of \<open>256 ^ length\<close> that falls off the end.\<close>

lemma spread_spec:
  assumes "unat c < 2 ^ 120" and "j \<le> length out"
    and "\<And>k. j \<le> k \<Longrightarrow> k < length out \<Longrightarrow> unat (out ! k) < 256"
  shows "length (spread out j c) = length out
    \<and> (\<forall>k < j. spread out j c ! k = out ! k)
    \<and> (\<forall>k. j \<le> k \<longrightarrow> k < length out \<longrightarrow> unat (spread out j c ! k) < 256)
    \<and> (\<exists>lost. acc_val (spread out j c) + lost * 256 ^ length out = acc_val out + unat c * 256 ^ j)"
  using assms
proof (induction out j c rule: spread.induct)
  case (1 out j c)
  show ?case
  proof (cases "c > 0 \<and> j < length out")
    case False
    then have "spread out j c = out" by (subst spread.simps) (simp only: if_False)
    moreover have "\<exists>lost. acc_val out + lost * 256 ^ length out = acc_val out + unat c * 256 ^ j"
    proof (cases "c = 0")
      case True
      then show ?thesis by (intro exI [of _ 0]) simp
    next
      case c: False
      then have "j = length out" using False "1.prems"(2) word_neq_0_conv by fastforce
      then show ?thesis by auto
    qed
    ultimately show ?thesis using "1.prems"(3) by simp
  next
    case True
    define s where "s = out ! j + (c AND 0xff)"
    define out2 where "out2 = out[j := s AND 0xff]"
    define c2 where "c2 = drop_bit 8 c + drop_bit 8 s"
    have j: "j < length out" using True by simp
    have small: "unat (out ! j) < 256" using "1.prems"(3) [of j] j by simp
    have s: "unat s = unat (out ! j) + unat c mod 256"
      unfolding s_def using small by (subst unat_add_small) (auto simp: unat_and_255)
    have "unat c div 256 + unat s div 256 < 2 ^ 120"
    proof -
      have "unat c mod 256 < 256" by simp
      then have "unat s < 512" unfolding s using small by linarith
      then have "unat s div 256 < 2" by (simp add: less_mult_imp_div_less)
      moreover have "unat c div 256 < 2 ^ 112" using "1.prems"(1) by (simp add: less_mult_imp_div_less)
      ultimately show ?thesis by simp
    qed
    then have c2: "unat c2 = unat c div 256 + unat s div 256" and c2_less: "unat c2 < 2 ^ 120"
      unfolding c2_def by (subst unat_add_small; simp add: unat_shift_8)+
    have len2: "length out2 = length out" by (simp add: out2_def)
    have out2_nth: "k \<noteq> j \<Longrightarrow> out2 ! k = out ! k" for k by (simp add: out2_def)
    have out2_j: "unat (out2 ! j) = unat s mod 256" using j by (simp add: out2_def unat_and_255)
    have step: "spread out j c = spread out2 (j + 1) c2"
      using True by (subst spread.simps) (simp add: Let_def s_def out2_def c2_def)
    have ih: "length (spread out2 (j + 1) c2) = length out2
      \<and> (\<forall>k < j + 1. spread out2 (j + 1) c2 ! k = out2 ! k)
      \<and> (\<forall>k. j + 1 \<le> k \<longrightarrow> k < length out2 \<longrightarrow> unat (spread out2 (j + 1) c2 ! k) < 256)
      \<and> (\<exists>lost. acc_val (spread out2 (j + 1) c2) + lost * 256 ^ length out2
           = acc_val out2 + unat c2 * 256 ^ (j + 1))"
      unfolding out2_def c2_def s_def
    proof (rule "1.IH" [OF True refl])
      show "unat (drop_bit 8 c + drop_bit 8 (out ! j + (c AND 0xff))) < 2 ^ 120"
        using c2_less by (simp only: c2_def s_def)
    qed (use j "1.prems"(3) in auto)
    have val2: "acc_val out2 + unat c2 * 256 ^ (j + 1) = acc_val out + unat c * 256 ^ j"
    proof -
      have "acc_val out2 + 256 ^ j * unat (out ! j) = acc_val out + 256 ^ j * (unat s mod 256)"
        using acc_val_update [OF j, of "s AND 0xff"] by (simp add: out2_def unat_and_255)
      moreover have "unat s mod 256 + 256 * unat c2 = unat (out ! j) + unat c"
        unfolding c2 using carry_split [OF s] .
      then have "256 ^ j * (unat s mod 256) + 256 ^ j * (256 * unat c2)
          = 256 ^ j * unat (out ! j) + 256 ^ j * unat c"
        by (simp flip: distrib_left)
      ultimately show ?thesis by (simp add: ac_simps) 
    qed
    have "unat (spread out2 (j + 1) c2 ! j) < 256" using ih out2_j by simp
    then show ?thesis
      using ih val2 len2 out2_nth by (auto simp: step le_eq_less_or_eq) (metis Suc_leI le_neq_implies_less)+
  qed
qed


text \<open>The outer loop: after \<open>i\<close> rows the accumulators stand for \<open>b\<close> times the low \<open>i\<close> bytes of
  \<open>a\<close>, up to a multiple of \<open>256 ^ 33\<close>; the rows done hold at most 510.\<close>

definition mul_inv :: "bytes \<Rightarrow> u128 \<Rightarrow> nat \<Rightarrow> u128 list \<Rightarrow> bool" where
  "mul_inv a b i out \<longleftrightarrow> length out = 33
     \<and> (\<forall>k < i. unat (out ! k) < 511) \<and> (\<forall>k. i \<le> k \<longrightarrow> k < 33 \<longrightarrow> unat (out ! k) < 256)
     \<and> (\<exists>lost. acc_val out + lost * 256 ^ 33 = le_to_nat (take i a) * unat b)"

lemma le_to_nat_take_Suc:
  "i < length a \<Longrightarrow> le_to_nat (take (Suc i) a) = le_to_nat (take i a) + 256 ^ i * unat (a ! i)"
  by (simp add: take_Suc_conv_app_nth le_to_nat_append min_def)

lemma mul_row_inv:
  assumes inv: "mul_inv a b i out" and i: "i < 32" and a: "length a = 32" and b: "unat b < 2 ^ 120"
  shows "mul_inv a b (Suc i) (mul_row a b i out)"
proof -
  define p where "p = (ucast (a ! i) :: u128) * b"
  define out1 where "out1 = out[i := out ! i + (p AND 0xff)]"
  have len: "length out = 33" using inv by (simp add: mul_inv_def)
  have ai: "unat (ucast (a ! i) :: u128) = unat (a ! i)"
    using unat_byte_less [of "a ! i"] by (simp add: unsigned_ucast_eq take_bit_nat_eq_self_iff)
  have "unat (a ! i) * unat b < 256 * 2 ^ 120"
    using unat_byte_less [of "a ! i"] b by (intro mult_strict_mono) simp_all
  then have p: "unat p = unat (a ! i) * unat b" and p_less: "unat p < 256 * 2 ^ 120"
    unfolding p_def by (subst unat_mult_small; simp add: ai)+
  have c_less: "unat (drop_bit 8 p) < 2 ^ 120"
    using p_less by (simp add: unat_shift_8 less_mult_imp_div_less)
  have small: "unat (out ! i) < 256" using inv i by (simp add: mul_inv_def)
  have o1i: "unat (out1 ! i) = unat (out ! i) + unat p mod 256"
    unfolding out1_def using small i len by (simp add: unat_add_small unat_and_255)
  have len1: "length out1 = 33" by (simp add: out1_def len)
  have val1: "acc_val out1 = acc_val out + 256 ^ i * (unat p mod 256)"
    using acc_val_update [of i out "out ! i + (p AND 0xff)"] o1i i len
    by (simp add: out1_def algebra_simps)
  have bytes: "unat (out1 ! k) < 256" if "i + 1 \<le> k" and "k < length out1" for k
    using that inv len1 by (simp add: out1_def mul_inv_def)
  have row: "mul_row a b i out = spread out1 (i + 1) (drop_bit 8 p)"
    by (simp add: mul_row_def Let_def p_def out1_def)
  note sp = spread_spec [OF c_less, of "i + 1" out1, folded row]
  have sp1: "length (mul_row a b i out) = 33"
    and sp2: "\<forall>k < i + 1. mul_row a b i out ! k = out1 ! k"
    and sp3: "\<forall>k. i + 1 \<le> k \<longrightarrow> k < 33 \<longrightarrow> unat (mul_row a b i out ! k) < 256"
    and sp4: "\<exists>lost. acc_val (mul_row a b i out) + lost * 256 ^ 33
      = acc_val out1 + unat (drop_bit 8 p) * 256 ^ (i + 1)"
    using sp bytes i len1 by auto
  have low: "unat (mul_row a b i out ! k) < 511" if "k < Suc i" for k
  proof (cases "k = i")
    case True
    have "unat p mod 256 < 256" by simp
    then have "unat (out1 ! i) < 511" using o1i small by linarith
    then show ?thesis using sp2 True by simp
  next
    case False
    then have "k < i" using that by simp
    then show ?thesis using sp2 inv by (simp add: out1_def mul_inv_def)
  qed
  obtain l1 where l1: "acc_val (mul_row a b i out) + l1 * 256 ^ 33
      = acc_val out1 + unat (drop_bit 8 p) * 256 ^ (i + 1)" using sp4 by blast
  obtain l0 where l0: "acc_val out + l0 * 256 ^ 33 = le_to_nat (take i a) * unat b"
    using inv by (auto simp: mul_inv_def)
  have "256 ^ i * (unat p mod 256) + unat (drop_bit 8 p) * 256 ^ (i + 1) = 256 ^ i * unat p"
  proof -
    have "256 ^ i * (unat p mod 256) + unat (drop_bit 8 p) * 256 ^ (i + 1)
        = 256 ^ i * (unat p mod 256 + 256 * (unat p div 256))"
      unfolding unat_shift_8 distrib_left by simp
    then show ?thesis by (simp only: mod_mult_div_eq)
  qed
  then have "acc_val (mul_row a b i out) + (l1 + l0) * 256 ^ 33 = le_to_nat (take i a) * unat b + 256 ^ i * unat p"
    using l0 l1 val1 by (simp add: algebra_simps)
  also have "\<dots> = le_to_nat (take (Suc i) a) * unat b"
    using a i by (simp add: le_to_nat_take_Suc p algebra_simps)
  finally have "\<exists>lost. acc_val (mul_row a b i out) + lost * 256 ^ 33 = le_to_nat (take (Suc i) a) * unat b"
    by (rule exI)
  then show ?thesis
    unfolding mul_inv_def using sp1 sp3 low by simp
qed

lemma mul_rows_inv:
  assumes "length a = 32" and "unat b < 2 ^ 120" and "n \<le> 32"
  shows "mul_inv a b n (fold (mul_row a b) [0..<n] (replicate 33 0))"
  using assms(3)
proof (induction n)
  case 0
  have "acc_val (replicate 33 0) = 0" by (simp add: eval_nat_numeral)
  then show ?case by (auto simp: mul_inv_def nth_replicate)
next
  case (Suc n)
  then show ?case using mul_row_inv [OF Suc.IH _ assms(1,2)] by simp
qed

lemma tidy_spec:
  assumes "\<forall>x \<in> set xs. unat x < 511" and "unat c < 256"
  shows "length (fst (tidy xs c)) = length xs \<and> unat (snd (tidy xs c)) < 256
    \<and> le_to_nat (fst (tidy xs c)) + 256 ^ length xs * unat (snd (tidy xs c)) = acc_val xs + unat c"
  using assms
proof (induction xs arbitrary: c)
  case Nil
  then show ?case by simp
next
  case (Cons x xs)
  have s: "unat (x + c) = unat x + unat c" using Cons.prems by (intro unat_add_small) simp
  have le: "unat (ucast ((x + c) AND 0xff) :: u8) = unat (x + c) mod 256"
    by (simp add: and_255 unsigned_ucast_eq unsigned_take_bit_eq take_bit_nat_def)
  have c: "unat (drop_bit 8 (x + c)) < 256"
    unfolding unat_shift_8 s using Cons.prems by (simp add: less_mult_imp_div_less)
  have d: "unat (x + c) mod 256 + 256 * unat (drop_bit 8 (x + c)) = unat x + unat c"
    by (simp only: unat_shift_8 mod_mult_div_eq s)
  obtain t u where t: "tidy xs (drop_bit 8 (x + c)) = (t, u)" by (cases "tidy xs (drop_bit 8 (x + c))")
  have "length t = length xs \<and> unat u < 256 \<and> le_to_nat t + 256 ^ length xs * unat u
      = acc_val xs + unat (drop_bit 8 (x + c))"
    using Cons.IH [OF _ c] Cons.prems t by simp
  then have "length t = length xs" and "unat u < 256"
    and "256 * (le_to_nat t + 256 ^ length xs * unat u) = 256 * (acc_val xs + unat (drop_bit 8 (x + c)))"
    by simp_all
  then show ?case using d by (simp add: t le distrib_left mult.left_commute [of _ 256] Let_def)
qed

text \<open>What the routine returns, in terms of the accumulators it ends with.\<close>

lemma mul_u256_u128_cases:
  assumes a: "length a = 32" and b: "unat b < 2 ^ 120"
  obtains v lost where "v + lost * 256 ^ 33 = be_to_nat a * unat b"
    and "v < 256 ^ 32 \<Longrightarrow> \<exists>r. mul_u256_u128 a b = Ok r \<and> length r = 32 \<and> be_to_nat r = v"
    and "\<not> v < 256 ^ 32 \<Longrightarrow> mul_u256_u128 a b = Err (RpcError ''build_job'' ''adjusted target overflow (> 2^256)'')"
proof -
  define out where "out = fold (mul_row (rev a) b) [0..<32] (replicate 33 0)"
  have inv: "mul_inv (rev a) b 32 out"
    unfolding out_def using a b by (intro mul_rows_inv) simp_all
  then have len: "length out = 33" by (simp add: mul_inv_def)
  obtain lost where lost: "acc_val out + lost * 256 ^ 33 = be_to_nat a * unat b"
    using inv a by (auto simp: mul_inv_def be_to_nat_def)
  have "\<forall>x \<in> set (take 32 out). unat x < 511"
    using inv len by (auto simp: mul_inv_def in_set_conv_nth)
  note td = tidy_spec [OF this, of 0]
  obtain le c where t: "tidy (take 32 out) 0 = (le, c)" by (cases "tidy (take 32 out) 0")
  have le: "length le = 32" and c: "unat c < 256"
    and v: "le_to_nat le + 256 ^ 32 * unat c = acc_val (take 32 out)"
    using td len t by simp_all
  have "drop 32 out = [out ! 32]" using len Cons_nth_drop_Suc [of 32 out] by simp
  then have "acc_val (take 32 out @ drop 32 out) = acc_val (take 32 out) + 256 ^ 32 * unat (out ! 32)"
    unfolding acc_val_append using len by simp
  then have "acc_val out = acc_val (take 32 out) + 256 ^ 32 * unat (out ! 32)"
    by (simp only: append_take_drop_id)
  moreover have o32: "unat (out ! 32) < 256" using inv by (simp add: mul_inv_def)
  have ov: "unat (out ! 32 + c) = unat (out ! 32) + unat c"
    using c o32 by (intro unat_add_small) simp
  ultimately have val: "acc_val out = le_to_nat le + 256 ^ 32 * unat (out ! 32 + c)"
    using v by (simp add: distrib_left)
  have le_less: "le_to_nat le < 256 ^ 32" using le_to_nat_less [of le] le by simp
  have res: "mul_u256_u128 a b = (if out ! 32 + c > 0
      then Err (RpcError ''build_job'' ''adjusted target overflow (> 2^256)'') else Ok (rev le))"
    by (simp add: mul_u256_u128_def Let_def t flip: out_def)
  show thesis
  proof (rule that [OF lost])
    assume "acc_val out < 256 ^ 32"
    then have "unat (out ! 32 + c) = 0" using val by (cases "unat (out ! 32 + c)") simp_all
    then have "out ! 32 + c = 0" by (simp add: unat_eq_0)
    then show "\<exists>r. mul_u256_u128 a b = Ok r \<and> length r = 32 \<and> be_to_nat r = acc_val out"
      using le val by (simp add: res be_to_nat_def)
  next
    assume "\<not> acc_val out < 256 ^ 32"
    then have "out ! 32 + c \<noteq> 0" using val le_less by auto
    then show "mul_u256_u128 a b = Err (RpcError ''build_job'' ''adjusted target overflow (> 2^256)'')"
      by (simp add: res word_gt_0)
  qed
qed

section \<open>The two readings of compact bits\<close>

abbreviation bits_exponent :: "u32 \<Rightarrow> nat" where "bits_exponent bits \<equiv> unat (drop_bit 24 bits)"
abbreviation bits_mantissa :: "u32 \<Rightarrow> nat" where "bits_mantissa bits \<equiv> unat (bits AND 0x00ffffff)"

lemma and_24: "(b :: u32) AND 0x00ffffff = take_bit 24 b"
  by (simp add: take_bit_eq_mask mask_eq_exp_minus_1)

lemma bits_mantissa_less: "bits_mantissa bits < 2 ^ 24"
  by (simp add: and_24 unsigned_take_bit_eq take_bit_nat_def)

lemma nat_to_le_add: "nat_to_le (a + b) x = nat_to_le a x @ nat_to_le b (x div 256 ^ a)"
  by (induction a arbitrary: x) (simp_all add: div_mult2_eq)

lemma nat_to_le_0: "nat_to_le n 0 = replicate n 0"
  by (induction n) simp_all

lemma bits_exponent_less: "bits_exponent bits < 256"
proof -
  have "take_bit 32 (unat bits) = unat bits"
    using unsigned_less [of bits, where ?'a = nat] by (simp add: take_bit_nat_eq_self_iff)
  then show ?thesis using unat_u32_less [of bits]
    by (simp add: unsigned_drop_bit_eq drop_bit_nat_def less_mult_imp_div_less)
qed

lemma exponent_and_ff: "(drop_bit 24 bits :: u32) AND 0xff = drop_bit 24 bits"
proof -
  have "take_bit 8 (bits_exponent bits) = bits_exponent bits"
    using bits_exponent_less [of bits] by (simp add: take_bit_nat_eq_self_iff)
  then have "unat (take_bit 8 (drop_bit 24 bits :: u32)) = bits_exponent bits"
    by (simp add: unsigned_take_bit_eq)
  then have "take_bit 8 (drop_bit 24 bits :: u32) = drop_bit 24 bits" by (simp only: unsigned_word_eqI)
  moreover have "(0xff :: u32) = mask 8" by (simp add: mask_eq_exp_minus_1)
  ultimately show ?thesis by (simp add: take_bit_eq_mask)
qed

lemma unat_ucast_32_64 [simp]: "unat (ucast (w :: u32) :: u64) = unat w"
  using unat_u32_less [of w] by (simp add: unsigned_ucast_eq take_bit_nat_eq_self_iff)

lemma bits_to_target_shift:
  assumes "3 \<le> bits_exponent bits"
  shows "bits_to_target bits = (if bits_exponent bits \<le> 32
    then replicate (32 - bits_exponent bits) 0 @ rev (nat_to_le 3 (bits_mantissa bits))
      @ replicate (bits_exponent bits - 3) 0
    else replicate 32 0)"
proof -
  define x where "x = (drop_bit 24 bits :: u32)"
  have xx: "x AND 0xff = x" unfolding x_def by (rule exponent_and_ff)
  have x: "unat x < 256" "3 \<le> unat x" using bits_exponent_less assms by (simp_all add: x_def)
  then have x3: "3 \<le> x" by (simp add: word_le_nat_alt)
  have sh: "unat (ucast (x - 3) :: u64) = unat x - 3"
    using x3 by (simp add: unat_sub)
  have m: "drop 5 (rev (u64_le (ucast (bits AND 0x00ffffff)))) = rev (nat_to_le 3 (bits_mantissa bits))"
  proof -
    have "bits_mantissa bits div 256 ^ 3 = 0" using bits_mantissa_less [of bits] by simp
    then show ?thesis using nat_to_le_add [of 3 5 "bits_mantissa bits"] by (simp add: u64_le_def nat_to_le_0)
  qed
  show ?thesis
  proof (cases "unat x \<le> 32")
    case True
    then have "(ucast (x - 3) :: u64) \<le> 29" using sh x by (simp add: word_le_nat_alt)
    then have st: "unat (29 - (ucast (x - 3) :: u64)) = 32 - unat x"
      using sh x by (simp add: unat_sub)
    then have le: "29 - (ucast (x - 3) :: u64) \<le> 29" using x by (simp add: word_le_nat_alt)
    have "copy_into (32 - unat x) (rev (nat_to_le 3 (bits_mantissa bits))) (replicate 32 0)
        = replicate (32 - unat x) 0 @ rev (nat_to_le 3 (bits_mantissa bits)) @ replicate (unat x - 3) 0"
      using x True by (simp add: copy_into_def min_def)
    then show ?thesis using True x3 le
      by (simp add: bits_to_target_def xx Let_def m st flip: x_def)
  next
    case False
    have "(29 - (ucast (x - 3) :: u64)) > 29"
    proof -
      have "unat (29 - (ucast (x - 3) :: u64)) = 2 ^ 64 + 29 - (unat x - 3)"
        using sh x False by (subst unat_sub_if') (simp add: word_le_nat_alt)
      then have "unat (29 - (ucast (x - 3) :: u64)) > 29" using x by simp
      then show ?thesis by (simp add: word_less_nat_alt)
    qed
    then have "\<not> 29 - (ucast (x - 3) :: u64) \<le> 29" by (simp only: not_le)
    then show ?thesis using False x3 by (simp add: bits_to_target_def xx Let_def flip: x_def)
  qed
qed

lemma bits_to_target_small:
  assumes "bits_exponent bits < 3"
  shows "length (bits_to_target bits) = 32
    \<and> be_to_nat (bits_to_target bits) = bits_mantissa bits div 256 ^ (3 - bits_exponent bits)"
proof -
  define x where "x = (drop_bit 24 bits :: u32)"
  have xx: "x AND 0xff = x" unfolding x_def by (rule exponent_and_ff)
  have x: "unat x < 3" using assms by (simp add: x_def)
  then have x3: "x \<le> 3" "\<not> 3 \<le> x" by (simp_all add: word_le_nat_alt)
  define y where "y = (drop_bit (unat (8 * (3 - x))) (ucast (bits AND 0x00ffffff)) :: u64)"
  have bt: "bits_to_target bits = copy_into 24 (rev (u64_le y)) (replicate 32 0)"
    unfolding bits_to_target_def x_def [symmetric] Let_def xx y_def using x3 by (simp only: if_False)
  have e: "unat (8 * (3 - x)) = 8 * (3 - unat x)"
    using x x3 by (subst unat_mult_small) (simp_all add: unat_sub)
  have "take_bit 64 (bits_mantissa bits) = bits_mantissa bits"
    using bits_mantissa_less [of bits] by (simp add: take_bit_nat_eq_self_iff)
  then have u: "unat y = bits_mantissa bits div 256 ^ (3 - unat x)"
    unfolding y_def unsigned_drop_bit_eq e drop_bit_nat_def by (simp add: power_mult)
  have "bits_mantissa bits div 256 ^ (3 - unat x) < 2 ^ 64"
    by (rule le_less_trans [OF div_le_dividend]) (use bits_mantissa_less [of bits] in simp)
  then show ?thesis
    by (simp add: bt copy_into_def be_to_nat_def u64_le_def le_to_nat_append u flip: x_def)
qed

lemma length_bits_to_target [simp]: "length (bits_to_target bits) = 32"
  using bits_to_target_shift [of bits] bits_to_target_small [of bits]
  by (cases "bits_exponent bits < 3") auto

lemma be_to_nat_bits_to_target:
  assumes "bits_exponent bits \<le> 32"
  shows "be_to_nat (bits_to_target bits) = (if bits_exponent bits < 3
    then bits_mantissa bits div 256 ^ (3 - bits_exponent bits)
    else bits_mantissa bits * 256 ^ (bits_exponent bits - 3))"
  using assms bits_mantissa_less [of bits] bits_to_target_small [of bits] bits_to_target_shift [of bits]
  by (auto simp: be_to_nat_def le_to_nat_append)

text \<open>C24: Multiplying a 32-byte target by an adjustment below \<open>2 ^ 120\<close>: a product below
  \<open>2 ^ 256\<close> is returned exactly, in 32 big-endian bytes; a product from \<open>2 ^ 256\<close> up to \<open>2 ^ 264\<close> is
  reported as an overflow; an \<open>Ok\<close> result is always the product modulo \<open>2 ^ 264\<close>.\<close>

theorem mul_target_exact:
  assumes "length a = 32" and "unat b < 2 ^ 120"
  shows "(be_to_nat a * unat b < 2 ^ 256 \<longrightarrow>
      (\<exists>r. mul_u256_u128 a b = Ok r \<and> length r = 32 \<and> be_to_nat r = be_to_nat a * unat b))
    \<and> (2 ^ 256 \<le> be_to_nat a * unat b \<and> be_to_nat a * unat b < 2 ^ 264 \<longrightarrow>
      mul_u256_u128 a b = Err (RpcError ''build_job'' ''adjusted target overflow (> 2^256)''))
    \<and> (\<forall>r. mul_u256_u128 a b = Ok r \<longrightarrow> be_to_nat r = be_to_nat a * unat b mod 2 ^ 264)"
proof (rule mul_u256_u128_cases [OF assms])
  fix v lost
  assume val: "v + lost * 256 ^ 33 = be_to_nat a * unat b"
    and ok: "v < 256 ^ 32 \<Longrightarrow> \<exists>r. mul_u256_u128 a b = Ok r \<and> length r = 32 \<and> be_to_nat r = v"
    and err: "\<not> v < 256 ^ 32 \<Longrightarrow> mul_u256_u128 a b = Err (RpcError ''build_job'' ''adjusted target overflow (> 2^256)'')"
  have exact: "v = be_to_nat a * unat b" if "be_to_nat a * unat b < 2 ^ 264"
    using that val by (cases lost) simp_all
  have "be_to_nat r = be_to_nat a * unat b mod 2 ^ 264" if "mul_u256_u128 a b = Ok r" for r
  proof -
    have "v < 256 ^ 32" using err that by (cases "v < 256 ^ 32") simp_all
    moreover have "be_to_nat a * unat b mod 2 ^ 264 = v mod 2 ^ 264"
      unfolding val [symmetric] by simp
    ultimately show ?thesis using ok that by simp
  qed
  moreover have "\<exists>r. mul_u256_u128 a b = Ok r \<and> length r = 32 \<and> be_to_nat r = be_to_nat a * unat b"
    if "be_to_nat a * unat b < 2 ^ 256"
  proof -
    have "v = be_to_nat a * unat b" using that by (intro exact) simp
    then show ?thesis using ok that by simp
  qed
  moreover have "mul_u256_u128 a b = Err (RpcError ''build_job'' ''adjusted target overflow (> 2^256)'')"
    if "2 ^ 256 \<le> be_to_nat a * unat b" and "be_to_nat a * unat b < 2 ^ 264"
    using exact that err by simp
  ultimately show ?thesis by blast
qed

theorem mul_target_exact_witness:
  "be_to_nat (replicate 31 0 @ [1]) * unat (7 :: u128) < 2 ^ 256
   \<and> (\<exists>r. mul_u256_u128 (replicate 31 0 @ [1]) 7 = Ok r \<and> be_to_nat r = 7)"
  using mul_target_exact [of "replicate 31 0 @ [1]" 7] by (auto simp: be_to_nat_def)

lemma mul_row_zero: "a ! i = 0 \<Longrightarrow> mul_row a b i out = out"
  by (simp add: mul_row_def Let_def spread.simps [of _ _ 0])

lemma fold_mul_row_zero: "(\<And>i. i \<in> set is \<Longrightarrow> a ! i = 0) \<Longrightarrow> fold (mul_row a b) is out = out"
  by (induction "is" arbitrary: out) (simp_all add: mul_row_zero)

text \<open>A target of one non-zero byte: only the last row does anything, and the part of its carry beyond the last
  accumulator is dropped.\<close>

lemma mul_u256_u128_top:
  assumes "unat b < 2 ^ 120"
  shows "mul_u256_u128 (x # replicate 31 0) b
    = (if unat x * unat b div 256 mod 256 = 0 then Ok (of_nat (unat x * unat b) # replicate 31 0)
       else Err (RpcError ''build_job'' ''adjusted target overflow (> 2^256)''))"
proof -
  define p where "p = (ucast x :: u128) * b"
  have x: "unat (ucast x :: u128) = unat x"
    using unat_byte_less [of x] by (simp add: unsigned_ucast_eq take_bit_nat_eq_self_iff)
  have "unat x * unat b < 256 * 2 ^ 120"
    using unat_byte_less [of x] assms by (intro mult_strict_mono) simp_all
  then have p: "unat p = unat x * unat b" unfolding p_def by (subst unat_mult_small; simp add: x)
  define c where "c = drop_bit 8 p AND 0xff"
  have c: "unat c = unat x * unat b div 256 mod 256"
    by (simp add: c_def unat_and_255 unat_shift_8 p)
  have a: "rev (x # replicate 31 0) = replicate 31 0 @ [x]" by simp
  have zero: "spread out 33 d = out" if "length out = 33" for out d using that by (subst spread.simps) simp
  have top: "mul_row (replicate 31 0 @ [x]) b 31 (replicate 33 0) = replicate 31 0 @ [p AND 0xff, c]"
  proof -
    have r: "(replicate 33 0)[31 := p AND 0xff] = replicate 31 0 @ [p AND 0xff, 0]" by (simp add: numeral_eq_Suc)
    have "spread (replicate 31 0 @ [p AND 0xff, 0]) 32 (drop_bit 8 p) = replicate 31 0 @ [p AND 0xff, c]"
      by (subst spread.simps) (auto simp: Let_def nth_append list_update_append zero c_def and.assoc word_gt_0)
    then show ?thesis by (simp add: mul_row_def Let_def nth_append r p_def [symmetric])
  qed
  have rows: "fold (mul_row (replicate 31 0 @ [x]) b) [0..<32] (replicate 33 0) = replicate 31 0 @ [p AND 0xff, c]"
  proof -
    have "[0..<Suc 31] = [0..<31] @ [31]" by (rule upt_Suc_append) simp
    then have "[0..<32] = [0..<31] @ [31::nat]" by (simp only: Suc_numeral Num.add_One Num.inc.simps)
    moreover have "fold (mul_row (replicate 31 0 @ [x]) b) [0..<31] (replicate 33 0) = replicate 33 0"
      by (rule fold_mul_row_zero) (simp add: nth_append)
    ultimately show ?thesis using top by (simp only: fold_append fold_simps o_apply)
  qed
  have td: "tidy (replicate 31 0 @ [p AND 0xff]) 0 = (replicate 31 0 @ [ucast p], 0)"
  proof -
    have "tidy (replicate n 0 @ [p AND 0xff]) 0 = (replicate n 0 @ [ucast (p AND 0xff)], drop_bit 8 (p AND 0xff))" for n
      by (induction n) (simp_all add: and.assoc)
    moreover have "drop_bit 8 (p AND 0xff) = 0" by (simp add: and_255 drop_bit_take_bit)
    moreover have "(ucast (p AND 0xff) :: u8) = ucast p" by (rule bit_word_eqI) (auto simp: and_255 bit_simps)
    ultimately show ?thesis by simp
  qed
  have u: "(ucast p :: u8) = of_nat (unat x * unat b)" by (simp flip: p)
  have "c > 0 \<longleftrightarrow> unat x * unat b div 256 mod 256 \<noteq> 0" using c by (simp add: word_gt_0 unat_eq_0 flip: c)
  then show ?thesis
    unfolding mul_u256_u128_def Let_def a rows by (simp add: td u nth_append)
qed

lemma bits_to_target_top:
  assumes "bits_exponent bits = 32" "bits_mantissa bits = unat x * 65536"
  shows "bits_to_target bits = x # replicate 31 0"
proof -
  have "unat x mod 256 = unat x" using unat_byte_less [of x] by simp
  then have n: "nat_to_le 3 (unat x * 65536) = [0, 0, x]" by (simp add: numeral_3_eq_3)
  have "bits_to_target bits = [x, 0, 0] @ replicate 29 0"
    by (subst bits_to_target_shift) (simp_all only: assms n, simp_all)
  then show ?thesis by (simp add: numeral_eq_Suc)
qed

text \<open>C33: Overflows by multiples of \<open>2 ^ 264\<close> are not noticed. For the compact targets whose one
  non-zero byte is the top one (exponent 32), and every adjustment below \<open>2 ^ 120\<close>, the routine
  decides on the product modulo \<open>2 ^ 264\<close>, not on the product: it returns \<open>Ok\<close> of that residue when the
  residue is below \<open>2 ^ 256\<close>, however large the product, and the overflow error otherwise. So
  \<open>0x20200000\<close> times \<open>2 ^ 19\<close> (the Triton pattern's 2 * 128 tile at k = 2048), which is \<open>2 ^ 272\<close>, gives
  \<open>Ok\<close> of the zero target.\<close>

theorem mul_overflow_missed:
  fixes x :: u8
  assumes "bits_exponent bits = 32" "bits_mantissa bits = unat x * 65536" "unat b < 2 ^ 120"
  defines "p \<equiv> be_to_nat (bits_to_target bits) * unat b"
  shows "p = unat x * unat b * 2 ^ 248
    \<and> mul_u256_u128 (bits_to_target bits) b
      = (if p mod 2 ^ 264 < 2 ^ 256 then Ok (rev (nat_to_le 32 (p mod 2 ^ 264)))
         else Err (RpcError ''build_job'' ''adjusted target overflow (> 2^256)''))"
proof -
  note t = bits_to_target_top [OF assms(1,2)]
  define q where "q = unat x * unat b"
  have "be_to_nat (x # replicate 31 0) = unat x * 2 ^ 248" by (simp add: be_to_nat_def le_to_nat_append)
  then have p: "p = q * 2 ^ 248" by (simp add: p_def t q_def)
  have m: "p mod 2 ^ 264 = q mod 2 ^ 16 * 2 ^ 248" using mult_mod_left [of q "2 ^ 16" "2 ^ 248"] by (simp add: p flip: power_add)
  have "q mod 2 ^ 16 < 2 ^ 8 \<longleftrightarrow> q div 256 mod 256 = 0"
  proof -
    have "q mod 2 ^ 16 = 256 * (q div 256 mod 256) + q mod 256" using mod_mult2_eq [of q 256 256] by simp
    then show ?thesis by (cases "q div 256 mod 256") simp_all
  qed
  note small = this
  have c8: "p mod 2 ^ 264 < 2 ^ 256 \<longleftrightarrow> q mod 2 ^ 16 < 2 ^ 8" unfolding m by simp
  note c = trans [OF c8 small]
  have "rev (nat_to_le 32 (p mod 2 ^ 264)) = of_nat q # replicate 31 0" if "q mod 2 ^ 16 < 2 ^ 8"
  proof -
    have "q mod 2 ^ 16 = q mod 256" using mod_mod_cancel [of 256 "2 ^ 16" q] that by simp
    then have "p mod 2 ^ 264 = le_to_nat (replicate 31 0 @ [of_nat q])" unfolding m by (simp add: le_to_nat_append unat_of_nat)
    moreover have "nat_to_le 32 (le_to_nat (replicate 31 0 @ [of_nat q])) = replicate 31 0 @ [of_nat q]"
      by (rule nat_to_le_le_to_nat_len) simp
    ultimately show ?thesis by simp
  qed
  then show ?thesis
    using mul_u256_u128_top [OF assms(3), of x] p c c8 by (simp add: t q_def [symmetric])
qed

lemma mul_overflow_missed_witness:
  "2 ^ 264 < be_to_nat (bits_to_target 0x20200000) * unat (2 ^ 19 :: u128)
   \<and> mul_u256_u128 (bits_to_target 0x20200000) (2 ^ 19) = Ok (replicate 32 0)
   \<and> mul_u256_u128 (bits_to_target 0x20200000) (2 ^ 10) = Err (RpcError ''build_job'' ''adjusted target overflow (> 2^256)'')"
proof -
  have e: "bits_exponent 0x20200000 = 32" "bits_mantissa 0x20200000 = unat (0x20 :: u8) * 65536" by simp_all
  have z: "nat_to_le 32 0 = replicate 32 0" by (rule nat_to_le_0)
  show ?thesis using mul_overflow_missed [OF e, of "2 ^ 19"] mul_overflow_missed [OF e, of "2 ^ 10"] by (simp add: z)
qed


section \<open>Miner and verifier agree on the target\<close>

lemma bits_sign_clear:
  assumes "bits AND 0x00800000 = (0 :: u32)"
  shows "(bits AND 0x00ffffff) AND 0x00800000 = 0" and "bits_mantissa bits < 2 ^ 23"
proof -
  have e: "(0x00800000 :: u32) = 2 ^ 23" by simp
  have nb: "\<not> bit bits 23" using assms and_exp_eq_0_iff_not_bit [of bits 23] by simp
  show "(bits AND 0x00ffffff) AND 0x00800000 = 0"
  proof -
    have "(bits AND 0x00ffffff) AND 0x00800000 = (bits AND 0x00800000) AND 0x00ffffff"
      by (simp only: and.assoc and.commute and.left_commute)
    then show ?thesis by (simp only: assms zero_and_eq)
  qed
  have "take_bit 24 bits = take_bit 23 bits"
  proof (rule bit_eqI)
    fix n
    show "bit (take_bit 24 bits) n = bit (take_bit 23 bits) n"
      using nb by (cases "n = 23") (auto simp: bit_take_bit_iff)
  qed
  then show "bits_mantissa bits < 2 ^ 23"
    by (simp add: and_24 unsigned_take_bit_eq take_bit_nat_def)
qed

lemma unat_nbits_to_difficulty:
  assumes "bits_exponent bits \<le> 32" and sign: "bits AND 0x00800000 = 0"
  shows "unat (nbits_to_difficulty bits) = (if bits_exponent bits < 3
    then bits_mantissa bits div 256 ^ (3 - bits_exponent bits)
    else bits_mantissa bits * 256 ^ (bits_exponent bits - 3))"
proof -
  define e m where "e = bits_exponent bits" and "m = bits AND (0x00ffffff :: u32)"
  have s: "m AND 0x00800000 = 0" and m: "unat m < 2 ^ 23"
    using bits_sign_clear [OF sign] by (simp_all add: m_def)
  have um: "unat (ucast m :: u256) = unat m"
    using m by (simp add: unsigned_ucast_eq take_bit_nat_eq_self_iff)
  have nb: "nbits_to_difficulty bits = (if m = 0 \<or> e = 0 then 0
    else if e \<le> 3 then drop_bit (8 * (3 - e)) (ucast m) else push_bit (8 * (e - 3)) (ucast m))"
    by (simp add: nbits_to_difficulty_def Let_def s flip: e_def m_def)
  have "unat (nbits_to_difficulty bits) = (if e < 3 then unat m div 256 ^ (3 - e) else unat m * 256 ^ (e - 3))"
  proof -
    consider "m = 0" | "e = 0" | "m \<noteq> 0" "0 < e" "e \<le> 3" | "m \<noteq> 0" "3 < e" by linarith
    then show ?thesis
    proof cases
      case 2
      then show ?thesis using m by (simp add: nb)
    next
      case 3
      have "take_bit 256 (unat m) = unat m" using m by (simp add: take_bit_nat_eq_self_iff)
      then have "unat (drop_bit (8 * (3 - e)) (ucast m) :: u256) = unat m div 256 ^ (3 - e)"
        by (simp add: unsigned_drop_bit_eq drop_bit_nat_def um power_mult)
      then show ?thesis using 3 by (cases "e = 3") (simp_all add: nb um)
    next
      case 4
      have "unat m * 256 ^ (e - 3) < 2 ^ 23 * 256 ^ (e - 3)" using m by simp
      also have "(256 :: nat) ^ (e - 3) \<le> 256 ^ 29"
        using assms(1) by (intro power_increasing) (simp_all add: e_def)
      finally have "unat m * 256 ^ (e - 3) < 2 ^ 256" by simp
      then have "unat (push_bit (8 * (e - 3)) (ucast m) :: u256) = unat m * 256 ^ (e - 3)"
        by (simp add: unsigned_push_bit_eq push_bit_nat_def um power_mult take_bit_nat_eq_self_iff)
      then show ?thesis using 4 by (simp add: nb)
    qed (simp add: nb)
  qed
  then show ?thesis by (simp add: e_def m_def)
qed

text \<open>C25: The miner's reading of the compact \<open>bits\<close> field (32 big-endian bytes) and the
  verifier's (a 256-bit integer) are the same number whenever the exponent is at most 32 and
  the sign bit of the mantissa is clear.\<close>

theorem miner_verifier_same_target:
  assumes "unat (drop_bit 24 bits :: u32) \<le> 32" and "bits AND 0x00800000 = 0"
  shows "length (bits_to_target bits) = 32
    \<and> be_to_nat (bits_to_target bits) = unat (nbits_to_difficulty bits)"
  using assms by (simp add: be_to_nat_bits_to_target unat_nbits_to_difficulty)

theorem miner_verifier_same_target_witness:
  "be_to_nat (bits_to_target 0x1d00ffff) = unat (nbits_to_difficulty 0x1d00ffff)"
  using miner_verifier_same_target [of "0x1d00ffff"] by simp

text \<open>Outside that range they differ: with the sign bit set the verifier's target is zero
  and the miner's is not, and with an exponent of 33 the miner's is zero (its start index
  wraps) while the verifier's, for the same bits, is not.\<close>

theorem miner_verifier_targets_differ:
  "nbits_to_difficulty 0x04800000 = 0 \<and> be_to_nat (bits_to_target 0x04800000) = 2 ^ 31
   \<and> unat (nbits_to_difficulty 0x21000100) = 2 ^ 248 \<and> be_to_nat (bits_to_target 0x21000100) = 0"
proof -
  have "be_to_nat (bits_to_target 0x04800000) = 2 ^ 31"
    by (subst be_to_nat_bits_to_target) simp_all
  moreover have "bits_to_target 0x21000100 = replicate 32 0"
    by (subst bits_to_target_shift) simp_all
  ultimately show ?thesis by (simp add: nbits_to_difficulty_def be_to_nat_def del: replicate.simps)
qed

section \<open>The verifier's difficulty bound\<close>

lemma minus_one_less: "0 < n \<Longrightarrow> n - 1 < x \<longleftrightarrow> n \<le> (x :: nat)"
  by linarith

lemma target_div_bound:
  fixes t f :: u256
  assumes "f \<noteq> 0"
  shows "t > (- 1) div f \<longleftrightarrow> 2 ^ 256 \<le> unat t * unat f"
proof -
  have f: "0 < unat f" using assms by (simp add: unat_gt_0)
  have max: "unat (- 1 :: u256) = 2 ^ 256 - 1" by (simp add: unsigned_minus_1_eq_mask mask_eq_exp_minus_1)
  have "t > (- 1) div f \<longleftrightarrow> (2 ^ 256 - 1) div unat f < unat t"
    by (simp only: word_less_nat_alt unat_div max)
  also have "\<dots> \<longleftrightarrow> 2 ^ 256 - 1 < unat t * unat f" using f by (rule div_less_iff_less_mult)
  also have "\<dots> \<longleftrightarrow> 2 ^ 256 \<le> unat t * unat f" by (rule minus_one_less) simp
  finally show ?thesis .
qed

lemma factors_bounded:
  assumes "0 < x * d" and "x * d < (n :: nat)"
  shows "0 < d" and "x < n" and "d < n"
proof -
  show "0 < d" using assms(1) by simp
  then have "x * 1 \<le> x * d" by (intro mult_le_mono2) simp
  then show "x < n" using assms(2) by linarith
  have "1 * d \<le> x * d" using assms(1) by (intro mult_le_mono1) simp
  then show "d < n" using assms(2) by linarith
qed

lemma extract_difficulty_bound_eq:
  assumes dpl: "dot_product_length c = Ok d"
    and f: "f = unat (pp_size (rows_pattern c)) * unat (pp_size (cols_pattern c)) * d"
    and f0: "0 < f" and f64: "f < 2 ^ 64"
  shows "extract_difficulty_bound bits c = Ok (if 2 ^ 256 \<le> unat (nbits_to_difficulty bits) * f then - 1
    else of_nat (unat (nbits_to_difficulty bits) * f))"
proof -
  define h w where "h = pp_size (rows_pattern c)" and "w = pp_size (cols_pattern c)"
  have d0: "0 < d" and hw: "unat h * unat w < 2 ^ 64"
    and dl: "d < 2 ^ 64"
    using factors_bounded [of "unat h * unat w" d "2 ^ 64"] f0 f64 f by (simp_all add: h_def w_def)
  have "unat (ucast h * ucast w :: u64) = unat h * unat w" using hw by (subst unat_mult_small) simp_all
  then have fac: "unat (ucast h * ucast w * of_nat d :: u64) = f"
    using f f64 dl by (subst unat_mult_small) (simp_all add: unat_of_nat h_def w_def)
  then have fac0: "ucast h * ucast w * of_nat d \<noteq> (0 :: u64)" using f0 by auto
  have fu: "unat (ucast (ucast h * ucast w * of_nat d :: u64) :: u256) = f"
    using fac f64 by (simp add: unsigned_ucast_eq take_bit_nat_eq_self_iff)
  then have fu0: "(ucast (ucast h * ucast w * of_nat d :: u64) :: u256) \<noteq> 0" using f0 by auto
  have "nbits_to_difficulty bits * ucast (ucast h * ucast w * of_nat d :: u64)
      = of_nat (unat (nbits_to_difficulty bits) * f)"
    by (simp flip: fu)
  then show ?thesis
    using fac0 by (simp add: extract_difficulty_bound_def Let_def dpl target_div_bound [OF fu0] fu
        flip: h_def w_def)
qed

lemma is_power_of_twoI: "r = 2 ^ i \<Longrightarrow> i < 64 \<Longrightarrow> is_power_of_two r"
  by (auto simp: is_power_of_two_def list_ex_iff)

lemma sane_facts:
  assumes "public_params_sanity_check p = Ok ()"
  obtains d where "dot_product_length (p_config p) = Ok d"
    and "d = pub_common_dim p - pub_common_dim p mod pub_rank p" and "0 < d"
    and "32 \<le> pub_h p * pub_w p" and "(pub_h p + pub_w p) * d \<le> 2 ^ 22"
proof -
  obtain d where d: "dot_product_length (p_config p) = Ok d"
    and rank: "32 \<le> pub_rank p" and k: "16 * pub_rank p \<le> pub_common_dim p"
    and hw: "32 \<le> pub_h p * pub_w p"
    and wis: "saturate (saturate (pub_h p + pub_w p) * d) \<le> 2 ^ 22"
    using assms by (auto simp: public_params_sanity_check_def Let_def res_bind_Ok_iff)
  have deq: "d = pub_common_dim p - pub_common_dim p mod pub_rank p"
    using d rank by (simp add: dot_product_length_def Let_def pub_rank_def pub_common_dim_def)
  have "pub_common_dim p mod pub_rank p < pub_rank p" using rank by simp
  then have d0: "0 < d" using deq k rank by linarith
  have "(pub_h p + pub_w p) * d \<le> 2 ^ 22"
  proof -
    have w: "saturate (pub_h p + pub_w p) * d \<le> 2 ^ 22"
      using wis by (simp add: saturate_def USIZE_MAX_def min_def split: if_splits)
    moreover have "saturate (pub_h p + pub_w p) = pub_h p + pub_w p"
    proof (rule ccontr)
      assume "\<not> ?thesis"
      then have "saturate (pub_h p + pub_w p) = USIZE_MAX" by (simp add: saturate_def min_def split: if_splits)
      then have "USIZE_MAX * d \<le> 2 ^ 22" using w by simp
      moreover have "USIZE_MAX * 1 \<le> USIZE_MAX * d" using d0 by (intro mult_le_mono2) simp
      ultimately show False by (simp add: USIZE_MAX_def)
    qed
    ultimately show ?thesis by simp
  qed
  then show thesis using that d deq d0 hw by blast
qed

lemma sane_extract:
  assumes sane: "public_params_sanity_check p = Ok ()"
    and f: "f = pub_h p * pub_w p * (pub_common_dim p - pub_common_dim p mod pub_rank p)"
  shows "extract_difficulty_bound bits (p_config p) = Ok (if 2 ^ 256 \<le> unat (nbits_to_difficulty bits) * f then - 1
    else of_nat (unat (nbits_to_difficulty bits) * f))"
proof -
  obtain d where d: "dot_product_length (p_config p) = Ok d"
    and deq: "d = pub_common_dim p - pub_common_dim p mod pub_rank p" and d0: "0 < d"
    and hw: "32 \<le> pub_h p * pub_w p" and wis: "(pub_h p + pub_w p) * d \<le> 2 ^ 22"
    using sane by (rule sane_facts)
  have "pub_h p * pub_w p * d \<le> (pub_h p + pub_w p) * (pub_h p + pub_w p) * (d * d)"
    using d0 by (intro mult_le_mono) simp_all
  also have "\<dots> = (pub_h p + pub_w p) * d * ((pub_h p + pub_w p) * d)" by (simp only: ac_simps)
  also have "\<dots> \<le> 2 ^ 22 * 2 ^ 22" using wis by (intro mult_le_mono) simp_all
  finally have f64: "f < 2 ^ 64" by (simp add: f flip: deq)
  have f0: "0 < f" using hw d0 by (cases "pub_h p * pub_w p") (simp_all add: f flip: deq)
  show ?thesis using d f0 f64
    by (intro extract_difficulty_bound_eq) (simp_all add: f pub_h_def pub_w_def flip: deq)
qed

text \<open>C15: For public parameters that pass the sanity check, the difficulty check cannot panic or
  wrap: it accepts exactly the hashes that, read as little-endian integers, are at most the
  block target times \<open>h * w * (k - k mod r)\<close>, or at most \<open>2 ^ 256 - 1\<close> when that product does not
  fit; every other hash is an error.\<close>

theorem sane_difficulty_check:
  assumes sane: "public_params_sanity_check p = Ok ()" and hash: "length (hash_jackpot p) = 32"
  shows "check_jackpot_difficulty p =
    (if le_to_nat (hash_jackpot p) \<le> min (2 ^ 256 - 1)
          (unat (nbits_to_difficulty (nbits (p_header p))) * (pub_h p * pub_w p
            * (pub_common_dim p - pub_common_dim p mod pub_rank p)))
     then Ok () else Err ''Jackpot condition not satisfied: hash does not meet difficulty target'')"
proof -
  define f where "f = pub_h p * pub_w p * (pub_common_dim p - pub_common_dim p mod pub_rank p)"
  define t where "t = unat (nbits_to_difficulty (nbits (p_header p)))"
  define hv where "hv = le_to_nat (hash_jackpot p)"
  have ext: "extract_difficulty_bound (nbits (p_header p)) (p_config p) = Ok (if 2 ^ 256 \<le> t * f then - 1 else of_nat (t * f))"
    unfolding t_def by (rule sane_extract [OF sane f_def])
  have hv: "hv < 2 ^ 256" using le_to_nat_less [of "hash_jackpot p"] hash by (simp add: hv_def)
  have "u256_from_le (hash_jackpot p) \<le> (if 2 ^ 256 \<le> t * f then - 1 else of_nat (t * f)) \<longleftrightarrow> hv \<le> min (2 ^ 256 - 1) (t * f)"
  proof (cases "2 ^ 256 \<le> t * f")
    case True
    then have "hv \<le> t * f" and "hv \<le> 2 ^ 256 - 1" using hv by linarith+
    then show ?thesis using True by simp
  next
    case False
    have "unat (of_nat hv :: u256) = hv" and "unat (of_nat (t * f) :: u256) = t * f"
      using hv False by (simp_all only: unat_of_nat) (simp_all add: take_bit_nat_eq_self_iff)
    then have "(of_nat hv :: u256) \<le> of_nat (t * f) \<longleftrightarrow> hv \<le> t * f" by (simp only: word_le_nat_alt)
    moreover have "hv \<le> 2 ^ 256 - 1" using hv by linarith
    ultimately show ?thesis using False by (simp add: u256_from_le_def flip: hv_def)
  qed
  then show ?thesis
    unfolding check_jackpot_difficulty_def check_jackpot_difficulty_with_nbits_def
    by (simp add: ext ensure_def f_def t_def flip: hv_def)
qed

definition sample_config :: mining_config where
  "sample_config = \<lparr>common_dim = 4096, rank = 128, mma_type = Int7xInt7ToInt32,
     rows_pattern = \<lparr>shape = [(8, 2), (16, 1), (16, 1)]\<rparr>,
     cols_pattern = \<lparr>shape = [(1, 2), (8, 16), (128, 1)]\<rparr>, reserved = RESERVED_VALUE\<rparr>"

definition sample_params :: public_params where
  "sample_params = \<lparr>p_header = \<lparr>hversion = 1, prev_block = replicate 32 0, merkle_root = replicate 32 0,
       timestamp = 0, nbits = 0x1d00ffff\<rparr>, p_config = sample_config,
     hash_a = replicate 32 0, hash_b = replicate 32 0, hash_jackpot = replicate 32 0,
     p_m = 8192, p_n = 32768, t_rows = 0, t_cols = 0\<rparr>"

lemma sample_params_sane: "public_params_sanity_check sample_params = Ok ()"
proof -
  have "dot_product_length sample_config = Ok 4096"
    by (simp add: sample_config_def dot_product_length_def Let_def)
  moreover have "unat (pp_size (rows_pattern sample_config)) = 2" "unat (pp_size (cols_pattern sample_config)) = 32"
    by (simp_all add: sample_config_def pp_size_def)
  moreover have "pp_max (rows_pattern sample_config) = Ok 8" "pp_max (cols_pattern sample_config) = Ok 121"
    by code_simp+
  moreover have "is_power_of_two 128" by (rule is_power_of_twoI [of _ 7]) simp_all
  ultimately show ?thesis
    by (simp add: public_params_sanity_check_def Let_def sample_params_def pub_h_def pub_w_def pub_rank_def
        pub_common_dim_def saturate_def USIZE_MAX_def TILE_D_def TILE_H_def DWORD_SIZE_def)
      (simp add: sample_config_def)
qed

theorem sane_difficulty_check_witness:
  "public_params_sanity_check sample_params = Ok () \<and> check_jackpot_difficulty sample_params = Ok ()"
proof -
  have "hash_jackpot sample_params = replicate 32 0" by (simp add: sample_params_def)
  then show ?thesis using sample_params_sane sane_difficulty_check [OF sample_params_sane] by simp
qed

end
