(* ===== verification/Blake_Program.thy ===== *)
theory Blake_Program
  imports Noise Merkle_Tree Difficulty
begin

text \<open>
  The verifier's BLAKE3 (\<open>circuit/chip/blake3/blake3_compress.rs\<close>) and its hash program
  (\<open>circuit/chip/blake3/program.rs\<close>, all under \<open>deps/zk-pow/src\<close>): \<open>recursive_compilation\<close>
  turns the two matrices' keyed hash trees into a list of compressions that read the proved strips,
  some auxiliary blocks and some auxiliary chaining values, and \<open>evaluate_blake\<close> runs it.
\<close>

section \<open>The compression function\<close>

definition B3F_PARENT :: u8 where "B3F_PARENT = 4"
definition B3F_ROOT :: u8 where "B3F_ROOT = 8"
definition BLAKE3_MSG_LEN :: nat where "BLAKE3_MSG_LEN = 64"

record blake3_tweak =
  counter_low :: u32
  counter_high :: u16
  block_len :: u32
  tweak_flags :: u32

definition BLAKE3_IV :: "u32 list" where
  "BLAKE3_IV = [0x6A09E667, 0xBB67AE85, 0x3C6EF372, 0xA54FF53A, 0x510E527F, 0x9B05688C, 0x1F83D9AB, 0x5BE0CD19]"

definition BLAKE3_MSG_PERMUTATION :: "nat list" where
  "BLAKE3_MSG_PERMUTATION = [2, 6, 3, 10, 7, 0, 4, 13, 1, 11, 12, 5, 9, 14, 15, 8]"

text \<open>In place, along the two cycles of the permutation.\<close>

definition blake3_permute_msg :: "'a list \<Rightarrow> 'a list" where
  "blake3_permute_msg msg =
     (let t = msg ! 5;
          msg = msg[5 := msg ! 0]; msg = msg[0 := msg ! 2]; msg = msg[2 := msg ! 3]; msg = msg[3 := msg ! 10];
          msg = msg[10 := msg ! 12]; msg = msg[12 := msg ! 9]; msg = msg[9 := msg ! 11]; msg = msg[11 := t];
          t = msg ! 8;
          msg = msg[8 := msg ! 1]; msg = msg[1 := msg ! 6]; msg = msg[6 := msg ! 4]; msg = msg[4 := msg ! 7];
          msg = msg[7 := msg ! 13]; msg = msg[13 := msg ! 14]; msg = msg[14 := msg ! 15]
      in msg[15 := t])"

definition g_mix :: "nat \<Rightarrow> nat \<Rightarrow> nat \<Rightarrow> nat \<Rightarrow> u32 \<Rightarrow> u32 \<Rightarrow> u32 list \<Rightarrow> u32 list" where
  "g_mix a b c d mx my s =
     (let s = s[a := s ! a + s ! b + mx]; s = s[d := word_rotr 16 (s ! d XOR s ! a)];
          s = s[c := s ! c + s ! d]; s = s[b := word_rotr 12 (s ! b XOR s ! c)];
          s = s[a := s ! a + s ! b + my]; s = s[d := word_rotr 8 (s ! d XOR s ! a)];
          s = s[c := s ! c + s ! d]
      in s[b := word_rotr 7 (s ! b XOR s ! c)])"

definition blake_round :: "u32 list \<Rightarrow> nat list \<Rightarrow> u32 list \<Rightarrow> u32 list" where
  "blake_round m i s =
     (let s = g_mix 0 4 8 12 (m ! (i ! 0)) (m ! (i ! 1)) s; s = g_mix 1 5 9 13 (m ! (i ! 2)) (m ! (i ! 3)) s;
          s = g_mix 2 6 10 14 (m ! (i ! 4)) (m ! (i ! 5)) s; s = g_mix 3 7 11 15 (m ! (i ! 6)) (m ! (i ! 7)) s;
          s = g_mix 0 5 10 15 (m ! (i ! 8)) (m ! (i ! 9)) s; s = g_mix 1 6 11 12 (m ! (i ! 10)) (m ! (i ! 11)) s;
          s = g_mix 2 7 8 13 (m ! (i ! 12)) (m ! (i ! 13)) s
      in g_mix 3 4 9 14 (m ! (i ! 14)) (m ! (i ! 15)) s)"

definition MSG_SCHEDULE :: "nat list list" where
  "MSG_SCHEDULE =
     [[0, 1, 2, 3, 4, 5, 6, 7, 8, 9, 10, 11, 12, 13, 14, 15],
      [2, 6, 3, 10, 7, 0, 4, 13, 1, 11, 12, 5, 9, 14, 15, 8],
      [3, 4, 10, 12, 13, 2, 7, 14, 6, 5, 9, 0, 11, 15, 8, 1],
      [10, 7, 12, 9, 14, 3, 13, 15, 4, 0, 11, 2, 5, 8, 1, 6],
      [12, 13, 9, 11, 15, 10, 14, 8, 7, 2, 5, 3, 0, 1, 6, 4],
      [9, 14, 11, 5, 8, 12, 15, 1, 13, 3, 0, 10, 2, 6, 4, 7],
      [11, 15, 5, 0, 1, 9, 8, 6, 14, 10, 2, 12, 3, 4, 7, 13]]"

definition compress :: "u32 list \<Rightarrow> u32 list \<Rightarrow> u32 \<Rightarrow> u32 \<Rightarrow> u32 \<Rightarrow> u32 \<Rightarrow> u32 list" where
  "compress cv m ctr_low ctr_high len fl =
     (let s = fold (blake_round m) MSG_SCHEDULE (cv @ take 4 BLAKE3_IV @ [ctr_low, ctr_high, len, fl])
      in map (\<lambda>i. s ! i XOR s ! (i + 8)) [0..<8] @ map (\<lambda>i. s ! (i + 8) XOR cv ! i) [0..<8])"

definition words_le :: "nat \<Rightarrow> bytes \<Rightarrow> u32 list" where
  "words_le n bs = map (\<lambda>i. u32_from_le (subrange (i * 4) (i * 4 + 4) bs)) [0..<n]"

definition blake3_compress :: "bytes \<Rightarrow> bytes \<Rightarrow> blake3_tweak \<Rightarrow> bytes" where
  "blake3_compress msg cv_in tweak =
     (let state = compress (words_le 8 cv_in) (words_le 16 msg) (counter_low tweak) (ucast (counter_high tweak))
            (block_len tweak) (tweak_flags tweak)
      in concat (map u32_le (take 8 state)))"

text \<open>Each row of the schedule is the row before, permuted: the seven rounds with the precomputed
  schedule are seven rounds on the message permuted in place.\<close>

fun permuted_rounds :: "nat \<Rightarrow> u32 list \<Rightarrow> u32 list \<Rightarrow> u32 list" where
  "permuted_rounds 0 m s = s"
| "permuted_rounds (Suc r) m s = permuted_rounds r (blake3_permute_msg m) (blake_round m [0..<16] s)"

lemma list_16:
  assumes "length (m :: 'a list) = 16"
  obtains a0 a1 a2 a3 a4 a5 a6 a7 a8 a9 a10 a11 a12 a13 a14 a15
  where "m = [a0, a1, a2, a3, a4, a5, a6, a7, a8, a9, a10, a11, a12, a13, a14, a15]"
  using assms by (auto simp: numeral_eq_Suc length_Suc_conv)

lemma permute_msg:
  assumes "length m = 16"
  shows "blake3_permute_msg m = map (\<lambda>i. m ! i) BLAKE3_MSG_PERMUTATION"
  using assms by (elim list_16) (simp add: blake3_permute_msg_def BLAKE3_MSG_PERMUTATION_def)

lemma length_permute_msg [simp]: "length (blake3_permute_msg m) = length m"
  by (simp add: blake3_permute_msg_def Let_def)

lemma round_cong:
  assumes "\<And>j. j < 16 \<Longrightarrow> m ! (i ! j) = m' ! (i' ! j)"
  shows "blake_round m i = blake_round m' i'"
  by (rule ext) (simp add: blake_round_def assms)

lemma round_upt:
  assumes "length m = 16" "length i = 16" "\<forall>x \<in> set i. x < 16" 
  shows "blake_round m i = blake_round (map (\<lambda>x. m ! x) i) [0..<16]"
  using assms by (intro round_cong) simp

fun schedule_from :: "nat list \<Rightarrow> nat \<Rightarrow> nat list list" where
  "schedule_from row 0 = []"
| "schedule_from row (Suc n) = row # schedule_from (map (\<lambda>i. row ! i) BLAKE3_MSG_PERMUTATION) n"

lemma schedule_rows: "MSG_SCHEDULE = schedule_from [0..<16] 7"
  by code_simp

lemma fold_rows:
  "length row = 16 \<Longrightarrow>
   fold (\<lambda>i. blake_round (map f i) [0..<16]) (schedule_from row n) s = permuted_rounds n (map f row) s"
proof (induction n arbitrary: row s)
  case (Suc n)
  have "blake3_permute_msg (map f row) = map f (map (\<lambda>i. row ! i) BLAKE3_MSG_PERMUTATION)"
    using Suc.prems by (simp add: permute_msg BLAKE3_MSG_PERMUTATION_def)
  with Suc.IH [of "map (\<lambda>i. row ! i) BLAKE3_MSG_PERMUTATION"] Suc.prems show ?case
    by (simp add: BLAKE3_MSG_PERMUTATION_def)
qed simp

lemma schedule_rounds:
  assumes "length m = 16"
  shows "fold (blake_round m) MSG_SCHEDULE s = permuted_rounds 7 m s"
proof -
  have rows: "list_all (\<lambda>i. length i = 16 \<and> (\<forall>x \<in> set i. x < 16)) MSG_SCHEDULE" by (simp add: MSG_SCHEDULE_def)
  have step: "blake_round m i = blake_round (map (\<lambda>x. m ! x) i) [0..<16]" if "i \<in> set MSG_SCHEDULE" for i
    using rows that assms by (intro round_upt) (auto simp: list_all_iff)
  have "fold (blake_round m) MSG_SCHEDULE s = fold (\<lambda>i. blake_round (map (\<lambda>x. m ! x) i) [0..<16]) MSG_SCHEDULE s"
    using step by (intro fold_cong) simp_all
  also have "\<dots> = permuted_rounds 7 (map (\<lambda>x. m ! x) [0..<16]) s"
    unfolding schedule_rows by (rule fold_rows) simp
  also have "map (\<lambda>x. m ! x) [0..<16] = m" using assms map_nth [of m] by simp
  finally show ?thesis .
qed

text \<open>C20: The unrolled compression is the BLAKE3 specification's: for every sixteen-word message, its
  seven rounds with the precomputed message schedule equal seven rounds on a message that
  the in-place permutation permutes between rounds, and that permutation is the published one.\<close>

theorem compress_schedule:
  assumes "length m = 16"
  shows "fold (blake_round m) MSG_SCHEDULE s = permuted_rounds 7 m s
    \<and> blake3_permute_msg m = map (\<lambda>i. m ! i) BLAKE3_MSG_PERMUTATION"
  using schedule_rounds [OF assms] permute_msg [OF assms] ..

lemma compress_schedule_witness:
  "fold (blake_round [0, 1, 2, 3, 4, 5, 6, 7, 8, 9, 10, 11, 12, 13, 14, 15]) MSG_SCHEDULE [0]
     = permuted_rounds 7 [0, 1, 2, 3, 4, 5, 6, 7, 8, 9, 10, 11, 12, 13, 14, 15] [0]"
  using compress_schedule [of "[0, 1, 2, 3, 4, 5, 6, 7, 8, 9, 10, 11, 12, 13, 14, 15]" "[0]"] by simp

section \<open>Programs\<close>

record mat_dword_id =
  is_b_strip :: bool
  strip_idx :: nat
  idx_in_strip :: nat

type_synonym blake_msg = "mat_dword_id list"

definition contiguous :: "bool \<Rightarrow> nat \<Rightarrow> nat \<Rightarrow> blake_msg" where
  "contiguous b strip start = map (\<lambda>i. \<lparr>is_b_strip = b, strip_idx = strip, idx_in_strip = start + i * DWORD_SIZE\<rparr>) [0..<8]"

datatype cv_type = CvInstruction nat | CvAuxiliary nat

datatype message_type = MatrixLeaf blake_msg | AuxiliaryLeaf nat | ParentMsg cv_type cv_type

record blake_instruction =
  is_cv_key :: bool
  tweak :: blake3_tweak
  b_msg :: message_type
  is_hash_a :: bool
  is_hash_b :: bool

record blake_program =
  num_a_rows :: nat
  num_b_cols :: nat
  strip_length :: nat
  num_auxiliary_msgs :: nat
  num_auxiliary_cvs :: nat
  instructions :: "blake_instruction list"

record aux_msg_location =
  msg_global_start :: nat
  msg_is_b :: bool

record aux_cv_location =
  cv_global_start :: nat
  cv_global_end :: nat
  cv_is_b :: bool

text \<open>The three out-parameters of the compilation.\<close>

record compile_out =
  out_instructions :: "blake_instruction list"
  out_msgs :: "aux_msg_location list"
  out_cvs :: "aux_cv_location list"

text \<open>Its fixed arguments.\<close>

record compile_in =
  num_rows :: nat
  row_len :: nat
  hotspot_strips :: "u32 list"
  strip_len :: nat
  is_b_matrix :: bool

definition intervals_intersect :: "nat \<Rightarrow> nat \<Rightarrow> nat \<Rightarrow> nat \<Rightarrow> bool" where
  "intervals_intersect start_a end_a start_b end_b \<longleftrightarrow> start_a < end_b \<and> start_b < end_a"

definition push_instruction :: "bool \<Rightarrow> blake3_tweak \<Rightarrow> message_type \<Rightarrow> compile_out \<Rightarrow> compile_out" where
  "push_instruction key tw m out =
     out\<lparr>out_instructions := out_instructions out @
       [\<lparr>is_cv_key = key, tweak = tw, b_msg = m, is_hash_a = False, is_hash_b = False\<rparr>]\<rparr>"

text \<open>The strip that holds a block, with its index among the strips: the first that does.\<close>

fun find_hotspot :: "compile_in \<Rightarrow> nat \<Rightarrow> nat \<Rightarrow> u32 list \<Rightarrow> (nat \<times> nat) option" where
  "find_hotspot c msg_start i [] = None"
| "find_hotspot c msg_start i (strip # strips) =
     (let s = unat strip in
      if msg_start < s * row_len c \<or> msg_start \<ge> s * row_len c + strip_len c
      then find_hotspot c msg_start (i + 1) strips
      else Some (i, msg_start - s * row_len c))"

text \<open>The blocks of one chunk.\<close>

function compile_chunk :: "compile_in \<Rightarrow> nat \<Rightarrow> nat \<Rightarrow> nat \<Rightarrow> u8 \<Rightarrow> bool \<Rightarrow> compile_out \<Rightarrow> compile_out" where
  "compile_chunk c chunk_idx msg_start chunk_end root_flag is_first out =
     (if msg_start < chunk_end then
        let len = min (chunk_end - msg_start) BLAKE3_MSG_LEN;
            is_last = (msg_start + len = chunk_end);
            fl = B3F_KEYED_HASH OR (if is_first then B3F_CHUNK_START else 0)
                   OR (if is_last then B3F_CHUNK_END OR root_flag else 0);
            tw = \<lparr>counter_low = of_nat chunk_idx, counter_high = of_nat (chunk_idx div 2 ^ 32),
                  block_len = of_nat len, tweak_flags = ucast fl\<rparr>;
            out' = (case find_hotspot c msg_start 0 (hotspot_strips c) of
                Some (i, pos) \<Rightarrow> push_instruction is_first tw (MatrixLeaf (contiguous (is_b_matrix c) i pos)) out
              | None \<Rightarrow>
                  push_instruction is_first tw (AuxiliaryLeaf (length (out_msgs out)))
                    (out\<lparr>out_msgs := out_msgs out @ [\<lparr>msg_global_start = msg_start, msg_is_b = is_b_matrix c\<rparr>]\<rparr>))
        in compile_chunk c chunk_idx (msg_start + len) chunk_end root_flag False out'
      else out)"
  by pat_completeness auto
termination
  by (relation "measure (\<lambda>(_, _, msg_start, chunk_end, _). chunk_end - msg_start)")
     (auto simp: BLAKE3_MSG_LEN_def)

declare compile_chunk.simps [simp del]

definition last_instruction :: "compile_out \<Rightarrow> cv_type" where
  "last_instruction out = CvInstruction (length (out_instructions out) - 1)"

definition intersects_strips :: "compile_in \<Rightarrow> nat \<Rightarrow> nat \<Rightarrow> bool" where
  "intersects_strips c start stop =
     list_ex (\<lambda>strip. intervals_intersect start stop (unat strip * row_len c) (unat strip * row_len c + strip_len c))
       (hotspot_strips c)"

function recursive_compilation :: "compile_in \<Rightarrow> nat \<Rightarrow> nat \<Rightarrow> compile_out \<Rightarrow> cv_type \<times> compile_out" where
  "recursive_compilation c start stop out =
     (let is_root = (start = 0 \<and> stop = padded_chunk_len (num_rows c * row_len c));
          root_flag = (if is_root then B3F_ROOT else 0);
          intersects = intersects_strips c start stop
      in if \<not> intersects \<and> stop - start \<ge> CHUNK_LEN then
           (CvAuxiliary (length (out_cvs out)),
            out\<lparr>out_cvs := out_cvs out @ [\<lparr>cv_global_start = start, cv_global_end = stop, cv_is_b = is_b_matrix c\<rparr>]\<rparr>)
         else if stop - start \<le> CHUNK_LEN then
           let out' = compile_chunk c (start div CHUNK_LEN) start stop root_flag True out
           in (last_instruction out', out')
         else
           let mid = start + next_power_of_two (stop - start) div 2;
               (left_cv, out1) = recursive_compilation c start mid out;
               (right_cv, out2) = recursive_compilation c mid stop out1;
               out3 = push_instruction True \<lparr>counter_low = 0, counter_high = 0, block_len = of_nat BLAKE3_MSG_LEN,
                        tweak_flags = ucast (B3F_PARENT OR B3F_KEYED_HASH OR root_flag)\<rparr> (ParentMsg left_cv right_cv) out2
           in (last_instruction out3, out3))"
  by pat_completeness auto
termination
proof (relation "measure (\<lambda>(_, start, stop, _). stop - start)", goal_cases)
  case (2 c start stop out)
  then have "1 < stop - start" by (simp add: CHUNK_LEN_def)
  then obtain k where "2 ^ k < stop - start" "next_power_of_two (stop - start) div 2 = 2 ^ k"
    using next_power_of_two_ex by blast
  with 2 show ?case by simp
next
  case (3 c start stop out)
  then have "1 < stop - start" by (simp add: CHUNK_LEN_def)
  then obtain k where k: "2 ^ k < stop - start" "next_power_of_two (stop - start) div 2 = 2 ^ k"
    using next_power_of_two_ex by blast
  have "(0 :: nat) < 2 ^ k" by simp
  with k(1) have "stop - (start + 2 ^ k) < stop - start" by linarith
  with 3 k(2) show ?case by simp
qed simp

declare recursive_compilation.simps [simp del]

text \<open>\<open>BlakeProgram::new\<close>: an auxiliary value for a whole matrix is \<open>unreachable!\<close>.\<close>

definition mark_hash :: "(blake_instruction \<Rightarrow> blake_instruction) \<Rightarrow> cv_type \<Rightarrow> compile_out \<Rightarrow> (anyhow, compile_out) res" where
  "mark_hash mark cv out = (case cv of
      CvInstruction i \<Rightarrow> res_bind (nth_res (out_instructions out) i) (\<lambda>ins.
        Ok (out\<lparr>out_instructions := (out_instructions out)[i := mark ins]\<rparr>))
    | CvAuxiliary i \<Rightarrow> Panic)"

definition compile_a :: "public_params \<Rightarrow> nat \<Rightarrow> compile_in" where
  "compile_a p len = \<lparr>num_rows = unat (p_m p), row_len = pub_common_dim p, hotspot_strips = a_rows_indices p,
     strip_len = len, is_b_matrix = False\<rparr>"

definition compile_b :: "public_params \<Rightarrow> nat \<Rightarrow> compile_in" where
  "compile_b p len = \<lparr>num_rows = unat (p_n p), row_len = pub_common_dim p, hotspot_strips = b_cols_indices p,
     strip_len = len, is_b_matrix = True\<rparr>"

definition compile_matrix :: "compile_in \<Rightarrow> compile_out \<Rightarrow> cv_type \<times> compile_out" where
  "compile_matrix c out = recursive_compilation c 0 (padded_chunk_len (num_rows c * row_len c)) out"

definition blake_program_new ::
  "public_params \<Rightarrow> (anyhow, blake_program \<times> aux_msg_location list \<times> aux_cv_location list) res" where
  "blake_program_new p =
     res_bind (dot_product_length (p_config p)) (\<lambda>len.
     let (a_cv, out1) = compile_matrix (compile_a p len) \<lparr>out_instructions = [], out_msgs = [], out_cvs = []\<rparr> in
     res_bind (mark_hash (\<lambda>i. i\<lparr>is_hash_a := True\<rparr>) a_cv out1) (\<lambda>out2.
     let (b_cv, out3) = compile_matrix (compile_b p len) out2 in
     res_bind (mark_hash (\<lambda>i. i\<lparr>is_hash_b := True\<rparr>) b_cv out3) (\<lambda>out4.
     Ok (\<lparr>num_a_rows = pub_h p, num_b_cols = pub_w p, strip_length = len,
          num_auxiliary_msgs = length (out_msgs out4), num_auxiliary_cvs = length (out_cvs out4),
          instructions = out_instructions out4\<rparr>, out_msgs out4, out_cvs out4))))"

section \<open>Evaluation\<close>

record private_params =
  s_a :: "i8 list list"
  s_b :: "i8 list list"
  external_msgs :: "bytes list"
  external_cvs :: "bytes list"

definition read_dword_from_matrix :: "mm_slice \<Rightarrow> mat_dword_id \<Rightarrow> (anyhow, i8 list) res" where
  "read_dword_from_matrix strips d =
     res_bind (nth_res (if is_b_strip d then mm_b strips else mm_a strips) (strip_idx d)) (\<lambda>strip.
     if idx_in_strip d + DWORD_SIZE \<le> length strip
     then Ok (subrange (idx_in_strip d) (idx_in_strip d + DWORD_SIZE) strip) else Panic)"

definition read_blake_msg_from_matrix :: "mm_slice \<Rightarrow> blake_msg \<Rightarrow> (anyhow, i8 list) res" where
  "read_blake_msg_from_matrix strips m = res_bind (res_map (read_dword_from_matrix strips) m) (\<lambda>ds. Ok (concat ds))"

definition get_cv :: "private_params \<Rightarrow> bytes list \<Rightarrow> cv_type \<Rightarrow> (anyhow, bytes) res" where
  "get_cv priv cvs cv = (case cv of CvAuxiliary i \<Rightarrow> nth_res (external_cvs priv) i | CvInstruction i \<Rightarrow> nth_res cvs i)"

definition instruction_msg :: "private_params \<Rightarrow> bytes list \<Rightarrow> message_type \<Rightarrow> (anyhow, bytes) res" where
  "instruction_msg priv cvs m = (case m of
      MatrixLeaf d \<Rightarrow> res_bind (read_blake_msg_from_matrix \<lparr>mm_a = s_a priv, mm_b = s_b priv\<rparr> d)
        (\<lambda>bs. Ok (map ucast bs))
    | AuxiliaryLeaf i \<Rightarrow> nth_res (external_msgs priv) i
    | ParentMsg low high \<Rightarrow> res_bind (get_cv priv cvs low) (\<lambda>l. res_bind (get_cv priv cvs high) (\<lambda>h. Ok (l @ h))))"

definition eval_step :: "bytes \<Rightarrow> private_params \<Rightarrow> blake_instruction \<Rightarrow> bytes list \<Rightarrow> (anyhow, bytes list) res" where
  "eval_step key priv ins cvs =
     res_bind (if is_cv_key ins then Ok key else if cvs = [] then Panic else Ok (last cvs)) (\<lambda>cv_in.
     res_bind (instruction_msg priv cvs (b_msg ins)) (\<lambda>m.
     Ok (cvs @ [blake3_compress m cv_in (tweak ins)])))"

text \<open>The last marked instruction wins.\<close>

fun marked :: "(blake_instruction \<Rightarrow> bool) \<Rightarrow> blake_instruction list \<Rightarrow> bytes list \<Rightarrow> bytes option \<Rightarrow> bytes option" where
  "marked f (ins # is) (cv # cvs) h = marked f is cvs (if f ins then Some cv else h)"
| "marked f _ _ h = h"

definition evaluate_blake :: "blake_program \<Rightarrow> bytes \<Rightarrow> private_params \<Rightarrow> (anyhow, bytes \<times> bytes) res" where
  "evaluate_blake prog key priv =
     res_bind (ensure (length (s_a priv) = num_a_rows prog) ''ensure_eq failed'') (\<lambda>_.
     res_bind (ensure (length (s_b priv) = num_b_cols prog) ''ensure_eq failed'') (\<lambda>_.
     res_bind (res_fold (eval_step key priv) (instructions prog) []) (\<lambda>cvs.
     case (marked is_hash_a (instructions prog) cvs None, marked is_hash_b (instructions prog) cvs None) of
       (Some a, Some b) \<Rightarrow> Ok (a, b)
     | _ \<Rightarrow> Err ''Condition failed: hash_a.is_some() && hash_b.is_some()'')))"

lemma compile_chunk_length:
  "length (out_instructions out) + (if msg_start < stop then 1 else 0)
     \<le> length (out_instructions (compile_chunk c idx msg_start stop rf first out))"
proof (induction c idx msg_start stop rf first out rule: compile_chunk.induct)
  case (1 c idx msg_start stop rf first out)
  show ?case
  proof (cases "msg_start < stop")
    case True
    show ?thesis
      using 1 [OF True refl refl refl refl refl] True
      by (subst compile_chunk.simps, cases "find_hotspot c msg_start 0 (hotspot_strips c)")
         (auto simp: Let_def push_instruction_def split: if_splits)
  next
    case False
    then show ?thesis by (subst compile_chunk.simps) simp
  qed
qed

section \<open>The specification's hash\<close>

definition chunk_tweak :: "nat \<Rightarrow> nat \<Rightarrow> bool \<Rightarrow> blake3_tweak" where
  "chunk_tweak idx j root =
     \<lparr>counter_low = of_nat idx, counter_high = of_nat (idx div 2 ^ 32), block_len = 64,
      tweak_flags = ucast (B3F_KEYED_HASH OR (if j = 0 then B3F_CHUNK_START else 0)
        OR (if j = 15 then B3F_CHUNK_END OR (if root then B3F_ROOT else 0) else 0))\<rparr>"

text \<open>A whole chunk: sixteen blocks chained from the key.\<close>

definition chunk_value :: "bytes \<Rightarrow> bytes \<Rightarrow> nat \<Rightarrow> bool \<Rightarrow> bytes" where
  "chunk_value key chunk idx root =
     foldl (\<lambda>cv j. blake3_compress (subrange (64 * j) (64 * j + 64) chunk) cv (chunk_tweak idx j root)) key [0..<16]"

definition parent_tweak :: "bool \<Rightarrow> blake3_tweak" where
  "parent_tweak root =
     \<lparr>counter_low = 0, counter_high = 0, block_len = 64,
      tweak_flags = ucast (B3F_PARENT OR B3F_KEYED_HASH OR (if root then B3F_ROOT else 0))\<rparr>"

definition parent_value :: "bytes \<Rightarrow> bytes \<Rightarrow> bytes \<Rightarrow> bool \<Rightarrow> bytes" where
  "parent_value key l r root = blake3_compress (l @ r) key (parent_tweak root)"

text \<open>The left-balanced tree over the bytes from \<open>start\<close> to \<open>stop\<close>.\<close>

function tree_value :: "bytes \<Rightarrow> bytes \<Rightarrow> nat \<Rightarrow> nat \<Rightarrow> bool \<Rightarrow> bytes" where
  "tree_value key data start stop root =
     (if stop - start \<le> CHUNK_LEN then chunk_value key (subrange start stop data) (start div CHUNK_LEN) root
      else let mid = start + next_power_of_two (stop - start) div 2
           in parent_value key (tree_value key data start mid False) (tree_value key data mid stop False) root)"
  by pat_completeness auto
termination
proof (relation "measure (\<lambda>(_, _, start, stop, _). stop - start)", goal_cases)
  case (2 key data start stop root)
  then have "1 < stop - start" by (simp add: CHUNK_LEN_def)
  then obtain k where "2 ^ k < stop - start" "next_power_of_two (stop - start) div 2 = 2 ^ k"
    using next_power_of_two_ex by blast
  with 2 show ?case by simp
next
  case (3 key data start stop root)
  then have "1 < stop - start" by (simp add: CHUNK_LEN_def)
  then obtain k where k: "2 ^ k < stop - start" "next_power_of_two (stop - start) div 2 = 2 ^ k"
    using next_power_of_two_ex by blast
  have "(0 :: nat) < 2 ^ k" by simp
  with k(1) have "stop - (start + 2 ^ k) < stop - start" by linarith
  with 3 k(2) show ?case by simp
qed simp

declare tree_value.simps [simp del]

section \<open>Running a program\<close>

definition runs :: "bytes \<Rightarrow> private_params \<Rightarrow> compile_out \<Rightarrow> bytes list \<Rightarrow> bool" where
  "runs key priv out V \<longleftrightarrow> res_fold (eval_step key priv) (out_instructions out) [] = Ok V
     \<and> length V = length (out_instructions out)"

lemma runs_push:
  assumes "runs key priv out V" and "k \<or> V \<noteq> []"
    and "instruction_msg priv V m = Ok bs"
  shows "runs key priv (push_instruction k tw m out) (V @ [blake3_compress bs (if k then key else last V) tw])"
  using assms by (auto simp: runs_def push_instruction_def res_fold_append eval_step_def)

text \<open>What the private inputs have to supply: the blocks and the subtree values the compilation
  asks for, and the strips.\<close>

definition supplies :: "bytes \<Rightarrow> private_params \<Rightarrow> (bool \<Rightarrow> bytes) \<Rightarrow> compile_out \<Rightarrow> bool" where
  "supplies key priv D out \<longleftrightarrow>
     (\<forall>i < length (out_msgs out). i < length (external_msgs priv) \<and>
        (let l = out_msgs out ! i; x = msg_global_start l
         in external_msgs priv ! i = subrange x (x + 64) (D (msg_is_b l))))
   \<and> (\<forall>i < length (out_cvs out). i < length (external_cvs priv) \<and>
        (let l = out_cvs out ! i
         in external_cvs priv ! i = tree_value key (D (cv_is_b l)) (cv_global_start l) (cv_global_end l) False))"

definition grows :: "compile_out \<Rightarrow> compile_out \<Rightarrow> bool" where
  "grows out out' \<longleftrightarrow> (\<exists>is ms cs. out_instructions out' = out_instructions out @ is
     \<and> out_msgs out' = out_msgs out @ ms \<and> out_cvs out' = out_cvs out @ cs
     \<and> (\<forall>i \<in> set is. \<not> is_hash_a i \<and> \<not> is_hash_b i))"

lemma grows_refl [simp]: "grows out out"
  by (simp add: grows_def)

lemma grows_trans: "grows a b \<Longrightarrow> grows b c \<Longrightarrow> grows a c"
  unfolding grows_def by (elim exE conjE) auto

lemma supplies_mono: "grows out out' \<Longrightarrow> supplies key priv D out' \<Longrightarrow> supplies key priv D out"
  unfolding supplies_def grows_def Let_def by (elim exE conjE) (auto simp: nth_append)

lemma grows_push [simp]: "grows out (push_instruction k tw m out)"
  by (simp add: grows_def push_instruction_def)

definition strips_of :: "private_params \<Rightarrow> bool \<Rightarrow> i8 list list" where
  "strips_of priv b = (if b then s_b priv else s_a priv)"

definition strips_ok :: "private_params \<Rightarrow> (bool \<Rightarrow> bytes) \<Rightarrow> compile_in \<Rightarrow> bool" where
  "strips_ok priv D c \<longleftrightarrow>
     (let S = strips_of priv (is_b_matrix c); data = D (is_b_matrix c) in
      length S = length (hotspot_strips c) \<and>
      (\<forall>i < length S. unat (hotspot_strips c ! i) * row_len c + strip_len c \<le> length data \<and>
         S ! i = map ucast (subrange (unat (hotspot_strips c ! i) * row_len c)
                   (unat (hotspot_strips c ! i) * row_len c + strip_len c) data)))"

lemma find_hotspot_Some:
  "find_hotspot c p i0 strips = Some (i, pos) \<Longrightarrow>
   i0 \<le> i \<and> i < i0 + length strips \<and> pos < strip_len c \<and> p = unat (strips ! (i - i0)) * row_len c + pos"
proof (induction strips arbitrary: i0)
  case (Cons s strips)
  show ?case
  proof (cases "p < unat s * row_len c \<or> p \<ge> unat s * row_len c + strip_len c")
    case True
    with Cons.prems have "find_hotspot c p (i0 + 1) strips = Some (i, pos)" by (simp add: Let_def)
    from Cons.IH [OF this] have IH: "i0 + 1 \<le> i" "i < i0 + 1 + length strips" "pos < strip_len c"
      "p = unat (strips ! (i - (i0 + 1))) * row_len c + pos" by simp_all
    then have "i - i0 = Suc (i - (i0 + 1))" by simp
    with IH show ?thesis by simp
  next
    case False
    with Cons.prems show ?thesis by (auto simp: Let_def)
  qed
qed simp

lemma concat_subranges: "concat (map (\<lambda>k. subrange (a + k * d) (a + k * d + d) xs) [0..<n]) = subrange a (a + n * d) xs"
proof (induction n)
  case 0
  show ?case by (simp add: subrange_def)
next
  case (Suc n)
  have "subrange a (a + n * d) xs @ subrange (a + n * d) (a + n * d + d) xs = subrange a (a + n * d + d) xs"
    by (rule subrange_join) simp_all
  with Suc show ?case by (simp add: add.assoc add.commute [of d])
qed

lemma read_contiguous:
  assumes "i < length (strips_of priv b)" "pos + 64 \<le> length (strips_of priv b ! i)"
  shows "read_blake_msg_from_matrix \<lparr>mm_a = s_a priv, mm_b = s_b priv\<rparr> (contiguous b i pos)
    = Ok (subrange pos (pos + 64) (strips_of priv b ! i))"
proof -
  let ?s = "strips_of priv b ! i"
  have "res_map (read_dword_from_matrix \<lparr>mm_a = s_a priv, mm_b = s_b priv\<rparr>) (contiguous b i pos)
      = Ok (map (\<lambda>k. subrange (pos + k * 8) (pos + k * 8 + 8) ?s) [0..<8])"
    unfolding contiguous_def res_map_map
    by (rule res_map_all_Ok)
       (use assms in \<open>cases b; auto simp: read_dword_from_matrix_def nth_res_def strips_of_def DWORD_SIZE_def\<close>)
  moreover have "concat (map (\<lambda>k. subrange (pos + k * 8) (pos + k * 8 + 8) ?s) [0..<8]) = subrange pos (pos + 64) ?s"
    using concat_subranges [of pos 8 ?s 8] by simp
  ultimately show ?thesis by (simp add: read_blake_msg_from_matrix_def)
qed

lemma subrange_map: "subrange a b (map f xs) = map f (subrange a b xs)"
  by (simp add: subrange_def take_map drop_map)

lemma ucast_i8_back [simp]: "(ucast (ucast (x :: u8) :: i8) :: u8) = x"
  by transfer simp

text \<open>Rows and strips made of whole blocks.\<close>

definition blocks_ok :: "compile_in \<Rightarrow> bool" where
  "blocks_ok c \<longleftrightarrow> row_len c mod 64 = 0 \<and> strip_len c mod 64 = 0"

lemma matrix_block:
  assumes "strips_ok priv D c" "blocks_ok c" "find_hotspot c p 0 (hotspot_strips c) = Some (i, pos)" "p mod 64 = 0"
  shows "instruction_msg priv V (MatrixLeaf (contiguous (is_b_matrix c) i pos)) = Ok (subrange p (p + 64) (D (is_b_matrix c)))"
proof -
  let ?S = "strips_of priv (is_b_matrix c)" and ?base = "unat (hotspot_strips c ! i) * row_len c"
  from find_hotspot_Some [OF assms(3)] have i: "i < length (hotspot_strips c)" "pos < strip_len c" "p = ?base + pos"
    by auto
  have "pos mod 64 = 0"
    using assms(2,4) i(3) unfolding blocks_ok_def by (metis add.commute mod_0_imp_dvd dvd_add_left_iff dvd_mult dvd_imp_mod_0)
  with i(2) assms(2) have room: "pos + 64 \<le> strip_len c" unfolding blocks_ok_def by presburger
  from assms(1) i(1) have S: "i < length ?S" "?base + strip_len c \<le> length (D (is_b_matrix c))"
      "?S ! i = map ucast (subrange ?base (?base + strip_len c) (D (is_b_matrix c)))"
    unfolding strips_ok_def Let_def by auto
  then have "length (?S ! i) = strip_len c" by (simp add: length_subrange)
  with read_contiguous [OF S(1), of pos] room
  have "instruction_msg priv V (MatrixLeaf (contiguous (is_b_matrix c) i pos)) = Ok (map ucast (subrange pos (pos + 64) (?S ! i)))"
    by (simp add: instruction_msg_def)
  also have "map ucast (subrange pos (pos + 64) (?S ! i)) = subrange p (p + 64) (D (is_b_matrix c))"
    using room by (simp add: S(3) subrange_map o_def subrange_subrange i(3) add.assoc min_def)
  finally show ?thesis .
qed

lemma auxiliary_block:
  assumes "supplies key priv D out'"
    and "grows (push_instruction k tw m (out\<lparr>out_msgs := out_msgs out @ [\<lparr>msg_global_start = p, msg_is_b = b\<rparr>]\<rparr>)) out'"
  shows "instruction_msg priv V (AuxiliaryLeaf (length (out_msgs out))) = Ok (subrange p (p + 64) (D b))"
  using supplies_mono [OF assms(2,1)]
  by (auto simp: supplies_def push_instruction_def instruction_msg_def nth_res_def Let_def dest: spec [of _ "length (out_msgs out)"])

abbreviation block_step :: "bytes \<Rightarrow> nat \<Rightarrow> bool \<Rightarrow> bytes \<Rightarrow> nat \<Rightarrow> bytes" where
  "block_step chunk idx root cv j \<equiv> blake3_compress (subrange (64 * j) (64 * j + 64) chunk) cv (chunk_tweak idx j root)"

lemma compile_chunk_runs:
  fixes c D s idx root priv key
  defines "chunk \<equiv> subrange s (s + 1024) (D (is_b_matrix c))" and "rf \<equiv> (if root then B3F_ROOT else 0)"
  assumes env: "strips_ok priv D c" "blocks_ok c" "s mod 64 = 0" "j \<le> 16"
  shows "grows out (compile_chunk c idx (s + 64 * j) (s + 1024) rf (j = 0) out)
    \<and> (\<forall>V. runs key priv out V \<and> (j = 0 \<or> V \<noteq> []) \<and> supplies key priv D (compile_chunk c idx (s + 64 * j) (s + 1024) rf (j = 0) out)
        \<longrightarrow> (\<exists>W. runs key priv (compile_chunk c idx (s + 64 * j) (s + 1024) rf (j = 0) out) (V @ W) \<and> length W = 16 - j
             \<and> (j < 16 \<longrightarrow> last (V @ W) = foldl (block_step chunk idx root) (if j = 0 then key else last V) [j..<16])))"
  using env(4)
proof (induction "16 - j" arbitrary: j out)
  case 0
  then have "j = 16" by simp
  then show ?case by (subst (1 2 3) compile_chunk.simps) (auto intro: exI [of _ "[]"])
next
  case (Suc n)
  then have j: "j < 16" by simp
  define p where "p = s + 64 * j"
  define tw where "tw = chunk_tweak idx j root"
  define m where "m = (case find_hotspot c p 0 (hotspot_strips c) of
      Some (i, pos) \<Rightarrow> MatrixLeaf (contiguous (is_b_matrix c) i pos) | None \<Rightarrow> AuxiliaryLeaf (length (out_msgs out)))"
  define mid where "mid = (case find_hotspot c p 0 (hotspot_strips c) of
      Some (i, pos) \<Rightarrow> out | None \<Rightarrow> out\<lparr>out_msgs := out_msgs out @ [\<lparr>msg_global_start = p, msg_is_b = is_b_matrix c\<rparr>]\<rparr>)"
  define out1 where "out1 = push_instruction (j = 0) tw m mid"
  define fin where "fin = compile_chunk c idx (s + 64 * Suc j) (s + 1024) rf (Suc j = 0) out1"
  have unfold: "compile_chunk c idx (s + 64 * j) (s + 1024) rf (j = 0) out = fin"
  proof -
    have "s + 64 * j < s + 1024" "min (s + 1024 - (s + 64 * j)) 64 = 64" "s + 64 * j + 64 = s + 1024 \<longleftrightarrow> j = 15"
      using j by auto
    moreover have "fin = compile_chunk c idx (s + 64 * j + 64) (s + 1024) rf False out1"
      by (simp add: fin_def add.assoc add.commute [of 64])
    ultimately show ?thesis
      by (subst compile_chunk.simps, cases "find_hotspot c (s + 64 * j) 0 (hotspot_strips c)")
         (simp_all add: out1_def mid_def m_def p_def tw_def chunk_tweak_def rf_def BLAKE3_MSG_LEN_def Let_def split_def)
  qed
  have mid_V: "runs key priv mid V = runs key priv out V" for V
    by (simp add: mid_def runs_def split: option.splits prod.splits)
  have "grows out out1" by (auto simp: out1_def mid_def grows_def push_instruction_def split: option.splits)
  have IH: "grows out1 fin
    \<and> (\<forall>V. runs key priv out1 V \<and> (Suc j = 0 \<or> V \<noteq> []) \<and> supplies key priv D fin
        \<longrightarrow> (\<exists>W. runs key priv fin (V @ W) \<and> length W = 16 - Suc j
             \<and> (Suc j < 16 \<longrightarrow> last (V @ W) = foldl (block_step chunk idx root) (if Suc j = 0 then key else last V) [Suc j..<16])))"
    using Suc.hyps(1) [of "Suc j" out1] Suc.hyps(2) j unfolding fin_def by simp
  have step: "\<exists>W. runs key priv fin (V @ W) \<and> length W = 16 - j
      \<and> (j < 16 \<longrightarrow> last (V @ W) = foldl (block_step chunk idx root) (if j = 0 then key else last V) [j..<16])"
    if V: "runs key priv out V" "j = 0 \<or> V \<noteq> []" "supplies key priv D fin" for V
  proof -
    have block: "subrange p (p + 64) (D (is_b_matrix c)) = subrange (64 * j) (64 * j + 64) chunk"
      using j by (simp add: chunk_def subrange_subrange p_def add.assoc min_def)
    have "instruction_msg priv V m = Ok (subrange p (p + 64) (D (is_b_matrix c)))"
    proof (cases "find_hotspot c p 0 (hotspot_strips c)")
      case None
      then show ?thesis using auxiliary_block [OF V(3)] IH by (auto simp: m_def out1_def mid_def)
    next
      case (Some ip)
      moreover have "p mod 64 = 0" using env(3) by (simp add: p_def)
      ultimately show ?thesis using matrix_block [OF env(1,2)] by (cases ip) (simp add: m_def)
    qed
    with runs_push [of key priv mid V "j = 0" m _ tw] V(1,2)
    have r1: "runs key priv out1 (V @ [block_step chunk idx root (if j = 0 then key else last V) j])"
      by (simp add: mid_V out1_def tw_def block)
    with IH V(3) obtain W where W: "runs key priv fin ((V @ [block_step chunk idx root (if j = 0 then key else last V) j]) @ W)"
      "length W = 16 - Suc j"
      "Suc j < 16 \<longrightarrow> last ((V @ [block_step chunk idx root (if j = 0 then key else last V) j]) @ W)
         = foldl (block_step chunk idx root) (block_step chunk idx root (if j = 0 then key else last V) j) [Suc j..<16]"
      by auto
    have "last (V @ block_step chunk idx root (if j = 0 then key else last V) j # W)
       = foldl (block_step chunk idx root) (if j = 0 then key else last V) [j..<16]"
    proof (cases "Suc j < 16")
      case True
      with W(3) j show ?thesis by (simp add: upt_conv_Cons [of j 16])
    next
      case False
      with W(2) j show ?thesis by (simp add: upt_conv_Cons [of j 16])
    qed
    with W j show ?thesis
      by (intro exI [of _ "block_step chunk idx root (if j = 0 then key else last V) j # W"]) auto
  qed
  show ?case unfolding unfold using IH step grows_trans [OF \<open>grows out out1\<close>] by blast
qed

lemma chunk_gap:
  assumes "start mod 1024 = 0" "stop mod 1024 = 0" "start < (stop :: nat)"
  obtains n where "stop = start + 1024 * n" "0 < n"
proof -
  from assms obtain a b where ab: "start = 1024 * a" "stop = 1024 * b" by (auto elim!: dvdE simp: mod_eq_0_iff_dvd)
  with assms(3) have "stop = start + 1024 * (b - a)" "0 < b - a" by (simp_all add: algebra_simps)
  then show thesis by (rule that)
qed

lemma half_chunks:
  assumes "start mod 1024 = 0" "stop mod 1024 = 0" "1024 < stop - start"
  shows "(start + next_power_of_two (stop - start) div 2) mod 1024 = 0"
    and "start < start + next_power_of_two (stop - start) div 2"
    and "start + next_power_of_two (stop - start) div 2 < stop"
proof -
  have "1 < stop - start" using assms(3) by simp
  then obtain k where k: "2 ^ k < stop - start" "stop - start \<le> 2 ^ (k + 1)" "next_power_of_two (stop - start) div 2 = 2 ^ k"
    by (rule next_power_of_two_ex)
  have "start < stop" using assms(3) by simp
  then obtain n where "stop = start + 1024 * n" by (rule chunk_gap [OF assms(1,2)])
  then have "2048 \<le> stop - start" using assms(3) by simp
  with k(2) have "(2 :: nat) ^ 11 \<le> 2 ^ (k + 1)" by simp
  then have "11 \<le> k + 1" by (rule power_le_imp_le_exp [rotated]) simp
  then have "(2 :: nat) ^ 10 dvd 2 ^ k" by (intro le_imp_power_dvd) simp
  then have "(1024 :: nat) dvd 2 ^ k" by simp
  with assms(1) show "(start + next_power_of_two (stop - start) div 2) mod 1024 = 0" by (simp add: k(3) mod_eq_0_iff_dvd)
  have "(0 :: nat) < 2 ^ k" by simp
  with k(1) show "start < start + next_power_of_two (stop - start) div 2"
    "start + next_power_of_two (stop - start) div 2 < stop" unfolding k(3) by linarith+
qed

definition yields :: "bytes \<Rightarrow> private_params \<Rightarrow> (bool \<Rightarrow> bytes) \<Rightarrow> compile_out \<Rightarrow> cv_type \<Rightarrow> compile_out \<Rightarrow> bytes \<Rightarrow> bool" where
  "yields key priv D out cv out' v \<longleftrightarrow> grows out out'
    \<and> (\<forall>V. runs key priv out V \<and> supplies key priv D out' \<longrightarrow>
         (\<exists>W. runs key priv out' (V @ W) \<and> (\<forall>X. get_cv priv (V @ W @ X) cv = Ok v)))"

lemma last_instruction_value:
  assumes "runs key priv out' (V @ W)" "W \<noteq> []"
  shows "get_cv priv (V @ W @ X) (last_instruction out') = Ok (last (V @ W))"
proof -
  have "length (out_instructions out') = length (V @ W)" using assms(1) by (simp add: runs_def)
  moreover have "(V @ W @ X) ! (length (V @ W) - 1) = last (V @ W)"
    using assms(2) by (simp add: last_conv_nth nth_append)
  moreover have "length (V @ W) - 1 < length (V @ W @ X)" using assms(2) by (cases W) auto
  ultimately show ?thesis by (simp only: get_cv_def last_instruction_def nth_res_def cv_type.case if_True)
qed

lemma recursive_compilation_runs:
  assumes env: "strips_ok priv D c" "blocks_ok c"
    and "start mod 1024 = 0" "stop mod 1024 = 0" "start < stop" "stop \<le> padded_chunk_len (num_rows c * row_len c)"
    and "root \<longleftrightarrow> start = 0 \<and> stop = padded_chunk_len (num_rows c * row_len c)"
    and "root \<longrightarrow> intersects_strips c start stop"
  shows "yields key priv D out (fst (recursive_compilation c start stop out)) (snd (recursive_compilation c start stop out))
      (tree_value key (D (is_b_matrix c)) start stop root)
    \<and> (root \<longrightarrow> fst (recursive_compilation c start stop out) = last_instruction (snd (recursive_compilation c start stop out))
         \<and> length (out_instructions out) < length (out_instructions (snd (recursive_compilation c start stop out))))"
  using assms(3-8)
proof (induction "stop - start" arbitrary: start stop out root rule: less_induct)
  case less
  let ?total = "padded_chunk_len (num_rows c * row_len c)" and ?data = "D (is_b_matrix c)"
  let ?rf = "if start = 0 \<and> stop = ?total then B3F_ROOT else 0"
  consider (aux) "\<not> intersects_strips c start stop" | (chunk) "intersects_strips c start stop" "stop - start \<le> 1024"
    | (node) "intersects_strips c start stop" "1024 < stop - start" by linarith
  then show ?case
  proof cases
    case aux
    then have root: "\<not> root" using less.prems(6) by blast
    have "1024 \<le> stop - start" by (rule chunk_gap [OF less.prems(1-3)]) simp
    with aux have rc: "recursive_compilation c start stop out = (CvAuxiliary (length (out_cvs out)),
        out\<lparr>out_cvs := out_cvs out @ [\<lparr>cv_global_start = start, cv_global_end = stop, cv_is_b = is_b_matrix c\<rparr>]\<rparr>)"
      by (subst recursive_compilation.simps) (simp add: CHUNK_LEN_def)
    define fin where "fin = out\<lparr>out_cvs := out_cvs out @ [\<lparr>cv_global_start = start, cv_global_end = stop, cv_is_b = is_b_matrix c\<rparr>]\<rparr>"
    have "grows out fin" by (simp add: grows_def fin_def)
    moreover have "get_cv priv V (CvAuxiliary (length (out_cvs out))) = Ok (tree_value key ?data start stop root)"
      if "supplies key priv D fin" for V
    proof -
      have "length (out_cvs out) < length (out_cvs fin)" by (simp add: fin_def)
      with that have "length (out_cvs out) < length (external_cvs priv)"
        "external_cvs priv ! length (out_cvs out) = tree_value key ?data start stop False"
        unfolding supplies_def by (auto simp: fin_def Let_def)
      with root show ?thesis by (simp add: get_cv_def nth_res_def)
    qed
    moreover have "runs key priv fin V = runs key priv out V" for V by (simp add: runs_def fin_def)
    ultimately have "yields key priv D out (CvAuxiliary (length (out_cvs out))) fin (tree_value key ?data start stop root)"
      unfolding yields_def by (metis append_Nil2)
    with root show ?thesis unfolding rc fin_def [symmetric] by simp
  next
    case chunk
    obtain n where "stop = start + 1024 * n" "0 < n" by (rule chunk_gap [OF less.prems(1-3)])
    with chunk have stop: "stop = start + 1024" by simp
    define fin where "fin = compile_chunk c (start div 1024) start (start + 1024) ?rf True out"
    have rc: "recursive_compilation c start stop out = (last_instruction fin, fin)"
      using chunk by (subst recursive_compilation.simps) (simp add: CHUNK_LEN_def fin_def stop Let_def)
    have rf: "?rf = (if root then B3F_ROOT else 0)" using less.prems(5) by simp
    have "start mod 64 = 0" using less.prems(1) by (auto simp: mod_eq_0_iff_dvd intro: dvd_trans [of 64 1024])
    from compile_chunk_runs [OF env this, of 0 out "start div 1024" root key]
    have runs: "grows out fin" "\<And>V. runs key priv out V \<Longrightarrow> supplies key priv D fin \<Longrightarrow>
        \<exists>W. runs key priv fin (V @ W) \<and> length W = 16 \<and> last (V @ W) = chunk_value key (subrange start (start + 1024) ?data) (start div 1024) root"
      unfolding fin_def rf by (auto simp: chunk_value_def)
    have tv: "tree_value key ?data start stop root = chunk_value key (subrange start (start + 1024) ?data) (start div 1024) root"
      by (subst tree_value.simps) (simp add: CHUNK_LEN_def stop)
    have "\<exists>W. runs key priv fin (V @ W) \<and> (\<forall>X. get_cv priv (V @ W @ X) (last_instruction fin) = Ok (tree_value key ?data start stop root))"
      if V: "runs key priv out V" "supplies key priv D fin" for V
    proof -
      obtain W where W: "runs key priv fin (V @ W)" "length W = 16"
        "last (V @ W) = chunk_value key (subrange start (start + 1024) ?data) (start div 1024) root"
        using runs(2) [OF V] by blast
      then have "W \<noteq> []" by auto
      with W last_instruction_value [OF W(1)] show ?thesis by (auto simp: tv)
    qed
    moreover have "length (out_instructions out) < length (out_instructions fin)"
      using compile_chunk_length [of out start "start + 1024" c "start div 1024" ?rf True] by (auto simp: fin_def)
    ultimately show ?thesis using runs(1) unfolding rc yields_def by simp
  next
    case node
    define mid where "mid = start + next_power_of_two (stop - start) div 2"
    note mid = half_chunks [OF less.prems(1,2) node(2), folded mid_def]
    obtain l out1 where l: "recursive_compilation c start mid out = (l, out1)" by fastforce
    obtain r out2 where r: "recursive_compilation c mid stop out1 = (r, out2)" by fastforce
    define fin where "fin = push_instruction True (parent_tweak root) (ParentMsg l r) out2"
    have rc: "recursive_compilation c start stop out = (last_instruction fin, fin)"
      using node less.prems(5)
      by (subst recursive_compilation.simps)
         (simp add: CHUNK_LEN_def Let_def mid_def [symmetric] l r fin_def parent_tweak_def BLAKE3_MSG_LEN_def)
    let ?L = "tree_value key ?data start mid False" and ?R = "tree_value key ?data mid stop False"
    have tv: "tree_value key ?data start stop root = parent_value key ?L ?R root"
      using node by (subst tree_value.simps) (simp add: CHUNK_LEN_def mid_def Let_def)
    have yl: "yields key priv D out l out1 ?L"
      using less.hyps [of mid start False out] mid less.prems l by simp
    have yr: "yields key priv D out1 r out2 ?R"
      using less.hyps [of stop mid False out1] mid less.prems r by simp
    have g2: "grows out2 fin" by (simp add: fin_def)
    have "\<exists>W. runs key priv fin (V @ W) \<and> (\<forall>X. get_cv priv (V @ W @ X) (last_instruction fin) = Ok (tree_value key ?data start stop root))"
      if V: "runs key priv out V" "supplies key priv D fin" for V
    proof -
      have s2: "supplies key priv D out2" by (rule supplies_mono [OF g2 V(2)])
      then have s1: "supplies key priv D out1" using yr by (auto simp: yields_def intro: supplies_mono)
      from yl V(1) s1 obtain W1 where W1: "runs key priv out1 (V @ W1)" "\<And>X. get_cv priv (V @ W1 @ X) l = Ok ?L"
        unfolding yields_def by blast
      from yr W1(1) s2 obtain W2 where W2: "runs key priv out2 ((V @ W1) @ W2)" "\<And>X. get_cv priv ((V @ W1) @ W2 @ X) r = Ok ?R"
        unfolding yields_def by blast
      have "instruction_msg priv ((V @ W1) @ W2) (ParentMsg l r) = Ok (?L @ ?R)"
        using W1(2) [of W2] W2(2) [of "[]"] by (simp add: instruction_msg_def)
      from runs_push [OF W2(1) _ this, of True "parent_tweak root"]
      have run: "runs key priv fin (V @ (W1 @ W2 @ [tree_value key ?data start stop root]))"
        by (simp add: fin_def tv parent_value_def)
      from last_instruction_value [OF this] run show ?thesis by (intro exI conjI allI) auto
    qed
    moreover have "grows out fin"
      using yl yr g2 grows_trans unfolding yields_def by blast
    moreover have "length (out_instructions out) < length (out_instructions fin)"
      using yl yr by (auto simp: yields_def grows_def fin_def push_instruction_def)
    ultimately show ?thesis unfolding rc yields_def by simp
  qed
qed

section \<open>The crate's hash and the tree\<close>

text \<open>The documented behaviour of the \<open>blake3\<close> crate in keyed mode: its chunk, merge and whole-hash
  functions are those of the specification.\<close>

definition blake3_spec :: "blake3_lib \<Rightarrow> bytes \<Rightarrow> bool" where
  "blake3_spec B key \<longleftrightarrow> simd_law B key
     \<and> (\<forall>idx chunk. length chunk = 1024 \<and> idx < 2 ^ 48 \<longrightarrow>
          lib_chunk B (Some key) (of_nat idx * of_nat CHUNK_LEN) chunk = chunk_value key chunk idx False)
     \<and> (\<forall>chunk. length chunk = 1024 \<longrightarrow> lib_hash B (Some key) chunk = chunk_value key chunk 0 True)
     \<and> (\<forall>l r. lib_parent B (Some key) l r = parent_value key l r False)
     \<and> (\<forall>l r. lib_root B (Some key) l r = parent_value key l r True)"

lemma next_power_of_two_chunks:
  assumes "2 \<le> c"
  shows "next_power_of_two (1024 * c) div 2 = 1024 * (next_power_of_two c div 2)"
proof -
  have "1 < c" using assms by simp
  then obtain k where k: "2 ^ k < c" "c \<le> 2 ^ (k + 1)" "next_power_of_two c div 2 = 2 ^ k" by (rule next_power_of_two_ex)
  have "2 ^ (k + 10) < 1024 * c" "1024 * c \<le> 2 ^ (k + 10 + 1)" using k(1,2) by (simp_all add: power_add)
  from next_power_of_two_eq [OF this] k(3) show ?thesis by (simp add: power_add)
qed

lemma half_bounds: "2 \<le> c \<Longrightarrow> 0 < next_power_of_two c div 2 \<and> next_power_of_two c div 2 < c"
  using next_power_of_two_ex [of c] by (metis Suc_1 Suc_le_lessD zero_less_numeral zero_less_power)

lemma tree_value_balanced:
  assumes "blake3_spec B key" "length data = 1024 * n" "n < 2 ^ 48" "1 \<le> c" "s + c \<le> n"
  shows "tree_value key data (1024 * s) (1024 * (s + c)) False
    = balanced_cv B (with_key key) (\<lambda>i. chunk_cv B (with_key key) (subrange (i * 1024) (i * 1024 + 1024) data) (of_nat i)) s c"
  using assms(4,5)
proof (induction c arbitrary: s rule: less_induct)
  case (less c)
  show ?case
  proof (cases "c = 1")
    case True
    have "length (subrange (1024 * s) (1024 * s + 1024) data) = 1024"
      using less.prems(2) assms(2) True by (simp add: length_subrange)
    moreover have "s < 2 ^ 48" using less.prems assms(3) True by linarith
    ultimately have "lib_chunk B (Some key) (of_nat s * of_nat CHUNK_LEN) (subrange (1024 * s) (1024 * s + 1024) data)
        = chunk_value key (subrange (1024 * s) (1024 * s + 1024) data) s False"
      using assms(1) unfolding blake3_spec_def by blast
    with True show ?thesis
      by (subst tree_value.simps, subst balanced_cv.simps)
         (simp add: CHUNK_LEN_def chunk_cv_def with_key_def algebra_simps)
  next
    case False
    then have c2: "2 \<le> c" using less.prems(1) by simp
    define h where "h = next_power_of_two c div 2"
    have h: "0 < h" "h < c" using half_bounds [OF c2] by (simp_all add: h_def)
    have "next_power_of_two (1024 * (s + c) - 1024 * s) div 2 = 1024 * h"
      using next_power_of_two_chunks [OF c2] by (simp add: h_def right_diff_distrib' [symmetric])
    then have "tree_value key data (1024 * s) (1024 * (s + c)) False
      = parent_value key (tree_value key data (1024 * s) (1024 * (s + h)) False) (tree_value key data (1024 * (s + h)) (1024 * ((s + h) + (c - h))) False) False"
      using c2 h by (subst tree_value.simps) (simp add: CHUNK_LEN_def Let_def algebra_simps)
    also have "\<dots> = balanced_cv B (with_key key)
        (\<lambda>i. chunk_cv B (with_key key) (subrange (i * 1024) (i * 1024 + 1024) data) (of_nat i)) s c"
      using less.IH [of h s] less.IH [of "c - h" "s + h"] h less.prems assms(1) c2
      by (subst balanced_cv.simps) (simp add: h_def [symmetric] Let_def parent_cv_def with_key_def blake3_spec_def)
    finally show ?thesis .
  qed
qed

text \<open>The value of the whole range is the root of the Merkle tree.\<close>

lemma tree_value_root:
  assumes "blake3_spec B key" "length data = 1024 * n" "1 \<le> n" "n < 2 ^ 48"
  shows "tree_root (merkle_tree_new B data key) = Ok (tree_value key data 0 (1024 * n) True)"
proof (cases "n = 1")
  case True
  with assms(1,2) have "lib_hash B (Some key) data = chunk_value key data 0 True" by (simp add: blake3_spec_def)
  moreover have "subrange 0 1024 data = data" using assms(2) True by (simp add: subrange_def)
  ultimately show ?thesis
    using True assms(2)
    by (subst tree_value.simps) (auto simp: merkle_tree_new_def CHUNK_LEN_def tree_root_def nth_res_def hasher_hash_def with_key_def Let_def)
next
  case False
  then have n: "2 \<le> n" using assms(3) by simp
  define h where "h = next_power_of_two n div 2"
  have h: "0 < h" "h < n" using half_bounds [OF n] by (simp_all add: h_def)
  have "simd_law B key" using assms(1) by (simp add: blake3_spec_def)
  from tree_root_balanced [OF this _ n, of data] assms(2)
  have root: "tree_root (merkle_tree_new B data key) = Ok
    (let H = with_key key; half = next_power_of_two n div 2;
         leaf = (\<lambda>i. chunk_cv B H (subrange (i * 1024) (i * 1024 + 1024) data) (of_nat i))
     in root_cv B H (balanced_cv B H leaf 0 half) (balanced_cv B H leaf half (n - half)))" by simp
  have "tree_value key data 0 (1024 * n) True
      = parent_value key (tree_value key data (1024 * 0) (1024 * (0 + h)) False) (tree_value key data (1024 * h) (1024 * (h + (n - h))) False) True"
    using n h next_power_of_two_chunks [OF n] by (subst tree_value.simps) (simp add: CHUNK_LEN_def Let_def h_def)
  then show ?thesis
    using tree_value_balanced [OF assms(1,2,4), of h 0] tree_value_balanced [OF assms(1,2,4), of "n - h" h] h assms(1)
    by (simp add: root Let_def h_def [symmetric] root_cv_def with_key_def blake3_spec_def)
qed

section \<open>The program hashes the matrices\<close>

definition matrices :: "bytes \<Rightarrow> bytes \<Rightarrow> bool \<Rightarrow> bytes" where
  "matrices A B b = (if b then B else A)"

lemma padded_chunk_len_bounds: "n \<le> padded_chunk_len n" "padded_chunk_len n mod 1024 = 0" "0 < n \<Longrightarrow> 0 < padded_chunk_len n"
  "padded_chunk_len n \<le> n + 1023"
proof -
  have "(n + 1023) div 1024 * 1024 + (n + 1023) mod 1024 = n + 1023" by simp
  moreover have "(n + 1023) mod 1024 < 1024" by simp
  ultimately show "n \<le> padded_chunk_len n" "padded_chunk_len n \<le> n + 1023"
    unfolding padded_chunk_len_def CHUNK_LEN_def by simp_all
  show "padded_chunk_len n mod 1024 = 0" by (simp add: padded_chunk_len_def CHUNK_LEN_def)
  from \<open>n \<le> padded_chunk_len n\<close> show "0 < n \<Longrightarrow> 0 < padded_chunk_len n" by linarith
qed

lemma row_inside:
  assumes "unat (r :: u32) < m" "len \<le> k"
  shows "unat r * k + len \<le> m * k"
proof -
  have "unat r * k + k \<le> m * k" using assms(1) by (metis Suc_leI add.commute mult_Suc mult_le_mono1)
  with assms(2) show ?thesis by linarith
qed

lemma sane_strips:
  assumes "public_params_sanity_check p = Ok ()" "dot_product_length (p_config p) = Ok len"
  shows "0 < len" "len \<le> pub_common_dim p" "len mod 64 = 0" "pub_common_dim p mod 64 = 0"
    "0 < pub_common_dim p" "pub_common_dim p \<le> 2 ^ 16" "unat (p_m p) \<le> 2 ^ 24" "unat (p_n p) \<le> 2 ^ 24"
proof -
  let ?k = "pub_common_dim p" and ?r = "pub_rank p"
  from assms obtain i where f: "?r = 2 ^ i" "32 \<le> ?r" "?k mod 64 = 0" "16 * ?r \<le> ?k" "?k \<le> 2 ^ 16" "1024 \<le> ?k"
    "p_m p \<le> 0x1000000" "p_n p \<le> 0x1000000"
    by (auto simp: public_params_sanity_check_def Let_def res_bind_Ok_iff is_power_of_two_def list_ex_iff)
  from assms(2) f(2) have len: "len = ?k - ?k mod ?r"
    by (auto simp: dot_product_length_def Let_def pub_rank_def pub_common_dim_def)
  show "?k mod 64 = 0" "0 < ?k" "?k \<le> 2 ^ 16" using f by simp_all
  show "len \<le> ?k" using len by simp
  have "?k mod ?r < ?r" using f(2) by simp
  with len f(2,4) show "0 < len" by linarith
  from f(7,8) show "unat (p_m p) \<le> 2 ^ 24" "unat (p_n p) \<le> 2 ^ 24" by (simp_all add: word_le_nat_alt)
  have i: "5 \<le> i" using f(1,2) power_le_imp_le_exp [of "2 :: nat" 5 i] by simp
  show "len mod 64 = 0"
  proof (cases "i = 5")
    case True
    have "?k mod 32 = 0" using f(3) by (auto simp: mod_eq_0_iff_dvd intro: dvd_trans [of 32 64])
    with True f(1,3) len show ?thesis by simp
  next
    case False
    with i have "(2 :: nat) ^ 6 dvd 2 ^ i" by (intro le_imp_power_dvd) simp
    then have "64 dvd ?r" using f(1) by simp
    moreover have "64 dvd ?k" using f(3) by (simp add: mod_eq_0_iff_dvd)
    ultimately show ?thesis using len by (simp add: mod_eq_0_iff_dvd dvd_mod dvd_diff_nat)
  qed
qed

text \<open>Marking an instruction changes no value.\<close>

lemma eval_unmarked:
  "map (\<lambda>i. i\<lparr>is_hash_a := False, is_hash_b := False\<rparr>) is = map (\<lambda>i. i\<lparr>is_hash_a := False, is_hash_b := False\<rparr>) js
   \<Longrightarrow> res_fold (eval_step key priv) is V = res_fold (eval_step key priv) js V"
proof (induction "is" arbitrary: js V)
  case (Cons i "is")
  then obtain j js' where js: "js = j # js'" by (cases js) auto
  have "i\<lparr>is_hash_a := False, is_hash_b := False\<rparr> = j\<lparr>is_hash_a := False, is_hash_b := False\<rparr>" using Cons.prems js by simp
  then have "is_cv_key i = is_cv_key j" "tweak i = tweak j" "b_msg i = b_msg j"
    by (metis blake_instruction.select_convs blake_instruction.surjective blake_instruction.update_convs)+
  then have "eval_step key priv i W = eval_step key priv j W" for W by (simp add: eval_step_def)
  then show ?case using Cons js by (cases "eval_step key priv j V") simp_all
qed simp

lemma marked_at:
  "length cvs = length is \<Longrightarrow> i < length is \<Longrightarrow> \<forall>j < length is. f (is ! j) \<longleftrightarrow> j = i \<Longrightarrow> marked f is cvs h = Some (cvs ! i)"
proof (induction f "is" cvs h arbitrary: i rule: marked.induct)
  case (1 f ins "is" cv cvs h)
  show ?case
  proof (cases i)
    case 0
    have "\<forall>j < length is. \<not> f (is ! j)" using 1(4) 0 by auto
    then have "marked f is cvs (Some cv) = Some cv"
      using 1(2)
    proof (induction f "is" cvs "Some cv" rule: marked.induct)
      case (1 f ins "is" cv' cvs)
      then show ?case by (auto simp: nth_Cons split: nat.splits) (metis Suc_less_eq nth_Cons_Suc nth_Cons_0 zero_less_Suc)+
    qed auto
    with 0 1(4) show ?thesis by (auto dest: spec [of _ 0])
  next
    case (Suc k)
    have "\<forall>j < length is. f (is ! j) \<longleftrightarrow> j = k" using 1(4) Suc by auto
    moreover have "\<not> f ins" using 1(4) Suc by (auto dest: spec [of _ 0])
    ultimately show ?thesis using 1(1) [of k] 1(2,3) Suc by simp
  qed
qed auto

definition strips_from :: "public_params \<Rightarrow> nat \<Rightarrow> u32 list \<Rightarrow> bytes \<Rightarrow> i8 list list" where
  "strips_from p len rows data =
     map (\<lambda>r. map ucast (subrange (unat r * pub_common_dim p) (unat r * pub_common_dim p + len) data)) rows"

lemma strips_hit:
  assumes "0 < strip_len c" "strip_len c \<le> row_len c" "hotspot_strips c \<noteq> []"
    and "\<forall>r \<in> set (hotspot_strips c). unat r < num_rows c"
  shows "intersects_strips c 0 (padded_chunk_len (num_rows c * row_len c))" "0 < num_rows c * row_len c"
proof -
  obtain r where r: "r \<in> set (hotspot_strips c)" using assms(3) by (cases "hotspot_strips c") auto
  with assms(4) have "unat r * row_len c + strip_len c \<le> num_rows c * row_len c"
    by (intro row_inside assms(2)) simp
  moreover note pc = padded_chunk_len_bounds [of "num_rows c * row_len c"]
  ultimately have hit: "unat r * row_len c < padded_chunk_len (num_rows c * row_len c)" and "0 < num_rows c * row_len c"
    using assms(1) by linarith+
  then show "0 < num_rows c * row_len c" by simp
  show "intersects_strips c 0 (padded_chunk_len (num_rows c * row_len c))"
    using r hit assms(1) by (auto simp: intersects_strips_def intervals_intersect_def list_ex_iff)
qed

lemma compile_matrix_ok:
  assumes "strips_ok priv D c" "blocks_ok c" "0 < strip_len c" "strip_len c \<le> row_len c"
    and "hotspot_strips c \<noteq> []" "\<forall>r \<in> set (hotspot_strips c). unat r < num_rows c"
    and "compile_matrix c out = (cv, out')"
  shows "yields key priv D out cv out' (tree_value key (D (is_b_matrix c)) 0 (padded_chunk_len (num_rows c * row_len c)) True)"
    and "cv = last_instruction out'" "length (out_instructions out) < length (out_instructions out')"
proof -
  note pc = padded_chunk_len_bounds [of "num_rows c * row_len c"]
  from recursive_compilation_runs [OF assms(1,2) _ _ _ order.refl, of 0 True key out] pc strips_hit [OF assms(3-6)] assms(7)
  show "yields key priv D out cv out' (tree_value key (D (is_b_matrix c)) 0 (padded_chunk_len (num_rows c * row_len c)) True)"
    and "cv = last_instruction out'" "length (out_instructions out) < length (out_instructions out')"
    by (auto simp: compile_matrix_def)
qed

lemma runs_mark:
  assumes "i < length (out_instructions out)"
    and "\<And>x. (f x)\<lparr>is_hash_a := False, is_hash_b := False\<rparr> = x\<lparr>is_hash_a := False, is_hash_b := False\<rparr>"
  shows "runs key priv (out\<lparr>out_instructions := (out_instructions out)[i := f (out_instructions out ! i)]\<rparr>) V = runs key priv out V"
proof -
  let ?u = "\<lambda>x. x\<lparr>is_hash_a := False, is_hash_b := False\<rparr>"
  have "map ?u ((out_instructions out)[i := f (out_instructions out ! i)]) = map ?u (out_instructions out)"
    by (rule nth_equalityI) (use assms in \<open>auto simp: nth_list_update\<close>)
  from eval_unmarked [OF this] show ?thesis by (simp add: runs_def)
qed

text \<open>Public parameters for which both matrices have the proved rows.\<close>

definition rows_inside :: "public_params \<Rightarrow> bool" where
  "rows_inside p \<longleftrightarrow>
     a_rows_indices p \<noteq> [] \<and> length (a_rows_indices p) = pub_h p \<and> (\<forall>r \<in> set (a_rows_indices p). r < p_m p)
   \<and> b_cols_indices p \<noteq> [] \<and> length (b_cols_indices p) = pub_w p \<and> (\<forall>c \<in> set (b_cols_indices p). c < p_n p)"

lemma strips_okI:
  assumes "strips_of priv (is_b_matrix c) = strips_from p (strip_len c) (hotspot_strips c) (D (is_b_matrix c))"
    and "row_len c = pub_common_dim p" "strip_len c \<le> row_len c"
    and "\<forall>r \<in> set (hotspot_strips c). unat r < num_rows c" "num_rows c * row_len c \<le> length (D (is_b_matrix c))"
  shows "strips_ok priv D c"
proof -
  have "unat (hotspot_strips c ! i) * row_len c + strip_len c \<le> length (D (is_b_matrix c))"
    if "i < length (hotspot_strips c)" for i
    using row_inside [of "hotspot_strips c ! i" "num_rows c" "strip_len c" "row_len c"] that assms(3-5)
    by (meson nth_mem order.trans)
  with assms(1,2) show ?thesis by (simp add: strips_ok_def Let_def strips_from_def)
qed

lemma mark_last:
  assumes "cv = last_instruction out" "n < length (out_instructions out)"
  shows "mark_hash f cv out = Ok (out\<lparr>out_instructions := (out_instructions out)
      [length (out_instructions out) - 1 := f (out_instructions out ! (length (out_instructions out) - 1))]\<rparr>)"
proof -
  have "length (out_instructions out) - 1 < length (out_instructions out)" using assms(2) by simp
  then show ?thesis by (simp add: mark_hash_def assms(1) last_instruction_def nth_res_def)
qed

lemma marks_of_program:
  assumes "\<forall>i \<in> set is1. \<not> is_hash_a i \<and> \<not> is_hash_b i" "\<forall>i \<in> set is2. \<not> is_hash_a i \<and> \<not> is_hash_b i"
    and "is1 \<noteq> []" "is2 \<noteq> []"
  defines "ia \<equiv> length is1 - 1" and "ib \<equiv> length (is1 @ is2) - 1"
  defines "prog \<equiv> (is1[ia := (is1 ! ia)\<lparr>is_hash_a := True\<rparr>] @ is2)[ib := ((is1[ia := (is1 ! ia)\<lparr>is_hash_a := True\<rparr>] @ is2) ! ib)\<lparr>is_hash_b := True\<rparr>]"
  shows "\<forall>j < length prog. is_hash_a (prog ! j) \<longleftrightarrow> j = ia" "\<forall>j < length prog. is_hash_b (prog ! j) \<longleftrightarrow> j = ib"
    and "ia < length prog" "ib < length prog"
proof -
  have l: "length prog = length is1 + length is2" by (simp add: prog_def)
  have "0 < length is1" "0 < length is2" using assms(3,4) by simp_all
  then have i: "ia < length is1" "length is1 \<le> ib" "ib < length is1 + length is2"
    unfolding ia_def ib_def length_append by linarith+
  with l show "ia < length prog" "ib < length prog" by simp_all
  have base: "(is1[ia := (is1 ! ia)\<lparr>is_hash_a := True\<rparr>] @ is2) ! j =
     (if j = ia then (is1 ! ia)\<lparr>is_hash_a := True\<rparr> else (is1 @ is2) ! j)" if "j < length is1 + length is2" for j
    using that i by (auto simp: nth_append nth_list_update)
  have un: "\<not> is_hash_a ((is1 @ is2) ! j) \<and> \<not> is_hash_b ((is1 @ is2) ! j)" if "j < length is1 + length is2" for j
    using assms(1,2) that nth_mem [of j "is1 @ is2"] by auto
  have p: "prog ! j = (if j = ib then ((is1 @ is2) ! ib)\<lparr>is_hash_b := True\<rparr>
      else if j = ia then (is1 ! ia)\<lparr>is_hash_a := True\<rparr> else (is1 @ is2) ! j)" if "j < length is1 + length is2" for j
    using that i base [OF that] base [of ib] by (auto simp: prog_def nth_list_update simp del: list_update_append nth_append)
  have "is_hash_b (is1 ! ia) = False" using un [of ia] i by (simp add: nth_append)
  with p un i l show "\<forall>j < length prog. is_hash_a (prog ! j) \<longleftrightarrow> j = ia" "\<forall>j < length prog. is_hash_b (prog ! j) \<longleftrightarrow> j = ib"
    by auto
qed

lemma program_new:
  assumes sane: "public_params_sanity_check p = Ok ()" and inside: "rows_inside p"
    and len: "dot_product_length (p_config p) = Ok len"
  shows "\<exists>prog out. blake_program_new p = Ok (prog, out_msgs out, out_cvs out)
    \<and> num_a_rows prog = pub_h p \<and> num_b_cols prog = pub_w p \<and> instructions prog = out_instructions out
    \<and> (\<forall>key A B priv. length A = padded_chunk_len (unat (p_m p) * pub_common_dim p)
          \<and> length B = padded_chunk_len (unat (p_n p) * pub_common_dim p)
          \<and> s_a priv = strips_from p len (a_rows_indices p) A \<and> s_b priv = strips_from p len (b_cols_indices p) B
          \<and> supplies key priv (matrices A B) out
        \<longrightarrow> evaluate_blake prog key priv =
              Ok (tree_value key A 0 (length A) True, tree_value key B 0 (length B) True))"
proof -
  note st = sane_strips [OF sane len]
  define ca cb where "ca = compile_a p len" and "cb = compile_b p len"
  have ca: "row_len ca = pub_common_dim p" "strip_len ca = len" "hotspot_strips ca = a_rows_indices p"
      "num_rows ca = unat (p_m p)" "\<not> is_b_matrix ca"
    and cb: "row_len cb = pub_common_dim p" "strip_len cb = len" "hotspot_strips cb = b_cols_indices p"
      "num_rows cb = unat (p_n p)" "is_b_matrix cb"
    by (simp_all add: ca_def cb_def compile_a_def compile_b_def)
  have bl: "blocks_ok ca" "blocks_ok cb" using st by (simp_all add: blocks_ok_def ca cb)
  have rows: "\<forall>r \<in> set (hotspot_strips ca). unat r < num_rows ca" "\<forall>r \<in> set (hotspot_strips cb). unat r < num_rows cb"
    using inside by (auto simp: rows_inside_def ca cb word_less_nat_alt)
  have ne: "hotspot_strips ca \<noteq> []" "hotspot_strips cb \<noteq> []" using inside by (auto simp: rows_inside_def ca cb)
  have strips: "strips_ok priv (matrices A B) ca" "strips_ok priv (matrices A B) cb"
    if "length A = padded_chunk_len (unat (p_m p) * pub_common_dim p)" "length B = padded_chunk_len (unat (p_n p) * pub_common_dim p)"
      "s_a priv = strips_from p len (a_rows_indices p) A" "s_b priv = strips_from p len (b_cols_indices p) B" for priv A B
    using that st(2) rows padded_chunk_len_bounds(1)
    by (auto intro!: strips_okI simp: ca cb strips_of_def matrices_def)
  define out0 where "out0 = \<lparr>out_instructions = [], out_msgs = [], out_cvs = []\<rparr>"
  obtain av out1 where c1: "compile_matrix ca out0 = (av, out1)" by fastforce
  define ia where "ia = length (out_instructions out1) - 1"
  define out2 where "out2 = out1\<lparr>out_instructions := (out_instructions out1)[ia := (out_instructions out1 ! ia)\<lparr>is_hash_a := True\<rparr>]\<rparr>"
  obtain bv out3 where c2: "compile_matrix cb out2 = (bv, out3)" by fastforce
  define ib where "ib = length (out_instructions out3) - 1"
  define out4 where "out4 = out3\<lparr>out_instructions := (out_instructions out3)[ib := (out_instructions out3 ! ib)\<lparr>is_hash_b := True\<rparr>]\<rparr>"
  define prog where "prog = \<lparr>num_a_rows = pub_h p, num_b_cols = pub_w p, strip_length = len,
      num_auxiliary_msgs = length (out_msgs out4), num_auxiliary_cvs = length (out_cvs out4), instructions = out_instructions out4\<rparr>"
  define A0 B0 where "A0 = replicate (padded_chunk_len (unat (p_m p) * pub_common_dim p)) (0 :: u8)"
    and "B0 = replicate (padded_chunk_len (unat (p_n p) * pub_common_dim p)) (0 :: u8)"
  define priv0 where "priv0 = \<lparr>s_a = strips_from p len (a_rows_indices p) A0, s_b = strips_from p len (b_cols_indices p) B0,
      external_msgs = [], external_cvs = []\<rparr>"
  have s0: "strips_ok priv0 (matrices A0 B0) ca" "strips_ok priv0 (matrices A0 B0) cb"
    by (rule strips, simp_all add: A0_def B0_def priv0_def)+
  note A0 = compile_matrix_ok [OF s0(1) bl(1) _ _ ne(1) rows(1) c1] and B0 = compile_matrix_ok [OF s0(2) bl(2) _ _ ne(2) rows(2) c2]
  have la: "0 < length (out_instructions out1)" and av: "av = last_instruction out1" and g1: "grows out0 out1"
    using A0 st(1,2) by (simp_all add: ca out0_def yields_def)
  have lb: "length (out_instructions out2) < length (out_instructions out3)" and bv: "bv = last_instruction out3" and g3: "grows out2 out3"
    using B0 st(1,2) by (simp_all add: cb yields_def)
  have new: "blake_program_new p = Ok (prog, out_msgs out4, out_cvs out4)"
  proof -
    have m1: "mark_hash (\<lambda>i. i\<lparr>is_hash_a := True\<rparr>) av out1 = Ok out2"
      unfolding out2_def ia_def by (rule mark_last [OF av la])
    have m2: "mark_hash (\<lambda>i. i\<lparr>is_hash_b := True\<rparr>) bv out3 = Ok out4"
      unfolding out4_def ib_def by (rule mark_last [OF bv lb])
    show ?thesis
      by (simp add: blake_program_new_def len c1 c2 m1 m2 ca_def [symmetric] cb_def [symmetric] out0_def [symmetric]) (simp add: prog_def)
  qed
  obtain is2 where is2: "out_instructions out3 = out_instructions out2 @ is2" "\<forall>i \<in> set is2. \<not> is_hash_a i \<and> \<not> is_hash_b i"
    using g3 by (auto simp: grows_def)
  have is1: "\<forall>i \<in> set (out_instructions out1). \<not> is_hash_a i \<and> \<not> is_hash_b i"
    using g1 by (auto simp: grows_def out0_def)
  have ne1: "out_instructions out1 \<noteq> []" using la by simp
  have ne2: "is2 \<noteq> []" using lb is2(1) by auto
  have i4: "out_instructions out4 = ((out_instructions out1)[ia := (out_instructions out1 ! ia)\<lparr>is_hash_a := True\<rparr>] @ is2)
      [ib := (((out_instructions out1)[ia := (out_instructions out1 ! ia)\<lparr>is_hash_a := True\<rparr>] @ is2) ! ib)\<lparr>is_hash_b := True\<rparr>]"
    by (simp add: out4_def is2(1) out2_def)
  have ib: "ib = length (out_instructions out1 @ is2) - 1" by (simp add: ib_def is2(1) out2_def)
  note marks = marks_of_program [OF is1 is2(2) ne1 ne2, folded ia_def ib, folded i4]
  have "evaluate_blake prog key priv = Ok (tree_value key A 0 (length A) True, tree_value key B 0 (length B) True)"
    if lens: "length A = padded_chunk_len (unat (p_m p) * pub_common_dim p)" "length B = padded_chunk_len (unat (p_n p) * pub_common_dim p)"
      and priv: "s_a priv = strips_from p len (a_rows_indices p) A" "s_b priv = strips_from p len (b_cols_indices p) B"
      and sup: "supplies key priv (matrices A B) out4" for key A B priv
  proof -
    let ?ra = "tree_value key A 0 (length A) True" and ?rb = "tree_value key B 0 (length B) True"
    note sp = strips [OF lens priv]
    have ya: "yields key priv (matrices A B) out0 av out1 ?ra"
      using compile_matrix_ok(1) [OF sp(1) bl(1) _ _ ne(1) rows(1) c1] st(1,2) lens(1) by (simp add: ca matrices_def)
    have yb: "yields key priv (matrices A B) out2 bv out3 ?rb"
      using compile_matrix_ok(1) [OF sp(2) bl(2) _ _ ne(2) rows(2) c2] st(1,2) lens(2) by (simp add: cb matrices_def)
    have s3: "supplies key priv (matrices A B) out3" using sup by (simp add: supplies_def out4_def)
    then have "supplies key priv (matrices A B) out2" using g3 by (rule supplies_mono [rotated])
    then have s1: "supplies key priv (matrices A B) out1" by (simp add: supplies_def out2_def)
    have "runs key priv out0 []" by (simp add: runs_def out0_def)
    with ya s1 obtain V where V: "runs key priv out1 V" "\<And>X. get_cv priv (V @ X) av = Ok ?ra"
      unfolding yields_def by fastforce
    have "runs key priv out2 V" using V(1) runs_mark [of ia out1 "\<lambda>i. i\<lparr>is_hash_a := True\<rparr>"] la by (simp add: out2_def ia_def)
    with yb s3 obtain W where W: "runs key priv out3 (V @ W)" "\<And>X. get_cv priv (V @ W @ X) bv = Ok ?rb"
      unfolding yields_def by blast
    have r4: "runs key priv out4 (V @ W)"
      using W(1) runs_mark [of ib out3 "\<lambda>i. i\<lparr>is_hash_b := True\<rparr>"] lb by (simp add: out4_def ib_def)
    have lV: "length (V @ W) = length (out_instructions out4)" using r4 by (simp add: runs_def)
    have "(V @ W) ! ia = ?ra" "(V @ W) ! ib = ?rb"
      using V(2) [of W] W(2) [of "[]"] by (simp_all add: get_cv_def av bv last_instruction_def nth_res_def ia_def ib_def split: if_splits)
    then have "marked is_hash_a (out_instructions out4) (V @ W) None = Some ?ra"
        "marked is_hash_b (out_instructions out4) (V @ W) None = Some ?rb"
      using marked_at [OF lV marks(3) marks(1), of None] marked_at [OF lV marks(4) marks(2), of None] by simp_all
    moreover have "length (s_a priv) = pub_h p" "length (s_b priv) = pub_w p"
      using inside priv by (simp_all add: rows_inside_def strips_from_def)
    ultimately show ?thesis using r4 by (simp add: evaluate_blake_def prog_def runs_def)
  qed
  with new show ?thesis by (intro exI [of _ prog] exI [of _ out4]) (auto simp: prog_def)
qed

text \<open>The private inputs a prover takes from the two matrices for the auxiliary locations of a program.\<close>

definition opened_inputs ::
  "public_params \<Rightarrow> nat \<Rightarrow> bytes \<Rightarrow> bytes \<Rightarrow> bytes \<Rightarrow> aux_msg_location list \<Rightarrow> aux_cv_location list \<Rightarrow> private_params" where
  "opened_inputs p len key A B msgs cvs =
     \<lparr>s_a = strips_from p len (a_rows_indices p) A, s_b = strips_from p len (b_cols_indices p) B,
      external_msgs = map (\<lambda>l. subrange (msg_global_start l) (msg_global_start l + 64) (matrices A B (msg_is_b l))) msgs,
      external_cvs = map (\<lambda>l. tree_value key (matrices A B (cv_is_b l)) (cv_global_start l) (cv_global_end l) False) cvs\<rparr>"

lemma opened_supplies: "supplies key (opened_inputs p len key A B (out_msgs out) (out_cvs out)) (matrices A B) out"
  by (simp add: supplies_def opened_inputs_def Let_def)

lemma matrix_root:
  assumes "blake3_spec lib key" "length D = padded_chunk_len (unat m * k)" "k \<le> 2 ^ 16" "unat (m :: u32) \<le> 2 ^ 24" "0 < unat m" "0 < k"
  shows "tree_root (merkle_tree_new lib D key) = Ok (tree_value key D 0 (length D) True)"
proof -
  define n where "n = length D div 1024"
  note pc = padded_chunk_len_bounds [of "unat m * k", folded assms(2)]
  have n: "length D = 1024 * n" using pc(2) mult_div_mod_eq [of 1024 "length D"] by (simp add: n_def)
  have "unat m * k \<le> 2 ^ 24 * 2 ^ 16" using assms(3,4) by (intro mult_mono) simp_all
  with pc(4) have "n < 2 ^ 48" by (simp add: n_def)
  moreover have "1 \<le> n" using pc(3) assms(5,6) n by (cases n) simp_all
  ultimately show ?thesis using tree_value_root [OF assms(1) n] n by simp
qed

text \<open>C8: The BLAKE3 program hashes the matrices: for public parameters that pass the sanity check and whose proved
  rows and columns lie inside the matrices, the compiler of the circuit's program succeeds, and evaluating
  the program on the opened strips, the auxiliary messages and the auxiliary chaining values that a
  prover holding both padded matrices takes from them yields the two Merkle roots of the matrices.\<close>

theorem blake_program_hashes:
  assumes "blake3_spec lib key" "public_params_sanity_check p = Ok ()" "rows_inside p"
    and "length A = padded_chunk_len (unat (p_m p) * pub_common_dim p)"
    and "length B = padded_chunk_len (unat (p_n p) * pub_common_dim p)"
  shows "\<exists>len prog msgs cvs ra rb. dot_product_length (p_config p) = Ok len
    \<and> blake_program_new p = Ok (prog, msgs, cvs)
    \<and> evaluate_blake prog key (opened_inputs p len key A B msgs cvs) = Ok (ra, rb)
    \<and> tree_root (merkle_tree_new lib A key) = Ok ra \<and> tree_root (merkle_tree_new lib B key) = Ok rb"
proof -
  obtain len where len: "dot_product_length (p_config p) = Ok len"
    using assms(2) by (auto simp: public_params_sanity_check_def Let_def res_bind_Ok_iff)
  note s = sane_strips [OF assms(2) len]
  have pos: "0 < unat (p_m p)" "0 < unat (p_n p)"
    using assms(3) by (auto simp: rows_inside_def neq_Nil_conv word_less_nat_alt)
  obtain prog out where P: "blake_program_new p = Ok (prog, out_msgs out, out_cvs out)"
    and run: "\<forall>key A B priv. length A = padded_chunk_len (unat (p_m p) * pub_common_dim p)
          \<and> length B = padded_chunk_len (unat (p_n p) * pub_common_dim p)
          \<and> s_a priv = strips_from p len (a_rows_indices p) A \<and> s_b priv = strips_from p len (b_cols_indices p) B
          \<and> supplies key priv (matrices A B) out
        \<longrightarrow> evaluate_blake prog key priv = Ok (tree_value key A 0 (length A) True, tree_value key B 0 (length B) True)"
    using program_new [OF assms(2,3) len] by (elim exE conjE)
  have "evaluate_blake prog key (opened_inputs p len key A B (out_msgs out) (out_cvs out)) =
       Ok (tree_value key A 0 (length A) True, tree_value key B 0 (length B) True)"
    by (rule run [rule_format]) (simp add: assms(4,5) opened_supplies, simp add: opened_inputs_def)
  with len P matrix_root [OF assms(1,4) s(6,7) pos(1) s(5)] matrix_root [OF assms(1,5) s(6,8) pos(2) s(5)]
  show ?thesis by (intro exI conjI)
qed

text \<open>The library that computes the specification's values.\<close>

definition spec_blake3 :: blake3_lib where
  "spec_blake3 =
     \<lparr>lib_hash = (\<lambda>k data. chunk_value (the k) data 0 True),
      lib_chunk = (\<lambda>k off chunk. chunk_value (the k) chunk (unat off div 1024) False),
      lib_parent = (\<lambda>k l r. parent_value (the k) l r False),
      lib_root = (\<lambda>k l r. parent_value (the k) l r True),
      lib_hash_many = (\<lambda>kw ctr f0 f1 f2 chunks. map (\<lambda>i. chunk_value (concat (map u32_le kw)) (chunks ! i)
         (unat ((ctr + of_nat i) * (1024 :: u64)) div 1024) False) [0..<length chunks])\<rparr>"

lemma spec_blake3_ok:
  assumes "concat (map u32_le (key_to_words key)) = key"
  shows "blake3_spec spec_blake3 key"
proof -
  have "unat (of_nat idx * 1024 :: u64) = idx * 1024" if "idx < 2 ^ 48" for idx
  proof -
    have "of_nat idx * 1024 = (of_nat (idx * 1024) :: u64)" by simp
    then show ?thesis using that by (simp add: unat_of_nat del: of_nat_mult)
  qed
  then show ?thesis using assms by (simp add: blake3_spec_def simd_law_def spec_blake3_def CHUNK_LEN_def)
qed

lemma blake_program_hashes_witness:
  "\<exists>len prog msgs cvs ra rb. dot_product_length (p_config sample_params) = Ok len
    \<and> blake_program_new sample_params = Ok (prog, msgs, cvs)
    \<and> evaluate_blake prog (replicate 32 9) (opened_inputs sample_params len (replicate 32 9)
         (replicate 33554432 1) (replicate 134217728 2) msgs cvs) = Ok (ra, rb)
    \<and> tree_root (merkle_tree_new spec_blake3 (replicate 33554432 1) (replicate 32 9)) = Ok ra
    \<and> tree_root (merkle_tree_new spec_blake3 (replicate 134217728 2) (replicate 32 9)) = Ok rb"
proof (rule blake_program_hashes)
  show "blake3_spec spec_blake3 (replicate 32 9)"
    by (rule spec_blake3_ok) (simp add: key_to_words_def upt_rec subrange_def u32_le_from_le replicate_add [symmetric])
  show "public_params_sanity_check sample_params = Ok ()" by (rule sample_params_sane)
  show "rows_inside sample_params" by code_simp
  have "padded_chunk_len (unat (p_m sample_params) * pub_common_dim sample_params) = 33554432"
    "padded_chunk_len (unat (p_n sample_params) * pub_common_dim sample_params) = 134217728"
    by (simp_all add: sample_params_def sample_config_def padded_chunk_len_def CHUNK_LEN_def pub_common_dim_def)
  then show "length (replicate 33554432 (1 :: u8)) = padded_chunk_len (unat (p_m sample_params) * pub_common_dim sample_params)"
    "length (replicate 134217728 (2 :: u8)) = padded_chunk_len (unat (p_n sample_params) * pub_common_dim sample_params)"
    by (simp_all only: length_replicate)
qed

end
