(* ===== verification/Sibling_Ranges.thy ===== *)
theory Sibling_Ranges imports Blake_Program begin

text \<open>
  The verifier's side of a Merkle opening (\<open>compute_sibling_ranges\<close> and \<open>compute_cv\<close> of
  deps/pearl-blake3/src/merkle.rs, modelled in Merkle_Tree): the byte ranges listed for a proof's
  siblings are nodes of BLAKE3's left-balanced tree with their values, every sibling of a visited node is
  listed, and \<open>compute_cv\<close> returns the value of every node that has an opened leaf or is itself listed.
\<close>

section \<open>The ranges of the siblings\<close>

text \<open>The range an index of one level asks for, with its value, and the ranges of all levels.\<close>

definition sibling_index :: "nat \<Rightarrow> nat" where
  "sibling_index i = (if i mod 2 = 0 then i + 1 else i - 1)"

definition asks :: "nat list \<Rightarrow> nat \<Rightarrow> nat \<Rightarrow> bool" where
  "asks cur m i \<longleftrightarrow> sibling_index i \<notin> set cur \<and> (i mod 2 = 1 \<or> sibling_index i < m)"

lemma sibling_of_asks: "sibling_of L cur m i = (if asks cur m i then [L ! sibling_index i] else [])"
  by (cases "i mod 2 = 0") (auto simp: sibling_of_def asks_def sibling_index_def)

definition node_range :: "nat \<Rightarrow> nat \<Rightarrow> nat \<Rightarrow> digest \<Rightarrow> nat \<times> nat \<times> digest" where
  "node_range tot level j h =
     (j * (CHUNK_LEN * 2 ^ level), min ((j + 1) * (CHUNK_LEN * 2 ^ level)) tot, h)"

definition asked_ranges :: "nat \<Rightarrow> nat \<Rightarrow> digest list \<Rightarrow> nat list \<Rightarrow> nat \<Rightarrow> nat \<Rightarrow> (nat \<times> nat \<times> digest) list" where
  "asked_ranges tot level L cur m i =
     map (node_range tot level (sibling_index i)) (sibling_of L cur m i)"

function needed_ranges :: "nat \<Rightarrow> digest list list \<Rightarrow> nat \<Rightarrow> nat \<Rightarrow> nat list \<Rightarrow> (nat \<times> nat \<times> digest) list" where
  "needed_ranges tot lays level m S =
     (if m > 1 \<and> S \<noteq> []
      then concat (map (asked_ranges tot level (lays ! level) S m) S)
             @ needed_ranges tot lays (level + 1) ((m + 1) div 2) (halves S)
      else [])"
  by pat_completeness auto
termination by (relation "measure (\<lambda>(_, _, _, m, _). m)") auto

declare needed_ranges.simps [simp del]

lemma sibling_ranges_level_asks:
  "sibling_ranges_level tot level m cur (i # rest) sibs = (case sibs of
      s # sibs' \<Rightarrow> if asks cur m i
        then let (ranges, left) = sibling_ranges_level tot level m cur rest sibs'
             in (node_range tot level (sibling_index i) s # ranges, left)
        else sibling_ranges_level tot level m cur rest sibs
    | [] \<Rightarrow> sibling_ranges_level tot level m cur rest sibs)"
  by (cases "i mod 2 = 0") (auto simp: asks_def sibling_index_def node_range_def Let_def split: list.splits)

lemma sibling_ranges_level_eq:
  "sibling_ranges_level tot level m cur rest (concat (map (sibling_of L cur m) rest) @ tail)
     = (concat (map (asked_ranges tot level L cur m) rest), tail)"
proof (induction rest)
  case (Cons i rest)
  show ?case
  proof (cases "asks cur m i")
    case True
    with Cons show ?thesis
      by (simp add: sibling_ranges_level_asks sibling_of_asks [of L cur m i] asked_ranges_def [of _ _ _ _ _ i] del: sibling_ranges_level.simps)
  next
    case False
    have "sibling_ranges_level tot level m cur (i # rest) sibs = sibling_ranges_level tot level m cur rest sibs" for sibs
      by (simp add: sibling_ranges_level_asks False split: list.splits del: sibling_ranges_level.simps)
    with False Cons show ?thesis
      by (simp add: sibling_of_asks [of L cur m i] asked_ranges_def [of _ _ _ _ _ i] del: sibling_ranges_level.simps)
  qed
qed simp

lemma needed_length:
  "collect_siblings lays level S m = Ok sibs \<Longrightarrow> length (needed_ranges tot lays level m S) = length sibs"
proof (induction tot lays level m S arbitrary: sibs rule: needed_ranges.induct)
  case (1 tot lays level m S)
  show ?case
  proof (cases "m > 1 \<and> S \<noteq> []")
    case True
    with 1(2) obtain rest where "sibs = level_siblings (lays ! level) S m @ rest"
      "collect_siblings lays (level + 1) (halves S) ((m + 1) div 2) = Ok rest"
      by (subst (asm) collect_siblings.simps) (auto simp: res_bind_Ok_iff nth_res_def split: if_splits)
    with 1(1) True show ?thesis
      by (subst needed_ranges.simps) (simp add: level_siblings_eq length_concat asked_ranges_def o_def)
  next
    case False
    with 1(2) show ?thesis by (subst needed_ranges.simps, subst (asm) collect_siblings.simps) auto
  qed
qed

lemma sibling_ranges_levels_eq:
  "collect_siblings lays level S m = Ok sibs \<Longrightarrow> sibling_ranges_levels tot level m S sibs = needed_ranges tot lays level m S"
proof (induction tot lays level m S arbitrary: sibs rule: needed_ranges.induct)
  case (1 tot lays level m S)
  show ?case
  proof (cases "m > 1 \<and> S \<noteq> []")
    case True
    with 1(2) obtain rest where r: "sibs = level_siblings (lays ! level) S m @ rest"
      "collect_siblings lays (level + 1) (halves S) ((m + 1) div 2) = Ok rest"
      by (subst (asm) collect_siblings.simps) (auto simp: res_bind_Ok_iff nth_res_def split: if_splits)
    show ?thesis
    proof (cases "sibs = []")
      case False
      with True r 1(1) show ?thesis
        by (subst sibling_ranges_levels.simps, subst needed_ranges.simps)
           (simp add: level_siblings_eq sibling_ranges_level_eq)
    next
      case True
      with needed_length [OF 1(2), of tot] show ?thesis by (subst sibling_ranges_levels.simps) simp
    qed
  next
    case False
    with 1(2) show ?thesis by (subst needed_ranges.simps, subst sibling_ranges_levels.simps) auto
  qed
qed

lemma grow_layers_ok:
  "layer_ok B H leaf n l L \<Longrightarrow> 2 ^ (l + k) < n \<Longrightarrow> layer_ok B H leaf n (l + k) (grow_layers B H L ! k)"
proof (induction k arbitrary: l L)
  case 0
  then show ?case by (subst grow_layers.simps) simp
next
  case (Suc k)
  have "2 * 2 ^ l \<le> (2 :: nat) ^ (l + Suc k)" by (simp add: power_add)
  with Suc.prems(2) have "2 * 2 ^ l < n" by linarith
  then have "2 < length L" using layer_length_less [of 2 n l] Suc.prems(1) by (simp add: layer_ok_def)
  then have "grow_layers B H L = L # grow_layers B H (combine_layer B H L)" by (subst grow_layers.simps) simp
  moreover have "layer_ok B H leaf n (Suc l + k) (grow_layers B H (combine_layer B H L) ! k)"
    using combine_layer_ok [OF Suc.prems(1)] Suc.prems(2) by (intro Suc.IH) simp_all
  ultimately show ?case by simp
qed

text \<open>A node of the tree over \<open>n\<close> chunks: its first chunk and how many it has.\<close>

definition tree_node :: "nat \<Rightarrow> nat \<Rightarrow> nat \<Rightarrow> nat \<Rightarrow> nat \<Rightarrow> bool" where
  "tree_node n l j s c \<longleftrightarrow> s = j * 2 ^ l \<and> s < n \<and> c = min (2 ^ l) (n - s)"

lemma tree_node_split:
  assumes "tree_node n l j s c" "2 \<le> c"
  obtains k i where "next_power_of_two c div 2 = 2 ^ k"
    "tree_node n k (2 * i) s (2 ^ k)" "tree_node n k (2 * i + 1) (s + 2 ^ k) (c - 2 ^ k)" "2 ^ k < c"
proof -
  have "1 < c" using assms(2) by simp
  then obtain k where k: "2 ^ k < c" "c \<le> 2 ^ (k + 1)" "next_power_of_two c div 2 = 2 ^ k" by (rule next_power_of_two_ex)
  have c: "s = j * 2 ^ l" "s < n" "c = min (2 ^ l) (n - s)" using assms(1) by (simp_all add: tree_node_def)
  have "(2 :: nat) ^ k < 2 ^ l" using k(1) c(3) by simp
  then have kl: "k < l" by simp
  then have l: "(2 :: nat) ^ l = 2 ^ (l - k - 1) * 2 * 2 ^ k"
  proof -
    have "l = (l - k - 1) + 1 + k" using kl by simp
    then show ?thesis by (metis power_add power_one_right)
  qed
  define i where "i = j * 2 ^ (l - k - 1)"
  have s: "s = 2 * i * 2 ^ k" "s + 2 ^ k = (2 * i + 1) * 2 ^ k" by (simp_all add: c(1) l i_def algebra_simps)
  have "2 ^ k < n - s" using k(1) c(3) by linarith
  then have sn: "s + 2 ^ k < n" by linarith
  have left: "tree_node n k (2 * i) s (2 ^ k)" using s(1) sn by (auto simp: tree_node_def)
  have "c - 2 ^ k = min (2 ^ k) (n - (s + 2 ^ k))"
  proof (cases "c = 2 ^ (k + 1)")
    case True
    then have "s + 2 ^ (k + 1) \<le> n" using c by simp
    with True show ?thesis by simp
  next
    case False
    have "(2 :: nat) ^ (k + 1) \<le> 2 ^ l" using kl by (intro power_increasing) simp_all
    with False k(2) c(3) have "c = n - s" by linarith
    with k(2) show ?thesis by simp
  qed
  then have "tree_node n k (2 * i + 1) (s + 2 ^ k) (c - 2 ^ k)" using s(2) sn by (simp only: tree_node_def)
  with k(1,3) left show thesis by (intro that)
qed

lemma layer_length_half: "((n + 2 ^ l - 1) div 2 ^ l + 1) div 2 = (n + 2 ^ (l + 1) - 1) div 2 ^ (l + 1)" for n l :: nat
proof -
  have "j < ((n + 2 ^ l - 1) div 2 ^ l + 1) div 2 \<longleftrightarrow> j < (n + 2 ^ (l + 1) - 1) div 2 ^ (l + 1)" for j
  proof -
    have "j < ((n + 2 ^ l - 1) div 2 ^ l + 1) div 2 \<longleftrightarrow> 2 * j < (n + 2 ^ l - 1) div 2 ^ l" by linarith
    then show ?thesis using layer_length_less [of "2 * j" n l] layer_length_less [of j n "l + 1"] by (simp add: ac_simps)
  qed
  then show ?thesis by (metis linorder_neqE_nat less_irrefl)
qed

lemma min_shift: "a < n \<Longrightarrow> min (a + b) n = a + min b (n - a)" for a b n :: nat
  by linarith

lemma node_range_tree:
  assumes "j * 2 ^ l < n"
  shows "node_range (1024 * n) l j h = (1024 * (j * 2 ^ l), 1024 * (j * 2 ^ l + min (2 ^ l) (n - j * 2 ^ l)), h)"
proof -
  have "min ((j + 1) * (CHUNK_LEN * 2 ^ l)) (1024 * n) = 1024 * min (j * 2 ^ l + 2 ^ l) n"
  proof -
    have "(j + 1) * (CHUNK_LEN * 2 ^ l) = 1024 * (j * 2 ^ l + 2 ^ l)" by (simp add: CHUNK_LEN_def algebra_simps)
    then show ?thesis by (simp only: nat_mult_min_right)
  qed
  also have "min (j * 2 ^ l + 2 ^ l) n = j * 2 ^ l + min (2 ^ l) (n - j * 2 ^ l)" by (rule min_shift [OF assms])
  finally show ?thesis by (simp add: node_range_def CHUNK_LEN_def algebra_simps)
qed

lemma needed_sound:
  assumes "\<And>l. 2 ^ l < n \<Longrightarrow> layer_ok B H leaf n l (lays ! l)"
    and "r \<in> set (needed_ranges (1024 * n) lays level m S)" "m = (n + 2 ^ level - 1) div 2 ^ level" "\<forall>i \<in> set S. i < m"
  shows "\<exists>l j s c. tree_node n l j s c \<and> r = (1024 * s, 1024 * (s + c), balanced_cv B H leaf s c)"
  using assms
proof (induction "1024 * n" lays level m S rule: needed_ranges.induct)
  case (1 lays level m S)
  have go: "m > 1" "S \<noteq> []" using "1.prems"(2) by (subst (asm) needed_ranges.simps, auto split: if_splits)+
  from "1.prems"(2) go consider i where "i \<in> set S" "r \<in> set (asked_ranges (1024 * n) level (lays ! level) S m i)"
    | "r \<in> set (needed_ranges (1024 * n) lays (level + 1) ((m + 1) div 2) (halves S))"
    by (subst (asm) needed_ranges.simps) auto
  then show ?case
  proof cases
    case 1
    define j where "j = sibling_index i"
    from 1(2) have a: "asks S m i" "r = node_range (1024 * n) level j (lays ! level ! j)"
      by (auto simp: asked_ranges_def sibling_of_asks j_def split: if_splits)
    have "j < m" using a(1) "1.prems"(4) 1(1) by (auto simp: asks_def j_def sibling_index_def)
    with "1.prems"(3) have jn: "j * 2 ^ level < n" using layer_length_less by blast
    have "2 ^ level < n" using go(1) "1.prems"(3) layer_length_less [of 1 n level] by simp
    then have "layer_ok B H leaf n level (lays ! level)" by (rule "1.prems"(1))
    then have "lays ! level ! j = balanced_cv B H leaf (j * 2 ^ level) (min (2 ^ level) (n - j * 2 ^ level))"
      using \<open>j < m\<close> "1.prems"(3) by (simp add: layer_ok_def)
    moreover have "tree_node n level j (j * 2 ^ level) (min (2 ^ level) (n - j * 2 ^ level))"
      using jn by (simp add: tree_node_def)
    ultimately show ?thesis using a(2) node_range_tree [OF jn] by metis
  next
    case 2
    have "\<forall>i \<in> set (halves S). i < (m + 1) div 2" using "1.prems"(4) by auto
    moreover have "(m + 1) div 2 = (n + 2 ^ (level + 1) - 1) div 2 ^ (level + 1)"
      unfolding "1.prems"(3) by (rule layer_length_half)
    moreover have "m > 1 \<and> S \<noteq> []" using go by simp
    ultimately show ?thesis using "1.hyps" "1.prems"(1) 2 by (intro "1.hyps") assumption+
  qed
qed

text \<open>Completeness: the sibling of a visited node is among the ranges unless it is visited itself.\<close>

lemma needed_complete:
  assumes "m = (n + 2 ^ level - 1) div 2 ^ level" "set S = (\<lambda>i. i div 2 ^ level) ` S0"
    and "level \<le> l" "j * 2 ^ l < n" "sibling_index j * 2 ^ l < n"
    and "j \<notin> (\<lambda>i. i div 2 ^ l) ` S0" "sibling_index j \<in> (\<lambda>i. i div 2 ^ l) ` S0"
  shows "\<exists>h. (1024 * (j * 2 ^ l), 1024 * (j * 2 ^ l + min (2 ^ l) (n - j * 2 ^ l)), h)
    \<in> set (needed_ranges (1024 * n) lays level m S)"
  using assms
proof (induction "1024 * n" lays level m S rule: needed_ranges.induct)
  case (1 lays level m S)
  have "1 \<le> max j (sibling_index j)" by (cases "j = 0") (simp_all add: sibling_index_def)
  then have "2 ^ l < n" using 1(5,6) by (metis max_def mult_le_mono1 mult_1 le_less_trans)
  moreover have "(2 :: nat) ^ level \<le> 2 ^ l" using 1(4) by (simp add: power_increasing)
  ultimately have "2 ^ level < n" by linarith
  then have "m > 1" using 1(2) layer_length_less [of 1 n level] by simp
  moreover have "S \<noteq> []" using 1(3,8) by auto
  ultimately have go: "m > 1 \<and> S \<noteq> []" by simp
  then have need: "set (needed_ranges (1024 * n) lays level m S) =
      (\<Union>i \<in> set S. set (asked_ranges (1024 * n) level (lays ! level) S m i))
      \<union> set (needed_ranges (1024 * n) lays (level + 1) ((m + 1) div 2) (halves S))"
    by (subst needed_ranges.simps) simp
  show ?case
  proof (cases "level = l")
    case True
    have S: "j \<notin> set S" "sibling_index j \<in> set S" using 1(3,7,8) True by simp_all
    have jm: "j < m" using 1(2,5) True layer_length_less by blast
    have sj: "sibling_index (sibling_index j) = j" by (simp add: sibling_index_def) presburger
    then have "asks S m (sibling_index j)" using S jm by (simp add: asks_def)
    then have "node_range (1024 * n) l j (lays ! level ! j) \<in> set (asked_ranges (1024 * n) level (lays ! level) S m (sibling_index j))"
      by (simp add: asked_ranges_def sibling_of_asks sj True)
    with S(2) need node_range_tree [OF 1(5)] show ?thesis by auto
  next
    case False
    have "set (halves S) = (\<lambda>i. i div 2 ^ (level + 1)) ` S0"
      using 1(3) by (simp add: image_image div_mult2_eq [symmetric] mult.commute)
    moreover have "(m + 1) div 2 = (n + 2 ^ (level + 1) - 1) div 2 ^ (level + 1)" using 1(2) layer_length_half by simp
    ultimately show ?thesis using "1.hyps" [OF go] 1(4-8) False need by auto
  qed
qed

text \<open>A proof of the chosen leaves of a tree of at least two whole chunks.\<close>

definition opens :: "blake3_lib \<Rightarrow> bytes \<Rightarrow> bytes \<Rightarrow> nat \<Rightarrow> nat list \<Rightarrow> merkle_proof \<Rightarrow> bool" where
  "opens B key data n S p \<longleftrightarrow> simd_law B key \<and> length data = n * 1024 \<and> 2 \<le> n \<and> S \<noteq> [] \<and> (\<forall>i \<in> set S. i < n)
     \<and> get_multileaf_proof (merkle_tree_new B data key) S = Ok p"

definition leaf_value :: "blake3_lib \<Rightarrow> bytes \<Rightarrow> bytes \<Rightarrow> nat \<Rightarrow> digest" where
  "leaf_value B key data i = chunk_cv B (with_key key) (data_chunk data i) (of_nat i)"

abbreviation node_value :: "blake3_lib \<Rightarrow> bytes \<Rightarrow> bytes \<Rightarrow> nat \<Rightarrow> nat \<Rightarrow> digest" where
  "node_value B key data \<equiv> balanced_cv B (with_key key) (leaf_value B key data)"

lemma opens_parts:
  assumes "opens B key data n S p"
  shows "leaf_indices p = btree_set S" "leaf_data p = map (data_chunk data) (btree_set S)" "total_leaves p = n"
    "tree_root (merkle_tree_new B data key) = Ok (proof_root p)"
proof -
  have o: "simd_law B key" "length data = n * 1024" "2 \<le> n" "S \<noteq> []" "\<forall>i \<in> set S. i < n"
    "get_multileaf_proof (merkle_tree_new B data key) S = Ok p" using assms by (simp_all add: opens_def)
  from multileaf_proof_Ok [OF o(1-5)] o(6)
  show "leaf_indices p = btree_set S" "leaf_data p = map (data_chunk data) (btree_set S)" "total_leaves p = n"
    "tree_root (merkle_tree_new B data key) = Ok (proof_root p)" by auto
qed

lemma opens_ranges:
  assumes "opens B key data n S p"
  defines "lays \<equiv> grow_layers B (with_key key) (map (leaf_value B key data) [0..<n])"
  shows "compute_sibling_ranges p (1024 * n) = needed_ranges (1024 * n) lays 0 n (btree_set S)"
    and "\<And>l. 2 ^ l < n \<Longrightarrow> layer_ok B (with_key key) (leaf_value B key data) n l (lays ! l)"
proof -
  have o: "simd_law B key" "length data = n * 1024" "2 \<le> n" "S \<noteq> []" "\<forall>i \<in> set S. i < n"
    "get_multileaf_proof (merkle_tree_new B data key) S = Ok p" using assms(1) by (simp_all add: opens_def)
  have t: "layers (merkle_tree_new B data key) = lays" "num_leaves (merkle_tree_new B data key) = n"
    using tree_new_layers [OF o(1-3)] by (simp_all add: lays_def leaf_value_def [abs_def])
  have c: "collect_siblings lays 0 (btree_set S) n = Ok (siblings p)"
    using o(6) by (auto simp: get_multileaf_proof_def Let_def res_bind_Ok_iff t)
  have n: "(1024 * n + CHUNK_LEN - 1) div CHUNK_LEN = n" using o(3) by (simp add: CHUNK_LEN_def)
  show "compute_sibling_ranges p (1024 * n) = needed_ranges (1024 * n) lays 0 n (btree_set S)"
  proof (cases "siblings p = []")
    case True
    with needed_length [OF c, of "1024 * n"] show ?thesis by (simp add: compute_sibling_ranges_def)
  next
    case False
    with o(4) have "compute_sibling_ranges p (1024 * n) = sibling_ranges_levels (1024 * n) 0 n (btree_set S) (siblings p)"
      by (simp add: compute_sibling_ranges_def opens_parts(1) [OF assms(1)] n [unfolded One_nat_def] btree_set_strict)
    also have "\<dots> = needed_ranges (1024 * n) lays 0 n (btree_set S)" by (rule sibling_ranges_levels_eq [OF c])
    finally show ?thesis .
  qed
  have "layer_ok B (with_key key) (leaf_value B key data) n 0 (map (leaf_value B key data) [0..<n])"
    by (auto simp: layer_ok_def balanced_cv.simps)
  then show "layer_ok B (with_key key) (leaf_value B key data) n l (lays ! l)" if "2 ^ l < n" for l
    using grow_layers_ok [of B "with_key key" "leaf_value B key data" n 0 _ l] that by (simp add: lays_def)
qed

definition known :: "nat set \<Rightarrow> nat \<Rightarrow> nat \<Rightarrow> bool" where
  "known S s c \<longleftrightarrow> (\<exists>i \<in> S. s \<le> i \<and> i < s + c)"

definition ranged :: "(nat \<times> nat \<times> digest) list \<Rightarrow> nat \<Rightarrow> nat \<Rightarrow> bool" where
  "ranged ranges s c \<longleftrightarrow> (\<exists>h. (1024 * s, 1024 * (s + c), h) \<in> set ranges)"

lemma known_node:
  "tree_node n l j s c \<Longrightarrow> \<forall>i \<in> S. i < n \<Longrightarrow> known S s c \<longleftrightarrow> j \<in> (\<lambda>i. i div 2 ^ l) ` S"
proof -
  assume a: "tree_node n l j s c" "\<forall>i \<in> S. i < n"
  have "s \<le> i \<and> i < s + c \<longleftrightarrow> i div 2 ^ l = j" if "i \<in> S" for i
  proof -
    have "i < n" using a(2) that by simp
    then have "s \<le> i \<and> i < s + c \<longleftrightarrow> j * 2 ^ l \<le> i \<and> i < (j + 1) * 2 ^ l"
      using a(1) by (auto simp: tree_node_def)
    also have "\<dots> \<longleftrightarrow> i div 2 ^ l = j"
    proof
      assume "j * 2 ^ l \<le> i \<and> i < (j + 1) * 2 ^ l"
      then show "i div 2 ^ l = j" by (intro div_nat_eqI) (simp_all add: mult.commute)
    next
      assume "i div 2 ^ l = j"
      then show "j * 2 ^ l \<le> i \<and> i < (j + 1) * 2 ^ l"
        using div_times_less_eq_dividend [of i "2 ^ l"] dividend_less_div_times [of "2 ^ l" i] by auto
    qed
    finally show ?thesis .
  qed
  then show ?thesis by (auto simp: known_def)
qed

lemma split_ranged:
  assumes op: "opens B key data n S p"
    and node: "tree_node n k j s c" "tree_node n k (sibling_index j) s' c'"
    and none: "\<not> known (set S) s c" and sib: "known (set S) s' c'"
  shows "ranged (compute_sibling_ranges p (1024 * n)) s c"
proof -
  have S: "\<forall>i \<in> set S. i < n" using op by (simp add: opens_def)
  have "\<exists>h. (1024 * (j * 2 ^ k), 1024 * (j * 2 ^ k + min (2 ^ k) (n - j * 2 ^ k)), h)
    \<in> set (compute_sibling_ranges p (1024 * n))"
    unfolding opens_ranges(1) [OF op]
    by (rule needed_complete [where level = 0 and ?S0.0 = "set S"])
       (use node none sib known_node [OF node(1) S] known_node [OF node(2) S] in \<open>auto simp: tree_node_def\<close>)
  with node(1) show ?thesis by (simp add: ranged_def tree_node_def)
qed

lemma find_range:
  assumes "opens B key data n S p" "tree_node n l j s c"
  shows "find (\<lambda>(rs, re, _). rs = 1024 * s \<and> re = 1024 * (s + c)) (compute_sibling_ranges p (1024 * n))
    = (if ranged (compute_sibling_ranges p (1024 * n)) s c
       then Some (1024 * s, 1024 * (s + c), node_value B key data s c) else None)"
proof (cases "find (\<lambda>(rs, re, _). rs = 1024 * s \<and> re = 1024 * (s + c)) (compute_sibling_ranges p (1024 * n))")
  case None
  then have "\<not> ranged (compute_sibling_ranges p (1024 * n)) s c" by (auto simp: find_None_iff ranged_def)
  with None show ?thesis by simp
next
  case (Some r)
  then obtain h where h: "r = (1024 * s, 1024 * (s + c), h)" "r \<in> set (compute_sibling_ranges p (1024 * n))"
    by (auto simp: find_Some_iff) (metis nth_mem)
  then have "r \<in> set (needed_ranges (1024 * n) (grow_layers B (with_key key) (map (leaf_value B key data) [0..<n])) 0 n (btree_set S))"
    using opens_ranges(1) [OF assms(1)] by simp
  from needed_sound [OF opens_ranges(2) [OF assms(1)] this] assms(1)
  obtain s' c' where "r = (1024 * s', 1024 * (s' + c'), node_value B key data s' c')" by (auto simp: opens_def)
  with h have "h = node_value B key data s c" by auto
  with Some h show ?thesis by (auto simp: ranged_def)
qed

lemma known_leaf: "known S s 1 \<longleftrightarrow> s \<in> S"
  by (auto simp: known_def) (metis Suc_leI le_antisym less_Suc_eq_le)

lemma known_split: "known S s c \<Longrightarrow> h \<le> c \<Longrightarrow> known S s h \<or> known S (s + h) (c - h)"
  by (auto simp: known_def) (metis linorder_not_less)

text \<open>Completeness of \<open>compute_cv\<close>: it returns the value of every node that has an opened leaf or is one of the
  siblings.\<close>

lemma compute_cv_node:
  assumes "opens B key data n S p" "tree_node n l j s c"
    and "known (set S) s c \<or> ranged (compute_sibling_ranges p (1024 * n)) s c"
  shows "compute_cv B p (1024 * s) (1024 * (s + c)) (compute_sibling_ranges p (1024 * n)) key = Some (Ok (node_value B key data s c))"
  using assms(2,3)
proof (induction c arbitrary: s l j rule: less_induct)
  case (less c)
  let ?R = "compute_sibling_ranges p (1024 * n)"
  note f = find_range [OF assms(1) less.prems(1)]
  show ?case
  proof (cases "ranged ?R s c")
    case True
    with f show ?thesis by (subst compute_cv.simps) simp
  next
    case False
    with less.prems(2) have kn: "known (set S) s c" by simp
    then have c0: "0 < c" by (auto simp: known_def)
    show ?thesis
    proof (cases "c = 1")
      case True
      with kn have s: "s \<in> set S" by (simp only: known_leaf)
      note o = opens_parts [OF assms(1)]
      from assms(1) s have sn: "s < n" "length data = n * 1024" "\<forall>i \<in> set S. i < n" by (auto simp: opens_def)
      have "(1024 * s + x) div 1024 = s" if "x < 1024" for x using that by simp
      with s have cov: "\<forall>x < 1024. (1024 * s + x) div 1024 \<in> set (btree_set S)" by simp
      have "extract_bytes p (1024 * s) 1024 = Ok (subrange (1024 * s) (1024 * s + 1024) data)"
        using extract_bytes_eq [OF sn(2) _ _ o(1,2), of "1024 * s" 1024] cov sn strict_sorted_iff [of "btree_set S"] by simp
      with True False f show ?thesis
        by (subst compute_cv.simps, subst balanced_cv.simps)
           (simp add: CHUNK_LEN_def leaf_value_def data_chunk_def mult.commute)
    next
      case False
      with c0 have c2: "2 \<le> c" by simp
      obtain k i where sp: "next_power_of_two c div 2 = 2 ^ k" "tree_node n k (2 * i) s (2 ^ k)"
        "tree_node n k (2 * i + 1) (s + 2 ^ k) (c - 2 ^ k)" "2 ^ k < c"
        using less.prems(1) c2 by (rule tree_node_split)
      have sib: "sibling_index (2 * i) = 2 * i + 1" "sibling_index (2 * i + 1) = 2 * i" by (simp_all add: sibling_index_def)
      have kk: "known (set S) s (2 ^ k) \<or> known (set S) (s + 2 ^ k) (c - 2 ^ k)"
        using known_split [OF kn, of "2 ^ k"] sp(4) by simp
      have l: "known (set S) s (2 ^ k) \<or> ranged ?R s (2 ^ k)"
        using split_ranged [OF assms(1) sp(2), unfolded sib, OF sp(3)] kk by blast
      have r: "known (set S) (s + 2 ^ k) (c - 2 ^ k) \<or> ranged ?R (s + 2 ^ k) (c - 2 ^ k)"
        using split_ranged [OF assms(1) sp(3), unfolded sib, OF sp(2)] kk by blast
      have left: "compute_cv B p (1024 * s) (1024 * (s + 2 ^ k)) ?R key = Some (Ok (node_value B key data s (2 ^ k)))"
        by (rule less.IH [OF sp(4) sp(2) l])
      have "compute_cv B p (1024 * (s + 2 ^ k)) (1024 * (s + 2 ^ k + (c - 2 ^ k))) ?R key
          = Some (Ok (node_value B key data (s + 2 ^ k) (c - 2 ^ k)))"
        using sp(4) by (intro less.IH [OF _ sp(3) r]) simp
      then have right: "compute_cv B p (1024 * (s + 2 ^ k)) (1024 * (s + c)) ?R key
          = Some (Ok (node_value B key data (s + 2 ^ k) (c - 2 ^ k)))" using sp(4) by simp
      have half: "1024 * s + next_power_of_two (1024 * (s + c) - 1024 * s) div 2 = 1024 * (s + 2 ^ k)"
        using next_power_of_two_chunks [OF c2] sp(1) by (simp add: algebra_simps)
      have ne: "1024 * (s + c) - 1024 * s \<noteq> CHUNK_LEN" using False by (simp add: CHUNK_LEN_def)
      have "balanced_cv B (with_key key) (leaf_value B key data) s c = parent_cv B (with_key key)
          (node_value B key data s (2 ^ k)) (node_value B key data (s + 2 ^ k) (c - 2 ^ k))"
        using c2 by (subst balanced_cv.simps) (simp add: sp(1) Let_def)
      then show ?thesis
        using f \<open>\<not> ranged ?R s c\<close> by (subst compute_cv.simps) (simp only: half ne Let_def, use left right in simp)
    qed
  qed
qed
end
