(* ===== verification/Plain_Proof.thy ===== *)
theory Plain_Proof imports Sibling_Ranges begin

text \<open>
  Plain proofs: the two Merkle openings a miner sends (src/proof/plain_proof.rs and
  deps/zk-pow/src/ffi/plain_proof.rs), their conversion to the parameters of the ZK proof, and the checks of
  deps/zk-pow/src/api/proof_utils.rs on those.  A computation that may not return is an option, \<open>None\<close> when it
  does not (only \<open>compute_cv\<close> can).  The BLAKE3 library is a parameter.
\<close>

section \<open>Plain proofs\<close>

record matrix_merkle_proof =
  mproof :: merkle_proof
  row_indices :: "nat list"

record plain_proof =
  pf_m :: nat
  pf_n :: nat
  pf_k :: nat
  noise_rank :: nat
  pf_a :: matrix_merkle_proof
  pf_bt :: matrix_merkle_proof

definition lift_merkle :: "(string, 'a) res \<Rightarrow> 'a miner_res" where
  "lift_merkle r = map_err OtherError r"

definition build_plain_proof ::
  "blake3_lib \<Rightarrow> nat \<Rightarrow> nat \<Rightarrow> nat \<Rightarrow> nat \<Rightarrow> bytes \<Rightarrow> bytes \<Rightarrow> nat list \<Rightarrow> nat list \<Rightarrow> bytes \<Rightarrow> plain_proof miner_res" where
  "build_plain_proof B m n k rnk a_bytes b_bytes a_row_indices b_col_indices key =
     (if length a_bytes \<noteq> m * k then Err (RpcError ''plain_proof'' ''A length != m*k'')
      else if length b_bytes \<noteq> n * k then Err (RpcError ''plain_proof'' ''B length != n*k'')
      else
        res_bind (lift_merkle (get_multileaf_proof (merkle_tree_new B a_bytes key)
            (compute_leaf_indices_from_rows a_row_indices (m, k)))) (\<lambda>a_proof.
        res_bind (lift_merkle (get_multileaf_proof (merkle_tree_new B b_bytes key)
            (compute_leaf_indices_from_rows b_col_indices (n, k)))) (\<lambda>bt_proof.
        Ok \<lparr>pf_m = m, pf_n = n, pf_k = k, noise_rank = rnk,
            pf_a = \<lparr>mproof = a_proof, row_indices = a_row_indices\<rparr>,
            pf_bt = \<lparr>mproof = bt_proof, row_indices = b_col_indices\<rparr>\<rparr>)))"

section \<open>Parsing\<close>

text \<open>A context replaces the message that is shown.\<close>

definition with_context :: "string \<Rightarrow> (anyhow, 'a) res \<Rightarrow> (anyhow, 'a) res" where
  "with_context c r = map_err (\<lambda>_. c) r"

definition extract_strips :: "nat list \<Rightarrow> nat \<Rightarrow> nat \<Rightarrow> merkle_proof \<Rightarrow> (anyhow, i8 list list) res" where
  "extract_strips indices k len p =
     res_map (\<lambda>idx. with_context ''Failed to extract strip''
       (res_bind (extract_bytes p (idx * k) len) (\<lambda>b. Ok (map ucast b)))) indices"

definition extract_external_messages :: "aux_msg_location list \<Rightarrow> plain_proof \<Rightarrow> (anyhow, bytes list) res" where
  "extract_external_messages locs p =
     res_map (\<lambda>loc. extract_bytes (if msg_is_b loc then mproof (pf_bt p) else mproof (pf_a p)) (msg_global_start loc) 64) locs"

text \<open>Sequencing of computations that may not return.\<close>

fun try_bind :: "('e, 'a) res option \<Rightarrow> ('a \<Rightarrow> ('e, 'b) res option) \<Rightarrow> ('e, 'b) res option" where
  "try_bind (Some (Ok x)) f = f x"
| "try_bind (Some (Err e)) f = Some (Err e)"
| "try_bind (Some Panic) f = Some Panic"
| "try_bind None f = None"

fun try_map :: "('a \<Rightarrow> ('e, 'b) res option) \<Rightarrow> 'a list \<Rightarrow> ('e, 'b list) res option" where
  "try_map f [] = Some (Ok [])"
| "try_map f (x # xs) = try_bind (f x) (\<lambda>y. try_bind (try_map f xs) (\<lambda>ys. Some (Ok (y # ys))))"

definition external_cv ::
  "blake3_lib \<Rightarrow> merkle_proof \<Rightarrow> (nat \<times> nat \<times> digest) list \<Rightarrow> bytes \<Rightarrow> aux_cv_location \<Rightarrow> (anyhow, bytes) res option" where
  "external_cv B p ranges key loc =
     (case find (\<lambda>(s, e, _). s = cv_global_start loc \<and> e = cv_global_end loc) ranges of
        Some (_, _, h) \<Rightarrow> Some (Ok h)
      | None \<Rightarrow> map_option (with_context ''Failed to compute CV'')
          (compute_cv B p (cv_global_start loc) (cv_global_end loc) ranges key))"

definition compute_external_cvs ::
  "blake3_lib \<Rightarrow> aux_cv_location list \<Rightarrow> plain_proof \<Rightarrow> nat \<Rightarrow> nat \<Rightarrow> nat \<Rightarrow> bytes \<Rightarrow> (anyhow, bytes list) res option" where
  "compute_external_cvs B locs p m n k key =
     (let a_ranges = compute_sibling_ranges (mproof (pf_a p)) (padded_chunk_len (m * k));
          b_ranges = compute_sibling_ranges (mproof (pf_bt p)) (padded_chunk_len (n * k))
      in try_map (\<lambda>loc. if cv_is_b loc then external_cv B (mproof (pf_bt p)) b_ranges key loc
           else external_cv B (mproof (pf_a p)) a_ranges key loc) locs)"

text \<open>The parameters in the circuit's view.\<close>

record compiled_params =
  c_job_key :: bytes
  c_k :: nat
  c_h :: nat
  c_w :: nat
  c_r :: nat
  blake_proof :: blake_program
  c_a_rows :: "nat list"
  c_b_cols :: "nat list"
  c_commitment :: "bytes \<times> bytes"

definition compile_params ::
  "blake3_lib \<Rightarrow> public_params \<Rightarrow> (anyhow, compiled_params \<times> aux_msg_location list \<times> aux_cv_location list) res" where
  "compile_params B p =
     res_bind (blake_program_new p) (\<lambda>(prog, msgs, cvs).
     res_bind (job_key (blake3_digest B) p) (\<lambda>key.
     Ok (\<lparr>c_job_key = key, c_k = pub_common_dim p, c_h = pub_h p, c_w = pub_w p, c_r = pub_rank p, blake_proof = prog,
          c_a_rows = map unat (a_rows_indices p), c_b_cols = map unat (b_cols_indices p),
          c_commitment = commitment_hash (blake3_digest B) p key\<rparr>, msgs, cvs)))"

definition public_of_plain ::
  "block_header \<Rightarrow> plain_proof \<Rightarrow> periodic_pattern \<Rightarrow> u32 \<Rightarrow> periodic_pattern \<Rightarrow> u32 \<Rightarrow> public_params" where
  "public_of_plain hdr p rows_pat tr cols_pat tc =
     \<lparr>p_header = hdr,
      p_config = \<lparr>common_dim = of_nat (pf_k p), rank = of_nat (noise_rank p), mma_type = Int7xInt7ToInt32,
        rows_pattern = rows_pat, cols_pattern = cols_pat, reserved = RESERVED_VALUE\<rparr>,
      hash_a = proof_root (mproof (pf_a p)), hash_b = proof_root (mproof (pf_bt p)), hash_jackpot = replicate 32 0xff,
      p_m = of_nat (pf_m p), p_n = of_nat (pf_n p), t_rows = tr, t_cols = tc\<rparr>"

definition parse_plain_proof ::
  "blake3_lib \<Rightarrow> block_header \<Rightarrow> plain_proof \<Rightarrow> (anyhow, private_params \<times> public_params) res option" where
  "parse_plain_proof B hdr p =
     try_bind (Some (list_to_pattern (map of_nat (row_indices (pf_a p))))) (\<lambda>(rows_pat, tr).
     try_bind (Some (list_to_pattern (map of_nat (row_indices (pf_bt p))))) (\<lambda>(cols_pat, tc).
     let pub = public_of_plain hdr p rows_pat tr cols_pat tc in
     try_bind (Some (compile_params B pub)) (\<lambda>(compiled, msg_locs, cv_locs).
     try_bind (Some (dot_product_length (p_config pub))) (\<lambda>len.
     try_bind (Some (extract_strips (row_indices (pf_a p)) (pf_k p) len (mproof (pf_a p)))) (\<lambda>sa.
     try_bind (Some (extract_strips (row_indices (pf_bt p)) (pf_k p) len (mproof (pf_bt p)))) (\<lambda>sb.
     try_bind (Some (extract_external_messages msg_locs p)) (\<lambda>msgs.
     try_bind (Some (job_key (blake3_digest B) pub)) (\<lambda>key.
     try_bind (compute_external_cvs B cv_locs p (pf_m p) (pf_n p) (pf_k p) key) (\<lambda>cvs.
     let priv = \<lparr>s_a = sa, s_b = sb, external_msgs = msgs, external_cvs = cvs\<rparr> in
     try_bind (Some (evaluate_blake (blake_proof compiled) (c_job_key compiled) priv)) (\<lambda>(ha, hb).
     try_bind (Some (ensure (ha = proof_root (mproof (pf_a p))) ''ensure_eq failed: Hash A mismatch'')) (\<lambda>_.
     try_bind (Some (ensure (hb = proof_root (mproof (pf_bt p))) ''ensure_eq failed: Hash B mismatch'')) (\<lambda>_.
     Some (Ok (priv, pub))))))))))))))"

definition sanity_check_private_params :: "blake3_lib \<Rightarrow> public_params \<Rightarrow> private_params \<Rightarrow> (anyhow, unit) res" where
  "sanity_check_private_params B p priv =
     res_bind (compile_params B p) (\<lambda>(compiled, msgs, cvs).
     res_bind (ensure (length msgs = length (external_msgs priv)) ''ensure_eq failed: external_msgs length mismatch'') (\<lambda>_.
     res_bind (ensure (length cvs = length (external_cvs priv)) ''ensure_eq failed: external_cvs length mismatch'') (\<lambda>_.
     res_bind (evaluate_blake (blake_proof compiled) (c_job_key compiled) priv) (\<lambda>(ha, hb).
     res_bind (ensure (hash_a p = ha) ''ensure_eq failed: hash_a mismatch'') (\<lambda>_.
     ensure (hash_b p = hb) ''ensure_eq failed: hash_b mismatch'')))))"

definition fill_dummy_merkle_proof ::
  "blake3_lib \<Rightarrow> public_params \<Rightarrow> private_params \<Rightarrow> (anyhow, public_params \<times> private_params) res" where
  "fill_dummy_merkle_proof B p priv =
     res_bind (compile_params B p) (\<lambda>(compiled, msgs, cvs).
     let priv' = priv\<lparr>external_msgs := replicate (length msgs) (replicate 64 0), external_cvs := replicate (length cvs) (replicate 32 0)\<rparr> in
     res_bind (job_key (blake3_digest B) p) (\<lambda>key.
     res_bind (evaluate_blake (blake_proof compiled) key priv') (\<lambda>(ha, hb).
     Ok (p\<lparr>hash_a := ha, hash_b := hb\<rparr>, priv'))))"

section \<open>The auxiliary locations of a program\<close>

definition msg_location_ok :: "compile_in \<Rightarrow> nat \<Rightarrow> aux_msg_location \<Rightarrow> bool" where
  "msg_location_ok c n l \<longleftrightarrow> msg_is_b l = is_b_matrix c \<and>
     (\<exists>i < n. 1024 * i \<le> msg_global_start l \<and> msg_global_start l + 64 \<le> 1024 * (i + 1)
        \<and> intersects_strips c (1024 * i) (1024 * (i + 1)))"

text \<open>A node next to one that the strips touch.\<close>

definition node_touched :: "compile_in \<Rightarrow> nat \<Rightarrow> nat \<Rightarrow> nat \<Rightarrow> nat \<Rightarrow> nat \<Rightarrow> bool" where
  "node_touched c n l j s cnt \<longleftrightarrow> intersects_strips c (1024 * s) (1024 * (s + cnt))
     \<or> (\<exists>s' cnt'. tree_node n l (sibling_index j) s' cnt' \<and> intersects_strips c (1024 * s') (1024 * (s' + cnt')))"

definition cv_location_ok :: "compile_in \<Rightarrow> nat \<Rightarrow> aux_cv_location \<Rightarrow> bool" where
  "cv_location_ok c n loc \<longleftrightarrow> cv_is_b loc = is_b_matrix c \<and>
     (\<exists>l j s cnt. tree_node n l j s cnt \<and> node_touched c n l j s cnt
        \<and> cv_global_start loc = 1024 * s \<and> cv_global_end loc = 1024 * (s + cnt))"

definition adds :: "compile_in \<Rightarrow> nat \<Rightarrow> compile_out \<Rightarrow> compile_out \<Rightarrow> bool" where
  "adds c n out out' \<longleftrightarrow> (\<exists>ms cs. out_msgs out' = out_msgs out @ ms \<and> out_cvs out' = out_cvs out @ cs
     \<and> (\<forall>l \<in> set ms. msg_location_ok c n l) \<and> (\<forall>l \<in> set cs. cv_location_ok c n l))"

lemma adds_trans: "adds c n a b \<Longrightarrow> adds c n b d \<Longrightarrow> adds c n a d"
  unfolding adds_def by (elim exE conjE) auto

lemma adds_refl: "adds c n a a"
  by (simp add: adds_def)

lemma adds_push: "adds c n out (push_instruction k tw m out)"
  by (simp add: adds_def push_instruction_def)

lemma adds_push_msg:
  "msg_location_ok c n l \<Longrightarrow> adds c n out (push_instruction k tw m (out\<lparr>out_msgs := out_msgs out @ [l]\<rparr>))"
  by (simp add: adds_def push_instruction_def)

lemma compile_chunk_adds:
  assumes "i < n" "intersects_strips c (1024 * i) (1024 * (i + 1))" "j \<le> 16"
  shows "adds c n out (compile_chunk c idx (1024 * i + 64 * j) (1024 * (i + 1)) rf first out)"
  using assms(3)
proof (induction "16 - j" arbitrary: j first out)
  case 0
  then show ?case by (subst compile_chunk.simps) (simp add: adds_refl)
next
  case (Suc d)
  then have j: "j < 16" by simp
  have ok: "msg_location_ok c n \<lparr>msg_global_start = 1024 * i + 64 * j, msg_is_b = is_b_matrix c\<rparr>"
    using assms(1,2) j by (auto simp: msg_location_ok_def intro!: exI [of _ i])
  have len: "min (1024 * (i + 1) - (1024 * i + 64 * j)) BLAKE3_MSG_LEN = 64" using j by (simp add: BLAKE3_MSG_LEN_def)
  have nxt: "1024 * i + 64 * j + 64 = 1024 * i + 64 * (j + 1)" by simp
  have IH: "adds c n out' (compile_chunk c idx (1024 * i + 64 * (j + 1)) (1024 * (i + 1)) rf False out')" for out'
    using Suc j by (intro Suc.hyps) simp_all
  have lt: "1024 * i + 64 * j < 1024 * (i + 1)" using j by simp
  have step: "adds c n out (case find_hotspot c (1024 * i + 64 * j) 0 (hotspot_strips c) of
        Some (i', pos) \<Rightarrow> push_instruction first tw (MatrixLeaf (contiguous (is_b_matrix c) i' pos)) out
      | None \<Rightarrow> push_instruction first tw (AuxiliaryLeaf (length (out_msgs out)))
          (out\<lparr>out_msgs := out_msgs out @ [\<lparr>msg_global_start = 1024 * i + 64 * j, msg_is_b = is_b_matrix c\<rparr>]\<rparr>))" for tw
    using ok by (simp add: adds_push adds_push_msg split: option.split)
  show ?case
    by (subst compile_chunk.simps, simp only: lt if_True Let_def len nxt, rule adds_trans [OF step IH])
qed

lemma intersects_split:
  assumes "intersects_strips c s e" "s < mid" "mid < e" "0 < strip_len c"
  shows "intersects_strips c s mid \<or> intersects_strips c mid e"
proof -
  from assms(1) obtain r where r: "r \<in> set (hotspot_strips c)" "s < unat r * row_len c + strip_len c" "unat r * row_len c < e"
    by (auto simp: intersects_strips_def intervals_intersect_def list_ex_iff)
  show ?thesis
  proof (cases "unat r * row_len c < mid")
    case True
    with r show ?thesis by (auto simp: intersects_strips_def intervals_intersect_def list_ex_iff)
  next
    case False
    with r assms(4) have "mid < unat r * row_len c + strip_len c" by linarith
    with r show ?thesis by (auto simp: intersects_strips_def intervals_intersect_def list_ex_iff)
  qed
qed

lemma recursive_compilation_adds:
  assumes "0 < strip_len c" "tree_node n l j s cnt" "node_touched c n l j s cnt"
    and "recursive_compilation c (1024 * s) (1024 * (s + cnt)) out = (cv, out')"
  shows "adds c n out out'"
  using assms(2-4)
proof (induction cnt arbitrary: l j s out cv out' rule: less_induct)
  case (less cnt)
  have c0: "0 < cnt" using less.prems(1) by (auto simp: tree_node_def)
  have big: "1024 * (s + cnt) - 1024 * s \<ge> CHUNK_LEN" using c0 by (simp add: CHUNK_LEN_def)
  show ?case
  proof (cases "intersects_strips c (1024 * s) (1024 * (s + cnt))")
    case False
    have "cv_location_ok c n \<lparr>cv_global_start = 1024 * s, cv_global_end = 1024 * (s + cnt), cv_is_b = is_b_matrix c\<rparr>"
      using less.prems(1,2) by (auto simp: cv_location_ok_def)
    moreover have "out' = out\<lparr>out_cvs := out_cvs out @
        [\<lparr>cv_global_start = 1024 * s, cv_global_end = 1024 * (s + cnt), cv_is_b = is_b_matrix c\<rparr>]\<rparr>"
      using less.prems(3) False big by (subst (asm) recursive_compilation.simps) (simp add: Let_def)
    ultimately show ?thesis by (simp add: adds_def)
  next
    case True
    show ?thesis
    proof (cases "cnt = 1")
      case one: True
      then have "out' = compile_chunk c (1024 * s div CHUNK_LEN) (1024 * s) (1024 * (s + 1))
          (if 1024 * s = 0 \<and> 1024 * (s + cnt) = padded_chunk_len (num_rows c * row_len c) then B3F_ROOT else 0) True out"
        using less.prems(3) True by (subst (asm) recursive_compilation.simps) (simp add: Let_def CHUNK_LEN_def)
      moreover have "s < n" using less.prems(1) by (simp add: tree_node_def)
      ultimately show ?thesis using compile_chunk_adds [of s n c 0] True one by simp
    next
      case False
      with c0 have c2: "2 \<le> cnt" by simp
      obtain k i where sp: "next_power_of_two cnt div 2 = 2 ^ k" "tree_node n k (2 * i) s (2 ^ k)"
        "tree_node n k (2 * i + 1) (s + 2 ^ k) (cnt - 2 ^ k)" "2 ^ k < cnt"
        using less.prems(1) c2 by (rule tree_node_split)
      have sib: "sibling_index (2 * i) = 2 * i + 1" "sibling_index (2 * i + 1) = 2 * i" by (simp_all add: sibling_index_def)
      have half: "1024 * s + next_power_of_two (1024 * (s + cnt) - 1024 * s) div 2 = 1024 * (s + 2 ^ k)"
        using next_power_of_two_chunks [OF c2] sp(1) by (simp add: algebra_simps)
      have e: "s + 2 ^ k + (cnt - 2 ^ k) = s + cnt" using sp(4) by simp
      have "intersects_strips c (1024 * s) (1024 * (s + 2 ^ k))
          \<or> intersects_strips c (1024 * (s + 2 ^ k)) (1024 * (s + 2 ^ k + (cnt - 2 ^ k)))"
        unfolding e using sp(4) by (intro intersects_split [OF True] assms(1)) simp_all
      then have t: "node_touched c n k (2 * i) s (2 ^ k)" "node_touched c n k (2 * i + 1) (s + 2 ^ k) (cnt - 2 ^ k)"
        using sp(2,3) unfolding node_touched_def sib by blast+
      obtain lcv out1 where l: "recursive_compilation c (1024 * s) (1024 * (s + 2 ^ k)) out = (lcv, out1)" by fastforce
      obtain rcv out2 where r: "recursive_compilation c (1024 * (s + 2 ^ k)) (1024 * (s + 2 ^ k + (cnt - 2 ^ k))) out1 = (rcv, out2)" by fastforce
      have "adds c n out out1" by (rule less.IH [OF sp(4) sp(2) t(1) l])
      moreover have "adds c n out1 out2" using sp(4) by (intro less.IH [OF _ sp(3) t(2) r]) simp
      moreover have "\<not> 1024 * (s + cnt) - 1024 * s \<le> CHUNK_LEN" using c2 by (simp add: CHUNK_LEN_def)
      then have "adds c n out2 out'"
        using less.prems(3) True l r [unfolded e]
        by (subst (asm) recursive_compilation.simps) (simp only: Let_def half, auto simp: adds_push)
      ultimately show ?thesis by (blast intro: adds_trans)
    qed
  qed
qed


definition side :: "public_params \<Rightarrow> nat \<Rightarrow> bool \<Rightarrow> compile_in" where
  "side p len b = (if b then compile_b p len else compile_a p len)"

definition chunks_of :: "compile_in \<Rightarrow> nat" where
  "chunks_of c = padded_chunk_len (num_rows c * row_len c) div 1024"

lemma chunks_of_len: "padded_chunk_len (num_rows c * row_len c) = 1024 * chunks_of c"
  using padded_chunk_len_bounds(2) [of "num_rows c * row_len c"] mult_div_mod_eq [of 1024 "padded_chunk_len (num_rows c * row_len c)"]
  by (simp add: chunks_of_def)

lemma compile_matrix_adds:
  assumes "0 < strip_len c" "strip_len c \<le> row_len c" "hotspot_strips c \<noteq> []"
    and "\<forall>r \<in> set (hotspot_strips c). unat r < num_rows c" "compile_matrix c out = (cv, out')"
  shows "adds c (chunks_of c) out out'"
proof -
  let ?n = "chunks_of c"
  note hit = strips_hit [OF assms(1-4), unfolded chunks_of_len]
  have "0 < padded_chunk_len (num_rows c * row_len c)" using hit(2) padded_chunk_len_bounds(3) by blast
  then have n: "0 < ?n" using chunks_of_len [of c] by linarith
  have "?n \<le> 2 ^ ?n" by (rule less_imp_le [OF less_exp])
  then have "tree_node ?n ?n 0 0 ?n" using n by (simp add: tree_node_def)
  moreover from hit(1) have "node_touched c ?n ?n 0 0 ?n" by (simp add: node_touched_def)
  ultimately show ?thesis
    using recursive_compilation_adds [OF assms(1), of ?n ?n 0 0 ?n out cv out'] assms(5)
    by (simp add: compile_matrix_def chunks_of_len)
qed

lemma mark_hash_aux: "mark_hash f cv out = Ok out' \<Longrightarrow> out_msgs out' = out_msgs out \<and> out_cvs out' = out_cvs out"
  by (auto simp: mark_hash_def res_bind_Ok_iff split: cv_type.splits)

lemma program_locations:
  assumes sane: "public_params_sanity_check p = Ok ()" and inside: "rows_inside p"
    and len: "dot_product_length (p_config p) = Ok len" and prog: "blake_program_new p = Ok (prog, msgs, cvs)"
  shows "\<forall>l \<in> set msgs. msg_location_ok (side p len (msg_is_b l)) (chunks_of (side p len (msg_is_b l))) l"
    and "\<forall>l \<in> set cvs. cv_location_ok (side p len (cv_is_b l)) (chunks_of (side p len (cv_is_b l))) l"
proof -
  note st = sane_strips [OF sane len]
  let ?a = "compile_a p len" and ?b = "compile_b p len"
  let ?o = "\<lparr>out_instructions = [], out_msgs = [], out_cvs = []\<rparr>"
  obtain av out1 where c1: "compile_matrix ?a ?o = (av, out1)" by fastforce
  obtain out2 where c2: "mark_hash (\<lambda>i. i\<lparr>is_hash_a := True\<rparr>) av out1 = Ok out2"
    using prog by (auto simp: blake_program_new_def len c1 res_bind_Ok_iff)
  obtain bv out3 where c3: "compile_matrix ?b out2 = (bv, out3)" by fastforce
  obtain out4 where c4: "mark_hash (\<lambda>i. i\<lparr>is_hash_b := True\<rparr>) bv out3 = Ok out4" and c5: "msgs = out_msgs out4" "cvs = out_cvs out4"
    using prog by (auto simp: blake_program_new_def len c1 c2 c3 res_bind_Ok_iff)
  have ok: "hotspot_strips ?a \<noteq> []" "\<forall>r \<in> set (hotspot_strips ?a). unat r < num_rows ?a"
    "hotspot_strips ?b \<noteq> []" "\<forall>r \<in> set (hotspot_strips ?b). unat r < num_rows ?b"
    using inside by (auto simp: rows_inside_def compile_a_def compile_b_def word_less_nat_alt)
  have "adds ?a (chunks_of ?a) ?o out1" "adds ?b (chunks_of ?b) out2 out3"
    using st(1,2) compile_matrix_adds [OF _ _ ok(1,2) c1] compile_matrix_adds [OF _ _ ok(3,4) c3]
    by (simp_all add: compile_a_def compile_b_def)
  then obtain ma mb ca cb where "msgs = ma @ mb" "cvs = ca @ cb"
    "\<forall>l \<in> set ma. msg_location_ok ?a (chunks_of ?a) l" "\<forall>l \<in> set mb. msg_location_ok ?b (chunks_of ?b) l"
    "\<forall>l \<in> set ca. cv_location_ok ?a (chunks_of ?a) l" "\<forall>l \<in> set cb. cv_location_ok ?b (chunks_of ?b) l"
    using mark_hash_aux [OF c2] mark_hash_aux [OF c4] c5 by (auto simp: adds_def)
  moreover have "msg_location_ok ?a n l \<Longrightarrow> \<not> msg_is_b l" "msg_location_ok ?b n l \<Longrightarrow> msg_is_b l" for n l
    by (simp_all add: msg_location_ok_def compile_a_def compile_b_def)
  moreover have "cv_location_ok ?a n l \<Longrightarrow> \<not> cv_is_b l" "cv_location_ok ?b n l \<Longrightarrow> cv_is_b l" for n l
    by (simp_all add: cv_location_ok_def compile_a_def compile_b_def)
  ultimately show "\<forall>l \<in> set msgs. msg_location_ok (side p len (msg_is_b l)) (chunks_of (side p len (msg_is_b l))) l"
    and "\<forall>l \<in> set cvs. cv_location_ok (side p len (cv_is_b l)) (chunks_of (side p len (cv_is_b l))) l"
    by (auto simp: side_def)
qed

section \<open>What an opening of the rows provides\<close>

definition covers :: "compile_in \<Rightarrow> nat list \<Rightarrow> bool" where
  "covers c S \<longleftrightarrow> (\<forall>s cnt. 0 < cnt \<longrightarrow> intersects_strips c (1024 * s) (1024 * (s + cnt)) \<longrightarrow> known (set S) s cnt)"

lemma rows_cover:
  assumes "0 < row_len c" "strip_len c \<le> row_len c"
    and "\<forall>r \<in> set (hotspot_strips c). (unat r + 1) * row_len c < 2 ^ 64"
    and "S = compute_leaf_indices_from_rows (map unat (hotspot_strips c)) (m, row_len c)"
  shows "covers c S"
  unfolding covers_def
proof (intro allI impI)
  fix s cnt :: nat assume pos: "0 < cnt" and "intersects_strips c (1024 * s) (1024 * (s + cnt))"
  then obtain r where r: "r \<in> set (hotspot_strips c)" "1024 * s < unat r * row_len c + strip_len c" "unat r * row_len c < 1024 * (s + cnt)"
    by (auto simp: intersects_strips_def intervals_intersect_def list_ex_iff)
  define x where "x = max (1024 * s) (unat r * row_len c)"
  have e: "(unat r + 1) * row_len c = unat r * row_len c + row_len c" by simp
  have x: "1024 * s \<le> x \<and> x < 1024 * (s + cnt) \<and> unat r * row_len c \<le> x \<and> x \<le> (unat r + 1) * row_len c - 1"
    unfolding e x_def using r pos assms(1,2) by (cases "1024 * s \<le> unat r * row_len c") (simp_all add: max_def)
  have "unat r * row_len c div 1024 \<le> x div 1024" "x div 1024 \<le> ((unat r + 1) * row_len c - 1) div 1024"
    using x by (simp_all only: div_le_mono)
  moreover have "set S = (\<Union>row \<in> set (map unat (hotspot_strips c)). {row * row_len c div 1024..((row + 1) * row_len c - 1) div 1024})"
    unfolding assms(4) by (rule leaf_indices_from_rows_set) (use assms(1,3) in auto)
  ultimately have "x div 1024 \<in> set S" using r(1) by auto
  moreover have "s \<le> x div 1024" using x by linarith
  moreover have "x div 1024 < s + cnt" using x by (intro less_mult_imp_div_less) (simp add: mult.commute)
  ultimately show "known (set S) s cnt" by (auto simp: known_def)
qed

lemma opened_range:
  assumes op: "opens B key data n S p" and in_range: "gs + len \<le> length data"
    and cov: "\<And>x. x < len \<Longrightarrow> (gs + x) div 1024 \<in> set S"
  shows "extract_bytes p gs len = Ok (subrange gs (gs + len) data)"
proof -
  note o = opens_parts [OF op]
  from op have d: "length data = n * 1024" "\<forall>i \<in> set S. i < n" by (simp_all add: opens_def)
  from extract_bytes_eq [OF d(1) _ _ o(1,2) in_range] d(2) cov strict_sorted_iff [of "btree_set S"]
  show ?thesis by simp
qed

lemma msg_opened:
  assumes op: "opens B key data n S p" and cov: "covers c S" and loc: "msg_location_ok c n l"
  shows "extract_bytes p (msg_global_start l) 64 = Ok (subrange (msg_global_start l) (msg_global_start l + 64) data)"
proof -
  from loc obtain i where i: "i < n" "1024 * i \<le> msg_global_start l" "msg_global_start l + 64 \<le> 1024 * (i + 1)"
    "intersects_strips c (1024 * i) (1024 * (i + 1))" by (auto simp: msg_location_ok_def)
  then have "known (set S) i 1" using cov by (simp only: covers_def)
  then have S: "i \<in> set S" by (simp only: known_leaf)
  have "(msg_global_start l + x) div 1024 = i" if "x < 64" for x
    using i(2,3) that by (intro div_nat_eqI) simp_all
  moreover have "1024 * (i + 1) \<le> length data" using op i(1) by (simp add: opens_def)
  ultimately show ?thesis using S i(3) by (intro opened_range [OF op]) simp_all
qed

lemma node_value_tree:
  assumes "blake3_spec B key" "length data = 1024 * n" "n < 2 ^ 48" "tree_node n l j s c"
  shows "node_value B key data s c = tree_value key data (1024 * s) (1024 * (s + c)) False"
proof -
  have "1 \<le> c" "s + c \<le> n" using assms(4) by (auto simp: tree_node_def Suc_le_eq)
  from tree_value_balanced [OF assms(1-3) this] show ?thesis
    by (simp add: leaf_value_def [abs_def] data_chunk_def CHUNK_LEN_def)
qed

lemma cv_opened:
  assumes op: "opens B key data n S p" and cov: "covers c S" and loc: "cv_location_ok c n l"
    and spec: "blake3_spec B key" "n < 2 ^ 48"
  shows "external_cv B p (compute_sibling_ranges p (1024 * n)) key l
    = Some (Ok (tree_value key data (cv_global_start l) (cv_global_end l) False))"
proof -
  from loc obtain k j s cnt where t: "tree_node n k j s cnt" "node_touched c n k j s cnt"
    and e: "cv_global_start l = 1024 * s" "cv_global_end l = 1024 * (s + cnt)" by (auto simp: cv_location_ok_def)
  have kn: "known (set S) s cnt \<or> ranged (compute_sibling_ranges p (1024 * n)) s cnt"
  proof (cases "known (set S) s cnt")
    case False
    have pos: "tree_node n k' j' s' c' \<Longrightarrow> 0 < c'" for k' j' s' c' by (simp add: tree_node_def)
    from t(2) False cov pos [OF t(1)] obtain s' c' where "tree_node n k (sibling_index j) s' c'" "known (set S) s' c'"
      unfolding node_touched_def covers_def using pos by blast
    with split_ranged [OF op t(1) _ False] show ?thesis by blast
  qed simp
  have d: "length data = 1024 * n" using op by (simp add: opens_def)
  note v = node_value_tree [OF spec(1) d spec(2) t(1)]
  from find_range [OF op t(1)] compute_cv_node [OF op t(1) kn]
  show ?thesis by (simp add: external_cv_def e v with_context_def del: distrib_left_numeral)
qed

lemma try_map_all: "(\<And>x. x \<in> set xs \<Longrightarrow> f x = Some (Ok (g x))) \<Longrightarrow> try_map f xs = Some (Ok (map g xs))"
  by (induction xs) simp_all

text \<open>Both matrices of parameters that pass the check.\<close>

definition increasing_rows :: "compile_in \<Rightarrow> bool" where
  "increasing_rows c \<longleftrightarrow> strictly_increasing (hotspot_strips c) \<and> 2 \<le> length (hotspot_strips c)"

lemma side_fields:
  assumes "public_params_sanity_check p = Ok ()" "rows_inside p" "dot_product_length (p_config p) = Ok len"
  shows "strip_len (side p len b) = len" "row_len (side p len b) = pub_common_dim p" "is_b_matrix (side p len b) = b"
    "\<forall>r \<in> set (hotspot_strips (side p len b)). unat r < num_rows (side p len b)" "num_rows (side p len b) \<le> 2 ^ 24"
  using assms(2) sane_strips [OF assms(1,3)]
  by (auto simp: side_def compile_a_def compile_b_def rows_inside_def word_less_nat_alt)

lemma two_rows: "increasing_rows c \<Longrightarrow> \<forall>r \<in> set (hotspot_strips c). unat r < num_rows c \<Longrightarrow> 2 \<le> num_rows c"
proof -
  assume a: "increasing_rows c" "\<forall>r \<in> set (hotspot_strips c). unat r < num_rows c"
  then have "hotspot_strips c ! 0 < hotspot_strips c ! 1" "hotspot_strips c ! 1 \<in> set (hotspot_strips c)"
    by (auto simp: increasing_rows_def strictly_increasing_def list_all_iff dest: bspec [of _ _ 0])
  with a(2) show ?thesis by (fastforce simp: word_less_nat_alt)
qed

lemma padded_exact: "L mod 1024 = 0 \<Longrightarrow> padded_chunk_len L = L"
  by (auto simp: mod_eq_0_iff_dvd padded_chunk_len_def CHUNK_LEN_def elim!: dvdE)

lemma side_opens:
  fixes p len b defines "c \<equiv> side p len b"
  assumes spec: "blake3_spec B key" and sane: "public_params_sanity_check p = Ok ()" and inside: "rows_inside p"
    and len: "dot_product_length (p_config p) = Ok len" and inc: "increasing_rows c"
    and D: "length D = padded_chunk_len (num_rows c * row_len c)"
    and S: "S = compute_leaf_indices_from_rows (map unat (hotspot_strips c)) (num_rows c, row_len c)"
  shows "1024 * chunks_of c = length D" "chunks_of c < 2 ^ 48" "covers c S"
    and "\<exists>pr. opens B key D (chunks_of c) S pr"
    and "opens B key D (chunks_of c) S pr \<Longrightarrow> r \<in> set (hotspot_strips c) \<Longrightarrow>
      extract_bytes pr (unat r * row_len c) len = Ok (subrange (unat r * row_len c) (unat r * row_len c + len) D)"
proof -
  note f = side_fields [OF sane inside len, of b, folded c_def]
  note st = sane_strips [OF sane len]
  have k: "1024 \<le> row_len c" using sane f(2) by (auto simp: public_params_sanity_check_def Let_def res_bind_Ok_iff)
  have m: "2 \<le> num_rows c" by (rule two_rows [OF inc f(4)])
  note pc = padded_chunk_len_bounds [of "num_rows c * row_len c", folded D]
  show n: "1024 * chunks_of c = length D" using chunks_of_len [of c] D by simp
  have "num_rows c * row_len c \<le> 2 ^ 24 * 2 ^ 16" unfolding f(2) using f(5) st(6) by (intro mult_mono) simp_all
  with pc(4) have small: "length D \<le> 2 ^ 41" by simp
  with n show "chunks_of c < 2 ^ 48" by simp
  have "2 * 1024 \<le> num_rows c * row_len c" using k m by (intro mult_mono) simp_all
  with n pc(1) have n2: "2 \<le> chunks_of c" by linarith
  have row: "(unat r + 1) * row_len c \<le> length D" if "r \<in> set (hotspot_strips c)" for r
  proof -
    have "(unat r + 1) * row_len c \<le> num_rows c * row_len c"
      using f(4) that by (intro mult_right_mono) (auto simp: Suc_le_eq)
    with pc(1) show ?thesis by linarith
  qed
  have row64: "\<forall>r \<in> set (hotspot_strips c). (unat r + 1) * row_len c < 2 ^ 64" using row small by fastforce
  have "row_len c > 0" using k by simp
  show cov: "covers c S" by (rule rows_cover) (use f(1,2) st(2) row64 S \<open>row_len c > 0\<close> in simp_all)
  have set_S: "set S = (\<Union>row \<in> set (map unat (hotspot_strips c)). {row * row_len c div 1024..((row + 1) * row_len c - 1) div 1024})"
    unfolding S by (rule leaf_indices_from_rows_set) (use row64 \<open>row_len c > 0\<close> in auto)
  have bound: "\<forall>i \<in> set S. i < chunks_of c"
  proof
    fix i assume "i \<in> set S"
    then obtain r where r: "r \<in> set (hotspot_strips c)" "i \<le> ((unat r + 1) * row_len c - 1) div 1024" unfolding set_S by auto
    have "(unat r + 1) * row_len c - 1 < chunks_of c * 1024" using row [OF r(1)] n \<open>row_len c > 0\<close> by auto
    then have "((unat r + 1) * row_len c - 1) div 1024 < chunks_of c" by (rule less_mult_imp_div_less)
    with r(2) show "i < chunks_of c" by simp
  qed
  have ne: "S \<noteq> []"
  proof -
    obtain r where "r \<in> set (hotspot_strips c)" using inc by (cases "hotspot_strips c") (auto simp: increasing_rows_def)
    moreover have "unat r * row_len c div 1024 \<le> ((unat r + 1) * row_len c - 1) div 1024" for r
      using \<open>row_len c > 0\<close> by (intro div_le_mono) simp
    ultimately have "unat r * row_len c div 1024 \<in> set S" unfolding set_S by force
    then show ?thesis by auto
  qed
  have law: "simd_law B key" using spec by (simp add: blake3_spec_def)
  have n': "length D = chunks_of c * 1024" using n by simp
  from multileaf_proof_Ok [OF law n' n2 ne bound]
  show "\<exists>pr. opens B key D (chunks_of c) S pr" using law n' n2 ne bound unfolding opens_def by blast
  show "extract_bytes pr (unat r * row_len c) len = Ok (subrange (unat r * row_len c) (unat r * row_len c + len) D)"
    if "opens B key D (chunks_of c) S pr" "r \<in> set (hotspot_strips c)"
  proof (rule opened_range [OF that(1)])
    show "unat r * row_len c + len \<le> length D" using row [OF that(2)] st(2) f(2) by simp
    fix x assume x: "x < len"
    let ?s = "(unat r * row_len c + x) div 1024"
    have "1024 * ?s \<le> unat r * row_len c + x" "unat r * row_len c + x < 1024 * (?s + 1)"
      using dividend_less_div_times [of 1024 "unat r * row_len c + x"] by simp_all
    with x that(2) f(1) have "intersects_strips c (1024 * ?s) (1024 * (?s + 1))"
      unfolding intersects_strips_def intervals_intersect_def list_ex_iff by (intro bexI [of _ r]) (auto intro: le_less_trans)
    then have "known (set S) ?s 1" using cov by (simp only: covers_def)
    then show "?s \<in> set S" by (simp only: known_leaf)
  qed
qed

section \<open>A mined proof parses\<close>

text \<open>The patterns of the configuration are the ones the verifier reads back from the row and column lists.\<close>

definition canonical_rows :: "public_params \<Rightarrow> bool" where
  "canonical_rows p \<longleftrightarrow> list_to_pattern (a_rows_indices p) = Ok (rows_pattern (p_config p), t_rows p)
     \<and> list_to_pattern (b_cols_indices p) = Ok (cols_pattern (p_config p), t_cols p)"

lemma canonical_increasing:
  assumes "canonical_rows p" "public_params_sanity_check p = Ok ()" "rows_inside p"
  shows "increasing_rows (side p len b)"
proof -
  have hw: "2 dvd pub_h p" "2 dvd pub_w p"
    using assms(2) by (auto simp: public_params_sanity_check_def Let_def res_bind_Ok_iff TILE_H_def mod_eq_0_iff_dvd)
  have len: "length (a_rows_indices p) = pub_h p" "length (b_cols_indices p) = pub_w p" "0 < length (a_rows_indices p)" "0 < length (b_cols_indices p)"
    using assms(3) unfolding rows_inside_def length_greater_0_conv by blast+
  then have "2 \<le> length (a_rows_indices p)" "2 \<le> length (b_cols_indices p)"
    using hw dvd_imp_le [of 2 "pub_h p"] dvd_imp_le [of 2 "pub_w p"] by simp_all
  moreover have "strictly_increasing (a_rows_indices p)" "strictly_increasing (b_cols_indices p)"
    using assms(1) by (auto simp: canonical_rows_def list_to_pattern_def split: if_splits)
  ultimately show ?thesis by (simp add: increasing_rows_def side_def compile_a_def compile_b_def)
qed

lemma strips_extracted:
  assumes "\<And>r. r \<in> set rows \<Longrightarrow> extract_bytes pr (unat r * k) len = Ok (subrange (unat r * k) (unat r * k + len) D)" "k = pub_common_dim p"
  shows "extract_strips (map unat rows) k len pr = Ok (strips_from p len rows D)"
proof -
  have "extract_strips (map unat rows) k len pr = res_map (\<lambda>r. with_context ''Failed to extract strip''
       (res_bind (extract_bytes pr (unat r * k) len) (\<lambda>b. Ok (map ucast b)))) rows"
    by (simp add: extract_strips_def res_map_map)
  also have "\<dots> = Ok (map (\<lambda>r. map ucast (subrange (unat r * k) (unat r * k + len) D)) rows)"
    by (rule res_map_all_Ok) (simp add: assms(1) with_context_def)
  finally show ?thesis by (simp add: strips_from_def assms(2))
qed

lemma job_key_hashes: "job_key d (p\<lparr>hash_a := ha, hash_b := hb, hash_jackpot := hj\<rparr>) = job_key d p"
  by (simp add: job_key_def)

lemma program_hashes_irrelevant:
  "blake_program_new (p\<lparr>hash_a := ha, hash_b := hb, hash_jackpot := hj\<rparr>) = blake_program_new p"
  by (simp add: blake_program_new_def compile_a_def compile_b_def a_rows_indices_def b_cols_indices_def
      pub_common_dim_def pub_h_def pub_w_def)

definition row_leaves :: "public_params \<Rightarrow> nat list" where
  "row_leaves p = compute_leaf_indices_from_rows (map unat (a_rows_indices p)) (unat (p_m p), pub_common_dim p)"

definition col_leaves :: "public_params \<Rightarrow> nat list" where
  "col_leaves p = compute_leaf_indices_from_rows (map unat (b_cols_indices p)) (unat (p_n p), pub_common_dim p)"

definition plain_of :: "public_params \<Rightarrow> merkle_proof \<Rightarrow> merkle_proof \<Rightarrow> plain_proof" where
  "plain_of p pa pb = \<lparr>pf_m = unat (p_m p), pf_n = unat (p_n p), pf_k = pub_common_dim p, noise_rank = pub_rank p,
      pf_a = \<lparr>mproof = pa, row_indices = map unat (a_rows_indices p)\<rparr>,
      pf_bt = \<lparr>mproof = pb, row_indices = map unat (b_cols_indices p)\<rparr>\<rparr>"

lemma openings_parse:
  assumes spec: "blake3_spec B key" and sane: "public_params_sanity_check p = Ok ()" and inside: "rows_inside p"
    and canon: "canonical_rows p" and key: "job_key (blake3_digest B) p = Ok key"
    and A: "length A = padded_chunk_len (unat (p_m p) * pub_common_dim p)"
    and Bt: "length Bt = padded_chunk_len (unat (p_n p) * pub_common_dim p)"
  shows "\<exists>pa pb priv len. get_multileaf_proof (merkle_tree_new B A key) (row_leaves p) = Ok pa
    \<and> get_multileaf_proof (merkle_tree_new B Bt key) (col_leaves p) = Ok pb
    \<and> tree_root (merkle_tree_new B A key) = Ok (proof_root pa) \<and> tree_root (merkle_tree_new B Bt key) = Ok (proof_root pb)
    \<and> parse_plain_proof B (p_header p) (plain_of p pa pb)
        = Some (Ok (priv, p\<lparr>hash_a := proof_root pa, hash_b := proof_root pb, hash_jackpot := replicate 32 0xff\<rparr>))
    \<and> sanity_check_private_params B (p\<lparr>hash_a := proof_root pa, hash_b := proof_root pb, hash_jackpot := replicate 32 0xff\<rparr>) priv = Ok ()
    \<and> dot_product_length (p_config p) = Ok len
    \<and> s_a priv = strips_from p len (a_rows_indices p) A \<and> s_b priv = strips_from p len (b_cols_indices p) Bt"
proof -
  obtain len where len: "dot_product_length (p_config p) = Ok len"
    using sane by (auto simp: public_params_sanity_check_def Let_def res_bind_Ok_iff)
  note st = sane_strips [OF sane len]
  let ?k = "pub_common_dim p" and ?ca = "side p len False" and ?cb = "side p len True"
  have ca: "hotspot_strips ?ca = a_rows_indices p" "num_rows ?ca = unat (p_m p)" "row_len ?ca = ?k"
    and cb: "hotspot_strips ?cb = b_cols_indices p" "num_rows ?cb = unat (p_n p)" "row_len ?cb = ?k"
    by (simp_all add: side_def compile_a_def compile_b_def)
  note inc = canonical_increasing [OF canon sane inside]
  have DA: "length A = padded_chunk_len (num_rows ?ca * row_len ?ca)" "row_leaves p = compute_leaf_indices_from_rows (map unat (hotspot_strips ?ca)) (num_rows ?ca, row_len ?ca)"
    and DB: "length Bt = padded_chunk_len (num_rows ?cb * row_len ?cb)" "col_leaves p = compute_leaf_indices_from_rows (map unat (hotspot_strips ?cb)) (num_rows ?cb, row_len ?cb)"
    using A Bt by (simp_all add: ca cb row_leaves_def col_leaves_def)
  note oa = side_opens [OF spec sane inside len inc DA] and ob = side_opens [OF spec sane inside len inc DB]
  obtain pa where pa: "opens B key A (chunks_of ?ca) (row_leaves p) pa" using oa(4) by blast
  obtain pb where pb: "opens B key Bt (chunks_of ?cb) (col_leaves p) pb" using ob(4) by blast
  define pf where "pf = plain_of p pa pb"
  note pf_def = pf_def [unfolded plain_of_def]
  let ?pub = "p\<lparr>hash_a := proof_root pa, hash_b := proof_root pb, hash_jackpot := replicate 32 0xff\<rparr>"
  have reserved: "reserved (p_config p) = RESERVED_VALUE"
    using sane by (auto simp: public_params_sanity_check_def Let_def res_bind_Ok_iff)
  have pub: "public_of_plain (p_header p) pf (rows_pattern (p_config p)) (t_rows p) (cols_pattern (p_config p)) (t_cols p) = ?pub"
    using reserved by (cases "mma_type (p_config p)") (simp add: public_of_plain_def pf_def pub_common_dim_def pub_rank_def)
  from program_new [OF sane inside len] obtain prog out where P: "blake_program_new p = Ok (prog, out_msgs out, out_cvs out)"
    and run: "\<forall>key A B priv. length A = padded_chunk_len (unat (p_m p) * ?k) \<and> length B = padded_chunk_len (unat (p_n p) * ?k)
          \<and> s_a priv = strips_from p len (a_rows_indices p) A \<and> s_b priv = strips_from p len (b_cols_indices p) B
          \<and> supplies key priv (matrices A B) out
        \<longrightarrow> evaluate_blake prog key priv = Ok (tree_value key A 0 (length A) True, tree_value key B 0 (length B) True)"
    by (elim exE conjE)
  note locs = program_locations [OF sane inside len P]
  let ?msgs = "out_msgs out" and ?cvs = "out_cvs out"
  define priv where "priv = opened_inputs p len key A Bt ?msgs ?cvs"
  have strips: "extract_strips (map unat (a_rows_indices p)) ?k len pa = Ok (s_a priv)"
    "extract_strips (map unat (b_cols_indices p)) ?k len pb = Ok (s_b priv)"
    using oa(5) [OF pa] ob(5) [OF pb]
    by (simp_all add: ca cb priv_def opened_inputs_def strips_extracted)
  have msgs: "extract_external_messages ?msgs pf = Ok (external_msgs priv)"
    unfolding extract_external_messages_def priv_def opened_inputs_def private_params.select_convs
  proof (rule res_map_all_Ok)
    fix l assume "l \<in> set ?msgs"
    with locs(1) have "msg_location_ok (side p len (msg_is_b l)) (chunks_of (side p len (msg_is_b l))) l" by blast
    then show "extract_bytes (if msg_is_b l then mproof (pf_bt pf) else mproof (pf_a pf)) (msg_global_start l) 64
        = Ok (subrange (msg_global_start l) (msg_global_start l + 64) (matrices A Bt (msg_is_b l)))"
      using msg_opened [OF pa oa(3)] msg_opened [OF pb ob(3)] by (cases "msg_is_b l") (simp_all add: pf_def matrices_def)
  qed
  have pad: "padded_chunk_len (unat (p_m p) * ?k) = 1024 * chunks_of ?ca" "padded_chunk_len (unat (p_n p) * ?k) = 1024 * chunks_of ?cb"
    using A Bt oa(1) ob(1) by simp_all
  have cvs: "compute_external_cvs B ?cvs pf (unat (p_m p)) (unat (p_n p)) ?k key = Some (Ok (external_cvs priv))"
    unfolding compute_external_cvs_def Let_def priv_def opened_inputs_def private_params.select_convs pad
  proof (rule try_map_all)
    fix l assume "l \<in> set ?cvs"
    with locs(2) have "cv_location_ok (side p len (cv_is_b l)) (chunks_of (side p len (cv_is_b l))) l" by blast
    then show "(if cv_is_b l then external_cv B (mproof (pf_bt pf)) (compute_sibling_ranges (mproof (pf_bt pf)) (1024 * chunks_of ?cb)) key l
        else external_cv B (mproof (pf_a pf)) (compute_sibling_ranges (mproof (pf_a pf)) (1024 * chunks_of ?ca)) key l)
      = Some (Ok (tree_value key (matrices A Bt (cv_is_b l)) (cv_global_start l) (cv_global_end l) False))"
      using cv_opened [OF pa oa(3) _ spec oa(2)] cv_opened [OF pb ob(3) _ spec ob(2)]
      by (cases "cv_is_b l") (simp_all add: pf_def matrices_def)
  qed
  have roots: "tree_value key A 0 (length A) True = proof_root pa" "tree_value key Bt 0 (length Bt) True = proof_root pb"
    "tree_root (merkle_tree_new B A key) = Ok (proof_root pa)" "tree_root (merkle_tree_new B Bt key) = Ok (proof_root pb)"
  proof -
    have "length A = 1024 * chunks_of ?ca" "length Bt = 1024 * chunks_of ?cb" "1 \<le> chunks_of ?ca" "1 \<le> chunks_of ?cb"
      using oa(1) ob(1) pa pb by (simp_all add: opens_def)
    from tree_value_root [OF spec this(1,3) oa(2)] tree_value_root [OF spec this(2,4) ob(2)] this(1,2)
    show "tree_value key A 0 (length A) True = proof_root pa" "tree_value key Bt 0 (length Bt) True = proof_root pb"
      "tree_root (merkle_tree_new B A key) = Ok (proof_root pa)" "tree_root (merkle_tree_new B Bt key) = Ok (proof_root pb)"
      using opens_parts(4) [OF pa] opens_parts(4) [OF pb] by simp_all
  qed
  have eval: "evaluate_blake prog key priv = Ok (proof_root pa, proof_root pb)"
    unfolding roots [symmetric]
    by (rule run [rule_format]) (use A Bt in \<open>simp_all add: priv_def opened_supplies\<close>, simp_all add: opened_inputs_def)
  define comp where "comp = \<lparr>c_job_key = key, c_k = ?k, c_h = pub_h p, c_w = pub_w p, c_r = pub_rank p, blake_proof = prog,
          c_a_rows = map unat (a_rows_indices p), c_b_cols = map unat (b_cols_indices p),
          c_commitment = commitment_hash (blake3_digest B) ?pub key\<rparr>"
  have compiled: "compile_params B ?pub = Ok (comp, ?msgs, ?cvs)"
    unfolding compile_params_def program_hashes_irrelevant job_key_hashes
    by (simp add: P key comp_def pub_common_dim_def pub_h_def pub_w_def pub_rank_def a_rows_indices_def b_cols_indices_def)
  have priv: "priv = \<lparr>s_a = s_a priv, s_b = s_b priv, external_msgs = external_msgs priv, external_cvs = external_cvs priv\<rparr>" by simp
  have rows: "map of_nat (row_indices (pf_a pf)) = a_rows_indices p" "map of_nat (row_indices (pf_bt pf)) = b_cols_indices p"
    by (simp_all add: pf_def comp_def map_idI)
  have pats: "list_to_pattern (a_rows_indices p) = Ok (rows_pattern (p_config p), t_rows p)"
    "list_to_pattern (b_cols_indices p) = Ok (cols_pattern (p_config p), t_cols p)" using canon by (simp_all add: canonical_rows_def)
  have fields: "row_indices (pf_a pf) = map unat (a_rows_indices p)" "row_indices (pf_bt pf) = map unat (b_cols_indices p)"
    "mproof (pf_a pf) = pa" "mproof (pf_bt pf) = pb" "pf_m pf = unat (p_m p)" "pf_n pf = unat (p_n p)" "pf_k pf = ?k"
    by (simp_all add: pf_def)
  have "parse_plain_proof B (p_header p) pf = Some (Ok (priv, ?pub))"
    unfolding parse_plain_proof_def rows pats Let_def try_bind.simps prod.case pub compiled
    by (simp add: len fields strips msgs cvs key job_key_hashes comp_def, simp add: priv [symmetric] eval)
  moreover have "sanity_check_private_params B ?pub priv = Ok ()"
    by (simp add: sanity_check_private_params_def compiled, simp add: comp_def eval, simp add: priv_def opened_inputs_def)
  ultimately show ?thesis using pa pb roots(3,4) len
    by (intro exI [of _ pa] exI [of _ pb] exI [of _ priv] exI [of _ len])
      (simp add: opens_def priv_def opened_inputs_def pf_def plain_of_def)
qed

text \<open>C4: A mined proof parses.  For public parameters that pass the sanity check, with the proved rows and columns
  inside the matrices and patterns the verifier reads back unchanged, and for matrices of those sizes that are
  whole chunks, the plain proof built from the matrices under the job's key is accepted by the parser: it
  returns the same parameters with the two Merkle roots filled in, the opened strips are the prefixes of the proved
  rows and columns, and the private inputs pass the prover's own check.\<close>

theorem mined_proof_parses:
  assumes "blake3_spec B key" "public_params_sanity_check p = Ok ()" "rows_inside p" "canonical_rows p"
    and "job_key (blake3_digest B) p = Ok key"
    and "length A = unat (p_m p) * pub_common_dim p" "length A mod 1024 = 0"
    and "length Bt = unat (p_n p) * pub_common_dim p" "length Bt mod 1024 = 0"
  shows "\<exists>pf ra rb priv len. build_plain_proof B (unat (p_m p)) (unat (p_n p)) (pub_common_dim p) (pub_rank p) A Bt
        (map unat (a_rows_indices p)) (map unat (b_cols_indices p)) key = Ok pf
    \<and> tree_root (merkle_tree_new B A key) = Ok ra \<and> tree_root (merkle_tree_new B Bt key) = Ok rb
    \<and> parse_plain_proof B (p_header p) pf = Some (Ok (priv, p\<lparr>hash_a := ra, hash_b := rb, hash_jackpot := replicate 32 0xff\<rparr>))
    \<and> sanity_check_private_params B (p\<lparr>hash_a := ra, hash_b := rb, hash_jackpot := replicate 32 0xff\<rparr>) priv = Ok ()
    \<and> dot_product_length (p_config p) = Ok len
    \<and> s_a priv = strips_from p len (a_rows_indices p) A \<and> s_b priv = strips_from p len (b_cols_indices p) Bt"
proof -
  have "length A = padded_chunk_len (unat (p_m p) * pub_common_dim p)" "length Bt = padded_chunk_len (unat (p_n p) * pub_common_dim p)"
    using assms(6-9) by (simp_all add: padded_exact)
  from openings_parse [OF assms(1-5) this] obtain pa pb priv len where
    o: "get_multileaf_proof (merkle_tree_new B A key) (row_leaves p) = Ok pa" "get_multileaf_proof (merkle_tree_new B Bt key) (col_leaves p) = Ok pb"
    "tree_root (merkle_tree_new B A key) = Ok (proof_root pa)" "tree_root (merkle_tree_new B Bt key) = Ok (proof_root pb)"
    "parse_plain_proof B (p_header p) (plain_of p pa pb)
        = Some (Ok (priv, p\<lparr>hash_a := proof_root pa, hash_b := proof_root pb, hash_jackpot := replicate 32 0xff\<rparr>))"
    "sanity_check_private_params B (p\<lparr>hash_a := proof_root pa, hash_b := proof_root pb, hash_jackpot := replicate 32 0xff\<rparr>) priv = Ok ()"
    "dot_product_length (p_config p) = Ok len"
    "s_a priv = strips_from p len (a_rows_indices p) A" "s_b priv = strips_from p len (b_cols_indices p) Bt" by (elim exE conjE)
  have "build_plain_proof B (unat (p_m p)) (unat (p_n p)) (pub_common_dim p) (pub_rank p) A Bt
        (map unat (a_rows_indices p)) (map unat (b_cols_indices p)) key = Ok (plain_of p pa pb)"
    using o(1,2) assms(6,8) by (simp add: build_plain_proof_def lift_merkle_def plain_of_def row_leaves_def col_leaves_def)
  with o(3-9) show ?thesis by (intro exI conjI)
qed

lemma length_words_le: "length (concat (map u32_le ws)) = 4 * length ws"
  by (induction ws) simp_all

lemma key_words_back:
  assumes "length key = 32" shows "concat (map u32_le (key_to_words key)) = key"
proof -
  have "map (\<lambda>i. u32_le (u32_from_le (subrange (i * 4) (i * 4 + 4) key))) [0..<8] = map (\<lambda>i. subrange (i * 4) (i * 4 + 4) key) [0..<8]"
    using assms by (intro map_cong refl u32_le_from_le) auto
  then have "concat (map u32_le (key_to_words key)) = concat (map (\<lambda>i. subrange (i * 4) (i * 4 + 4) key) [0..<8])"
    by (simp only: key_to_words_def map_map comp_def)
  also have "\<dots> = subrange 0 32 key"
    by (simp add: upt_rec subrange_join)
  finally show ?thesis using assms by (simp add: subrange_def)
qed

lemma length_blake3_compress [simp]: "length (blake3_compress m cv tw) = 32"
  unfolding blake3_compress_def Let_def length_words_le by (simp add: compress_def Let_def)

lemma length_chunk_value: "length (chunk_value key chunk i root) = 32"
  by (simp add: chunk_value_def upt_rec)

lemma sample_job_key: "\<exists>key. job_key (blake3_digest spec_blake3) sample_params = Ok key \<and> length key = 32"
proof -
  have "(case config_to_bytes (p_config sample_params) of Ok bs \<Rightarrow> True | _ \<Rightarrow> False)" by code_simp
  then show ?thesis
    by (auto simp: job_key_def blake3_digest_def spec_blake3_def length_chunk_value split: res.splits)
qed

lemma sample_canonical: "canonical_rows sample_params" "rows_inside sample_params"
  by code_simp+

lemma sample_sizes: "unat (p_m sample_params) * pub_common_dim sample_params = 33554432"
    "unat (p_n sample_params) * pub_common_dim sample_params = 134217728"
  by (simp_all add: sample_params_def sample_config_def pub_common_dim_def)

lemma mined_proof_parses_witness:
  "\<exists>key pf r. job_key (blake3_digest spec_blake3) sample_params = Ok key
    \<and> build_plain_proof spec_blake3 (unat (p_m sample_params)) (unat (p_n sample_params)) (pub_common_dim sample_params) (pub_rank sample_params)
        (replicate 33554432 1) (replicate 134217728 2) (map unat (a_rows_indices sample_params)) (map unat (b_cols_indices sample_params)) key = Ok pf
    \<and> parse_plain_proof spec_blake3 (p_header sample_params) pf = Some (Ok r)"
proof -
  obtain key where key: "job_key (blake3_digest spec_blake3) sample_params = Ok key" "length key = 32" using sample_job_key by blast
  have "blake3_spec spec_blake3 key" by (intro spec_blake3_ok key_words_back key(2))
  from mined_proof_parses [OF this sample_params_sane sample_canonical(2,1) key(1), of "replicate 33554432 1" "replicate 134217728 2"]
  show ?thesis unfolding sample_sizes length_replicate using key(1) by auto
qed
end
