(* ===== verification/Pearl_Block.thy ===== *)
theory Pearl_Block
  imports Difficulty
begin

text \<open>
  Block construction (src/gateway/block.rs): the 108-byte Pearl header, the ZK certificate, the
  block the miner submits, CompactSize counts, the transaction Merkle root, script numbers and
  the coinbase transaction.  Parameters: the double SHA-256 of the \<open>bitcoin\<close> crate
  (\<open>sha256d\<close>), its transaction encoder and txid, its script builder for \<open>OP_RETURN\<close> followed by
  a push, and the \<open>bech32\<close> crate's checked decoder and regrouping of 5-bit elements.
\<close>

section \<open>Header and certificate\<close>

definition PROOF_COMMITMENT_SIZE :: nat where "PROOF_COMMITMENT_SIZE = 32"
definition PEARL_HEADER_SIZE :: nat where "PEARL_HEADER_SIZE = 76 + PROOF_COMMITMENT_SIZE"
definition PUBLICDATA_SIZE :: nat where "PUBLICDATA_SIZE = 164"
definition ZK_CERTIFICATE_VERSION :: u32 where "ZK_CERTIFICATE_VERSION = 1"
definition ZK_MAX_PROOF_DATA_SIZE :: nat where "ZK_MAX_PROOF_DATA_SIZE = 60000"

record pearl_header =
  incomplete :: block_header
  proof_commitment :: "bytes option"

record zk_certificate =
  header_hash :: bytes
  public_data :: bytes
  proof_data :: bytes

definition serialize_without_proof_commitment :: "pearl_header \<Rightarrow> bytes" where
  "serialize_without_proof_commitment h = header_to_bytes (incomplete h)"

definition pearl_header_serialize :: "pearl_header \<Rightarrow> bytes miner_res" where
  "pearl_header_serialize h =
     (let inc = serialize_without_proof_commitment h
      in res_bind (unwrap_opt (proof_commitment h)) (\<lambda>pc. Ok (inc @ pc)))"

definition certificate_serialize :: "zk_certificate \<Rightarrow> bytes miner_res" where
  "certificate_serialize c =
     res_bind (assert_res (length (public_data c) = PUBLICDATA_SIZE)) (\<lambda>_.
     res_bind (assert_res (length (proof_data c) \<le> ZK_MAX_PROOF_DATA_SIZE)) (\<lambda>_.
     Ok (u32_le ZK_CERTIFICATE_VERSION @ header_hash c @ public_data c
       @ u32_le (of_nat (length (proof_data c))) @ proof_data c)))"

definition compute_proof_commitment :: "(bytes \<Rightarrow> bytes) \<Rightarrow> bytes \<Rightarrow> bytes" where
  "compute_proof_commitment sha256d pdata = sha256d (u32_le ZK_CERTIFICATE_VERSION @ pdata)"

section \<open>Blocks\<close>

definition encode_varint :: "u64 \<Rightarrow> bytes \<Rightarrow> bytes" where
  "encode_varint n out =
     (if n < 0xfd then out @ [ucast n]
      else if n \<le> 0xffff then out @ [0xfd] @ u16_le (ucast n)
      else if n \<le> 0xffffffff then out @ [0xfe] @ u32_le (ucast n)
      else out @ [0xff] @ u64_le n)"

record 'tx pearl_block =
  header :: pearl_header
  txns :: "'tx list"
  certificate :: zk_certificate

text \<open>\<open>tx_encode\<close> is the crate's \<open>consensus_encode\<close>: the bytes it appends, or its error text.\<close>

definition block_serialize ::
  "('tx \<Rightarrow> (string, bytes) res) \<Rightarrow> 'tx pearl_block \<Rightarrow> bytes miner_res" where
  "block_serialize tx_encode b =
     res_bind (certificate_serialize (certificate b)) (\<lambda>cert.
     res_bind (pearl_header_serialize (header b)) (\<lambda>hdr.
     res_fold (\<lambda>tx out. res_bind (map_err (RpcError ''tx_serialize'') (tx_encode tx))
         (\<lambda>enc. Ok (out @ enc)))
       (txns b) (encode_varint (of_nat (length (txns b))) (cert @ hdr))))"

section \<open>Transaction Merkle root\<close>

fun merkle_pairs :: "(bytes \<Rightarrow> bytes) \<Rightarrow> bytes list \<Rightarrow> bytes list" where
  "merkle_pairs sha256d [] = []"
| "merkle_pairs sha256d [l] = [sha256d (l @ l)]"
| "merkle_pairs sha256d (l # r # rest) = sha256d (l @ r) # merkle_pairs sha256d rest"

lemma length_merkle_pairs: "length (merkle_pairs sha256d level) = (length level + 1) div 2"
  by (induction sha256d level rule: merkle_pairs.induct) simp_all

function merkle_level :: "(bytes \<Rightarrow> bytes) \<Rightarrow> bytes list \<Rightarrow> bytes" where
  "merkle_level sha256d level =
     (if length level > 1 then merkle_level sha256d (merkle_pairs sha256d level) else level ! 0)"
  by pat_completeness auto
termination
  by (relation "measure (\<lambda>(_, level). length level)") (auto simp: length_merkle_pairs)

declare merkle_level.simps [simp del]

definition calculate_merkle_root ::
  "(bytes \<Rightarrow> bytes) \<Rightarrow> ('tx \<Rightarrow> bytes) \<Rightarrow> 'tx list \<Rightarrow> bytes miner_res" where
  "calculate_merkle_root sha256d txid txs =
     res_bind (assert_res (txs \<noteq> [])) (\<lambda>_.
     let level = map txid txs
     in if length level = 1 then Ok (rev (level ! 0)) else Ok (rev (merkle_level sha256d level)))"

section \<open>Script pushes\<close>

definition push_data :: "bytes \<Rightarrow> bytes \<Rightarrow> bytes" where
  "push_data data out =
     (let n = length data
      in if n \<le> 75 then out @ [of_nat n] @ data
         else if n \<le> 0xff then out @ [0x4c, of_nat n] @ data
         else if n \<le> 0xffff then out @ [0x4d] @ u16_le (of_nat n) @ data
         else out @ [0x4e] @ u32_le (of_nat n) @ data)"

function magnitude_bytes :: "u64 \<Rightarrow> bytes" where
  "magnitude_bytes absn =
     (if absn \<noteq> 0 then ucast (absn AND 0xff) # magnitude_bytes (drop_bit 8 absn) else [])"
  by pat_completeness auto

lemma unat_shift_8_64: "unat (drop_bit 8 (c :: u64)) = unat c div 256"
proof -
  have "take_bit 64 (unat c) = unat c"
    using unsigned_less [of c, where ?'a = nat] by (simp add: take_bit_nat_eq_self_iff)
  then show ?thesis by (simp add: unsigned_drop_bit_eq drop_bit_nat_def)
qed

termination magnitude_bytes
  by (relation "measure unat") (auto simp: unat_shift_8_64 unat_gt_0)

declare magnitude_bytes.simps [simp del]

text \<open>An \<open>i64\<close> is a 64-bit word read with \<open>sint\<close>; \<open>unsigned_abs\<close> negates the bits of a negative
  one.\<close>

definition unsigned_abs :: "u64 \<Rightarrow> u64" where
  "unsigned_abs n = (if sint n < 0 then - n else n)"

definition sign_magnitude :: "bool \<Rightarrow> bytes \<Rightarrow> bytes" where
  "sign_magnitude neg buf =
     (if buf \<noteq> [] \<and> last buf AND 0x80 \<noteq> 0 then buf @ [if neg then 0x80 else 0x00]
      else if neg then butlast buf @ [last buf OR 0x80] else buf)"

definition push_script_number :: "u64 \<Rightarrow> bytes \<Rightarrow> bytes" where
  "push_script_number n out =
     (if n = 0 then out @ [0]
      else if 1 \<le> sint n \<and> sint n \<le> 16 then out @ [0x50 + ucast n]
      else push_data (sign_magnitude (sint n < 0) (magnitude_bytes (unsigned_abs n))) out)"

section \<open>Coinbase\<close>

record tx_in =
  prev_txid :: bytes
  prev_vout :: u32
  script_sig :: bytes
  sequence_no :: u32
  witness :: "bytes list"

record tx_out =
  out_value :: u64
  script_pubkey :: bytes

record transaction =
  tx_version :: u32
  lock_time :: u32
  tx_inputs :: "tx_in list"
  tx_outputs :: "tx_out list"

definition p2tr_script_pubkey_from_address ::
  "(string \<Rightarrow> (string, bytes) res) \<Rightarrow> (bytes \<Rightarrow> bytes) \<Rightarrow> string \<Rightarrow> bytes miner_res" where
  "p2tr_script_pubkey_from_address bech32m fes_to_bytes addr =
     res_bind (map_err (\<lambda>e. RpcError ''address'' (''bech32m decode: '' @ e)) (bech32m addr)) (\<lambda>fes.
     res_bind (case fes of [] \<Rightarrow> Err (RpcError ''address'' ''empty data'') | v # rest \<Rightarrow> Ok (v, rest))
       (\<lambda>(witness_version, rest).
     res_bind (ensure (witness_version = 1)
       (RpcError ''address'' ''expected witness version 1 (Taproot)'')) (\<lambda>_.
     let program = fes_to_bytes rest in
     res_bind (ensure (length program = 32)
       (RpcError ''address'' ''Taproot program must be 32 bytes'')) (\<lambda>_.
     Ok ([0x51, 0x20] @ program)))))"

definition create_coinbase_transaction ::
  "(string \<Rightarrow> (string, bytes) res) \<Rightarrow> (bytes \<Rightarrow> bytes) \<Rightarrow> (bytes \<Rightarrow> bytes)
   \<Rightarrow> u64 \<Rightarrow> u64 \<Rightarrow> string \<Rightarrow> bytes option \<Rightarrow> bytes option \<Rightarrow> transaction miner_res" where
  "create_coinbase_transaction bech32m fes_to_bytes op_return_push
     height coinbase_value mining_address coinbase_aux_flags default_witness_commitment =
     (let scriptsig = push_script_number height [] @ [0x00]
            @ (case coinbase_aux_flags of None \<Rightarrow> [] | Some flags \<Rightarrow> flags);
          txin = \<lparr>prev_txid = replicate 32 0, prev_vout = 0xffffffff, script_sig = scriptsig,
            sequence_no = 0xffffffff, witness = []\<rparr>
      in res_bind (p2tr_script_pubkey_from_address bech32m fes_to_bytes mining_address) (\<lambda>spk.
         let v = [\<lparr>out_value = coinbase_value, script_pubkey = spk\<rparr>];
             (txin, outputs) = (case default_witness_commitment of
                 None \<Rightarrow> (txin, v)
               | Some commitment \<Rightarrow>
                   (txin\<lparr>witness := [replicate 32 0]\<rparr>,
                    v @ [\<lparr>out_value = 0,
                          script_pubkey = op_return_push ([0xaa, 0x21, 0xa9, 0xed] @ commitment)\<rparr>]))
         in Ok \<lparr>tx_version = 1, lock_time = 0, tx_inputs = [txin], tx_outputs = outputs\<rparr>))"

section \<open>CompactSize\<close>

text \<open>The CompactSize reader of the Bitcoin wire format, the specification of \<open>encode_varint\<close>.\<close>

fun varint_decode :: "bytes \<Rightarrow> (nat \<times> bytes) option" where
  "varint_decode [] = None"
| "varint_decode (b # bs) =
     (let w = (if b < 0xfd then 0 else if b = 0xfd then 2 else if b = 0xfe then 4 else 8)
      in if w = 0 then Some (unat b, bs)
         else if length bs < w then None else Some (le_to_nat (take w bs), drop w bs))"

lemma le_to_nat_u16_le [simp]: "le_to_nat (u16_le w) = unat w"
  using unsigned_less [of w, where ?'a = nat] by (simp add: u16_le_def)

lemma le_to_nat_u32_le [simp]: "le_to_nat (u32_le w) = unat w"
  using unsigned_less [of w, where ?'a = nat] by (simp add: u32_le_def)

lemma le_to_nat_u64_le [simp]: "le_to_nat (u64_le w) = unat w"
  using unsigned_less [of w, where ?'a = nat] by (simp add: u64_le_def)

lemma encode_varint_out: "encode_varint n out = out @ encode_varint n []"
  by (simp add: encode_varint_def)

lemma unat_ucast_small:
  fixes n :: "'a::len word"
  assumes "unat n < 2 ^ LENGTH('b)"
  shows "unat (ucast n :: 'b::len word) = unat n"
  using assms by (simp add: unsigned_ucast_eq take_bit_nat_eq_self_iff)

lemma varint_decode_encode: "varint_decode (encode_varint n [] @ rest) = Some (unat n, rest)"
proof -
  consider "n < 0xfd" | "\<not> n < 0xfd" "n \<le> 0xffff" | "\<not> n \<le> 0xffff" "n \<le> 0xffffffff" | "\<not> n \<le> 0xffffffff"
    by linarith
  then show ?thesis
  proof cases
    case 1
    then have "unat n < 0xfd" by (simp add: word_less_nat_alt)
    moreover from this have u: "unat (ucast n :: u8) = unat n" by (intro unat_ucast_small) simp
    ultimately have "(ucast n :: u8) < 0xfd" by (simp add: word_less_nat_alt)
    then show ?thesis using 1 u by (simp add: encode_varint_def)
  next
    case 2
    then have "unat n \<le> 0xffff" by (simp add: word_le_nat_alt)
    then have "unat (ucast n :: u16) = unat n" by (intro unat_ucast_small) simp
    then show ?thesis using 2 by (simp add: encode_varint_def)
  next
    case 3
    then have "unat n \<le> 0xffffffff" by (simp add: word_le_nat_alt)
    then have "unat (ucast n :: u32) = unat n" by (intro unat_ucast_small) simp
    moreover have "\<not> n < 0xfd" using 3(1) by (auto simp: word_less_nat_alt word_le_nat_alt)
    ultimately show ?thesis using 3 by (simp add: encode_varint_def)
  next
    case 4
    then have "\<not> n < 0xfd" "\<not> n \<le> 0xffff" by (auto simp: word_less_nat_alt word_le_nat_alt)
    then show ?thesis using 4 by (simp add: encode_varint_def)
  qed
qed

text \<open>CompactSize round trip: whatever is already in the buffer and whatever follows, the
  reader of the wire format recovers the count \<open>encode_varint\<close> appended and the rest of the
  stream; the encoding takes 1, 3, 5 or 9 bytes by the size of the count.\<close>

theorem encode_varint_roundtrip:
  "varint_decode (drop (length out) (encode_varint n out @ rest)) = Some (unat n, rest)
   \<and> take (length out) (encode_varint n out) = out
   \<and> length (encode_varint n out) = length out
       + (if unat n < 253 then 1 else if unat n < 2 ^ 16 then 3 else if unat n < 2 ^ 32 then 5 else 9)"
proof -
  have "n < 0xfd \<longleftrightarrow> unat n < 253" "n \<le> 0xffff \<longleftrightarrow> unat n < 2 ^ 16" "n \<le> 0xffffffff \<longleftrightarrow> unat n < 2 ^ 32"
    by (auto simp: word_less_nat_alt word_le_nat_alt)
  moreover have "varint_decode (drop (length out) (encode_varint n out @ rest)) = Some (unat n, rest)"
    using varint_decode_encode [of n rest] by (subst encode_varint_out) simp
  ultimately show ?thesis by (simp add: encode_varint_def)
qed

section \<open>Script numbers\<close>

text \<open>The reader of the script language: the number an operand stands for (little-endian
  magnitude, sign in the top bit of the last byte), and the number a push of at most 75 bytes,
  \<open>OP_0\<close> or \<open>OP_1\<close> to \<open>OP_16\<close> leaves on the stack.\<close>

definition script_number_value :: "bytes \<Rightarrow> int" where
  "script_number_value bs =
     (if bs = [] then 0
      else if last bs AND 0x80 \<noteq> 0 then - int (le_to_nat (butlast bs @ [last bs AND 0x7f]))
      else int (le_to_nat bs))"

fun read_script_number :: "bytes \<Rightarrow> (int \<times> bytes) option" where
  "read_script_number [] = None"
| "read_script_number (b # bs) =
     (if 0x51 \<le> b \<and> b \<le> 0x60 then Some (int (unat b) - 0x50, bs)
      else if unat b \<le> 75 \<and> unat b \<le> length bs
      then Some (script_number_value (take (unat b) bs), drop (unat b) bs)
      else None)"

lemma magnitude_bytes_spec:
  "le_to_nat (magnitude_bytes a) = unat a \<and> (a \<noteq> 0 \<longrightarrow> magnitude_bytes a \<noteq> [] \<and> last (magnitude_bytes a) \<noteq> 0)
   \<and> (\<forall>n. unat a < 256 ^ n \<longrightarrow> length (magnitude_bytes a) \<le> n)"
proof (induction a rule: magnitude_bytes.induct)
  case (1 a)
  show ?case
  proof (cases "a = 0")
    case True
    then show ?thesis by (simp add: magnitude_bytes.simps [of 0])
  next
    case False
    define b where "b = (ucast (a AND 0xff) :: u8)"
    define q where "q = drop_bit 8 a"
    have mb: "magnitude_bytes a = b # magnitude_bytes q"
      using False by (subst magnitude_bytes.simps) (simp add: b_def q_def)
    have m: "(0xff :: u64) = mask 8" by (simp add: mask_eq_exp_minus_1)
    have b: "unat b = unat a mod 256"
      unfolding b_def m by (simp add: unsigned_ucast_eq unsigned_take_bit_eq take_bit_nat_def flip: take_bit_eq_mask)
    have q: "unat q = unat a div 256" by (simp add: q_def unat_shift_8_64)
    note ih = "1.IH" [OF False, folded q_def]
    have "le_to_nat (magnitude_bytes a) = unat a" using ih by (simp add: mb b q)
    moreover have "last (magnitude_bytes a) \<noteq> 0"
    proof (cases "q = 0")
      case True
      then have "unat a div 256 = 0" using q by simp
      then have "unat b = unat a" using b by simp
      then have "b \<noteq> 0" using False by (auto simp: unat_eq_0)
      then show ?thesis using True by (simp add: mb magnitude_bytes.simps [of 0])
    next
      case q0: False
      then show ?thesis using ih by (simp add: mb)
    qed
    moreover have "length (magnitude_bytes a) \<le> n" if "unat a < 256 ^ n" for n
    proof (cases n)
      case 0
      then show ?thesis using that False by (simp add: unat_eq_0)
    next
      case (Suc k)
      then have "unat q < 256 ^ k" using that q by (simp add: less_mult_imp_div_less mult.commute)
      then show ?thesis using ih Suc by (simp add: mb)
    qed
    ultimately show ?thesis by (simp add: mb)
  qed
qed

lemma byte_sign_or: "(b :: u8) AND 0x80 = 0 \<Longrightarrow> (b OR 0x80) AND 0x80 \<noteq> 0 \<and> (b OR 0x80) AND 0x7f = b"
proof -
  assume b: "b AND 0x80 = 0"
  have "(b OR 0x80) AND 0x80 = 0x80" by (simp add: bit.conj_disj_distrib2 b)
  moreover have "(b OR 0x80) AND 0x7f = b AND 0x7f" by (simp add: bit.conj_disj_distrib2)
  moreover have "b AND 0x7f = b"
  proof -
    have "(0x80 OR 0x7f :: u8) = - 1" by simp
    then have "b AND (0x80 OR 0x7f) = b" by (simp only: and.right_neutral)
    then show ?thesis unfolding bit.conj_disj_distrib b by (simp only: or.left_neutral)
  qed
  ultimately show ?thesis by simp
qed

lemma sign_magnitude_value:
  assumes "buf \<noteq> []"
  shows "script_number_value (sign_magnitude neg buf) = (if neg then - int (le_to_nat buf) else int (le_to_nat buf))
    \<and> length (sign_magnitude neg buf) \<le> length buf + 1"
proof (cases "last buf AND 0x80 = 0")
  case True
  have "buf = butlast buf @ [last buf]" using assms by simp
  then show ?thesis
    using assms True byte_sign_or [OF True] by (auto simp: sign_magnitude_def script_number_value_def)
next
  case False
  then show ?thesis using assms by (auto simp: sign_magnitude_def script_number_value_def le_to_nat_append)
qed

lemma unat_unsigned_abs: "int (unat (unsigned_abs n)) = \<bar>sint n\<bar>"
proof (cases "sint n < 0")
  case True
  have "- (2 ^ 63) \<le> sint n" using sint_ge [of n] by simp
  moreover have "uint (of_int (- sint n) :: u64) = (- sint n) mod 2 ^ 64"
    by (subst uint_word_of_int) simp
  then have "uint (- n) = (- sint n) mod 2 ^ 64" by simp
  ultimately have "uint (- n) = - sint n" using True by simp
  then show ?thesis using True by (simp add: unsigned_abs_def)
next
  case False
  have "sint n < 2 ^ 63" using sint_less [of n] by simp
  moreover have "uint (of_int (sint n) :: u64) = sint n mod 2 ^ 64"
    by (subst uint_word_of_int) simp
  then have "uint n = sint n mod 2 ^ 64" by simp
  ultimately have "uint n = sint n" using False by simp
  then show ?thesis using False by (simp add: unsigned_abs_def)
qed

lemma read_push_script_number:
  "read_script_number (drop (length out) (push_script_number n out) @ rest) = Some (sint n, rest)"
proof -
  consider "n = 0" | "n \<noteq> 0" "1 \<le> sint n" "sint n \<le> 16" | "n \<noteq> 0" "\<not> (1 \<le> sint n \<and> sint n \<le> 16)" by blast
  then show ?thesis
  proof cases
    case 1
    then show ?thesis by (simp add: push_script_number_def script_number_value_def)
  next
    case 2
    have "int (unat (unsigned_abs n)) = sint n" using 2 unat_unsigned_abs [of n] by simp
    moreover have "unsigned_abs n = n" using 2 by (simp add: unsigned_abs_def)
    ultimately have s: "int (unat n) = sint n" by (simp only:)
    then have le: "unat n \<le> 16" and ge: "1 \<le> unat n" using 2(2,3) by linarith+
    have c: "unat (ucast n :: u8) = unat n" using le by (intro unat_ucast_small) simp
    have u: "unat (0x50 + ucast n :: u8) = 0x50 + unat n" using c le by (subst unat_add_small) simp_all
    then have "0x51 \<le> (0x50 + ucast n :: u8)" and "(0x50 + ucast n :: u8) \<le> 0x60"
      using le ge by (simp_all add: word_le_nat_alt)
    then show ?thesis using 2 u s by (simp add: push_script_number_def)
  next
    case 3
    define neg where "neg = (sint n < 0)"
    define buf where "buf = magnitude_bytes (unsigned_abs n)"
    define s where "s = sign_magnitude neg buf"
    have a: "unsigned_abs n \<noteq> 0" using 3 by (simp add: unsigned_abs_def)
    then have buf: "buf \<noteq> []" "int (le_to_nat buf) = \<bar>sint n\<bar>" "length buf \<le> 8"
      using magnitude_bytes_spec [of "unsigned_abs n"] unsigned_less [of "unsigned_abs n", where ?'a = nat]
        unat_unsigned_abs [of n] by (simp_all add: buf_def)
    have val: "script_number_value s = sint n" and len: "length s \<le> 9"
      using sign_magnitude_value [OF buf(1), of neg] buf by (auto simp: s_def neg_def)
    have u: "unat (of_nat (length s) :: u8) = length s"
      using len by (simp add: unat_of_nat)
    then have "\<not> 0x51 \<le> (of_nat (length s) :: u8)" using len by (simp add: word_le_nat_alt)
    moreover have "push_script_number n out = push_data s out"
      unfolding push_script_number_def s_def neg_def buf_def using 3 by (simp only: if_False)
    then have "push_script_number n out = out @ [of_nat (length s)] @ s"
      using len by (simp add: push_data_def)
    ultimately show ?thesis using u val len by simp
  qed
qed

text \<open>Script-number round trip: for every \<open>i64\<close>, positive, negative or zero, short or long
  form, the reader of the script language recovers from the pushed bytes the number and the
  rest of the script.\<close>

theorem push_script_number_roundtrip:
  "read_script_number (drop (length out) (push_script_number n out) @ rest) = Some (sint n, rest)"
  by (rule read_push_script_number)

section \<open>Blocks on the wire\<close>

definition wf_certificate :: "zk_certificate \<Rightarrow> bool" where
  "wf_certificate c \<longleftrightarrow> length (header_hash c) = 32 \<and> length (public_data c) = 164 \<and> length (proof_data c) \<le> 60000"

definition wf_pearl_header :: "pearl_header \<Rightarrow> bool" where
  "wf_pearl_header h \<longleftrightarrow> wf_header (incomplete h) \<and> (\<exists>pc. proof_commitment h = Some pc \<and> length pc = 32)"

text \<open>The reader a node applies: certificate, header, transaction count and the transactions'
  bytes.\<close>

definition block_decode :: "bytes \<Rightarrow> (zk_certificate \<times> pearl_header \<times> nat \<times> bytes) option" where
  "block_decode bs =
     (let pdl = unat (u32_from_le (subrange 200 204 bs)); rest = drop (204 + pdl) bs in
      if u32_from_le (subrange 0 4 bs) \<noteq> ZK_CERTIFICATE_VERSION then None
      else case header_from_bytes (subrange 0 76 rest) of
          Ok h \<Rightarrow> (case varint_decode (drop 108 rest) of
              Some (n, txs) \<Rightarrow> Some
                (\<lparr>header_hash = subrange 4 36 bs, public_data = subrange 36 200 bs,
                  proof_data = subrange 204 (204 + pdl) bs\<rparr>,
                 \<lparr>incomplete = h, proof_commitment = Some (subrange 76 108 rest)\<rparr>, n, txs)
            | None \<Rightarrow> None)
        | _ \<Rightarrow> None)"

lemma fold_encode_Ok_iff:
  "res_fold (\<lambda>tx out. res_bind (map_err f (enc tx)) (\<lambda>e. Ok (out @ e))) txs acc = Ok out
   \<longleftrightarrow> (\<exists>encs. list_all2 (\<lambda>tx e. enc tx = Ok e) txs encs \<and> out = acc @ concat encs)"
proof (induction txs arbitrary: acc)
  case Nil
  then show ?case by auto
next
  case (Cons tx txs)
  show ?case
    by (auto simp: res_bind_Ok_iff Cons.IH list_all2_Cons1)
      (metis append_assoc concat.simps(2))+
qed

lemma block_serialize_Ok_iff:
  "block_serialize tx_encode b = Ok out \<longleftrightarrow>
     (\<exists>pc encs. proof_commitment (header b) = Some pc
       \<and> length (public_data (certificate b)) = 164 \<and> length (proof_data (certificate b)) \<le> 60000
       \<and> list_all2 (\<lambda>tx e. tx_encode tx = Ok e) (txns b) encs
       \<and> out = u32_le 1 @ header_hash (certificate b) @ public_data (certificate b)
           @ u32_le (of_nat (length (proof_data (certificate b)))) @ proof_data (certificate b)
           @ header_to_bytes (incomplete (header b)) @ pc
           @ encode_varint (of_nat (length (txns b))) [] @ concat encs)"
proof -
  have u: "unwrap_opt x = Ok y \<longleftrightarrow> x = Some y" for x :: "'x option" and y by (cases x) simp_all
  show ?thesis
    by (auto simp: block_serialize_def certificate_serialize_def pearl_header_serialize_def res_bind_Ok_iff
        fold_encode_Ok_iff PUBLICDATA_SIZE_def ZK_MAX_PROOF_DATA_SIZE_def ZK_CERTIFICATE_VERSION_def
        serialize_without_proof_commitment_def encode_varint_out [of _ "_ @ _"] u Let_def)
qed

lemma block_reads_back:
  assumes "wf_certificate (certificate b)" and "wf_pearl_header (header b)"
    and "length (txns b) < 2 ^ 64" and "list_all2 (\<lambda>tx e. tx_encode tx = Ok e) (txns b) encs"
  shows "\<exists>out. block_serialize tx_encode b = Ok out
    \<and> block_decode out = Some (certificate b, header b, length (txns b), concat encs)"
proof -
  obtain pc where pc: "proof_commitment (header b) = Some pc" "length pc = 32"
    using assms(2) by (auto simp: wf_pearl_header_def)
  define c h where "c = certificate b" and "h = header b"
  define hb where "hb = header_to_bytes (incomplete h)"
  have hb: "length hb = 76" "header_from_bytes hb = Ok (incomplete h)"
    using assms(2) header_from_to [of "incomplete h"] by (auto simp: wf_pearl_header_def hb_def h_def header_to_bytes_def wf_header_def)
  define out where "out = u32_le 1 @ header_hash c @ public_data c
           @ u32_le (of_nat (length (proof_data c))) @ proof_data c
           @ hb @ pc @ encode_varint (of_nat (length (txns b))) [] @ concat encs"
  have lens: "length (header_hash c) = 32" "length (public_data c) = 164" "length (proof_data c) \<le> 60000"
    using assms(1) by (simp_all add: wf_certificate_def c_def)
  have ser: "block_serialize tx_encode b = Ok out"
    unfolding block_serialize_Ok_iff using assms(4) pc lens by (auto simp: out_def c_def h_def hb_def)
  have n: "unat (of_nat (length (proof_data c)) :: u32) = length (proof_data c)"
    using lens by (simp add: unat_of_nat)
  have drop: "drop (204 + length (proof_data c)) out = hb @ pc @ encode_varint (of_nat (length (txns b))) [] @ concat encs"
    using lens by (simp add: out_def)
  have subs: "subrange 0 4 out = u32_le 1" "subrange 4 36 out = header_hash c"
    "subrange 36 200 out = public_data c" "subrange 200 204 out = u32_le (of_nat (length (proof_data c)))"
    "subrange 204 (204 + length (proof_data c)) out = proof_data c"
    using lens by (simp_all add: out_def codec)
  have "\<lparr>header_hash = header_hash c, public_data = public_data c, proof_data = proof_data c\<rparr> = c"
    by (cases c) simp
  moreover have "\<lparr>incomplete = incomplete h, proof_commitment = Some pc\<rparr> = h"
    unfolding pc(1) [folded h_def, symmetric] by (cases h) simp
  ultimately have rec: "\<lparr>header_hash = header_hash c, public_data = public_data c, proof_data = proof_data c\<rparr> = c"
    "\<lparr>incomplete = incomplete h, proof_commitment = Some pc\<rparr> = h" by blast+
  have v: "varint_decode (encode_varint (of_nat (length (txns b))) [] @ concat encs) = Some (length (txns b), concat encs)"
    using assms(3) by (simp add: varint_decode_encode unat_of_nat take_bit_nat_eq_self_iff)
  have "block_decode out = Some (c, h, length (txns b), concat encs)"
    unfolding block_decode_def subs u32_roundtrip n drop Let_def
    using hb pc(2) by (simp add: codec v rec ZK_CERTIFICATE_VERSION_def)
  then show ?thesis using ser by (simp add: c_def h_def)
qed

lemma Ok_all_list_all2: "(\<exists>encs. list_all2 (\<lambda>tx e. f tx = Ok e) txs encs) \<longleftrightarrow> (\<forall>tx \<in> set txs. \<exists>e. f tx = Ok e)"
  by (induction txs) (auto simp: list_all2_Cons1)

lemma fold_encode_Err:
  "res_fold (\<lambda>tx out. res_bind (map_err f (enc tx)) (\<lambda>e. Ok (out @ e))) txs acc = Err e \<Longrightarrow> \<exists>tx \<in> set txs. \<exists>msg. enc tx = Err msg \<and> e = f msg"
proof (induction txs arbitrary: acc)
  case (Cons tx txs)
  then show ?case by (cases "enc tx") auto
qed simp

lemma block_serialize_Err: "block_serialize tx_encode b = Err e \<Longrightarrow> \<exists>tx \<in> set (txns b). \<exists>msg. tx_encode tx = Err msg \<and> e = RpcError ''tx_serialize'' msg"
  by (cases "proof_commitment (header b)")
     (auto simp: block_serialize_def certificate_serialize_def pearl_header_serialize_def res_bind_Err_iff assert_res_def Let_def
       dest!: fold_encode_Err split: if_splits)

lemma block_serialize_asserts:
  "length (public_data (certificate b)) \<noteq> 164 \<or> 60000 < length (proof_data (certificate b)) \<or> proof_commitment (header b) = None
   \<Longrightarrow> block_serialize tx_encode b = Panic"
  by (auto simp: block_serialize_def certificate_serialize_def pearl_header_serialize_def assert_res_def PUBLICDATA_SIZE_def
      ZK_MAX_PROOF_DATA_SIZE_def Let_def)

text \<open>C13: A block is returned exactly when the commitment is set, the public data has 164 bytes,
  the proof at most 60000 and every transaction encodes; a node reading the bytes then finds the
  same certificate and header, the number of transactions, and their encodings in order.  Without one
  of the first three it panics, and an error it returns is that of a transaction that does not
  encode.  (The hash, the header and the commitment have the lengths of their array types.)\<close>

theorem block_roundtrip:
  assumes "length (header_hash (certificate b)) = 32" "wf_header (incomplete (header b))" "length (txns b) < 2 ^ 64"
    and "\<forall>pc. proof_commitment (header b) = Some pc \<longrightarrow> length pc = 32"
  shows "(\<forall>out. block_serialize tx_encode b = Ok out \<longrightarrow>
      (\<exists>encs. list_all2 (\<lambda>tx e. tx_encode tx = Ok e) (txns b) encs
        \<and> block_decode out = Some (certificate b, header b, length (txns b), concat encs)))
    \<and> ((\<exists>out. block_serialize tx_encode b = Ok out) \<longleftrightarrow>
      length (public_data (certificate b)) = 164 \<and> length (proof_data (certificate b)) \<le> 60000
      \<and> proof_commitment (header b) \<noteq> None \<and> (\<forall>tx \<in> set (txns b). \<exists>e. tx_encode tx = Ok e))
    \<and> (length (public_data (certificate b)) \<noteq> 164 \<or> 60000 < length (proof_data (certificate b)) \<or> proof_commitment (header b) = None
      \<longrightarrow> block_serialize tx_encode b = Panic)
    \<and> (\<forall>e. block_serialize tx_encode b = Err e \<longrightarrow> (\<exists>tx \<in> set (txns b). \<exists>msg. tx_encode tx = Err msg \<and> e = RpcError ''tx_serialize'' msg))"
proof (intro conjI allI impI)
  fix out assume ok: "block_serialize tx_encode b = Ok out"
  then obtain encs where "list_all2 (\<lambda>tx e. tx_encode tx = Ok e) (txns b) encs" "wf_certificate (certificate b)" "wf_pearl_header (header b)"
    using assms by (auto simp: block_serialize_Ok_iff wf_certificate_def wf_pearl_header_def)
  with block_reads_back [OF this(2,3) assms(3) this(1)] ok
  show "\<exists>encs. list_all2 (\<lambda>tx e. tx_encode tx = Ok e) (txns b) encs
      \<and> block_decode out = Some (certificate b, header b, length (txns b), concat encs)" by auto
next
  show "(\<exists>out. block_serialize tx_encode b = Ok out) \<longleftrightarrow>
      length (public_data (certificate b)) = 164 \<and> length (proof_data (certificate b)) \<le> 60000
      \<and> proof_commitment (header b) \<noteq> None \<and> (\<forall>tx \<in> set (txns b). \<exists>e. tx_encode tx = Ok e)"
    unfolding block_serialize_Ok_iff Ok_all_list_all2 [symmetric] by auto
qed (use block_serialize_asserts block_serialize_Err in auto)

theorem block_roundtrip_witness:
  "(\<exists>out. block_serialize Ok
       \<lparr>header = \<lparr>incomplete = p_header sample_params, proof_commitment = Some (replicate 32 7)\<rparr>,
        txns = [[1, 2], [3]],
        certificate = \<lparr>header_hash = replicate 32 1, public_data = replicate 164 2, proof_data = [9, 9]\<rparr>\<rparr>
     = Ok out
   \<and> map_option (fst \<circ> snd \<circ> snd) (block_decode out) = Some 2)
   \<and> block_serialize Ok
       \<lparr>header = \<lparr>incomplete = p_header sample_params, proof_commitment = Some (replicate 32 7)\<rparr>,
        txns = [[1, 2], [3]],
        certificate = \<lparr>header_hash = replicate 32 1, public_data = replicate 163 2, proof_data = [9, 9]\<rparr>\<rparr> = Panic"
proof -
  let ?b = "\<lambda>n. \<lparr>header = \<lparr>incomplete = p_header sample_params, proof_commitment = Some (replicate 32 7)\<rparr>,
        txns = [[1, 2], [3]],
        certificate = \<lparr>header_hash = replicate 32 1, public_data = replicate n 2, proof_data = [9, 9]\<rparr>\<rparr>"
  have wf: "wf_header (p_header sample_params)" by (simp add: sample_params_def wf_header_def)
  show ?thesis
    using block_roundtrip [of "?b 164" Ok] block_roundtrip [of "?b 163" Ok] wf by auto
qed

section \<open>The transaction Merkle root\<close>

lemma merkle_pairs_snoc:
  "odd (length level) \<Longrightarrow> merkle_pairs sha256d (level @ [last level]) = merkle_pairs sha256d level"
  by (induction sha256d level rule: merkle_pairs.induct) auto

lemma merkle_pairs_Nil_iff [simp]: "merkle_pairs sha256d level = [] \<longleftrightarrow> level = []"
  by (cases "(sha256d, level)" rule: merkle_pairs.cases) simp_all

lemma merkle_level_one [simp]: "merkle_level sha256d [x] = x"
  by (simp add: merkle_level.simps)

lemma merkle_level_step:
  "1 < length level \<Longrightarrow> merkle_level sha256d level = merkle_level sha256d (merkle_pairs sha256d level)"
  by (subst merkle_level.simps) simp

lemma merkle_level_snoc:
  assumes "odd (length level)" and "1 < length level"
  shows "merkle_level sha256d (level @ [last level]) = merkle_level sha256d level"
proof -
  have "level \<noteq> []" using assms by auto
  then show ?thesis using assms by (simp add: merkle_level_step merkle_pairs_snoc)
qed

fun pair_inputs :: "bytes list \<Rightarrow> bytes list" where
  "pair_inputs [] = []"
| "pair_inputs [l] = [l @ l]"
| "pair_inputs (l # r # rest) = (l @ r) # pair_inputs rest"

lemma merkle_pairs_inputs: "merkle_pairs sha256d xs = map sha256d (pair_inputs xs)"
  by (induction sha256d xs rule: merkle_pairs.induct) simp_all

lemma length_pair_inputs: "length (pair_inputs xs) = (length xs + 1) div 2"
  by (induction xs rule: pair_inputs.induct) simp_all

text \<open>Everything that is hashed on the way from a level to the root.\<close>

function merkle_inputs :: "(bytes \<Rightarrow> bytes) \<Rightarrow> bytes list \<Rightarrow> bytes list" where
  "merkle_inputs sha256d level =
     (if length level > 1 then pair_inputs level @ merkle_inputs sha256d (merkle_pairs sha256d level) else [])"
  by pat_completeness auto
termination
  by (relation "measure (\<lambda>(_, level). length level)") (auto simp: length_merkle_pairs)

declare merkle_inputs.simps [simp del]

definition collide :: "(bytes \<Rightarrow> bytes) \<Rightarrow> bytes list \<Rightarrow> bytes list \<Rightarrow> bool" where
  "collide sha256d xs ys \<longleftrightarrow> (\<exists>x \<in> set (merkle_inputs sha256d xs). \<exists>y \<in> set (merkle_inputs sha256d ys). x \<noteq> y \<and> sha256d x = sha256d y)"

lemma pair_inputs_inject:
  "length xs = length ys \<Longrightarrow> \<forall>x \<in> set xs. length x = 32 \<Longrightarrow> \<forall>y \<in> set ys. length y = 32 \<Longrightarrow> pair_inputs xs = pair_inputs ys \<Longrightarrow> xs = ys"
proof (induction xs arbitrary: ys rule: pair_inputs.induct)
  case (2 l)
  then show ?case by (cases ys) auto
next
  case (3 l r rest)
  then obtain l2 r2 rest2 where "ys = l2 # r2 # rest2" by (cases ys; cases "tl ys") auto
  then show ?case using 3 by auto
qed simp

lemma merkle_pairs_lengths:
  "(\<And>x. length (sha256d x) = 32) \<Longrightarrow> \<forall>h \<in> set (merkle_pairs sha256d xs). length h = 32"
  by (auto simp: merkle_pairs_inputs)

lemma merkle_level_binding:
  assumes sha: "\<And>x. length (sha256d x) = 32"
  shows "\<lbrakk>length xs = length ys; \<forall>x \<in> set xs. length x = 32; \<forall>y \<in> set ys. length y = 32; xs \<noteq> [];
    merkle_level sha256d xs = merkle_level sha256d ys\<rbrakk> \<Longrightarrow> xs = ys \<or> collide sha256d xs ys"
proof (induction "length xs" arbitrary: xs ys rule: less_induct)
  case less
  show ?case
  proof (cases "1 < length xs")
    case True
    let ?ps = "merkle_pairs sha256d"
    have inputs: "merkle_inputs sha256d xs = pair_inputs xs @ merkle_inputs sha256d (?ps xs)"
      "merkle_inputs sha256d ys = pair_inputs ys @ merkle_inputs sha256d (?ps ys)"
      using True less.prems(1) by (simp_all add: merkle_inputs.simps [of _ xs] merkle_inputs.simps [of _ ys])
    have "?ps xs = ?ps ys \<or> collide sha256d (?ps xs) (?ps ys)"
    proof (rule less.hyps)
      show "length (?ps xs) < length xs" using True by (simp add: length_merkle_pairs)
      show "length (?ps xs) = length (?ps ys)" using less.prems(1) by (simp add: length_merkle_pairs)
      show "?ps xs \<noteq> []" using True by auto
      show "merkle_level sha256d (?ps xs) = merkle_level sha256d (?ps ys)"
        using less.prems(1,5) True by (simp add: merkle_level_step)
    qed (use merkle_pairs_lengths [OF sha] in auto)
    then show ?thesis
    proof
      assume "?ps xs = ?ps ys"
      then have eq: "map sha256d (pair_inputs xs) = map sha256d (pair_inputs ys)" by (simp add: merkle_pairs_inputs)
      show ?thesis
      proof (cases "pair_inputs xs = pair_inputs ys")
        case True
        then show ?thesis using pair_inputs_inject less.prems by blast
      next
        case False
        have len: "length (pair_inputs xs) = length (pair_inputs ys)" using less.prems(1) by (simp add: length_pair_inputs)
        then obtain i where i: "i < length (pair_inputs xs)" "pair_inputs xs ! i \<noteq> pair_inputs ys ! i"
          using False by (auto simp: list_eq_iff_nth_eq)
        moreover have "sha256d (pair_inputs xs ! i) = sha256d (pair_inputs ys ! i)" using arg_cong [OF eq, of "\<lambda>l. l ! i"] i(1) len by simp
        moreover have "pair_inputs xs ! i \<in> set (merkle_inputs sha256d xs)" "pair_inputs ys ! i \<in> set (merkle_inputs sha256d ys)"
          using i(1) len by (simp_all add: inputs)
        ultimately show ?thesis unfolding collide_def by blast
      qed
    next
      assume "collide sha256d (?ps xs) (?ps ys)"
      then show ?thesis unfolding collide_def inputs by auto
    qed
  next
    case False
    then obtain x y where "xs = [x]" "ys = [y]"
      using less.prems(1,4) by (cases xs; cases ys) auto
    then show ?thesis using less.prems(5) by simp
  qed
qed

text \<open>C23: The Merkle root commits to the transaction list: two lists of the same length with the
  same root have the same txids in the same order, unless two different inputs hashed on the way to
  the two roots have the same digest, one from each computation.\<close>

theorem merkle_root_binding:
  assumes "\<And>x. length (sha256d x) = 32" and "\<And>t. length (txid t) = 32"
    and "length txs = length txs'" and "calculate_merkle_root sha256d txid txs = Ok r"
    and "calculate_merkle_root sha256d txid txs' = Ok r"
  shows "map txid txs = map txid txs'
    \<or> (\<exists>x \<in> set (merkle_inputs sha256d (map txid txs)). \<exists>y \<in> set (merkle_inputs sha256d (map txid txs')). x \<noteq> y \<and> sha256d x = sha256d y)"
proof -
  have r: "calculate_merkle_root sha256d txid ts = Ok r \<Longrightarrow> ts \<noteq> [] \<and> r = rev (merkle_level sha256d (map txid ts))" for ts
    by (cases "length ts = 1") (auto simp: calculate_merkle_root_def res_bind_Ok_iff Let_def merkle_level.simps)
  show ?thesis
    unfolding collide_def [symmetric]
    using assms r [of txs] r [of txs'] by (intro merkle_level_binding) auto
qed

theorem merkle_root_binding_witness:
  "calculate_merkle_root (\<lambda>x. take 32 (x @ replicate 32 0)) (\<lambda>t. take 32 (t @ replicate 32 0)) [[1], [2]]
     = calculate_merkle_root (\<lambda>x. take 32 (x @ replicate 32 0)) (\<lambda>t. take 32 (t @ replicate 32 0)) [[1], [3]]
   \<and> (\<exists>x \<in> set (merkle_inputs (\<lambda>x. take 32 (x @ replicate 32 0)) [take 32 ([1] @ replicate 32 0), take 32 ([2] @ replicate 32 0)]).
       \<exists>y \<in> set (merkle_inputs (\<lambda>x. take 32 (x @ replicate 32 0)) [take 32 ([1] @ replicate 32 0), take 32 ([3] @ replicate 32 0)]).
       x \<noteq> y \<and> take 32 (x @ replicate 32 0) = (take 32 (y @ replicate 32 0) :: bytes))"
proof -
  let ?d = "\<lambda>x. take 32 (x @ replicate 32 0) :: bytes"
  obtain r where a: "calculate_merkle_root ?d ?d [[1], [2]] = Ok r"
    by (simp add: calculate_merkle_root_def Let_def)
  have b: "calculate_merkle_root ?d ?d [[1], [3]] = Ok r"
    unfolding a [symmetric] by (simp add: calculate_merkle_root_def Let_def merkle_level_step)
  have "map ?d [[1], [2]] \<noteq> map ?d [[1], [3]]" by simp
  then show ?thesis using merkle_root_binding [of ?d ?d "[[1], [2]]" "[[1], [3]]" r] a b by auto
qed

text \<open>The root does not determine the length: repeating the last transaction of a list of odd
  length above one leaves the root unchanged, and an empty list panics.\<close>

theorem merkle_root_duplicate:
  assumes "odd (length txs)" and "1 < length txs"
  shows "calculate_merkle_root sha256d txid (txs @ [last txs]) = calculate_merkle_root sha256d txid txs
    \<and> calculate_merkle_root sha256d txid [] = Panic"
proof -
  have "txs \<noteq> []" using assms by auto
  then have "last (map txid txs) = txid (last txs)" using assms(2) by (cases txs) (auto simp: last_map)
  then show ?thesis
    using assms \<open>txs \<noteq> []\<close> merkle_level_snoc [of "map txid txs" sha256d]
    by (simp add: calculate_merkle_root_def Let_def)
qed

theorem merkle_root_duplicate_witness:
  "calculate_merkle_root rev id [[1], [2], [3], [3]] = calculate_merkle_root rev id [[1], [2], [3 :: u8]]"
  using merkle_root_duplicate [of "[[1], [2], [3 :: u8]]" rev id] by simp

section \<open>The coinbase transaction\<close>

lemma push_script_number_out: "push_script_number n out = out @ push_script_number n []"
  by (simp add: push_script_number_def push_data_def Let_def)

lemma p2tr_Ok_iff:
  "p2tr_script_pubkey_from_address bech32m fes_to_bytes addr = Ok spk \<longleftrightarrow>
     (\<exists>rest. bech32m addr = Ok (1 # rest) \<and> length (fes_to_bytes rest) = 32
       \<and> spk = [0x51, 0x20] @ fes_to_bytes rest)"
proof (cases "bech32m addr")
  case (Ok fes)
  then show ?thesis
    by (cases fes) (auto simp: p2tr_script_pubkey_from_address_def res_bind_Ok_iff Let_def)
qed (simp_all add: p2tr_script_pubkey_from_address_def)

text \<open>C18: A coinbase is built only for an address whose checked elements start with witness
  version 1 and regroup to 32 bytes.  It then has one input that spends the null outpoint, whose
  script a node reads as the height (as an \<open>i64\<close>) followed by a zero byte and the flags; it pays
  the whole value to the address's Taproot script; and the witness reserve and the second,
  zero-valued commitment output are present exactly when the template has a commitment.\<close>

theorem coinbase_wellformed:
  assumes "create_coinbase_transaction bech32m fes_to_bytes op_return_push height coinbase_value addr flags commitment = Ok tx"
  shows "\<exists>rest txin. bech32m addr = Ok (1 # rest) \<and> length (fes_to_bytes rest) = 32
    \<and> tx_inputs tx = [txin] \<and> prev_txid txin = replicate 32 0 \<and> prev_vout txin = 0xffffffff
    \<and> read_script_number (script_sig txin)
        = Some (sint height, 0 # (case flags of None \<Rightarrow> [] | Some fl \<Rightarrow> fl))
    \<and> tx_outputs tx ! 0 = \<lparr>out_value = coinbase_value, script_pubkey = [0x51, 0x20] @ fes_to_bytes rest\<rparr>
    \<and> length (tx_outputs tx) = (if commitment = None then 1 else 2)
    \<and> sum_list (map (unat \<circ> out_value) (tx_outputs tx)) = unat coinbase_value
    \<and> witness txin = (if commitment = None then [] else [replicate 32 0])
    \<and> (\<forall>c. commitment = Some c \<longrightarrow>
        script_pubkey (tx_outputs tx ! 1) = op_return_push ([0xaa, 0x21, 0xa9, 0xed] @ c))"
proof -
  obtain spk where spk: "p2tr_script_pubkey_from_address bech32m fes_to_bytes addr = Ok spk"
    using assms by (auto simp: create_coinbase_transaction_def Let_def res_bind_Ok_iff)
  then obtain rest where rest: "bech32m addr = Ok (1 # rest)" "length (fes_to_bytes rest) = 32"
    "spk = [0x51, 0x20] @ fes_to_bytes rest"
    unfolding p2tr_Ok_iff by blast
  have "read_script_number (push_script_number height [] @ [0] @ fl) = Some (sint height, 0 # fl)" for fl
    using read_push_script_number [of "[]" height "[0] @ fl"] by simp
  then show ?thesis
    using assms rest
    by (cases flags; cases commitment)
      (auto simp: create_coinbase_transaction_def Let_def spk)
qed

theorem coinbase_wellformed_witness:
  "\<exists>tx. create_coinbase_transaction (\<lambda>_. Ok (1 # replicate 52 0)) (\<lambda>_. replicate 32 0) id 500 5000000000 ''rprl1''
      None (Some (replicate 32 3)) = Ok tx
    \<and> sum_list (map (unat \<circ> out_value) (tx_outputs tx)) = 5000000000"
proof -
  obtain tx where tx: "create_coinbase_transaction (\<lambda>_. Ok (1 # replicate 52 0)) (\<lambda>_. replicate 32 0) id 500 5000000000 ''rprl1''
      None (Some (replicate 32 3)) = Ok tx"
    by (simp add: create_coinbase_transaction_def p2tr_script_pubkey_from_address_def Let_def)
  then show ?thesis using coinbase_wellformed [OF tx] by auto
qed

end
