(* ===== verification/Rpc_Client.thy ===== *)
theory Rpc_Client
  imports Miner_Error
begin

text \<open>
  The node's JSON-RPC (src/gateway/rpc_types.rs and client.rs): the template data, the request
  the client sends and how it reads an answer.  Parameters: the HTTP exchange of the \<open>ureq\<close>
  crate (a request to a body, or its error text), the base64 engine, and \<open>serde\<close>'s decoding of a
  body.
\<close>

section \<open>Template data\<close>

datatype json = JNull | JBool bool | JNumber int | JString string | JArray "json list"
  | JObject "(string \<times> json) list"

record template_tx =
  tx_data :: string
  tx_hash :: string
  txid_hex :: string
  depends :: "u64 list"
  fee :: u64
  vsize :: u64

record coinbase_aux =
  flags :: string

record block_template =
  bits_hex :: string
  curtime :: u64
  height :: u64
  previousblockhash :: string
  vsizelimit :: u64
  transactions :: "template_tx list"
  tpl_version :: u32
  longpollid :: string
  tpl_target :: string
  maxtime :: u64
  mintime :: u64
  mutable_fields :: "string list"
  noncerange :: string
  capabilities :: "string list"
  coinbaseaux :: coinbase_aux
  coinbasevalue :: u64
  default_witness_commitment :: "string option"

record json_rpc_error =
  code :: int
  message :: string
  err_data :: "json option"

record 'a json_rpc_response =
  rpc_version :: "string option"
  rpc_result :: "'a option"
  rpc_error :: "json_rpc_error option"
  rpc_id :: "json option"

section \<open>Requests\<close>

record pearld_config =
  rpc_url :: string
  rpc_user :: string
  rpc_password :: string
  timeout_secs :: nat

text \<open>The defaults, with the environment as a parameter.\<close>

definition pearld_config_default :: "(string \<Rightarrow> string option) \<Rightarrow> pearld_config" where
  "pearld_config_default env =
     \<lparr>rpc_url = (case env ''PEARLD_RPC_URL'' of Some v \<Rightarrow> v | None \<Rightarrow> ''http://0.0.0.0:44107''),
      rpc_user = (case env ''PEARLD_RPC_USER'' of Some v \<Rightarrow> v | None \<Rightarrow> ''user''),
      rpc_password = (case env ''PEARLD_RPC_PASSWORD'' of Some v \<Rightarrow> v | None \<Rightarrow> ''pass''),
      timeout_secs = 10\<rparr>"

record http_request =
  req_url :: string
  req_headers :: "(string \<times> string) list"
  req_body :: json
  req_timeout :: nat

type_synonym 'body http = "http_request \<Rightarrow> (string, 'body) res"

definition post_json ::
  "(string \<Rightarrow> string) \<Rightarrow> pearld_config \<Rightarrow> string \<Rightarrow> json \<Rightarrow> http_request" where
  "post_json base64 cfg rpc_method params =
     \<lparr>req_url = rpc_url cfg,
      req_headers = [(''Authorization'', ''Basic '' @ base64 (rpc_user cfg @ '':'' @ rpc_password cfg)),
        (''Content-Type'', ''application/json'')],
      req_body = JObject [(''jsonrpc'', JString ''2.0''), (''method'', JString rpc_method),
        (''params'', params), (''id'', JNumber 1)],
      req_timeout = timeout_secs cfg\<rparr>"

section \<open>Answers\<close>

definition rpc ::
  "'body http \<Rightarrow> (string \<Rightarrow> string) \<Rightarrow> ('body \<Rightarrow> (string, 'a json_rpc_response) res)
   \<Rightarrow> pearld_config \<Rightarrow> string \<Rightarrow> json \<Rightarrow> 'a miner_res" where
  "rpc http base64 decode cfg rpc_method params =
     res_bind (map_err (\<lambda>e. RpcError rpc_method (''transport: '' @ e)) (http (post_json base64 cfg rpc_method params))) (\<lambda>resp.
     res_bind (map_err (\<lambda>e. RpcError rpc_method (''body decode: '' @ e)) (decode resp)) (\<lambda>parsed.
     case rpc_error parsed of
       Some e \<Rightarrow> Err (RpcError rpc_method (''pearld returned error: '' @ message e))
     | None \<Rightarrow> ok_or (RpcError rpc_method ''pearld returned neither result nor error'') (rpc_result parsed)))"

definition get_block_template ::
  "'body http \<Rightarrow> (string \<Rightarrow> string) \<Rightarrow> ('body \<Rightarrow> (string, block_template json_rpc_response) res)
   \<Rightarrow> pearld_config \<Rightarrow> block_template miner_res" where
  "get_block_template http base64 decode cfg =
     rpc http base64 decode cfg ''getblocktemplate''
       (JArray [JObject [(''capabilities'', JArray (map JString [''coinbasevalue'', ''workid'', ''coinbase/append''])),
          (''rules'', JArray [JString ''segwit''])]])"

text \<open>\<open>Value::get\<close> with a string: \<open>None\<close> when the value is not an object.\<close>

fun json_get :: "json \<Rightarrow> string \<Rightarrow> json option" where
  "json_get (JObject kvs) k = map_of kvs k"
| "json_get _ k = None"

definition submit_block ::
  "'body http \<Rightarrow> (string \<Rightarrow> string) \<Rightarrow> ('body \<Rightarrow> (string, json) res)
   \<Rightarrow> pearld_config \<Rightarrow> string \<Rightarrow> unit miner_res" where
  "submit_block http base64 decode cfg block_hex =
     res_bind (map_err (\<lambda>e. RpcError ''submitblock'' (''transport: '' @ e))
       (http (post_json base64 cfg ''submitblock'' (JArray [JString block_hex])))) (\<lambda>resp.
     res_bind (map_err (\<lambda>e. RpcError ''submitblock'' (''body decode: '' @ e)) (decode resp)) (\<lambda>v.
     case json_get v ''error'' of
       Some e \<Rightarrow> if e \<noteq> JNull then Err (RpcError ''submitblock'' ''pearld error'')
         else (case json_get v ''result'' of
             Some r \<Rightarrow> if r = JNull then Ok () else Err (RpcError ''submitblock'' ''rejected'')
           | None \<Rightarrow> Ok ())
     | None \<Rightarrow> (case json_get v ''result'' of
             Some r \<Rightarrow> if r = JNull then Ok () else Err (RpcError ''submitblock'' ''rejected'')
           | None \<Rightarrow> Ok ())))"

text \<open>C27: A submission counts as accepted exactly when the exchange succeeds, the body is JSON, and
  both its \<open>error\<close> and its \<open>result\<close> are absent or null; every other outcome is an RPC error of
  \<open>submitblock\<close> and none panics, provided the transport and the decoder do not.\<close>

theorem submit_block_accepts:
  assumes "\<And>r. http r \<noteq> Panic" and "\<And>b. decode b \<noteq> Panic"
  shows "(submit_block http base64 decode cfg hex = Ok () \<longleftrightarrow>
      (\<exists>body v. http (post_json base64 cfg ''submitblock'' (JArray [JString hex])) = Ok body \<and> decode body = Ok v
        \<and> json_get v ''error'' \<in> {None, Some JNull} \<and> json_get v ''result'' \<in> {None, Some JNull}))
    \<and> (submit_block http base64 decode cfg hex \<noteq> Ok () \<longrightarrow>
        (\<exists>msg. submit_block http base64 decode cfg hex = Err (RpcError ''submitblock'' msg)))"
proof (cases "http (post_json base64 cfg ''submitblock'' (JArray [JString hex]))")
  case (Ok body)
  show ?thesis
  proof (cases "decode body")
    case v: (Ok v)
    show ?thesis
      by (auto simp: submit_block_def Ok v split: option.splits)
  next
    case (Err e)
    then show ?thesis by (simp add: submit_block_def Ok)
  next
    case Panic
    then show ?thesis using assms(2) by simp
  qed
next
  case (Err e)
  then show ?thesis by (simp add: submit_block_def)
next
  case Panic
  then show ?thesis using assms(1) by simp
qed

theorem submit_block_accepts_witness:
  "submit_block (\<lambda>_. Ok ()) id (\<lambda>_. Ok (JObject [(''result'', JNull), (''error'', JNull)]))
     (pearld_config_default (\<lambda>_. None)) ''00'' = Ok ()
   \<and> submit_block (\<lambda>_. Ok ()) id (\<lambda>_. Ok (JObject [(''result'', JString ''duplicate'')]))
     (pearld_config_default (\<lambda>_. None)) ''00'' \<noteq> Ok ()"
  using submit_block_accepts [of "\<lambda>_. Ok ()" "\<lambda>_. Ok (JObject [(''result'', JNull), (''error'', JNull)])" id
      "pearld_config_default (\<lambda>_. None)" "''00''"]
    submit_block_accepts [of "\<lambda>_. Ok ()" "\<lambda>_. Ok (JObject [(''result'', JString ''duplicate'')])" id
      "pearld_config_default (\<lambda>_. None)" "''00''"]
  by auto

text \<open>A template is returned exactly when the exchange and the decoding succeed, the answer has
  no error object and its result is present; an error object wins over a result.\<close>

theorem get_block_template_Ok_iff:
  "get_block_template http base64 decode cfg = Ok tpl \<longleftrightarrow>
     (\<exists>body resp. http (post_json base64 cfg ''getblocktemplate''
          (JArray [JObject [(''capabilities'', JArray [JString ''coinbasevalue'', JString ''workid'', JString ''coinbase/append'']),
            (''rules'', JArray [JString ''segwit''])]])) = Ok body
        \<and> decode body = Ok resp \<and> rpc_error resp = None \<and> rpc_result resp = Some tpl)"
  by (auto simp: get_block_template_def rpc_def res_bind_Ok_iff split: option.splits)

end
