(* ===== verification/Mining_Job.thy ===== *)
theory Mining_Job
  imports Pearl_Block Rpc_Client
begin

text \<open>
  A mining job from a block template (src/gateway/mining_job.rs): the two search patterns, the
  canonical header, the keying hash and the adjusted target the kernel compares with.
  Parameters: the \<open>hex\<close> decoder, the double SHA-256 and the txid of the \<open>bitcoin\<close> crate, and the
  BLAKE3 digest.
\<close>

record 'tx mining_job =
  header_bytes :: bytes
  incomplete_header :: block_header
  job_config :: mining_config
  keying :: bytes
  target_be :: bytes
  adjusted_target_le :: bytes
  job_template :: block_template
  coinbase_tx :: 'tx
  other_txs :: "'tx list"

definition hex_to_array32 :: "(string \<Rightarrow> (string, bytes) res) \<Rightarrow> string \<Rightarrow> bytes miner_res" where
  "hex_to_array32 hex_decode s =
     res_bind (map_err (\<lambda>e. RpcError ''build_job'' (''hex decode: '' @ e)) (hex_decode s)) (\<lambda>bs.
     if length bs \<noteq> 32 then Err (RpcError ''build_job'' ''expected 32 bytes'') else Ok bs)"

text \<open>\<open>u32::from_str_radix(s, 16)\<close>: an optional plus sign, then at least one hexadecimal digit,
  with a checked product and sum at each digit (the sum cannot overflow after the product).\<close>

definition hex_digit :: "char \<Rightarrow> nat option" where
  "hex_digit c =
     (let n = (of_char c :: nat) in
      if 48 \<le> n \<and> n \<le> 57 then Some (n - 48)
      else if 97 \<le> n \<and> n \<le> 102 then Some (n - 87)
      else if 65 \<le> n \<and> n \<le> 70 then Some (n - 55) else None)"

fun hex_value :: "string \<Rightarrow> u32 \<Rightarrow> u32 option" where
  "hex_value [] acc = Some acc"
| "hex_value (c # cs) acc =
     (case hex_digit c of
        None \<Rightarrow> None
      | Some d \<Rightarrow> if acc < 0x10000000 then hex_value cs (acc * 16 + of_nat d) else None)"

definition u32_from_str_radix16 :: "string \<Rightarrow> u32 option" where
  "u32_from_str_radix16 s =
     (let ds = (case s of c # rest \<Rightarrow> if c = CHR ''+'' then rest else s | [] \<Rightarrow> [])
      in if ds = [] then None else hex_value ds 0)"

text \<open>\<open>checked_mul\<close> on \<open>u128\<close>.\<close>

definition checked_mul_u128 :: "u128 \<Rightarrow> u128 \<Rightarrow> u128 option" where
  "checked_mul_u128 x y = (if y \<noteq> 0 \<and> x > (- 1) div y then None else Some (x * y))"

definition job_build ::
  "(string \<Rightarrow> (string, bytes) res) \<Rightarrow> (bytes \<Rightarrow> bytes) \<Rightarrow> ('tx \<Rightarrow> bytes) \<Rightarrow> digest_fn
   \<Rightarrow> block_template \<Rightarrow> 'tx \<Rightarrow> 'tx list \<Rightarrow> mining_config \<Rightarrow> 'tx mining_job miner_res" where
  "job_build hex_decode sha256d txid digest tpl coinbase others config =
     res_bind (calculate_merkle_root sha256d txid (coinbase # others)) (\<lambda>merkle_root_be.
     res_bind (hex_to_array32 hex_decode (previousblockhash tpl)) (\<lambda>prev_block_be.
     res_bind (ok_or (RpcError ''build_job'' ''bad bits'') (u32_from_str_radix16 (bits_hex tpl))) (\<lambda>nbits_v.
     let inc = \<lparr>hversion = tpl_version tpl, prev_block = prev_block_be, merkle_root = merkle_root_be,
                timestamp = ucast (curtime tpl), nbits = nbits_v\<rparr>;
         hbytes = header_to_bytes inc in
     res_bind (map_err OtherError (config_to_bytes config)) (\<lambda>cfg_bytes.
     let key = digest (hbytes @ cfg_bytes) None;
         target = bits_to_target nbits_v;
         h = of_nat (length (to_list (rows_pattern config)));
         w = of_nat (length (to_list (cols_pattern config))) in
     res_bind (map_err OtherError (dot_product_length config)) (\<lambda>rounded_k.
     res_bind (ok_or (RpcError ''build_job'' ''difficulty adjustment overflow'')
       (Option.bind (checked_mul_u128 h w) (\<lambda>x. checked_mul_u128 x (of_nat rounded_k)))) (\<lambda>adjustment.
     res_bind (mul_u256_u128 target adjustment) (\<lambda>adjusted_be.
     Ok \<lparr>header_bytes = hbytes, incomplete_header = inc, job_config = config, keying = key,
         target_be = target, adjusted_target_le = target_be_to_le adjusted_be,
         job_template = tpl, coinbase_tx = coinbase, other_txs = others\<rparr>)))))))"

text \<open>The two patterns: \<open>[0, 8]\<close> by the 16 adjacent column pairs of the C++ kernel, and \<open>[0, 1]\<close> by
  the 128 columns of the Triton kernel.\<close>

definition cpp_cols :: "u32 list" where
  "cpp_cols = concat (map (\<lambda>pair. [of_nat pair * 8, of_nat pair * 8 + 1]) [0..<16])"

definition build_mining_config :: "string \<Rightarrow> u32 list \<Rightarrow> u32 list \<Rightarrow> u32 \<Rightarrow> u16 \<Rightarrow> mining_config miner_res" where
  "build_mining_config rpc_name rows cols k noise_rank =
     res_bind (map_err (\<lambda>e. RpcError rpc_name (''rows pattern: '' @ e)) (from_list rows)) (\<lambda>rp.
     res_bind (map_err (\<lambda>e. RpcError rpc_name (''cols pattern: '' @ e)) (from_list cols)) (\<lambda>cp.
     Ok \<lparr>common_dim = k, rank = noise_rank, mma_type = Int7xInt7ToInt32, rows_pattern = rp,
         cols_pattern = cp, reserved = RESERVED_VALUE\<rparr>))"

definition build_mining_config_cpp_search :: "u32 \<Rightarrow> u16 \<Rightarrow> mining_config miner_res" where
  "build_mining_config_cpp_search k noise_rank =
     build_mining_config ''mining_config'' [0, 8] cpp_cols k noise_rank"

definition build_mining_config_triton_norotl :: "u32 \<Rightarrow> u16 \<Rightarrow> mining_config miner_res" where
  "build_mining_config_triton_norotl k noise_rank =
     build_mining_config ''mining_config_triton'' [0, 1] (map of_nat [0..<128]) k noise_rank"

section \<open>Sizes of patterns\<close>

lemma fold_size: "fold (\<lambda>sl acc. acc * snd sl) sh a = a * of_nat (\<Prod>sl \<leftarrow> sh. unat (snd sl))"
  for a :: u32 and sh :: "(u32 \<times> u32) list"
  by (induction sh arbitrary: a) (simp_all add: mult.assoc)

lemma length_fold_expand: "length (fold expand_dim sh res) = (\<Prod>sl \<leftarrow> sh. unat (snd sl)) * length res"
  by (induction sh arbitrary: res) (simp_all add: expand_dim_def length_concat comp_def sum_list_triv)

lemma length_to_list_le: "wf_pattern p \<Longrightarrow> length (to_list p) \<le> 2 ^ 24"
proof -
  assume wf: "wf_pattern p"
  have l: "length (to_list p) = length (rlist (dims p))" using unat_to_list [OF wf] by (metis length_map)
  have "set (rlist (dims p)) \<subseteq> {..<rper (dims p)}" using rlist_less wf_pattern_rwf [OF wf] by auto
  then have "card (set (rlist (dims p))) \<le> rper (dims p)" by (metis card_lessThan card_mono finite_lessThan)
  also have "\<dots> \<le> 2 ^ 24" using wf by (rule rper_dims_le)
  finally show ?thesis using distinct_rlist [OF wf_pattern_rwf [OF wf]] l by (simp add: distinct_card)
qed

lemma pp_size_length: "wf_pattern p \<Longrightarrow> unat (pp_size p) = length (to_list p)"
  using length_to_list_le [of p]
  by (simp add: pp_size_def to_list_def fold_size length_fold_expand unat_of_nat)

section \<open>The job agrees with the verifier\<close>

lemma checked_mul_u128_Some:
  assumes "checked_mul_u128 x y = Some z" shows "unat z = unat x * unat y"
proof (cases "y = 0")
  case True
  then show ?thesis using assms by (simp add: checked_mul_u128_def)
next
  case False
  have max: "unat (- 1 :: u128) = 2 ^ 128 - 1" by (simp add: unsigned_minus_1_eq_mask mask_eq_exp_minus_1)
  have "x \<le> (- 1) div y" and z: "z = x * y" using assms False by (auto simp: checked_mul_u128_def split: if_splits)
  then have "unat x \<le> (2 ^ 128 - 1) div unat y" by (simp only: word_le_nat_alt unat_div max)
  moreover have "0 < unat y" using False by (simp add: unat_gt_0)
  ultimately have "unat x * unat y \<le> 2 ^ 128 - 1" by (simp add: less_eq_div_iff_mult_less_eq)
  then have "unat x * unat y < 2 ^ LENGTH(128)" by simp
  then show ?thesis unfolding z by (rule unat_mult_small)
qed

lemma merkle_root_length:
  assumes "\<And>x. length (sha256d x) = 32" and "\<And>t. length (txid t) = 32"
    and "calculate_merkle_root sha256d txid txs = Ok r"
  shows "length r = 32"
proof -
  have level: "level \<noteq> [] \<Longrightarrow> \<forall>h \<in> set level. length h = 32 \<Longrightarrow> length (merkle_level sha256d level) = 32" for level
  proof (induction "length level" arbitrary: level rule: less_induct)
    case less
    show ?case
    proof (cases "1 < length level")
      case True
      have "length (merkle_level sha256d (merkle_pairs sha256d level)) = 32"
        using True less.prems merkle_pairs_lengths [of sha256d level, OF assms(1)]
        by (intro less.hyps) (auto simp: length_merkle_pairs)
      then show ?thesis using True by (simp add: merkle_level_step)
    next
      case False
      then obtain x where "level = [x]" using less.prems by (cases level) auto
      then show ?thesis using less.prems by simp
    qed
  qed
  then show ?thesis
    using assms(2,3) by (cases "length txs = 1") (auto simp: calculate_merkle_root_def res_bind_Ok_iff Let_def)
qed

lemma job_build_Ok:
  assumes "job_build hex_decode sha256d txid digest tpl coinbase others config = Ok job"
  obtains prev root cfg d adj be where
    "calculate_merkle_root sha256d txid (coinbase # others) = Ok root"
    and "hex_decode (previousblockhash tpl) = Ok prev" and "length prev = 32"
    and "u32_from_str_radix16 (bits_hex tpl) = Some (nbits (incomplete_header job))"
    and "incomplete_header job = \<lparr>hversion = tpl_version tpl, prev_block = prev, merkle_root = root,
           timestamp = ucast (curtime tpl), nbits = nbits (incomplete_header job)\<rparr>"
    and "header_bytes job = header_to_bytes (incomplete_header job)"
    and "config_to_bytes config = Ok cfg" and "keying job = digest (header_bytes job @ cfg) None"
    and "dot_product_length config = Ok d"
    and "Option.bind (checked_mul_u128 (of_nat (length (to_list (rows_pattern config))))
           (of_nat (length (to_list (cols_pattern config))))) (\<lambda>x. checked_mul_u128 x (of_nat d)) = Some adj"
    and "mul_u256_u128 (bits_to_target (nbits (incomplete_header job))) adj = Ok be"
    and "adjusted_target_le job = rev be"
  using assms
  unfolding job_build_def hex_to_array32_def Let_def
  by (auto simp: res_bind_Ok_iff target_be_to_le_def split: if_splits)

lemma job_factor:
  assumes "wf_pattern (rows_pattern config)" and "wf_pattern (cols_pattern config)" and "d < 2 ^ 32"
    and "Option.bind (checked_mul_u128 (of_nat (length (to_list (rows_pattern config))))
           (of_nat (length (to_list (cols_pattern config))))) (\<lambda>x. checked_mul_u128 x (of_nat d)) = Some adj"
  shows "unat adj = unat (pp_size (rows_pattern config)) * unat (pp_size (cols_pattern config)) * d"
proof -
  let ?h = "length (to_list (rows_pattern config))" and ?w = "length (to_list (cols_pattern config))"
  obtain x where x: "checked_mul_u128 (of_nat ?h) (of_nat ?w) = Some x" "checked_mul_u128 x (of_nat d) = Some adj"
    using assms(4) by (auto simp: bind_eq_Some_conv)
  have "unat (of_nat ?h :: u128) = ?h" "unat (of_nat ?w :: u128) = ?w" "unat (of_nat d :: u128) = d"
    using length_to_list_le [OF assms(1)] length_to_list_le [OF assms(2)] assms(3)
    by (simp_all add: unat_of_nat take_bit_nat_eq_self_iff)
  then show ?thesis
    using checked_mul_u128_Some [OF x(1)] checked_mul_u128_Some [OF x(2)]
      pp_size_length [OF assms(1)] pp_size_length [OF assms(2)] by simp
qed

lemma dot_product_length_less: "dot_product_length config = Ok d \<Longrightarrow> d < 2 ^ 32"
  using unat_u32_less [of "common_dim config"]
  by (auto simp: dot_product_length_def Let_def split: if_splits)

lemma mul_u256_u128_ex:
  assumes "length a = 32" and "unat b < 2 ^ 120"
  shows "\<exists>v lost. v + lost * 256 ^ 33 = be_to_nat a * unat b
    \<and> (v < 256 ^ 32 \<longrightarrow> (\<exists>r. mul_u256_u128 a b = Ok r \<and> length r = 32 \<and> be_to_nat r = v))
    \<and> (\<not> v < 256 ^ 32 \<longrightarrow> mul_u256_u128 a b = Err (RpcError ''build_job'' ''adjusted target overflow (> 2^256)''))"
proof (rule mul_u256_u128_cases [OF assms])
  fix v lost
  assume "v + lost * 256 ^ 33 = be_to_nat a * unat b"
    and "v < 256 ^ 32 \<Longrightarrow> \<exists>r. mul_u256_u128 a b = Ok r \<and> length r = 32 \<and> be_to_nat r = v"
    and "\<not> v < 256 ^ 32 \<Longrightarrow> mul_u256_u128 a b = Err (RpcError ''build_job'' ''adjusted target overflow (> 2^256)'')"
  then show ?thesis by blast
qed

text \<open>C9: What a job commits to is what the verifier checks.  For digests of 32 bytes and a valid
  configuration, the header bytes of a built job parse back to its header, its keying hash is the
  verifier's job key for that header and configuration, and, when the bits are in the range the
  two sides read alike and the exact product is below \<open>2 ^ 264\<close>, the little-endian adjusted target
  the kernel compares with is exactly the verifier's difficulty bound.\<close>

theorem job_matches_verifier:
  assumes build: "job_build hex_decode sha256d txid digest tpl coinbase others config = Ok job"
    and sha: "\<And>x. length (sha256d x) = 32" and txid: "\<And>t. length (txid t) = 32" and good: "config_good config"
    and bits: "unat (drop_bit 24 (nbits (incomplete_header job))) \<le> 32" "nbits (incomplete_header job) AND 0x00800000 = 0"
    and dpl: "dot_product_length config = Ok d"
    and f: "f = unat (pp_size (rows_pattern config)) * unat (pp_size (cols_pattern config)) * d" "0 < f" "f < 2 ^ 64"
    and prod: "unat (nbits_to_difficulty (nbits (incomplete_header job))) * f < 2 ^ 264"
  shows "header_from_bytes (header_bytes job) = Ok (incomplete_header job)
    \<and> (\<forall>p. p_header p = incomplete_header job \<and> p_config p = config \<longrightarrow> Headers.job_key digest p = Ok (keying job))
    \<and> extract_difficulty_bound (nbits (incomplete_header job)) config = Ok (u256_from_le (adjusted_target_le job))"
proof -
  obtain prev root cfg d' adj be where
    root: "calculate_merkle_root sha256d txid (coinbase # others) = Ok root"
    and prev: "length prev = 32"
    and inc: "incomplete_header job = \<lparr>hversion = tpl_version tpl, prev_block = prev, merkle_root = root,
           timestamp = ucast (curtime tpl), nbits = nbits (incomplete_header job)\<rparr>"
    and hb: "header_bytes job = header_to_bytes (incomplete_header job)"
    and cfg: "config_to_bytes config = Ok cfg" "keying job = digest (header_bytes job @ cfg) None"
    and d': "dot_product_length config = Ok d'"
    and adj: "Option.bind (checked_mul_u128 (of_nat (length (to_list (rows_pattern config))))
           (of_nat (length (to_list (cols_pattern config))))) (\<lambda>x. checked_mul_u128 x (of_nat d')) = Some adj"
    and mul: "mul_u256_u128 (bits_to_target (nbits (incomplete_header job))) adj = Ok be"
    and le: "adjusted_target_le job = rev be"
    using build by (rule job_build_Ok)
  have "length root = 32" using merkle_root_length [OF sha txid root] .
  then have wf: "wf_header (incomplete_header job)" using prev by (subst inc) (simp add: wf_header_def)
  let ?bits = "nbits (incomplete_header job)"
  have "wf_pattern (rows_pattern config)" "wf_pattern (cols_pattern config)"
    using good is_valid_wf by (auto simp: config_good_def)
  then have adj_f: "unat adj = f"
    using job_factor [OF _ _ dot_product_length_less [OF d'] adj] d' dpl f(1) by simp
  have tgt: "be_to_nat (bits_to_target ?bits) = unat (nbits_to_difficulty ?bits)"
    using bits by (simp add: be_to_nat_bits_to_target unat_nbits_to_difficulty)
  have small_adj: "unat adj < 2 ^ 120" using adj_f f(3) by simp
  obtain v lost where v: "v + lost * 256 ^ 33 = unat (nbits_to_difficulty ?bits) * f"
    and ok: "v < 256 ^ 32 \<longrightarrow> (\<exists>r. mul_u256_u128 (bits_to_target ?bits) adj = Ok r \<and> length r = 32 \<and> be_to_nat r = v)"
    and err: "\<not> v < 256 ^ 32 \<longrightarrow> mul_u256_u128 (bits_to_target ?bits) adj = Err (RpcError ''build_job'' ''adjusted target overflow (> 2^256)'')"
    using mul_u256_u128_ex [OF length_bits_to_target [of ?bits] small_adj] unfolding tgt adj_f by (elim exE conjE) (rule that)
  have vf: "v = unat (nbits_to_difficulty ?bits) * f" using v prod by (cases lost) simp_all
  have small: "v < 256 ^ 32" using err mul by (cases "v < 256 ^ 32") simp_all
  then have be: "be_to_nat be = unat (nbits_to_difficulty ?bits) * f" using ok mul vf by auto
  have not_max: "\<not> 2 ^ 256 \<le> unat (nbits_to_difficulty ?bits) * f" using small vf by simp
  have "extract_difficulty_bound ?bits config = Ok (of_nat (unat (nbits_to_difficulty ?bits) * f))"
    unfolding extract_difficulty_bound_eq [OF dpl f] using not_max by (simp only: if_False)
  moreover have "u256_from_le (adjusted_target_le job) = of_nat (unat (nbits_to_difficulty ?bits) * f)"
    using be by (simp only: le u256_from_le_def be_to_nat_def)
  ultimately show ?thesis
    using hb header_from_to [OF wf] cfg by (simp add: Headers.job_key_def)
qed


text \<open>The configurations the miner runs with.\<close>

lemma cpp_config_eq:
  "build_mining_config_cpp_search k r = Ok \<lparr>common_dim = k, rank = r, mma_type = Int7xInt7ToInt32,
     rows_pattern = \<lparr>shape = [(8, 2), (16, 1), (16, 1)]\<rparr>, cols_pattern = \<lparr>shape = [(1, 2), (8, 16), (128, 1)]\<rparr>,
     reserved = RESERVED_VALUE\<rparr>"
proof -
  have "from_list [0, 8] = Ok \<lparr>shape = [(8, 2), (16, 1), (16, 1)]\<rparr>" by code_simp
  moreover have "from_list cpp_cols = Ok \<lparr>shape = [(1, 2), (8, 16), (128, 1)]\<rparr>" by code_simp
  ultimately show ?thesis by (simp add: build_mining_config_cpp_search_def build_mining_config_def)
qed

lemma triton_config_eq:
  "build_mining_config_triton_norotl k r = Ok \<lparr>common_dim = k, rank = r, mma_type = Int7xInt7ToInt32,
     rows_pattern = \<lparr>shape = [(1, 2), (2, 1), (2, 1)]\<rparr>, cols_pattern = \<lparr>shape = [(1, 128), (128, 1), (128, 1)]\<rparr>,
     reserved = RESERVED_VALUE\<rparr>"
proof -
  have "from_list [0, 1] = Ok \<lparr>shape = [(1, 2), (2, 1), (2, 1)]\<rparr>" by code_simp
  moreover have "from_list (map of_nat [0..<128]) = Ok \<lparr>shape = [(1, 128), (128, 1), (128, 1)]\<rparr>" by code_simp
  ultimately show ?thesis by (simp add: build_mining_config_triton_norotl_def build_mining_config_def)
qed


definition sample_template :: block_template where
  "sample_template = \<lparr>bits_hex = ''1d00ffff'', curtime = 1700000000, height = 500,
     previousblockhash = ''00'', vsizelimit = 1000000, transactions = [], tpl_version = 0x20000000,
     longpollid = [], tpl_target = [], maxtime = 0, mintime = 0, mutable_fields = [], noncerange = [],
     capabilities = [], coinbaseaux = \<lparr>flags = []\<rparr>, coinbasevalue = 5000000000,
     default_witness_commitment = None\<rparr>"

lemma sample_config_good: "config_good sample_config"
proof -
  have "is_valid (rows_pattern sample_config) = Ok True" "is_valid (cols_pattern sample_config) = Ok True" by code_simp+
  then show ?thesis by (simp add: config_good_def sample_config_def)
qed

lemma sample_job:
  "\<exists>job. job_build (\<lambda>_. Ok (replicate 32 0)) (\<lambda>_. replicate 32 0) (\<lambda>_. replicate 32 1) (\<lambda>d k. replicate 32 9)
      sample_template () [] sample_config = Ok job \<and> nbits (incomplete_header job) = 0x1d00ffff"
proof -
  have t: "be_to_nat (bits_to_target 0x1d00ffff) = 0xffff * 256 ^ 26"
    by (subst be_to_nat_bits_to_target) simp_all
  obtain v lost :: nat where v: "v + lost * 256 ^ 33 = 0xffff * 256 ^ 26 * 262144"
    and ok: "v < 256 ^ 32 \<longrightarrow> (\<exists>r. mul_u256_u128 (bits_to_target 0x1d00ffff) 262144 = Ok r)"
    using mul_u256_u128_ex [OF length_bits_to_target [of "0x1d00ffff"], of 262144] t by fastforce
  have "v < 256 ^ 32" using v by simp
  then obtain r where r: "mul_u256_u128 (bits_to_target 0x1d00ffff) 262144 = Ok r" using ok by auto
  have cfg: "\<exists>bs. config_to_bytes sample_config = Ok bs"
    using config_wire.enc_dec [OF sample_config_good] by blast
  have list: "length (to_list (rows_pattern sample_config)) = 2" "length (to_list (cols_pattern sample_config)) = 32"
    by code_simp+
  have bits: "u32_from_str_radix16 (bits_hex sample_template) = Some 0x1d00ffff" by code_simp
  have dpl: "dot_product_length sample_config = Ok 4096"
    by (simp add: sample_config_def dot_product_length_def Let_def)
  show ?thesis
    using r cfg list bits dpl
    by (auto simp: job_build_def hex_to_array32_def Let_def calculate_merkle_root_def checked_mul_u128_def)
qed

theorem job_matches_verifier_witness:
  "\<exists>job. job_build (\<lambda>_. Ok (replicate 32 0)) (\<lambda>_. replicate 32 0) (\<lambda>_. replicate 32 1) (\<lambda>d k. replicate 32 9)
      sample_template () [] sample_config = Ok job
    \<and> extract_difficulty_bound 0x1d00ffff sample_config = Ok (u256_from_le (adjusted_target_le job))"
proof -
  obtain job where job: "job_build (\<lambda>_. Ok (replicate 32 0)) (\<lambda>_. replicate 32 0) (\<lambda>_. replicate 32 1) (\<lambda>d k. replicate 32 9)
      sample_template () [] sample_config = Ok job" and bits: "nbits (incomplete_header job) = 0x1d00ffff"
    using sample_job by blast
  have "extract_difficulty_bound (nbits (incomplete_header job)) sample_config = Ok (u256_from_le (adjusted_target_le job))"
  proof (rule job_matches_verifier [OF job _ _ sample_config_good _ _ _ refl, of 4096, THEN conjunct2, THEN conjunct2])
    show "dot_product_length sample_config = Ok 4096"
      by (simp add: sample_config_def dot_product_length_def Let_def)
    show "unat (nbits_to_difficulty (nbits (incomplete_header job)))
      * (unat (pp_size (rows_pattern sample_config)) * unat (pp_size (cols_pattern sample_config)) * 4096) < 2 ^ 264"
      unfolding bits by (subst unat_nbits_to_difficulty) (simp_all add: sample_config_def pp_size_def)
  qed (simp_all add: bits sample_config_def pp_size_def)
  then show ?thesis using job bits by auto
qed

lemma checked_mul_of_nat:
  assumes "x * y < 2 ^ 128"
  shows "checked_mul_u128 (of_nat x) (of_nat y) = Some (of_nat (x * y))"
proof (cases "y = 0 \<or> x = 0")
  case False
  have "x \<le> x * y" "y \<le> x * y" using False by simp_all
  then have l: "x < 2 ^ 128" "y < 2 ^ 128" using assms by linarith+
  then have u: "unat (of_nat x :: u128) = x" "unat (of_nat y :: u128) = y" by (simp_all add: unat_of_nat take_bit_nat_eq_self_iff)
  have "x \<le> (2 ^ 128 - 1) div y" using assms False by (simp add: less_eq_div_iff_mult_less_eq)
  moreover have "unat ((- 1 :: u128) div of_nat y) = (2 ^ 128 - 1) div y" by (simp add: unat_div_distrib u unsigned_minus_1_eq_mask mask_eq_exp_minus_1)
  ultimately have "\<not> (of_nat x :: u128) > (- 1) div of_nat y" by (simp add: word_less_nat_alt u)
  then show ?thesis by (simp add: checked_mul_u128_def)
qed (auto simp: checked_mul_u128_def)

text \<open>C37: Easy targets divide the two sides: when the product of target and adjustment is at least
  \<open>2 ^ 256\<close> (and below \<open>2 ^ 264\<close>), building the job of a template with these bits, over a valid
  configuration, fails with the overflow error, so the miner does not mine at all, whereas the
  verifier clamps its bound to the largest 256-bit number, and its difficulty check accepts every
  proof for these bits, whatever the hash.\<close>

theorem easy_target_divergence:
  assumes good: "config_good config" and prev: "hex_to_array32 hex_decode (previousblockhash tpl) = Ok prev"
    and nb: "u32_from_str_radix16 (bits_hex tpl) = Some bits"
    and bits: "unat (drop_bit 24 bits) \<le> 32" "bits AND 0x00800000 = 0"
    and dpl: "dot_product_length config = Ok d"
    and f: "f = unat (pp_size (rows_pattern config)) * unat (pp_size (cols_pattern config)) * d" "f < 2 ^ 64"
    and prod: "2 ^ 256 \<le> unat (nbits_to_difficulty bits) * f" "unat (nbits_to_difficulty bits) * f < 2 ^ 264"
  shows "job_build hex_decode sha256d txid digest tpl coinbase others config
      = Err (RpcError ''build_job'' ''adjusted target overflow (> 2^256)'')
    \<and> extract_difficulty_bound bits config = Ok (- 1)
    \<and> (\<forall>p. p_config p = config \<and> nbits (p_header p) = bits \<longrightarrow> check_jackpot_difficulty p = Ok ())"
proof -
  have f0: "0 < f" using prod(1) by (cases f) simp_all
  have adj: "unat (of_nat f :: u128) = f" using f(2) by (simp add: unat_of_nat take_bit_nat_eq_self_iff)
  then have adj_small: "unat (of_nat f :: u128) < 2 ^ 120" using f(2) by simp
  have tgt: "be_to_nat (bits_to_target bits) = unat (nbits_to_difficulty bits)"
    using bits by (simp add: be_to_nat_bits_to_target unat_nbits_to_difficulty)
  obtain v lost where v: "v + lost * 256 ^ 33 = unat (nbits_to_difficulty bits) * f"
    and err: "\<not> v < 256 ^ 32 \<longrightarrow> mul_u256_u128 (bits_to_target bits) (of_nat f)
      = Err (RpcError ''build_job'' ''adjusted target overflow (> 2^256)'')"
    using mul_u256_u128_ex [OF length_bits_to_target [of bits] adj_small]
    unfolding tgt adj by (elim exE conjE) (rule that)
  have "v = unat (nbits_to_difficulty bits) * f" using v prod(2) by (cases lost) simp_all
  then have "\<not> v < 256 ^ 32" using prod(1) by simp
  with err have mul: "mul_u256_u128 (bits_to_target bits) (of_nat f)
      = Err (RpcError ''build_job'' ''adjusted target overflow (> 2^256)'')" by blast
  define h where "h = length (to_list (rows_pattern config))"
  define w where "w = length (to_list (cols_pattern config))"
  have "wf_pattern (rows_pattern config)" "wf_pattern (cols_pattern config)"
    using good is_valid_wf by (auto simp: config_good_def)
  then have hw: "f = h * w * d" unfolding f(1) h_def w_def by (simp add: pp_size_length)
  have "h * w \<le> f" using hw f0 by simp
  moreover have "(2 :: nat) ^ 64 < 2 ^ 128" by simp
  ultimately have "h * w < 2 ^ 128" "h * w * d < 2 ^ 128" using f(2) unfolding hw by linarith+
  note c = checked_mul_of_nat [OF this(1)] checked_mul_of_nat [OF this(2), folded hw]
  obtain cfg where cfg: "config_to_bytes config = Ok cfg" using config_wire.enc_dec [OF good] by blast
  obtain root where root: "calculate_merkle_root sha256d txid (coinbase # others) = Ok root"
    by (cases "others = []") (auto simp: calculate_merkle_root_def Let_def)
  have "job_build hex_decode sha256d txid digest tpl coinbase others config
      = Err (RpcError ''build_job'' ''adjusted target overflow (> 2^256)'')"
    using c mul by (simp add: job_build_def root prev nb cfg dpl Let_def flip: h_def w_def)
  moreover have b: "extract_difficulty_bound bits config = Ok (- 1)"
    using extract_difficulty_bound_eq [OF dpl f(1) f0 f(2), of bits] prod(1) by simp
  moreover have "\<forall>p. p_config p = config \<and> nbits (p_header p) = bits \<longrightarrow> check_jackpot_difficulty p = Ok ()"
    using b by (auto simp: check_jackpot_difficulty_def check_jackpot_difficulty_with_nbits_def)
  ultimately show ?thesis by blast
qed

theorem easy_target_divergence_witness:
  "job_build (\<lambda>_. Ok (replicate 32 0)) (\<lambda>_. replicate 32 0) (\<lambda>_. replicate 32 1) (\<lambda>d k. replicate 32 9)
      (sample_template\<lparr>bits_hex := ''1f00ffff''\<rparr>) () [] sample_config
      = Err (RpcError ''build_job'' ''adjusted target overflow (> 2^256)'')
   \<and> extract_difficulty_bound 0x1f00ffff sample_config = Ok (- 1)"
proof -
  have d: "dot_product_length sample_config = Ok 4096"
    by (simp add: sample_config_def dot_product_length_def Let_def)
  have f: "262144 = unat (pp_size (rows_pattern sample_config)) * unat (pp_size (cols_pattern sample_config)) * 4096"
    by (simp add: sample_config_def pp_size_def)
  have t: "unat (nbits_to_difficulty 0x1f00ffff) = 0xffff * 256 ^ 28"
    by (subst unat_nbits_to_difficulty) simp_all
  have p: "2 ^ 256 \<le> unat (nbits_to_difficulty 0x1f00ffff) * 262144" "unat (nbits_to_difficulty 0x1f00ffff) * 262144 < 2 ^ 264"
    unfolding t by simp_all
  have nb: "u32_from_str_radix16 (bits_hex (sample_template\<lparr>bits_hex := ''1f00ffff''\<rparr>)) = Some 0x1f00ffff" by simp code_simp
  have h: "hex_to_array32 (\<lambda>_. Ok (replicate 32 0)) (previousblockhash (sample_template\<lparr>bits_hex := ''1f00ffff''\<rparr>)) = Ok (replicate 32 0)"
    by (simp add: hex_to_array32_def)
  have "unat (drop_bit 24 (0x1f00ffff :: u32)) \<le> 32" "(0x1f00ffff :: u32) AND 0x00800000 = 0" "(262144 :: nat) < 2 ^ 64" by simp_all
  from easy_target_divergence [OF sample_config_good h nb this(1,2) d f this(3) p, where coinbase = "()" and others = "[]"] show ?thesis by blast
qed
end
