(* ===== verification/Mine_Verify.thy ===== *)
theory Mine_Verify imports Plain_Proof Mining_Job begin

text \<open>
  The reference miner of deps/zk-pow/src/ffi/mine.rs and the verifier of plain proofs
  (deps/zk-pow/src/api/verify.rs), with the jackpot they share (circuit/chip/jackpot/helper.rs).  The random
  generator is a parameter: a function that draws from an inclusive range and returns its next state.
\<close>

section \<open>The jackpot\<close>

definition ZK_JACKPOT_SIZE :: nat where "ZK_JACKPOT_SIZE = 16"
definition LROT_PER_TILE :: nat where "LROT_PER_TILE = 13"

definition nth2 :: "'a list list \<Rightarrow> nat \<Rightarrow> nat \<Rightarrow> ('e, 'a) res" where
  "nth2 xss i j = res_bind (nth_res xss i) (\<lambda>xs. nth_res xs j)"

text \<open>The accumulation of one block of the common dimension into the tile, with the product of a cell as a
  parameter, then the transcript word it updates; the loops of the verifier and of the miner differ in the product
  only.  Stepping by 0 panics.\<close>

definition accumulate ::
  "(nat \<Rightarrow> nat \<Rightarrow> nat \<Rightarrow> ('e, i32) res) \<Rightarrow> nat \<Rightarrow> nat \<Rightarrow> nat \<Rightarrow> nat \<Rightarrow> i32 list list \<Rightarrow> ('e, i32 list list) res" where
  "accumulate f h w lo hi tile =
     res_map (\<lambda>u. res_map (\<lambda>v. res_fold (\<lambda>l acc. res_bind (f u v l) (\<lambda>x. Ok (acc + x))) [lo..<hi] (tile ! u ! v)) [0..<w]) [0..<h]"

definition jackpot_step ::
  "(nat \<Rightarrow> nat \<Rightarrow> nat \<Rightarrow> ('e, i32) res) \<Rightarrow> nat \<Rightarrow> nat \<Rightarrow> nat \<Rightarrow> nat \<Rightarrow> i32 list list \<times> u32 list
   \<Rightarrow> ('e, i32 list list \<times> u32 list) res" where
  "jackpot_step f h w r ll state =
     (case state of (tile, msg) \<Rightarrow>
      res_bind (accumulate f h w (ll - r) ll tile) (\<lambda>tile'.
      let xored_tile = foldl (\<lambda>a x. a XOR x) 0 (concat tile'); tid = (ll div r - 1) mod ZK_JACKPOT_SIZE
      in Ok (tile', msg[tid := word_rotl LROT_PER_TILE (msg ! tid) XOR xored_tile])))"

definition jackpot_loop :: "(nat \<Rightarrow> nat \<Rightarrow> nat \<Rightarrow> ('e, i32) res) \<Rightarrow> nat \<Rightarrow> nat \<Rightarrow> nat \<Rightarrow> nat \<Rightarrow> ('e, u32 list) res" where
  "jackpot_loop f h w r k =
     (if r = 0 then Panic
      else res_bind (res_fold (jackpot_step f h w r) (map (\<lambda>i. (i + 1) * r) [0..<k div r])
             (replicate h (replicate w 0), replicate ZK_JACKPOT_SIZE 0)) (\<lambda>(tile, msg). Ok msg))"

definition compute_jackpot ::
  "compiled_params \<Rightarrow> i8 list list \<Rightarrow> i8 list list \<Rightarrow> mm_slice \<Rightarrow> (anyhow, u32 list) res" where
  "compute_jackpot c secret_a secret_b noise =
     jackpot_loop (\<lambda>u v l.
       res_bind (nth2 secret_a u l) (\<lambda>a. res_bind (nth2 (mm_a noise) u l) (\<lambda>na.
       res_bind (nth2 secret_b v l) (\<lambda>b. res_bind (nth2 (mm_b noise) v l) (\<lambda>nb.
       Ok ((scast a + scast na) * (scast b + scast nb)))))))
     (c_h c) (c_w c) (c_r c) (c_k c)"

section \<open>The verifier\<close>

definition compute_noise :: "digest_fn \<Rightarrow> compiled_params \<Rightarrow> (anyhow, mm_slice) res" where
  "compute_noise D c = compute_noise_for_indices D (c_k c) (c_r c) (c_commitment c) (c_a_rows c) (c_b_cols c)"

definition in_signal_range :: "i8 \<Rightarrow> bool" where
  "in_signal_range x \<longleftrightarrow> - 64 \<le> sint x \<and> sint x \<le> 64"

definition verify_plain_proof :: "blake3_lib \<Rightarrow> block_header \<Rightarrow> plain_proof \<Rightarrow> (anyhow, unit) res option" where
  "verify_plain_proof B hdr pf =
     try_bind (parse_plain_proof B hdr pf) (\<lambda>(priv, pub). Some (
       res_bind (public_params_sanity_check pub) (\<lambda>_.
       res_bind (ensure (list_all (list_all in_signal_range) (s_a priv @ s_b priv)) ''Matrix value out of range [-64, 64]'') (\<lambda>_.
       res_bind (compile_params B pub) (\<lambda>(compiled, _, _).
       res_bind (compute_noise (blake3_digest B) compiled) (\<lambda>noise.
       res_bind (compute_jackpot compiled (s_a priv) (s_b priv) noise) (\<lambda>jackpot.
       check_jackpot_difficulty (pub\<lparr>hash_jackpot := compute_jackpot_hash (blake3_digest B) jackpot (snd (c_commitment compiled))\<rparr>)))))))) "

section \<open>The miner\<close>

definition SIGNAL_MIN :: i8 where "SIGNAL_MIN = - 64"
definition SIGNAL_MAX :: i8 where "SIGNAL_MAX = 64"

text \<open>\<open>random_range\<close> panics on an empty range.\<close>

type_synonym 'g range_gen = "i8 \<Rightarrow> i8 \<Rightarrow> 'g \<Rightarrow> i8 \<times> 'g"

definition random_range :: "'g range_gen \<Rightarrow> i8 \<Rightarrow> i8 \<Rightarrow> 'g \<Rightarrow> (anyhow, i8 \<times> 'g) res" where
  "random_range gen lo hi st = (if sint hi < sint lo then Panic else Ok (gen lo hi st))"

primrec draw :: "('g \<Rightarrow> (anyhow, 'a \<times> 'g) res) \<Rightarrow> nat \<Rightarrow> 'g \<Rightarrow> (anyhow, 'a list \<times> 'g) res" where
  "draw f 0 st = Ok ([], st)"
| "draw f (Suc n) st = res_bind (f st) (\<lambda>(x, st1). res_bind (draw f n st1) (\<lambda>(xs, st2). Ok (x # xs, st2)))"

definition draw_matrix :: "'g range_gen \<Rightarrow> i8 \<Rightarrow> i8 \<Rightarrow> nat \<Rightarrow> nat \<Rightarrow> 'g \<Rightarrow> (anyhow, i8 list list \<times> 'g) res" where
  "draw_matrix gen lo hi rows cols = draw (draw (random_range gen lo hi) cols) rows"

definition transposed :: "nat \<Rightarrow> nat \<Rightarrow> 'a list list \<Rightarrow> (anyhow, 'a list list) res" where
  "transposed n k b = res_map (\<lambda>i. res_map (\<lambda>j. nth2 b j i) [0..<k]) [0..<n]"

definition flatten_matrix :: "i8 list list \<Rightarrow> bytes" where
  "flatten_matrix mat = map ucast (concat mat)"

definition compute_job_key :: "digest_fn \<Rightarrow> block_header \<Rightarrow> mining_config \<Rightarrow> (anyhow, bytes) res" where
  "compute_job_key D hdr config = res_bind (config_to_bytes config) (\<lambda>cfg. Ok (D (header_to_bytes hdr @ cfg) None))"

definition compute_commitment_hash :: "digest_fn \<Rightarrow> bytes \<Rightarrow> bytes \<Rightarrow> bytes \<Rightarrow> bytes \<times> bytes" where
  "compute_commitment_hash D key a_row_major b_col_major =
     (let ha = D a_row_major (Some key); hb = D b_col_major (Some key);
          b_noise_seed = D (key @ hb) None; a_noise_seed = D (b_noise_seed @ ha) None
      in (b_noise_seed, a_noise_seed))"

definition build_matrix_proof :: "blake3_lib \<Rightarrow> i8 list list \<Rightarrow> bytes \<Rightarrow> nat list \<Rightarrow> nat \<Rightarrow> (anyhow, matrix_merkle_proof) res" where
  "build_matrix_proof B mat key rows num_cols =
     (let padded = pad_to_chunk_boundary (flatten_matrix mat);
          leaf_idx = compute_leaf_indices_from_rows rows (length mat, num_cols)
      in res_bind (get_multileaf_proof (merkle_tree_new B padded key) leaf_idx) (\<lambda>p.
         Ok \<lparr>mproof = p, row_indices = rows\<rparr>))"

text \<open>The first element for which a loop body returns early.\<close>

fun first_hit :: "('a \<Rightarrow> ('e, 'b option) res) \<Rightarrow> 'a list \<Rightarrow> ('e, 'b option) res" where
  "first_hit f [] = Ok None"
| "first_hit f (x # xs) = res_bind (f x) (\<lambda>r. case r of Some y \<Rightarrow> Ok (Some y) | None \<Rightarrow> first_hit f xs)"

text \<open>The matrices with the noise added; the noise of B is indexed by column.\<close>

definition noised_a :: "i8 list list \<Rightarrow> i8 list list \<Rightarrow> i32 list list" where
  "noised_a a noise = map (\<lambda>(a_row, n_row). map (\<lambda>(x, n). scast x + scast n) (zip a_row n_row)) (zip a noise)"

definition noised_b :: "i8 list list \<Rightarrow> i8 list list \<Rightarrow> (anyhow, i32 list list) res" where
  "noised_b b noise = res_map (\<lambda>(row_idx, b_row).
     res_map (\<lambda>(col_idx, x). res_bind (nth2 noise col_idx row_idx) (\<lambda>n. Ok (scast x + scast n))) (zip [0..<length b_row] b_row))
     (zip [0..<length b] b)"

definition mine_tile ::
  "blake3_lib \<Rightarrow> nat \<Rightarrow> nat \<Rightarrow> nat \<Rightarrow> block_header \<Rightarrow> mining_config \<Rightarrow> bool \<Rightarrow> bytes \<Rightarrow> bytes
   \<Rightarrow> i8 list list \<Rightarrow> i8 list list \<Rightarrow> i32 list list \<Rightarrow> i32 list list \<Rightarrow> nat list \<Rightarrow> nat list \<Rightarrow> (anyhow, plain_proof option) res" where
  "mine_tile B m n k hdr config wrong key a_noise_seed a bt an bnt a_rows b_cols =
     (let rnk = unat (rank config) in
      res_bind (jackpot_loop (\<lambda>u v l. res_bind (nth2 an (a_rows ! u) l) (\<lambda>x. res_bind (nth2 bnt (b_cols ! v) l) (\<lambda>y. Ok (x * y))))
        (length a_rows) (length b_cols) rnk k) (\<lambda>jackpot.
      let jackpot_hash = compute_jackpot_hash (blake3_digest B) jackpot a_noise_seed in
      res_bind (extract_difficulty_bound (nbits hdr) config) (\<lambda>jackpot_bound.
      if (u256_from_le jackpot_hash \<le> jackpot_bound) \<noteq> wrong
      then res_bind (build_matrix_proof B a key a_rows k) (\<lambda>a_proof.
           res_bind (build_matrix_proof B bt key b_cols k) (\<lambda>b_proof.
           Ok (Some \<lparr>pf_m = m, pf_n = n, pf_k = k, noise_rank = rnk, pf_a = a_proof, pf_bt = b_proof\<rparr>)))
      else Ok None)))"

definition try_mine_one ::
  "blake3_lib \<Rightarrow> 'g range_gen \<Rightarrow> 'g \<Rightarrow> nat \<Rightarrow> nat \<Rightarrow> nat \<Rightarrow> block_header \<Rightarrow> mining_config \<Rightarrow> (i8 \<times> i8) option \<Rightarrow> bool
   \<Rightarrow> (anyhow, plain_proof option \<times> 'g) res" where
  "try_mine_one B gen st m n k hdr config signal_range wrong =
     (let (lo, hi) = (case signal_range of Some r \<Rightarrow> r | None \<Rightarrow> (SIGNAL_MIN, SIGNAL_MAX)) in
      res_bind (draw_matrix gen lo hi m k st) (\<lambda>(a, st1).
      res_bind (draw_matrix gen lo hi k n st1) (\<lambda>(b, st2).
      res_bind (transposed n k b) (\<lambda>bt.
      res_bind (compute_job_key (blake3_digest B) hdr config) (\<lambda>key.
      let a_row_major = pad_to_chunk_boundary (flatten_matrix a); b_col_major = pad_to_chunk_boundary (flatten_matrix bt);
          (b_noise_seed, a_noise_seed) = compute_commitment_hash (blake3_digest B) key a_row_major b_col_major in
      res_bind (compute_noise_for_indices (blake3_digest B) k (unat (rank config)) (b_noise_seed, a_noise_seed) [0..<m] [0..<n]) (\<lambda>noise.
      let an = noised_a a (mm_a noise) in
      res_bind (noised_b b (mm_b noise)) (\<lambda>bn.
      res_bind (transposed n k bn) (\<lambda>bnt.
      res_bind (threads_partition (rows_pattern config) m) (\<lambda>row_tiles.
      res_bind (first_hit (\<lambda>a_rows.
          res_bind (threads_partition (cols_pattern config) n) (\<lambda>col_tiles.
          first_hit (mine_tile B m n k hdr config wrong key a_noise_seed a bt an bnt a_rows) col_tiles)) row_tiles) (\<lambda>hit.
      Ok (hit, st2)))))))))))"

text \<open>\<open>mine\<close> tries until an attempt finds a proof or fails; \<open>None\<close> is a run that goes on forever.\<close>

partial_function (option) mine ::
  "blake3_lib \<Rightarrow> 'g range_gen \<Rightarrow> nat \<Rightarrow> nat \<Rightarrow> nat \<Rightarrow> block_header \<Rightarrow> mining_config \<Rightarrow> (i8 \<times> i8) option \<Rightarrow> bool \<Rightarrow> 'g
   \<Rightarrow> (anyhow, plain_proof \<times> 'g) res option" where
  "mine B gen m n k hdr config signal_range wrong st =
     (case try_mine_one B gen st m n k hdr config signal_range wrong of
        Ok (Some pf, st') \<Rightarrow> Some (Ok (pf, st'))
      | Ok (None, st') \<Rightarrow> mine B gen m n k hdr config signal_range wrong st'
      | Err e \<Rightarrow> Some (Err e)
      | Panic \<Rightarrow> Some Panic)"

section \<open>The jackpot of products that cannot fail\<close>

lemma res_fold_Ok: "(\<And>x s. x \<in> set xs \<Longrightarrow> f x s = Ok (g x s)) \<Longrightarrow> res_fold f xs s = Ok (fold g xs s)"
  by (induction xs arbitrary: s) simp_all

definition tile_after :: "(nat \<Rightarrow> nat \<Rightarrow> nat \<Rightarrow> i32) \<Rightarrow> nat \<Rightarrow> nat \<Rightarrow> nat \<Rightarrow> nat \<Rightarrow> i32 list list \<Rightarrow> i32 list list" where
  "tile_after g h w lo hi tile = map (\<lambda>u. map (\<lambda>v. fold (\<lambda>l acc. acc + g u v l) [lo..<hi] (tile ! u ! v)) [0..<w]) [0..<h]"

definition jackpot_update :: "(nat \<Rightarrow> nat \<Rightarrow> nat \<Rightarrow> i32) \<Rightarrow> nat \<Rightarrow> nat \<Rightarrow> nat \<Rightarrow> nat \<Rightarrow> i32 list list \<times> u32 list \<Rightarrow> i32 list list \<times> u32 list" where
  "jackpot_update g h w r ll st =
     (let tile = tile_after g h w (ll - r) ll (fst st); tid = (ll div r - 1) mod ZK_JACKPOT_SIZE
      in (tile, (snd st)[tid := word_rotl LROT_PER_TILE (snd st ! tid) XOR foldl (\<lambda>a x. a XOR x) 0 (concat tile)]))"

definition jackpot_of :: "(nat \<Rightarrow> nat \<Rightarrow> nat \<Rightarrow> i32) \<Rightarrow> nat \<Rightarrow> nat \<Rightarrow> nat \<Rightarrow> nat \<Rightarrow> u32 list" where
  "jackpot_of g h w r k = snd (fold (jackpot_update g h w r) (map (\<lambda>i. (i + 1) * r) [0..<k div r])
      (replicate h (replicate w 0), replicate ZK_JACKPOT_SIZE 0))"

lemma accumulate_Ok:
  assumes "\<And>u v l. u < h \<Longrightarrow> v < w \<Longrightarrow> l < hi \<Longrightarrow> f u v l = Ok (g u v l)"
  shows "accumulate f h w lo hi tile = Ok (tile_after g h w lo hi tile)"
  unfolding accumulate_def tile_after_def
  by (intro res_map_all_Ok res_fold_Ok) (simp add: assms)

lemma jackpot_loop_Ok:
  assumes "0 < r" "\<And>u v l. u < h \<Longrightarrow> v < w \<Longrightarrow> l < k div r * r \<Longrightarrow> f u v l = Ok (g u v l)"
  shows "jackpot_loop f h w r k = Ok (jackpot_of g h w r k)"
proof -
  have step: "jackpot_step f h w r ll st = Ok (jackpot_update g h w r ll st)"
    if "ll \<in> set (map (\<lambda>i. (i + 1) * r) [0..<k div r])" for ll st
  proof -
    from that obtain i where "i < k div r" "ll = (i + 1) * r" by auto
    then have "ll \<le> k div r * r" using mult_le_mono1 [of "i + 1" "k div r" r] by simp
    then have "accumulate f h w (ll - r) ll (fst st) = Ok (tile_after g h w (ll - r) ll (fst st))"
      by (intro accumulate_Ok assms(2)) simp_all
    then show ?thesis by (cases st) (simp add: jackpot_step_def jackpot_update_def Let_def)
  qed
  have "res_fold (jackpot_step f h w r) (map (\<lambda>i. (i + 1) * r) [0..<k div r]) st
      = Ok (fold (jackpot_update g h w r) (map (\<lambda>i. (i + 1) * r) [0..<k div r]) st)" for st
    by (rule res_fold_Ok) (rule step)
  then show ?thesis using assms(1)
    unfolding jackpot_loop_def jackpot_of_def by (simp add: split_beta)
qed

section \<open>The drawn matrices\<close>

definition in_range_gen :: "'g range_gen \<Rightarrow> bool" where
  "in_range_gen gen \<longleftrightarrow> (\<forall>lo hi st. sint lo \<le> sint hi \<longrightarrow> sint lo \<le> sint (fst (gen lo hi st)) \<and> sint (fst (gen lo hi st)) \<le> sint hi)"

lemma draw_all:
  assumes "\<And>st. \<exists>x st'. f st = Ok (x, st') \<and> P x"
  shows "\<exists>xs st'. draw f n st = Ok (xs, st') \<and> length xs = n \<and> list_all P xs"
proof (induction n arbitrary: st)
  case (Suc n)
  obtain x st1 where 1: "f st = Ok (x, st1)" "P x" using assms by blast
  obtain xs st2 where "draw f n st1 = Ok (xs, st2)" "length xs = n" "list_all P xs" using Suc by blast
  with 1 show ?case by simp
qed simp

definition signal_matrix :: "nat \<Rightarrow> nat \<Rightarrow> i8 list list \<Rightarrow> bool" where
  "signal_matrix rows cols a \<longleftrightarrow> length a = rows \<and> list_all (\<lambda>row. length row = cols \<and> list_all in_signal_range row) a"

lemma draw_matrix_signal:
  assumes "in_range_gen gen"
  shows "\<exists>a st'. draw_matrix gen SIGNAL_MIN SIGNAL_MAX rows cols st = Ok (a, st') \<and> signal_matrix rows cols a"
proof -
  have s: "sint SIGNAL_MIN = - 64" "sint SIGNAL_MAX = 64" by (simp_all add: SIGNAL_MIN_def SIGNAL_MAX_def)
  have "\<exists>x st'. random_range gen SIGNAL_MIN SIGNAL_MAX st = Ok (x, st') \<and> in_signal_range x" for st
    using assms [unfolded in_range_gen_def, rule_format, of SIGNAL_MIN SIGNAL_MAX st]
    by (auto simp: random_range_def s in_signal_range_def intro: prod.exhaust [of "gen SIGNAL_MIN SIGNAL_MAX st"])
  from draw_all [where f = "random_range gen SIGNAL_MIN SIGNAL_MAX" and P = in_signal_range, OF this]
  have "\<exists>xs st'. draw (random_range gen SIGNAL_MIN SIGNAL_MAX) cols st = Ok (xs, st') \<and> length xs = cols \<and> list_all in_signal_range xs" for st
    by blast
  from draw_all [where f = "draw (random_range gen SIGNAL_MIN SIGNAL_MAX) cols" and P = "\<lambda>xs. length xs = cols \<and> list_all in_signal_range xs", OF this]
  show ?thesis by (simp add: draw_matrix_def signal_matrix_def)
qed

lemma nth2_Ok: "i < length xss \<Longrightarrow> j < length (xss ! i) \<Longrightarrow> nth2 xss i j = Ok (xss ! i ! j)"
  by (simp add: nth2_def nth_res_def)

lemma transposed_Ok:
  assumes "length b = k" "\<forall>row \<in> set b. length row = n"
  shows "transposed n k b = Ok (map (\<lambda>i. map (\<lambda>j. b ! j ! i) [0..<k]) [0..<n])"
  unfolding transposed_def by (intro res_map_all_Ok nth2_Ok) (use assms in auto)

lemma noised_b_Ok:
  assumes "length b = k" "\<forall>row \<in> set b. length row = n" "length noise = n" "\<forall>row \<in> set noise. length row = k"
  shows "noised_b b noise = Ok (map (\<lambda>j. map (\<lambda>i. scast (b ! j ! i) + scast (noise ! i ! j)) [0..<n]) [0..<k])"
proof -
  have "noised_b b noise = Ok (map (\<lambda>(j, row). map (\<lambda>(i, x). scast x + scast (noise ! i ! j)) (zip [0..<length row] row)) (zip [0..<length b] b))"
    unfolding noised_b_def
  proof (intro res_map_all_Ok, clarsimp, intro res_map_all_Ok, clarsimp)
    fix j row i x assume j: "(j, row) \<in> set (zip [0..<length b] b)" and i: "(i, x) \<in> set (zip [0..<length row] row)"
    from j have "j < k" "length row = n" using assms(1,2) by (auto simp: set_zip)
    moreover from i have "i < length row" by (auto simp: set_zip)
    ultimately show "res_bind (nth2 noise i j) (\<lambda>n. Ok (scast x + scast n)) = Ok (scast x + scast (noise ! i ! j))"
      using assms(3,4) by (simp add: nth2_Ok)
  qed
  also have "\<dots> = Ok (map (\<lambda>j. map (\<lambda>i. scast (b ! j ! i) + scast (noise ! i ! j)) [0..<n]) [0..<k])"
    using assms(1,2) by (auto intro!: nth_equalityI)
  finally show ?thesis .
qed


section \<open>The tiles of a dimension\<close>

lemma strictly_increasing_map:
  "(\<And>x y. x \<in> set xs \<Longrightarrow> y \<in> set xs \<Longrightarrow> f x < f y \<longleftrightarrow> x < y) \<Longrightarrow> strictly_increasing (map f xs) = strictly_increasing xs"
  by (auto simp: strictly_increasing_def list_all_iff)

lemma tile_indices:
  assumes wf: "wf_pattern p" and dvd: "rper (dims p) dvd dim" "dim \<le> 2 ^ 24" and off: "off < dim" "rvalid (dims p) off"
  shows "i \<in> set (to_list p) \<Longrightarrow> unat (i + of_nat off) = off + unat i" and "i \<in> set (to_list p) \<Longrightarrow> off + unat i < dim"
proof -
  have bound: "off + unat i < dim" if "i \<in> set (to_list p)" for i
  proof -
    have "unat i \<in> set (rlist (dims p))" using that unat_to_list [OF wf] by (metis image_eqI set_map)
    then have "off + unat i \<in> (\<Union>off \<in> {off. off < dim \<and> rvalid (dims p) off}. (+) off ` set (rlist (dims p)))"
      using off by blast
    then show ?thesis unfolding partition_mem [OF wf_pattern_rwf [OF wf] dvd(1)] by simp
  qed
  then show "i \<in> set (to_list p) \<Longrightarrow> off + unat i < dim" .
  have o: "unat (of_nat off :: u32) = off" using off(1) dvd(2) by (simp add: unat_of_nat take_bit_nat_eq_self)
  show "unat (i + of_nat off) = off + unat i" if "i \<in> set (to_list p)"
    using bound [OF that] dvd(2) o by (subst unat_add_small) simp_all
qed

lemma tile_pattern:
  assumes wf: "wf_pattern p" and fl: "from_list (to_list p) = Ok p"
    and dvd: "rper (dims p) dvd dim" "dim \<le> 2 ^ 24" and off: "off < dim" "rvalid (dims p) off"
  shows "map unat (indices_with_offset p (of_nat off)) = map ((+) off) (rlist (dims p))"
    and "list_to_pattern (indices_with_offset p (of_nat off)) = Ok (p, of_nat off)"
    and "\<forall>r \<in> set (indices_with_offset p (of_nat off)). unat r < dim"
    and "\<exists>mx. pp_max p = Ok mx \<and> unat (of_nat off + mx) < dim"
    and "indices_with_offset p (of_nat off) \<noteq> []"
proof -
  note ti = tile_indices [OF wf dvd off]
  let ?xs = "indices_with_offset p (of_nat off)"
  have ne: "to_list p \<noteq> []" "hd (to_list p) = 0" "strictly_increasing (to_list p)"
    using fl by (auto simp: from_list_def res_bind_Ok_iff ensure_def split: if_splits)
  show "map unat ?xs = map ((+) off) (rlist (dims p))"
    unfolding unat_to_list [OF wf, symmetric] indices_with_offset_def by (simp add: ti(1))
  show "?xs \<noteq> []" using ne(1) by (simp add: indices_with_offset_def)
  have "strictly_increasing ?xs \<longleftrightarrow> strictly_increasing (to_list p)" unfolding indices_with_offset_def
    by (rule strictly_increasing_map) (simp add: word_less_nat_alt ti(1))
  moreover have "hd ?xs = of_nat off" using ne(1,2) by (simp add: indices_with_offset_def hd_map)
  moreover have "map (\<lambda>i. i - of_nat off) ?xs = to_list p" by (simp add: indices_with_offset_def comp_def)
  moreover have "unat (of_nat off :: u32) = off" using off(1) dvd(2) by (simp add: unat_of_nat take_bit_nat_eq_self)
  ultimately show "list_to_pattern ?xs = Ok (p, of_nat off)"
    using ne \<open>?xs \<noteq> []\<close> by (simp add: list_to_pattern_def fl offset_is_valid_rvalid [OF wf] off(2))
  show "\<forall>r \<in> set ?xs. unat r < dim" by (auto simp: indices_with_offset_def ti)
  have "Max (set (to_list p)) \<in> set (to_list p)" using ne(1) by (intro Max_in) simp_all
  from ti [OF this] show "\<exists>mx. pp_max p = Ok mx \<and> unat (of_nat off + mx) < dim"
    using ne(1) by (simp add: pp_max_def add.commute)
qed

section \<open>A mined tile verifies\<close>

text \<open>The BLAKE3 crate as documented: 32-byte digests, and with a key of 32 bytes the operations of the
  specification; the hash of whole chunks is the value of their tree.\<close>

definition blake3_contract :: "blake3_lib \<Rightarrow> bool" where
  "blake3_contract B \<longleftrightarrow> digest32 (blake3_digest B) \<and>
     (\<forall>key. length key = 32 \<longrightarrow> blake3_spec B key \<and>
       (\<forall>data n. length data = 1024 * n \<and> 1 \<le> n \<and> n < 2 ^ 48 \<longrightarrow> blake3_digest B data (Some key) = tree_value key data 0 (1024 * n) True))"

lemma matrix_row:
  assumes "signal_matrix rows cols a" "r < rows" "len \<le> cols"
  shows "length (flatten_matrix a) = rows * cols"
    and "map ucast (subrange (r * cols) (r * cols + len) (pad_to_chunk_boundary (flatten_matrix a))) = take len (a ! r)"
proof -
  have a: "length a = rows" "\<And>r. r < rows \<Longrightarrow> length (a ! r) = cols"
    using assms(1) by (auto simp: signal_matrix_def list_all_iff)
  have c: "concat a = concat (map (\<lambda>r. a ! r) [0..<rows])" using a(1) map_nth [of a] by simp
  have l: "length (concat a) = rows * cols" unfolding c by (rule length_concat_chunks) (rule a(2))
  then show fl: "length (flatten_matrix a) = rows * cols" by (simp add: flatten_matrix_def)
  have "(r + 1) * cols \<le> rows * cols" using assms(2) by (intro mult_le_mono1) simp
  then have in_m: "r * cols + len \<le> rows * cols" using assms(3) by simp
  show "map ucast (subrange (r * cols) (r * cols + len) (pad_to_chunk_boundary (flatten_matrix a))) = take len (a ! r)"
  proof (rule nth_equalityI)
    show "length (map ucast (subrange (r * cols) (r * cols + len) (pad_to_chunk_boundary (flatten_matrix a)))) = length (take len (a ! r))"
      using in_m fl assms(3) a(2) [OF assms(2)] by (simp add: pad_to_chunk_boundary_def)
    fix i assume i: "i < length (map ucast (subrange (r * cols) (r * cols + len) (pad_to_chunk_boundary (flatten_matrix a))))"
    then have i: "i < len" by simp
    have "(concat (map (\<lambda>r. a ! r) [0..<rows])) ! (r * cols + i) = a ! ((r * cols + i) div cols) ! ((r * cols + i) mod cols)"
      using a(2) i in_m by (intro nth_concat_chunks) auto
    moreover have "(r * cols + i) div cols = r" "(r * cols + i) mod cols = i" using i assms(3) by simp_all
    ultimately have "concat a ! (r * cols + i) = a ! r ! i" by (simp add: c)
    moreover have "r * cols + i < length (concat a)" using i in_m l by simp
    ultimately show "map ucast (subrange (r * cols) (r * cols + len) (pad_to_chunk_boundary (flatten_matrix a))) ! i = take len (a ! r) ! i"
      using i in_m fl by (simp add: pad_to_chunk_boundary_def nth_subrange nth_append flatten_matrix_def)
  qed
qed

lemma length_padded: "length (pad_to_chunk_boundary xs) = padded_chunk_len (length xs)"
  using padded_chunk_len_bounds(1) [of "length xs"] by (simp add: pad_to_chunk_boundary_def)

lemma sane_hashes:
  "public_params_sanity_check (p\<lparr>hash_a := ha, hash_b := hb, hash_jackpot := hj\<rparr>) = public_params_sanity_check p"
  by (simp add: public_params_sanity_check_def pub_common_dim_def pub_rank_def pub_h_def pub_w_def Let_def)

lemma padded_hash:
  assumes "blake3_contract B" "length key = 32" "length A = rows * k" "0 < rows" "rows \<le> 2 ^ 24" "0 < k" "k \<le> 2 ^ 16"
    and "tree_root (merkle_tree_new B (pad_to_chunk_boundary A) key) = Ok root"
  shows "blake3_digest B (pad_to_chunk_boundary A) (Some key) = root"
proof -
  define n where "n = length (pad_to_chunk_boundary A) div 1024"
  note pc = padded_chunk_len_bounds [of "length A", folded length_padded]
  have n: "length (pad_to_chunk_boundary A) = 1024 * n"
    using pc(2) mult_div_mod_eq [of 1024 "length (pad_to_chunk_boundary A)"] by (simp add: n_def)
  have "rows * k \<le> 2 ^ 24 * 2 ^ 16" using assms(5,7) by (intro mult_mono) simp_all
  with pc(4) assms(3) have n48: "n < 2 ^ 48" by (simp add: n_def)
  have n1: "1 \<le> n" using pc(3) assms(3,4,6) n by (cases n) simp_all
  have "blake3_spec B key" using assms(1,2) by (simp add: blake3_contract_def)
  from tree_value_root [OF this n n1 n48] assms(8) have "root = tree_value key (pad_to_chunk_boundary A) 0 (1024 * n) True" by simp
  with assms(1,2) n n1 n48 show ?thesis by (simp add: blake3_contract_def)
qed

definition cell ::
  "digest_fn \<Rightarrow> bytes \<times> bytes \<Rightarrow> nat \<Rightarrow> i8 list list \<Rightarrow> i8 list list \<Rightarrow> nat list \<Rightarrow> nat list \<Rightarrow> nat \<Rightarrow> nat \<Rightarrow> nat \<Rightarrow> i32" where
  "cell D seeds r a bt rows cols u v l =
     (scast (a ! (rows ! u) ! l) + scast (noise_entry D SEED_LABEL_A (snd seeds) r (rows ! u) l))
   * (scast (bt ! (cols ! v) ! l) + scast (noise_entry D SEED_LABEL_B (fst seeds) r (cols ! v) l))"

lemma compute_jackpot_cells:
  assumes "digest32 (blake3_digest B)" "c_r c = 2 ^ e" "0 < e" "e < 32"
    and "c_h c = length (c_a_rows c)" "c_w c = length (c_b_cols c)" "len = c_k c - c_k c mod c_r c" "len \<le> c_k c"
    and "sa = map (\<lambda>r. take len (a ! r)) (c_a_rows c)" "sb = map (\<lambda>r. take len (bt ! r)) (c_b_cols c)"
    and "\<forall>r \<in> set (c_a_rows c). length (a ! r) = c_k c" "\<forall>r \<in> set (c_b_cols c). length (bt ! r) = c_k c"
  shows "res_bind (compute_noise (blake3_digest B) c) (compute_jackpot c sa sb)
    = Ok (jackpot_of (cell (blake3_digest B) (c_commitment c) (c_r c) a bt (c_a_rows c) (c_b_cols c)) (c_h c) (c_w c) (c_r c) (c_k c))"
proof -
  obtain bs as where seeds: "c_commitment c = (bs, as)" by fastforce
  define nz where "nz = \<lparr>mm_a = map (\<lambda>r. map (noise_entry (blake3_digest B) SEED_LABEL_A as (c_r c) r) [0..<c_k c]) (c_a_rows c),
           mm_b = map (\<lambda>r. map (noise_entry (blake3_digest B) SEED_LABEL_B bs (c_r c) r) [0..<c_k c]) (c_b_cols c)\<rparr>"
  have nz: "compute_noise (blake3_digest B) c = Ok nz"
    using noise_for_indices [OF assms(1,3,4)] by (simp add: compute_noise_def seeds nz_def assms(2))
  have "compute_jackpot c sa sb nz = Ok (jackpot_of (cell (blake3_digest B) (c_commitment c) (c_r c) a bt (c_a_rows c) (c_b_cols c)) (c_h c) (c_w c) (c_r c) (c_k c))"
    unfolding compute_jackpot_def
  proof (rule jackpot_loop_Ok)
    show "0 < c_r c" by (simp add: assms(2))
    fix u v l assume uvl: "u < c_h c" "v < c_w c" "l < c_k c div c_r c * c_r c"
    then have l: "l < len" "l < c_k c" using assms(7,8) minus_mod_eq_div_mult [of "c_k c" "c_r c"] by simp_all
    have "length (a ! (c_a_rows c ! u)) = c_k c" "length (bt ! (c_b_cols c ! v)) = c_k c" using uvl assms(5,6,11,12) by simp_all
    then show "res_bind (nth2 sa u l) (\<lambda>a. res_bind (nth2 (mm_a nz) u l) (\<lambda>na.
       res_bind (nth2 sb v l) (\<lambda>b. res_bind (nth2 (mm_b nz) v l) (\<lambda>nb.
       Ok ((scast a + scast na) * (scast b + scast nb))))))
      = Ok (cell (blake3_digest B) (c_commitment c) (c_r c) a bt (c_a_rows c) (c_b_cols c) u v l)"
      using uvl l by (simp add: assms(5,6,9,10) nth2_Ok nz_def cell_def seeds)
  qed
  with nz show ?thesis by simp
qed


lemma sane_rank:
  assumes "public_params_sanity_check p = Ok ()"
  obtains e where "pub_rank p = 2 ^ e" "0 < e" "e < 32"
proof -
  from assms have r: "is_power_of_two (pub_rank p)" "32 \<le> pub_rank p" "pub_rank p \<le> 1024"
    by (auto simp: public_params_sanity_check_def Let_def res_bind_Ok_iff)
  then obtain e where e: "pub_rank p = 2 ^ e" by (auto simp: is_power_of_two_def list_ex_iff)
  with r(2) have "0 < e" by (cases e) simp_all
  moreover have "e < 32"
  proof (rule ccontr)
    assume "\<not> e < 32"
    then have "(2 :: nat) ^ 32 \<le> 2 ^ e" by (intro power_increasing) simp_all
    with e r(3) show False by simp
  qed
  ultimately show thesis using that e by blast
qed

lemma tile_verifies:
  assumes B: "blake3_contract B" and sane: "public_params_sanity_check p = Ok ()" and inside: "rows_inside p"
    and canon: "canonical_rows p" and key: "job_key (blake3_digest B) p = Ok key"
    and A: "signal_matrix (unat (p_m p)) (pub_common_dim p) a" and Bt: "signal_matrix (unat (p_n p)) (pub_common_dim p) bt"
    and seeds: "seeds = compute_commitment_hash (blake3_digest B) key (pad_to_chunk_boundary (flatten_matrix a)) (pad_to_chunk_boundary (flatten_matrix bt))"
    and rows: "rows = map unat (a_rows_indices p)" and cols: "cols = map unat (b_cols_indices p)"
    and hash: "hash = compute_jackpot_hash (blake3_digest B)
      (jackpot_of (cell (blake3_digest B) seeds (pub_rank p) a bt rows cols) (length rows) (length cols) (pub_rank p) (pub_common_dim p)) (snd seeds)"
  shows "\<exists>pa pb. build_matrix_proof B a key rows (pub_common_dim p) = Ok \<lparr>mproof = pa, row_indices = rows\<rparr>
    \<and> build_matrix_proof B bt key cols (pub_common_dim p) = Ok \<lparr>mproof = pb, row_indices = cols\<rparr>
    \<and> verify_plain_proof B (p_header p) (plain_of p pa pb) = Some (check_jackpot_difficulty (p\<lparr>hash_jackpot := hash\<rparr>))"
proof -
  let ?D = "blake3_digest B" and ?k = "pub_common_dim p"
  let ?PA = "pad_to_chunk_boundary (flatten_matrix a)" and ?PB = "pad_to_chunk_boundary (flatten_matrix bt)"
  have D: "digest32 ?D" using B by (simp add: blake3_contract_def)
  have keylen: "length key = 32" using key D by (auto simp: job_key_def res_bind_Ok_iff)
  have spec: "blake3_spec B key" using B keylen by (simp add: blake3_contract_def)
  obtain len where len: "dot_product_length (p_config p) = Ok len"
    using sane by (auto simp: public_params_sanity_check_def Let_def res_bind_Ok_iff)
  note st = sane_strips [OF sane len]
  have m: "\<forall>r \<in> set rows. r < unat (p_m p)" "\<forall>c \<in> set cols. c < unat (p_n p)" "0 < unat (p_m p)" "0 < unat (p_n p)"
    "length rows = pub_h p" "length cols = pub_w p"
    using inside by (auto simp: rows_inside_def rows cols word_less_nat_alt neq_Nil_conv)
  note fa = matrix_row(1) [OF A m(3) le0] and fb = matrix_row(1) [OF Bt m(4) le0]
  from openings_parse [OF spec sane inside canon key, of ?PA ?PB] obtain pa pb priv len' where
    o: "get_multileaf_proof (merkle_tree_new B ?PA key) (row_leaves p) = Ok pa" "get_multileaf_proof (merkle_tree_new B ?PB key) (col_leaves p) = Ok pb"
    "tree_root (merkle_tree_new B ?PA key) = Ok (proof_root pa)" "tree_root (merkle_tree_new B ?PB key) = Ok (proof_root pb)"
    "parse_plain_proof B (p_header p) (plain_of p pa pb)
        = Some (Ok (priv, p\<lparr>hash_a := proof_root pa, hash_b := proof_root pb, hash_jackpot := replicate 32 0xff\<rparr>))"
    "sanity_check_private_params B (p\<lparr>hash_a := proof_root pa, hash_b := proof_root pb, hash_jackpot := replicate 32 0xff\<rparr>) priv = Ok ()"
    "dot_product_length (p_config p) = Ok len'"
    "s_a priv = strips_from p len' (a_rows_indices p) ?PA" "s_b priv = strips_from p len' (b_cols_indices p) ?PB"
    by (auto simp: length_padded fa fb)
  let ?pub = "p\<lparr>hash_a := proof_root pa, hash_b := proof_root pb, hash_jackpot := replicate 32 0xff\<rparr>"
  have lk: "len \<le> ?k" by (rule st(2))
  have len': "len' = len" using o(7) len by simp
  have sa: "s_a priv = map (\<lambda>r. take len (a ! r)) rows" and sb: "s_b priv = map (\<lambda>r. take len (bt ! r)) cols"
    using o(8,9) m(1,2) unfolding len' strips_from_def rows cols
    by (simp_all add: matrix_row(2) [OF A _ lk] matrix_row(2) [OF Bt _ lk])
  have range: "list_all (list_all in_signal_range) (s_a priv @ s_b priv)"
    using A Bt m(1,2) unfolding sa sb signal_matrix_def list_all_iff by (fastforce dest: in_set_takeD)
  obtain c ms cs where c: "compile_params B ?pub = Ok (c, ms, cs)"
    using o(6) by (auto simp: sanity_check_private_params_def res_bind_Ok_iff)
  have sd: "commitment_hash ?D ?pub key = seeds"
    using padded_hash [OF B keylen fa m(3) st(7,5,6) o(3)] padded_hash [OF B keylen fb m(4) st(8,5,6) o(4)]
    by (simp add: seeds compute_commitment_hash_def commitment_hash_def)
  have cf: "c_k c = ?k" "c_h c = length rows" "c_w c = length cols" "c_r c = pub_rank p" "c_a_rows c = rows" "c_b_cols c = cols" "c_commitment c = seeds"
    using c m(5,6) unfolding compile_params_def job_key_hashes key
    by (auto simp: res_bind_Ok_iff rows cols sd pub_common_dim_def pub_h_def pub_w_def pub_rank_def a_rows_indices_def b_cols_indices_def)
  obtain e where e: "pub_rank p = 2 ^ e" "0 < e" "e < 32" using sane by (rule sane_rank)
  have ld: "len = c_k c - c_k c mod c_r c" "len \<le> c_k c"
    using len lk e(1) by (auto simp: dot_product_length_def Let_def cf pub_common_dim_def pub_rank_def split: if_splits)
  have la: "\<forall>r \<in> set (c_a_rows c). length (a ! r) = c_k c" "\<forall>r \<in> set (c_b_cols c). length (bt ! r) = c_k c"
    using A Bt m(1,2) by (auto simp: cf signal_matrix_def list_all_iff)
  have "res_bind (compute_noise ?D c) (compute_jackpot c (s_a priv) (s_b priv))
      = Ok (jackpot_of (cell ?D seeds (pub_rank p) a bt rows cols) (length rows) (length cols) (pub_rank p) ?k)"
    using compute_jackpot_cells [OF D _ e(2,3) _ _ ld _ _ la, of "s_a priv" "s_b priv"] by (simp add: cf e(1) sa sb)
  then obtain nz where nz: "compute_noise ?D c = Ok nz" "compute_jackpot c (s_a priv) (s_b priv) nz
      = Ok (jackpot_of (cell ?D seeds (pub_rank p) a bt rows cols) (length rows) (length cols) (pub_rank p) ?k)"
    by (auto simp: res_bind_Ok_iff)
  have "verify_plain_proof B (p_header p) (plain_of p pa pb) = Some (check_jackpot_difficulty (?pub\<lparr>hash_jackpot := hash\<rparr>))"
    by (simp only: verify_plain_proof_def o(5) try_bind.simps prod.case sane_hashes sane res_bind.simps range ensure_simps c nz cf hash)
  moreover have "check_jackpot_difficulty (?pub\<lparr>hash_jackpot := hash\<rparr>) = check_jackpot_difficulty (p\<lparr>hash_jackpot := hash\<rparr>)"
    by (simp add: check_jackpot_difficulty_def check_jackpot_difficulty_with_nbits_def)
  moreover have "length a = unat (p_m p)" "length bt = unat (p_n p)" using A Bt by (simp_all add: signal_matrix_def)
  ultimately show ?thesis using o(1,2)
    by (intro exI [of _ pa] exI [of _ pb]) (simp add: build_matrix_proof_def row_leaves_def col_leaves_def flip: rows cols)
qed

section \<open>The miner's tiles\<close>

text \<open>A job the miner works on: parameters that pass the sanity check at offset 0, patterns in the form
  \<open>from_list\<close> builds, and periods that divide the matrix dimensions.\<close>

definition divides_dim :: "periodic_pattern \<Rightarrow> u32 \<Rightarrow> bool" where
  "divides_dim p dim \<longleftrightarrow> from_list (to_list p) = Ok p \<and> (case pp_period p of Ok w \<Rightarrow> unat w dvd unat dim | _ \<Rightarrow> False)"

definition minable :: "block_header \<Rightarrow> mining_config \<Rightarrow> u32 \<Rightarrow> u32 \<Rightarrow> bool" where
  "minable hdr config m n \<longleftrightarrow> public_params_sanity_check (public_new_dummy hdr config m n 0 0) = Ok ()
     \<and> divides_dim (rows_pattern config) m \<and> divides_dim (cols_pattern config) n"

lemma divides_dimD:
  assumes "divides_dim p dim"
  shows "wf_pattern p" "from_list (to_list p) = Ok p" "rper (dims p) dvd unat dim" "is_valid p = Ok True"
proof -
  show fl: "from_list (to_list p) = Ok p" using assms by (simp add: divides_dim_def)
  then show v: "is_valid p = Ok True"
    by (auto simp: from_list_def res_bind_Ok_iff Let_def ensure_def split: if_splits)
  then show wf: "wf_pattern p" by (rule is_valid_wf)
  show "rper (dims p) dvd unat dim"
    using pp_period_rper [OF wf] assms by (auto simp: divides_dim_def)
qed

lemma minable_params:
  assumes "minable hdr config m n" and "ra < unat m" "rvalid (dims (rows_pattern config)) ra"
    and "cb < unat n" "rvalid (dims (cols_pattern config)) cb"
    and p: "p = public_new_dummy hdr config m n (of_nat ra) (of_nat cb)"
  shows "public_params_sanity_check p = Ok ()" "rows_inside p" "canonical_rows p"
    "map unat (a_rows_indices p) = map ((+) ra) (rlist (dims (rows_pattern config)))"
    "map unat (b_cols_indices p) = map ((+) cb) (rlist (dims (cols_pattern config)))"
proof -
  have sane: "public_params_sanity_check (public_new_dummy hdr config m n 0 0) = Ok ()" using assms(1) by (simp add: minable_def)
  have mn: "unat m \<le> 2 ^ 24" "unat n \<le> 2 ^ 24"
    using sane by (auto simp: public_params_sanity_check_def Let_def res_bind_Ok_iff public_new_dummy_def public_new_def word_le_nat_alt)
  note R = divides_dimD [of "rows_pattern config" m] and C = divides_dimD [of "cols_pattern config" n]
  have dv: "divides_dim (rows_pattern config) m" "divides_dim (cols_pattern config) n" using assms(1) by (simp_all add: minable_def)
  note tr = tile_pattern [OF R(1-3) [OF dv(1)] mn(1) assms(2,3)] and tc = tile_pattern [OF C(1-3) [OF dv(2)] mn(2) assms(4,5)]
  obtain rmax cmax where mx: "pp_max (rows_pattern config) = Ok rmax" "unat (of_nat ra + rmax) < unat m"
    "pp_max (cols_pattern config) = Ok cmax" "unat (of_nat cb + cmax) < unat n" using tr(4) tc(4) by blast
  show "public_params_sanity_check p = Ok ()"
    using sane mx unfolding p
    by (auto simp: public_params_sanity_check_def Let_def res_bind_Ok_iff public_new_dummy_def public_new_def
        pub_common_dim_def pub_rank_def pub_h_def pub_w_def word_less_nat_alt)
  show rows: "map unat (a_rows_indices p) = map ((+) ra) (rlist (dims (rows_pattern config)))"
    "map unat (b_cols_indices p) = map ((+) cb) (rlist (dims (cols_pattern config)))"
    using tr(1) tc(1) by (simp_all add: p public_new_dummy_def public_new_def a_rows_indices_def b_cols_indices_def)
  show "canonical_rows p" using tr(2) tc(2)
    by (simp add: canonical_rows_def p public_new_dummy_def public_new_def a_rows_indices_def b_cols_indices_def)
  show "rows_inside p" using tr(3,5) tc(3,5) pp_size_length [OF R(1) [OF dv(1)]] pp_size_length [OF C(1) [OF dv(2)]]
    by (simp add: rows_inside_def p public_new_dummy_def public_new_def a_rows_indices_def b_cols_indices_def pub_h_def pub_w_def
        word_less_nat_alt indices_with_offset_def)
qed

lemma first_hit_Ok:
  assumes "\<And>x. x \<in> set xs \<Longrightarrow> \<exists>r. f x = Ok r \<and> (\<forall>y. r = Some y \<longrightarrow> P y) \<and> (E \<longrightarrow> r \<noteq> None)"
  shows "\<exists>r. first_hit f xs = Ok r \<and> (\<forall>y. r = Some y \<longrightarrow> P y) \<and> (E \<longrightarrow> xs \<noteq> [] \<longrightarrow> r \<noteq> None)"
  using assms
proof (induction xs)
  case (Cons x xs)
  obtain r where r: "f x = Ok r" "\<forall>y. r = Some y \<longrightarrow> P y" "E \<longrightarrow> r \<noteq> None" using Cons.prems [of x] by auto
  have "\<exists>r. first_hit f xs = Ok r \<and> (\<forall>y. r = Some y \<longrightarrow> P y) \<and> (E \<longrightarrow> xs \<noteq> [] \<longrightarrow> r \<noteq> None)"
    by (rule Cons.IH, rule Cons.prems) simp
  with r show ?case by (cases r) auto
qed simp

lemma minable_config_bytes:
  assumes "minable hdr config m n"
  shows "\<exists>bs. config_to_bytes config = Ok bs"
proof -
  have "reserved config = RESERVED_VALUE"
    using assms by (auto simp: minable_def public_params_sanity_check_def Let_def res_bind_Ok_iff public_new_dummy_def public_new_def)
  moreover have "is_valid (rows_pattern config) = Ok True" "is_valid (cols_pattern config) = Ok True"
    using assms by (auto simp: minable_def intro: divides_dimD(4))
  ultimately show ?thesis by (auto elim: config_from_to)
qed

lemma nth_noised_a:
  assumes "signal_matrix m k a" "length noise = m" "\<forall>row \<in> set noise. length row = k" "r < m" "l < k"
  shows "length (noised_a a noise) = m" "length (noised_a a noise ! r) = k"
    "noised_a a noise ! r ! l = scast (a ! r ! l) + scast (noise ! r ! l)"
  using assms by (auto simp: noised_a_def signal_matrix_def list_all_iff)


lemma mine_tile_verifies:
  assumes B: "blake3_contract B" and job: "minable hdr config m n" and k: "k = unat (common_dim config)"
    and ra: "ra < unat m" "rvalid (dims (rows_pattern config)) ra" and cb: "cb < unat n" "rvalid (dims (cols_pattern config)) cb"
    and key: "compute_job_key (blake3_digest B) hdr config = Ok key"
    and A: "signal_matrix (unat m) k a" and Bt: "signal_matrix (unat n) k bt"
    and seeds: "seeds = compute_commitment_hash (blake3_digest B) key (pad_to_chunk_boundary (flatten_matrix a)) (pad_to_chunk_boundary (flatten_matrix bt))"
    and an: "\<And>r l. r < unat m \<Longrightarrow> l < k \<Longrightarrow> (nth2 an r l :: (anyhow, i32) res) = Ok (scast (a ! r ! l) + scast (noise_entry (blake3_digest B) SEED_LABEL_A (snd seeds) (unat (rank config)) r l))"
    and bnt: "\<And>c l. c < unat n \<Longrightarrow> l < k \<Longrightarrow> (nth2 bnt c l :: (anyhow, i32) res) = Ok (scast (bt ! c ! l) + scast (noise_entry (blake3_digest B) SEED_LABEL_B (fst seeds) (unat (rank config)) c l))"
  shows "\<exists>r. mine_tile B (unat m) (unat n) k hdr config False key (snd seeds) a bt an bnt
        (map ((+) ra) (rlist (dims (rows_pattern config)))) (map ((+) cb) (rlist (dims (cols_pattern config)))) = Ok r
    \<and> (\<forall>pf. r = Some pf \<longrightarrow> verify_plain_proof B hdr pf = Some (Ok ()))
    \<and> (extract_difficulty_bound (nbits hdr) config = Ok (- 1) \<longrightarrow> r \<noteq> None)"
proof -
  define p where "p = public_new_dummy hdr config m n (of_nat ra) (of_nat cb)"
  note P = minable_params [OF job ra cb p_def]
  define rows where "rows = map ((+) ra) (rlist (dims (rows_pattern config)))"
  define cols where "cols = map ((+) cb) (rlist (dims (cols_pattern config)))"
  have f: "p_header p = hdr" "p_config p = config" "p_m p = m" "p_n p = n" "pub_common_dim p = k" "pub_rank p = unat (rank config)"
    by (simp_all add: p_def public_new_dummy_def public_new_def pub_common_dim_def pub_rank_def k)
  have pk: "job_key (blake3_digest B) p = Ok key" using key by (simp add: job_key_def compute_job_key_def f)
  have rc: "map unat (a_rows_indices p) = rows" "map unat (b_cols_indices p) = cols" using P(4,5) by (simp_all add: rows_def cols_def)
  define g where "g = cell (blake3_digest B) seeds (unat (rank config)) a bt rows cols"
  define hash where "hash = compute_jackpot_hash (blake3_digest B) (jackpot_of g (length rows) (length cols) (unat (rank config)) k) (snd seeds)"
  have "\<exists>pa pb. build_matrix_proof B a key rows k = Ok \<lparr>mproof = pa, row_indices = rows\<rparr>
    \<and> build_matrix_proof B bt key cols k = Ok \<lparr>mproof = pb, row_indices = cols\<rparr>
    \<and> verify_plain_proof B hdr (plain_of p pa pb) = Some (check_jackpot_difficulty (p\<lparr>hash_jackpot := hash\<rparr>))"
    using tile_verifies [OF B P(1-3) pk, unfolded f rc, OF A Bt seeds refl refl] by (simp add: hash_def g_def)
  then obtain pa pb where o: "build_matrix_proof B a key rows k = Ok \<lparr>mproof = pa, row_indices = rows\<rparr>"
    "build_matrix_proof B bt key cols k = Ok \<lparr>mproof = pb, row_indices = cols\<rparr>"
    "verify_plain_proof B hdr (plain_of p pa pb) = Some (check_jackpot_difficulty (p\<lparr>hash_jackpot := hash\<rparr>))" by blast
  obtain e where e: "unat (rank config) = 2 ^ e" using sane_rank [OF P(1)] f by metis
  have "\<forall>r \<in> set rows. r < unat m" "\<forall>c \<in> set cols. c < unat n"
    using P(2) unfolding rc [symmetric] by (auto simp: rows_inside_def f word_less_nat_alt)
  then have jl: "jackpot_loop (\<lambda>u v l. res_bind (nth2 an (rows ! u) l) (\<lambda>x. res_bind (nth2 bnt (cols ! v) l) (\<lambda>y. Ok (x * y))))
        (length rows) (length cols) (unat (rank config)) k = (Ok (jackpot_of g (length rows) (length cols) (unat (rank config)) k) :: (anyhow, u32 list) res)"
  proof (intro jackpot_loop_Ok)
    fix u v l assume "\<forall>r \<in> set rows. r < unat m" "\<forall>c \<in> set cols. c < unat n" "u < length rows" "v < length cols"
      and l: "l < k div unat (rank config) * unat (rank config)"
    moreover have "l < k" using l by (meson div_times_less_eq_dividend order_less_le_trans)
    ultimately show "res_bind (nth2 an (rows ! u) l) (\<lambda>x. res_bind (nth2 bnt (cols ! v) l) (\<lambda>y. Ok (x * y))) = (Ok (g u v l) :: (anyhow, i32) res)"
      by (simp add: an bnt g_def cell_def)
  qed (simp add: e)
  obtain bound where bound: "extract_difficulty_bound (nbits hdr) config = Ok bound"
    using sane_extract [OF P(1) refl, of "nbits hdr"] by (simp add: f)
  have pf: "plain_of p pa pb = \<lparr>pf_m = unat m, pf_n = unat n, pf_k = k, noise_rank = unat (rank config),
      pf_a = \<lparr>mproof = pa, row_indices = rows\<rparr>, pf_bt = \<lparr>mproof = pb, row_indices = cols\<rparr>\<rparr>"
    by (simp add: plain_of_def f rc)
  have mt: "mine_tile B (unat m) (unat n) k hdr config False key (snd seeds) a bt an bnt rows cols
      = Ok (if u256_from_le hash \<le> bound then Some (plain_of p pa pb) else None)"
    by (simp add: mine_tile_def Let_def jl bound o(1,2) pf flip: hash_def)
  have "check_jackpot_difficulty (p\<lparr>hash_jackpot := hash\<rparr>) = Ok ()" if "u256_from_le hash \<le> bound"
    using that by (simp add: check_jackpot_difficulty_def check_jackpot_difficulty_with_nbits_def f bound)
  moreover have "bound = - 1 \<Longrightarrow> u256_from_le hash \<le> bound" by simp
  ultimately show ?thesis
    unfolding rows_def [symmetric] cols_def [symmetric] mt using o(3) bound by auto
qed


lemma attempt_verifies:
  assumes B: "blake3_contract B" and gen: "in_range_gen gen" and job: "minable hdr config m n" and k: "k = unat (common_dim config)"
  shows "\<exists>hit st'. try_mine_one B gen st (unat m) (unat n) k hdr config None False = Ok (hit, st')
    \<and> (\<forall>pf. hit = Some pf \<longrightarrow> verify_plain_proof B hdr pf = Some (Ok ()))
    \<and> (extract_difficulty_bound (nbits hdr) config = Ok (- 1) \<longrightarrow> hit \<noteq> None)"
proof -
  let ?D = "blake3_digest B" and ?m = "unat m" and ?n = "unat n" and ?r = "unat (rank config)"
  have dv: "divides_dim (rows_pattern config) m" "divides_dim (cols_pattern config) n"
    and sane: "public_params_sanity_check (public_new_dummy hdr config m n 0 0) = Ok ()" using job by (simp_all add: minable_def)
  have D: "digest32 ?D" using B by (simp add: blake3_contract_def)
  obtain e where e: "?r = 2 ^ e" "0 < e" "e < 32"
    using sane_rank [OF sane] by (auto simp: public_new_dummy_def public_new_def pub_rank_def)
  have mn: "?m \<noteq> 0" "?n \<noteq> 0"
    using sane by (auto simp: public_params_sanity_check_def Let_def res_bind_Ok_iff public_new_dummy_def public_new_def word_less_nat_alt)
  obtain a st1 where a: "draw_matrix gen SIGNAL_MIN SIGNAL_MAX ?m k st = Ok (a, st1)" "signal_matrix ?m k a"
    using draw_matrix_signal [OF gen] by blast
  obtain b st2 where b: "draw_matrix gen SIGNAL_MIN SIGNAL_MAX k ?n st1 = Ok (b, st2)" "signal_matrix k ?n b"
    using draw_matrix_signal [OF gen] by blast
  have lb: "length b = k" "\<forall>row \<in> set b. length row = ?n" using b(2) by (simp_all add: signal_matrix_def list_all_iff)
  define bt where "bt = map (\<lambda>i. map (\<lambda>j. b ! j ! i) [0..<k]) [0..<?n]"
  have bt: "transposed ?n k b = Ok bt" unfolding bt_def by (rule transposed_Ok [OF lb])
  have "in_signal_range (b ! j ! i)" if "j < k" "i < ?n" for i j
  proof -
    have "b ! j \<in> set b" using lb(1) that(1) by simp
    then have "length (b ! j) = ?n" "\<forall>x \<in> set (b ! j). in_signal_range x" using b(2) by (simp_all add: signal_matrix_def list_all_iff)
    then show ?thesis using that(2) by simp
  qed
  then have sbt: "signal_matrix ?n k bt" by (auto simp: signal_matrix_def bt_def list_all_iff)
  obtain key where key: "compute_job_key ?D hdr config = Ok key"
    using minable_config_bytes [OF job] by (auto simp: compute_job_key_def)
  obtain bs as where seeds: "compute_commitment_hash ?D key (pad_to_chunk_boundary (flatten_matrix a)) (pad_to_chunk_boundary (flatten_matrix bt)) = (bs, as)"
    by fastforce
  define na where "na = map (\<lambda>r. map (noise_entry ?D SEED_LABEL_A as ?r r) [0..<k]) [0..<?m]"
  define nb where "nb = map (\<lambda>r. map (noise_entry ?D SEED_LABEL_B bs ?r r) [0..<k]) [0..<?n]"
  have noise: "compute_noise_for_indices ?D k ?r (bs, as) [0..<?m] [0..<?n] = Ok \<lparr>mm_a = na, mm_b = nb\<rparr>"
    unfolding e(1) na_def nb_def by (rule noise_for_indices [OF D e(2,3)])
  define bn :: "i32 list list" where "bn = map (\<lambda>j. map (\<lambda>i. scast (b ! j ! i) + scast (nb ! i ! j)) [0..<?n]) [0..<k]"
  have bn: "noised_b b nb = Ok bn" unfolding bn_def by (rule noised_b_Ok [OF lb]) (auto simp: nb_def)
  define bnt where "bnt = map (\<lambda>i. map (\<lambda>j. bn ! j ! i) [0..<k]) [0..<?n]"
  have bnt: "transposed ?n k bn = Ok bnt" unfolding bnt_def by (rule transposed_Ok) (auto simp: bn_def)
  have noised: "(nth2 (noised_a a na) r l :: (anyhow, i32) res) = Ok (scast (a ! r ! l) + scast (noise_entry ?D SEED_LABEL_A (snd (bs, as)) ?r r l))"
    if "r < ?m" "l < k" for r l
    using nth_noised_a [OF a(2), of na r l] that by (simp add: nth2_Ok na_def)
  have noised_t: "(nth2 bnt c l :: (anyhow, i32) res) = Ok (scast (bt ! c ! l) + scast (noise_entry ?D SEED_LABEL_B (fst (bs, as)) ?r c l))"
    if "c < ?n" "l < k" for c l
    using that by (simp add: nth2_Ok bnt_def bn_def bt_def nb_def)
  let ?P = "\<lambda>pf. verify_plain_proof B hdr pf = Some (Ok ())" and ?E = "extract_difficulty_bound (nbits hdr) config = Ok (- 1)"
  let ?tile = "mine_tile B ?m ?n k hdr config False key as a bt (noised_a a na) bnt"
  let ?tiles = "\<lambda>p dim. map (\<lambda>off. map ((+) off) (rlist (dims p))) (filter (rvalid (dims p)) [0..<dim])"
  have mn32: "?m < 2 ^ 32" "?n < 2 ^ 32" using unat_u32_less [of m] unat_u32_less [of n] by simp_all
  note parts = threads_partition_tiles [OF divides_dimD(1) [OF dv(1)] mn32(1) divides_dimD(3) [OF dv(1)]]
    threads_partition_tiles [OF divides_dimD(1) [OF dv(2)] mn32(2) divides_dimD(3) [OF dv(2)]]
  have "rvalid rs 0" if "rwf rs" for rs using that by (induction rs) auto
  then have tiles_ne: "dim \<noteq> 0 \<Longrightarrow> ?tiles (rows_pattern config) dim \<noteq> []" "dim \<noteq> 0 \<Longrightarrow> ?tiles (cols_pattern config) dim \<noteq> []" for dim
    using wf_pattern_rwf [OF divides_dimD(1) [OF dv(1)]] wf_pattern_rwf [OF divides_dimD(1) [OF dv(2)]]
    by (auto simp: filter_empty_conv intro!: bexI [of _ 0])
  have tile: "\<exists>r. ?tile x y = Ok r \<and> (\<forall>pf. r = Some pf \<longrightarrow> ?P pf) \<and> (?E \<longrightarrow> r \<noteq> None)"
    if "x \<in> set (?tiles (rows_pattern config) ?m)" "y \<in> set (?tiles (cols_pattern config) ?n)" for x y
  proof -
    from that obtain ra cb where "ra < ?m" "rvalid (dims (rows_pattern config)) ra" "x = map ((+) ra) (rlist (dims (rows_pattern config)))"
      "cb < ?n" "rvalid (dims (cols_pattern config)) cb" "y = map ((+) cb) (rlist (dims (cols_pattern config)))" by auto
    with mine_tile_verifies [OF B job k _ _ _ _ key a(2) sbt seeds [symmetric] noised noised_t, of ra cb] show ?thesis by simp
  qed
  have "\<exists>r. first_hit (\<lambda>a_rows. res_bind (threads_partition (cols_pattern config) ?n) (first_hit (?tile a_rows))) (?tiles (rows_pattern config) ?m) = Ok r
      \<and> (\<forall>pf. r = Some pf \<longrightarrow> ?P pf) \<and> (?E \<longrightarrow> ?tiles (rows_pattern config) ?m \<noteq> [] \<longrightarrow> r \<noteq> None)"
  proof (rule first_hit_Ok)
    fix x assume "x \<in> set (?tiles (rows_pattern config) ?m)"
    then have "\<exists>r. first_hit (?tile x) (?tiles (cols_pattern config) ?n) = Ok r
        \<and> (\<forall>pf. r = Some pf \<longrightarrow> ?P pf) \<and> (?E \<longrightarrow> ?tiles (cols_pattern config) ?n \<noteq> [] \<longrightarrow> r \<noteq> None)"
      by (intro first_hit_Ok tile)
    then show "\<exists>r. res_bind (threads_partition (cols_pattern config) ?n) (first_hit (?tile x)) = Ok r
        \<and> (\<forall>pf. r = Some pf \<longrightarrow> ?P pf) \<and> (?E \<longrightarrow> r \<noteq> None)"
      using tiles_ne(2) [OF mn(2)] by (simp only: parts res_bind.simps) blast
  qed
  then obtain r where r: "first_hit (\<lambda>a_rows. res_bind (threads_partition (cols_pattern config) ?n) (first_hit (?tile a_rows))) (?tiles (rows_pattern config) ?m) = Ok r"
    "\<forall>pf. r = Some pf \<longrightarrow> ?P pf" "?E \<longrightarrow> r \<noteq> None" using tiles_ne(1) [OF mn(1)] by blast
  have "try_mine_one B gen st ?m ?n k hdr config None False = Ok (r, st2)"
    unfolding try_mine_one_def Let_def option.case prod.case a(1) b(1) bt key seeds noise bn bnt res_bind.simps mm_slice.select_convs parts(1) r(1) ..
  with r(2,3) show ?thesis by blast
qed

section \<open>The sequence of attempts\<close>

text \<open>The generator's state after a number of attempts that found nothing.\<close>

fun missed ::
  "blake3_lib \<Rightarrow> 'g range_gen \<Rightarrow> nat \<Rightarrow> nat \<Rightarrow> nat \<Rightarrow> block_header \<Rightarrow> mining_config \<Rightarrow> (i8 \<times> i8) option \<Rightarrow> bool \<Rightarrow> nat \<Rightarrow> 'g \<Rightarrow> 'g option" where
  "missed B gen m n k hdr config signal_range wrong 0 st = Some st"
| "missed B gen m n k hdr config signal_range wrong (Suc i) st =
     (case try_mine_one B gen st m n k hdr config signal_range wrong of
        Ok (None, st') \<Rightarrow> missed B gen m n k hdr config signal_range wrong i st'
      | _ \<Rightarrow> None)"

text \<open>What an attempt makes \<open>mine\<close> return.\<close>

fun attempt_result :: "(anyhow, plain_proof option \<times> 'g) res \<Rightarrow> (anyhow, plain_proof \<times> 'g) res option" where
  "attempt_result (Ok (Some pf, st)) = Some (Ok (pf, st))"
| "attempt_result (Ok (None, st)) = None"
| "attempt_result (Err e) = Some (Err e)"
| "attempt_result Panic = Some Panic"

lemma mine_step:
  "mine B gen m n k hdr config sr wrong st =
     (case attempt_result (try_mine_one B gen st m n k hdr config sr wrong) of
        Some r \<Rightarrow> Some r
      | None \<Rightarrow> (case try_mine_one B gen st m n k hdr config sr wrong of Ok (_, st') \<Rightarrow> mine B gen m n k hdr config sr wrong st' | _ \<Rightarrow> None))"
  by (subst mine.simps) (auto split: res.split option.split prod.split)

lemma mine_returned:
  assumes "mine B gen m n k hdr config sr wrong st = Some r"
  shows "\<exists>i st1. missed B gen m n k hdr config sr wrong i st = Some st1 \<and> attempt_result (try_mine_one B gen st1 m n k hdr config sr wrong) = Some r"
  using assms
proof (induction rule: mine.raw_induct [rotated, consumes 1])
  case (1 mine' B gen m n k hdr config sr wrong st r)
  let ?attempt = "try_mine_one B gen st m n k hdr config sr wrong"
  show ?case
  proof (cases "attempt_result ?attempt")
    case None
    then obtain st' where t: "?attempt = Ok (None, st')" by (cases ?attempt rule: attempt_result.cases) auto
    with 1(2) have "mine' B gen m n k hdr config sr wrong st' = Some r" by simp
    from 1(1) [OF this] obtain i st1 where "missed B gen m n k hdr config sr wrong i st' = Some st1"
      "attempt_result (try_mine_one B gen st1 m n k hdr config sr wrong) = Some r" by (elim exE conjE)
    with t show ?thesis by (intro exI [of _ "Suc i"] exI [of _ st1]) simp
  next
    case (Some r')
    with 1(2) have "r' = r" by (cases ?attempt rule: attempt_result.cases) auto
    with Some show ?thesis by (intro exI [of _ 0] exI [of _ st]) simp
  qed
qed

text \<open>C1: The reference miner's proofs verify.  For a BLAKE3 crate as documented, a generator that stays in the range it
  is asked for, and a job whose parameters pass the sanity check, whose patterns are in canonical form and whose
  periods divide the matrix dimensions, \<open>mine\<close> never fails or panics; whatever it returns is accepted by
  \<open>verify_plain_proof\<close>; and when the difficulty bound is the largest hash it does return.\<close>

theorem mine_verifies:
  assumes "blake3_contract B" and "in_range_gen gen" and "minable hdr config m n"
  shows "(case mine B gen (unat m) (unat n) (unat (common_dim config)) hdr config None False st of
      None \<Rightarrow> extract_difficulty_bound (nbits hdr) config \<noteq> Ok (- 1)
    | Some r \<Rightarrow> \<exists>pf st'. r = Ok (pf, st') \<and> verify_plain_proof B hdr pf = Some (Ok ()))"
proof (cases "mine B gen (unat m) (unat n) (unat (common_dim config)) hdr config None False st")
  case None
  obtain hit st' where t: "try_mine_one B gen st (unat m) (unat n) (unat (common_dim config)) hdr config None False = Ok (hit, st')"
    "extract_difficulty_bound (nbits hdr) config = Ok (- 1) \<longrightarrow> hit \<noteq> None" using attempt_verifies [OF assms refl, of st] by blast
  from None have "hit = None" by (cases hit) (simp_all add: mine_step [where st = st] t(1))
  with t(2) None show ?thesis by simp
next
  case (Some r)
  from mine_returned [OF this] obtain st1 where
    "attempt_result (try_mine_one B gen st1 (unat m) (unat n) (unat (common_dim config)) hdr config None False) = Some r" by blast
  with attempt_verifies [OF assms refl, of st1] Some show ?thesis by (auto elim: attempt_result.elims)
qed

text \<open>A crate that is the specification: the hash of the value of the tree.\<close>

definition tree_blake3 :: blake3_lib where
  "tree_blake3 = spec_blake3\<lparr>lib_hash := (\<lambda>k data. tree_value (case k of Some key \<Rightarrow> key | None \<Rightarrow> concat (map u32_le IV)) data 0 (length data) True)\<rparr>"

lemma tree_blake3_contract: "blake3_contract tree_blake3"
proof -
  have "length (tree_value key data s e root) = 32" for key data s e root
    by (subst tree_value.simps) (simp add: length_chunk_value parent_value_def Let_def)
  then have "digest32 (blake3_digest tree_blake3)" by (simp add: digest32_def blake3_digest_def tree_blake3_def)
  moreover have "blake3_spec tree_blake3 key" if "length key = 32" for key
  proof -
    have "blake3_spec spec_blake3 key" using that by (intro spec_blake3_ok key_words_back)
    moreover have "tree_value key chunk 0 1024 True = chunk_value key chunk 0 True" if "length chunk = 1024" for chunk
      using that by (subst tree_value.simps) (simp add: CHUNK_LEN_def subrange_full)
    ultimately show ?thesis by (simp add: blake3_spec_def tree_blake3_def simd_law_def)
  qed
  ultimately show ?thesis by (simp add: blake3_contract_def, simp add: blake3_digest_def tree_blake3_def)
qed

definition easy_header :: block_header where
  "easy_header = (p_header sample_params)\<lparr>nbits := 0x1f00ffff\<rparr>"

lemma sane_header: "public_params_sanity_check (p\<lparr>p_header := h\<rparr>) = public_params_sanity_check p"
  by (simp add: public_params_sanity_check_def pub_common_dim_def pub_rank_def pub_h_def pub_w_def Let_def)

lemma easy_minable: "minable easy_header sample_config 8192 32768"
proof -
  have "public_new_dummy easy_header sample_config 8192 32768 0 0
      = sample_params\<lparr>p_header := easy_header, hash_a := replicate 32 1, hash_b := replicate 32 2, hash_jackpot := replicate 32 3\<rparr>"
    by (simp add: public_new_dummy_def public_new_def sample_params_def)
  then have "public_params_sanity_check (public_new_dummy easy_header sample_config 8192 32768 0 0) = Ok ()"
    by (simp only: sane_hashes sane_header sample_params_sane)
  moreover have "from_list (to_list (rows_pattern sample_config)) = Ok (rows_pattern sample_config)"
    "from_list (to_list (cols_pattern sample_config)) = Ok (cols_pattern sample_config)" by code_simp+
  moreover have "pp_period (rows_pattern sample_config) = Ok 16" "pp_period (cols_pattern sample_config) = Ok 128"
    by (simp_all add: sample_config_def pp_period_def)
  ultimately have "divides_dim (rows_pattern sample_config) 8192" "divides_dim (cols_pattern sample_config) 32768"
    "public_params_sanity_check (public_new_dummy easy_header sample_config 8192 32768 0 0) = Ok ()"
    by (simp_all add: divides_dim_def)
  then show ?thesis by (simp add: minable_def)
qed

lemma easy_bound: "extract_difficulty_bound (nbits easy_header) sample_config = Ok (- 1)"
proof -
  have d: "dot_product_length sample_config = Ok 4096"
    by (simp add: sample_config_def dot_product_length_def Let_def)
  have f: "262144 = unat (pp_size (rows_pattern sample_config)) * unat (pp_size (cols_pattern sample_config)) * 4096"
    by (simp add: sample_config_def pp_size_def)
  have t: "unat (nbits_to_difficulty 0x1f00ffff) = 0xffff * 256 ^ 28"
    by (subst unat_nbits_to_difficulty) simp_all
  have "2 ^ 256 \<le> unat (nbits_to_difficulty 0x1f00ffff) * 262144" unfolding t by simp
  moreover have "nbits easy_header = 0x1f00ffff" by (simp add: easy_header_def)
  ultimately show ?thesis using extract_difficulty_bound_eq [OF d f] by simp
qed

lemma mine_verifies_witness:
  "\<exists>pf st'. mine tree_blake3 (\<lambda>lo hi st. (hi, st)) 8192 32768 4096 easy_header sample_config None False () = Some (Ok (pf, st'))
    \<and> verify_plain_proof tree_blake3 easy_header pf = Some (Ok ())"
proof -
  note easy_bound
  moreover have "in_range_gen (\<lambda>lo hi st :: unit. (hi, st))" by (simp add: in_range_gen_def)
  moreover have "common_dim sample_config = 4096" by (simp add: sample_config_def)
  ultimately show ?thesis
    using mine_verifies [OF tree_blake3_contract _ easy_minable, of "\<lambda>lo hi st. (hi, st)" "()"] by (auto split: option.splits)
qed

end
