(* ===== verification/Stark_Program.thy ===== *)
theory Stark_Program imports Mine_Verify begin

text \<open>
  The program of the STARK (deps/zk-pow/src/circuit/pearl_program.rs, with the row types of circuit/chip/*/logic.rs):
  one row per BLAKE3 round, per 16-column block of a matrix product and per instruction of the jackpot register.
\<close>

section \<open>Length of the program\<close>

definition MIN_STARK_LEN :: nat where "MIN_STARK_LEN = 2 ^ 13"
definition ROUNDS_PER_BLAKE_INSTRUCTION :: nat where "ROUNDS_PER_BLAKE_INSTRUCTION = 8"

text \<open>\<open>k / r\<close> panics on a rank of 0.\<close>

definition expected_num_rows :: "compiled_params \<Rightarrow> (anyhow, nat) res" where
  "expected_num_rows c =
     (if c_r c = 0 then Panic
      else let blake_proof_len = length (instructions (blake_proof c)) * ROUNDS_PER_BLAKE_INSTRUCTION;
               matmul_ops_per_r = c_r c div TILE_D; xor_instructions = TILE_H * TILE_H + 1;
               instructions_per_r = max matmul_ops_per_r xor_instructions;
               num_tiles = (c_h c div TILE_H) * (c_w c div TILE_H); num_r_per_tile = c_k c div c_r c;
               matmul_and_jackpot_proof_len = num_tiles * num_r_per_tile * instructions_per_r
           in Ok (max (blake_proof_len + ROUNDS_PER_BLAKE_INSTRUCTION) matmul_and_jackpot_proof_len))"

primrec ilog2_below :: "nat \<Rightarrow> nat \<Rightarrow> nat" where
  "ilog2_below 0 n = 0"
| "ilog2_below (Suc i) n = (if 2 ^ Suc i \<le> n then Suc i else ilog2_below i n)"

definition degree_bits :: "compiled_params \<Rightarrow> (anyhow, nat) res" where
  "degree_bits c = res_bind (expected_num_rows c) (\<lambda>rows. Ok (ilog2_below 63 (max (next_power_of_two rows) MIN_STARK_LEN)))"

section \<open>Rows\<close>

datatype bit_reg_src = SrcJackpot | SrcXor | SrcShift3

datatype bit_reg_dst = Store0 | Store1 | Store2

record jackpot_logic =
  jl_src :: bit_reg_src
  jl_dst :: bit_reg_dst
  jackpot_idx :: nat
  is_dump_cumsum_buffer :: bool

definition jackpot_default :: jackpot_logic where
  "jackpot_default = \<lparr>jl_src = SrcJackpot, jl_dst = Store1, jackpot_idx = 0, is_dump_cumsum_buffer = False\<rparr>"

record matmul_logic =
  is_reset_cumsum :: bool
  a_dword :: "mat_dword_id option"
  b_dword :: "mat_dword_id option"

definition matmul_default :: matmul_logic where
  "matmul_default = \<lparr>is_reset_cumsum = False, a_dword = None, b_dword = None\<rparr>"

definition is_update_cumsum :: "matmul_logic \<Rightarrow> bool" where
  "is_update_cumsum l \<longleftrightarrow> a_dword l \<noteq> None"

datatype aux_data_type = AuxMsg nat | AuxCv nat

datatype message_data_type = MatrixData mat_dword_id | AuxiliaryData aux_data_type nat | PreviousCv nat | JackpotData | NoData

record blake_round_logic =
  data_source :: message_data_type
  round_tweak :: "blake3_tweak option"
  round_idx :: nat
  read_cv_row :: "nat option"
  round_hash_a :: bool
  round_hash_b :: bool
  round_hash_jackpot :: bool
  cv_is_commitment :: bool

definition round_default :: blake_round_logic where
  "round_default = \<lparr>data_source = NoData, round_tweak = None, round_idx = 1, read_cv_row = None,
     round_hash_a = False, round_hash_b = False, round_hash_jackpot = False, cv_is_commitment = False\<rparr>"

definition is_use_commitment_hash :: "blake_round_logic \<Rightarrow> bool" where
  "is_use_commitment_hash l \<longleftrightarrow> cv_is_commitment l"

definition is_use_job_key :: "blake_round_logic \<Rightarrow> bool" where
  "is_use_job_key l \<longleftrightarrow> (read_cv_row l = None \<or> (case data_source l of PreviousCv _ \<Rightarrow> True | _ \<Rightarrow> False)) \<and> \<not> is_use_commitment_hash l"

record row_logic =
  rl_blake :: blake_round_logic
  rl_matmul :: matmul_logic
  rl_jackpot :: jackpot_logic

definition row_default :: row_logic where
  "row_default = \<lparr>rl_blake = round_default, rl_matmul = matmul_default, rl_jackpot = jackpot_default\<rparr>"

section \<open>The numbering of the matrix words\<close>

definition num_dwords_per_strip :: "compiled_params \<Rightarrow> nat" where
  "num_dwords_per_strip c = strip_length (blake_proof c) div DWORD_SIZE"

definition num_dwords :: "compiled_params \<Rightarrow> bool \<Rightarrow> nat" where
  "num_dwords c is_b = (if is_b then c_w c else c_h c) * num_dwords_per_strip c"

definition dword_to_index :: "compiled_params \<Rightarrow> mat_dword_id \<Rightarrow> nat" where
  "dword_to_index c d =
     (let n = num_dwords_per_strip c; base = (if is_b_strip d then num_dwords c False else 0)
      in base + strip_idx d div TILE_H * n * TILE_H + idx_in_strip d div DWORD_SIZE * TILE_H + strip_idx d mod TILE_H)"

text \<open>A strip of no words makes the division panic.\<close>

definition index_to_dword :: "compiled_params \<Rightarrow> nat \<Rightarrow> (anyhow, mat_dword_id) res" where
  "index_to_dword c index =
     (let n = num_dwords_per_strip c; num_a_dwords = num_dwords c False; is_b = num_a_dwords \<le> index;
          i = index - (if is_b then num_a_dwords else 0)
      in if n * TILE_H = 0 then Panic
         else let chunk = i div (n * TILE_H); rest = i mod (n * TILE_H)
              in Ok \<lparr>is_b_strip = is_b, strip_idx = chunk * TILE_H + rest mod TILE_H, idx_in_strip = rest div TILE_H * DWORD_SIZE\<rparr>)"

section \<open>The rounds of the hash program\<close>

definition emit_round :: "blake_instruction \<Rightarrow> nat list \<Rightarrow> nat option \<Rightarrow> nat \<Rightarrow> (anyhow, blake_round_logic) res" where
  "emit_round ins inst_to_row read_cv_from i =
     res_bind (case b_msg ins of
         MatrixLeaf dwords \<Rightarrow> res_bind (nth_res dwords i) (\<lambda>d. Ok (MatrixData d))
       | AuxiliaryLeaf idx \<Rightarrow> Ok (AuxiliaryData (AuxMsg idx) i)
       | ParentMsg cv_low cv_high \<Rightarrow>
           let (cv, local_i) = (if i < 4 then (cv_low, i) else (cv_high, i - 4))
           in (case cv of
                 CvInstruction idx \<Rightarrow> if local_i = 3 then res_bind (nth_res inst_to_row idx) (\<lambda>r. Ok (PreviousCv r)) else Ok NoData
               | CvAuxiliary idx \<Rightarrow> Ok (AuxiliaryData (AuxCv idx) local_i))) (\<lambda>source.
     Ok \<lparr>data_source = source, round_tweak = (if i = 0 then Some (tweak ins) else None), round_idx = i + 1,
         read_cv_row = (case source of PreviousCv r \<Rightarrow> Some r | _ \<Rightarrow> if i = 0 then read_cv_from else None),
         round_hash_a = (i = 7 \<and> is_hash_a ins), round_hash_b = (i = 7 \<and> is_hash_b ins),
         round_hash_jackpot = False, cv_is_commitment = False\<rparr>)"

definition emit_instruction_rounds :: "blake_instruction \<Rightarrow> nat list \<Rightarrow> nat option \<Rightarrow> (anyhow, blake_round_logic list) res" where
  "emit_instruction_rounds ins inst_to_row read_cv_from =
     res_map (emit_round ins inst_to_row read_cv_from) [0..<ROUNDS_PER_BLAKE_INSTRUCTION]"

definition instruction_rounds :: "nat list \<Rightarrow> nat \<times> blake_instruction \<Rightarrow> (anyhow, blake_round_logic list) res" where
  "instruction_rounds inst_to_row = (\<lambda>(i, ins).
     res_bind (if is_cv_key ins then Ok None
               else if i = 0 then Panic else res_bind (nth_res inst_to_row (i - 1)) (\<lambda>r. Ok (Some r))) (\<lambda>read_cv_from.
     emit_instruction_rounds ins inst_to_row read_cv_from))"

definition structure_commitment_hash_in_stark :: "blake_instruction list \<Rightarrow> (anyhow, blake_round_logic list) res" where
  "structure_commitment_hash_in_stark inss =
     res_bind (ensure (list_all (\<lambda>ins. case b_msg ins of ParentMsg _ _ \<Rightarrow> is_cv_key ins | _ \<Rightarrow> True) inss)
       ''Parent instruction should use cv_key'') (\<lambda>_.
     res_bind (ensure (list_ex is_hash_a inss \<and> list_ex is_hash_b inss) ''Blake program must output hash of A and B'') (\<lambda>_.
     let inst_to_row = map (\<lambda>i. i * ROUNDS_PER_BLAKE_INSTRUCTION + (ROUNDS_PER_BLAKE_INSTRUCTION - 1)) [0..<length inss]
     in res_bind (res_map (instruction_rounds inst_to_row) (enumerate 0 inss)) (\<lambda>chunks. Ok (concat chunks))))"

definition structure_jackpot_blake :: "blake_round_logic list" where
  "structure_jackpot_blake =
     (let tw = \<lparr>counter_low = 0, counter_high = 0, block_len = of_nat BLAKE3_MSG_LEN,
                tweak_flags = ucast (B3F_KEYED_HASH OR B3F_CHUNK_START OR B3F_CHUNK_END OR B3F_ROOT)\<rparr>
      in map (\<lambda>i. \<lparr>data_source = (if i = 7 then JackpotData else NoData), round_tweak = (if i = 0 then Some tw else None),
           round_idx = i + 1, read_cv_row = None, round_hash_a = False, round_hash_b = False,
           round_hash_jackpot = (i = 7), cv_is_commitment = (i = 0)\<rparr>) [0..<ROUNDS_PER_BLAKE_INSTRUCTION])"

section \<open>The products and the jackpot register\<close>

definition compute_back_shift_ops :: "nat \<Rightarrow> nat \<times> bit_reg_dst" where
  "compute_back_shift_ops back_shifts =
     (let target = back_shifts mod 32
      in (target div 3, if target mod 3 = 0 then Store0 else if target mod 3 = 1 then Store1 else Store2))"

definition xor_instructions :: nat where "xor_instructions = TILE_H * TILE_H + 1"

text \<open>The iterations of \<open>(r..=k).step_by(r)\<close>, for a positive rank.\<close>

definition rank_steps :: "nat \<Rightarrow> nat \<Rightarrow> nat list" where
  "rank_steps r k = map (\<lambda>i. (i + 1) * r) [0..<k div r]"

definition tid_of :: "nat \<Rightarrow> nat \<Rightarrow> nat" where
  "tid_of r ll = (ll div r - 1) mod ZK_JACKPOT_SIZE"

text \<open>For each word of the jackpot, the last step that writes it and the number of steps that do.\<close>

definition occurrences :: "nat \<Rightarrow> nat \<Rightarrow> nat list \<times> nat list" where
  "occurrences r k = fold (\<lambda>ll (last_ll, num). let tid = tid_of r ll in (last_ll[tid := ll], num[tid := num ! tid + 1]))
     (rank_steps r k) (replicate ZK_JACKPOT_SIZE 0, replicate ZK_JACKPOT_SIZE 0)"

definition tile_products :: "nat \<Rightarrow> nat \<Rightarrow> nat \<Rightarrow> nat \<Rightarrow> matmul_logic list" where
  "tile_products i j r ll =
     map (\<lambda>l. let pos = ll - r + l * TILE_D in
        \<lparr>is_reset_cumsum = (pos = 0),
         a_dword = Some \<lparr>is_b_strip = False, strip_idx = i * TILE_H, idx_in_strip = pos\<rparr>,
         b_dword = Some \<lparr>is_b_strip = True, strip_idx = j * TILE_H, idx_in_strip = pos\<rparr>\<rparr>) [0..<r div TILE_D]"

definition register_ops :: "nat \<Rightarrow> nat \<Rightarrow> bit_reg_dst \<Rightarrow> jackpot_logic list" where
  "register_ops tid num_shift3 final_store =
     [\<lparr>jl_src = SrcJackpot, jl_dst = Store1, jackpot_idx = tid, is_dump_cumsum_buffer = False\<rparr>]
     @ map (\<lambda>_. \<lparr>jl_src = SrcXor, jl_dst = Store0, jackpot_idx = tid, is_dump_cumsum_buffer = False\<rparr>) [1..<xor_instructions - 1]
     @ map (\<lambda>ss. \<lparr>jl_src = (if ss = 0 then SrcXor else SrcShift3), jl_dst = (if ss = num_shift3 then final_store else Store0),
          jackpot_idx = tid, is_dump_cumsum_buffer = (ss = num_shift3)\<rparr>) [0..<num_shift3 + 1]"

text \<open>The rows of one step of one subtile, in the two instruction streams.\<close>

definition step_logic :: "nat \<Rightarrow> nat \<Rightarrow> nat \<Rightarrow> nat \<Rightarrow> nat \<times> bit_reg_dst \<Rightarrow> matmul_logic list \<times> jackpot_logic list" where
  "step_logic i j r ll ops =
     (case ops of (num_shift3, final_store) \<Rightarrow>
      let tiles_per_r = r div TILE_D; bitreg_instructions = xor_instructions + num_shift3
      in (tile_products i j r ll @ replicate (bitreg_instructions - tiles_per_r) matmul_default,
          replicate (tiles_per_r - bitreg_instructions) jackpot_default @ register_ops (tid_of r ll) num_shift3 final_store))"

definition back_shift :: "nat \<Rightarrow> nat \<Rightarrow> bool \<Rightarrow> nat \<Rightarrow> nat \<times> bit_reg_dst" where
  "back_shift r k is_last_subtile ll =
     (if is_last_subtile then (0, Store0)
      else if ll = fst (occurrences r k) ! tid_of r ll then compute_back_shift_ops (snd (occurrences r k) ! tid_of r ll)
      else (0, Store0))"

definition subtile_logic :: "nat \<Rightarrow> nat \<Rightarrow> nat \<Rightarrow> nat \<Rightarrow> nat \<times> nat \<Rightarrow> (matmul_logic list \<times> jackpot_logic list) list" where
  "subtile_logic r k num_subtiles_w total_subtiles = (\<lambda>(i, j).
     let subtile_idx = i * num_subtiles_w + j
     in map (\<lambda>ll. step_logic i j r ll (back_shift r k (subtile_idx = total_subtiles - 1) ll)) (rank_steps r k))"

definition structure_matmul_in_stark :: "compiled_params \<Rightarrow> (anyhow, matmul_logic list \<times> jackpot_logic list) res" where
  "structure_matmul_in_stark c =
     (let h = c_h c; w = c_w c; k = c_k c; r = c_r c in
      res_bind (ensure (k mod TILE_D = 0) ''k must be a multiple of TILE_D'') (\<lambda>_.
      res_bind (ensure (h mod TILE_H = 0) ''h must be a multiple of TILE_H'') (\<lambda>_.
      res_bind (ensure (w mod TILE_H = 0) ''w must be a multiple of TILE_H'') (\<lambda>_.
      res_bind (ensure (h * w \<le> 256) ''h * w must be at most 256'') (\<lambda>_.
      if r = 0 then Panic
      else let nh = h div TILE_H; nw = w div TILE_H;
               steps = concat (map (subtile_logic r k nw (nh * nw)) (List.product [0..<nh] [0..<nw]))
           in Ok (concat (map fst steps), concat (map snd steps)))))))"

section \<open>The whole program\<close>

definition get_or :: "'a \<Rightarrow> 'a list \<Rightarrow> nat \<Rightarrow> 'a" where
  "get_or d xs i = (if i < length xs then xs ! i else d)"

definition structure_proof :: "compiled_params \<Rightarrow> (anyhow, row_logic list) res" where
  "structure_proof c =
     res_bind (structure_commitment_hash_in_stark (instructions (blake_proof c))) (\<lambda>commitment_hash_proof.
     res_bind (structure_matmul_in_stark c) (\<lambda>(matmul_proof, jackpot_proof).
     let blake_proof_len = length commitment_hash_proof;
         num_rows = max (blake_proof_len + ROUNDS_PER_BLAKE_INSTRUCTION) (length matmul_proof);
         jackpot_blake_start = num_rows - ROUNDS_PER_BLAKE_INSTRUCTION;
         padded_n = max (next_power_of_two num_rows) MIN_STARK_LEN
     in res_bind (expected_num_rows c) (\<lambda>expected.
        res_bind (ensure (num_rows = expected) ''structure_proof length does not match expected num rows'') (\<lambda>_.
        Ok (map (\<lambda>i.
          if num_rows \<le> i then row_default
          else \<lparr>rl_blake = (if i < blake_proof_len then commitment_hash_proof ! i
                            else if jackpot_blake_start \<le> i then structure_jackpot_blake ! (i - jackpot_blake_start)
                            else round_default),
                rl_matmul = get_or matmul_default matmul_proof i,
                rl_jackpot = get_or jackpot_default jackpot_proof i\<rparr>) [0..<padded_n])))))"

end
