(* ===== verification/Submit.thy ===== *)
theory Submit imports Stark_Program begin

text \<open>
  From a plain proof to a submitted block: the ZK proof of deps/zk-pow/src/api/prove.rs and the submission of
  src/proof/submit.rs.  The STARK and its recursion circuits (plonky2) are the parameter \<open>zk_lib\<close>: the trace with
  the jackpot hash it exposes, the compilation into the circuit cache, and the recursive proof.
\<close>

section \<open>Commitment to the public data\<close>

record circuit_params =
  stark_degree_bits :: nat
  cp_pow_bits :: "nat list"
  cp_rate_bits :: "nat list"

definition GOLDILOCKS :: nat where "GOLDILOCKS = 2 ^ 64 - 2 ^ 32 + 1"

definition hash256_to_goldilocks_quartet :: "bytes \<Rightarrow> nat list" where
  "hash256_to_goldilocks_quartet hash =
     (let p = GOLDILOCKS; v0 = le_to_nat hash; v = (if p ^ 4 \<le> v0 then v0 - p ^ 4 else v0)
      in [v mod p, v div p mod p, v div p div p mod p, v div p div p div p mod p])"

definition public_data_commitment :: "digest_fn \<Rightarrow> public_params \<Rightarrow> circuit_params \<Rightarrow> (anyhow, nat list) res" where
  "public_data_commitment D p cp =
     res_bind (public_to_bytes p) (\<lambda>public_data.
     let input = map of_char ''V1'' @ header_to_bytes (p_header p) @ public_data @ map of_nat (cp_pow_bits cp) @ map of_nat (cp_rate_bits cp)
     in Ok (hash256_to_goldilocks_quartet (D input None)))"

section \<open>Proving\<close>

record ('t, 'c) zk_lib =
  zk_trace :: "public_params \<Rightarrow> private_params \<Rightarrow> (anyhow, 't \<times> u32 list) res"
  zk_compile :: "circuit_params \<Rightarrow> 'c \<Rightarrow> bool \<Rightarrow> (anyhow, unit) res \<times> 'c"
  zk_recursion :: "circuit_params \<Rightarrow> 'c \<Rightarrow> 't \<Rightarrow> nat list \<Rightarrow> (anyhow, zk_proof) res \<times> 'c"

fun unwrap_res :: "('e, 'a) res \<Rightarrow> ('e, 'a) res" where
  "unwrap_res (Ok x) = Ok x"
| "unwrap_res _ = Panic"

lemma unwrap_res_Ok [simp]: "unwrap_res r = Ok x \<longleftrightarrow> r = Ok x"
  by (cases r) simp_all

definition generate_trace :: "('t, 'c) zk_lib \<Rightarrow> public_params \<Rightarrow> private_params \<Rightarrow> (anyhow, 't \<times> u32 list) res" where
  "generate_trace Z public private =
     res_bind (dot_product_length (p_config public)) (\<lambda>dotprod_length.
     res_bind (assert_res (length (s_a private) = pub_h public)) (\<lambda>_.
     res_bind (assert_res (length (s_b private) = pub_w public)) (\<lambda>_.
     res_bind (assert_res (list_all (\<lambda>strip. length strip = dotprod_length) (s_a private @ s_b private))) (\<lambda>_.
     zk_trace Z public private))))"

text \<open>A computation that also updates the circuit cache and the public parameters it borrows; the cache is kept
  when it fails.\<close>

definition prove_block ::
  "blake3_lib \<Rightarrow> ('t, 'c) zk_lib \<Rightarrow> public_params \<Rightarrow> private_params \<Rightarrow> 'c \<Rightarrow> (anyhow, zk_proof \<times> public_params) res \<times> 'c" where
  "prove_block B Z public private cache =
     (case (res_bind (compile_params B public) (\<lambda>(compiled, _, _).
            res_bind (unwrap_res (structure_proof compiled)) (\<lambda>_.
            res_bind (generate_trace Z public private) (\<lambda>(trace, hash_words).
            res_bind (degree_bits compiled) (\<lambda>bits. Ok (trace, hash_words, bits)))))) of
        Ok (trace, hash_words, bits) \<Rightarrow>
          let cp = \<lparr>stark_degree_bits = bits, cp_pow_bits = [18, 18, 22], cp_rate_bits = (if 15 \<le> bits then [1, 3, 7] else [2, 3, 7])\<rparr>;
              public' = public\<lparr>hash_jackpot := concat (map u32_le hash_words)\<rparr>
          in (case zk_compile Z cp cache True of
               (Ok _, cache1) \<Rightarrow>
                 (case public_data_commitment (blake3_digest B) public' cp of
                    Ok commitment \<Rightarrow> (case zk_recursion Z cp cache1 trace commitment of (r, cache2) \<Rightarrow> (res_bind r (\<lambda>proof. Ok (proof, public')), cache2))
                  | Err e \<Rightarrow> (Err e, cache1) | Panic \<Rightarrow> (Panic, cache1))
             | (Err e, cache1) \<Rightarrow> (Err e, cache1)
             | (Panic, cache1) \<Rightarrow> (Panic, cache1))
      | Err e \<Rightarrow> (Err e, cache)
      | Panic \<Rightarrow> (Panic, cache))"

record prove_result =
  pr_public_data :: bytes
  pr_proof_data :: bytes

text \<open>The option is \<open>None\<close> when \<open>compute_cv\<close> does not return.\<close>

definition zk_prove_plain_proof ::
  "blake3_lib \<Rightarrow> ('t, 'c) zk_lib \<Rightarrow> block_header \<Rightarrow> plain_proof \<Rightarrow> 'c \<Rightarrow> bool \<Rightarrow> ((anyhow, prove_result) res \<times> 'c) option" where
  "zk_prove_plain_proof B Z hdr pf cache sanity_check =
     map_option (\<lambda>parsed.
       case res_bind parsed (\<lambda>(private, public).
              res_bind (if sanity_check then sanity_check_private_params B public private else Ok ()) (\<lambda>_. Ok (private, public))) of
         Ok (private, public) \<Rightarrow>
           (case prove_block B Z public private cache of
             (r, cache') \<Rightarrow> (res_bind r (\<lambda>(proof, public'). res_bind (zk_serialize proof public') (\<lambda>(pd, prd).
                Ok \<lparr>pr_public_data = pd, pr_proof_data = prd\<rparr>)), cache'))
       | Err e \<Rightarrow> (Err e, cache)
       | Panic \<Rightarrow> (Panic, cache))
     (parse_plain_proof B hdr pf)"

text \<open>\<open>warmup_prove\<close>; the sum \<open>max() + 1\<close> wraps in a release build.\<close>

definition warmup_prove :: "blake3_lib \<Rightarrow> ('t, 'c) zk_lib \<Rightarrow> mining_config \<Rightarrow> 'c \<Rightarrow> (anyhow, unit) res \<times> 'c" where
  "warmup_prove B Z config cache =
     (let tile_h = unat (pp_size (rows_pattern config)); tile_w = unat (pp_size (cols_pattern config)); k = unat (common_dim config);
          private = \<lparr>s_a = replicate tile_h (replicate k 0), s_b = replicate tile_w (replicate k 0), external_msgs = [], external_cvs = []\<rparr>;
          hdr = \<lparr>hversion = 0, prev_block = replicate 32 0, merkle_root = replicate 32 0, timestamp = 0, nbits = 0x207FFFFF\<rparr>
      in case (res_bind (pp_max (rows_pattern config)) (\<lambda>rmax. res_bind (pp_max (cols_pattern config)) (\<lambda>cmax.
               fill_dummy_merkle_proof B (public_new_dummy hdr config (rmax + 1) (cmax + 1) 0 0) private))) of
           Ok (public', private') \<Rightarrow> (case prove_block B Z public' private' cache of (r, cache') \<Rightarrow> (res_bind r (\<lambda>_. Ok ()), cache'))
         | Err e \<Rightarrow> (Err e, cache)
         | Panic \<Rightarrow> (Panic, cache))"

section \<open>Submitting\<close>

definition block_of_proof :: "(bytes \<Rightarrow> bytes) \<Rightarrow> 'tx mining_job \<Rightarrow> prove_result \<Rightarrow> 'tx pearl_block miner_res" where
  "block_of_proof sha256d job zk =
     (let commitment = compute_proof_commitment sha256d (pr_public_data zk);
          hdr = \<lparr>incomplete = incomplete_header job, proof_commitment = Some commitment\<rparr>
      in res_bind (pearl_header_serialize hdr) (\<lambda>hbytes.
         Ok \<lparr>header = hdr, txns = coinbase_tx job # other_txs job,
             certificate = \<lparr>header_hash = sha256d hbytes, public_data = pr_public_data zk, proof_data = pr_proof_data zk\<rparr>\<rparr>))"

text \<open>What the submission uses of the \<open>bitcoin\<close> and \<open>hex\<close> crates and of the node.\<close>

record ('tx, 'body) node_lib =
  nl_sha256d :: "bytes \<Rightarrow> bytes"
  nl_tx_encode :: "'tx \<Rightarrow> (string, bytes) res"
  nl_hex_encode :: "bytes \<Rightarrow> string"
  nl_base64 :: "string \<Rightarrow> string"
  nl_decode_json :: "'body \<Rightarrow> (string, json) res"

definition submit_plain_proof ::
  "blake3_lib \<Rightarrow> ('t, 'c) zk_lib \<Rightarrow> ('tx, 'body) node_lib \<Rightarrow> 'body http \<Rightarrow> pearld_config
   \<Rightarrow> plain_proof \<Rightarrow> 'tx mining_job \<Rightarrow> 'c \<Rightarrow> (unit miner_res \<times> 'c) option" where
  "submit_plain_proof B Z N http cfg pf job cache =
     map_option (\<lambda>(r, cache').
       (res_bind (map_err (\<lambda>e. RpcError ''zk_prove'' e) r) (\<lambda>zk.
        res_bind (block_of_proof (nl_sha256d N) job zk) (\<lambda>block.
        res_bind (block_serialize (nl_tx_encode N) block) (\<lambda>block_bytes.
        submit_block http (nl_base64 N) (nl_decode_json N) cfg (nl_hex_encode N block_bytes)))), cache'))
     (zk_prove_plain_proof B Z (incomplete_header job) pf cache True)"


section \<open>The block a hit submits\<close>

definition zk_typed :: "('t, 'c) zk_lib \<Rightarrow> bool" where
  "zk_typed Z \<longleftrightarrow> (\<forall>public private trace ws. zk_trace Z public private = Ok (trace, ws) \<longrightarrow> length ws = 8)"

lemma prove_block_public:
  assumes "zk_typed Z" "prove_block B Z public private cache = (Ok (proof, public'), cache')"
  shows "\<exists>h. public' = public\<lparr>hash_jackpot := h\<rparr> \<and> length h = 32"
proof -
  from assms(2) obtain trace ws where "generate_trace Z public private = Ok (trace, ws)" "public' = public\<lparr>hash_jackpot := concat (map u32_le ws)\<rparr>"
    by (auto simp: prove_block_def Let_def res_bind_Ok_iff split: res.splits prod.splits if_splits)
  moreover from this have "length ws = 8" using assms(1) by (auto simp: zk_typed_def generate_trace_def res_bind_Ok_iff)
  ultimately show ?thesis by (auto simp: length_words_le)
qed

lemma length_tree_value [simp]: "length (tree_value key data s e root) = 32"
  by (subst tree_value.simps) (simp add: length_chunk_value parent_value_def Let_def)

lemma canonical_pattern:
  assumes "list_to_pattern xs = Ok (p, off)"
  shows "is_valid p = Ok True" "offset_is_valid p off = Ok True"
  using assms by (auto simp: list_to_pattern_def from_list_def res_bind_Ok_iff Let_def ensure_def split: if_splits)

definition reads_back ::
  "(bytes \<Rightarrow> bytes) \<Rightarrow> block_header \<Rightarrow> public_params \<Rightarrow> zk_proof \<Rightarrow> nat \<Rightarrow> bytes \<Rightarrow> bytes \<Rightarrow> bool" where
  "reads_back sha256d hdr public proof n txs bs \<longleftrightarrow>
     (\<exists>cert h pc. block_decode bs = Some (cert, h, n, txs) \<and> h = \<lparr>incomplete = hdr, proof_commitment = Some pc\<rparr>
       \<and> pc = sha256d (u32_le 1 @ public_data cert) \<and> header_hash cert = sha256d (header_to_bytes hdr @ pc)
       \<and> zk_deserialize hdr (public_data cert) (proof_data cert) = Ok (public, proof))"

lemma proof_submitted:
  assumes sha: "\<And>x. length (nl_sha256d N x) = 32" and hdr: "wf_header (incomplete_header job)" "p_header public = incomplete_header job"
    and txs: "list_all2 (\<lambda>tx e. nl_tx_encode N tx = Ok e) (coinbase_tx job # other_txs job) encs" "length (other_txs job) < 2 ^ 32"
    and pub: "public_to_bytes public = Ok pd" "length pd = 164" "public_from_bytes (incomplete_header job) pd = Ok public"
    and zkp: "wf_zk_proof proof" "length (zk_to_bytes proof) \<le> 60000"
    and zk: "zk = \<lparr>pr_public_data = pd, pr_proof_data = zk_to_bytes proof\<rparr>"
  shows "\<exists>blk bs. block_of_proof (nl_sha256d N) job zk = Ok blk \<and> block_serialize (nl_tx_encode N) blk = Ok bs
    \<and> reads_back (nl_sha256d N) (incomplete_header job) public proof (1 + length (other_txs job)) (concat encs) bs"
proof -
  define pc where "pc = compute_proof_commitment (nl_sha256d N) pd"
  define h where "h = \<lparr>incomplete = incomplete_header job, proof_commitment = Some pc\<rparr>"
  define cert where "cert = \<lparr>header_hash = nl_sha256d N (header_to_bytes (incomplete_header job) @ pc), public_data = pd, proof_data = zk_to_bytes proof\<rparr>"
  define blk where "blk = \<lparr>header = h, txns = coinbase_tx job # other_txs job, certificate = cert\<rparr>"
  have b: "block_of_proof (nl_sha256d N) job zk = Ok blk"
    by (simp add: block_of_proof_def Let_def zk pearl_header_serialize_def serialize_without_proof_commitment_def blk_def h_def cert_def pc_def)
  have "wf_certificate (certificate blk)" "wf_pearl_header (header blk)" "length (txns blk) < 2 ^ 64"
    "list_all2 (\<lambda>tx e. nl_tx_encode N tx = Ok e) (txns blk) encs"
    using assms by (simp_all add: blk_def cert_def h_def pc_def compute_proof_commitment_def wf_certificate_def wf_pearl_header_def)
  from block_reads_back [OF this] obtain bs where bs: "block_serialize (nl_tx_encode N) blk = Ok bs"
    "block_decode bs = Some (cert, h, 1 + length (other_txs job), concat encs)" by (auto simp: blk_def)
  have "zk_deserialize (incomplete_header job) (public_data cert) (proof_data cert) = Ok (public, proof)"
    using pub(3) zk_from_to [OF zkp(1)] by (simp add: zk_deserialize_def cert_def)
  then have "reads_back (nl_sha256d N) (incomplete_header job) public proof (1 + length (other_txs job)) (concat encs) bs"
    unfolding reads_back_def using bs(2)
    by (simp add: h_def) (simp add: cert_def pc_def compute_proof_commitment_def ZK_CERTIFICATE_VERSION_def)
  with b bs(1) show ?thesis by blast
qed


text \<open>The part of the poller that follows the Merkle openings.\<close>

lemma hit_reaches_prover:
  assumes B: "blake3_spec B key" and p: "public_params_sanity_check p = Ok ()" "rows_inside p" "canonical_rows p"
    and key: "job_key (blake3_digest B) p = Ok key"
    and A: "length A = unat (p_m p) * pub_common_dim p" "length A mod 1024 = 0"
    and Bt: "length Bt = unat (p_n p) * pub_common_dim p" "length Bt mod 1024 = 0"
  shows "\<exists>pf pub priv. build_plain_proof B (unat (p_m p)) (unat (p_n p)) (pub_common_dim p) (pub_rank p) A Bt
        (map unat (a_rows_indices p)) (map unat (b_cols_indices p)) key = Ok pf
    \<and> pub = p\<lparr>hash_a := hash_a pub, hash_b := hash_b pub, hash_jackpot := replicate 32 0xff\<rparr>
    \<and> length (hash_a pub) = 32 \<and> length (hash_b pub) = 32
    \<and> sanity_check_private_params B pub priv = Ok ()
    \<and> zk_prove_plain_proof B Z (p_header p) pf cache True
      = Some (case prove_block B Z pub priv cache of
          (r, cache') \<Rightarrow> (res_bind r (\<lambda>(proof, public'). res_bind (zk_serialize proof public') (\<lambda>(pd, prd).
             Ok \<lparr>pr_public_data = pd, pr_proof_data = prd\<rparr>)), cache'))"
proof -
  have A': "length A = padded_chunk_len (unat (p_m p) * pub_common_dim p)" and Bt': "length Bt = padded_chunk_len (unat (p_n p) * pub_common_dim p)"
    using A Bt by (simp_all add: padded_exact)
  from openings_parse [OF B p key this] obtain pa pb priv where
    o: "get_multileaf_proof (merkle_tree_new B A key) (row_leaves p) = Ok pa" "get_multileaf_proof (merkle_tree_new B Bt key) (col_leaves p) = Ok pb"
    "tree_root (merkle_tree_new B A key) = Ok (proof_root pa)" "tree_root (merkle_tree_new B Bt key) = Ok (proof_root pb)"
    "parse_plain_proof B (p_header p) (plain_of p pa pb)
        = Some (Ok (priv, p\<lparr>hash_a := proof_root pa, hash_b := proof_root pb, hash_jackpot := replicate 32 0xff\<rparr>))"
    "sanity_check_private_params B (p\<lparr>hash_a := proof_root pa, hash_b := proof_root pb, hash_jackpot := replicate 32 0xff\<rparr>) priv = Ok ()"
    by (elim exE conjE)
  let ?pub = "p\<lparr>hash_a := proof_root pa, hash_b := proof_root pb, hash_jackpot := replicate 32 0xff\<rparr>"
  obtain len where len: "dot_product_length (p_config p) = Ok len"
    using p(1) by (auto simp: public_params_sanity_check_def Let_def res_bind_Ok_iff)
  note st = sane_strips [OF p(1) len]
  have pos: "0 < unat (p_m p)" "0 < unat (p_n p)" using p(2) by (auto simp: rows_inside_def word_less_nat_alt neq_Nil_conv)
  have "length (proof_root pa) = 32" "length (proof_root pb) = 32"
    using matrix_root [OF B A' st(6,7) pos(1) st(5)] matrix_root [OF B Bt' st(6,8) pos(2) st(5)] o(3,4) by auto
  moreover have "build_plain_proof B (unat (p_m p)) (unat (p_n p)) (pub_common_dim p) (pub_rank p) A Bt
        (map unat (a_rows_indices p)) (map unat (b_cols_indices p)) key = Ok (plain_of p pa pb)"
    using o(1,2) A Bt by (simp add: build_plain_proof_def lift_merkle_def plain_of_def row_leaves_def col_leaves_def)
  ultimately show ?thesis using o(6)
    by (intro exI [of _ "plain_of p pa pb"] exI [of _ ?pub] exI [of _ priv]) (simp add: zk_prove_plain_proof_def o(5))
qed

text \<open>C5: A hit becomes a block the node can read.  For matrices of whole chunks and public parameters that pass the
  sanity check, under the job's own header and key, the plain proof built from them reaches the prover with those
  parameters, their Merkle roots filled in, and private inputs that pass its check; when the prover returns a
  proof of at most 60000 bytes the miner submits one block in hexadecimal, and its bytes read back as the job's header
  with the commitment to the public data, the hash of those 108 bytes, the proved parameters and proof, and every
  transaction in order, the coinbase first.  A prover's error is reported under \<open>zk_prove\<close>.\<close>

theorem hit_submitted:
  assumes "blake3_spec B (keying job)" and "public_params_sanity_check p = Ok ()" "rows_inside p" "canonical_rows p"
    and "job_key (blake3_digest B) p = Ok (keying job)" "p_header p = incomplete_header job"
    and "length A = unat (p_m p) * pub_common_dim p" "length A mod 1024 = 0"
    and "length Bt = unat (p_n p) * pub_common_dim p" "length Bt mod 1024 = 0"
    and "zk_typed Z" and "\<And>x. length (nl_sha256d N x) = 32" and "wf_header (incomplete_header job)"
    and "list_all2 (\<lambda>tx e. nl_tx_encode N tx = Ok e) (coinbase_tx job # other_txs job) encs" "length (other_txs job) < 2 ^ 32"
  shows "\<exists>pf pub priv. build_plain_proof B (unat (p_m p)) (unat (p_n p)) (pub_common_dim p) (pub_rank p) A Bt
        (map unat (a_rows_indices p)) (map unat (b_cols_indices p)) (keying job) = Ok pf
    \<and> pub = p\<lparr>hash_a := hash_a pub, hash_b := hash_b pub, hash_jackpot := replicate 32 0xff\<rparr>
    \<and> sanity_check_private_params B pub priv = Ok ()
    \<and> (case prove_block B Z pub priv cache of
        (Ok (proof, pub'), cache') \<Rightarrow> wf_zk_proof proof \<and> length (zk_to_bytes proof) \<le> 60000 \<longrightarrow>
          (\<exists>h bs. pub' = pub\<lparr>hash_jackpot := h\<rparr>
            \<and> submit_plain_proof B Z N http cfg pf job cache
              = Some (submit_block http (nl_base64 N) (nl_decode_json N) cfg (nl_hex_encode N bs), cache')
            \<and> reads_back (nl_sha256d N) (incomplete_header job) pub' proof (1 + length (other_txs job)) (concat encs) bs)
      | (Err e, cache') \<Rightarrow> submit_plain_proof B Z N http cfg pf job cache = Some (Err (RpcError ''zk_prove'' e), cache')
      | (Panic, cache') \<Rightarrow> submit_plain_proof B Z N http cfg pf job cache = Some (Panic, cache'))"
proof -
  from hit_reaches_prover [OF assms(1-5,7-10), of Z cache] obtain pf pub priv where
    o: "build_plain_proof B (unat (p_m p)) (unat (p_n p)) (pub_common_dim p) (pub_rank p) A Bt
        (map unat (a_rows_indices p)) (map unat (b_cols_indices p)) (keying job) = Ok pf"
    "pub = p\<lparr>hash_a := hash_a pub, hash_b := hash_b pub, hash_jackpot := replicate 32 0xff\<rparr>"
    "length (hash_a pub) = 32" "length (hash_b pub) = 32" "sanity_check_private_params B pub priv = Ok ()"
    "zk_prove_plain_proof B Z (p_header p) pf cache True
      = Some (case prove_block B Z pub priv cache of
          (r, cache') \<Rightarrow> (res_bind r (\<lambda>(proof, public'). res_bind (zk_serialize proof public') (\<lambda>(pd, prd).
             Ok \<lparr>pr_public_data = pd, pr_proof_data = prd\<rparr>)), cache'))" by (elim exE conjE)
  have "\<exists>h bs. pub' = pub\<lparr>hash_jackpot := h\<rparr>
            \<and> submit_plain_proof B Z N http cfg pf job cache
              = Some (submit_block http (nl_base64 N) (nl_decode_json N) cfg (nl_hex_encode N bs), cache')
            \<and> reads_back (nl_sha256d N) (incomplete_header job) pub' zp (1 + length (other_txs job)) (concat encs) bs"
    if pr: "prove_block B Z pub priv cache = (Ok (zp, pub'), cache')" and zkp: "wf_zk_proof zp" "length (zk_to_bytes zp) \<le> 60000"
    for zp pub' cache'
  proof -
    obtain h where h: "pub' = pub\<lparr>hash_jackpot := h\<rparr>" "length h = 32" using prove_block_public [OF assms(11) pr] by blast
    have f: "p_config pub' = p_config p" "t_rows pub' = t_rows p" "t_cols pub' = t_cols p" "p_header pub' = incomplete_header job"
      "hash_a pub' = hash_a pub" "hash_b pub' = hash_b pub" "hash_jackpot pub' = h"
      using assms(6) by (simp_all add: h(1), simp_all add: o(2) [THEN arg_cong, of p_config] o(2) [THEN arg_cong, of t_rows]
          o(2) [THEN arg_cong, of t_cols] o(2) [THEN arg_cong, of p_header])
    have "list_to_pattern (a_rows_indices p) = Ok (rows_pattern (p_config p), t_rows p)"
      "list_to_pattern (b_cols_indices p) = Ok (cols_pattern (p_config p), t_cols p)" using assms(4) by (simp_all add: canonical_rows_def)
    note pats = this [THEN canonical_pattern(1)] this [THEN canonical_pattern(2)]
    have "reserved (p_config p) = RESERVED_VALUE"
      using assms(2) by (auto simp: public_params_sanity_check_def Let_def res_bind_Ok_iff)
    then obtain pd where pd: "public_to_bytes pub' = Ok pd" "length pd = 164" "public_from_bytes (incomplete_header job) pd = Ok pub'"
      using public_from_to [of pub', unfolded f] pats o(3,4) h(2) by blast
    from proof_submitted [where N = N, OF assms(12,13) f(4) assms(14,15) pd zkp refl] obtain blk bs where
      "block_of_proof (nl_sha256d N) job \<lparr>pr_public_data = pd, pr_proof_data = zk_to_bytes zp\<rparr> = Ok blk"
      "block_serialize (nl_tx_encode N) blk = Ok bs"
      "reads_back (nl_sha256d N) (incomplete_header job) pub' zp (1 + length (other_txs job)) (concat encs) bs" by blast
    then show ?thesis using h(1)
      by - (rule exI [of _ h], rule exI [of _ bs], simp add: submit_plain_proof_def o(6) [unfolded assms(6)] pr zk_serialize_def pd(1) [unfolded h(1)])
  qed
  moreover have "submit_plain_proof B Z N http cfg pf job cache = Some (Err (RpcError ''zk_prove'' e), cache')"
    if "prove_block B Z pub priv cache = (Err e, cache')" for e cache'
    using that by (simp add: submit_plain_proof_def o(6) [unfolded assms(6)])
  moreover have "submit_plain_proof B Z N http cfg pf job cache = Some (Panic, cache')"
    if "prove_block B Z pub priv cache = (Panic, cache')" for cache'
    using that by (simp add: submit_plain_proof_def o(6) [unfolded assms(6)])
  ultimately show ?thesis using o(1,2,5)
    by (intro exI [of _ pf] exI [of _ pub] exI [of _ priv]) (auto split: res.split prod.split)
qed


definition sample_zk :: "(unit, nat) zk_lib" where
  "sample_zk = \<lparr>zk_trace = \<lambda>_ _. Ok ((), replicate 8 0), zk_compile = \<lambda>_ c _. (Ok (), c + 1),
     zk_recursion = \<lambda>_ c _ _. (Ok \<lparr>pow_bits = [18, 18, 22], rate_bits = [2, 3, 7], zeta = replicate 16 0, plonky2_proof = [1, 2, 3]\<rparr>, c)\<rparr>"

definition sample_node :: "(bytes, json) node_lib" where
  "sample_node = \<lparr>nl_sha256d = \<lambda>_. replicate 32 5, nl_tx_encode = Ok, nl_hex_encode = map (\<lambda>b. char_of (unat b)),
     nl_base64 = id, nl_decode_json = Ok\<rparr>"

definition job_with :: "bytes \<Rightarrow> bytes mining_job" where
  "job_with key = \<lparr>header_bytes = header_to_bytes (p_header sample_params), incomplete_header = p_header sample_params,
     job_config = sample_config, keying = key, target_be = replicate 32 0, adjusted_target_le = replicate 32 0,
     job_template = sample_template, coinbase_tx = [1, 2], other_txs = [[3], [4, 5]]\<rparr>"

lemma hit_submitted_witness:
  "\<exists>key pf pub priv. job_key (blake3_digest spec_blake3) sample_params = Ok key
    \<and> build_plain_proof spec_blake3 8192 32768 4096 128 (replicate 33554432 1) (replicate 134217728 2)
        (map unat (a_rows_indices sample_params)) (map unat (b_cols_indices sample_params)) key = Ok pf
    \<and> sanity_check_private_params spec_blake3 pub priv = Ok ()
    \<and> (case prove_block spec_blake3 sample_zk pub priv 0 of
        (Ok (zp, pub'), c) \<Rightarrow> wf_zk_proof zp \<and> length (zk_to_bytes zp) \<le> 60000 \<longrightarrow>
          (\<exists>h bs. pub' = pub\<lparr>hash_jackpot := h\<rparr>
            \<and> submit_plain_proof spec_blake3 sample_zk sample_node (\<lambda>_. Ok (JObject [])) (pearld_config_default (\<lambda>_. None)) pf (job_with key) 0
              = Some (submit_block (\<lambda>_. Ok (JObject [])) id Ok (pearld_config_default (\<lambda>_. None)) (nl_hex_encode sample_node bs), c)
            \<and> reads_back (\<lambda>_. replicate 32 5) (p_header sample_params) pub' zp 3 [1, 2, 3, 4, 5] bs)
      | (Err e, c) \<Rightarrow> submit_plain_proof spec_blake3 sample_zk sample_node (\<lambda>_. Ok (JObject [])) (pearld_config_default (\<lambda>_. None)) pf (job_with key) 0
          = Some (Err (RpcError ''zk_prove'' e), c)
      | (Panic, c) \<Rightarrow> submit_plain_proof spec_blake3 sample_zk sample_node (\<lambda>_. Ok (JObject [])) (pearld_config_default (\<lambda>_. None)) pf (job_with key) 0
          = Some (Panic, c))"
proof -
  obtain key where key: "job_key (blake3_digest spec_blake3) sample_params = Ok key" "length key = 32" using sample_job_key by blast
  have spec: "blake3_spec spec_blake3 (keying (job_with key))" using spec_blake3_ok [OF key_words_back [OF key(2)]] by (simp add: job_with_def)
  have j: "keying (job_with key) = key" "incomplete_header (job_with key) = p_header sample_params"
    "coinbase_tx (job_with key) = [1, 2]" "other_txs (job_with key) = [[3], [4, 5]]" by (simp_all add: job_with_def)
  have sizes: "pub_common_dim sample_params = 4096" "pub_rank sample_params = 128" "unat (p_m sample_params) = 8192" "unat (p_n sample_params) = 32768"
    by (simp_all add: sample_params_def sample_config_def pub_common_dim_def pub_rank_def)
  have hyps: "zk_typed sample_zk" "\<And>x. length (nl_sha256d sample_node x) = 32" "wf_header (p_header sample_params)"
    "list_all2 (\<lambda>tx e. nl_tx_encode sample_node tx = Ok e) ([1, 2] # [[3], [4, 5]]) [[1, 2], [3], [4, 5]]" "nl_base64 sample_node = id" "nl_decode_json sample_node = Ok"
    "nl_sha256d sample_node = (\<lambda>_. replicate 32 5)"
    by (simp_all add: zk_typed_def sample_zk_def sample_node_def wf_header_def sample_params_def)
  have n: "33554432 = 8192 * (4096 :: nat)" "33554432 mod 1024 = (0 :: nat)" "134217728 = 32768 * (4096 :: nat)" "134217728 mod 1024 = (0 :: nat)"
    "length [[3], [4, 5 :: u8]] < 2 ^ 32" by simp_all
  have c: "1 + length [[3], [4, 5 :: u8]] = 3" "concat [[1, 2], [3], [4, 5]] = [1, 2, 3, 4, 5 :: u8]" by simp_all
  note H = hit_submitted [OF spec sample_params_sane sample_canonical(2,1), where A = "replicate 33554432 1" and Bt = "replicate 134217728 2"
      and Z = sample_zk and N = sample_node and http = "\<lambda>_. Ok (JObject [])" and cfg = "pearld_config_default (\<lambda>_. None)" and cache = 0,
      unfolded j sizes length_replicate hyps(5,6), OF key(1) refl n(1-4) hyps(1,2,3,4) n(5), unfolded c hyps(7)]
  then show ?thesis using key(1) by (elim exE conjE) (intro exI conjI; assumption)
qed

end
