(* ===== verification/Cuda_Driver.thy ===== *)
theory Cuda_Driver
  imports Miner_Error
begin

text \<open>
  The wrappers over the CUDA driver API (\<open>src/src/driver.rs\<close>). The driver is not part of the
  program: it is the parameter record \<open>cuda_lib\<close>, which answers each call from the whole history
  of calls. A wrapper is a computation that extends that history: it returns a result and the
  calls issued so far, the calls before a failing one included, because their effects remain.
  Every theorem on the order or the arguments of device operations is a statement about this
  history. The destructors (\<open>Drop\<close>) issue the matching release call and ignore its status; they
  run when their owner leaves its scope, which the model does not track.
\<close>

section \<open>Calls and answers\<close>

type_synonym ptr = u64

datatype kernel_arg = ArgI32 i32 | ArgU8 u8 | ArgU64 u64 | ArgPtr ptr

text \<open>A kernel launch: function, grid, block, dynamic shared memory, arguments.\<close>

record launch =
  l_func :: ptr
  l_grid :: "u32 \<times> u32 \<times> u32"
  l_block :: "u32 \<times> u32 \<times> u32"
  l_smem :: u32
  l_args :: "kernel_arg list"

datatype cu_call =
    CuInit
  | CuDeviceGetCount
  | CuDeviceGet i32
  | CuCtxCreate ptr
  | CuCtxSynchronize
  | CuCtxGetDevice
  | CuDeviceGetName ptr
  | CuDeviceGetAttribute bool ptr
  | CuModuleLoadFatBinary bytes
  | CuModuleLoadData bytes
  | CuModuleGetFunction ptr string
  | CuFuncSetAttribute ptr i32
  | CuMemAlloc nat
  | CuMemcpyHtoD ptr bytes
  | CuMemcpyDtoH ptr nat
  | CuMemsetD8 ptr u8 nat
  | CuMemHostAlloc nat u32
  | CuMemHostGetDevicePointer ptr
  | HostFill ptr u8 nat
  | CuStreamCreate u32
  | CuStreamSynchronize ptr
  | CuStreamBeginCapture ptr
  | CuStreamEndCapture ptr
  | CuGraphInstantiate ptr
  | CuGraphGetNodes ptr bool
  | CuGraphNodeGetType ptr
  | CuGraphKernelNodeGetParams ptr
  | CuGraphExecKernelNodeSetParams ptr ptr launch
  | CuGraphLaunch ptr ptr
  | CuLaunchKernel launch ptr
  | CuMemsetD8Async ptr u8 nat ptr
  | CuMemsetD32Async ptr u32 nat ptr
  | CuMemcpyDtoDAsync ptr ptr nat ptr
  | CuMemcpyDtoHAsync ptr ptr nat ptr

text \<open>The driver: status and out-parameter of a call (a count, handle or address), bytes it writes
  to host memory, and the nodes of a graph; the last two fields name a status.\<close>

record cuda_lib =
  reply :: "cu_call list \<Rightarrow> cu_call \<Rightarrow> cu_result \<times> u64"
  reply_bytes :: "cu_call list \<Rightarrow> cu_call \<Rightarrow> bytes"
  reply_nodes :: "cu_call list \<Rightarrow> cu_call \<Rightarrow> ptr list"
  error_name :: "cu_result \<Rightarrow> string option"
  debug_form :: "cu_result \<Rightarrow> string"

type_synonym 'a drv = "cu_call list \<Rightarrow> 'a miner_res \<times> cu_call list"

definition drv_res :: "'a miner_res \<Rightarrow> 'a drv" where
  "drv_res r = (\<lambda>t. (r, t))"

abbreviation drv_return :: "'a \<Rightarrow> 'a drv" where
  "drv_return x \<equiv> drv_res (Ok x)"

definition drv_bind :: "'a drv \<Rightarrow> ('a \<Rightarrow> 'b drv) \<Rightarrow> 'b drv" where
  "drv_bind m f = (\<lambda>t. case m t of (Ok x, t') \<Rightarrow> f x t' | (Err e, t') \<Rightarrow> (Err e, t') | (Panic, t') \<Rightarrow> (Panic, t'))"

abbreviation drv_then :: "unit drv \<Rightarrow> 'b drv \<Rightarrow> 'b drv" where
  "drv_then m k \<equiv> drv_bind m (\<lambda>_. k)"

definition drv_assert :: "bool \<Rightarrow> unit drv" where
  "drv_assert c = drv_res (assert_res c)"

text \<open>An operation of the CPU on mapped host memory cannot fail.\<close>

definition host_call :: "cu_call \<Rightarrow> unit drv" where
  "host_call c = (\<lambda>t. (Ok (), t @ [c]))"

text \<open>One checked driver call: \<open>cu_check(call, name)?\<close>.\<close>

definition cu_value :: "cuda_lib \<Rightarrow> cu_call \<Rightarrow> string \<Rightarrow> u64 drv" where
  "cu_value L c name = (\<lambda>t.
     (res_bind (cu_check (error_name L) (debug_form L) (fst (reply L t c)) name)
        (\<lambda>_. Ok (snd (reply L t c))), t @ [c]))"

definition cu_do :: "cuda_lib \<Rightarrow> cu_call \<Rightarrow> string \<Rightarrow> unit drv" where
  "cu_do L c name = drv_bind (cu_value L c name) (\<lambda>_. drv_return ())"

fun drv_map :: "('a \<Rightarrow> 'b drv) \<Rightarrow> 'a list \<Rightarrow> 'b list drv" where
  "drv_map f [] = drv_return []"
| "drv_map f (x # xs) = drv_bind (f x) (\<lambda>y. drv_bind (drv_map f xs) (\<lambda>ys. drv_return (y # ys)))"

section \<open>Devices and modules\<close>

definition device_count :: "cuda_lib \<Rightarrow> i32 drv" where
  "device_count L =
     drv_then (cu_do L CuInit ''cuInit'')
     (drv_bind (cu_value L CuDeviceGetCount ''cuDeviceGetCount'') (\<lambda>n. drv_return (ucast n)))"

record cuda_ctx =
  ctx_device :: ptr
  ctx_handle :: ptr

definition ctx_new :: "cuda_lib \<Rightarrow> i32 \<Rightarrow> cuda_ctx drv" where
  "ctx_new L device_ord =
     drv_then (cu_do L CuInit ''cuInit'')
     (drv_bind (cu_value L (CuDeviceGet device_ord) ''cuDeviceGet'') (\<lambda>device.
     drv_bind (cu_value L (CuCtxCreate device) ''cuCtxCreate'') (\<lambda>context.
     drv_return \<lparr>ctx_device = device, ctx_handle = context\<rparr>)))"

definition ctx_device_name :: "cuda_lib \<Rightarrow> cuda_ctx \<Rightarrow> bytes drv" where
  "ctx_device_name L c = (\<lambda>t.
     let (r, t') = cu_do L (CuDeviceGetName (ctx_device c)) ''cuDeviceGetName'' t
     in (res_bind r (\<lambda>_. Ok (takeWhile (\<lambda>b. b \<noteq> 0) (reply_bytes L t (CuDeviceGetName (ctx_device c))))), t'))"

definition ctx_synchronize :: "cuda_lib \<Rightarrow> unit drv" where
  "ctx_synchronize L = cu_do L CuCtxSynchronize ''cuCtxSynchronize''"

definition compute_capability :: "cuda_lib \<Rightarrow> ptr \<Rightarrow> (i32 \<times> i32) drv" where
  "compute_capability L device =
     drv_bind (cu_value L (CuDeviceGetAttribute True device) ''cuDeviceGetAttribute(CC_MAJOR)'') (\<lambda>major.
     drv_bind (cu_value L (CuDeviceGetAttribute False device) ''cuDeviceGetAttribute(CC_MINOR)'') (\<lambda>minor.
     drv_return (ucast major, ucast minor)))"

definition load_fatbin :: "cuda_lib \<Rightarrow> bytes \<Rightarrow> ptr drv" where
  "load_fatbin L blob = cu_value L (CuModuleLoadFatBinary blob) ''cuModuleLoadFatBinary''"

definition load_data :: "cuda_lib \<Rightarrow> bytes \<Rightarrow> ptr drv" where
  "load_data L blob = cu_value L (CuModuleLoadData blob) ''cuModuleLoadData''"

definition CUDA_ERROR_NOT_FOUND :: cu_result where "CUDA_ERROR_NOT_FOUND = 500"

definition get_function :: "cuda_lib \<Rightarrow> ptr \<Rightarrow> string \<Rightarrow> ptr drv" where
  "get_function L module name =
     (if CHR 0x00 \<in> set name then drv_res Panic
      else (\<lambda>t. let c = CuModuleGetFunction module name in
        if fst (reply L t c) = CUDA_ERROR_NOT_FOUND then (Err (KernelNotFound name), t @ [c])
        else cu_value L c ''cuModuleGetFunction'' t))"

section \<open>Buffers\<close>

record dev_buf =
  buf_ptr :: ptr
  buf_size :: nat

definition dev_alloc :: "cuda_lib \<Rightarrow> nat \<Rightarrow> dev_buf drv" where
  "dev_alloc L bytes = drv_bind (cu_value L (CuMemAlloc bytes) ''cuMemAlloc'')
     (\<lambda>p. drv_return \<lparr>buf_ptr = p, buf_size = bytes\<rparr>)"

definition dev_copy_from :: "cuda_lib \<Rightarrow> dev_buf \<Rightarrow> bytes \<Rightarrow> unit drv" where
  "dev_copy_from L b src =
     drv_then (drv_assert (length src \<le> buf_size b))
       (cu_do L (CuMemcpyHtoD (buf_ptr b) src) ''cuMemcpyHtoD'')"

definition dev_copy_to :: "cuda_lib \<Rightarrow> dev_buf \<Rightarrow> nat \<Rightarrow> bytes drv" where
  "dev_copy_to L b dst_len =
     drv_then (drv_assert (dst_len \<le> buf_size b))
       (\<lambda>t. let (r, t') = cu_do L (CuMemcpyDtoH (buf_ptr b) dst_len) ''cuMemcpyDtoH'' t
            in (res_bind r (\<lambda>_. Ok (reply_bytes L t (CuMemcpyDtoH (buf_ptr b) dst_len))), t'))"

definition dev_zero :: "cuda_lib \<Rightarrow> dev_buf \<Rightarrow> unit drv" where
  "dev_zero L b = cu_do L (CuMemsetD8 (buf_ptr b) 0 (buf_size b)) ''cuMemsetD8''"

record pinned_buf =
  host_ptr :: ptr
  device_ptr :: ptr
  pin_size :: nat

text \<open>\<open>PORTABLE | DEVICEMAP\<close>.\<close>

definition PINNED_FLAGS :: u32 where "PINNED_FLAGS = 1 OR 2"

definition pinned_alloc :: "cuda_lib \<Rightarrow> nat \<Rightarrow> pinned_buf drv" where
  "pinned_alloc L bytes =
     drv_bind (cu_value L (CuMemHostAlloc bytes PINNED_FLAGS) ''cuMemHostAlloc'') (\<lambda>h.
     drv_bind (cu_value L (CuMemHostGetDevicePointer h) ''cuMemHostGetDevicePointer'') (\<lambda>d.
     drv_return \<lparr>host_ptr = h, device_ptr = d, pin_size = bytes\<rparr>))"

definition zero_cpu :: "pinned_buf \<Rightarrow> unit drv" where
  "zero_cpu b = host_call (HostFill (host_ptr b) 0 (pin_size b))"

section \<open>Streams and kernels\<close>

definition stream_new :: "cuda_lib \<Rightarrow> ptr drv" where
  "stream_new L = cu_value L (CuStreamCreate 1) ''cuStreamCreate''"

definition stream_synchronize :: "cuda_lib \<Rightarrow> ptr \<Rightarrow> unit drv" where
  "stream_synchronize L s = cu_do L (CuStreamSynchronize s) ''cuStreamSynchronize''"

definition launch_kernel ::
  "cuda_lib \<Rightarrow> ptr \<Rightarrow> u32 \<times> u32 \<times> u32 \<Rightarrow> u32 \<times> u32 \<times> u32 \<Rightarrow> u32 \<Rightarrow> ptr \<Rightarrow> kernel_arg list \<Rightarrow> unit drv" where
  "launch_kernel L func grid block shared_mem_bytes stream params =
     cu_do L (CuLaunchKernel \<lparr>l_func = func, l_grid = grid, l_block = block, l_smem = shared_mem_bytes,
        l_args = params\<rparr> stream) ''cuLaunchKernel''"

section \<open>Captured graphs\<close>

record mutable_random =
  mr_node :: ptr
  mr_func :: ptr
  mr_grid_x :: u32
  mr_block_x :: u32
  arg_total_bytes :: i32
  arg_seed :: ptr
  arg_iter :: u64
  arg_out :: ptr

record captured_graph =
  cg_graph :: ptr
  cg_exec :: ptr
  cg_random :: "mutable_random option"

definition graph_begin :: "cuda_lib \<Rightarrow> ptr \<Rightarrow> unit drv" where
  "graph_begin L stream = cu_do L (CuStreamBeginCapture stream) ''cuStreamBeginCapture''"

definition graph_end :: "cuda_lib \<Rightarrow> ptr \<Rightarrow> captured_graph drv" where
  "graph_end L stream =
     drv_bind (cu_value L (CuStreamEndCapture stream) ''cuStreamEndCapture'') (\<lambda>g.
     drv_bind (cu_value L (CuGraphInstantiate g) ''cuGraphInstantiateWithFlags'') (\<lambda>ex.
     drv_return \<lparr>cg_graph = g, cg_exec = ex, cg_random = None\<rparr>))"

definition graph_launch :: "cuda_lib \<Rightarrow> captured_graph \<Rightarrow> ptr \<Rightarrow> unit drv" where
  "graph_launch L g stream = cu_do L (CuGraphLaunch (cg_exec g) stream) ''cuGraphLaunch''"

definition GRAPH_NODE_TYPE_KERNEL :: u64 where "GRAPH_NODE_TYPE_KERNEL = 0"

text \<open>The search for the nodes of the recorded function: a node of another type is skipped, any
  failing query ends the search. The answer to the parameter query is the node's function.\<close>

fun matching_nodes :: "cuda_lib \<Rightarrow> ptr \<Rightarrow> ptr list \<Rightarrow> ptr list drv" where
  "matching_nodes L func [] = drv_return []"
| "matching_nodes L func (node # nodes) =
     drv_bind (cu_value L (CuGraphNodeGetType node) ''cuGraphNodeGetType'') (\<lambda>ty.
     if ty \<noteq> GRAPH_NODE_TYPE_KERNEL then matching_nodes L func nodes
     else drv_bind (cu_value L (CuGraphKernelNodeGetParams node) ''cuGraphKernelNodeGetParams_v2'') (\<lambda>f.
       drv_bind (matching_nodes L func nodes) (\<lambda>ms.
       drv_return (if f = func then node # ms else ms))))"

definition graph_nodes :: "cuda_lib \<Rightarrow> ptr \<Rightarrow> ptr list drv" where
  "graph_nodes L g = (\<lambda>t.
     let (r, t') = cu_do L (CuGraphGetNodes g True) ''cuGraphGetNodes(fetch)'' t
     in (res_bind r (\<lambda>_. Ok (reply_nodes L t (CuGraphGetNodes g True))), t'))"

definition record_mutable_random_int8 ::
  "cuda_lib \<Rightarrow> captured_graph \<Rightarrow> ptr \<Rightarrow> i32 \<Rightarrow> ptr \<Rightarrow> ptr \<Rightarrow> u32 \<Rightarrow> u32 \<Rightarrow> captured_graph drv" where
  "record_mutable_random_int8 L g func total_bytes seed out grid_x block_x =
     drv_then (cu_do L (CuGraphGetNodes (cg_graph g) False) ''cuGraphGetNodes(count)'')
     (drv_bind (graph_nodes L (cg_graph g)) (\<lambda>nodes.
     drv_bind (matching_nodes L func nodes) (\<lambda>matches.
     case matches of
       [node] \<Rightarrow> drv_return (g\<lparr>cg_random := Some \<lparr>mr_node = node, mr_func = func, mr_grid_x = grid_x,
           mr_block_x = block_x, arg_total_bytes = total_bytes, arg_seed = seed, arg_iter = 0, arg_out = out\<rparr>\<rparr>)
     | _ \<Rightarrow> drv_res (Err (OtherError ''expected exactly 1 random_int8 kernel node in captured graph'')))))"

text \<open>The arguments of the node as \<open>launch_with_iter_idx\<close> sends them.\<close>

definition random_node_params :: "mutable_random \<Rightarrow> launch" where
  "random_node_params m =
     \<lparr>l_func = mr_func m, l_grid = (mr_grid_x m, 1, 1), l_block = (mr_block_x m, 1, 1), l_smem = 0,
      l_args = [ArgI32 (arg_total_bytes m), ArgPtr (arg_seed m), ArgU64 (arg_iter m), ArgPtr (arg_out m)]\<rparr>"

definition launch_with_iter_idx :: "cuda_lib \<Rightarrow> captured_graph \<Rightarrow> ptr \<Rightarrow> u64 \<Rightarrow> captured_graph drv" where
  "launch_with_iter_idx L g stream iter_idx =
     (case cg_random g of
        None \<Rightarrow> drv_then (graph_launch L g stream) (drv_return g)
      | Some m \<Rightarrow> let m' = m\<lparr>arg_iter := iter_idx\<rparr>; g' = g\<lparr>cg_random := Some m'\<rparr> in
          drv_then (cu_do L (CuGraphExecKernelNodeSetParams (cg_exec g) (mr_node m) (random_node_params m'))
                      ''cuGraphExecKernelNodeSetParams_v2(random_int8.iter_idx)'')
            (drv_then (graph_launch L g' stream) (drv_return g')))"

section \<open>Histories of successful calls\<close>

named_theorems drv "evaluation of driver computations"

lemma drv_res_apply [drv]: "drv_res r t = (r, t)"
  by (simp add: drv_res_def)

lemma drv_bind_return [drv]: "drv_bind (drv_return x) f = f x"
  by (simp add: drv_bind_def drv_res_def)

lemma drv_bind_apply: "m t = (Ok x, t') \<Longrightarrow> drv_bind m f t = f x t'"
  by (simp add: drv_bind_def)

text \<open>A driver whose calls all succeed.\<close>

definition all_succeed :: "cuda_lib \<Rightarrow> bool" where
  "all_succeed L \<longleftrightarrow> (\<forall>t c. fst (reply L t c) = CUDA_SUCCESS)"

lemma cu_value_ok: "all_succeed L \<Longrightarrow> cu_value L c name t = (Ok (snd (reply L t c)), t @ [c])"
  by (simp add: cu_value_def all_succeed_def cu_check_def)

lemma cu_do_ok: "all_succeed L \<Longrightarrow> cu_do L c name t = (Ok (), t @ [c])"
  by (simp add: cu_do_def drv_bind_def cu_value_ok drv_res_def)

lemma bind_value_ok [drv]:
  "all_succeed L \<Longrightarrow> drv_bind (cu_value L c name) f t = f (snd (reply L t c)) (t @ [c])"
  by (simp add: drv_bind_def cu_value_ok)

lemma bind_do_ok [drv]: "all_succeed L \<Longrightarrow> drv_bind (cu_do L c name) f t = f () (t @ [c])"
  by (simp add: drv_bind_def cu_do_ok)

lemma bind_host [drv]: "drv_bind (host_call c) f t = f () (t @ [c])"
  by (simp add: drv_bind_def host_call_def)

lemma bind_assert [drv]: "drv_bind (drv_assert c) f t = (if c then f () t else (Panic, t))"
  by (simp add: drv_bind_def drv_assert_def drv_res_def)

text \<open>Every wrapper only appends to the history.\<close>

definition extends :: "'a drv \<Rightarrow> bool" where
  "extends m \<longleftrightarrow> (\<forall>t. \<exists>cs. snd (m t) = t @ cs)"

lemma extends_intros [intro]:
  "extends (drv_res r)" "extends (host_call c)" "extends (cu_value L c name)" "extends (drv_assert b)"
  by (simp_all add: extends_def drv_res_def host_call_def cu_value_def drv_assert_def)

lemma extends_bind [intro]:
  assumes "extends m" and "\<And>x. extends (f x)"
  shows "extends (drv_bind m f)"
  unfolding extends_def
proof
  fix t
  obtain r t' where m: "m t = (r, t')" by fastforce
  obtain cs where cs: "t' = t @ cs" using assms(1) m unfolding extends_def by (metis snd_conv)
  show "\<exists>cs. snd (drv_bind m f t) = t @ cs"
  proof (cases r)
    case (Ok x)
    obtain ds where "snd (f x t') = t' @ ds" using assms(2) unfolding extends_def by blast
    with Ok m cs show ?thesis by (simp add: drv_bind_def)
  qed (use m cs in \<open>simp_all add: drv_bind_def\<close>)
qed

lemma extends_do [intro]: "extends (cu_do L c name)"
  unfolding cu_do_def by (intro extends_bind extends_intros)

end
