(* ===== verification/Kernel_Launch.thy ===== *)
theory Kernel_Launch
  imports Cuda_Driver Noise "HOL-Library.Signed_Division"
begin

text \<open>
  The typed launchers (\<open>src/src/kernels/\<close>) and the kernel names (\<open>src/src/fatbin.rs\<close>). A launcher
  checks its asserts, computes its grid and issues one driver call, or, for the Merkle root, a
  sequence of them. The arguments are listed in the order of the kernel's parameters. Casts to
  \<open>u32\<close> truncate and grid sums wrap, as in a release build. Byte counts are \<open>usize\<close> values: they
  are natural numbers here, and stay below \<open>2 ^ 64\<close> for every shape the miner has.
\<close>

section \<open>Kernel names\<close>

definition COMMITMENT_HASH :: string where "COMMITMENT_HASH = ''pearl_commitment_hash_kernel''"
definition CHUNK_CV_ROOT :: string where "CHUNK_CV_ROOT = ''pearl_chunk_cv_kernel_root''"
definition CHUNK_CV_NOROOT :: string where "CHUNK_CV_NOROOT = ''pearl_chunk_cv_kernel_noroot''"
definition MERKLE_LAYER :: string where "MERKLE_LAYER = ''pearl_merkle_layer_kernel''"
definition NOISE_GEN_DENSE_INT8_R128 :: string where
  "NOISE_GEN_DENSE_INT8_R128 = ''pearl_noise_gen_dense_int8_R128''"
definition NOISE_GEN_DENSE_FP16_R128 :: string where
  "NOISE_GEN_DENSE_FP16_R128 = ''pearl_noise_gen_dense_fp16_R128''"
definition NOISE_GEN_SPARSE_R128 :: string where
  "NOISE_GEN_SPARSE_R128 = ''pearl_noise_gen_sparse_R128''"
definition TRANSPOSE_KR :: string where "TRANSPOSE_KR = ''pearl_transpose_kr_kernel''"
definition POW_SCAN_HITS :: string where "POW_SCAN_HITS = ''pearl_pow_scan_hits_kernel''"
definition POW_EMIT_HEADER :: string where "POW_EMIT_HEADER = ''pearl_pow_emit_header_kernel''"
definition RANDOM_INT8_SEEDED :: string where "RANDOM_INT8_SEEDED = ''pearl_random_int8_seeded_kernel''"
definition NOISING_ADD_GEMM_INT8_SMEM :: string where
  "NOISING_ADD_GEMM_INT8_SMEM = ''_ZN5pearl4sm8012noising_smem35gemm_int8_add_x_to_int8_smem_kernelEiiiPKaS3_S3_Pa''"
definition NOISING_GEMM_INT8_INT32_SMEM :: string where
  "NOISING_GEMM_INT8_INT32_SMEM = ''_ZN5pearl4sm8012noising_smem27gemm_int8_int32_smem_kernelEiiiPKaS3_Pi''"
definition NOISING_INT32_TO_FP16_SCALED :: string where
  "NOISING_INT32_TO_FP16_SCALED = ''_ZN5pearl4sm807noising27int32_to_fp16_scaled_kernelEiPKiP6__halfi''"
definition SEARCH_PIPELINED_R128 :: string where
  "SEARCH_PIPELINED_R128 = ''_ZN5pearl4sm8031search_perthread_smem_pipelined49pearl_gemm_search_perthread_smem_pipelined_kernelILi128EEEviiiPKaS4_PKjS6_PjPhS7_''"
definition TRITON_BLAKE3_COMPARE :: string where
  "TRITON_BLAKE3_COMPARE = ''_ZN5pearl4sm8015triton_postpass21blake3_compare_kernelEPKjS3_S3_PjPhi''"
definition TRITON_PAIRED_EMIT_HEADER :: string where
  "TRITON_PAIRED_EMIT_HEADER = ''_ZN5pearl4sm8013pow_scan_emit36pow_emit_header_triton_paired_kernelEPKjS3_PhS4_iiiiiiiii''"

section \<open>Grids\<close>

text \<open>\<open>(n + block - 1) / block\<close> in \<open>u32\<close>.\<close>

definition grid_for :: "u32 \<Rightarrow> u32 \<Rightarrow> u32" where
  "grid_for n block = (n + block - 1) div block"

text \<open>Division and remainder of two \<open>i32\<close>, by a positive divisor.\<close>

definition i32_div :: "i32 \<Rightarrow> int \<Rightarrow> i32" where "i32_div a d = word_of_int (sint a sdiv d)"
definition i32_rem :: "i32 \<Rightarrow> int \<Rightarrow> i32" where "i32_rem a d = word_of_int (sint a smod d)"

section \<open>Random fill and commitment\<close>

definition BLOCK_X :: u32 where "BLOCK_X = 128"

definition random_int8_new :: "cuda_lib \<Rightarrow> ptr \<Rightarrow> ptr drv" where
  "random_int8_new L module = get_function L module RANDOM_INT8_SEEDED"

definition random_grid_x :: "i32 \<Rightarrow> u32" where
  "random_grid_x total_bytes = grid_for (i32_div total_bytes 32) BLOCK_X"

definition random_int8_launch :: "cuda_lib \<Rightarrow> ptr \<Rightarrow> i32 \<Rightarrow> ptr \<Rightarrow> u64 \<Rightarrow> ptr \<Rightarrow> ptr \<Rightarrow> unit drv" where
  "random_int8_launch L kern total_bytes seed iter_idx out stream =
     drv_then (drv_assert (sint total_bytes > 0 \<and> i32_rem total_bytes 32 = 0))
       (launch_kernel L kern (random_grid_x total_bytes, 1, 1) (BLOCK_X, 1, 1) 0 stream
          [ArgI32 total_bytes, ArgPtr seed, ArgU64 iter_idx, ArgPtr out])"

definition commitment_hash_new :: "cuda_lib \<Rightarrow> ptr \<Rightarrow> ptr drv" where
  "commitment_hash_new L module = get_function L module COMMITMENT_HASH"

definition commitment_hash_launch :: "cuda_lib \<Rightarrow> ptr \<Rightarrow> ptr \<Rightarrow> ptr \<Rightarrow> ptr \<Rightarrow> ptr \<Rightarrow> ptr \<Rightarrow> ptr \<Rightarrow> unit drv" where
  "commitment_hash_launch L kern a_root b_root key a_commit b_commit stream =
     launch_kernel L kern (1, 1, 1) (1, 1, 1) 0 stream
       [ArgPtr a_root, ArgPtr b_root, ArgPtr key, ArgPtr a_commit, ArgPtr b_commit]"

section \<open>Merkle root\<close>

definition OUT_LEN_U32 :: nat where "OUT_LEN_U32 = 8"
definition TH_CHUNK_LEN :: nat where "TH_CHUNK_LEN = 1024"

record tensor_hash =
  chunk_cv_root :: ptr
  chunk_cv_noroot :: ptr
  merkle_layer_fn :: ptr
  th_scratch :: dev_buf
  scratch_u32_capacity :: nat

definition tensor_hash_new :: "cuda_lib \<Rightarrow> ptr \<Rightarrow> nat \<Rightarrow> tensor_hash drv" where
  "tensor_hash_new L module max_bytes =
     (let max_chunks = (max_bytes + TH_CHUNK_LEN - 1) div TH_CHUNK_LEN;
          scratch_u32 = max (2 * max_chunks * OUT_LEN_U32) 16
      in drv_bind (dev_alloc L (scratch_u32 * 4)) (\<lambda>scratch.
         drv_bind (get_function L module CHUNK_CV_ROOT) (\<lambda>root.
         drv_bind (get_function L module CHUNK_CV_NOROOT) (\<lambda>noroot.
         drv_bind (get_function L module MERKLE_LAYER) (\<lambda>layer.
         drv_return \<lparr>chunk_cv_root = root, chunk_cv_noroot = noroot, merkle_layer_fn = layer,
            th_scratch = scratch, scratch_u32_capacity = scratch_u32\<rparr>)))))"

text \<open>The ping-pong loop: a layer of \<open>size\<close> nodes is halved, an orphan carried along, until at most
  two nodes are left; the buffers change roles at every turn.\<close>

function merkle_layers :: "cuda_lib \<Rightarrow> ptr \<Rightarrow> ptr \<Rightarrow> ptr \<Rightarrow> ptr \<Rightarrow> ptr \<Rightarrow> nat \<Rightarrow> (ptr \<times> ptr) drv" where
  "merkle_layers L layer key stream in_buf out_buf n =
     (if n > 2 then
        let num_pairs = n div 2; has_orphan = n mod 2; total_threads = num_pairs + has_orphan in
        drv_then (launch_kernel L layer (grid_for (of_nat total_threads) 128, 1, 1) (128, 1, 1) 0 stream
            [ArgPtr in_buf, ArgI32 (of_nat n), ArgPtr key, ArgU8 0, ArgPtr out_buf])
          (merkle_layers L layer key stream out_buf in_buf (num_pairs + has_orphan))
      else drv_return (in_buf, out_buf))"
  by pat_completeness auto
termination by (relation "measure (\<lambda>(_, _, _, _, _, _, n). n)") auto

definition tensor_hash_launch :: "cuda_lib \<Rightarrow> tensor_hash \<Rightarrow> ptr \<Rightarrow> nat \<Rightarrow> ptr \<Rightarrow> ptr \<Rightarrow> ptr \<Rightarrow> unit drv" where
  "tensor_hash_launch L th data data_len key out stream =
     drv_then (drv_assert (data_len > 0 \<and> data_len mod TH_CHUNK_LEN = 0))
     (let num_chunks = data_len div TH_CHUNK_LEN;
          needed_u32 = 2 * num_chunks * OUT_LEN_U32;
          buf_a = buf_ptr (th_scratch th);
          buf_b = buf_a + of_nat num_chunks * of_nat OUT_LEN_U32 * 4
      in drv_then (drv_assert (needed_u32 \<le> scratch_u32_capacity th))
      (if num_chunks = 1 then
         drv_then (launch_kernel L (chunk_cv_root th) (1, 1, 1) (1, 1, 1) 0 stream
             [ArgPtr data, ArgI32 (of_nat num_chunks), ArgPtr key, ArgPtr buf_a])
           (cu_do L (CuMemcpyDtoDAsync out buf_a 32 stream) ''cuMemcpyDtoDAsync(out<-bufA)'')
       else
         drv_then (launch_kernel L (chunk_cv_noroot th) (grid_for (of_nat num_chunks) 128, 1, 1) (128, 1, 1) 0 stream
             [ArgPtr data, ArgI32 (of_nat num_chunks), ArgPtr key, ArgPtr buf_a])
         (drv_bind (merkle_layers L (merkle_layer_fn th) key stream buf_a buf_b num_chunks) (\<lambda>(in_buf, out_buf).
          drv_then (launch_kernel L (merkle_layer_fn th) (1, 1, 1) (32, 1, 1) 0 stream
              [ArgPtr in_buf, ArgI32 2, ArgPtr key, ArgU8 1, ArgPtr out_buf])
            (cu_do L (CuMemcpyDtoDAsync out out_buf 32 stream) ''cuMemcpyDtoDAsync(out<-merkle_root)'')))))"

section \<open>Noise\<close>

record noise_gen =
  dense_int8 :: ptr
  dense_fp16 :: ptr
  sparse :: ptr
  transpose_fn :: ptr

definition noise_gen_new :: "cuda_lib \<Rightarrow> ptr \<Rightarrow> noise_gen drv" where
  "noise_gen_new L module =
     drv_bind (get_function L module NOISE_GEN_DENSE_INT8_R128) (\<lambda>d.
     drv_bind (get_function L module NOISE_GEN_DENSE_FP16_R128) (\<lambda>f.
     drv_bind (get_function L module NOISE_GEN_SPARSE_R128) (\<lambda>s.
     drv_bind (get_function L module TRANSPOSE_KR) (\<lambda>tr.
     drv_return \<lparr>dense_int8 = d, dense_fp16 = f, sparse = s, transpose_fn = tr\<rparr>))))"

text \<open>\<open>(rows as usize * R) / 32\<close>, cut to \<open>u32\<close>.\<close>

definition dense_chunks :: "i32 \<Rightarrow> u32" where
  "dense_chunks rows = ucast ((scast rows * of_nat R_RANK :: u64) div 32)"

definition launch_dense_int8 :: "cuda_lib \<Rightarrow> noise_gen \<Rightarrow> i32 \<Rightarrow> ptr \<Rightarrow> ptr \<Rightarrow> ptr \<Rightarrow> ptr \<Rightarrow> unit drv" where
  "launch_dense_int8 L ng rows key seed out stream =
     launch_kernel L (dense_int8 ng) (grid_for (dense_chunks rows) 128, 1, 1) (128, 1, 1) 0 stream
       [ArgI32 rows, ArgPtr key, ArgPtr seed, ArgPtr out]"

definition launch_dense_fp16 :: "cuda_lib \<Rightarrow> noise_gen \<Rightarrow> i32 \<Rightarrow> ptr \<Rightarrow> ptr \<Rightarrow> i32 \<Rightarrow> ptr \<Rightarrow> ptr \<Rightarrow> unit drv" where
  "launch_dense_fp16 L ng rows key seed scale_factor out stream =
     launch_kernel L (dense_fp16 ng) (grid_for (dense_chunks rows) 128, 1, 1) (128, 1, 1) 0 stream
       [ArgI32 rows, ArgPtr key, ArgPtr seed, ArgI32 scale_factor, ArgPtr out]"

definition launch_sparse :: "cuda_lib \<Rightarrow> noise_gen \<Rightarrow> i32 \<Rightarrow> ptr \<Rightarrow> ptr \<Rightarrow> ptr \<Rightarrow> ptr \<Rightarrow> unit drv" where
  "launch_sparse L ng k key seed out_r_major stream =
     launch_kernel L (sparse ng) (grid_for (ucast ((scast k + 7 :: u64) div 8)) 128, 1, 1) (128, 1, 1) 0 stream
       [ArgI32 k, ArgPtr key, ArgPtr seed, ArgPtr out_r_major]"

definition launch_transpose :: "cuda_lib \<Rightarrow> noise_gen \<Rightarrow> i32 \<Rightarrow> i32 \<Rightarrow> ptr \<Rightarrow> ptr \<Rightarrow> ptr \<Rightarrow> unit drv" where
  "launch_transpose L ng k r src_kr dst_rk stream =
     launch_kernel L (transpose_fn ng) (grid_for k 16, grid_for r 16, 1) (16, 16, 1) 0 stream
       [ArgI32 k, ArgI32 r, ArgPtr src_kr, ArgPtr dst_rk]"

section \<open>Noisy product, search, scan\<close>

definition LAUNCH_TILE :: int where "LAUNCH_TILE = 128"
definition CTA_THREADS :: u32 where "CTA_THREADS = 256"

record noisy_gemm =
  add_gemm :: ptr
  gemm_int32 :: ptr
  int32_to_fp16 :: ptr

definition noisy_gemm_new :: "cuda_lib \<Rightarrow> ptr \<Rightarrow> noisy_gemm drv" where
  "noisy_gemm_new L module =
     drv_bind (get_function L module NOISING_ADD_GEMM_INT8_SMEM) (\<lambda>a.
     drv_bind (get_function L module NOISING_GEMM_INT8_INT32_SMEM) (\<lambda>g.
     drv_bind (get_function L module NOISING_INT32_TO_FP16_SCALED) (\<lambda>f.
     drv_return \<lparr>add_gemm = a, gemm_int32 = g, int32_to_fp16 = f\<rparr>)))"

definition launch_add_gemm ::
  "cuda_lib \<Rightarrow> noisy_gemm \<Rightarrow> i32 \<Rightarrow> i32 \<Rightarrow> i32 \<Rightarrow> ptr \<Rightarrow> ptr \<Rightarrow> ptr \<Rightarrow> ptr \<Rightarrow> ptr \<Rightarrow> unit drv" where
  "launch_add_gemm L g m n k_inner x y z out stream =
     drv_then (drv_assert (i32_rem m LAUNCH_TILE = 0 \<and> i32_rem n LAUNCH_TILE = 0))
       (launch_kernel L (add_gemm g) (i32_div n LAUNCH_TILE, i32_div m LAUNCH_TILE, 1) (CTA_THREADS, 1, 1) 0 stream
          [ArgI32 m, ArgI32 n, ArgI32 k_inner, ArgPtr x, ArgPtr y, ArgPtr z, ArgPtr out])"

definition launch_gemm_int32 ::
  "cuda_lib \<Rightarrow> noisy_gemm \<Rightarrow> i32 \<Rightarrow> i32 \<Rightarrow> i32 \<Rightarrow> ptr \<Rightarrow> ptr \<Rightarrow> ptr \<Rightarrow> ptr \<Rightarrow> unit drv" where
  "launch_gemm_int32 L g m n k a b c stream =
     drv_then (drv_assert (i32_rem m LAUNCH_TILE = 0 \<and> i32_rem n LAUNCH_TILE = 0))
       (launch_kernel L (gemm_int32 g) (i32_div n LAUNCH_TILE, i32_div m LAUNCH_TILE, 1) (CTA_THREADS, 1, 1) 0 stream
          [ArgI32 m, ArgI32 n, ArgI32 k, ArgPtr a, ArgPtr b, ArgPtr c])"

definition launch_int32_to_fp16 :: "cuda_lib \<Rightarrow> noisy_gemm \<Rightarrow> i32 \<Rightarrow> ptr \<Rightarrow> ptr \<Rightarrow> i32 \<Rightarrow> ptr \<Rightarrow> unit drv" where
  "launch_int32_to_fp16 L g n src dst scale_power stream =
     launch_kernel L (int32_to_fp16 g) (grid_for n 256, 1, 1) (256, 1, 1) 0 stream
       [ArgI32 n, ArgPtr src, ArgPtr dst, ArgI32 scale_power]"

definition SMEM_BYTES :: u32 where "SMEM_BYTES = 3 * 128 * 128 + 3 * 128 * 128"

definition search_new :: "cuda_lib \<Rightarrow> ptr \<Rightarrow> ptr drv" where
  "search_new L module =
     drv_bind (get_function L module SEARCH_PIPELINED_R128) (\<lambda>kern.
     drv_then (cu_do L (CuFuncSetAttribute kern SMEM_BYTES) ''cuFuncSetAttribute(MAX_DYNAMIC_SHARED_SIZE_BYTES)'')
       (drv_return kern))"

definition search_launch_r128 ::
  "cuda_lib \<Rightarrow> ptr \<Rightarrow> i32 \<Rightarrow> i32 \<Rightarrow> i32 \<Rightarrow> ptr \<Rightarrow> ptr \<Rightarrow> ptr \<Rightarrow> ptr \<Rightarrow> ptr \<Rightarrow> ptr \<Rightarrow> ptr \<Rightarrow> ptr \<Rightarrow> unit drv" where
  "search_launch_r128 L kern m n k ap_ea bp_eb pow_key pow_target hash_pt hit_pt transcript_pt stream =
     drv_then (drv_assert (i32_rem m LAUNCH_TILE = 0 \<and> i32_rem n LAUNCH_TILE = 0))
       (launch_kernel L kern (i32_div n LAUNCH_TILE, i32_div m LAUNCH_TILE, 1) (CTA_THREADS, 1, 1) SMEM_BYTES stream
          [ArgI32 m, ArgI32 n, ArgI32 k, ArgPtr ap_ea, ArgPtr bp_eb, ArgPtr pow_key, ArgPtr pow_target,
           ArgPtr hash_pt, ArgPtr hit_pt, ArgPtr transcript_pt])"

record pow_scan_emit =
  scan_fn :: ptr
  emit_fn :: ptr

definition pow_scan_emit_new :: "cuda_lib \<Rightarrow> ptr \<Rightarrow> pow_scan_emit drv" where
  "pow_scan_emit_new L module =
     drv_bind (get_function L module POW_SCAN_HITS) (\<lambda>s.
     drv_bind (get_function L module POW_EMIT_HEADER) (\<lambda>e.
     drv_return \<lparr>scan_fn = s, emit_fn = e\<rparr>))"

definition launch_scan :: "cuda_lib \<Rightarrow> ptr \<Rightarrow> ptr \<Rightarrow> i32 \<Rightarrow> ptr \<Rightarrow> ptr \<Rightarrow> unit drv" where
  "launch_scan L scan d_hit n g_first_hit_idx stream =
     launch_kernel L scan (grid_for n 256, 1, 1) (256, 1, 1) 0 stream
       [ArgPtr d_hit, ArgI32 n, ArgPtr g_first_hit_idx]"

definition launch_emit ::
  "cuda_lib \<Rightarrow> pow_scan_emit \<Rightarrow> ptr \<Rightarrow> ptr \<Rightarrow> ptr \<Rightarrow> ptr \<Rightarrow> i32 \<Rightarrow> i32 \<Rightarrow> i32 \<Rightarrow> i32 \<Rightarrow> i32 \<Rightarrow> i32 \<Rightarrow> ptr \<Rightarrow> unit drv" where
  "launch_emit L pse g_first_hit_idx pow_target pinned_header pinned_sync num_tile_m num_tile_n
       threads_per_tile m n k stream =
     launch_kernel L (emit_fn pse) (1, 1, 1) (1, 1, 1) 0 stream
       [ArgPtr g_first_hit_idx, ArgPtr pow_target, ArgPtr pinned_header, ArgPtr pinned_sync,
        ArgI32 num_tile_m, ArgI32 num_tile_n, ArgI32 threads_per_tile, ArgI32 m, ArgI32 n, ArgI32 k]"

section \<open>The Triton path\<close>

text \<open>The PTX texts are build artefacts: the parameter \<open>ptx\<close> holds one per kernel and architecture.\<close>

record ptx =
  noising_sm86 :: bytes
  noising_sm89 :: bytes
  noising_sm120 :: bytes
  search_sm86 :: bytes
  search_sm89 :: bytes
  search_sm120 :: bytes

definition pick_ptx :: "i32 \<Rightarrow> i32 \<Rightarrow> bytes \<Rightarrow> bytes \<Rightarrow> bytes \<Rightarrow> bytes" where
  "pick_ptx cc_major cc_minor sm86 sm89 sm120 =
     (let cc = sint (cc_major * 10 + cc_minor) in
      if cc \<ge> 120 then
        if sm120 \<noteq> [] then sm120 else if sm89 \<noteq> [] then sm89 else sm86
      else if cc \<ge> 89 then
        if sm89 \<noteq> [] then sm89 else sm86
      else sm86)"

definition null_terminate :: "bytes \<Rightarrow> bytes" where
  "null_terminate blob = blob @ [0]"

definition noising_ptx :: "ptx \<Rightarrow> i32 \<Rightarrow> i32 \<Rightarrow> bytes" where
  "noising_ptx p cc_major cc_minor =
     null_terminate (pick_ptx cc_major cc_minor (noising_sm86 p) (noising_sm89 p) (noising_sm120 p))"

definition search_norotl_ptx :: "ptx \<Rightarrow> i32 \<Rightarrow> i32 \<Rightarrow> bytes" where
  "search_norotl_ptx p cc_major cc_minor =
     null_terminate (pick_ptx cc_major cc_minor (search_sm86 p) (search_sm89 p) (search_sm120 p))"

definition NOISING_KERNEL_NAME :: string where "NOISING_KERNEL_NAME = ''_noising_kernel''"
definition SEARCH_NOROTL_KERNEL_NAME :: string where "SEARCH_NOROTL_KERNEL_NAME = ''_pearl_search_norotl_kernel''"
definition NOISING_BLOCK_X :: u32 where "NOISING_BLOCK_X = 128"
definition SEARCH_NOROTL_BLOCK_X :: u32 where "SEARCH_NOROTL_BLOCK_X = 128"
definition NOISING_SHARED_BYTES :: u32 where "NOISING_SHARED_BYTES = 49152"
definition SEARCH_NOROTL_SHARED_BYTES :: u32 where "SEARCH_NOROTL_SHARED_BYTES = 33792"
definition BLOCK_M :: nat where "BLOCK_M = 128"
definition BLOCK_N :: nat where "BLOCK_N = 128"
definition HASH_CANDIDATES :: nat where "HASH_CANDIDATES = 64"
definition JACKPOT_SIZE :: nat where "JACKPOT_SIZE = 16"
definition NOISING_BLOCK_M :: nat where "NOISING_BLOCK_M = 128"
definition NOISING_BLOCK_N :: nat where "NOISING_BLOCK_N = 64"

definition triton_noising_new :: "cuda_lib \<Rightarrow> ptr \<Rightarrow> ptr drv" where
  "triton_noising_new L module =
     drv_bind (get_function L module NOISING_KERNEL_NAME) (\<lambda>f.
     drv_then (cu_do L (CuFuncSetAttribute f NOISING_SHARED_BYTES) ''cuFuncSetAttribute(noising max smem)'')
       (drv_return f))"

definition triton_noising_launch ::
  "cuda_lib \<Rightarrow> ptr \<Rightarrow> i32 \<Rightarrow> i32 \<Rightarrow> i32 \<Rightarrow> ptr \<Rightarrow> ptr \<Rightarrow> ptr \<Rightarrow> ptr \<Rightarrow> ptr \<Rightarrow> unit drv" where
  "triton_noising_launch L f m n k_inner x y z out stream =
     launch_kernel L f
       (grid_for m (of_nat NOISING_BLOCK_M) * grid_for n (of_nat NOISING_BLOCK_N), 1, 1)
       (NOISING_BLOCK_X, 1, 1) NOISING_SHARED_BYTES stream
       [ArgPtr x, ArgPtr y, ArgPtr z, ArgPtr out, ArgI32 m, ArgI32 n, ArgI32 k_inner,
        ArgI32 n, ArgI32 k_inner, ArgI32 k_inner, ArgI32 n]"

definition triton_search_new :: "cuda_lib \<Rightarrow> ptr \<Rightarrow> ptr drv" where
  "triton_search_new L module =
     drv_bind (get_function L module SEARCH_NOROTL_KERNEL_NAME) (\<lambda>f.
     drv_then (cu_do L (CuFuncSetAttribute f SEARCH_NOROTL_SHARED_BYTES) ''cuFuncSetAttribute(search_norotl max smem)'')
       (drv_return f))"

definition triton_search_launch ::
  "cuda_lib \<Rightarrow> ptr \<Rightarrow> i32 \<Rightarrow> i32 \<Rightarrow> i32 \<Rightarrow> ptr \<Rightarrow> ptr \<Rightarrow> ptr \<Rightarrow> ptr \<Rightarrow> unit drv" where
  "triton_search_launch L f m n k ap_ea bp_eb transcripts stream =
     launch_kernel L f (grid_for m (of_nat BLOCK_M) * grid_for n (of_nat BLOCK_N), 1, 1)
       (SEARCH_NOROTL_BLOCK_X, 1, 1) SEARCH_NOROTL_SHARED_BYTES stream
       [ArgPtr ap_ea, ArgPtr bp_eb, ArgPtr transcripts, ArgI32 m, ArgI32 n, ArgI32 k, ArgI32 k, ArgI32 k]"

record triton_postpass =
  blake3_compare :: ptr
  paired_emit :: ptr
  scan_hits :: ptr

definition triton_postpass_new :: "cuda_lib \<Rightarrow> ptr \<Rightarrow> triton_postpass drv" where
  "triton_postpass_new L module =
     drv_bind (get_function L module TRITON_BLAKE3_COMPARE) (\<lambda>b.
     drv_bind (get_function L module TRITON_PAIRED_EMIT_HEADER) (\<lambda>e.
     drv_bind (get_function L module POW_SCAN_HITS) (\<lambda>s.
     drv_return \<lparr>blake3_compare = b, paired_emit = e, scan_hits = s\<rparr>)))"

definition launch_blake3_compare ::
  "cuda_lib \<Rightarrow> triton_postpass \<Rightarrow> ptr \<Rightarrow> ptr \<Rightarrow> ptr \<Rightarrow> ptr \<Rightarrow> ptr \<Rightarrow> i32 \<Rightarrow> ptr \<Rightarrow> unit drv" where
  "launch_blake3_compare L tp transcripts pow_key pow_target d_hash d_hit total_candidates stream =
     launch_kernel L (blake3_compare tp) (grid_for total_candidates 256, 1, 1) (256, 1, 1) 0 stream
       [ArgPtr transcripts, ArgPtr pow_key, ArgPtr pow_target, ArgPtr d_hash, ArgPtr d_hit, ArgI32 total_candidates]"

definition launch_paired_emit ::
  "cuda_lib \<Rightarrow> triton_postpass \<Rightarrow> ptr \<Rightarrow> ptr \<Rightarrow> ptr \<Rightarrow> i32 \<Rightarrow> i32 \<Rightarrow> i32 \<Rightarrow> i32 \<Rightarrow> i32 \<Rightarrow> i32 \<Rightarrow> i32 \<Rightarrow> i32 \<Rightarrow> i32 \<Rightarrow> ptr \<Rightarrow> unit drv" where
  "launch_paired_emit L tp g_first_hit_idx pow_target pinned_header num_tile_m num_tile_n hash_candidates
       m n k block_m block_n block_k stream =
     launch_kernel L (paired_emit tp) (1, 1, 1) (1, 1, 1) 0 stream
       [ArgPtr g_first_hit_idx, ArgPtr pow_target, ArgPtr pinned_header, ArgPtr 0,
        ArgI32 num_tile_m, ArgI32 num_tile_n, ArgI32 hash_candidates, ArgI32 m, ArgI32 n, ArgI32 k,
        ArgI32 block_m, ArgI32 block_n, ArgI32 block_k]"

end
