(* ===== verification/Miner_Bufs.thy ===== *)
theory Miner_Bufs
  imports Kernel_Launch
begin

text \<open>
  The per-device state of the miner and its iteration (\<open>src/src/miner_bufs.rs\<close>): the shapes, the
  allocation of every buffer, the refresh at a new job, the eager iteration and the captured one.
  \<open>MinerBufs\<close> is one record; its fields are grouped as the sections of the struct group them
  (ring, per-job, shared, kernel handles).
\<close>

section \<open>Shapes\<close>

definition HOST_SIGNAL_HEADER_SIZE :: nat where "HOST_SIGNAL_HEADER_SIZE = 1024"
definition TILE_M :: nat where "TILE_M = 128"
definition TILE_N :: nat where "TILE_N = 128"
definition THREADS_PER_TILE :: nat where "THREADS_PER_TILE = 256"
definition NOISE_RANK :: nat where "NOISE_RANK = 128"

datatype mining_path = CppSearch | TritonNorotl

record bufs_config =
  cfg_m :: nat
  cfg_n :: nat
  cfg_k :: nat
  cfg_r :: nat
  cfg_ring_size :: nat
  cfg_path :: mining_path

definition mk_config :: "nat \<Rightarrow> nat \<Rightarrow> nat \<Rightarrow> mining_path \<Rightarrow> bufs_config" where
  "mk_config m n k path = \<lparr>cfg_m = m, cfg_n = n, cfg_k = k, cfg_r = 128, cfg_ring_size = 8, cfg_path = path\<rparr>"

definition production :: bufs_config where "production = mk_config 2048 28672 4096 CppSearch"
definition shape_default :: bufs_config where "shape_default = mk_config 8192 32768 2048 TritonNorotl"
definition shape_big_m :: bufs_config where "shape_big_m = mk_config 16384 32768 2048 TritonNorotl"
definition shape_huge_m :: bufs_config where "shape_huge_m = mk_config 32768 32768 2048 TritonNorotl"
definition shape_big_mn :: bufs_config where "shape_big_mn = mk_config 16384 65536 2048 TritonNorotl"
definition shape_giga :: bufs_config where "shape_giga = mk_config 32768 65536 2048 TritonNorotl"
definition shape_49k_n :: bufs_config where "shape_49k_n = mk_config 49152 49152 2048 TritonNorotl"
definition shape_49k_m :: bufs_config where "shape_49k_m = mk_config 49152 32768 2048 TritonNorotl"

section \<open>Buffers\<close>

record ring_bufs =
  a_pool :: "dev_buf list"
  a_tensor_hash_pool :: "dev_buf list"
  commit_a_pool :: "dev_buf list"
  commit_b_pool :: "dev_buf list"
  host_signal_header_pool :: "pinned_buf list"
  a_snapshot_pool :: "pinned_buf list"
  commit_a_snapshot_pool :: "pinned_buf list"
  commit_b_snapshot_pool :: "pinned_buf list"

record job_bufs =
  b_buf :: dev_buf
  b_tensor_hash :: dev_buf
  key_tensor :: dev_buf
  pow_target_tensor :: dev_buf
  b_pinned :: pinned_buf
  seed_tensor :: dev_buf

record shared_bufs =
  a_scales :: dev_buf
  b_scales :: dev_buf
  eal :: dev_buf
  ebr :: dev_buf
  ear_r_major :: dev_buf
  ebl_r_major :: dev_buf
  ear_k_major :: dev_buf
  ebl_k_major :: dev_buf
  eal_fp16 :: dev_buf
  ebr_fp16 :: dev_buf
  bp_eb :: dev_buf
  earx_bp_eb :: dev_buf
  ap_ea :: dev_buf
  a_e_bl :: dev_buf
  pow_workspace_hit :: dev_buf
  pow_workspace_hash :: dev_buf
  pow_workspace_scan :: dev_buf
  seed_label_a :: dev_buf
  seed_label_b :: dev_buf

record kernel_handles =
  h_random :: ptr
  h_tensor_hash :: tensor_hash
  h_commitment :: ptr
  h_noise :: noise_gen
  h_gemm :: noisy_gemm
  h_search :: ptr
  h_scan_emit :: pow_scan_emit

record triton_path =
  tri_noising :: ptr
  tri_search :: ptr
  tri_postpass :: triton_postpass
  transcripts :: dev_buf
  num_triton_tile_m :: i32
  num_triton_tile_n :: i32

record miner_bufs =
  mb_m :: nat
  mb_n :: nat
  mb_k :: nat
  mb_r :: nat
  ring_size :: nat
  num_tiles :: nat
  rings :: ring_bufs
  jobs :: job_bufs
  shared :: shared_bufs
  handles :: kernel_handles
  triton :: "triton_path option"
  cached_header :: "bytes option"

definition query_current_device_cc :: "cuda_lib \<Rightarrow> (i32 \<times> i32) drv" where
  "query_current_device_cc L =
     drv_bind (cu_value L CuCtxGetDevice ''cuCtxGetDevice'') (compute_capability L)"

definition mk_dev_ring :: "cuda_lib \<Rightarrow> nat \<Rightarrow> nat \<Rightarrow> dev_buf list drv" where
  "mk_dev_ring L n bytes = drv_map (\<lambda>_. dev_alloc L bytes) [0..<n]"

definition mk_host_ring :: "cuda_lib \<Rightarrow> nat \<Rightarrow> nat \<Rightarrow> pinned_buf list drv" where
  "mk_host_ring L n bytes = drv_map (\<lambda>_. pinned_alloc L bytes) [0..<n]"

definition alloc_rings :: "cuda_lib \<Rightarrow> bufs_config \<Rightarrow> ring_bufs drv" where
  "alloc_rings L cfg =
     (let n = cfg_ring_size cfg; mk = cfg_m cfg * cfg_k cfg in
      drv_bind (mk_dev_ring L n mk) (\<lambda>a.
      drv_bind (mk_dev_ring L n 32) (\<lambda>h.
      drv_bind (mk_dev_ring L n 32) (\<lambda>ca.
      drv_bind (mk_dev_ring L n 32) (\<lambda>cb.
      drv_bind (mk_host_ring L n HOST_SIGNAL_HEADER_SIZE) (\<lambda>hdr.
      drv_bind (mk_host_ring L n mk) (\<lambda>sa.
      drv_bind (mk_host_ring L n 32) (\<lambda>sca.
      drv_bind (mk_host_ring L n 32) (\<lambda>scb.
      drv_return \<lparr>a_pool = a, a_tensor_hash_pool = h, commit_a_pool = ca, commit_b_pool = cb,
        host_signal_header_pool = hdr, a_snapshot_pool = sa, commit_a_snapshot_pool = sca,
        commit_b_snapshot_pool = scb\<rparr>)))))))))"

definition alloc_job :: "cuda_lib \<Rightarrow> bufs_config \<Rightarrow> job_bufs drv" where
  "alloc_job L cfg =
     (let nk = cfg_n cfg * cfg_k cfg in
      drv_bind (dev_alloc L nk) (\<lambda>b.
      drv_bind (dev_alloc L 32) (\<lambda>bh.
      drv_bind (dev_alloc L 32) (\<lambda>key.
      drv_bind (dev_alloc L 32) (\<lambda>tgt.
      drv_bind (pinned_alloc L nk) (\<lambda>bp.
      drv_bind (dev_alloc L 32) (\<lambda>seed.
      drv_return \<lparr>b_buf = b, b_tensor_hash = bh, key_tensor = key, pow_target_tensor = tgt,
        b_pinned = bp, seed_tensor = seed\<rparr>)))))))"

definition max_hashes_per_tile :: "mining_path \<Rightarrow> nat" where
  "max_hashes_per_tile path = (case path of CppSearch \<Rightarrow> THREADS_PER_TILE | TritonNorotl \<Rightarrow> HASH_CANDIDATES)"

definition cfg_tiles :: "bufs_config \<Rightarrow> nat" where
  "cfg_tiles cfg = (cfg_m cfg div TILE_M) * (cfg_n cfg div TILE_N)"

definition alloc_shared :: "cuda_lib \<Rightarrow> bufs_config \<Rightarrow> shared_bufs drv" where
  "alloc_shared L cfg =
     (let m = cfg_m cfg; n = cfg_n cfg; k = cfg_k cfg; r = cfg_r cfg;
          hashes = cfg_tiles cfg * max_hashes_per_tile (cfg_path cfg) in
      drv_bind (dev_alloc L (m * 4)) (\<lambda>sa.
      drv_bind (dev_alloc L (n * 4)) (\<lambda>sb.
      drv_bind (dev_alloc L (m * r)) (\<lambda>v_eal.
      drv_bind (dev_alloc L (n * r)) (\<lambda>v_ebr.
      drv_bind (dev_alloc L (k * r)) (\<lambda>v_ear_r.
      drv_bind (dev_alloc L (k * r)) (\<lambda>v_ebl_r.
      drv_bind (dev_alloc L (r * k)) (\<lambda>v_ear_k.
      drv_bind (dev_alloc L (r * k)) (\<lambda>v_ebl_k.
      drv_bind (dev_alloc L (m * r * 2)) (\<lambda>v_eal16.
      drv_bind (dev_alloc L (n * r * 2)) (\<lambda>v_ebr16.
      drv_bind (dev_alloc L (n * k)) (\<lambda>v_bp.
      drv_bind (dev_alloc L (n * r * 2)) (\<lambda>v_earx.
      drv_bind (dev_alloc L (m * k)) (\<lambda>v_ap.
      drv_bind (dev_alloc L (m * r * 2)) (\<lambda>v_ae.
      drv_bind (dev_alloc L hashes) (\<lambda>w_hit.
      drv_bind (dev_alloc L (hashes * 8 * 4)) (\<lambda>w_hash.
      drv_bind (dev_alloc L 4) (\<lambda>w_scan.
      drv_bind (dev_alloc L 32) (\<lambda>la.
      drv_bind (dev_alloc L 32) (\<lambda>lb.
      drv_then (dev_copy_from L la (copy_into 0 (map of_char ''A_tensor'') (replicate 32 0)))
      (drv_then (dev_copy_from L lb (copy_into 0 (map of_char ''B_tensor'') (replicate 32 0)))
      (drv_return \<lparr>a_scales = sa, b_scales = sb, eal = v_eal, ebr = v_ebr, ear_r_major = v_ear_r,
         ebl_r_major = v_ebl_r, ear_k_major = v_ear_k, ebl_k_major = v_ebl_k, eal_fp16 = v_eal16,
         ebr_fp16 = v_ebr16, bp_eb = v_bp, earx_bp_eb = v_earx, ap_ea = v_ap, a_e_bl = v_ae,
         pow_workspace_hit = w_hit, pow_workspace_hash = w_hash, pow_workspace_scan = w_scan,
         seed_label_a = la, seed_label_b = lb\<rparr>))))))))))))))))))))))"

definition load_handles :: "cuda_lib \<Rightarrow> ptr \<Rightarrow> bufs_config \<Rightarrow> kernel_handles drv" where
  "load_handles L module cfg =
     drv_bind (random_int8_new L module) (\<lambda>rnd.
     drv_bind (tensor_hash_new L module (cfg_n cfg * cfg_k cfg)) (\<lambda>th.
     drv_bind (commitment_hash_new L module) (\<lambda>ch.
     drv_bind (noise_gen_new L module) (\<lambda>ng.
     drv_bind (noisy_gemm_new L module) (\<lambda>gm.
     drv_bind (search_new L module) (\<lambda>se.
     drv_bind (pow_scan_emit_new L module) (\<lambda>ps.
     drv_return \<lparr>h_random = rnd, h_tensor_hash = th, h_commitment = ch, h_noise = ng, h_gemm = gm,
       h_search = se, h_scan_emit = ps\<rparr>)))))))"

definition load_triton :: "cuda_lib \<Rightarrow> ptx \<Rightarrow> ptr \<Rightarrow> bufs_config \<Rightarrow> triton_path option drv" where
  "load_triton L p module cfg =
     (case cfg_path cfg of
        CppSearch \<Rightarrow> drv_return None
      | TritonNorotl \<Rightarrow>
          drv_then (drv_assert (cfg_k cfg div cfg_r cfg = JACKPOT_SIZE))
          (drv_bind (query_current_device_cc L) (\<lambda>(cc_maj, cc_min).
          drv_bind (load_data L (noising_ptx p cc_maj cc_min)) (\<lambda>noising_mod.
          drv_bind (load_data L (search_norotl_ptx p cc_maj cc_min)) (\<lambda>search_mod.
          drv_bind (triton_noising_new L noising_mod) (\<lambda>noising.
          drv_bind (triton_search_new L search_mod) (\<lambda>search_tri.
          drv_bind (triton_postpass_new L module) (\<lambda>postpass.
          let tm = cfg_m cfg div BLOCK_M; tn = cfg_n cfg div BLOCK_N in
          drv_bind (dev_alloc L (tm * tn * HASH_CANDIDATES * JACKPOT_SIZE * 4)) (\<lambda>tr.
          drv_return (Some \<lparr>tri_noising = noising, tri_search = search_tri, tri_postpass = postpass,
             transcripts = tr, num_triton_tile_m = of_nat tm, num_triton_tile_n = of_nat tn\<rparr>))))))))))"

definition miner_bufs_new :: "cuda_lib \<Rightarrow> ptx \<Rightarrow> ptr \<Rightarrow> bufs_config \<Rightarrow> miner_bufs drv" where
  "miner_bufs_new L p module cfg =
     drv_then (drv_assert (cfg_m cfg mod TILE_M = 0))
     (drv_then (drv_assert (cfg_n cfg mod TILE_N = 0))
     (drv_then (drv_assert (cfg_r cfg = NOISE_RANK))
     (drv_bind (alloc_rings L cfg) (\<lambda>rg.
      drv_bind (alloc_job L cfg) (\<lambda>jb.
      drv_bind (alloc_shared L cfg) (\<lambda>sh.
      drv_bind (load_handles L module cfg) (\<lambda>hs.
      drv_bind (load_triton L p module cfg) (\<lambda>tri.
      drv_return \<lparr>mb_m = cfg_m cfg, mb_n = cfg_n cfg, mb_k = cfg_k cfg, mb_r = cfg_r cfg,
        ring_size = cfg_ring_size cfg, num_tiles = cfg_tiles cfg, rings = rg, jobs = jb, shared = sh,
        handles = hs, triton = tri, cached_header = None\<rparr>))))))))"

section \<open>Job and iteration\<close>

text \<open>A list of steps, each needing the one before to succeed.\<close>

fun drv_seq :: "unit drv list \<Rightarrow> unit drv" where
  "drv_seq [] = drv_return ()"
| "drv_seq (m # ms) = drv_then m (drv_seq ms)"

definition slot :: "miner_bufs \<Rightarrow> u64 \<Rightarrow> nat miner_res" where
  "slot b iter_idx = (if ring_size b = 0 then Panic else Ok (unat iter_idx mod ring_size b))"

definition ensure_for_job ::
  "cuda_lib \<Rightarrow> miner_bufs \<Rightarrow> bytes \<Rightarrow> bytes \<Rightarrow> bytes \<Rightarrow> bytes \<Rightarrow> u64 \<Rightarrow> ptr \<Rightarrow> miner_bufs drv" where
  "ensure_for_job L b header_bytes key target seed b_iter_idx stream =
     (if cached_header b = Some header_bytes then drv_return b
      else let j = jobs b; nk = mb_n b * mb_k b in
        drv_then (drv_seq
          [ dev_copy_from L (key_tensor j) key,
            dev_copy_from L (pow_target_tensor j) target,
            dev_copy_from L (seed_tensor j) seed,
            random_int8_launch L (h_random (handles b)) (of_nat nk) (buf_ptr (seed_tensor j)) b_iter_idx
              (buf_ptr (b_buf j)) stream,
            tensor_hash_launch L (h_tensor_hash (handles b)) (buf_ptr (b_buf j)) nk (buf_ptr (key_tensor j))
              (buf_ptr (b_tensor_hash j)) stream,
            cu_do L (CuMemcpyDtoHAsync (host_ptr (b_pinned j)) (buf_ptr (b_buf j)) nk stream)
              ''cuMemcpyDtoHAsync(B->b_pinned)'' ])
          (drv_return (b\<lparr>cached_header := Some header_bytes\<rparr>)))"

text \<open>The ring is indexed by the slot: out of range it panics.\<close>

definition random_fill_a :: "cuda_lib \<Rightarrow> miner_bufs \<Rightarrow> u64 \<Rightarrow> nat \<Rightarrow> ptr \<Rightarrow> unit drv" where
  "random_fill_a L b iter_idx s stream =
     drv_then (drv_assert (s < length (a_pool (rings b))))
       (random_int8_launch L (h_random (handles b)) (of_nat (mb_m b * mb_k b)) (buf_ptr (seed_tensor (jobs b)))
          iter_idx (buf_ptr (a_pool (rings b) ! s)) stream)"

definition zero_async :: "cuda_lib \<Rightarrow> ptr \<Rightarrow> nat \<Rightarrow> ptr \<Rightarrow> unit drv" where
  "zero_async L p n stream = cu_do L (CuMemsetD8Async p 0 n stream) ''cuMemsetD8Async''"

definition reset_scan :: "cuda_lib \<Rightarrow> miner_bufs \<Rightarrow> ptr \<Rightarrow> unit drv" where
  "reset_scan L b stream =
     cu_do L (CuMemsetD32Async (buf_ptr (pow_workspace_scan (shared b))) 0xFFFFFFFF 1 stream)
       ''cuMemsetD32Async(pow_workspace_scan = 0xFFFFFFFF)''"

text \<open>Steps 2 to 4: Merkle root of \<open>A\<close>, commitments, the noise factors.\<close>

definition commit_and_noise :: "cuda_lib \<Rightarrow> miner_bufs \<Rightarrow> nat \<Rightarrow> ptr \<Rightarrow> unit drv list" where
  "commit_and_noise L b s stream =
     (let g = rings b; j = jobs b; sh = shared b; h = handles b;
          ca = buf_ptr (commit_a_pool g ! s); cb = buf_ptr (commit_b_pool g ! s);
          la = buf_ptr (seed_label_a sh); lb = buf_ptr (seed_label_b sh)
      in [ tensor_hash_launch L (h_tensor_hash h) (buf_ptr (a_pool g ! s)) (mb_m b * mb_k b)
             (buf_ptr (key_tensor j)) (buf_ptr (a_tensor_hash_pool g ! s)) stream,
           commitment_hash_launch L (h_commitment h) (buf_ptr (a_tensor_hash_pool g ! s))
             (buf_ptr (b_tensor_hash j)) (buf_ptr (key_tensor j)) ca cb stream,
           launch_dense_int8 L (h_noise h) (of_nat (mb_m b)) ca la (buf_ptr (eal sh)) stream,
           launch_dense_int8 L (h_noise h) (of_nat (mb_n b)) cb lb (buf_ptr (ebr sh)) stream,
           launch_dense_fp16 L (h_noise h) (of_nat (mb_m b)) ca la 1 (buf_ptr (eal_fp16 sh)) stream,
           launch_dense_fp16 L (h_noise h) (of_nat (mb_n b)) cb lb 1 (buf_ptr (ebr_fp16 sh)) stream,
           zero_async L (buf_ptr (ear_r_major sh)) (mb_k b * mb_r b) stream,
           zero_async L (buf_ptr (ebl_r_major sh)) (mb_k b * mb_r b) stream,
           launch_sparse L (h_noise h) (of_nat (mb_k b)) ca la (buf_ptr (ear_r_major sh)) stream,
           launch_sparse L (h_noise h) (of_nat (mb_k b)) cb lb (buf_ptr (ebl_r_major sh)) stream,
           launch_transpose L (h_noise h) (of_nat (mb_k b)) (of_nat (mb_r b)) (buf_ptr (ear_r_major sh))
             (buf_ptr (ear_k_major sh)) stream,
           launch_transpose L (h_noise h) (of_nat (mb_k b)) (of_nat (mb_r b)) (buf_ptr (ebl_r_major sh))
             (buf_ptr (ebl_k_major sh)) stream ])"

text \<open>Steps 5 to 8 of the Triton path.\<close>

definition triton_steps :: "cuda_lib \<Rightarrow> miner_bufs \<Rightarrow> triton_path \<Rightarrow> nat \<Rightarrow> ptr \<Rightarrow> unit drv list" where
  "triton_steps L b tr s stream =
     (let g = rings b; j = jobs b; sh = shared b;
          m = of_nat (mb_m b); n = of_nat (mb_n b); k = of_nat (mb_k b); r = of_nat (mb_r b);
          tiles = num_triton_tile_m tr * num_triton_tile_n tr;
          total_candidates = tiles * of_nat HASH_CANDIDATES
      in [ triton_noising_launch L (tri_noising tr) m k r (buf_ptr (a_pool g ! s)) (buf_ptr (eal sh))
             (buf_ptr (ear_r_major sh)) (buf_ptr (ap_ea sh)) stream,
           triton_noising_launch L (tri_noising tr) n k r (buf_ptr (b_buf j)) (buf_ptr (ebr sh))
             (buf_ptr (ebl_r_major sh)) (buf_ptr (bp_eb sh)) stream,
           zero_async L (buf_ptr (transcripts tr)) (buf_size (transcripts tr)) stream,
           triton_search_launch L (tri_search tr) m n k (buf_ptr (ap_ea sh)) (buf_ptr (bp_eb sh))
             (buf_ptr (transcripts tr)) stream,
           reset_scan L b stream,
           launch_blake3_compare L (tri_postpass tr) (buf_ptr (transcripts tr)) (buf_ptr (commit_a_pool g ! s))
             (buf_ptr (pow_target_tensor j)) (buf_ptr (pow_workspace_hash sh)) (buf_ptr (pow_workspace_hit sh))
             total_candidates stream,
           launch_scan L (scan_hits (tri_postpass tr)) (buf_ptr (pow_workspace_hit sh)) total_candidates
             (buf_ptr (pow_workspace_scan sh)) stream,
           launch_paired_emit L (tri_postpass tr) (buf_ptr (pow_workspace_scan sh)) (buf_ptr (pow_target_tensor j))
             (device_ptr (host_signal_header_pool g ! s)) (num_triton_tile_m tr) (num_triton_tile_n tr)
             (of_nat HASH_CANDIDATES) m n k (of_nat BLOCK_M) (of_nat BLOCK_N) 64 stream ])"

text \<open>Steps 5 to 8 of the C++ path.\<close>

definition cpp_steps :: "cuda_lib \<Rightarrow> miner_bufs \<Rightarrow> nat \<Rightarrow> ptr \<Rightarrow> unit drv list" where
  "cpp_steps L b s stream =
     (let g = rings b; j = jobs b; sh = shared b; h = handles b;
          m = of_nat (mb_m b); n = of_nat (mb_n b); k = of_nat (mb_k b); r = of_nat (mb_r b)
      in [ launch_add_gemm L (h_gemm h) m k r (buf_ptr (a_pool g ! s)) (buf_ptr (eal sh))
             (buf_ptr (ear_r_major sh)) (buf_ptr (ap_ea sh)) stream,
           launch_add_gemm L (h_gemm h) n k r (buf_ptr (b_buf j)) (buf_ptr (ebr sh))
             (buf_ptr (ebl_r_major sh)) (buf_ptr (bp_eb sh)) stream,
           zero_async L (buf_ptr (pow_workspace_hit sh)) (num_tiles b * THREADS_PER_TILE) stream,
           reset_scan L b stream,
           search_launch_r128 L (h_search h) m n k (buf_ptr (ap_ea sh)) (buf_ptr (bp_eb sh))
             (buf_ptr (commit_a_pool g ! s)) (buf_ptr (pow_target_tensor j)) (buf_ptr (pow_workspace_hash sh))
             (buf_ptr (pow_workspace_hit sh)) 0 stream,
           launch_scan L (scan_fn (h_scan_emit h)) (buf_ptr (pow_workspace_hit sh))
             (of_nat (num_tiles b * THREADS_PER_TILE)) (buf_ptr (pow_workspace_scan sh)) stream,
           launch_emit L (h_scan_emit h) (buf_ptr (pow_workspace_scan sh)) (buf_ptr (pow_target_tensor j))
             (device_ptr (host_signal_header_pool g ! s)) 0 (of_nat (mb_m b div TILE_M)) (of_nat (mb_n b div TILE_N))
             (of_nat THREADS_PER_TILE) m n k stream ])"

definition mine_one_post_random :: "cuda_lib \<Rightarrow> miner_bufs \<Rightarrow> nat \<Rightarrow> ptr \<Rightarrow> unit drv" where
  "mine_one_post_random L b s stream =
     drv_then (drv_assert (s < length (a_pool (rings b))))
       (drv_seq (commit_and_noise L b s stream
          @ (case triton b of Some tr \<Rightarrow> triton_steps L b tr s stream | None \<Rightarrow> cpp_steps L b s stream)))"

definition snapshot_a_for_hit :: "cuda_lib \<Rightarrow> miner_bufs \<Rightarrow> nat \<Rightarrow> ptr \<Rightarrow> unit drv" where
  "snapshot_a_for_hit L b s stream =
     drv_then (drv_assert (s < length (a_snapshot_pool (rings b))))
       (cu_do L (CuMemcpyDtoHAsync (host_ptr (a_snapshot_pool (rings b) ! s)) (buf_ptr (a_pool (rings b) ! s))
          (mb_m b * mb_k b) stream) ''cuMemcpyDtoHAsync(A snapshot, on-hit)'')"

definition mine_one :: "cuda_lib \<Rightarrow> miner_bufs \<Rightarrow> u64 \<Rightarrow> ptr \<Rightarrow> unit drv" where
  "mine_one L b iter_idx stream =
     drv_bind (drv_res (slot b iter_idx)) (\<lambda>s.
     drv_then (drv_assert (s < length (host_signal_header_pool (rings b))))
     (drv_then (zero_cpu (host_signal_header_pool (rings b) ! s))
     (drv_then (random_fill_a L b iter_idx s stream)
     (mine_one_post_random L b s stream))))"

definition capture_slot :: "cuda_lib \<Rightarrow> miner_bufs \<Rightarrow> ptr \<Rightarrow> nat \<Rightarrow> captured_graph drv" where
  "capture_slot L b stream s =
     drv_then (graph_begin L stream)
     (drv_then (random_fill_a L b 0 s stream)
     (drv_then (mine_one_post_random L b s stream)
     (drv_bind (graph_end L stream) (\<lambda>g.
      let total_bytes = of_nat (mb_m b * mb_k b) in
      record_mutable_random_int8 L g (h_random (handles b)) total_bytes (buf_ptr (seed_tensor (jobs b)))
        (buf_ptr (a_pool (rings b) ! s)) (random_grid_x total_bytes) BLOCK_X))))"

definition capture_all_slots :: "cuda_lib \<Rightarrow> miner_bufs \<Rightarrow> ptr \<Rightarrow> captured_graph list drv" where
  "capture_all_slots L b stream = drv_map (capture_slot L b stream) [0..<ring_size b]"

definition mine_one_with_graphs ::
  "cuda_lib \<Rightarrow> miner_bufs \<Rightarrow> u64 \<Rightarrow> captured_graph list \<Rightarrow> ptr \<Rightarrow> captured_graph list drv" where
  "mine_one_with_graphs L b iter_idx graphs stream =
     drv_bind (drv_res (slot b iter_idx)) (\<lambda>s.
     drv_then (drv_assert (s < length (host_signal_header_pool (rings b))))
     (drv_then (zero_cpu (host_signal_header_pool (rings b) ! s))
     (drv_then (drv_assert (s < length graphs))
     (drv_bind (launch_with_iter_idx L (graphs ! s) stream iter_idx) (\<lambda>g.
     drv_return (graphs[s := g]))))))"

definition approx_device_bytes :: "miner_bufs \<Rightarrow> nat" where
  "approx_device_bytes b =
     (let per_slot = mb_m b * mb_k b + 32 + 32 + 32;
          ring_dev = ring_size b * per_slot;
          per_job = mb_n b * mb_k b + 32 + 32 + 32 + 32;
          shared_bytes = mb_m b * 4 + mb_n b * 4 + mb_m b * mb_r b * 5 + mb_n b * mb_r b * 4
            + mb_k b * mb_r b * 4 + mb_n b * mb_k b * 2 + num_tiles b * THREADS_PER_TILE * (1 + 8 * 4) + 4
      in ring_dev + per_job + shared_bytes)"

end
