(* ===== verification/Call_Sequences.thy ===== *)
theory Call_Sequences
  imports Miner_Bufs
begin

text \<open>
  What the launchers of \<open>Kernel_Launch\<close> and the iterations of \<open>Miner_Bufs\<close> do with the driver: the
  calls they issue, whatever the driver answers, and when their asserts hold.
\<close>

section \<open>The calls a computation issues\<close>

text \<open>\<open>emits L m x cs\<close>: whatever the driver answers, \<open>m\<close> issues the calls \<open>cs\<close> in this order and
  returns \<open>x\<close>, or a call fails, the ones before it have been issued, and \<open>m\<close> returns that error. It
  never panics, and with a driver that succeeds it completes.\<close>

definition emits :: "cuda_lib \<Rightarrow> 'a drv \<Rightarrow> 'a \<Rightarrow> cu_call list \<Rightarrow> bool" where
  "emits L m x cs \<longleftrightarrow>
     (\<forall>t. m t = (Ok x, t @ cs) \<or>
          (\<not> all_succeed L \<and> (\<exists>e i. i \<le> length cs \<and> m t = (Err e, t @ take i cs))))"

named_theorems emits "what the launchers issue"

lemma emits_return [emits]: "emits L (drv_return x) x []"
  by (simp add: emits_def drv_res_def)

lemma emits_do [emits]: "emits L (cu_do L c name) () [c]"
  unfolding emits_def
proof
  fix t
  show "cu_do L c name t = (Ok (), t @ [c]) \<or>
      (\<not> all_succeed L \<and> (\<exists>e i. i \<le> length [c] \<and> cu_do L c name t = (Err e, t @ take i [c])))"
  proof (cases "fst (reply L t c) = CUDA_SUCCESS")
    case True
    then show ?thesis by (simp add: cu_do_def drv_bind_def cu_value_def cu_check_def drv_res_def)
  next
    case False
    then have "\<not> all_succeed L" by (auto simp: all_succeed_def)
    moreover from False have "\<exists>e. cu_do L c name t = (Err e, t @ take 1 [c])"
      by (simp add: cu_do_def drv_bind_def cu_value_def cu_check_def drv_res_def split: option.splits)
    ultimately show ?thesis by (metis One_nat_def le_refl length_Cons list.size(3))
  qed
qed

lemma emits_host [emits]: "emits L (host_call c) () [c]"
  by (simp add: emits_def host_call_def)

lemma emits_bind [emits]:
  assumes "emits L m x cs" and "emits L (f x) y ds"
  shows "emits L (drv_bind m f) y (cs @ ds)"
  unfolding emits_def
proof
  fix t
  have m: "m t = (Ok x, t @ cs) \<or> (\<not> all_succeed L \<and> (\<exists>e i. i \<le> length cs \<and> m t = (Err e, t @ take i cs)))"
    using assms(1) unfolding emits_def by blast
  have f: "f x (t @ cs) = (Ok y, (t @ cs) @ ds)
      \<or> (\<not> all_succeed L \<and> (\<exists>e i. i \<le> length ds \<and> f x (t @ cs) = (Err e, (t @ cs) @ take i ds)))"
    using assms(2) unfolding emits_def by blast
  show "drv_bind m f t = (Ok y, t @ cs @ ds) \<or>
      (\<not> all_succeed L \<and> (\<exists>e i. i \<le> length (cs @ ds) \<and> drv_bind m f t = (Err e, t @ take i (cs @ ds))))"
  proof (cases "m t = (Ok x, t @ cs)")
    case True
    show ?thesis
    proof (cases "f x (t @ cs) = (Ok y, (t @ cs) @ ds)")
      case True
      with \<open>m t = _\<close> show ?thesis by (simp add: drv_bind_def)
    next
      case False
      with f obtain e i where "\<not> all_succeed L" "i \<le> length ds" "f x (t @ cs) = (Err e, (t @ cs) @ take i ds)"
        by blast
      with \<open>m t = _\<close> have "\<not> all_succeed L" "length cs + i \<le> length (cs @ ds)"
          "drv_bind m f t = (Err e, t @ take (length cs + i) (cs @ ds))"
        by (simp_all add: drv_bind_def)
      then show ?thesis by blast
    qed
  next
    case False
    with m obtain e i where "\<not> all_succeed L" "i \<le> length cs" "m t = (Err e, t @ take i cs)" by blast
    then have "\<not> all_succeed L" "i \<le> length (cs @ ds)" "drv_bind m f t = (Err e, t @ take i (cs @ ds))"
      by (simp_all add: drv_bind_def)
    then show ?thesis by blast
  qed
qed

lemma emits_assert [emits]: "c \<Longrightarrow> emits L m x cs \<Longrightarrow> emits L (drv_then (drv_assert c) m) x cs"
  by (simp add: emits_def drv_bind_def drv_assert_def drv_res_def)

lemma emits_seq:
  "list_all2 (\<lambda>m cs. emits L m () cs) ms css \<Longrightarrow> emits L (drv_seq ms) () (concat css)"
  by (induction ms css rule: list_all2_induct) (auto intro: emits_return emits_bind)

lemma emits_ok: "emits L m x cs \<Longrightarrow> all_succeed L \<Longrightarrow> m t = (Ok x, t @ cs)"
  unfolding emits_def by blast

lemma emits_never_panics: "emits L m x cs \<Longrightarrow> fst (m t) \<noteq> Panic"
  unfolding emits_def by (metis fst_conv res.distinct(4) res.distinct(6) res.distinct(2) res.distinct(3) res.distinct(5))

definition kcall :: "ptr \<Rightarrow> u32 \<times> u32 \<times> u32 \<Rightarrow> u32 \<times> u32 \<times> u32 \<Rightarrow> u32 \<Rightarrow> kernel_arg list \<Rightarrow> ptr \<Rightarrow> cu_call" where
  "kcall f grid block smem args stream =
     CuLaunchKernel \<lparr>l_func = f, l_grid = grid, l_block = block, l_smem = smem, l_args = args\<rparr> stream"

lemma emits_launch [emits]: "emits L (launch_kernel L f grid block smem stream args) () [kcall f grid block smem args stream]"
  unfolding launch_kernel_def kcall_def by (rule emits_do)

lemma emits_launch_then:
  assumes "emits L m () cs"
  shows "emits L (drv_then (launch_kernel L f g b sm st args) m) () (kcall f g b sm args st # cs)"
  using emits_bind [where f = "\<lambda>_. m", OF emits_launch assms] by simp

lemma emits_launch_do: "emits L (drv_then (launch_kernel L f g b sm st args) (cu_do L c name)) () [kcall f g b sm args st, c]"
  by (rule emits_launch_then [OF emits_do])

section \<open>The Merkle root's calls\<close>

fun layer_calls :: "ptr \<Rightarrow> ptr \<Rightarrow> ptr \<Rightarrow> ptr \<Rightarrow> ptr \<Rightarrow> nat \<Rightarrow> cu_call list" where
  "layer_calls layer key stream in_buf out_buf n =
     (if n > 2 then
        kcall layer (grid_for (of_nat (n div 2 + n mod 2)) 128, 1, 1) (128, 1, 1) 0
          [ArgPtr in_buf, ArgI32 (of_nat n), ArgPtr key, ArgU8 0, ArgPtr out_buf] stream
        # layer_calls layer key stream out_buf in_buf (n div 2 + n mod 2)
      else [])"

fun last_bufs :: "ptr \<Rightarrow> ptr \<Rightarrow> nat \<Rightarrow> ptr \<times> ptr" where
  "last_bufs in_buf out_buf n = (if n > 2 then last_bufs out_buf in_buf (n div 2 + n mod 2) else (in_buf, out_buf))"

declare merkle_layers.simps [simp del] layer_calls.simps [simp del] last_bufs.simps [simp del]

lemma emits_layers [emits]:
  "emits L (merkle_layers L layer key stream in_buf out_buf n) (last_bufs in_buf out_buf n)
     (layer_calls layer key stream in_buf out_buf n)"
proof (induction n arbitrary: in_buf out_buf rule: less_induct)
  case (less n)
  show ?case
  proof (cases "n > 2")
    case True
    then have "n div 2 + n mod 2 < n" by presburger
    from emits_bind [OF emits_launch, OF less.IH [OF this]] True show ?thesis
      by (subst merkle_layers.simps, subst layer_calls.simps, subst last_bufs.simps) (simp add: Let_def)
  next
    case False
    then show ?thesis
      by (subst merkle_layers.simps, subst layer_calls.simps, subst last_bufs.simps) (simp add: emits_return)
  qed
qed

definition hash_calls :: "tensor_hash \<Rightarrow> ptr \<Rightarrow> nat \<Rightarrow> ptr \<Rightarrow> ptr \<Rightarrow> ptr \<Rightarrow> cu_call list" where
  "hash_calls th data data_len key out stream =
     (let num_chunks = data_len div TH_CHUNK_LEN;
          buf_a = buf_ptr (th_scratch th);
          buf_b = buf_a + of_nat num_chunks * of_nat OUT_LEN_U32 * 4
      in if num_chunks = 1 then
           [kcall (chunk_cv_root th) (1, 1, 1) (1, 1, 1) 0
              [ArgPtr data, ArgI32 (of_nat num_chunks), ArgPtr key, ArgPtr buf_a] stream,
            CuMemcpyDtoDAsync out buf_a 32 stream]
         else
           kcall (chunk_cv_noroot th) (grid_for (of_nat num_chunks) 128, 1, 1) (128, 1, 1) 0
             [ArgPtr data, ArgI32 (of_nat num_chunks), ArgPtr key, ArgPtr buf_a] stream
           # layer_calls (merkle_layer_fn th) key stream buf_a buf_b num_chunks
           @ [kcall (merkle_layer_fn th) (1, 1, 1) (32, 1, 1) 0
                [ArgPtr (fst (last_bufs buf_a buf_b num_chunks)), ArgI32 2, ArgPtr key, ArgU8 1,
                 ArgPtr (snd (last_bufs buf_a buf_b num_chunks))] stream,
              CuMemcpyDtoDAsync out (snd (last_bufs buf_a buf_b num_chunks)) 32 stream])"

definition hash_fits :: "tensor_hash \<Rightarrow> nat \<Rightarrow> bool" where
  "hash_fits th data_len \<longleftrightarrow> data_len > 0 \<and> data_len mod TH_CHUNK_LEN = 0
     \<and> 2 * (data_len div TH_CHUNK_LEN) * OUT_LEN_U32 \<le> scratch_u32_capacity th"

lemma emits_hash [emits]:
  assumes "hash_fits th data_len"
  shows "emits L (tensor_hash_launch L th data data_len key out stream) () (hash_calls th data data_len key out stream)"
proof (cases "data_len div TH_CHUNK_LEN = 1")
  case True
  with True assms show ?thesis
    unfolding tensor_hash_launch_def hash_calls_def hash_fits_def
    by (auto simp: Let_def intro!: emits_assert emits_launch_do)
next
  case False
  let ?n = "data_len div TH_CHUNK_LEN" and ?a = "buf_ptr (th_scratch th)"
  let ?b = "?a + of_nat ?n * of_nat OUT_LEN_U32 * 4"
  obtain x y where xy: "last_bufs ?a ?b ?n = (x, y)" by fastforce
  have layers: "emits L (drv_bind (merkle_layers L (merkle_layer_fn th) key stream ?a ?b ?n) k) ()
      (layer_calls (merkle_layer_fn th) key stream ?a ?b ?n @ ds)" if "emits L (k (x, y)) () ds" for k ds
    using emits_bind [OF emits_layers [of L "merkle_layer_fn th" key stream ?a ?b ?n], of k] that xy by simp
  show ?thesis
    using False assms xy unfolding tensor_hash_launch_def hash_calls_def hash_fits_def
    by (auto simp: Let_def intro!: emits_assert emits_launch_then layers emits_launch_do)
qed

text \<open>The asserts of the launch, as a panic.\<close>

lemma hash_panics: "\<not> hash_fits th data_len \<Longrightarrow> tensor_hash_launch L th data data_len key out stream t = (Panic, t)"
  by (auto simp: tensor_hash_launch_def hash_fits_def bind_assert Let_def)

section \<open>Steps whose calls do not depend on the driver\<close>

definition ok_driver :: cuda_lib where
  "ok_driver = \<lparr>reply = (\<lambda>_ _. (CUDA_SUCCESS, 0)), reply_bytes = (\<lambda>_ _. []), reply_nodes = (\<lambda>_ _. []),
     error_name = (\<lambda>_. None), debug_form = (\<lambda>_. [])\<rparr>"

definition uniform :: "(cuda_lib \<Rightarrow> 'a drv) \<Rightarrow> 'a \<Rightarrow> bool" where
  "uniform m x \<longleftrightarrow> (\<exists>cs. \<forall>L. emits L (m L) x cs)"

definition calls :: "(cuda_lib \<Rightarrow> 'a drv) \<Rightarrow> cu_call list" where
  "calls m = snd (m ok_driver [])"

named_theorems uniform "steps whose calls do not depend on the driver"

lemma uniformI: "(\<And>L. emits L (m L) x cs) \<Longrightarrow> uniform m x"
  unfolding uniform_def by blast

lemma ok_driver_succeeds: "all_succeed ok_driver"
  by (simp add: all_succeed_def ok_driver_def)

lemma emits_calls:
  assumes "uniform m x"
  shows "emits L (m L) x (calls m)"
proof -
  from assms obtain cs where cs: "\<And>L. emits L (m L) x cs" unfolding uniform_def by blast
  from emits_ok [OF cs ok_driver_succeeds, of "[]"] have "calls m = cs" by (simp add: calls_def)
  with cs show ?thesis by simp
qed

lemma uniform_run: "uniform m x \<Longrightarrow> all_succeed L \<Longrightarrow> m L t = (Ok x, t @ calls m)"
  by (rule emits_ok [OF emits_calls])

lemma uniform_return [uniform]: "uniform (\<lambda>L. drv_return x) x"
  by (rule uniformI [OF emits_return])

lemma uniform_do [uniform]: "uniform (\<lambda>L. cu_do L c name) ()"
  by (rule uniformI [OF emits_do])

lemma uniform_host [uniform]: "uniform (\<lambda>L. host_call c) ()"
  by (rule uniformI [OF emits_host])

lemma uniform_launch [uniform]: "uniform (\<lambda>L. launch_kernel L f grid block smem stream args) ()"
  by (rule uniformI [OF emits_launch])

lemma uniform_hash [uniform]:
  "hash_fits th data_len \<Longrightarrow> uniform (\<lambda>L. tensor_hash_launch L th data data_len key out stream) ()"
  by (rule uniformI [OF emits_hash])

lemma uniform_bind [uniform]:
  assumes "uniform m x" and "uniform (\<lambda>L. f L x) y"
  shows "uniform (\<lambda>L. drv_bind (m L) (f L)) y"
proof -
  from assms obtain cs ds where "\<And>L. emits L (m L) x cs" "\<And>L. emits L (f L x) y ds"
    unfolding uniform_def by blast
  then have "emits L (drv_bind (m L) (f L)) y (cs @ ds)" for L by (intro emits_bind)
  then show ?thesis unfolding uniform_def by blast
qed

lemma calls_emits:
  assumes "\<And>L. emits L (m L) x cs"
  shows "calls m = cs"
  using emits_ok [OF assms ok_driver_succeeds, of "[]"] by (simp add: calls_def)

lemma calls_bind:
  assumes "uniform m x" and "uniform (\<lambda>L. f L x) y"
  shows "calls (\<lambda>L. drv_bind (m L) (f L)) = calls m @ calls (\<lambda>L. f L x)"
  by (rule calls_emits, rule emits_bind) (rule emits_calls [OF assms(1)], rule emits_calls [OF assms(2)])

lemma uniform_then:
  assumes "uniform m ()" and "uniform n y"
  shows "uniform (\<lambda>L. drv_then (m L) (n L)) y"
    and "calls (\<lambda>L. drv_then (m L) (n L)) = calls m @ calls n"
  using uniform_bind [OF assms(1), of "\<lambda>L _. n L"] calls_bind [OF assms(1), of "\<lambda>L _. n L"] assms(2) by simp_all

lemma uniform_assert [uniform]: "c \<Longrightarrow> uniform m x \<Longrightarrow> uniform (\<lambda>L. drv_then (drv_assert c) (m L)) x"
  using emits_assert unfolding uniform_def by metis

lemma uniform_true: "uniform (\<lambda>L. drv_assert True) ()"
  using uniform_return by (simp add: drv_assert_def)

lemma calls_assert [simp]: "c \<Longrightarrow> calls (\<lambda>L. drv_then (drv_assert c) (m L)) = calls m"
  by (simp add: calls_def bind_assert)

lemma calls_do [simp]: "calls (\<lambda>L. cu_do L c name) = [c]"
  by (simp add: calls_def cu_do_ok ok_driver_succeeds)

lemma calls_host [simp]: "calls (\<lambda>L. host_call c) = [c]"
  by (simp add: calls_def host_call_def)

lemma calls_launch [simp]: "calls (\<lambda>L. launch_kernel L f g b sm st args) = [kcall f g b sm args st]"
  by (simp add: launch_kernel_def kcall_def)

lemma uniform_seq [uniform]:
  "list_all (\<lambda>m. uniform m ()) ms \<Longrightarrow> uniform (\<lambda>L. drv_seq (map (\<lambda>m. m L) ms)) ()"
proof (induction ms)
  case (Cons m ms)
  then show ?case using uniform_bind [of m "()" "\<lambda>L _. drv_seq (map (\<lambda>m. m L) ms)" "()"] by simp
qed (simp add: uniform_return)

text \<open>A sequence given as a function of the driver.\<close>

lemma uniform_seq_Cons: "uniform m () \<Longrightarrow> uniform (\<lambda>L. drv_seq (ms L)) () \<Longrightarrow> uniform (\<lambda>L. drv_seq (m L # ms L)) ()"
  using uniform_bind [of m "()" "\<lambda>L _. drv_seq (ms L)" "()"] by simp

lemma uniform_seq_Nil: "uniform (\<lambda>L. drv_seq []) ()"
  by (simp add: uniform_return)

lemma drv_seq_append: "drv_seq (ms @ ns) = drv_then (drv_seq ms) (drv_seq ns)"
proof (induction ms)
  case Nil show ?case by (simp add: drv_bind_return)
next
  case (Cons m ms)
  then show ?case by (auto simp: drv_bind_def fun_eq_iff split: res.splits prod.splits)
qed

section \<open>The steps of an iteration\<close>

lemma of_nat_i32: "n < 2 ^ 31 \<Longrightarrow> sint (of_nat n :: i32) = int n"
  by (simp add: signed_of_nat signed_take_bit_int_eq_self)

lemma i32_rem_nat: "n < 2 ^ 31 \<Longrightarrow> d > 0 \<Longrightarrow> n mod d = 0 \<Longrightarrow> i32_rem (of_nat n) (int d) = 0"
  by (simp add: i32_rem_def of_nat_i32 smod_int_alt_def flip: of_nat_mod)

lemma i32_rem_tile: "n < 2 ^ 31 \<Longrightarrow> n mod 128 = 0 \<Longrightarrow> i32_rem (of_nat n) LAUNCH_TILE = 0"
  using i32_rem_nat [of n 128] by (simp add: LAUNCH_TILE_def)

definition iter_ok :: "miner_bufs \<Rightarrow> bool" where
  "iter_ok b \<longleftrightarrow> ring_size b > 0 \<and> length (a_pool (rings b)) = ring_size b
     \<and> length (host_signal_header_pool (rings b)) = ring_size b \<and> length (a_snapshot_pool (rings b)) = ring_size b
     \<and> mb_m b < 2 ^ 31 \<and> mb_n b < 2 ^ 31 \<and> mb_k b < 2 ^ 31
     \<and> mb_m b mod 128 = 0 \<and> mb_n b mod 128 = 0 \<and> mb_k b mod 128 = 0
     \<and> 0 < mb_m b * mb_k b \<and> mb_m b * mb_k b < 2 ^ 31 \<and> hash_fits (h_tensor_hash (handles b)) (mb_m b * mb_k b)"

lemma uniform_random:
  assumes "iter_ok b" "s < ring_size b"
  shows "uniform (\<lambda>L. random_fill_a L b i s stream) ()"
proof -
  let ?n = "mb_m b * mb_k b"
  have "?n mod 128 = 0" using assms by (auto simp: iter_ok_def mod_0_imp_dvd)
  then have "?n mod 32 = 0" by presburger
  with assms have "i32_rem (of_nat ?n) 32 = 0" using i32_rem_nat [of ?n 32] unfolding iter_ok_def by auto
  moreover have "0 < sint (of_nat ?n :: i32)"
    using assms by (subst of_nat_i32) (auto simp: iter_ok_def)
  ultimately show ?thesis using assms
    unfolding random_fill_a_def random_int8_launch_def iter_ok_def
    by (intro uniform_assert uniform_launch) auto
qed

lemma uniform_post:
  assumes "iter_ok b" "s < ring_size b"
  shows "uniform (\<lambda>L. mine_one_post_random L b s stream) ()"
proof -
  have rem: "i32_rem (of_nat (mb_m b)) LAUNCH_TILE = 0" "i32_rem (of_nat (mb_n b)) LAUNCH_TILE = 0"
      "i32_rem (of_nat (mb_k b)) LAUNCH_TILE = 0"
    using assms by (auto simp: iter_ok_def intro!: i32_rem_tile)
  have "uniform (\<lambda>L. drv_seq (commit_and_noise L b s stream)) ()"
    using assms unfolding commit_and_noise_def Let_def zero_async_def commitment_hash_launch_def
      launch_dense_int8_def launch_dense_fp16_def launch_sparse_def launch_transpose_def iter_ok_def
    by (intro uniform_seq_Cons uniform_seq_Nil uniform) auto
  moreover have "uniform (\<lambda>L. drv_seq (triton_steps L b tr s stream)) ()" for tr
    unfolding triton_steps_def Let_def zero_async_def reset_scan_def triton_noising_launch_def
      triton_search_launch_def launch_blake3_compare_def launch_scan_def launch_paired_emit_def
    by (intro uniform_seq_Cons uniform_seq_Nil uniform)
  moreover have "uniform (\<lambda>L. drv_seq (cpp_steps L b s stream)) ()"
    using rem unfolding cpp_steps_def Let_def zero_async_def reset_scan_def launch_add_gemm_def
      search_launch_r128_def launch_scan_def launch_emit_def
    by (intro uniform_seq_Cons uniform_seq_Nil uniform) auto
  ultimately show ?thesis using assms unfolding mine_one_post_random_def iter_ok_def drv_seq_append
    by (cases "triton b") (auto intro!: uniform_bind uniform_true)
qed

text \<open>One iteration, eager.\<close>

lemma mine_one_bind:
  assumes "iter_ok b" "slot b i = Ok s"
  shows "mine_one L b i stream =
    drv_then (zero_cpu (host_signal_header_pool (rings b) ! s))
      (drv_then (random_fill_a L b i s stream) (mine_one_post_random L b s stream))"
    and "s < ring_size b" and "s = unat i mod ring_size b"
proof -
  from assms show s: "s = unat i mod ring_size b" by (auto simp: slot_def iter_ok_def)
  with assms show "s < ring_size b" by (auto simp: iter_ok_def)
  with assms show "mine_one L b i stream =
    drv_then (zero_cpu (host_signal_header_pool (rings b) ! s))
      (drv_then (random_fill_a L b i s stream) (mine_one_post_random L b s stream))"
    by (simp add: mine_one_def iter_ok_def drv_bind_return drv_assert_def)
qed

lemma uniform_mine_one:
  assumes "iter_ok b"
  shows "uniform (\<lambda>L. mine_one L b i stream) ()"
proof -
  obtain s where s: "slot b i = Ok s" using assms by (auto simp: slot_def iter_ok_def)
  show ?thesis
    unfolding mine_one_bind(1) [OF assms s]
    by (intro uniform_then uniform_random [OF assms] uniform_post [OF assms] mine_one_bind [OF assms s])
       (simp add: zero_cpu_def uniform_host)
qed

lemma calls_mine_one:
  assumes "iter_ok b" "slot b i = Ok s"
  shows "calls (\<lambda>L. mine_one L b i stream) =
    HostFill (host_ptr (host_signal_header_pool (rings b) ! s)) 0 (pin_size (host_signal_header_pool (rings b) ! s))
    # calls (\<lambda>L. random_fill_a L b i s stream) @ calls (\<lambda>L. mine_one_post_random L b s stream)"
proof -
  note s = mine_one_bind(2) [OF assms]
  note r = uniform_random [OF assms(1) s] and p = uniform_post [OF assms(1) s]
  have z: "uniform (\<lambda>L. zero_cpu h) ()" for h by (simp add: zero_cpu_def uniform_host)
  show ?thesis
    unfolding mine_one_bind(1) [OF assms] uniform_then(2) [OF z uniform_then(1) [OF r p]] uniform_then(2) [OF r p]
    by (simp add: zero_cpu_def)
qed

section \<open>Allocation\<close>

text \<open>With a driver that succeeds, what completes, and with what.\<close>

definition gives :: "'a drv \<Rightarrow> ('a \<Rightarrow> bool) \<Rightarrow> bool" where
  "gives m P \<longleftrightarrow> (\<forall>t. \<exists>x cs. m t = (Ok x, t @ cs) \<and> P x)"

lemma gives_return: "P x \<Longrightarrow> gives (drv_return x) P"
  by (auto simp: gives_def drv_res_def intro: exI [of _ "[]"])

lemma gives_bind:
  assumes "gives m P" and "\<And>x. P x \<Longrightarrow> gives (f x) Q"
  shows "gives (drv_bind m f) Q"
  unfolding gives_def
proof
  fix t
  obtain x cs where x: "m t = (Ok x, t @ cs)" "P x" using assms(1) unfolding gives_def by blast
  obtain y ds where "f x (t @ cs) = (Ok y, (t @ cs) @ ds)" "Q y"
    using assms(2) [OF x(2)] unfolding gives_def by blast
  with x show "\<exists>y cs. drv_bind m f t = (Ok y, t @ cs) \<and> Q y" by (auto simp: drv_bind_def)
qed

lemma gives_then: "gives m (\<lambda>_. True) \<Longrightarrow> gives n Q \<Longrightarrow> gives (drv_then m n) Q"
  by (rule gives_bind)

lemma gives_assert: "c \<Longrightarrow> gives m Q \<Longrightarrow> gives (drv_then (drv_assert c) m) Q"
  by (simp add: gives_def bind_assert)

lemma gives_weaken: "gives m P \<Longrightarrow> (\<And>x. P x \<Longrightarrow> Q x) \<Longrightarrow> gives m Q"
  unfolding gives_def by blast

lemma uniform_gives: "uniform m x \<Longrightarrow> all_succeed L \<Longrightarrow> gives (m L) (\<lambda>y. y = x)"
  unfolding gives_def using uniform_run by fastforce

lemma gives_map:
  assumes "\<And>x. x \<in> set xs \<Longrightarrow> gives (f x) (P x)"
  shows "gives (drv_map f xs) (\<lambda>ys. list_all2 P xs ys)"
  using assms
proof (induction xs)
  case (Cons x xs)
  show ?case
    by (simp, rule gives_bind [OF Cons.prems], simp, rule gives_bind [OF Cons.IH])
       (auto intro: gives_return Cons.prems)
qed (simp add: gives_return)

lemma gives_value: "all_succeed L \<Longrightarrow> gives (cu_value L c name) (\<lambda>_. True)"
  by (simp add: gives_def cu_value_ok)

lemma gives_do: "all_succeed L \<Longrightarrow> gives (cu_do L c name) (\<lambda>_. True)"
  by (simp add: gives_def cu_do_ok)

lemma gives_alloc: "all_succeed L \<Longrightarrow> gives (dev_alloc L n) (\<lambda>b. buf_size b = n)"
  unfolding dev_alloc_def by (rule gives_bind [OF gives_value]) (simp_all add: gives_return)

lemma gives_pinned: "all_succeed L \<Longrightarrow> gives (pinned_alloc L n) (\<lambda>b. pin_size b = n)"
  unfolding pinned_alloc_def by (rule gives_bind [OF gives_value], simp)+ (simp add: gives_return)

lemma gives_function: "all_succeed L \<Longrightarrow> CHR 0x00 \<notin> set name \<Longrightarrow> gives (get_function L module name) (\<lambda>_. True)"
  by (simp add: get_function_def gives_def cu_value_ok Let_def)
     (simp add: all_succeed_def CUDA_ERROR_NOT_FOUND_def CUDA_SUCCESS_def)

lemma gives_copy: "all_succeed L \<Longrightarrow> length src \<le> buf_size b \<Longrightarrow> gives (dev_copy_from L b src) (\<lambda>_. True)"
  unfolding dev_copy_from_def by (rule gives_assert [OF _ gives_do])

lemma gives_dev_ring:
  "all_succeed L \<Longrightarrow> gives (mk_dev_ring L n bytes) (\<lambda>bs. length bs = n \<and> (\<forall>b \<in> set bs. buf_size b = bytes))"
  unfolding mk_dev_ring_def
  by (rule gives_weaken [OF gives_map [where P = "\<lambda>_ b. buf_size b = bytes", OF gives_alloc]])
     (auto simp: list_all2_conv_all_nth set_conv_nth)

lemma gives_host_ring:
  "all_succeed L \<Longrightarrow> gives (mk_host_ring L n bytes) (\<lambda>bs. length bs = n \<and> (\<forall>b \<in> set bs. pin_size b = bytes))"
  unfolding mk_host_ring_def
  by (rule gives_weaken [OF gives_map [where P = "\<lambda>_ b. pin_size b = bytes", OF gives_pinned]])
     (auto simp: list_all2_conv_all_nth set_conv_nth)

definition rings_ok :: "bufs_config \<Rightarrow> ring_bufs \<Rightarrow> bool" where
  "rings_ok cfg g \<longleftrightarrow>
     (let n = cfg_ring_size cfg; mk = cfg_m cfg * cfg_k cfg;
          dev = (\<lambda>bs z. length bs = n \<and> (\<forall>b \<in> set bs. buf_size b = z));
          host = (\<lambda>bs z. length bs = n \<and> (\<forall>b \<in> set bs. pin_size b = z))
      in dev (a_pool g) mk \<and> dev (a_tensor_hash_pool g) 32 \<and> dev (commit_a_pool g) 32 \<and> dev (commit_b_pool g) 32
       \<and> host (host_signal_header_pool g) HOST_SIGNAL_HEADER_SIZE \<and> host (a_snapshot_pool g) mk
       \<and> host (commit_a_snapshot_pool g) 32 \<and> host (commit_b_snapshot_pool g) 32)"

lemma gives_rings: "all_succeed L \<Longrightarrow> gives (alloc_rings L cfg) (rings_ok cfg)"
  unfolding alloc_rings_def Let_def
  by (rule gives_bind, (rule gives_dev_ring gives_host_ring, assumption))+
     (simp add: gives_return rings_ok_def)

definition job_ok :: "bufs_config \<Rightarrow> job_bufs \<Rightarrow> bool" where
  "job_ok cfg j \<longleftrightarrow> buf_size (b_buf j) = cfg_n cfg * cfg_k cfg \<and> buf_size (b_tensor_hash j) = 32
     \<and> buf_size (key_tensor j) = 32 \<and> buf_size (pow_target_tensor j) = 32
     \<and> pin_size (b_pinned j) = cfg_n cfg * cfg_k cfg \<and> buf_size (seed_tensor j) = 32"

lemma gives_job: "all_succeed L \<Longrightarrow> gives (alloc_job L cfg) (job_ok cfg)"
  unfolding alloc_job_def Let_def
  by (rule gives_bind, (rule gives_alloc gives_pinned, assumption))+ (simp add: gives_return job_ok_def)

definition shared_ok :: "bufs_config \<Rightarrow> shared_bufs \<Rightarrow> bool" where
  "shared_ok cfg h \<longleftrightarrow>
     (let m = cfg_m cfg; n = cfg_n cfg; k = cfg_k cfg; r = cfg_r cfg;
          hashes = cfg_tiles cfg * max_hashes_per_tile (cfg_path cfg)
      in buf_size (eal h) = m * r \<and> buf_size (ebr h) = n * r
       \<and> buf_size (ear_r_major h) = k * r \<and> buf_size (ebl_r_major h) = k * r
       \<and> buf_size (ear_k_major h) = k * r \<and> buf_size (ebl_k_major h) = k * r
       \<and> buf_size (eal_fp16 h) = 2 * m * r \<and> buf_size (ebr_fp16 h) = 2 * n * r
       \<and> buf_size (bp_eb h) = n * k \<and> buf_size (ap_ea h) = m * k
       \<and> buf_size (pow_workspace_hit h) = hashes \<and> buf_size (pow_workspace_hash h) = 32 * hashes
       \<and> buf_size (pow_workspace_scan h) = 4 \<and> buf_size (seed_label_a h) = 32 \<and> buf_size (seed_label_b h) = 32)"

lemma gives_shared: "all_succeed L \<Longrightarrow> gives (alloc_shared L cfg) (shared_ok cfg)"
  unfolding alloc_shared_def Let_def
  by ((rule gives_bind, (rule gives_alloc, assumption))+,
      (rule gives_then [OF gives_copy], assumption, simp)+)
     (simp add: gives_return shared_ok_def)

lemmas kernel_names = COMMITMENT_HASH_def CHUNK_CV_ROOT_def CHUNK_CV_NOROOT_def MERKLE_LAYER_def
  NOISE_GEN_DENSE_INT8_R128_def NOISE_GEN_DENSE_FP16_R128_def NOISE_GEN_SPARSE_R128_def TRANSPOSE_KR_def
  POW_SCAN_HITS_def POW_EMIT_HEADER_def RANDOM_INT8_SEEDED_def NOISING_ADD_GEMM_INT8_SMEM_def
  NOISING_GEMM_INT8_INT32_SMEM_def NOISING_INT32_TO_FP16_SCALED_def SEARCH_PIPELINED_R128_def
  TRITON_BLAKE3_COMPARE_def TRITON_PAIRED_EMIT_HEADER_def NOISING_KERNEL_NAME_def SEARCH_NOROTL_KERNEL_NAME_def

definition scratch_words :: "bufs_config \<Rightarrow> nat" where
  "scratch_words cfg = max (2 * ((cfg_n cfg * cfg_k cfg + TH_CHUNK_LEN - 1) div TH_CHUNK_LEN) * OUT_LEN_U32) 16"

lemma gives_handles:
  assumes "all_succeed L"
  shows "gives (load_handles L module cfg)
     (\<lambda>h. scratch_u32_capacity (h_tensor_hash h) = scratch_words cfg
         \<and> buf_size (th_scratch (h_tensor_hash h)) = 4 * scratch_words cfg)"
  unfolding load_handles_def random_int8_new_def commitment_hash_new_def noise_gen_new_def noisy_gemm_new_def
    search_new_def pow_scan_emit_new_def tensor_hash_new_def Let_def
  by (rule gives_bind [where P = "\<lambda>_. True"] gives_bind [where P = "\<lambda>b. buf_size b = scratch_words cfg * 4"]
        gives_bind [where P = "\<lambda>th. scratch_u32_capacity th = scratch_words cfg
          \<and> buf_size (th_scratch th) = 4 * scratch_words cfg"]
        gives_return gives_function [OF assms] gives_alloc [OF assms] gives_do [OF assms]
      | simp add: kernel_names scratch_words_def gives_return gives_alloc [OF assms])+

definition triton_ok :: "bufs_config \<Rightarrow> triton_path option \<Rightarrow> bool" where
  "triton_ok cfg tri \<longleftrightarrow>
     (case tri of
        None \<Rightarrow> cfg_path cfg = CppSearch
      | Some tr \<Rightarrow> cfg_path cfg = TritonNorotl
          \<and> num_triton_tile_m tr = of_nat (cfg_m cfg div 128) \<and> num_triton_tile_n tr = of_nat (cfg_n cfg div 128)
          \<and> buf_size (transcripts tr) = (cfg_m cfg div 128) * (cfg_n cfg div 128) * 64 * 16 * 4)"

lemma gives_triton:
  assumes "all_succeed L" "cfg_path cfg = TritonNorotl \<Longrightarrow> cfg_k cfg div cfg_r cfg = 16"
  shows "gives (load_triton L p module cfg) (triton_ok cfg)"
proof (cases "cfg_path cfg")
  case CppSearch
  then show ?thesis by (simp add: load_triton_def triton_ok_def gives_return)
next
  case TritonNorotl
  with assms(2) have j: "cfg_k cfg div cfg_r cfg = JACKPOT_SIZE" by (simp add: JACKPOT_SIZE_def)
  have cc: "gives (query_current_device_cc L) (\<lambda>_. True)"
    unfolding query_current_device_cc_def compute_capability_def
    by (rule gives_bind [OF gives_value [OF assms(1)]])+ (simp add: gives_return)
  show ?thesis
    unfolding load_triton_def TritonNorotl mining_path.case Let_def load_data_def triton_noising_new_def
      triton_search_new_def triton_postpass_new_def
    by (rule gives_assert [OF j], rule gives_bind [OF cc], clarsimp,
        (rule gives_bind [where P = "\<lambda>_. True"] gives_return gives_value [OF assms(1)] gives_do [OF assms(1)]
          gives_bind [OF gives_alloc [OF assms(1)]] gives_function [OF assms(1)] TrueI
        | simp add: kernel_names TritonNorotl triton_ok_def BLOCK_M_def BLOCK_N_def HASH_CANDIDATES_def JACKPOT_SIZE_def)+)
qed

definition cfg_ok :: "bufs_config \<Rightarrow> bool" where
  "cfg_ok cfg \<longleftrightarrow> cfg_m cfg mod TILE_M = 0 \<and> cfg_n cfg mod TILE_N = 0 \<and> cfg_r cfg = NOISE_RANK
     \<and> (cfg_path cfg = TritonNorotl \<longrightarrow> cfg_k cfg div cfg_r cfg = 16)"

definition built :: "bufs_config \<Rightarrow> miner_bufs \<Rightarrow> bool" where
  "built cfg b \<longleftrightarrow> mb_m b = cfg_m cfg \<and> mb_n b = cfg_n cfg \<and> mb_k b = cfg_k cfg \<and> mb_r b = cfg_r cfg
     \<and> ring_size b = cfg_ring_size cfg \<and> num_tiles b = cfg_tiles cfg
     \<and> rings_ok cfg (rings b) \<and> job_ok cfg (jobs b) \<and> shared_ok cfg (shared b) \<and> triton_ok cfg (triton b)
     \<and> scratch_u32_capacity (h_tensor_hash (handles b)) = scratch_words cfg
     \<and> buf_size (th_scratch (h_tensor_hash (handles b))) = 4 * scratch_words cfg
     \<and> cached_header b = None"

lemma gives_new:
  assumes "all_succeed L" "cfg_ok cfg"
  shows "gives (miner_bufs_new L p module cfg) (built cfg)"
  using assms(2) unfolding miner_bufs_new_def
  by (intro gives_assert gives_bind [OF gives_rings [OF assms(1)]] gives_bind [OF gives_job [OF assms(1)]]
        gives_bind [OF gives_shared [OF assms(1)]] gives_bind [OF gives_handles [OF assms(1)]]
        gives_bind [OF gives_triton [OF assms(1)]] gives_return)
     (auto simp: cfg_ok_def built_def)

text \<open>The panics of an unusable configuration.\<close>

lemma new_panics: "\<not> cfg_ok cfg \<Longrightarrow> cfg_path cfg = CppSearch \<Longrightarrow> miner_bufs_new L p module cfg t = (Panic, t)"
  by (auto simp: miner_bufs_new_def cfg_ok_def bind_assert)

section \<open>The shapes\<close>

definition all_shapes :: "bufs_config list" where
  "all_shapes = [production, shape_default, shape_big_m, shape_huge_m, shape_big_mn, shape_giga, shape_49k_n, shape_49k_m]"

lemmas shapes = production_def shape_default_def shape_big_m_def shape_huge_m_def shape_big_mn_def
  shape_giga_def shape_49k_n_def shape_49k_m_def mk_config_def

lemma shapes_ok: "cfg \<in> set all_shapes \<Longrightarrow> cfg_ok cfg"
  by (auto simp: all_shapes_def shapes cfg_ok_def TILE_M_def TILE_N_def NOISE_RANK_def)

lemma fits_scratch:
  assumes "scratch_u32_capacity th = scratch_words cfg" "0 < n" "n mod 1024 = 0"
  shows "hash_fits th n \<longleftrightarrow> 16 * (n div 1024) \<le> scratch_words cfg"
  using assms by (simp add: hash_fits_def TH_CHUNK_LEN_def OUT_LEN_U32_def mult.commute mult.left_commute)

lemma shapes_hash:
  assumes "cfg \<in> set all_shapes" "built cfg b"
  shows "hash_fits (h_tensor_hash (handles b)) (mb_n b * mb_k b)"
    and "hash_fits (h_tensor_hash (handles b)) (mb_m b * mb_k b) \<longleftrightarrow> cfg \<noteq> shape_49k_m"
proof -
  have b: "scratch_u32_capacity (h_tensor_hash (handles b)) = scratch_words cfg"
      "mb_m b = cfg_m cfg" "mb_n b = cfg_n cfg" "mb_k b = cfg_k cfg"
    using assms(2) by (simp_all add: built_def)
  show "hash_fits (h_tensor_hash (handles b)) (mb_n b * mb_k b)"
    using assms(1) unfolding all_shapes_def
    by (subst fits_scratch [OF b(1)])
       (auto simp: b(2-4) shapes scratch_words_def TH_CHUNK_LEN_def OUT_LEN_U32_def)
  show "hash_fits (h_tensor_hash (handles b)) (mb_m b * mb_k b) \<longleftrightarrow> cfg \<noteq> shape_49k_m"
    using assms(1) unfolding all_shapes_def
    by (subst fits_scratch [OF b(1)])
       (auto simp: b(2-4) shapes scratch_words_def TH_CHUNK_LEN_def OUT_LEN_U32_def)
qed


lemma shapes_iter_ok:
  assumes "cfg \<in> set all_shapes" "built cfg b" "cfg \<noteq> shape_49k_m"
  shows "iter_ok b"
proof -
  have "hash_fits (h_tensor_hash (handles b)) (mb_m b * mb_k b)" using shapes_hash(2) [OF assms(1,2)] assms(3) by simp
  moreover have "cfg_ring_size cfg > 0 \<and> cfg_m cfg < 2 ^ 31 \<and> cfg_n cfg < 2 ^ 31 \<and> cfg_k cfg < 2 ^ 31
      \<and> cfg_m cfg mod 128 = 0 \<and> cfg_n cfg mod 128 = 0 \<and> cfg_k cfg mod 128 = 0
      \<and> 0 < cfg_m cfg * cfg_k cfg \<and> cfg_m cfg * cfg_k cfg < 2 ^ 31"
    using assms(1) by (auto simp: all_shapes_def shapes)
  ultimately show ?thesis
    using assms(2) unfolding iter_ok_def built_def rings_ok_def Let_def by simp
qed

lemma random_int8_ok:
  assumes "0 < n" "n < 2 ^ 31" "n mod 32 = 0"
  shows "uniform (\<lambda>L. random_int8_launch L f (of_nat n) seed i out stream) ()"
  using i32_rem_nat [of n 32] assms of_nat_i32 [of n] unfolding random_int8_launch_def
  by (intro uniform_assert uniform_launch) auto

lemma shapes_ensure:
  assumes "cfg \<in> set all_shapes" "built cfg b" "all_succeed L"
    and "length key \<le> 32" "length target \<le> 32" "length seed \<le> 32"
  shows "gives (ensure_for_job L b hdr key target seed i stream) (\<lambda>b'. b' = b\<lparr>cached_header := Some hdr\<rparr>)"
proof (cases "cached_header b = Some hdr")
  case False
  let ?n = "mb_n b * mb_k b"
  have n: "0 < ?n" "?n < 2 ^ 31" "?n mod 32 = 0"
    using assms(1,2) by (auto simp: all_shapes_def built_def shapes)
  have j: "buf_size (key_tensor (jobs b)) = 32" "buf_size (pow_target_tensor (jobs b)) = 32"
      "buf_size (seed_tensor (jobs b)) = 32"
    using assms(2) by (simp_all add: built_def job_ok_def)
  have seq: "gives m (\<lambda>_. True) \<Longrightarrow> gives (drv_seq ms) (\<lambda>_. True) \<Longrightarrow> gives (drv_seq (m # ms)) (\<lambda>_. True)" for m ms
    by (simp add: gives_then)
  have u: "gives (m L) (\<lambda>_. True)" if "uniform m ()" for m
    by (rule gives_weaken [OF uniform_gives [OF that assms(3)]]) simp
  have nil: "gives (drv_seq []) (\<lambda>_. True)" by (simp add: gives_return)
  have c: "gives (dev_copy_from L (key_tensor (jobs b)) key) (\<lambda>_. True)"
      "gives (dev_copy_from L (pow_target_tensor (jobs b)) target) (\<lambda>_. True)"
      "gives (dev_copy_from L (seed_tensor (jobs b)) seed) (\<lambda>_. True)"
    using assms(4-6) j by (simp_all add: gives_copy [OF assms(3)])
  note r = u [OF random_int8_ok [OF n]] and h = u [OF uniform_hash [OF shapes_hash(1) [OF assms(1,2)]]]
  from False show ?thesis
    unfolding ensure_for_job_def Let_def
    by (simp only: if_False) (rule gives_then seq nil c r h gives_do [OF assms(3)] gives_return refl)+
qed (use assms in \<open>simp add: built_def\<close>)


lemma bind_panics: "m t = (Panic, t') \<Longrightarrow> drv_bind m f t = (Panic, t')"
  by (simp add: drv_bind_def)

lemma big_m_panics:
  assumes "built shape_49k_m b" "all_succeed L"
  shows "fst (mine_one L b i stream t) = Panic"
proof -
  have b: "ring_size b = 8" "length (a_pool (rings b)) = 8" "length (host_signal_header_pool (rings b)) = 8"
      "mb_m b = 49152" "mb_k b = 2048"
    using assms(1) by (simp_all add: built_def rings_ok_def Let_def shapes)
  have "shape_49k_m \<in> set all_shapes" by (simp add: all_shapes_def)
  with shapes_hash(2) [OF this assms(1)] have "\<not> hash_fits (h_tensor_hash (handles b)) (mb_m b * mb_k b)" by simp
  note hash = hash_panics [OF this]
  let ?s = "unat i mod 8"
  have r: "\<exists>t'. random_fill_a L b i ?s stream t = (Ok (), t')" for t
    using uniform_run [OF random_int8_ok [of "mb_m b * mb_k b"] assms(2)] b
    by (simp add: random_fill_a_def bind_assert)
  have p: "fst (mine_one_post_random L b ?s stream t) = Panic" for t
    using b hash by (simp add: mine_one_post_random_def bind_assert commit_and_noise_def Let_def bind_panics)
  let ?t = "t @ [HostFill (host_ptr (host_signal_header_pool (rings b) ! ?s)) 0 (pin_size (host_signal_header_pool (rings b) ! ?s))]"
  obtain u where u: "random_fill_a L b i ?s stream ?t = (Ok (), u)" using r by blast
  have "mine_one L b i stream t = mine_one_post_random L b ?s stream u"
    using b drv_bind_apply [where m = "random_fill_a L b i ?s stream", OF u] by (simp add: mine_one_def slot_def drv_bind_return bind_assert zero_cpu_def bind_host)
  with p show ?thesis by simp
qed

text \<open>C14: With a driver that succeeds, every shape the miner offers is allocated without panic, every
  job refresh completes and records the job, and every iteration, whatever its index, runs to the
  end; except for the shape with 49152 rows and 32768 columns, whose every iteration panics: the
  scratch of the Merkle kernels is sized for \<open>B\<close>, and \<open>A\<close> does not fit.\<close>

theorem shapes_run:
  assumes "all_succeed L" "cfg \<in> set all_shapes"
  shows "\<exists>b t'. miner_bufs_new L p module cfg t = (Ok b, t')
    \<and> (\<forall>hdr key target seed i stream t. length key \<le> 32 \<and> length target \<le> 32 \<and> length seed \<le> 32 \<longrightarrow>
         fst (ensure_for_job L b hdr key target seed i stream t) = Ok (b\<lparr>cached_header := Some hdr\<rparr>))
    \<and> (\<forall>i stream t. fst (mine_one L b i stream t) = (if cfg = shape_49k_m then Panic else Ok ()))"
proof -
  obtain b cs where b: "miner_bufs_new L p module cfg t = (Ok b, t @ cs)" "built cfg b"
    using gives_new [OF assms(1) shapes_ok [OF assms(2)], of p module] unfolding gives_def by blast
  have "fst (ensure_for_job L b hdr key target seed i stream u) = Ok (b\<lparr>cached_header := Some hdr\<rparr>)"
    if "length key \<le> 32 \<and> length target \<le> 32 \<and> length seed \<le> 32" for hdr key target seed i stream u
  proof -
    from shapes_ensure [OF assms(2) b(2) assms(1), of key target seed hdr i stream] that
    obtain x ds where "ensure_for_job L b hdr key target seed i stream u = (Ok x, u @ ds)"
      "x = b\<lparr>cached_header := Some hdr\<rparr>" unfolding gives_def by blast
    then show ?thesis by simp
  qed
  moreover have "fst (mine_one L b i stream u) = (if cfg = shape_49k_m then Panic else Ok ())" for i stream u
  proof (cases "cfg = shape_49k_m")
    case True
    with b(2) big_m_panics [OF _ assms(1)] show ?thesis by simp
  next
    case False
    from uniform_run [OF uniform_mine_one [OF shapes_iter_ok [OF assms(2) b(2) False]] assms(1)] False
    show ?thesis by simp
  qed
  ultimately show ?thesis using b(1) by blast
qed

lemma shapes_run_witness:
  "\<forall>p. \<exists>b t'. miner_bufs_new ok_driver p 1 shape_49k_m [] = (Ok b, t') \<and> fst (mine_one ok_driver b 3 0 []) = Panic"
proof
  fix p
  show "\<exists>b t'. miner_bufs_new ok_driver p 1 shape_49k_m [] = (Ok b, t') \<and> fst (mine_one ok_driver b 3 0 []) = Panic"
    using shapes_run [OF ok_driver_succeeds, of shape_49k_m p 1 "[]"] by (auto simp: all_shapes_def)
qed

section \<open>The calls of an iteration, bounded\<close>

fun launched :: "cu_call \<Rightarrow> ptr option" where
  "launched (CuLaunchKernel l s) = Some (l_func l)"
| "launched _ = None"

text \<open>Calls that go through a stream: the ones a capture records.\<close>

fun on_stream :: "cu_call \<Rightarrow> bool" where
  "on_stream (CuLaunchKernel l s) = True"
| "on_stream (CuMemsetD8Async p v n s) = True"
| "on_stream (CuMemsetD32Async p v n s) = True"
| "on_stream (CuMemcpyDtoDAsync d s n st) = True"
| "on_stream (CuMemcpyDtoHAsync d s n st) = True"
| "on_stream _ = False"

text \<open>A step that issues at most \<open>n\<close> calls, all of them stream calls, and launches only functions
  of \<open>F\<close>.\<close>

definition issues :: "ptr set \<Rightarrow> nat \<Rightarrow> (cuda_lib \<Rightarrow> unit drv) \<Rightarrow> bool" where
  "issues F n m \<longleftrightarrow> uniform m () \<and> length (calls m) \<le> n
     \<and> (\<forall>c \<in> set (calls m). on_stream c \<and> (\<forall>f. launched c = Some f \<longrightarrow> f \<in> F))"

named_theorems issues "how much a step issues"

lemma issues_launch [issues]: "f \<in> F \<Longrightarrow> issues F 1 (\<lambda>L. launch_kernel L f g b sm st args)"
  by (simp add: issues_def uniform_launch kcall_def)

lemma issues_do [issues]: "on_stream c \<Longrightarrow> launched c = None \<Longrightarrow> issues F 1 (\<lambda>L. cu_do L c name)"
  by (simp add: issues_def uniform_do)

lemma issues_assert [issues]: "c \<Longrightarrow> issues F n m \<Longrightarrow> issues F n (\<lambda>L. drv_then (drv_assert c) (m L))"
  by (simp add: issues_def uniform_assert)

lemma issues_then:
  assumes "issues F n m" "issues F k l"
  shows "issues F (n + k) (\<lambda>L. drv_then (m L) (l L))"
  using assms uniform_then [of m l "()"] unfolding issues_def by auto

lemma issues_Nil: "issues F 0 (\<lambda>L. drv_seq [])"
  using uniform_return [of "()"] by (simp add: issues_def) (simp add: calls_def drv_res_def)

lemma issues_Cons:
  "issues F n m \<Longrightarrow> issues F k (\<lambda>L. drv_seq (ms L)) \<Longrightarrow> issues F (n + k) (\<lambda>L. drv_seq (m L # ms L))"
  using issues_then [of F n m k "\<lambda>L. drv_seq (ms L)"] by simp

lemma issues_mono: "issues F n m \<Longrightarrow> n \<le> k \<Longrightarrow> F \<subseteq> G \<Longrightarrow> issues G k m"
  unfolding issues_def by auto

lemma length_layer_calls: "length (layer_calls layer key st a b n) \<le> n"
proof (induction n arbitrary: a b rule: less_induct)
  case (less n)
  show ?case
  proof (cases "n > 2")
    case True
    then have "n div 2 + n mod 2 < n" by presburger
    with less.IH [OF this, of b a] True show ?thesis by (subst layer_calls.simps) simp
  qed (subst layer_calls.simps, simp)
qed

lemma set_layer_calls: "c \<in> set (layer_calls layer key st a b n) \<Longrightarrow> on_stream c \<and> launched c = Some layer"
proof (induction n arbitrary: a b rule: less_induct)
  case (less n)
  show ?case
  proof (cases "n > 2")
    case True
    then have "n div 2 + n mod 2 < n" by presburger
    with less.IH [OF this, of b a] True less.prems show ?thesis
      by (subst (asm) layer_calls.simps) (auto simp: kcall_def)
  qed (use less.prems in \<open>subst (asm) layer_calls.simps, simp\<close>)
qed

definition hash_fns :: "tensor_hash \<Rightarrow> ptr set" where
  "hash_fns th = {chunk_cv_root th, chunk_cv_noroot th, merkle_layer_fn th}"

lemma issues_hash [issues]:
  assumes "hash_fits th n"
  shows "issues (hash_fns th) (n + 3) (\<lambda>L. tensor_hash_launch L th data n key out st)"
proof -
  have c: "calls (\<lambda>L. tensor_hash_launch L th data n key out st) = hash_calls th data n key out st"
    by (rule calls_emits [OF emits_hash [OF assms]])
  have "length (hash_calls th data n key out st) \<le> n div TH_CHUNK_LEN + 3"
    unfolding hash_calls_def Let_def using length_layer_calls by simp
  then have "length (hash_calls th data n key out st) \<le> n + 3"
    by (rule order.trans) (simp add: div_le_dividend)
  moreover have "on_stream c \<and> (\<forall>f. launched c = Some f \<longrightarrow> f \<in> hash_fns th)"
    if "c \<in> set (hash_calls th data n key out st)" for c
    using that set_layer_calls unfolding hash_calls_def Let_def hash_fns_def
    by (auto simp: kcall_def split: if_splits)
  ultimately show ?thesis using uniform_hash [OF assms] by (simp add: issues_def c)
qed

text \<open>The functions an iteration launches after the random fill.\<close>

definition iteration_fns :: "miner_bufs \<Rightarrow> ptr set" where
  "iteration_fns b =
     (let h = handles b in
      hash_fns (h_tensor_hash h)
      \<union> {h_commitment h, dense_int8 (h_noise h), dense_fp16 (h_noise h), sparse (h_noise h), transpose_fn (h_noise h)}
      \<union> (case triton b of
           None \<Rightarrow> {add_gemm (h_gemm h), h_search h, scan_fn (h_scan_emit h), emit_fn (h_scan_emit h)}
         | Some tr \<Rightarrow> {tri_noising tr, tri_search tr, blake3_compare (tri_postpass tr),
             scan_hits (tri_postpass tr), paired_emit (tri_postpass tr)}))"

lemma issues_post:
  assumes "iter_ok b" "s < ring_size b"
  shows "issues (iteration_fns b) (mb_m b * mb_k b + 22) (\<lambda>L. mine_one_post_random L b s stream)"
proof -
  let ?F = "iteration_fns b"
  have rem: "i32_rem (of_nat (mb_m b)) LAUNCH_TILE = 0" "i32_rem (of_nat (mb_n b)) LAUNCH_TILE = 0"
      "i32_rem (of_nat (mb_k b)) LAUNCH_TILE = 0"
    using assms by (auto simp: iter_ok_def intro!: i32_rem_tile)
  have hash: "issues ?F (mb_m b * mb_k b + 3)
      (\<lambda>L. tensor_hash_launch L (h_tensor_hash (handles b)) data (mb_m b * mb_k b) key out st)" for data key out st
    using assms by (auto simp: iter_ok_def iteration_fns_def Let_def intro!: issues_mono [OF issues_hash])
  have "issues ?F (mb_m b * mb_k b + 14) (\<lambda>L. drv_seq (commit_and_noise L b s stream))"
    unfolding commit_and_noise_def Let_def zero_async_def commitment_hash_launch_def
      launch_dense_int8_def launch_dense_fp16_def launch_sparse_def launch_transpose_def
    by (rule issues_mono [OF _ _ order.refl])
       (rule issues_Cons issues_Nil hash issues | simp add: iteration_fns_def Let_def)+
  moreover have "issues ?F 8 (\<lambda>L. drv_seq (triton_steps L b tr s stream))" if "triton b = Some tr" for tr
    unfolding triton_steps_def Let_def zero_async_def reset_scan_def triton_noising_launch_def
      triton_search_launch_def launch_blake3_compare_def launch_scan_def launch_paired_emit_def
    by (rule issues_mono [OF _ _ order.refl])
       (rule issues_Cons issues_Nil issues | simp add: iteration_fns_def Let_def that rem)+
  moreover have "issues ?F 8 (\<lambda>L. drv_seq (cpp_steps L b s stream))" if "triton b = None"
    unfolding cpp_steps_def Let_def zero_async_def reset_scan_def launch_add_gemm_def
      search_launch_r128_def launch_scan_def launch_emit_def
    by (rule issues_mono [OF _ _ order.refl])
       (rule issues_Cons issues_Nil issues | simp add: iteration_fns_def Let_def that rem)+
  ultimately have "issues ?F (mb_m b * mb_k b + 14 + 8)
      (\<lambda>L. drv_seq (commit_and_noise L b s stream
          @ (case triton b of Some tr \<Rightarrow> triton_steps L b tr s stream | None \<Rightarrow> cpp_steps L b s stream)))"
    unfolding drv_seq_append by (intro issues_then) (cases "triton b"; simp)+
  with assms show ?thesis unfolding mine_one_post_random_def
    by (intro issues_assert) (simp_all add: iter_ok_def add.assoc)
qed

lemma issues_random:
  assumes "iter_ok b" "s < ring_size b"
  shows "calls (\<lambda>L. random_fill_a L b i s stream) =
    [kcall (h_random (handles b)) (random_grid_x (of_nat (mb_m b * mb_k b)), 1, 1) (BLOCK_X, 1, 1) 0
       [ArgI32 (of_nat (mb_m b * mb_k b)), ArgPtr (buf_ptr (seed_tensor (jobs b))), ArgU64 i,
        ArgPtr (buf_ptr (a_pool (rings b) ! s))] stream]"
  using uniform_run [OF uniform_random [OF assms, of i stream] ok_driver_succeeds, of "[]"]
  by (auto simp: random_fill_a_def random_int8_launch_def bind_assert launch_kernel_def kcall_def
      cu_do_ok ok_driver_succeeds split: if_splits)

end
