(* ===== verification/Graph_Replay.thy ===== *)
theory Graph_Replay
  imports Call_Sequences
begin

text \<open>
  The captured iterations (\<open>capture_all_slots\<close> and \<open>mine_one_with_graphs\<close> of
  \<open>src/src/miner_bufs.rs\<close>, \<open>CapturedGraph\<close> of \<open>src/src/driver.rs\<close>): what the device executes when a
  history of driver calls contains captures and replays, and that replaying is the eager iteration.
\<close>

section \<open>What the device executes\<close>

text \<open>The device as the driver documents capture: between begin and end of a capture the stream calls
  are recorded instead of executed; a graph holds the recorded calls; instantiation copies them into
  an executable graph, in which the parameters of one kernel node can be replaced; launching it
  executes the calls it holds. \<open>np\<close> gives the position of a node in its graph.\<close>

record gpu =
  capturing :: "cu_call list option"
  graph_body :: "ptr \<rightharpoonup> cu_call list"
  exec_body :: "ptr \<rightharpoonup> cu_call list"
  executed :: "cu_call list"

definition gpu_init :: gpu where
  "gpu_init = \<lparr>capturing = None, graph_body = Map.empty, exec_body = Map.empty, executed = []\<rparr>"

definition push :: "cu_call list \<Rightarrow> gpu \<Rightarrow> gpu" where
  "push cs st = (case capturing st of
      None \<Rightarrow> st\<lparr>executed := executed st @ cs\<rparr>
    | Some b \<Rightarrow> st\<lparr>capturing := Some (b @ cs)\<rparr>)"

fun set_params :: "launch \<Rightarrow> cu_call \<Rightarrow> cu_call" where
  "set_params l (CuLaunchKernel _ s) = CuLaunchKernel l s"
| "set_params l c = c"

fun gstep :: "cuda_lib \<Rightarrow> (ptr \<Rightarrow> nat) \<Rightarrow> cu_call list \<Rightarrow> cu_call \<Rightarrow> gpu \<Rightarrow> gpu" where
  "gstep L np t (CuStreamBeginCapture s) st = st\<lparr>capturing := Some []\<rparr>"
| "gstep L np t (CuStreamEndCapture s) st =
     (case capturing st of
        Some b \<Rightarrow> st\<lparr>capturing := None, graph_body := (graph_body st)(snd (reply L t (CuStreamEndCapture s)) \<mapsto> b)\<rparr>
      | None \<Rightarrow> st)"
| "gstep L np t (CuGraphInstantiate g) st =
     (case graph_body st g of
        Some b \<Rightarrow> st\<lparr>exec_body := (exec_body st)(snd (reply L t (CuGraphInstantiate g)) \<mapsto> b)\<rparr>
      | None \<Rightarrow> st)"
| "gstep L np t (CuGraphExecKernelNodeSetParams ex node l) st =
     (case exec_body st ex of
        Some b \<Rightarrow> st\<lparr>exec_body := (exec_body st)(ex \<mapsto> b[np node := set_params l (b ! np node)])\<rparr>
      | None \<Rightarrow> st)"
| "gstep L np t (CuGraphLaunch ex s) st = (case exec_body st ex of Some b \<Rightarrow> push b st | None \<Rightarrow> st)"
| "gstep L np t (HostFill p v n) st = st\<lparr>executed := executed st @ [HostFill p v n]\<rparr>"
| "gstep L np t c st = (if on_stream c then push [c] st else st)"

fun gpu_run :: "cuda_lib \<Rightarrow> (ptr \<Rightarrow> nat) \<Rightarrow> cu_call list \<Rightarrow> cu_call list \<Rightarrow> gpu \<Rightarrow> gpu" where
  "gpu_run L np t [] st = st"
| "gpu_run L np t (c # cs) st = gpu_run L np (t @ [c]) cs (gstep L np t c st)"

definition gpu_after :: "cuda_lib \<Rightarrow> (ptr \<Rightarrow> nat) \<Rightarrow> cu_call list \<Rightarrow> gpu" where
  "gpu_after L np t = gpu_run L np [] t gpu_init"

lemma gpu_run_append: "gpu_run L np t (cs @ ds) st = gpu_run L np (t @ cs) ds (gpu_run L np t cs st)"
  by (induction cs arbitrary: t st) simp_all

lemma gpu_after_snoc: "gpu_after L np (t @ [c]) = gstep L np t c (gpu_after L np t)"
  by (simp add: gpu_after_def gpu_run_append)

lemma gstep_stream: "on_stream c \<Longrightarrow> gstep L np t c st = push [c] st"
  by (cases c) simp_all

lemma gpu_after_stream:
  "(\<And>c. c \<in> set cs \<Longrightarrow> on_stream c) \<Longrightarrow> gpu_after L np (t @ cs) = push cs (gpu_after L np t)"
proof (induction cs rule: rev_induct)
  case Nil
  then show ?case by (simp add: push_def split: option.splits)
next
  case (snoc c cs)
  then have "gpu_after L np (t @ cs @ [c]) = push [c] (push cs (gpu_after L np t))"
    by (simp only: gpu_after_snoc append_assoc [symmetric]) (simp add: gstep_stream)
  then show ?case by (simp add: push_def split: option.splits)
qed

text \<open>Documented behaviour of the driver's graph queries: the nodes of a graph are its calls, one
  node each, a node is of kernel type exactly when its call is a launch, and the parameters name the
  function launched; a new executable graph has a handle of its own.\<close>

fun graph_query :: "cu_call \<Rightarrow> bool" where
  "graph_query (CuGraphNodeGetType n) = True"
| "graph_query (CuGraphKernelNodeGetParams n) = True"
| "graph_query _ = False"

definition MAX_BODY :: nat where "MAX_BODY = 2 ^ 32"

fun instantiates :: "cu_call \<Rightarrow> bool" where
  "instantiates (CuGraphInstantiate g) = True"
| "instantiates _ = False"

definition instantiations :: "cu_call list \<Rightarrow> nat" where
  "instantiations t = length (filter instantiates t)"

definition graph_driver :: "cuda_lib \<Rightarrow> (ptr \<Rightarrow> nat) \<Rightarrow> bool" where
  "graph_driver L np \<longleftrightarrow>
     (\<forall>t g body. graph_body (gpu_after L np t) g = Some body \<and> length body < MAX_BODY \<longrightarrow>
        (let c = CuGraphGetNodes g True; ns = reply_nodes L t c in
         distinct (map np ns) \<and> set (map np ns) = {..<length body} \<and>
         (\<forall>n \<in> set ns. \<forall>qs. (\<forall>q \<in> set qs. graph_query q) \<longrightarrow>
            (snd (reply L (t @ c # qs) (CuGraphNodeGetType n)) = GRAPH_NODE_TYPE_KERNEL
               \<longleftrightarrow> launched (body ! np n) \<noteq> None)
          \<and> (\<forall>f. launched (body ! np n) = Some f \<longrightarrow> snd (reply L (t @ c # qs) (CuGraphKernelNodeGetParams n)) = f))))
   \<and> (\<forall>t g. instantiations t < MAX_BODY \<longrightarrow> snd (reply L t (CuGraphInstantiate g)) \<notin> dom (exec_body (gpu_after L np t)))"

section \<open>Recording the random node\<close>

lemma matching_nodes_spec:
  assumes "all_succeed L"
    and "\<And>n qs. n \<in> set ns \<Longrightarrow> \<forall>q \<in> set qs. graph_query q \<Longrightarrow>
      (snd (reply L (t @ qs) (CuGraphNodeGetType n)) = GRAPH_NODE_TYPE_KERNEL \<longleftrightarrow> h n \<noteq> None)
      \<and> (\<forall>f. h n = Some f \<longrightarrow> snd (reply L (t @ qs) (CuGraphKernelNodeGetParams n)) = f)"
  shows "\<exists>qs. (\<forall>q \<in> set qs. graph_query q) \<and>
    matching_nodes L func ns t = (Ok (filter (\<lambda>n. h n = Some func) ns), t @ qs)"
  using assms(2)
proof (induction ns arbitrary: t)
  case Nil
  show ?case by (auto simp: drv_res_def)
next
  case (Cons n ns)
  have hd: "(snd (reply L (t @ qs) (CuGraphNodeGetType n)) = GRAPH_NODE_TYPE_KERNEL \<longleftrightarrow> h n \<noteq> None)
      \<and> (\<forall>f. h n = Some f \<longrightarrow> snd (reply L (t @ qs) (CuGraphKernelNodeGetParams n)) = f)"
    if "\<forall>q \<in> set qs. graph_query q" for qs
    using Cons.prems [of n qs] that by simp
  have tl: "\<exists>rs. (\<forall>q \<in> set rs. graph_query q) \<and>
      matching_nodes L func ns (t @ qs) = (Ok (filter (\<lambda>n. h n = Some func) ns), t @ qs @ rs)"
    if qs: "\<forall>q \<in> set qs. graph_query q" for qs
  proof -
    have "(snd (reply L ((t @ qs) @ rs) (CuGraphNodeGetType n')) = GRAPH_NODE_TYPE_KERNEL \<longleftrightarrow> h n' \<noteq> None)
      \<and> (\<forall>f. h n' = Some f \<longrightarrow> snd (reply L ((t @ qs) @ rs) (CuGraphKernelNodeGetParams n')) = f)"
      if "n' \<in> set ns" "\<forall>q \<in> set rs. graph_query q" for n' rs
      using Cons.prems [of n' "qs @ rs"] that qs by auto
    from Cons.IH [of "t @ qs", OF this] show ?thesis by simp
  qed
  show ?case
  proof (cases "h n")
    case None
    let ?q = "[CuGraphNodeGetType n]"
    from tl [of ?q] obtain rs where rs: "\<forall>q \<in> set rs. graph_query q"
      "matching_nodes L func ns (t @ ?q) = (Ok (filter (\<lambda>n. h n = Some func) ns), t @ ?q @ rs)" by auto
    with None hd [of "[]"] show ?thesis
      by (intro exI [of _ "?q @ rs"]) (auto simp: bind_value_ok [OF assms(1)])
  next
    case (Some f)
    let ?q = "[CuGraphNodeGetType n, CuGraphKernelNodeGetParams n]"
    from tl [of ?q] obtain rs where rs: "\<forall>q \<in> set rs. graph_query q"
      "matching_nodes L func ns (t @ ?q) = (Ok (filter (\<lambda>n. h n = Some func) ns), t @ ?q @ rs)" by auto
    have "snd (reply L t (CuGraphNodeGetType n)) = GRAPH_NODE_TYPE_KERNEL" using hd [of "[]"] Some by simp
    moreover have "snd (reply L (t @ [CuGraphNodeGetType n]) (CuGraphKernelNodeGetParams n)) = f"
      using hd [of "[CuGraphNodeGetType n]"] Some by simp
    ultimately have "matching_nodes L func (n # ns) t
        = (Ok (if f = func then n # filter (\<lambda>n. h n = Some func) ns else filter (\<lambda>n. h n = Some func) ns), t @ ?q @ rs)"
      using drv_bind_apply [where m = "matching_nodes L func ns" and f = "\<lambda>ms. drv_return (if f = func then n # ms else ms)", OF rs(2)]
      by (simp add: bind_value_ok [OF assms(1)] drv_res_def)
    with Some rs(1) show ?thesis by (intro exI [of _ "?q @ rs"]) auto
  qed
qed

lemma unique_node:
  assumes "distinct (map np ns)" "set (map np ns) = {..<length body}"
    and "body = c # cs" "launched c = Some f" "\<forall>d \<in> set cs. launched d \<noteq> Some f"
  shows "\<exists>n. np n = 0 \<and> filter (\<lambda>n. launched (body ! np n) = Some f) ns = [n]"
proof -
  have iff: "launched (body ! np n) = Some f \<longleftrightarrow> np n = 0" if "n \<in> set ns" for n
  proof (cases "np n")
    case (Suc k)
    from that assms(2) have "np n < length body" by auto
    with Suc assms(3) have "body ! np n \<in> set cs" by simp
    with assms(5) Suc show ?thesis by auto
  qed (use assms in simp)
  then have filt: "filter (\<lambda>n. launched (body ! np n) = Some f) ns = filter (\<lambda>n. np n = 0) ns"
    by (intro filter_cong) auto
  have "0 \<in> set (map np ns)" using assms(2,3) by simp
  then obtain n where "n \<in> set ns" "np n = 0" by auto
  then obtain xs ys where ns: "ns = xs @ n # ys" by (meson split_list)
  with assms(1) \<open>np n = 0\<close> have "\<forall>m \<in> set xs \<union> set ys. np m \<noteq> 0"
    by (auto simp: image_iff)
  then have "filter (\<lambda>n. np n = 0) ns = [n]" by (simp add: ns \<open>np n = 0\<close> filter_empty_conv)
  with filt \<open>np n = 0\<close> show ?thesis by auto
qed

text \<open>The record made for the random node.\<close>

definition random_record :: "miner_bufs \<Rightarrow> nat \<Rightarrow> ptr \<Rightarrow> mutable_random" where
  "random_record b s node =
     \<lparr>mr_node = node, mr_func = h_random (handles b), mr_grid_x = random_grid_x (of_nat (mb_m b * mb_k b)),
      mr_block_x = BLOCK_X, arg_total_bytes = of_nat (mb_m b * mb_k b),
      arg_seed = buf_ptr (seed_tensor (jobs b)), arg_iter = 0, arg_out = buf_ptr (a_pool (rings b) ! s)\<rparr>"

definition random_calls :: "miner_bufs \<Rightarrow> nat \<Rightarrow> ptr \<Rightarrow> u64 \<Rightarrow> cu_call list" where
  "random_calls b s stream i = calls (\<lambda>L. random_fill_a L b i s stream)"

definition post_calls :: "miner_bufs \<Rightarrow> nat \<Rightarrow> ptr \<Rightarrow> cu_call list" where
  "post_calls b s stream = calls (\<lambda>L. mine_one_post_random L b s stream)"

text \<open>The random kernel is no other kernel of the iteration.\<close>

definition random_apart :: "miner_bufs \<Rightarrow> bool" where
  "random_apart b \<longleftrightarrow> h_random (handles b) \<notin> iteration_fns b"

lemma random_calls_eq:
  assumes "iter_ok b" "s < ring_size b"
  shows "random_calls b s stream i = [CuLaunchKernel (random_node_params ((random_record b s node)\<lparr>arg_iter := i\<rparr>)) stream]"
  unfolding random_calls_def issues_random [OF assms] by (simp add: kcall_def random_node_params_def random_record_def)

lemma body_facts:
  assumes "iter_ok b" "s < ring_size b" "random_apart b"
  shows "\<forall>c \<in> set (random_calls b s stream i @ post_calls b s stream). on_stream c"
    and "length (random_calls b s stream i @ post_calls b s stream) < MAX_BODY"
    and "\<exists>c. random_calls b s stream i = [c] \<and> launched c = Some (h_random (handles b))"
    and "\<forall>d \<in> set (post_calls b s stream). launched d \<noteq> Some (h_random (handles b))"
proof -
  note r = random_calls_eq [OF assms(1,2), of stream i 0]
  from issues_post [OF assms(1,2), of stream]
  have p: "length (post_calls b s stream) \<le> mb_m b * mb_k b + 22"
      "\<forall>c \<in> set (post_calls b s stream). on_stream c \<and> (\<forall>f. launched c = Some f \<longrightarrow> f \<in> iteration_fns b)"
    unfolding issues_def post_calls_def by auto
  from r p(2) show "\<forall>c \<in> set (random_calls b s stream i @ post_calls b s stream). on_stream c" by auto
  show "length (random_calls b s stream i @ post_calls b s stream) < MAX_BODY"
    using r p(1) assms(1) by (simp add: MAX_BODY_def iter_ok_def)
  show "\<exists>c. random_calls b s stream i = [c] \<and> launched c = Some (h_random (handles b))"
    using r by (simp add: random_node_params_def random_record_def)
  show "\<forall>d \<in> set (post_calls b s stream). launched d \<noteq> Some (h_random (handles b))"
    using p(2) assms(3) unfolding random_apart_def by blast
qed

section \<open>Capture\<close>

fun inert :: "cu_call \<Rightarrow> bool" where
  "inert (CuGraphNodeGetType n) = True"
| "inert (CuGraphKernelNodeGetParams n) = True"
| "inert (CuGraphGetNodes g f) = True"
| "inert (CuStreamSynchronize s) = True"
| "inert _ = False"

lemma gpu_after_inert: "\<forall>c \<in> set qs. inert c \<Longrightarrow> gpu_after L np (t @ qs) = gpu_after L np t"
proof (induction qs rule: rev_induct)
  case (snoc c qs)
  moreover have "gstep L np (t @ qs) c st = st" for st using snoc.prems by (cases c) simp_all
  ultimately show ?case using gpu_after_snoc [of L np "t @ qs" c] by simp
qed simp

lemma query_inert: "graph_query q \<Longrightarrow> inert q"
  by (cases q) simp_all

lemma instantiations_append: "instantiations (t @ u) = instantiations t + instantiations u"
  by (simp add: instantiations_def)

lemma instantiates_not: "on_stream c \<or> inert c \<Longrightarrow> \<not> instantiates c"
  by (cases c) simp_all

lemma instantiations_none: "\<forall>c \<in> set cs. on_stream c \<or> inert c \<Longrightarrow> instantiations cs = 0"
  using instantiates_not by (auto simp: instantiations_def filter_empty_conv)

lemma instantiations_Cons: "instantiations (c # cs) = (if instantiates c then Suc (instantiations cs) else instantiations cs)"
  by (simp add: instantiations_def)

definition holds :: "miner_bufs \<Rightarrow> ptr \<Rightarrow> (ptr \<Rightarrow> nat) \<Rightarrow> gpu \<Rightarrow> nat \<Rightarrow> captured_graph \<Rightarrow> bool" where
  "holds b stream np st s g \<longleftrightarrow>
     (\<exists>i. exec_body st (cg_exec g) = Some (random_calls b s stream i @ post_calls b s stream))
   \<and> (\<exists>node j. np node = 0 \<and> cg_random g = Some ((random_record b s node)\<lparr>arg_iter := j\<rparr>))"

lemma capture_slot_holds:
  assumes L: "all_succeed L" "graph_driver L np" and b: "iter_ok b" "s < ring_size b" "random_apart b"
    and st: "capturing (gpu_after L np t) = None" "instantiations t < MAX_BODY"
  shows "\<exists>g t'. capture_slot L b stream s t = (Ok g, t') \<and> holds b stream np (gpu_after L np t') s g
    \<and> instantiations t' = Suc (instantiations t) \<and> cg_exec g \<notin> dom (exec_body (gpu_after L np t))
    \<and> capturing (gpu_after L np t') = None \<and> executed (gpu_after L np t') = executed (gpu_after L np t)
    \<and> (\<forall>e. e \<noteq> cg_exec g \<longrightarrow> exec_body (gpu_after L np t') e = exec_body (gpu_after L np t) e)"
proof -
  define st0 where "st0 = gpu_after L np t"
  define body where "body = random_calls b s stream 0 @ post_calls b s stream"
  note bf = body_facts(1,2) [OF b, where stream = stream and i = 0, folded body_def]
    and c0 = body_facts(3,4) [OF b, of stream]
  from c0(1) [of 0] c0(2) obtain c where c: "body = c # post_calls b s stream" "launched c = Some (h_random (handles b))"
    "\<forall>d \<in> set (post_calls b s stream). launched d \<noteq> Some (h_random (handles b))" unfolding body_def by auto
  define t1 where "t1 = t @ CuStreamBeginCapture stream # body"
  define g where "g = snd (reply L t1 (CuStreamEndCapture stream))"
  define t2 where "t2 = t1 @ [CuStreamEndCapture stream]"
  define ex where "ex = snd (reply L t2 (CuGraphInstantiate g))"
  define t3 where "t3 = t2 @ [CuGraphInstantiate g]"
  define t4 where "t4 = t3 @ [CuGraphGetNodes g False]"
  define c' where "c' = CuGraphGetNodes g True"
  define ns where "ns = reply_nodes L t4 c'"
  have "gpu_after L np t1 = push body (st0\<lparr>capturing := Some []\<rparr>)"
    using gpu_after_stream [of body L np "t @ [CuStreamBeginCapture stream]"] bf(1)
    by (simp add: t1_def gpu_after_snoc st0_def)
  then have st1: "gpu_after L np t1 = st0\<lparr>capturing := Some body\<rparr>" by (simp add: push_def)
  have st2: "gpu_after L np t2 = st0\<lparr>capturing := None, graph_body := (graph_body st0)(g \<mapsto> body)\<rparr>"
    unfolding t2_def gpu_after_snoc st1 by (simp add: g_def)
  have st3: "gpu_after L np t3 = st0\<lparr>capturing := None, graph_body := (graph_body st0)(g \<mapsto> body),
      exec_body := (exec_body st0)(ex \<mapsto> body)\<rparr>"
    unfolding t3_def gpu_after_snoc st2 by (simp add: ex_def)
  have st4: "gpu_after L np t4 = gpu_after L np t3" unfolding t4_def by (rule gpu_after_inert) simp
  have inst: "instantiations t2 = instantiations t"
    using instantiations_none [of body] bf(1)
    by (simp add: t2_def t1_def instantiations_append instantiations_Cons) (simp add: instantiations_def)
  have fresh: "ex \<notin> dom (exec_body st0)"
  proof -
    have "ex \<notin> dom (exec_body (gpu_after L np t2))"
      using L(2) st(2) inst unfolding graph_driver_def ex_def by metis
    then show ?thesis by (simp add: st2)
  qed
  have "graph_body (gpu_after L np t4) g = Some body" by (simp add: st4 st3)
  with L(2) bf(2) have nodes: "distinct (map np ns)" "set (map np ns) = {..<length body}"
      "\<forall>n \<in> set ns. \<forall>qs. (\<forall>q \<in> set qs. graph_query q) \<longrightarrow>
            (snd (reply L (t4 @ c' # qs) (CuGraphNodeGetType n)) = GRAPH_NODE_TYPE_KERNEL
               \<longleftrightarrow> launched (body ! np n) \<noteq> None)
          \<and> (\<forall>f. launched (body ! np n) = Some f \<longrightarrow> snd (reply L (t4 @ c' # qs) (CuGraphKernelNodeGetParams n)) = f)"
    unfolding graph_driver_def ns_def c'_def body_def [symmetric] by (auto simp: Let_def)
  obtain node where node: "np node = 0"
      "filter (\<lambda>n. launched (body ! np n) = Some (h_random (handles b))) ns = [node]"
    using unique_node [OF nodes(1,2) c] by blast
  obtain qs where qs: "\<forall>q \<in> set qs. graph_query q"
      "matching_nodes L (h_random (handles b)) ns (t4 @ [c']) = (Ok [node], (t4 @ [c']) @ qs)"
    using matching_nodes_spec [OF L(1), of ns "t4 @ [c']" "\<lambda>n. launched (body ! np n)" "h_random (handles b)"] nodes(3)
    unfolding node(2) by auto
  define t5 where "t5 = t4 @ c' # qs"
  have st5: "gpu_after L np t5 = gpu_after L np t3"
    unfolding t5_def st4 [symmetric] by (rule gpu_after_inert) (use qs(1) query_inert in \<open>auto simp: c'_def\<close>)
  define res where "res = \<lparr>cg_graph = g, cg_exec = ex, cg_random = Some (random_record b s node)\<rparr>"
  have rnd: "random_fill_a L b 0 s stream (t @ [CuStreamBeginCapture stream])
      = (Ok (), (t @ [CuStreamBeginCapture stream]) @ random_calls b s stream 0)"
    unfolding random_calls_def by (rule uniform_run [OF uniform_random [OF b(1,2)] L(1)])
  have post: "mine_one_post_random L b s stream ((t @ [CuStreamBeginCapture stream]) @ random_calls b s stream 0)
      = (Ok (), t1)"
    using uniform_run [OF uniform_post [OF b(1,2)] L(1), of stream] by (simp add: post_calls_def t1_def body_def)
  have gend: "graph_end L stream t1 = (Ok \<lparr>cg_graph = g, cg_exec = ex, cg_random = None\<rparr>, t3)"
    by (simp add: graph_end_def bind_value_ok [OF L(1)] drv_res_def g_def ex_def t2_def t3_def)
  have gnodes: "graph_nodes L g t4 = (Ok ns, t4 @ [c'])"
    by (simp add: graph_nodes_def cu_do_ok [OF L(1)] ns_def c'_def)
  have rcd: "record_mutable_random_int8 L \<lparr>cg_graph = g, cg_exec = ex, cg_random = None\<rparr> (h_random (handles b))
      (of_nat (mb_m b * mb_k b)) (buf_ptr (seed_tensor (jobs b))) (buf_ptr (a_pool (rings b) ! s))
      (random_grid_x (of_nat (mb_m b * mb_k b))) BLOCK_X t3 = (Ok res, t5)"
    by (simp add: record_mutable_random_int8_def bind_do_ok [OF L(1)] t4_def [symmetric]
        drv_bind_apply [where m = "graph_nodes L g", OF gnodes] res_def random_record_def t5_def drv_res_def
        drv_bind_apply [where m = "matching_nodes L (h_random (handles b)) ns", OF qs(2)])
  have run: "capture_slot L b stream s t = (Ok res, t5)"
    unfolding capture_slot_def graph_begin_def Let_def
    by (simp only: bind_do_ok [OF L(1)] drv_bind_apply [where m = "random_fill_a L b 0 s stream", OF rnd]
        drv_bind_apply [where m = "mine_one_post_random L b s stream", OF post]
        drv_bind_apply [where m = "graph_end L stream", OF gend] rcd)
  have "instantiations qs = 0" using qs(1) query_inert by (intro instantiations_none) blast
  with inst have i5: "instantiations t5 = Suc (instantiations t)"
    by (simp add: t5_def t4_def t3_def c'_def instantiations_append instantiations_Cons)
  have "random_record b s node = (random_record b s node)\<lparr>arg_iter := 0\<rparr>" by (simp add: random_record_def)
  with node(1) have "holds b stream np (gpu_after L np t5) s res"
    unfolding holds_def st5 st3 by (auto simp: res_def body_def)
  with run i5 fresh show ?thesis by (auto simp: st5 st3 res_def st0_def)
qed

definition ready :: "miner_bufs \<Rightarrow> ptr \<Rightarrow> (ptr \<Rightarrow> nat) \<Rightarrow> gpu \<Rightarrow> captured_graph list \<Rightarrow> bool" where
  "ready b stream np st gs \<longleftrightarrow> capturing st = None \<and> length gs = ring_size b
     \<and> (\<forall>s < ring_size b. holds b stream np st s (gs ! s)) \<and> distinct (map cg_exec gs)"

lemma capture_slots_hold:
  assumes L: "all_succeed L" "graph_driver L np" and b: "iter_ok b" "random_apart b"
    and "\<forall>s \<in> set ss. s < ring_size b"
    and "capturing (gpu_after L np t) = None" "instantiations t + length ss \<le> MAX_BODY"
  shows "\<exists>gs t'. drv_map (capture_slot L b stream) ss t = (Ok gs, t') \<and> length gs = length ss
    \<and> capturing (gpu_after L np t') = None \<and> executed (gpu_after L np t') = executed (gpu_after L np t)
    \<and> list_all2 (holds b stream np (gpu_after L np t')) ss gs \<and> distinct (map cg_exec gs)
    \<and> cg_exec ` set gs \<inter> dom (exec_body (gpu_after L np t)) = {}
    \<and> (\<forall>e. e \<notin> cg_exec ` set gs \<longrightarrow> exec_body (gpu_after L np t') e = exec_body (gpu_after L np t) e)"
  using assms(5-7)
proof (induction ss arbitrary: t)
  case Nil
  then show ?case by (simp add: drv_res_def)
next
  case (Cons s ss)
  have "s < ring_size b" "instantiations t < MAX_BODY" using Cons.prems by simp_all
  from capture_slot_holds [OF L b(1) this(1) b(2) Cons.prems(2) this(2), of stream]
  obtain g t1 where g: "capture_slot L b stream s t = (Ok g, t1)" "holds b stream np (gpu_after L np t1) s g"
    "instantiations t1 = Suc (instantiations t)" "cg_exec g \<notin> dom (exec_body (gpu_after L np t))"
    "capturing (gpu_after L np t1) = None" "executed (gpu_after L np t1) = executed (gpu_after L np t)"
    "\<forall>e. e \<noteq> cg_exec g \<longrightarrow> exec_body (gpu_after L np t1) e = exec_body (gpu_after L np t) e" by blast
  from Cons.IH [of t1] Cons.prems g(3,5)
  obtain gs t2 where gs: "drv_map (capture_slot L b stream) ss t1 = (Ok gs, t2)" "length gs = length ss"
    "capturing (gpu_after L np t2) = None" "executed (gpu_after L np t2) = executed (gpu_after L np t1)"
    "list_all2 (holds b stream np (gpu_after L np t2)) ss gs" "distinct (map cg_exec gs)"
    "cg_exec ` set gs \<inter> dom (exec_body (gpu_after L np t1)) = {}"
    "\<forall>e. e \<notin> cg_exec ` set gs \<longrightarrow> exec_body (gpu_after L np t2) e = exec_body (gpu_after L np t1) e" by auto
  have "cg_exec g \<in> dom (exec_body (gpu_after L np t1))" using g(2) by (auto simp: holds_def)
  with gs(7) have apart: "cg_exec g \<notin> cg_exec ` set gs" by blast
  then have "holds b stream np (gpu_after L np t2) s g" using g(2) gs(8) by (simp add: holds_def)
  moreover have "cg_exec ` set gs \<inter> dom (exec_body (gpu_after L np t)) = {}"
  proof -
    have "exec_body (gpu_after L np t1) e \<noteq> None" if "exec_body (gpu_after L np t) e \<noteq> None" for e
      using that g(4,7) by (cases "e = cg_exec g") auto
    then have "dom (exec_body (gpu_after L np t)) \<subseteq> dom (exec_body (gpu_after L np t1))" by (auto simp: dom_def)
    with gs(7) show ?thesis by blast
  qed
  moreover have "drv_map (capture_slot L b stream) (s # ss) t = (Ok (g # gs), t2)"
    by (simp add: drv_bind_apply [where m = "capture_slot L b stream s", OF g(1)]
        drv_bind_apply [where m = "drv_map (capture_slot L b stream) ss", OF gs(1)] drv_res_def)
  ultimately show ?case using apart g gs by (intro exI [of _ "g # gs"] exI [of _ t2]) auto
qed

lemma capture_ready:
  assumes "all_succeed L" "graph_driver L np" "iter_ok b" "random_apart b"
    and "capturing (gpu_after L np t) = None" "instantiations t + ring_size b \<le> MAX_BODY"
  shows "\<exists>gs t'. capture_all_slots L b stream t = (Ok gs, t') \<and> ready b stream np (gpu_after L np t') gs
    \<and> executed (gpu_after L np t') = executed (gpu_after L np t)"
proof -
  from capture_slots_hold [OF assms(1-4), of "[0..<ring_size b]" t stream] assms(5,6)
  obtain gs t' where "drv_map (capture_slot L b stream) [0..<ring_size b] t = (Ok gs, t')"
    "length gs = ring_size b" "capturing (gpu_after L np t') = None"
    "executed (gpu_after L np t') = executed (gpu_after L np t)"
    "list_all2 (holds b stream np (gpu_after L np t')) [0..<ring_size b] gs" "distinct (map cg_exec gs)" by auto
  then show ?thesis by (auto simp: capture_all_slots_def ready_def list_all2_conv_all_nth)
qed

section \<open>Replay\<close>

text \<open>A batch of the worker: one replay per index.\<close>

fun mine_batch ::
  "cuda_lib \<Rightarrow> miner_bufs \<Rightarrow> u64 list \<Rightarrow> captured_graph list \<Rightarrow> ptr \<Rightarrow> captured_graph list drv" where
  "mine_batch L b [] graphs stream = drv_return graphs"
| "mine_batch L b (i # is) graphs stream =
     drv_bind (mine_one_with_graphs L b i graphs stream) (\<lambda>graphs. mine_batch L b is graphs stream)"

lemma replay_step:
  assumes L: "all_succeed L" and b: "iter_ok b" "random_apart b"
    and ready: "ready b stream np (gpu_after L np t) gs"
  shows "\<exists>gs' t'. mine_one_with_graphs L b i gs stream t = (Ok gs', t')
    \<and> ready b stream np (gpu_after L np t') gs'
    \<and> executed (gpu_after L np t') = executed (gpu_after L np t) @ calls (\<lambda>L. mine_one L b i stream)"
proof -
  obtain s where s: "slot b i = Ok s" using b by (auto simp: slot_def iter_ok_def)
  from mine_one_bind(2) [OF b(1) s] have lt: "s < ring_size b" .
  define st where "st = gpu_after L np t"
  define g where "g = gs ! s"
  have len: "length gs = ring_size b" and cap: "capturing st = None" and dist: "distinct (map cg_exec gs)"
    and "holds b stream np st s g" using ready lt by (simp_all add: ready_def st_def g_def)
  then obtain i0 node j where body: "exec_body st (cg_exec g) = Some (random_calls b s stream i0 @ post_calls b s stream)"
    and node: "np node = 0" "cg_random g = Some ((random_record b s node)\<lparr>arg_iter := j\<rparr>)" unfolding holds_def by blast
  define m' where "m' = (random_record b s node)\<lparr>arg_iter := i\<rparr>"
  define g' where "g' = g\<lparr>cg_random := Some m'\<rparr>"
  define fill where "fill = HostFill (host_ptr (host_signal_header_pool (rings b) ! s)) 0
     (pin_size (host_signal_header_pool (rings b) ! s))"
  define t' where "t' = t @ [fill, CuGraphExecKernelNodeSetParams (cg_exec g) node (random_node_params m'),
     CuGraphLaunch (cg_exec g) stream]"
  define body' where "body' = random_calls b s stream i @ post_calls b s stream"
  have run: "mine_one_with_graphs L b i gs stream t = (Ok (gs[s := g']), t')"
    using lt len b(1) node
    by (simp add: mine_one_with_graphs_def s drv_bind_return bind_assert zero_cpu_def bind_host iter_ok_def
        fill_def [symmetric] launch_with_iter_idx_def g_def [symmetric] Let_def)
       (simp add: drv_bind_def cu_do_ok [OF L] graph_launch_def drv_res_def t'_def g'_def m'_def random_record_def)
  have st': "gpu_after L np t' = st\<lparr>executed := executed st @ [fill] @ body', exec_body := (exec_body st)(cg_exec g \<mapsto> body')\<rparr>"
  proof -
    have "(random_calls b s stream i0 @ post_calls b s stream)[0 := set_params (random_node_params m')
        ((random_calls b s stream i0 @ post_calls b s stream) ! 0)] = body'"
      using random_calls_eq [OF b(1) lt, of stream i0 node] random_calls_eq [OF b(1) lt, of stream i node]
      by (simp add: body'_def m'_def)
    moreover have "t' = ((t @ [fill]) @ [CuGraphExecKernelNodeSetParams (cg_exec g) node (random_node_params m')])
        @ [CuGraphLaunch (cg_exec g) stream]" by (simp add: t'_def)
    ultimately show ?thesis
      using body node(1) cap by (simp only: gpu_after_snoc) (simp add: st_def [symmetric] fill_def push_def)
  qed
  have ex: "cg_exec (gs ! r) = cg_exec g \<longleftrightarrow> r = s" if "r < ring_size b" for r
    using dist that lt len nth_eq_iff_index_eq [of "map cg_exec gs" r s] by (auto simp: g_def)
  have "holds b stream np (gpu_after L np t') r (gs[s := g'] ! r)" if "r < ring_size b" for r
  proof (cases "r = s")
    case True
    with len lt node(1) show ?thesis unfolding holds_def st' by (auto simp: g'_def body'_def m'_def)
  next
    case False
    with ready that ex [OF that] show ?thesis unfolding ready_def holds_def st' st_def [symmetric] by auto
  qed
  moreover have "map cg_exec (gs[s := g']) = map cg_exec gs"
    by (simp add: map_update g'_def g_def) (metis list_update_id map_update)
  ultimately have "ready b stream np (gpu_after L np t') (gs[s := g'])"
    using len cap dist by (simp add: ready_def st')
  moreover have "executed (gpu_after L np t') = executed (gpu_after L np t) @ calls (\<lambda>L. mine_one L b i stream)"
    by (simp add: st' calls_mine_one [OF b(1) s] fill_def body'_def random_calls_def post_calls_def st_def)
  ultimately show ?thesis using run by blast
qed

lemma batch_executes:
  assumes "all_succeed L" "iter_ok b" "random_apart b" "ready b stream np (gpu_after L np t) gs"
  shows "\<exists>gs' t'. mine_batch L b is gs stream t = (Ok gs', t') \<and> ready b stream np (gpu_after L np t') gs'
    \<and> executed (gpu_after L np t')
       = executed (gpu_after L np t) @ concat (map (\<lambda>i. calls (\<lambda>L. mine_one L b i stream)) is)"
  using assms(4)
proof (induction "is" arbitrary: gs t)
  case Nil
  then show ?case by (auto simp: drv_res_def)
next
  case (Cons i "is")
  from replay_step [OF assms(1-3) Cons.prems, of i] obtain gs1 t1 where
    one: "mine_one_with_graphs L b i gs stream t = (Ok gs1, t1)" "ready b stream np (gpu_after L np t1) gs1"
      "executed (gpu_after L np t1) = executed (gpu_after L np t) @ calls (\<lambda>L. mine_one L b i stream)" by blast
  from Cons.IH [OF one(2)] one(3) show ?case
    by (simp add: drv_bind_apply [where m = "mine_one_with_graphs L b i gs stream", OF one(1)])
qed

text \<open>C3: Capturing an iteration per ring slot executes nothing on the device, and from then on
  replaying the captured graphs, with the iteration index patched into the one mutable node, executes
  for every sequence of iteration indices exactly the calls the eager iterations would issue, in the
  same order and with the same arguments.\<close>

theorem replay_is_eager:
  assumes "all_succeed L" "graph_driver L np" "iter_ok b" "random_apart b"
    and "capturing (gpu_after L np t) = None" "instantiations t + ring_size b \<le> MAX_BODY"
  shows "\<exists>graphs t1. capture_all_slots L b stream t = (Ok graphs, t1)
    \<and> executed (gpu_after L np t1) = executed (gpu_after L np t)
    \<and> (\<forall>is. \<exists>graphs' t2. mine_batch L b is graphs stream t1 = (Ok graphs', t2)
          \<and> executed (gpu_after L np t2)
             = executed (gpu_after L np t) @ concat (map (\<lambda>i. calls (\<lambda>L. mine_one L b i stream)) is))"
proof -
  from capture_ready [OF assms, of stream] obtain gs t1 where gs: "capture_all_slots L b stream t = (Ok gs, t1)"
    "ready b stream np (gpu_after L np t1) gs" "executed (gpu_after L np t1) = executed (gpu_after L np t)" by blast
  from batch_executes [OF assms(1,3,4) gs(2)] gs(3) have
    "\<exists>graphs' t2. mine_batch L b is gs stream t1 = (Ok graphs', t2)
          \<and> executed (gpu_after L np t2)
             = executed (gpu_after L np t) @ concat (map (\<lambda>i. calls (\<lambda>L. mine_one L b i stream)) is)" for "is"
    by metis
  with gs show ?thesis by blast
qed

section \<open>A driver with graphs\<close>

text \<open>Handles are numbered, the nodes of the one graph by position.\<close>

definition numbered_reply :: "cu_call list \<Rightarrow> cu_call \<Rightarrow> cu_result \<times> u64" where
  "numbered_reply t c = (CUDA_SUCCESS, if instantiates c then of_nat (instantiations t) else 0)"

definition base_driver :: cuda_lib where
  "base_driver = ok_driver\<lparr>reply := numbered_reply\<rparr>"

definition sample_body :: "cu_call list \<Rightarrow> cu_call list" where
  "sample_body t = (case graph_body (gpu_after base_driver unat t) 0 of Some b \<Rightarrow> b | None \<Rightarrow> [])"

fun query_reply :: "cu_call list \<Rightarrow> cu_call \<Rightarrow> cu_result \<times> u64" where
  "query_reply t (CuGraphNodeGetType n) =
     (CUDA_SUCCESS, case launched (sample_body t ! unat n) of Some f \<Rightarrow> GRAPH_NODE_TYPE_KERNEL | None \<Rightarrow> 1)"
| "query_reply t (CuGraphKernelNodeGetParams n) =
     (CUDA_SUCCESS, case launched (sample_body t ! unat n) of Some f \<Rightarrow> f | None \<Rightarrow> 0)"
| "query_reply t c = numbered_reply t c"

definition sample_driver :: cuda_lib where
  "sample_driver = ok_driver\<lparr>reply := query_reply,
     reply_nodes := (\<lambda>t c. map of_nat [0..<length (sample_body t)])\<rparr>"

lemma driver_replies [simp]:
  "reply base_driver = numbered_reply" "reply sample_driver = query_reply"
  "reply_nodes sample_driver t c = map of_nat [0..<length (sample_body t)]"
  by (simp_all add: base_driver_def sample_driver_def)

lemma sample_driver_succeeds: "all_succeed sample_driver"
proof -
  have "fst (query_reply t c) = CUDA_SUCCESS" for t c by (cases c) (simp_all add: numbered_reply_def)
  then show ?thesis by (simp add: all_succeed_def)
qed

lemma gpu_after_sample: "gpu_after sample_driver unat t = gpu_after base_driver unat t"
proof (induction t rule: rev_induct)
  case (snoc c t)
  then show ?case
    by (cases c) (simp_all add: gpu_after_snoc cong: option.case_cong)
qed (simp add: gpu_after_def)

lemma base_handles:
  "dom (graph_body (gpu_after base_driver unat t)) \<subseteq> {0}
   \<and> dom (exec_body (gpu_after base_driver unat t)) \<subseteq> (\<lambda>k. of_nat k) ` {..<instantiations t}"
proof (induction t rule: rev_induct)
  case Nil
  show ?case by (simp add: gpu_after_def gpu_init_def)
next
  case (snoc c t)
  have i: "instantiations (t @ [c]) = (if instantiates c then Suc (instantiations t) else instantiations t)" for c
    by (simp add: instantiations_append instantiations_Cons) (simp add: instantiations_def)
  from snoc show ?case
    by (cases c) (auto simp: gpu_after_snoc numbered_reply_def i push_def lessThan_Suc
      split: option.splits if_splits dest: subsetD [OF _ domI])
qed

lemma sample_graph_driver: "graph_driver sample_driver unat"
  unfolding graph_driver_def Let_def gpu_after_sample
proof (intro conjI allI impI ballI)
  fix t g body assume body: "graph_body (gpu_after base_driver unat t) g = Some body \<and> length body < MAX_BODY"
  with base_handles [of t] have "g = 0" by blast
  with body have sb: "sample_body t = body" by (simp add: sample_body_def)
  have small: "unat (of_nat k :: u64) = k" if "k < length body" for k
    using that body by (simp add: MAX_BODY_def unat_of_nat)
  have m: "map unat (map of_nat [0..<length body] :: u64 list) = [0..<length body]"
    using small by (auto intro!: nth_equalityI)
  show "distinct (map unat (reply_nodes sample_driver t (CuGraphGetNodes g True)))"
    and "set (map unat (reply_nodes sample_driver t (CuGraphGetNodes g True))) = {..<length body}"
    unfolding driver_replies sb m by auto
  fix n and qs assume "\<forall>q \<in> set qs. graph_query q"
  then have "sample_body (t @ CuGraphGetNodes g True # qs) = body"
    using gpu_after_inert [of "CuGraphGetNodes g True # qs" base_driver unat t] query_inert sb
    by (auto simp: sample_body_def)
  then show "(snd (reply sample_driver (t @ CuGraphGetNodes g True # qs) (CuGraphNodeGetType n)) = GRAPH_NODE_TYPE_KERNEL)
      = (launched (body ! unat n) \<noteq> None)"
    and "\<And>f. launched (body ! unat n) = Some f \<Longrightarrow>
      snd (reply sample_driver (t @ CuGraphGetNodes g True # qs) (CuGraphKernelNodeGetParams n)) = f"
    by (auto simp: GRAPH_NODE_TYPE_KERNEL_def split: option.splits)
next
  fix t g assume small: "instantiations t < MAX_BODY"
  have "(of_nat (instantiations t) :: u64) \<noteq> of_nat k" if "k < instantiations t" for k
    using that small by (auto simp: MAX_BODY_def dest!: arg_cong [where f = unat] simp: unat_of_nat)
  then have "of_nat (instantiations t) \<notin> (\<lambda>k. of_nat k :: u64) ` {..<instantiations t}" by auto
  with base_handles [of t] have "of_nat (instantiations t) \<notin> dom (exec_body (gpu_after base_driver unat t))" by blast
  then show "snd (reply sample_driver t (CuGraphInstantiate g)) \<notin> dom (exec_body (gpu_after base_driver unat t))"
    by (simp add: numbered_reply_def)
qed

text \<open>A small miner of the C++ path, with two slots and numbered buffers and kernels.\<close>

definition sample_bufs :: miner_bufs where
  "sample_bufs =
     (let d = (\<lambda>p n. \<lparr>buf_ptr = p, buf_size = n\<rparr>); h = (\<lambda>p n. \<lparr>host_ptr = p, device_ptr = p, pin_size = n\<rparr>) in
      \<lparr>mb_m = 128, mb_n = 128, mb_k = 128, mb_r = 128, ring_size = 2, num_tiles = 1,
       rings = \<lparr>a_pool = [d 1 16384, d 2 16384], a_tensor_hash_pool = [d 3 32, d 4 32],
         commit_a_pool = [d 5 32, d 6 32], commit_b_pool = [d 7 32, d 8 32],
         host_signal_header_pool = [h 9 1024, h 10 1024], a_snapshot_pool = [h 11 16384, h 12 16384],
         commit_a_snapshot_pool = [h 13 32, h 14 32], commit_b_snapshot_pool = [h 15 32, h 16 32]\<rparr>,
       jobs = \<lparr>b_buf = d 17 16384, b_tensor_hash = d 18 32, key_tensor = d 19 32, pow_target_tensor = d 20 32,
         b_pinned = h 21 16384, seed_tensor = d 22 32\<rparr>,
       shared = \<lparr>a_scales = d 23 512, b_scales = d 24 512, eal = d 25 16384, ebr = d 26 16384,
         ear_r_major = d 27 16384, ebl_r_major = d 28 16384, ear_k_major = d 29 16384, ebl_k_major = d 30 16384,
         eal_fp16 = d 31 32768, ebr_fp16 = d 32 32768, bp_eb = d 33 16384, earx_bp_eb = d 34 32768,
         ap_ea = d 35 16384, a_e_bl = d 36 32768, pow_workspace_hit = d 37 256, pow_workspace_hash = d 38 8192,
         pow_workspace_scan = d 39 4, seed_label_a = d 40 32, seed_label_b = d 41 32\<rparr>,
       handles = \<lparr>h_random = 1, h_tensor_hash = \<lparr>chunk_cv_root = 2, chunk_cv_noroot = 3, merkle_layer_fn = 4,
           th_scratch = d 42 1024, scratch_u32_capacity = 256\<rparr>, h_commitment = 5,
         h_noise = \<lparr>dense_int8 = 6, dense_fp16 = 7, sparse = 8, transpose_fn = 9\<rparr>,
         h_gemm = \<lparr>add_gemm = 10, gemm_int32 = 11, int32_to_fp16 = 12\<rparr>, h_search = 13,
         h_scan_emit = \<lparr>scan_fn = 14, emit_fn = 15\<rparr>\<rparr>,
       triton = None, cached_header = None\<rparr>)"

lemma sample_bufs_ok: "iter_ok sample_bufs" "random_apart sample_bufs"
  by (simp_all add: iter_ok_def random_apart_def iteration_fns_def hash_fns_def hash_fits_def TH_CHUNK_LEN_def
      OUT_LEN_U32_def sample_bufs_def Let_def)

lemma replay_is_eager_witness:
  "\<exists>graphs t1. capture_all_slots sample_driver sample_bufs 7 [] = (Ok graphs, t1)
    \<and> executed (gpu_after sample_driver unat t1) = []
    \<and> (\<exists>graphs' t2. mine_batch sample_driver sample_bufs [4, 5] graphs 7 t1 = (Ok graphs', t2)
          \<and> executed (gpu_after sample_driver unat t2)
             = calls (\<lambda>L. mine_one L sample_bufs 4 7) @ calls (\<lambda>L. mine_one L sample_bufs 5 7))"
proof -
  have start: "capturing (gpu_after sample_driver unat []) = None" "executed (gpu_after sample_driver unat []) = []"
    by (simp_all add: gpu_after_def gpu_init_def)
  have "instantiations [] + ring_size sample_bufs \<le> MAX_BODY"
    by (simp add: instantiations_def MAX_BODY_def sample_bufs_def)
  from replay_is_eager [OF sample_driver_succeeds sample_graph_driver sample_bufs_ok start(1) this, of 7]
  obtain graphs t1 where g: "capture_all_slots sample_driver sample_bufs 7 [] = (Ok graphs, t1)"
    "executed (gpu_after sample_driver unat t1) = []"
    "\<forall>is. \<exists>graphs' t2. mine_batch sample_driver sample_bufs is graphs 7 t1 = (Ok graphs', t2)
          \<and> executed (gpu_after sample_driver unat t2) = concat (map (\<lambda>i. calls (\<lambda>L. mine_one L sample_bufs i 7)) is)"
    unfolding start(2) append_Nil by blast
  from g(3) [rule_format, of "[4, 5]"] g(1,2) show ?thesis by auto
qed
end
