(* ===== verification/Signal_Header.thy ===== *)
theory Signal_Header
  imports Miner_Error
begin

text \<open>
  The buffer the search kernel writes for a hit (src/proof/signal_header.rs): its parser and the
  global row and column indices a winning thread covered.  \<open>usize\<close> products and sums of the
  kernel's numbers are 64-bit words, which wrap in a release build.
\<close>

definition STATUS_IDLE :: u32 where "STATUS_IDLE = 0"
definition STATUS_TRIGGERED :: u32 where "STATUS_TRIGGERED = 1"

record signal_header =
  status :: u32
  grid_dim :: "u32 list"
  block_dim :: "u32 list"
  block_idx :: "u32 list"
  tile_coord :: "u32 list"
  thread_idx :: "u32 list"
  num_registers_per_thread :: u16
  thread_rows :: bytes
  thread_cols :: bytes
  mma_size :: "u32 list"
  mma_tile_size :: "u32 list"
  sig_target :: "u32 list"

text \<open>\<open>buf[off..off + 4].try_into().unwrap()\<close> panics outside the buffer.\<close>

definition u32at :: "bytes \<Rightarrow> nat \<Rightarrow> u32 miner_res" where
  "u32at buf off = res_bind (subrange_res off (off + 4) buf) (\<lambda>bs. Ok (u32_from_le bs))"

definition u32s_at :: "bytes \<Rightarrow> nat list \<Rightarrow> u32 list miner_res" where
  "u32s_at buf offs = res_map (u32at buf) offs"

text \<open>The \<open>i32\<close> fields are read as the 32-bit words they are.\<close>

definition signal_parse :: "bytes \<Rightarrow> signal_header miner_res" where
  "signal_parse buf =
     (if length buf < 636 then Err (RpcError ''header_parse'' ''buffer too small'')
      else
      res_bind (u32at buf 0) (\<lambda>st.
      res_bind (u32s_at buf [4, 8, 12]) (\<lambda>gd.
      res_bind (u32s_at buf [16, 20, 24]) (\<lambda>bd.
      res_bind (u32s_at buf [28, 32, 36]) (\<lambda>bi.
      res_bind (u32s_at buf [40, 44, 48]) (\<lambda>tc.
      res_bind (u32s_at buf [52, 56, 60]) (\<lambda>ti.
      res_bind (subrange_res 64 66 buf) (\<lambda>nb.
      let nregs = u16_from_le nb; n = unat nregs;
          n_eff = (if n = 0 then 64 else min n 256) in
      res_bind (subrange_res 66 (66 + n_eff) buf) (\<lambda>rows.
      res_bind (subrange_res 322 (322 + n_eff) buf) (\<lambda>cols.
      res_bind (u32s_at buf [580, 584, 588]) (\<lambda>ms.
      res_bind (u32s_at buf [592, 596, 600]) (\<lambda>mts.
      res_bind (u32s_at buf (map (\<lambda>i. 604 + i * 4) [0..<8])) (\<lambda>tgt.
      Ok \<lparr>status = st, grid_dim = gd, block_dim = bd, block_idx = bi, tile_coord = tc,
          thread_idx = ti, num_registers_per_thread = nregs, thread_rows = rows,
          thread_cols = cols, mma_size = ms, mma_tile_size = mts, sig_target = tgt\<rparr>)))))))))))))"

definition is_triggered :: "signal_header \<Rightarrow> bool" where
  "is_triggered h \<longleftrightarrow> status h = STATUS_TRIGGERED"

text \<open>\<open>i32 as usize\<close> sign-extends.\<close>

definition extract_axis :: "signal_header \<Rightarrow> nat \<Rightarrow> bytes \<Rightarrow> nat list" where
  "extract_axis h axis locals =
     (let tile = (ucast (tile_coord h ! axis) :: u64) * scast (mma_tile_size h ! axis)
      in remdups_adj (sort (map (\<lambda>r. unat (tile + ucast r)) locals)))"

definition extract_indices :: "signal_header \<Rightarrow> nat list \<times> nat list" where
  "extract_indices h = (extract_axis h 0 (thread_rows h), extract_axis h 1 (thread_cols h))"

section \<open>Parsing\<close>

lemma u32at_Ok: "off + 4 \<le> length buf \<Longrightarrow> u32at buf off = Ok (u32_from_le (subrange off (off + 4) buf))"
  by (simp add: u32at_def subrange_res_def)

lemma u32s_at_Ok:
  "\<forall>off \<in> set offs. off + 4 \<le> length buf \<Longrightarrow>
   u32s_at buf offs = Ok (map (\<lambda>off. u32_from_le (subrange off (off + 4) buf)) offs)"
  unfolding u32s_at_def by (rule res_map_all_Ok) (simp add: u32at_Ok)

abbreviation word_at :: "bytes \<Rightarrow> nat \<Rightarrow> u32" where
  "word_at buf off \<equiv> u32_from_le (subrange off (off + 4) buf)"

lemma signal_parse_fields:
  "signal_parse buf =
     (if length buf < 636 then Err (RpcError ''header_parse'' ''buffer too small'')
      else let n = unat (u16_from_le (subrange 64 66 buf)); k = (if n = 0 then 64 else min n 256)
        in Ok \<lparr>status = word_at buf 0, grid_dim = map (word_at buf) [4, 8, 12],
          block_dim = map (word_at buf) [16, 20, 24], block_idx = map (word_at buf) [28, 32, 36],
          tile_coord = map (word_at buf) [40, 44, 48], thread_idx = map (word_at buf) [52, 56, 60],
          num_registers_per_thread = u16_from_le (subrange 64 66 buf),
          thread_rows = take k (drop 66 buf), thread_cols = take k (drop 322 buf),
          mma_size = map (word_at buf) [580, 584, 588], mma_tile_size = map (word_at buf) [592, 596, 600],
          sig_target = map (word_at buf) [604, 608, 612, 616, 620, 624, 628, 632]\<rparr>)"
proof (cases "length buf < 636")
  case True
  then show ?thesis by (simp add: signal_parse_def)
next
  case False
  define n where "n = unat (u16_from_le (subrange 64 66 buf))"
  define k where "k = (if n = 0 then 64 else min n 256)"
  have k: "k \<le> 256" by (simp add: k_def)
  have rows: "subrange_res 66 (66 + k) buf = Ok (take k (drop 66 buf))"
    and cols: "subrange_res 322 (322 + k) buf = Ok (take k (drop 322 buf))"
    and nb: "subrange_res 64 66 buf = Ok (subrange 64 66 buf)"
    using False k by (simp_all add: subrange_res_def subrange_def)
  have offs: "map (\<lambda>i. 604 + i * 4) [0..<8] = [604, 608, 612, 616, 620, 624, 628, 632 :: nat]"
    by (simp add: upt_conv_Cons)
  show ?thesis
    unfolding signal_parse_def offs nb res_bind.simps Let_def n_def [symmetric] k_def [symmetric] rows cols
    using False by (simp add: u32at_Ok u32s_at_Ok)
qed

text \<open>C29: The parser is total: a buffer below 636 bytes is an error, never a panic, and any longer
  one parses; its fields are the little-endian words at the documented offsets, and the row and
  column lists are the first \<open>n\<close> bytes of their 256-byte fields, where \<open>n\<close> is the register count
  capped at 256, or 64 when it is 0.\<close>

theorem signal_parse_layout:
  "signal_parse buf =
     (if length buf < 636 then Err (RpcError ''header_parse'' ''buffer too small'')
      else let n = unat (u16_from_le (subrange 64 66 buf)); k = (if n = 0 then 64 else min n 256)
        in Ok \<lparr>status = word_at buf 0, grid_dim = map (word_at buf) [4, 8, 12],
          block_dim = map (word_at buf) [16, 20, 24], block_idx = map (word_at buf) [28, 32, 36],
          tile_coord = map (word_at buf) [40, 44, 48], thread_idx = map (word_at buf) [52, 56, 60],
          num_registers_per_thread = u16_from_le (subrange 64 66 buf),
          thread_rows = take k (drop 66 buf), thread_cols = take k (drop 322 buf),
          mma_size = map (word_at buf) [580, 584, 588], mma_tile_size = map (word_at buf) [592, 596, 600],
          sig_target = map (word_at buf) [604, 608, 612, 616, 620, 624, 628, 632]\<rparr>)"
  by (rule signal_parse_fields)

section \<open>Indices\<close>

lemma distinct_remdups_adj_sorted: "sorted xs \<Longrightarrow> distinct (remdups_adj xs)"
  by (induction xs rule: remdups_adj.induct) force+

lemma extract_axis_sorted: "sorted_wrt (<) (extract_axis h axis locals)"
proof -
  have "sorted (extract_axis h axis locals)"
    by (simp add: extract_axis_def Let_def sorted_remdups_adj)
  moreover have "distinct (extract_axis h axis locals)"
    by (simp add: extract_axis_def Let_def distinct_remdups_adj_sorted)
  ultimately show ?thesis by (simp add: strict_sorted_iff)
qed

text \<open>C28: The index lists a hit reports are strictly increasing; for non-negative tile sizes they
  hold exactly the tile origin plus each thread-local index, with no wrap-around, so indices below
  the tile size stay inside the tile.\<close>

theorem extract_indices_exact:
  assumes "0 \<le> sint (mma_tile_size h ! 0)" and "0 \<le> sint (mma_tile_size h ! 1)"
  defines "tm \<equiv> unat (tile_coord h ! 0) * nat (sint (mma_tile_size h ! 0))"
    and "tn \<equiv> unat (tile_coord h ! 1) * nat (sint (mma_tile_size h ! 1))"
  shows "sorted_wrt (<) (fst (extract_indices h)) \<and> sorted_wrt (<) (snd (extract_indices h))
    \<and> set (fst (extract_indices h)) = (\<lambda>r. tm + unat r) ` set (thread_rows h)
    \<and> set (snd (extract_indices h)) = (\<lambda>c. tn + unat c) ` set (thread_cols h)"
proof -
  have axis: "set (extract_axis h a locals) = (\<lambda>r. unat (tile_coord h ! a) * nat (sint (mma_tile_size h ! a)) + unat r) ` set locals"
    if pos: "0 \<le> sint (mma_tile_size h ! a)" for a locals
  proof -
    define x y where "x = tile_coord h ! a" and "y = mma_tile_size h ! a"
    have y: "sint y < 2 ^ 31" "0 \<le> sint y" using sint_less [of y] pos by (simp_all add: y_def)
    have "uint (scast y :: u64) = sint y mod 2 ^ 64" by (simp only: scast_eq uint_word_of_int) simp
    then have uy: "unat (scast y :: u64) = nat (sint y)" using y by (simp add: unat_eq_nat_uint)
    have ux: "unat (ucast x :: u64) = unat x" using unat_u32_less [of x]
      by (simp add: unsigned_ucast_eq take_bit_nat_eq_self_iff)
    have "unat x * nat (sint y) \<le> 2 ^ 32 * 2 ^ 31"
      using unat_u32_less [of x] y by (intro mult_le_mono) simp_all
    then have small: "unat x * nat (sint y) \<le> 2 ^ 63" by simp
    then have prod: "unat (ucast x * scast y :: u64) = unat x * nat (sint y)"
      by (subst unat_mult_small) (simp_all add: ux uy)
    have "unat (ucast x * scast y + ucast r :: u64) = unat x * nat (sint y) + unat r" for r :: u8
    proof -
      have "unat (ucast r :: u64) = unat r" using unat_byte_less [of r]
        by (simp add: unsigned_ucast_eq take_bit_nat_eq_self_iff)
      then show ?thesis using prod small unat_byte_less [of r] by (subst unat_add_small) simp_all
    qed
    then show ?thesis by (simp add: extract_axis_def Let_def x_def y_def)
  qed
  show ?thesis
    using axis [OF assms(1)] axis [OF assms(2)] extract_axis_sorted by (simp add: extract_indices_def tm_def tn_def)
qed

definition sample_signal :: signal_header where
  "sample_signal = \<lparr>status = 1, grid_dim = [1, 1, 1], block_dim = [256, 1, 1], block_idx = [2, 3, 0],
     tile_coord = [2, 3, 0], thread_idx = [0, 0, 0], num_registers_per_thread = 2, thread_rows = [12, 4],
     thread_cols = [0, 1, 0], mma_size = [64, 64, 32], mma_tile_size = [128, 128, 64],
     sig_target = replicate 8 0\<rparr>"

theorem extract_indices_exact_witness:
  "set (fst (extract_indices sample_signal)) = {260, 268} \<and> set (snd (extract_indices sample_signal)) = {384, 385}"
  using extract_indices_exact [of sample_signal] by (simp add: sample_signal_def insert_commute)

end
