(* ===== verification/Live_Miner.thy ===== *)
theory Live_Miner imports Submit Graph_Replay Signal_Header begin

text \<open>
  The live miner (src/bin/live_miner.rs): configuration from the environment, jobs from templates, one worker per
  device, the template poller and the hit poller.  The threads interleave at the granularity of a worker's turn (one
  pass of its loop), one fetched template and one polled hit; what they share is the template cell, the channel of
  hits and the iteration counter.  Logging and sleeping are left out.  Parameters: the driver, the contents of
  pinned memory after a history of calls, the crates, and the environment.
\<close>

section \<open>Configuration\<close>

type_synonym env = "string \<Rightarrow> string option"

definition pick_config :: "env \<Rightarrow> bufs_config" where
  "pick_config env =
     (if env ''PEARL_CPP_SEARCH'' \<noteq> None then production
      else if env ''PEARL_SMALL_M'' \<noteq> None then shape_default
      else if env ''PEARL_49K'' \<noteq> None then shape_49k_n
      else if env ''PEARL_49K_M'' \<noteq> None then shape_49k_m
      else if env ''PEARL_GIGA'' \<noteq> None then shape_giga
      else if env ''PEARL_BIG_MN'' \<noteq> None then shape_big_mn
      else if env ''PEARL_BIG_M'' \<noteq> None then shape_big_m
      else shape_huge_m)"

text \<open>Strings are ASCII here: \<open>trim\<close> drops the six ASCII blanks.\<close>

definition is_blank :: "char \<Rightarrow> bool" where
  "is_blank c \<longleftrightarrow> c \<in> set (map char_of [9, 10, 11, 12, 13, 32 :: nat])"

definition trim :: "string \<Rightarrow> string" where
  "trim s = rev (dropWhile is_blank (rev (dropWhile is_blank s)))"

fun split_on :: "char \<Rightarrow> string \<Rightarrow> string list" where
  "split_on c [] = [[]]"
| "split_on c (x # xs) = (if x = c then [] # split_on c xs else (case split_on c xs of y # ys \<Rightarrow> (x # y) # ys | [] \<Rightarrow> [[x]]))"

text \<open>\<open>str::parse\<close>: an optional sign (a minus for signed types only), at least one digit, no overflow.\<close>

fun decimal :: "string \<Rightarrow> nat \<Rightarrow> nat option" where
  "decimal [] acc = Some acc"
| "decimal (c # cs) acc = (let n = of_char c :: nat in if 48 \<le> n \<and> n \<le> 57 then decimal cs (acc * 10 + (n - 48)) else None)"

definition digits_value :: "string \<Rightarrow> nat option" where
  "digits_value s = (if s = [] then None else decimal s 0)"

definition parse_i32 :: "string \<Rightarrow> i32 option" where
  "parse_i32 s =
     (case s of
        CHR ''-'' # ds \<Rightarrow> Option.bind (digits_value ds) (\<lambda>n. if n \<le> 2 ^ 31 then Some (- of_nat n) else None)
      | CHR ''+'' # ds \<Rightarrow> Option.bind (digits_value ds) (\<lambda>n. if n < 2 ^ 31 then Some (of_nat n) else None)
      | ds \<Rightarrow> Option.bind (digits_value ds) (\<lambda>n. if n < 2 ^ 31 then Some (of_nat n) else None))"

definition parse_u64 :: "string \<Rightarrow> u64 option" where
  "parse_u64 s =
     (case s of
        CHR ''+'' # ds \<Rightarrow> Option.bind (digits_value ds) (\<lambda>n. if n < 2 ^ 64 then Some (of_nat n) else None)
      | ds \<Rightarrow> Option.bind (digits_value ds) (\<lambda>n. if n < 2 ^ 64 then Some (of_nat n) else None))"

definition device_list :: "env \<Rightarrow> i32 \<Rightarrow> i32 list" where
  "device_list env avail =
     (case env ''PEARL_DEVICES'' of
        Some s \<Rightarrow> List.map_filter (\<lambda>t. parse_i32 (trim t)) (split_on CHR '','' s)
      | None \<Rightarrow> map of_nat [0..<nat (sint avail)])"

definition check_devices :: "i32 \<Rightarrow> i32 list \<Rightarrow> i32 list miner_res" where
  "check_devices avail devs =
     (if list_ex (\<lambda>d. sint d < 0 \<or> sint avail \<le> sint d) devs then Err (RpcError ''PEARL_DEVICES'' ''device out of range'')
      else if devs = [] then Err (RpcError ''PEARL_DEVICES'' ''empty device list'')
      else Ok devs)"

definition pick_devices :: "cuda_lib \<Rightarrow> env \<Rightarrow> i32 list drv" where
  "pick_devices L env =
     drv_bind (device_count L) (\<lambda>avail.
     if avail = 0 then drv_res (Err (RpcError ''device_count'' ''no CUDA devices visible''))
     else drv_res (check_devices avail (device_list env avail)))"

definition hex_pair :: "u8 \<Rightarrow> string" where
  "hex_pair b = (let digit = (\<lambda>n. ''0123456789abcdef'' ! n) in [digit (unat b div 16), digit (unat b mod 16)])"

text \<open>The random bytes are what 16 bytes of \<open>/dev/urandom\<close> are, if it can be read; the fallback names the process
  and the time.\<close>

definition resolve_worker_salt :: "env \<Rightarrow> bytes option \<Rightarrow> string \<Rightarrow> string" where
  "resolve_worker_salt env urandom fallback =
     (case List.map_filter (\<lambda>var. Option.bind (env var) (\<lambda>v. if trim v \<noteq> [] then Some (trim v) else None)) [''PEARL_WORKER_ID'', ''WORKER_NAME''] of
        v # _ \<Rightarrow> v
      | [] \<Rightarrow> (case urandom of Some buf \<Rightarrow> concat (map hex_pair buf) | None \<Rightarrow> fallback))"

section \<open>Jobs\<close>

text \<open>What the miner uses of the \<open>hex\<close>, \<open>bitcoin\<close>, \<open>bech32\<close> and \<open>blake3\<close> crates to build a job.\<close>

record job_lib =
  jl_hex_decode :: "string \<Rightarrow> (string, bytes) res"
  jl_tx_decode :: "bytes \<Rightarrow> (string, transaction) res"
  jl_sha256d :: "bytes \<Rightarrow> bytes"
  jl_txid :: "transaction \<Rightarrow> bytes"
  jl_bech32m :: "string \<Rightarrow> (string, bytes) res"
  jl_fes_to_bytes :: "bytes \<Rightarrow> bytes"
  jl_op_return_push :: "bytes \<Rightarrow> bytes"

definition parse_template_txs :: "job_lib \<Rightarrow> block_template \<Rightarrow> transaction list miner_res" where
  "parse_template_txs J t =
     res_map (\<lambda>tx.
       res_bind (map_err (\<lambda>e. RpcError ''tx_decode'' (''hex: '' @ e)) (jl_hex_decode J (tx_data tx))) (\<lambda>raw.
       map_err (\<lambda>e. RpcError ''tx_decode'' (''consensus: '' @ e)) (jl_tx_decode J raw))) (transactions t)"

definition coinbase_flags :: "job_lib \<Rightarrow> block_template \<Rightarrow> bytes option miner_res" where
  "coinbase_flags J t =
     (if flags (coinbaseaux t) = [] then Ok None
      else res_bind (map_err (\<lambda>e. RpcError ''coinbase_aux'' (''hex: '' @ e)) (jl_hex_decode J (flags (coinbaseaux t)))) (\<lambda>b. Ok (Some b)))"

definition witness_commitment :: "job_lib \<Rightarrow> block_template \<Rightarrow> bytes option miner_res" where
  "witness_commitment J t =
     (case default_witness_commitment t of
        None \<Rightarrow> Ok None
      | Some s \<Rightarrow>
          res_bind (map_err (\<lambda>e. RpcError ''witness'' (''hex: '' @ e)) (jl_hex_decode J s)) (\<lambda>b.
          if length b \<noteq> 32 then Err (RpcError ''witness'' ''len'') else Ok (Some b)))"

definition path_config :: "mining_path \<Rightarrow> mining_config miner_res" where
  "path_config path = (case path of CppSearch \<Rightarrow> build_mining_config_cpp_search 4096 128 | TritonNorotl \<Rightarrow> build_mining_config_triton_norotl 2048 128)"

definition build_job :: "job_lib \<Rightarrow> digest_fn \<Rightarrow> block_template \<Rightarrow> string \<Rightarrow> mining_path \<Rightarrow> transaction mining_job miner_res" where
  "build_job J D t mining_address path =
     res_bind (parse_template_txs J t) (\<lambda>txs.
     res_bind (coinbase_flags J t) (\<lambda>aux.
     res_bind (witness_commitment J t) (\<lambda>commitment.
     res_bind (create_coinbase_transaction (jl_bech32m J) (jl_fes_to_bytes J) (jl_op_return_push J)
        (height t) (coinbasevalue t) mining_address aux commitment) (\<lambda>coinbase.
     res_bind (path_config path) (\<lambda>config.
     job_build (jl_hex_decode J) (jl_sha256d J) (jl_txid J) D t coinbase txs config)))))"

definition worker_seed :: "digest_fn \<Rightarrow> bytes \<Rightarrow> string \<Rightarrow> i32 \<Rightarrow> bytes" where
  "worker_seed D hbytes salt device_ord =
     D (hbytes @ map of_char ''pearl-rust-miner-seed-v1'' @ map of_char salt @ u32_le (ucast device_ord)) None"

section \<open>Hits\<close>

record ready_job =
  rj_job :: "transaction mining_job"
  rj_b :: bytes
  rj_m :: nat
  rj_n :: nat

record hit_work =
  hw_job :: ready_job
  hw_a :: bytes
  hw_rows :: "nat list"
  hw_cols :: "nat list"
  hw_gpu :: i32

record 'c poller =
  circuit_cache :: 'c
  blocks_accepted :: u64
  blocks_rejected :: u64

definition poll_hit ::
  "blake3_lib \<Rightarrow> ('t, 'c) zk_lib \<Rightarrow> (transaction, 'body) node_lib \<Rightarrow> 'body http \<Rightarrow> pearld_config \<Rightarrow> hit_work \<Rightarrow> 'c poller
   \<Rightarrow> (miner_error, 'c poller) res option" where
  "poll_hit B Z N http cfg work st =
     (let job = rj_job (hw_job work) in
      case build_plain_proof B (rj_m (hw_job work)) (rj_n (hw_job work)) (unat (common_dim (job_config job))) (unat (rank (job_config job)))
             (hw_a work) (rj_b (hw_job work)) (hw_rows work) (hw_cols work) (keying job) of
        Ok pf \<Rightarrow> Option.bind (submit_plain_proof B Z N http cfg pf job (circuit_cache st)) (\<lambda>(r, cache).
          case r of
            Ok _ \<Rightarrow> Some (Ok (st\<lparr>circuit_cache := cache, blocks_accepted := blocks_accepted st + 1\<rparr>))
          | Err e \<Rightarrow> Some (Ok (st\<lparr>circuit_cache := cache, blocks_rejected := blocks_rejected st + 1\<rparr>))
          | Panic \<Rightarrow> Some Panic)
      | Err e \<Rightarrow> Some (Ok st)
      | Panic \<Rightarrow> Some Panic)"

text \<open>The poller's loop over the hits it receives, until every sender is gone.\<close>

fun hit_poller ::
  "blake3_lib \<Rightarrow> ('t, 'c) zk_lib \<Rightarrow> (transaction, 'body) node_lib \<Rightarrow> 'body http \<Rightarrow> pearld_config \<Rightarrow> hit_work list \<Rightarrow> 'c poller
   \<Rightarrow> (miner_error, 'c poller) res option" where
  "hit_poller B Z N http cfg [] st = Some (Ok st)"
| "hit_poller B Z N http cfg (work # rest) st = try_bind (poll_hit B Z N http cfg work st) (hit_poller B Z N http cfg rest)"


section \<open>A worker\<close>

text \<open>The contents of pinned host memory, after a history of calls.\<close>

type_synonym host_mem = "cu_call list \<Rightarrow> ptr \<Rightarrow> nat \<Rightarrow> bytes"

definition read_pinned :: "host_mem \<Rightarrow> pinned_buf \<Rightarrow> bytes drv" where
  "read_pinned mem b = (\<lambda>t. (Ok (mem t (host_ptr b) (pin_size b)), t))"

record worker_ctx =
  w_driver :: cuda_lib
  w_mem :: host_mem
  w_ptx :: ptx
  device_ord :: i32
  w_fatbin :: bytes
  w_cfg :: bufs_config
  w_address :: string
  w_max_iters :: u64
  worker_salt :: string
  w_jobs :: job_lib
  w_digest :: digest_fn

record worker_state =
  bufs :: miner_bufs
  stream :: ptr
  graphs :: "captured_graph list option"
  current_job :: "ready_job option"
  current_prev :: "string option"
  iter_idx :: u64
  hits_total :: u64

definition worker_start :: "worker_ctx \<Rightarrow> worker_state drv" where
  "worker_start W =
     (let L = w_driver W in
      drv_bind (ctx_new L (device_ord W)) (\<lambda>ctx.
      drv_bind (ctx_device_name L ctx) (\<lambda>_.
      drv_bind (load_fatbin L (w_fatbin W)) (\<lambda>module.
      drv_bind (miner_bufs_new L (w_ptx W) module (w_cfg W)) (\<lambda>b.
      drv_bind (stream_new L) (\<lambda>s.
      drv_return \<lparr>bufs = b, stream = s, graphs = None, current_job = None, current_prev = None, iter_idx = 0, hits_total = 0\<rparr>))))))"

text \<open>A newer tip: the job is built, the buffers refreshed, B read back, and the graphs captured once.\<close>

definition load_job :: "worker_ctx \<Rightarrow> block_template \<Rightarrow> worker_state \<Rightarrow> worker_state drv" where
  "load_job W t ws =
     (let L = w_driver W in
      drv_bind (drv_res (build_job (w_jobs W) (w_digest W) t (w_address W) (cfg_path (w_cfg W)))) (\<lambda>job.
      let seed = worker_seed (w_digest W) (header_bytes job) (worker_salt W) (device_ord W) in
      drv_bind (ensure_for_job L (bufs ws) (header_bytes job) (keying job) (adjusted_target_le job) seed 0 (stream ws)) (\<lambda>b.
      drv_then (stream_synchronize L (stream ws))
      (drv_bind (read_pinned (w_mem W) (b_pinned (jobs b))) (\<lambda>b_bytes.
      drv_bind (case graphs ws of Some g \<Rightarrow> drv_return g | None \<Rightarrow> capture_all_slots L b (stream ws)) (\<lambda>g.
      drv_return (ws\<lparr>bufs := b, graphs := Some g, current_prev := Some (previousblockhash t),
        current_job := Some \<lparr>rj_job = job, rj_b = b_bytes, rj_m = mb_m b, rj_n = mb_n b\<rparr>\<rparr>)))))))"

definition refresh_job :: "worker_ctx \<Rightarrow> block_template option \<Rightarrow> worker_state \<Rightarrow> worker_state drv" where
  "refresh_job W tip ws =
     (case tip of
        Some t \<Rightarrow> if current_prev ws = Some (previousblockhash t) then drv_return ws else load_job W t ws
      | None \<Rightarrow> drv_return ws)"

text \<open>After a batch: the slot of an iteration, if its header reports a hit, with the header's bytes.  The counter
  wraps at 2^64, and the range of a batch that wraps is empty.\<close>

definition scan_slot :: "worker_ctx \<Rightarrow> worker_state \<Rightarrow> nat \<Rightarrow> (nat \<times> bytes) option drv" where
  "scan_slot W ws i =
     (let b = bufs ws; pool = host_signal_header_pool (rings b) in
      drv_bind (drv_res (slot b (of_nat i))) (\<lambda>s.
      drv_then (drv_assert (s < length pool))
      (drv_bind (read_pinned (w_mem W) (pool ! s)) (\<lambda>header_src.
      drv_bind (drv_res (u32at header_src 0)) (\<lambda>st.
      if st = 1 then
        drv_then (snapshot_a_for_hit (w_driver W) b s (stream ws))
        (drv_return (Some (s, take (min HOST_SIGNAL_HEADER_SIZE (length header_src)) header_src)))
      else drv_return None)))))"

definition run_batch :: "worker_ctx \<Rightarrow> worker_state \<Rightarrow> captured_graph list \<Rightarrow> (worker_state \<times> (nat \<times> bytes) list) drv" where
  "run_batch W ws g =
     (let L = w_driver W; b = bufs ws; start = iter_idx ws; finish = start + of_nat (ring_size b) in
      drv_bind (mine_batch L b (map (\<lambda>i. start + of_nat i) [0..<ring_size b]) g (stream ws)) (\<lambda>g'.
      drv_then (stream_synchronize L (stream ws))
      (drv_bind (drv_map (scan_slot W ws) [unat start..<unat finish]) (\<lambda>found.
      let hits = List.map_filter id found in
      drv_then (if hits = [] then drv_return () else stream_synchronize L (stream ws))
      (drv_return (ws\<lparr>graphs := Some g', iter_idx := finish, hits_total := hits_total ws + of_nat (length hits)\<rparr>, hits))))))"

text \<open>Sending the hits of a batch: those before a failing one have been sent.\<close>

fun send_hits :: "worker_ctx \<Rightarrow> miner_bufs \<Rightarrow> ready_job \<Rightarrow> cu_call list \<Rightarrow> (nat \<times> bytes) list \<Rightarrow> hit_work list \<times> unit miner_res" where
  "send_hits W b job t [] = ([], Ok ())"
| "send_hits W b job t ((s, hdr_bytes) # rest) =
     (case signal_parse hdr_bytes of
        Ok parsed \<Rightarrow>
          if s < length (a_snapshot_pool (rings b)) then
            let (a_rows, b_cols) = extract_indices parsed; snap = a_snapshot_pool (rings b) ! s;
                work = \<lparr>hw_job = job, hw_a = w_mem W t (host_ptr snap) (pin_size snap), hw_rows = a_rows, hw_cols = b_cols, hw_gpu = device_ord W\<rparr>;
                (hs, r) = send_hits W b job t rest
            in (work # hs, r)
          else ([], Panic)
      | Err e \<Rightarrow> ([], Err e)
      | Panic \<Rightarrow> ([], Panic))"

text \<open>One pass of the loop: the hits it sent, what it added to the shared counter, and how it ended.\<close>

datatype turn_end = Continue worker_state | Stop "unit miner_res"

fun ended :: "'a miner_res \<Rightarrow> turn_end" where
  "ended (Ok x) = Stop (Ok ())"
| "ended (Err e) = Stop (Err e)"
| "ended Panic = Stop Panic"

definition worker_turn :: "worker_ctx \<Rightarrow> block_template option \<Rightarrow> worker_state \<Rightarrow> cu_call list \<Rightarrow> (hit_work list \<times> u64 \<times> turn_end) \<times> cu_call list" where
  "worker_turn W tip ws t =
     (case refresh_job W tip ws t of
        (Ok ws1, t1) \<Rightarrow>
          (case current_job ws1 of
             None \<Rightarrow> (([], 0, Continue ws1), t1)
           | Some job \<Rightarrow>
               (case graphs ws1 of
                  None \<Rightarrow> (([], 0, Stop Panic), t1)
                | Some g \<Rightarrow>
                    (case run_batch W ws1 g t1 of
                       (Ok (ws2, found), t2) \<Rightarrow>
                         (case send_hits W (bufs ws2) job t2 found of
                            (hs, Ok _) \<Rightarrow>
                              ((hs, of_nat (ring_size (bufs ws2)),
                                if w_max_iters W > 0 \<and> w_max_iters W \<le> iter_idx ws2 then Stop (Ok ()) else Continue ws2), t2)
                          | (hs, r) \<Rightarrow> ((hs, 0, ended r), t2))
                     | (r, t2) \<Rightarrow> (([], 0, ended r), t2))))
      | (r, t1) \<Rightarrow> (([], 0, ended r), t1))"

section \<open>The process\<close>

text \<open>\<open>main\<close> and the end of \<open>run\<close>: the workers are joined in device order; a panicked worker is only logged.\<close>

fun first_error :: "unit miner_res list \<Rightarrow> miner_error option" where
  "first_error [] = None"
| "first_error (Err e # rs) = Some e"
| "first_error (_ # rs) = first_error rs"

definition run_result :: "unit miner_res list \<Rightarrow> unit miner_res" where
  "run_result rs = (case first_error rs of Some e \<Rightarrow> Err e | None \<Rightarrow> Ok ())"

definition exit_code :: "env \<Rightarrow> unit miner_res \<Rightarrow> nat" where
  "exit_code env r =
     (if env ''PEARLD_MINING_ADDRESS'' = None then 2 else case r of Err e \<Rightarrow> 1 | _ \<Rightarrow> 0)"

text \<open>The template poller's loop body on an answer of the node.\<close>

definition template_poll :: "block_template miner_res \<Rightarrow> string \<times> block_template option \<Rightarrow> string \<times> block_template option" where
  "template_poll answer st =
     (case answer of
        Ok t \<Rightarrow> if previousblockhash t \<noteq> fst st then (previousblockhash t, Some t) else st
      | _ \<Rightarrow> st)"

end
