(* ===== verification/Live_System.thy ===== *)
theory Live_System imports Live_Miner begin

text \<open>
  The threads of the live miner as a transition system, and what holds in every state it reaches.
\<close>

section \<open>Steps\<close>

datatype worker_status = Starting | Running worker_state | Ended "unit miner_res"

record 'c sys =
  tip_state :: "string \<times> block_template option"
  workers :: "(worker_status \<times> cu_call list) list"
  channel :: "hit_work list"
  polled :: "hit_work list"
  hit_thread :: "'c poller option"
  total_iters :: u64

definition sys_init :: "worker_ctx list \<Rightarrow> 'c \<Rightarrow> 'c sys" where
  "sys_init Ws cache = \<lparr>tip_state = ([], None), workers = map (\<lambda>_. (Starting, [])) Ws, channel = [], polled = [],
     hit_thread = Some \<lparr>circuit_cache = cache, blocks_accepted = 0, blocks_rejected = 0\<rparr>, total_iters = 0\<rparr>"

fun started :: "worker_state miner_res \<Rightarrow> worker_status" where
  "started (Ok ws) = Running ws"
| "started (Err e) = Ended (Err e)"
| "started Panic = Ended Panic"

fun turned :: "turn_end \<Rightarrow> worker_status" where
  "turned (Continue ws) = Running ws"
| "turned (Stop r) = Ended r"

text \<open>Sending fails once the hit poller is gone, and the worker ignores that.  The polled hits are history.\<close>

inductive live_step ::
  "worker_ctx list \<Rightarrow> blake3_lib \<Rightarrow> ('t, 'c) zk_lib \<Rightarrow> (transaction, 'body) node_lib \<Rightarrow> pearld_config \<Rightarrow> 'c sys \<Rightarrow> 'c sys \<Rightarrow> bool"
  for Ws B Z N cfg where
  template: "live_step Ws B Z N cfg s (s\<lparr>tip_state := template_poll answer (tip_state s)\<rparr>)"
| start: "i < length Ws \<Longrightarrow> workers s ! i = (Starting, t) \<Longrightarrow> worker_start (Ws ! i) t = (r, t') \<Longrightarrow>
    live_step Ws B Z N cfg s (s\<lparr>workers := (workers s)[i := (started r, t')]\<rparr>)"
| turn: "i < length Ws \<Longrightarrow> workers s ! i = (Running ws, t) \<Longrightarrow> worker_turn (Ws ! i) (snd (tip_state s)) ws t = ((hs, k, r), t') \<Longrightarrow>
    live_step Ws B Z N cfg s (s\<lparr>workers := (workers s)[i := (turned r, t')],
      channel := (if hit_thread s = None then channel s else channel s @ hs), total_iters := total_iters s + k\<rparr>)"
| poll: "channel s = work # rest \<Longrightarrow> hit_thread s = Some st \<Longrightarrow> poll_hit B Z N http cfg work st = Some (Ok st') \<Longrightarrow>
    live_step Ws B Z N cfg s (s\<lparr>channel := rest, polled := polled s @ [work], hit_thread := Some st'\<rparr>)"
| poll_panic: "channel s = work # rest \<Longrightarrow> hit_thread s = Some st \<Longrightarrow> poll_hit B Z N http cfg work st = Some Panic \<Longrightarrow>
    live_step Ws B Z N cfg s (s\<lparr>channel := [], hit_thread := None\<rparr>)"

section \<open>What a computation on the driver yields\<close>

definition yields :: "'a drv \<Rightarrow> ('a \<Rightarrow> bool) \<Rightarrow> bool" where
  "yields m P \<longleftrightarrow> (\<forall>t x t'. m t = (Ok x, t') \<longrightarrow> P x)"

named_theorems yields "rules for what a driver computation yields"

lemma yieldsD: "yields m P \<Longrightarrow> m t = (Ok x, t') \<Longrightarrow> P x"
  by (auto simp: yields_def)

lemma yields_any [yields]: "yields m (\<lambda>_. True)"
  by (simp add: yields_def)

lemma yields_return [yields]: "P x \<Longrightarrow> yields (drv_return x) P"
  by (simp add: yields_def drv_res_def)

lemma yields_res: "(\<And>x. r = Ok x \<Longrightarrow> P x) \<Longrightarrow> yields (drv_res r) P"
  by (simp add: yields_def drv_res_def)

lemma yields_bind: "yields m P \<Longrightarrow> (\<And>x. P x \<Longrightarrow> yields (f x) Q) \<Longrightarrow> yields (drv_bind m f) Q"
  unfolding yields_def drv_bind_def by (fastforce split: prod.splits res.splits)

lemma yields_then: "yields n Q \<Longrightarrow> yields (drv_then m n) Q"
  by (rule yields_bind [OF yields_any])

lemma yields_map:
  assumes "\<And>x. x \<in> set xs \<Longrightarrow> yields (f x) P"
  shows "yields (drv_map f xs) (\<lambda>ys. length ys = length xs \<and> (\<forall>y \<in> set ys. P y))"
  using assms
proof (induction xs)
  case (Cons x xs)
  show ?case
    by (simp, rule yields_bind [OF Cons.prems], simp, rule yields_bind [OF Cons.IH])
       (rule Cons.prems, simp, rule yields_return, simp)
qed (simp add: yields_return)

definition sized :: "bufs_config \<Rightarrow> miner_bufs \<Rightarrow> bool" where
  "sized cfg b \<longleftrightarrow> mb_m b = cfg_m cfg \<and> mb_n b = cfg_n cfg \<and> mb_k b = cfg_k cfg \<and> ring_size b = cfg_ring_size cfg
     \<and> length (host_signal_header_pool (rings b)) = cfg_ring_size cfg
     \<and> (\<forall>p \<in> set (host_signal_header_pool (rings b)). pin_size p = HOST_SIGNAL_HEADER_SIZE)
     \<and> length (a_snapshot_pool (rings b)) = cfg_ring_size cfg
     \<and> (\<forall>p \<in> set (a_snapshot_pool (rings b)). pin_size p = cfg_m cfg * cfg_k cfg)
     \<and> pin_size (b_pinned (jobs b)) = cfg_n cfg * cfg_k cfg"

lemma yields_pinned: "yields (pinned_alloc L n) (\<lambda>b. pin_size b = n)"
  unfolding pinned_alloc_def by (rule yields_bind [OF yields_any])+ (simp add: yields_return)

lemma yields_host_ring: "yields (mk_host_ring L n bytes) (\<lambda>bs. length bs = n \<and> (\<forall>b \<in> set bs. pin_size b = bytes))"
  using yields_map [where f = "\<lambda>_. pinned_alloc L bytes" and xs = "[0..<n]", OF yields_pinned] by (simp add: mk_host_ring_def)

lemma yields_rings: "yields (alloc_rings L cfg) (\<lambda>g. length (host_signal_header_pool g) = cfg_ring_size cfg
     \<and> (\<forall>p \<in> set (host_signal_header_pool g). pin_size p = HOST_SIGNAL_HEADER_SIZE)
     \<and> length (a_snapshot_pool g) = cfg_ring_size cfg \<and> (\<forall>p \<in> set (a_snapshot_pool g). pin_size p = cfg_m cfg * cfg_k cfg))"
  unfolding alloc_rings_def Let_def
  by (rule yields_bind [OF yields_any], rule yields_bind [OF yields_any], rule yields_bind [OF yields_any],
      rule yields_bind [OF yields_any], rule yields_bind [OF yields_host_ring], rule yields_bind [OF yields_host_ring],
      rule yields_bind [OF yields_any], rule yields_bind [OF yields_any], rule yields_return, simp)

lemma yields_job_bufs: "yields (alloc_job L cfg) (\<lambda>j. pin_size (b_pinned j) = cfg_n cfg * cfg_k cfg)"
  unfolding alloc_job_def Let_def
  by (rule yields_bind [OF yields_any], rule yields_bind [OF yields_any], rule yields_bind [OF yields_any],
      rule yields_bind [OF yields_any], rule yields_bind [OF yields_pinned], rule yields_bind [OF yields_any], rule yields_return, simp)

lemma yields_new: "yields (miner_bufs_new L p module cfg) (sized cfg)"
  unfolding miner_bufs_new_def
  by (rule yields_then, rule yields_then, rule yields_then, rule yields_bind [OF yields_rings], rule yields_bind [OF yields_job_bufs],
      rule yields_bind [OF yields_any], rule yields_bind [OF yields_any], rule yields_bind [OF yields_any],
      rule yields_return, simp add: sized_def)

lemma yields_ensure: "sized cfg b \<Longrightarrow> yields (ensure_for_job L b h key target seed i st) (sized cfg)"
  unfolding ensure_for_job_def Let_def
  by (cases "cached_header b = Some h") (auto simp: sized_def intro!: yields_return yields_then)


section \<open>Jobs and hits of a worker\<close>

definition path_dims :: "mining_path \<Rightarrow> nat" where
  "path_dims path = (case path of CppSearch \<Rightarrow> 4096 | TritonNorotl \<Rightarrow> 2048)"

lemma pick_config_dims:
  "cfg_k (pick_config env) = path_dims (cfg_path (pick_config env))" "cfg_r (pick_config env) = 128" "cfg_ring_size (pick_config env) = 8"
  by (simp_all add: pick_config_def path_dims_def production_def shape_default_def shape_big_m_def shape_huge_m_def
      shape_big_mn_def shape_giga_def shape_49k_n_def shape_49k_m_def mk_config_def)

lemma path_config_dims:
  "path_config path = Ok c \<Longrightarrow> unat (common_dim c) = path_dims path \<and> unat (rank c) = 128"
  by (cases path) (auto simp: path_config_def path_dims_def build_mining_config_cpp_search_def
      build_mining_config_triton_norotl_def build_mining_config_def res_bind_Ok_iff)

lemma build_job_parts:
  "build_job J D t addr path = Ok job \<Longrightarrow> path_config path = Ok (job_config job) \<and> job_template job = t"
  by (auto simp: build_job_def job_build_def res_bind_Ok_iff Let_def)

definition good_worker :: "worker_ctx \<Rightarrow> bool" where
  "good_worker W \<longleftrightarrow> (\<exists>env. w_cfg W = pick_config env) \<and> (\<forall>t p n. length (w_mem W t p n) = n)"

definition good_job :: "worker_ctx \<Rightarrow> ready_job \<Rightarrow> bool" where
  "good_job W j \<longleftrightarrow> (\<exists>t. build_job (w_jobs W) (w_digest W) t (w_address W) (cfg_path (w_cfg W)) = Ok (rj_job j))
     \<and> length (rj_b j) = cfg_n (w_cfg W) * cfg_k (w_cfg W) \<and> rj_m j = cfg_m (w_cfg W) \<and> rj_n j = cfg_n (w_cfg W)"

definition good_hit :: "worker_ctx \<Rightarrow> hit_work \<Rightarrow> bool" where
  "good_hit W h \<longleftrightarrow> good_job W (hw_job h) \<and> length (hw_a h) = cfg_m (w_cfg W) * cfg_k (w_cfg W) \<and> hw_gpu h = device_ord W
     \<and> hw_rows h \<noteq> [] \<and> hw_cols h \<noteq> []"

definition good_state :: "worker_ctx \<Rightarrow> worker_state \<Rightarrow> bool" where
  "good_state W ws \<longleftrightarrow> sized (w_cfg W) (bufs ws) \<and> unat (iter_idx ws) mod 8 = 0
     \<and> (\<forall>j. current_job ws = Some j \<longrightarrow> good_job W j \<and> graphs ws \<noteq> None
          \<and> current_prev ws = Some (previousblockhash (job_template (rj_job j))))"

lemma multileaf_never_errs: "get_multileaf_proof T idx \<noteq> Err e"
proof -
  have "collect_siblings lays l cur n \<noteq> Err e" for lays l cur n e
    by (induction lays l cur n rule: collect_siblings.induct) (subst collect_siblings.simps, auto simp: res_bind_Err_iff nth_res_def)
  then show ?thesis by (auto simp: get_multileaf_proof_def res_bind_Err_iff assert_res_def Let_def tree_root_def nth_res_def split: if_splits)
qed

lemma good_hit_builds:
  assumes "good_worker W" "good_hit W h"
  shows "build_plain_proof B (rj_m (hw_job h)) (rj_n (hw_job h)) (unat (common_dim (job_config (rj_job (hw_job h)))))
    (unat (rank (job_config (rj_job (hw_job h))))) (hw_a h) (rj_b (hw_job h)) (hw_rows h) (hw_cols h) (keying (rj_job (hw_job h))) \<noteq> Err e"
    and "length (hw_a h) = rj_m (hw_job h) * unat (common_dim (job_config (rj_job (hw_job h))))"
    and "length (rj_b (hw_job h)) = rj_n (hw_job h) * unat (common_dim (job_config (rj_job (hw_job h))))"
    and "unat (common_dim (job_config (rj_job (hw_job h)))) = cfg_k (w_cfg W)"
proof -
  from assms obtain env t where cfg: "w_cfg W = pick_config env"
    and job: "build_job (w_jobs W) (w_digest W) t (w_address W) (cfg_path (w_cfg W)) = Ok (rj_job (hw_job h))"
    by (auto simp: good_worker_def good_hit_def good_job_def)
  show k: "unat (common_dim (job_config (rj_job (hw_job h)))) = cfg_k (w_cfg W)"
    using path_config_dims build_job_parts [OF job] pick_config_dims(1) [of env] cfg by auto
  with assms(2) show "length (hw_a h) = rj_m (hw_job h) * unat (common_dim (job_config (rj_job (hw_job h))))"
    "length (rj_b (hw_job h)) = rj_n (hw_job h) * unat (common_dim (job_config (rj_job (hw_job h))))"
    by (auto simp: good_hit_def good_job_def)
  then show "build_plain_proof B (rj_m (hw_job h)) (rj_n (hw_job h)) (unat (common_dim (job_config (rj_job (hw_job h)))))
    (unat (rank (job_config (rj_job (hw_job h))))) (hw_a h) (rj_b (hw_job h)) (hw_rows h) (hw_cols h) (keying (rj_job (hw_job h))) \<noteq> Err e"
    by (auto simp: build_plain_proof_def res_bind_Err_iff lift_merkle_def multileaf_never_errs res_simps)
qed



lemma signal_parses: "636 \<le> length buf \<Longrightarrow> \<exists>h. signal_parse buf = Ok h"
  by (simp add: signal_parse_fields Let_def)

lemma extracted_nonempty:
  assumes "signal_parse hb = Ok p" "extract_indices p = (rows, cols)"
  shows "rows \<noteq> [] \<and> cols \<noteq> []"
proof -
  have axis: "extract_axis p a locals \<noteq> []" if "locals \<noteq> []" for a locals
    using that by (cases locals) (auto simp: extract_axis_def Let_def remdups_adj_Nil_iff sort_key_def)
  have "thread_rows p \<noteq> [] \<and> thread_cols p \<noteq> []"
    using assms(1) by (auto simp: signal_parse_fields Let_def split: if_splits)
  then show ?thesis using assms(2) axis by (auto simp: extract_indices_def)
qed

lemma yields_read: "good_worker W \<Longrightarrow> yields (read_pinned (w_mem W) b) (\<lambda>bs. length bs = pin_size b)"
  by (simp add: read_pinned_def yields_def good_worker_def)

lemma yields_load:
  assumes "good_worker W" "good_state W ws"
  shows "yields (load_job W t ws) (good_state W)"
  unfolding load_job_def Let_def
proof (rule yields_bind [OF yields_res [where P = "\<lambda>job. build_job (w_jobs W) (w_digest W) t (w_address W) (cfg_path (w_cfg W)) = Ok job"]])
  fix job assume job: "build_job (w_jobs W) (w_digest W) t (w_address W) (cfg_path (w_cfg W)) = Ok job"
  show "yields (drv_bind (ensure_for_job (w_driver W) (bufs ws) (header_bytes job) (keying job) (adjusted_target_le job)
          (worker_seed (w_digest W) (header_bytes job) (worker_salt W) (device_ord W)) 0 (stream ws)) (\<lambda>b.
      drv_then (stream_synchronize (w_driver W) (stream ws))
      (drv_bind (read_pinned (w_mem W) (b_pinned (jobs b))) (\<lambda>b_bytes.
      drv_bind (case graphs ws of Some g \<Rightarrow> drv_return g | None \<Rightarrow> capture_all_slots (w_driver W) b (stream ws)) (\<lambda>g.
      drv_return (ws\<lparr>bufs := b, graphs := Some g, current_prev := Some (previousblockhash t),
        current_job := Some \<lparr>rj_job = job, rj_b = b_bytes, rj_m = mb_m b, rj_n = mb_n b\<rparr>\<rparr>)))))) (good_state W)"
    using assms job build_job_parts [OF job]
    by (intro yields_bind [OF yields_ensure] yields_then yields_bind [OF yields_read] yields_bind [OF yields_any] yields_return)
       (auto simp: good_state_def good_job_def sized_def)
qed simp

lemma yields_refresh:
  "good_worker W \<Longrightarrow> good_state W ws \<Longrightarrow> yields (refresh_job W tip ws) (good_state W)"
  by (auto simp: refresh_job_def yields_return yields_load split: option.split)


section \<open>A turn\<close>

lemma yields_assert: "(c \<Longrightarrow> yields m P) \<Longrightarrow> yields (drv_then (drv_assert c) m) P"
  by (auto simp: yields_def bind_assert split: if_splits)

definition found_ok :: "nat \<times> bytes \<Rightarrow> bool" where
  "found_ok sh \<longleftrightarrow> fst sh < 8 \<and> 636 \<le> length (snd sh)"

lemma good_ring: "good_worker W \<Longrightarrow> cfg_ring_size (w_cfg W) = 8"
  by (auto simp: good_worker_def pick_config_dims)

lemma yields_scan:
  assumes W: "good_worker W" and ws: "good_state W ws"
  shows "yields (scan_slot W ws i) (\<lambda>r. \<forall>sh. r = Some sh \<longrightarrow> found_ok sh)"
  unfolding scan_slot_def Let_def
proof (rule yields_bind [OF yields_any], rule yields_assert, rule yields_bind [OF yields_read [OF W]], rule yields_bind [OF yields_any])
  fix s st and hs :: bytes assume s: "s < length (host_signal_header_pool (rings (bufs ws)))"
    and hs: "length hs = pin_size (host_signal_header_pool (rings (bufs ws)) ! s)"
  have "found_ok (s, take (min HOST_SIGNAL_HEADER_SIZE (length hs)) hs)"
    using s hs ws good_ring [OF W] by (auto simp: found_ok_def good_state_def sized_def HOST_SIGNAL_HEADER_SIZE_def)
  then show "yields (if st = 1 then drv_then (snapshot_a_for_hit (w_driver W) (bufs ws) s (stream ws))
        (drv_return (Some (s, take (min HOST_SIGNAL_HEADER_SIZE (length hs)) hs))) else drv_return None) (\<lambda>r. \<forall>sh. r = Some sh \<longrightarrow> found_ok sh)"
    by (auto intro!: yields_then yields_return)
qed

lemma aligned_next: "unat (i :: u64) mod 8 = 0 \<Longrightarrow> unat (i + 8) mod 8 = 0"
proof -
  have "unat (i + 8) mod 8 = (unat i + 8) mod 2 ^ 64 mod 8" by (simp add: unat_word_ariths)
  also have "\<dots> = (unat i + 8) mod 8" by (rule mod_mod_cancel) simp
  finally show "unat i mod 8 = 0 \<Longrightarrow> unat (i + 8) mod 8 = 0" by simp
qed

lemma yields_batch:
  assumes W: "good_worker W" and ws: "good_state W ws"
  shows "yields (run_batch W ws g) (\<lambda>(ws', found). good_state W ws' \<and> current_job ws' = current_job ws \<and> (\<forall>sh \<in> set found. found_ok sh))"
  unfolding run_batch_def Let_def
proof (rule yields_bind [OF yields_any], rule yields_then, rule yields_bind [OF yields_map], rule yields_scan [OF W ws], rule yields_then, rule yields_return)
  fix g' found assume f: "length found = length [unat (iter_idx ws)..<unat (iter_idx ws + of_nat (ring_size (bufs ws)))]
    \<and> (\<forall>y \<in> set found. \<forall>sh. y = Some sh \<longrightarrow> found_ok sh)"
  have r: "ring_size (bufs ws) = 8" using ws good_ring [OF W] by (simp add: good_state_def sized_def)
  have "\<forall>sh \<in> set (List.map_filter id found). found_ok sh" using f by (auto simp: List.map_filter_def)
  then show "case (ws\<lparr>graphs := Some g', iter_idx := iter_idx ws + of_nat (ring_size (bufs ws)),
      hits_total := hits_total ws + of_nat (length (List.map_filter id found))\<rparr>, List.map_filter id found) of
      (ws', found) \<Rightarrow> good_state W ws' \<and> current_job ws' = current_job ws \<and> (\<forall>sh \<in> set found. found_ok sh)"
    using ws aligned_next [of "iter_idx ws"] by (simp add: good_state_def r)
qed

lemma send_hits_good:
  assumes W: "good_worker W" and b: "sized (w_cfg W) b" and job: "good_job W job" and found: "\<forall>sh \<in> set found. found_ok sh"
  shows "\<exists>hs. send_hits W b job t found = (hs, Ok ()) \<and> length hs = length found \<and> (\<forall>h \<in> set hs. good_hit W h \<and> hw_job h = job)"
  using found
proof (induction found)
  case (Cons sh rest)
  obtain s hb where sh: "sh = (s, hb)" by (cases sh)
  have "found_ok (s, hb)" using Cons.prems sh by simp
  then have s: "s < length (a_snapshot_pool (rings b))" and "636 \<le> length hb"
    using b good_ring [OF W] by (simp_all add: found_ok_def sized_def)
  then obtain parsed where parsed: "signal_parse hb = Ok parsed" using signal_parses by blast
  obtain rows cols where ri: "extract_indices parsed = (rows, cols)" by fastforce
  have "pin_size (a_snapshot_pool (rings b) ! s) = cfg_m (w_cfg W) * cfg_k (w_cfg W)" using b s by (auto simp: sized_def)
  then have "length (w_mem W t p (pin_size (a_snapshot_pool (rings b) ! s))) = cfg_m (w_cfg W) * cfg_k (w_cfg W)" for p
    using W by (simp add: good_worker_def)
  then have "good_hit W \<lparr>hw_job = job, hw_a = w_mem W t (host_ptr (a_snapshot_pool (rings b) ! s)) (pin_size (a_snapshot_pool (rings b) ! s)),
      hw_rows = rows, hw_cols = cols, hw_gpu = device_ord W\<rparr>" using job extracted_nonempty [OF parsed ri] by (simp add: good_hit_def)
  moreover obtain hs where "send_hits W b job t rest = (hs, Ok ())" "length hs = length rest" "\<forall>h \<in> set hs. good_hit W h \<and> hw_job h = job"
    using Cons by auto
  ultimately show ?case using s by (simp add: sh parsed ri Let_def)
qed simp

lemma turn_good:
  assumes W: "good_worker W" and ws: "good_state W ws" and turn: "worker_turn W tip ws t = ((hs, k, r), t')"
  shows "(\<forall>h \<in> set hs. good_hit W h) \<and> (\<forall>ws'. r = Continue ws' \<longrightarrow> good_state W ws')"
proof (cases "refresh_job W tip ws t")
  case (Pair r1 t1)
  show ?thesis
  proof (cases r1)
    case (Ok ws1)
    have g1: "good_state W ws1" using yieldsD [OF yields_refresh [OF W ws]] Pair Ok by blast
    show ?thesis
    proof (cases "current_job ws1")
      case None
      then show ?thesis using turn Pair Ok g1 by (auto simp: worker_turn_def)
    next
      case (Some job)
      then have job: "good_job W job" "graphs ws1 \<noteq> None" using g1 by (auto simp: good_state_def)
      then obtain g where g: "graphs ws1 = Some g" by blast
      obtain r2 t2 where b: "run_batch W ws1 g t1 = (r2, t2)" by fastforce
      show ?thesis
      proof (cases r2)
        case Ok2: (Ok wf)
        obtain ws2 found where wf: "wf = (ws2, found)" by (cases wf)
        have g2: "good_state W ws2" "\<forall>sh \<in> set found. found_ok sh"
          using yieldsD [OF yields_batch [OF W g1]] b Ok2 wf by fastforce+
        have "sized (w_cfg W) (bufs ws2)" using g2(1) by (simp add: good_state_def)
        from send_hits_good [OF W this job(1) g2(2), of t2] obtain hs' where
          "send_hits W (bufs ws2) job t2 found = (hs', Ok ())" "\<forall>h \<in> set hs'. good_hit W h" by blast
        then show ?thesis using turn Pair Ok Some g b Ok2 wf g2(1) by (auto simp: worker_turn_def split: if_splits)
      qed (use turn Pair Ok Some g b in \<open>auto simp: worker_turn_def\<close>)
    qed
  qed (use turn Pair in \<open>auto simp: worker_turn_def\<close>)
qed

section \<open>Reachable states\<close>

inductive_cases live_stepE: "live_step Ws B Z N cfg s s'"

definition sys_good :: "worker_ctx list \<Rightarrow> 'c sys \<Rightarrow> bool" where
  "sys_good Ws s \<longleftrightarrow> length (workers s) = length Ws
     \<and> (\<forall>i < length Ws. \<forall>ws t. workers s ! i = (Running ws, t) \<longrightarrow> good_state (Ws ! i) ws)
     \<and> (\<forall>h \<in> set (channel s) \<union> set (polled s). \<exists>W \<in> set Ws. good_hit W h)
     \<and> (\<forall>st. hit_thread s = Some st \<longrightarrow> blocks_accepted st + blocks_rejected st = of_nat (length (polled s)))"

lemma start_good: "worker_start W t = (Ok ws, t') \<Longrightarrow> good_state W ws"
proof -
  have "yields (worker_start W) (good_state W)"
    unfolding worker_start_def Let_def
    by (rule yields_bind [OF yields_any], rule yields_bind [OF yields_any], rule yields_bind [OF yields_any],
        rule yields_bind [OF yields_new], rule yields_bind [OF yields_any], rule yields_return) (simp add: good_state_def)
  then show "worker_start W t = (Ok ws, t') \<Longrightarrow> good_state W ws" by (rule yieldsD)
qed

lemma step_good:
  assumes Ws: "\<forall>W \<in> set Ws. good_worker W" and good: "sys_good Ws s" and step: "live_step Ws B Z N cfg s s'"
  shows "sys_good Ws s'"
  using step
proof cases
  case (start i t r t')
  have "good_state (Ws ! i) ws" if "started r = Running ws" for ws
    using start(4) that by (cases r) (auto intro: start_good)
  then show ?thesis using good start(1,2) by (auto simp: sys_good_def nth_list_update)
next
  case (turn i ws t hs k r t')
  have W: "Ws ! i \<in> set Ws" "good_worker (Ws ! i)" "good_state (Ws ! i) ws" using Ws good turn(2,3) by (auto simp: sys_good_def)
  note tg = turn_good [OF W(2,3) turn(4)]
  have "good_state (Ws ! i) ws'" if "turned r = Running ws'" for ws' using tg that by (cases r) auto
  moreover have "\<forall>h \<in> set hs. \<exists>W \<in> set Ws. good_hit W h" using tg W(1) by blast
  ultimately show ?thesis using good turn(1,2) by (auto simp: sys_good_def nth_list_update)
next
  case (poll work rest st http st')
  then obtain W where W: "W \<in> set Ws" "good_hit W work" using good by (auto simp: sys_good_def)
  have "good_worker W" using Ws W(1) by blast
  from good_hit_builds [OF this W(2)] poll(4)
  have "blocks_accepted st' + blocks_rejected st' = blocks_accepted st + blocks_rejected st + 1"
    by (auto simp: poll_hit_def Let_def split: res.splits Option.bind_splits)
  then show ?thesis using good poll by (auto simp: sys_good_def)
qed (use good in \<open>auto simp: sys_good_def\<close>)

lemma reachable_good:
  assumes "\<forall>W \<in> set Ws. good_worker W" "(live_step Ws B Z N cfg)\<^sup>*\<^sup>* (sys_init Ws cache) s"
  shows "sys_good Ws s"
  using assms(2)
proof (induction rule: rtranclp_induct)
  case base
  then show ?case by (simp add: sys_good_def sys_init_def)
next
  case (step s s')
  then show ?case using step_good [OF assms(1)] by blast
qed


text \<open>A worker whose driver accepts every call starts.\<close>

lemma starts:
  assumes "all_succeed (w_driver W)" "cfg_ok (w_cfg W)"
  shows "\<exists>ws t'. worker_start W t = (Ok ws, t')"
proof -
  have "gives (worker_start W) (\<lambda>_. True)"
    unfolding worker_start_def ctx_new_def load_fatbin_def stream_new_def Let_def
    by (rule gives_bind [where P = "\<lambda>_. True"] gives_bind [where P = "built (w_cfg W)"] gives_return gives_then gives_value [OF assms(1)] gives_do [OF assms(1)]
          gives_new [OF assms] TrueI | simp add: gives_def ctx_device_name_def cu_do_ok [OF assms(1)])+
  then have "\<exists>x cs. worker_start W t = (Ok x, t @ cs)" unfolding gives_def by blast
  then show ?thesis by blast
qed

definition idle_worker :: worker_ctx where
  "idle_worker = \<lparr>w_driver = ok_driver, w_mem = (\<lambda>_ _ n. replicate n 0),
     w_ptx = \<lparr>noising_sm86 = [], noising_sm89 = [], noising_sm120 = [], search_sm86 = [], search_sm89 = [], search_sm120 = []\<rparr>,
     device_ord = 0, w_fatbin = [], w_cfg = pick_config (\<lambda>_. None), w_address = [], w_max_iters = 0, worker_salt = [],
     w_jobs = \<lparr>jl_hex_decode = (\<lambda>_. Ok []), jl_tx_decode = (\<lambda>_. Err []), jl_sha256d = (\<lambda>_. []), jl_txid = (\<lambda>_. []),
       jl_bech32m = (\<lambda>_. Err []), jl_fes_to_bytes = id, jl_op_return_push = id\<rparr>, w_digest = (\<lambda>_ _. [])\<rparr>"

definition idle_node :: "(transaction, json) node_lib" where
  "idle_node = \<lparr>nl_sha256d = \<lambda>_. replicate 32 5, nl_tx_encode = (\<lambda>_. Ok []), nl_hex_encode = map (\<lambda>b. char_of (unat b)),
     nl_base64 = id, nl_decode_json = Ok\<rparr>"

lemma idle_good: "good_worker idle_worker" "cfg_ok (w_cfg idle_worker)" "all_succeed (w_driver idle_worker)"
  by (auto simp: good_worker_def idle_worker_def ok_driver_succeeds pick_config_def shapes cfg_ok_def TILE_M_def TILE_N_def NOISE_RANK_def)

lemma idle_reaches:
  "\<exists>s ws t. (live_step [idle_worker] B Z N cfg)\<^sup>*\<^sup>* (sys_init [idle_worker] cache) s \<and> workers s ! 0 = (Running ws, t)"
proof -
  obtain ws t' where "worker_start ([idle_worker] ! 0) [] = (Ok ws, t')" using starts [OF idle_good(3,2)] by fastforce
  from live_step.start [OF _ _ this, of "sys_init [idle_worker] cache" B Z N cfg]
  have "live_step [idle_worker] B Z N cfg (sys_init [idle_worker] cache)
    (sys_init [idle_worker] cache\<lparr>workers := (workers (sys_init [idle_worker] cache))[0 := (started (Ok ws), t')]\<rparr>)"
    by (simp add: sys_init_def)
  note r_into_rtranclp [of "live_step [idle_worker] B Z N cfg", OF this]
  moreover have "workers (sys_init [idle_worker] cache\<lparr>workers := (workers (sys_init [idle_worker] cache))[0 := (started (Ok ws), t')]\<rparr>) ! 0
    = (Running ws, t')" by (simp add: sys_init_def)
  ultimately show ?thesis by blast
qed

section \<open>A worker that finds a hit\<close>

text \<open>Every call succeeds and answers 0, a graph has the one node 0 (a kernel node, since that type is 0), and
  pinned memory begins with the status of a hit and is zero otherwise.\<close>

definition hit_driver :: cuda_lib where
  "hit_driver = ok_driver\<lparr>reply_nodes := (\<lambda>_ _. [0])\<rparr>"


lemma hit_driver_replies [simp]: "reply hit_driver t c = (CUDA_SUCCESS, 0)" "reply_nodes hit_driver t c = [0]"
  by (simp_all add: hit_driver_def ok_driver_def)


















section \<open>The properties\<close>









lemma batch_slots:
  assumes "ring_size b = 8" "unat (start :: u64) mod 8 = 0"
  shows "res_map (slot b) (map (\<lambda>i. start + of_nat i) [0..<8]) = Ok [0..<8]"
proof -
  have "slot b (start + of_nat i) = Ok i" if "i < 8" for i
  proof -
    have "unat (start + of_nat i) mod 8 = (unat start + i) mod 2 ^ 64 mod 8"
      using that by (simp add: unat_word_ariths unat_of_nat)
    also have "\<dots> = (unat start + i) mod 8" by (rule mod_mod_cancel) simp
    also have "\<dots> = i" using assms(2) that by presburger
    finally show ?thesis by (simp add: slot_def assms(1))
  qed
  then have "res_map (\<lambda>i. slot b (start + of_nat i)) [0..<8] = Ok (map (\<lambda>i. i) [0..<8])" by (intro res_map_all_Ok) simp
  then show ?thesis by (simp add: res_map_map comp_def)
qed

text \<open>C2: A running worker is consistent.  In every reachable state, a running worker's buffers have the sizes of its
  configuration, which are those of the job configuration of its search path; its job is of the tip it
  compares templates with, and its graphs are captured, so the \<open>expect\<close> on them never panics; and the iterations of
  its next batch use every slot of the ring exactly once, in order.\<close>

theorem live_workers:
  assumes "\<forall>W \<in> set Ws. good_worker W" "(live_step Ws B Z N cfg)\<^sup>*\<^sup>* (sys_init Ws cache) s"
    and "i < length Ws" "workers s ! i = (Running ws, t)"
  shows "mb_m (bufs ws) = cfg_m (w_cfg (Ws ! i)) \<and> mb_n (bufs ws) = cfg_n (w_cfg (Ws ! i))
    \<and> mb_k (bufs ws) = path_dims (cfg_path (w_cfg (Ws ! i)))
    \<and> res_map (slot (bufs ws)) (map (\<lambda>j. iter_idx ws + of_nat j) [0..<ring_size (bufs ws)]) = Ok [0..<ring_size (bufs ws)]
    \<and> (\<forall>job. current_job ws = Some job \<longrightarrow> graphs ws \<noteq> None \<and> current_prev ws = Some (previousblockhash (job_template (rj_job job)))
        \<and> unat (common_dim (job_config (rj_job job))) = mb_k (bufs ws))"
proof -
  have W: "good_worker (Ws ! i)" "good_state (Ws ! i) ws"
    using reachable_good [OF assms(1,2)] assms(1,3,4) by (auto simp: sys_good_def)
  obtain env where env: "w_cfg (Ws ! i) = pick_config env" using W(1) by (auto simp: good_worker_def)
  have s: "sized (w_cfg (Ws ! i)) (bufs ws)" "unat (iter_idx ws) mod 8 = 0" using W(2) by (simp_all add: good_state_def)
  have r: "ring_size (bufs ws) = 8" using s(1) good_ring [OF W(1)] by (simp add: sized_def)
  have k: "mb_k (bufs ws) = path_dims (cfg_path (w_cfg (Ws ! i)))" using s(1) by (simp add: sized_def env pick_config_dims)
  have "unat (common_dim (job_config (rj_job job))) = mb_k (bufs ws)" if "current_job ws = Some job" for job
    using that W(2) path_config_dims build_job_parts unfolding k by (fastforce simp: good_state_def good_job_def)
  then show ?thesis using s k W(2) batch_slots [OF r s(2)] unfolding r by (auto simp: sized_def good_state_def)
qed

lemma live_workers_witness:
  "\<exists>s ws t. (live_step [idle_worker] spec_blake3 sample_zk idle_node (pearld_config_default (\<lambda>_. None)))\<^sup>*\<^sup>* (sys_init [idle_worker] 0) s
    \<and> workers s ! 0 = (Running ws, t) \<and> mb_k (bufs ws) = 2048
    \<and> res_map (slot (bufs ws)) (map (\<lambda>j. iter_idx ws + of_nat j) [0..<ring_size (bufs ws)]) = Ok [0..<ring_size (bufs ws)]"
proof -
  obtain s ws t where s: "(live_step [idle_worker] spec_blake3 sample_zk idle_node (pearld_config_default (\<lambda>_. None)))\<^sup>*\<^sup>* (sys_init [idle_worker] 0) s"
    "workers s ! 0 = (Running ws, t)" using idle_reaches [of spec_blake3 sample_zk idle_node "pearld_config_default (\<lambda>_. None)" 0] by blast
  have "\<forall>W \<in> set [idle_worker]. good_worker W" by (simp add: idle_good)
  moreover have "path_dims (cfg_path (w_cfg idle_worker)) = 2048"
    by (simp add: idle_worker_def pick_config_def shapes path_dims_def)
  ultimately show ?thesis using live_workers [OF _ s(1) _ s(2)] s by auto
qed

end
