(* ===== verification/Jackpot_Trace.thy ===== *)
theory Jackpot_Trace imports Stark_Program begin

text \<open>
  The trace columns of the matrix products and of the jackpot (circuit/pearl_trace.rs, circuit/chip/matmul/trace.rs and
  circuit/chip/jackpot/trace.rs), as the integers they encode, and the jackpot the program computes on them.
\<close>

section \<open>Filling rows one after the other\<close>

text \<open>The contract of a pass over the rows: a step per row from the state the row before left, a column written from the
  state it leaves, and the first failing row ends the pass.  \<open>goes rows ls st cs st'\<close>: from \<open>st\<close> the rows \<open>ls\<close> write the
  columns \<open>cs\<close> and leave \<open>st'\<close>, whatever follows.\<close>

definition goes :: "('l list \<Rightarrow> 's \<Rightarrow> ('e, 'c list) res) \<Rightarrow> 'l list \<Rightarrow> 's \<Rightarrow> 'c list \<Rightarrow> 's \<Rightarrow> bool" where
  "goes rows ls st cs st' \<longleftrightarrow> (\<forall>rest. rows (ls @ rest) st = res_bind (rows rest st') (\<lambda>t. Ok (cs @ t)))"

locale row_pass =
  fixes row :: "'l \<Rightarrow> 's \<Rightarrow> ('e, 's) res" and column :: "'s \<Rightarrow> 'c" and rows :: "'l list \<Rightarrow> 's \<Rightarrow> ('e, 'c list) res"
  assumes rows_Nil: "rows [] st = Ok []"
    and rows_Cons: "rows (l # ls) st = res_bind (row l st) (\<lambda>st'. res_bind (rows ls st') (\<lambda>cs. Ok (column st' # cs)))"
begin

lemma goes_Nil: "goes rows [] st [] st"
proof -
  have "res_bind m (\<lambda>t. Ok ([] @ t)) = m" for m :: "('e, 'c list) res" by (cases m) simp_all
  then show ?thesis by (simp add: goes_def)
qed

lemma goes_Cons: "row l st = Ok st' \<Longrightarrow> goes rows [l] st [column st'] st'"
  by (simp add: goes_def rows_Cons)

lemma goes_append: "goes rows xs st ts st' \<Longrightarrow> goes rows ys st' us st'' \<Longrightarrow> goes rows (xs @ ys) st (ts @ us) st''"
proof -
  have "res_bind (res_bind m (\<lambda>t. Ok (us @ t))) (\<lambda>t. Ok (ts @ t)) = res_bind m (\<lambda>t. Ok ((ts @ us) @ t))" for m :: "('e, 'c list) res"
    by (cases m) simp_all
  then show "goes rows xs st ts st' \<Longrightarrow> goes rows ys st' us st'' \<Longrightarrow> goes rows (xs @ ys) st (ts @ us) st''"
    by (simp add: goes_def)
qed

lemma goes_all: "goes rows xs st ts st' \<Longrightarrow> rows xs st = Ok ts"
  by (auto simp: goes_def rows_Nil dest: spec [of _ "[]"])

lemma goes_same: "row l st = Ok st \<Longrightarrow> goes rows (replicate n l) st (replicate n (column st)) st"
proof (induction n)
  case (Suc n)
  show ?case using goes_append [OF goes_Cons [OF Suc.prems] Suc.IH [OF Suc.prems]] by simp
qed (simp add: goes_Nil)

text \<open>A pass whose rows cannot fail from the states that satisfy an invariant.\<close>

lemma rows_fold:
  assumes "\<And>l st. l \<in> set ls \<Longrightarrow> keeps st \<Longrightarrow> row l st = Ok (nxt l st) \<and> keeps (nxt l st)" "keeps st"
  shows "\<exists>cs. rows ls st = Ok cs \<and> length cs = length ls \<and> (\<forall>i < length ls. cs ! i = column (fold nxt (take (i + 1) ls) st))"
  using assms
proof (induction ls arbitrary: st)
  case (Cons l ls)
  have r: "row l st = Ok (nxt l st)" "keeps (nxt l st)" using Cons.prems by simp_all
  then obtain cs where "rows ls (nxt l st) = Ok cs" "length cs = length ls"
    "\<forall>i < length ls. cs ! i = column (fold nxt (take (i + 1) ls) (nxt l st))"
    using Cons.IH [OF _ r(2)] Cons.prems(1) by auto
  then show ?case using r(1) by (auto simp: rows_Cons nth_Cons split: nat.split)
qed (simp add: rows_Nil)

end

section \<open>The accumulated tile\<close>

definition read_tile :: "mm_slice \<Rightarrow> mat_dword_id \<Rightarrow> (anyhow, i8 list) res" where
  "read_tile strips d =
     res_bind (res_map (\<lambda>(strip_id, dword_idx).
         read_dword_from_matrix strips \<lparr>is_b_strip = is_b_strip d, strip_idx = strip_idx d + strip_id,
           idx_in_strip = idx_in_strip d + dword_idx * DWORD_SIZE\<rparr>)
       (List.product [0..<TILE_H] [0..<TILE_D div DWORD_SIZE])) (\<lambda>dwords. Ok (concat dwords))"

definition noised_tile :: "mm_slice \<Rightarrow> mm_slice \<Rightarrow> mat_dword_id option \<Rightarrow> (anyhow, i8 list) res" where
  "noised_tile secret_strips noise dword =
     (case dword of
        Some d \<Rightarrow> res_bind (read_tile secret_strips d) (\<lambda>tile. res_bind (read_tile noise d) (\<lambda>z. Ok (map2 (+) tile z)))
      | None \<Rightarrow> Ok (replicate (TILE_H * TILE_D) 0))"

text \<open>CUMSUM_TILE of a row, from the one of the row before.\<close>

definition cumsum_row :: "mm_slice \<Rightarrow> mm_slice \<Rightarrow> matmul_logic \<Rightarrow> i32 list list \<Rightarrow> (anyhow, i32 list list) res" where
  "cumsum_row secret_strips noise l local_cumsum =
     res_bind (noised_tile secret_strips noise (a_dword l)) (\<lambda>a.
     res_bind (noised_tile secret_strips noise (b_dword l)) (\<lambda>b.
     let start = (if is_reset_cumsum l then replicate TILE_H (replicate TILE_H 0) else local_cumsum)
     in Ok (if is_update_cumsum l
            then map (\<lambda>i. map (\<lambda>j. fold (\<lambda>k acc. acc + scast (a ! (i * TILE_D + k)) * scast (b ! (j * TILE_D + k)))
                   [0..<TILE_D] (start ! i ! j)) [0..<TILE_H]) [0..<TILE_H]
            else start)))"

fun cumsum_rows :: "mm_slice \<Rightarrow> mm_slice \<Rightarrow> matmul_logic list \<Rightarrow> i32 list list \<Rightarrow> (anyhow, i32 list list) res" where
  "cumsum_rows secret_strips noise [] local_cumsum = Ok []"
| "cumsum_rows secret_strips noise (l # ls) local_cumsum =
     res_bind (cumsum_row secret_strips noise l local_cumsum) (\<lambda>cumsum.
     res_bind (cumsum_rows secret_strips noise ls cumsum) (\<lambda>rest. Ok (concat cumsum # rest)))"

interpretation cumsum: row_pass "cumsum_row secret_strips noise" concat "cumsum_rows secret_strips noise" for secret_strips noise
  by unfold_locales simp_all

section \<open>The buffer\<close>

definition rotate4 :: "'a list \<Rightarrow> 'a list" where
  "rotate4 cur = [cur ! 1, cur ! 2, cur ! 3, cur ! 0]"

text \<open>The loop that walks cyclically back from a dump row to the one before it.  Both row numbers are below \<open>n\<close>; outside,
  where the loop would not be entered with, the function stops.\<close>

function fill_back :: "nat \<Rightarrow> nat \<Rightarrow> nat \<Rightarrow> 'a list \<Rightarrow> 'a list list \<Rightarrow> 'a list list" where
  "fill_back n start_row row current buffers =
     (if row = start_row \<or> n \<le> start_row \<or> n \<le> row then buffers
      else let cur = rotate4 current
           in fill_back n start_row (if row = 0 then n - 1 else row - 1) cur (buffers[row := cur]))"
  by pat_completeness auto
termination
proof (relation "measure (\<lambda>(n, start_row, row, _, _). if start_row \<le> row then row - start_row else row + n - start_row)", goal_cases)
  case 1
  show ?case by simp
next
  case (2 n start_row row current buffers)
  then show ?case by auto
qed

declare fill_back.simps [simp del]

definition fill_cumsum_buffer :: "i32 list list \<Rightarrow> jackpot_logic list \<Rightarrow> i32 list list" where
  "fill_cumsum_buffer cumsum_tiles circuit =
     (let num_rows = length cumsum_tiles;
          dump_rows = filter (\<lambda>i. is_dump_cumsum_buffer (circuit ! i)) [0..<num_rows];
          buffers = fold (\<lambda>i b. b[i := cumsum_tiles ! i]) dump_rows (replicate num_rows (replicate 4 0))
      in fold (\<lambda>i b.
           let end_row = dump_rows ! i; start_row = dump_rows ! (if i = 0 then length dump_rows - 1 else i - 1)
           in fill_back num_rows start_row ((end_row + num_rows - 1) mod num_rows) (b ! end_row) b) [0..<length dump_rows] buffers)"

section \<open>The jackpot register\<close>

definition stored :: "bit_reg_dst \<Rightarrow> u32 \<Rightarrow> u32" where
  "stored dst bit_reg = (case dst of
     Store0 \<Rightarrow> bit_reg | Store1 \<Rightarrow> word_rotr LROT_PER_TILE bit_reg | Store2 \<Rightarrow> word_rotr (2 * LROT_PER_TILE) bit_reg)"

definition register_row :: "jackpot_logic \<Rightarrow> i32 \<Rightarrow> u32 \<times> u32 list \<Rightarrow> (anyhow, u32 \<times> u32 list) res" where
  "register_row l prev_cumsum0 st =
     (case st of (bit_reg, jackpot_msg) \<Rightarrow>
      if length jackpot_msg \<le> jackpot_idx l then Panic
      else let bit_reg' = (case jl_src l of
               SrcJackpot \<Rightarrow> word_rotl LROT_PER_TILE (jackpot_msg ! jackpot_idx l)
             | SrcXor \<Rightarrow> bit_reg XOR prev_cumsum0
             | SrcShift3 \<Rightarrow> word_rotr (3 * LROT_PER_TILE) bit_reg)
           in Ok (bit_reg', if jl_src l = SrcJackpot then jackpot_msg else jackpot_msg[jackpot_idx l := stored (jl_dst l) bit_reg']))"

fun register_rows :: "(jackpot_logic \<times> i32) list \<Rightarrow> u32 \<times> u32 list \<Rightarrow> (anyhow, (u32 \<times> u32 list) list) res" where
  "register_rows [] st = Ok []"
| "register_rows ((l, prev) # ls) st =
     res_bind (register_row l prev st) (\<lambda>st'. res_bind (register_rows ls st') (\<lambda>rest. Ok (st' # rest)))"

interpretation register: row_pass "\<lambda>(l, prev). register_row l prev" "\<lambda>st. st" register_rows
  by unfold_locales auto

text \<open>The columns BIT_REG and JACKPOT_MSG; row 0 sees a zero buffer.\<close>

definition fill_cumsum_buffer_xor_jackpot :: "i32 list list \<Rightarrow> jackpot_logic list \<Rightarrow> (anyhow, (u32 \<times> u32 list) list) res" where
  "fill_cumsum_buffer_xor_jackpot cumsum_tiles circuit =
     (let buffers = fill_cumsum_buffer cumsum_tiles circuit
      in register_rows (zip circuit (0 # map (\<lambda>b. b ! 0) buffers)) (0, replicate ZK_JACKPOT_SIZE 0))"

section \<open>Exclusive or\<close>

lemma grid_index_less: "i < a \<Longrightarrow> j < b \<Longrightarrow> i * b + j < a * (b :: nat)"
  using mult_le_mono1 [of "i + 1" a b] by simp

interpretation big_xor: comm_monoid_set "(XOR) :: u32 \<Rightarrow> u32 \<Rightarrow> u32" 0
  by unfold_locales (simp_all add: xor.assoc xor.commute)

lemma xor_foldl: "foldl (\<lambda>a x. a XOR x) (z :: u32) xs = z XOR foldl (\<lambda>a x. a XOR x) 0 xs"
proof (induction xs arbitrary: z)
  case (Cons x xs)
  show ?case using Cons [of "z XOR x"] Cons [of x] by (simp add: xor.assoc)
qed simp

lemma xor_foldl_upt: "foldl (\<lambda>a x. a XOR x) (0 :: u32) (map f [0..<n]) = big_xor.F f {..<n}"
  by (induction n) (simp_all add: lessThan_Suc xor.commute)

lemma xor_foldl_concat: "foldl (\<lambda>a x. a XOR x) (0 :: u32) (concat (map f [0..<n])) = big_xor.F (\<lambda>i. foldl (\<lambda>a x. a XOR x) 0 (f i)) {..<n}"
proof (induction n)
  case (Suc n)
  have "foldl (\<lambda>a x. a XOR x) 0 (concat (map f [0..<Suc n])) = foldl (\<lambda>a x. a XOR x) (foldl (\<lambda>a x. a XOR x) 0 (concat (map f [0..<n]))) (f n)"
    by simp
  also have "\<dots> = foldl (\<lambda>a x. a XOR x) 0 (concat (map f [0..<n])) XOR foldl (\<lambda>a x. a XOR x) 0 (f n)" by (rule xor_foldl)
  finally show ?case using Suc by (simp add: lessThan_Suc xor.commute)
qed simp

lemma xor_pairs: "big_xor.F (f :: nat \<Rightarrow> u32) {..<2 * n} = big_xor.F (\<lambda>i. f (2 * i) XOR f (2 * i + 1)) {..<n}"
  by (induction n) (simp_all add: lessThan_Suc xor.assoc xor.left_commute)

lemma xor_rotl: "word_rotl n (big_xor.F f A) = big_xor.F (\<lambda>i. word_rotl n (f i)) A"
  by (induction A rule: infinite_finite_induct) (simp_all add: word_rot_logs)

text \<open>The cells of an even grid, in tiles of two by two.\<close>

lemma xor_tiles:
  "foldl (\<lambda>a x. a XOR x) (0 :: u32) (concat (map (\<lambda>u. map (\<lambda>v. f u v) [0..<2 * nw]) [0..<2 * nh]))
   = big_xor.F (\<lambda>s. f (2 * fst s) (2 * snd s) XOR f (2 * fst s) (2 * snd s + 1) XOR f (2 * fst s + 1) (2 * snd s) XOR f (2 * fst s + 1) (2 * snd s + 1))
       ({..<nh} \<times> {..<nw})"
proof -
  have "foldl (\<lambda>a x. a XOR x) (0 :: u32) (concat (map (\<lambda>u. map (\<lambda>v. f u v) [0..<2 * nw]) [0..<2 * nh]))
      = big_xor.F (\<lambda>i. big_xor.F (\<lambda>j. f (2 * i) (2 * j) XOR f (2 * i) (2 * j + 1)) {..<nw} XOR big_xor.F (\<lambda>j. f (2 * i + 1) (2 * j) XOR f (2 * i + 1) (2 * j + 1)) {..<nw}) {..<nh}"
    by (simp add: xor_foldl_concat xor_foldl_upt xor_pairs)
  also have "\<dots> = big_xor.F (\<lambda>i. big_xor.F (\<lambda>j. f (2 * i) (2 * j) XOR f (2 * i) (2 * j + 1) XOR f (2 * i + 1) (2 * j) XOR f (2 * i + 1) (2 * j + 1)) {..<nw}) {..<nh}"
    by (simp add: big_xor.distrib [symmetric] xor.assoc)
  also have "\<dots> = big_xor.F (\<lambda>(i, j). f (2 * i) (2 * j) XOR f (2 * i) (2 * j + 1) XOR f (2 * i + 1) (2 * j) XOR f (2 * i + 1) (2 * j + 1)) ({..<nh} \<times> {..<nw})"
    by (rule big_xor.cartesian_product)
  finally show ?thesis by (simp add: case_prod_beta')
qed


section \<open>The schedule of the register\<close>

lemma rotl_add: "word_rotl m (word_rotl n (w :: u32)) = word_rotl (m + n) w"
  by (metis word_rot_gal word_rotr_word_rotr_eq add.commute)

lemma rotr_mod: "word_rotr (n mod 32) (w :: u32) = word_rotr n w"
  using word_roti_conv_mod' [of "int n" w]
  by (simp add: word_roti_eq_word_rotr_word_rotl word_size nat_mod_distrib)

lemma rotl_0 [simp]: "word_rotl 0 (w :: u32) = w"
  by (rule bit_word_eqI) (simp add: bit_word_rotl_iff)

definition word_steps :: "(nat \<Rightarrow> u32) \<Rightarrow> nat list \<Rightarrow> u32 \<Rightarrow> u32" where
  "word_steps X ts w = fold (\<lambda>t w. word_rotl LROT_PER_TILE w XOR X t) ts w"

lemma word_steps_from: "word_steps X ts w = word_rotl (LROT_PER_TILE * length ts) w XOR word_steps X ts 0"
proof (induction ts rule: rev_induct)
  case (snoc t ts)
  have "word_steps X (ts @ [t]) w = word_rotl LROT_PER_TILE (word_steps X ts w) XOR X t" by (simp add: word_steps_def)
  also have "\<dots> = word_rotl LROT_PER_TILE (word_rotl (LROT_PER_TILE * length ts) w) XOR (word_rotl LROT_PER_TILE (word_steps X ts 0) XOR X t)"
    by (subst snoc) (simp add: word_rot_logs xor.assoc)
  also have "\<dots> = word_rotl (LROT_PER_TILE * length (ts @ [t])) w XOR word_steps X (ts @ [t]) 0"
    by (simp add: rotl_add word_steps_def)
  finally show ?case .
qed (simp add: word_steps_def)

lemma word_steps_sum: "word_steps (\<lambda>t. big_xor.F (\<lambda>s. X s t) A) ts 0 = big_xor.F (\<lambda>s. word_steps (X s) ts 0) A"
proof (induction ts rule: rev_induct)
  case (snoc t ts)
  have "word_steps (\<lambda>t. big_xor.F (\<lambda>s. X s t) A) (ts @ [t]) 0
      = word_rotl LROT_PER_TILE (big_xor.F (\<lambda>s. word_steps (X s) ts 0) A) XOR big_xor.F (\<lambda>s. X s t) A"
    using snoc by (simp add: word_steps_def)
  also have "\<dots> = big_xor.F (\<lambda>s. word_rotl LROT_PER_TILE (word_steps (X s) ts 0) XOR X s t) A"
    by (simp add: xor_rotl big_xor.distrib)
  finally show ?case by (simp add: word_steps_def)
qed (simp add: word_steps_def)

text \<open>The steps that write a word, and the whole update of the words by a step.\<close>

definition steps_of :: "nat \<Rightarrow> nat \<Rightarrow> nat list" where
  "steps_of K tid = filter (\<lambda>t. t mod ZK_JACKPOT_SIZE = tid) [0..<K]"

lemma steps_of_0 [simp]: "steps_of 0 tid = []"
  by (simp add: steps_of_def)

lemma steps_of_Suc [simp]: "steps_of (Suc K) tid = steps_of K tid @ (if K mod ZK_JACKPOT_SIZE = tid then [K] else [])"
  by (simp add: steps_of_def)

lemma fold_words:
  assumes "\<And>t msg. length (step t msg) = length msg"
    and "\<And>t msg tid. length msg = ZK_JACKPOT_SIZE \<Longrightarrow> tid < ZK_JACKPOT_SIZE \<Longrightarrow>
      step t msg ! tid = (if t mod ZK_JACKPOT_SIZE = tid then upd t (msg ! tid) else msg ! tid)"
    and "length msg = ZK_JACKPOT_SIZE" "tid < ZK_JACKPOT_SIZE"
  shows "length (fold step [0..<K] msg) = ZK_JACKPOT_SIZE \<and> fold step [0..<K] msg ! tid = fold upd (steps_of K tid) (msg ! tid)"
  by (induction K) (simp_all add: assms)

lemma occurrences_steps:
  assumes "0 < r" "tid < ZK_JACKPOT_SIZE"
  shows "snd (occurrences r k) ! tid = length (steps_of (k div r) tid)"
    and "steps_of (k div r) tid \<noteq> [] \<Longrightarrow> fst (occurrences r k) ! tid = (last (steps_of (k div r) tid) + 1) * r"
proof -
  have tid: "tid_of r ((t + 1) * r) = t mod ZK_JACKPOT_SIZE" for t
    using assms(1) by (simp add: tid_of_def)
  define f where "f = (\<lambda>ll (last_ll, num :: nat list). let tid = tid_of r ll in (last_ll[tid := ll], num[tid := num ! tid + 1]))"
  define z where "z = (replicate ZK_JACKPOT_SIZE (0 :: nat), replicate ZK_JACKPOT_SIZE (0 :: nat))"
  have "length (fst (fold f (map (\<lambda>i. (i + 1) * r) [0..<K]) z)) = ZK_JACKPOT_SIZE
    \<and> length (snd (fold f (map (\<lambda>i. (i + 1) * r) [0..<K]) z)) = ZK_JACKPOT_SIZE
    \<and> snd (fold f (map (\<lambda>i. (i + 1) * r) [0..<K]) z) ! tid = length (steps_of K tid)
    \<and> (steps_of K tid \<noteq> [] \<longrightarrow> fst (fold f (map (\<lambda>i. (i + 1) * r) [0..<K]) z) ! tid = (last (steps_of K tid) + 1) * r)" for K
  proof (induction K)
    case (Suc K)
    let ?x = "fold f (map (\<lambda>i. (i + 1) * r) [0..<K]) z"
    have "fold f (map (\<lambda>i. (i + 1) * r) [0..<Suc K]) z = f ((K + 1) * r) ?x" by simp
    then show ?case using Suc assms(2) tid [of K] by (auto simp: f_def Let_def split_beta nth_list_update)
  qed (use assms(2) in \<open>simp add: z_def\<close>)
  then show "snd (occurrences r k) ! tid = length (steps_of (k div r) tid)"
    "steps_of (k div r) tid \<noteq> [] \<Longrightarrow> fst (occurrences r k) ! tid = (last (steps_of (k div r) tid) + 1) * r"
    by (simp_all add: occurrences_def rank_steps_def f_def z_def)
qed


definition final_word :: "nat \<times> bit_reg_dst \<Rightarrow> u32 \<Rightarrow> u32" where
  "final_word ops w = stored (snd ops) ((word_rotr (3 * LROT_PER_TILE) ^^ fst ops) w)"

lemma rotr_power: "(word_rotr a ^^ n) (w :: u32) = word_rotr (a * n) w"
proof (induction n)
  case 0
  show ?case by (rule bit_word_eqI) (simp add: bit_word_rotr_iff)
next
  case (Suc n)
  then show ?case by (simp add: word_rotr_word_rotr_eq)
qed

lemma final_word_none [simp]: "final_word (0, Store0) w = w"
  by (simp add: final_word_def stored_def)

lemma final_word_back: "final_word (compute_back_shift_ops n) w = word_rotr (LROT_PER_TILE * n) w"
proof -
  define q where "q = n mod 32"
  have "final_word (compute_back_shift_ops n) w = word_rotr (LROT_PER_TILE * (q mod 3 + 3 * (q div 3))) w"
  proof -
    have "q mod 3 = 0 \<or> q mod 3 = 1 \<or> q mod 3 = 2" by presburger
    then show ?thesis
      by (elim disjE) (simp_all add: final_word_def compute_back_shift_ops_def Let_def stored_def rotr_power word_rotr_word_rotr_eq
          LROT_PER_TILE_def q_def [symmetric] algebra_simps)
  qed
  also have "q mod 3 + 3 * (q div 3) = q" by simp
  also have "word_rotr (LROT_PER_TILE * q) w = word_rotr ((LROT_PER_TILE * q) mod 32) w" by (rule rotr_mod [symmetric])
  also have "(LROT_PER_TILE * q) mod 32 = (LROT_PER_TILE * n) mod 32" by (simp add: q_def mod_mult_right_eq)
  also have "word_rotr ((LROT_PER_TILE * n) mod 32) w = word_rotr (LROT_PER_TILE * n) w" by (rule rotr_mod)
  finally show ?thesis .
qed

text \<open>What the rows of one step do to the words, given the exclusive or of the four cells of the subtile.\<close>

definition step_msg :: "nat \<Rightarrow> nat \<Rightarrow> bool \<Rightarrow> (nat \<Rightarrow> u32) \<Rightarrow> nat \<Rightarrow> u32 list \<Rightarrow> u32 list" where
  "step_msg r k is_last X t msg =
     (let tid = t mod ZK_JACKPOT_SIZE
      in msg[tid := final_word (back_shift r k is_last ((t + 1) * r)) (word_rotl LROT_PER_TILE (msg ! tid) XOR X t)])"

definition step_word :: "nat \<Rightarrow> nat \<Rightarrow> bool \<Rightarrow> (nat \<Rightarrow> u32) \<Rightarrow> nat \<Rightarrow> u32 \<Rightarrow> u32" where
  "step_word r k is_last X t w = final_word (back_shift r k is_last ((t + 1) * r)) (word_rotl LROT_PER_TILE w XOR X t)"

lemma fold_step_msg:
  assumes "length msg = ZK_JACKPOT_SIZE" "tid < ZK_JACKPOT_SIZE"
  shows "length (fold (step_msg r k is_last X) [0..<K] msg) = ZK_JACKPOT_SIZE
    \<and> fold (step_msg r k is_last X) [0..<K] msg ! tid = fold (step_word r k is_last X) (steps_of K tid) (msg ! tid)"
  by (rule fold_words [OF _ _ assms]) (simp_all add: step_msg_def step_word_def Let_def ZK_JACKPOT_SIZE_def)

lemma last_subtile_words: "fold (step_word r k True X) ts w = word_steps X ts w"
  by (simp add: step_word_def [abs_def] word_steps_def back_shift_def)

lemma subtile_words:
  assumes "0 < r" "tid < ZK_JACKPOT_SIZE" and ts: "ts = steps_of (k div r) tid"
  shows "fold (step_word r k False X) ts w = w XOR word_rotr (LROT_PER_TILE * length ts) (word_steps X ts 0)"
proof (cases "ts = []")
  case False
  then obtain us u where us: "ts = us @ [u]" by (metis append_butlast_last_id)
  have tid: "t mod ZK_JACKPOT_SIZE = tid" if "t \<in> set ts" for t using that ts by (simp add: steps_of_def)
  have d: "distinct ts" by (simp add: ts steps_of_def)
  have o: "fst (occurrences r k) ! tid = (u + 1) * r" "snd (occurrences r k) ! tid = length ts"
    using occurrences_steps [OF assms(1,2), of k] False us ts by auto
  have "step_word r k False X t w = word_rotl LROT_PER_TILE w XOR X t" if "t \<in> set us" for t w
    using that tid [of t] d us assms(1) by (auto simp: step_word_def back_shift_def tid_of_def o)
  then have "fold (step_word r k False X) us w = word_steps X us w"
    unfolding word_steps_def by (intro fold_cong) auto
  moreover have "step_word r k False X u w = word_rotr (LROT_PER_TILE * length ts) (word_rotl LROT_PER_TILE w XOR X u)" for w
    using tid [of u] us assms(1) by (simp add: step_word_def back_shift_def tid_of_def o final_word_back)
  ultimately have "fold (step_word r k False X) ts w = word_rotr (LROT_PER_TILE * length ts) (word_steps X ts w)"
    by (simp add: us word_steps_def)
  then show ?thesis by (subst (asm) word_steps_from) (simp add: word_rot_logs)
qed (simp add: word_steps_def)

definition run_subtiles :: "nat \<Rightarrow> nat \<Rightarrow> nat \<Rightarrow> (nat \<Rightarrow> nat \<Rightarrow> u32) \<Rightarrow> u32 list" where
  "run_subtiles r k S X = fold (\<lambda>s. fold (step_msg r k (s = S - 1) (X s)) [0..<k div r]) [0..<S] (replicate ZK_JACKPOT_SIZE 0)"

lemma run_subtiles_words:
  assumes "0 < r" "tid < ZK_JACKPOT_SIZE" "0 < S"
  shows "run_subtiles r k S X ! tid = word_steps (\<lambda>t. big_xor.F (\<lambda>s. X s t) {..<S}) (steps_of (k div r) tid) 0"
proof -
  let ?ts = "steps_of (k div r) tid" and ?n = "LROT_PER_TILE * length (steps_of (k div r) tid)"
  define go where "go = (\<lambda>N. fold (\<lambda>s. fold (step_msg r k (s = S - 1) (X s)) [0..<k div r]) [0..<N] (replicate ZK_JACKPOT_SIZE 0))"
  have go: "length (go N) = ZK_JACKPOT_SIZE" for N
  proof (induction N)
    case (Suc N)
    then show ?case using fold_step_msg [OF Suc assms(2)] by (simp add: go_def)
  qed (simp add: go_def)
  have go_Suc: "go (Suc N) ! tid = fold (step_word r k (N = S - 1) (X N)) ?ts (go N ! tid)" for N
    using fold_step_msg [OF go assms(2)] by (simp add: go_def)
  have "go N ! tid = big_xor.F (\<lambda>s. word_rotr ?n (word_steps (X s) ?ts 0)) {..<N}" if "N < S" for N
    using that
  proof (induction N)
    case (Suc N)
    then have "N \<noteq> S - 1" by simp
    with Suc show ?case by (simp add: go_Suc subtile_words [OF assms(1,2) refl] lessThan_Suc xor.commute)
  qed (use assms(2) in \<open>simp add: go_def\<close>)
  then have "go (S - 1) ! tid = big_xor.F (\<lambda>s. word_rotr ?n (word_steps (X s) ?ts 0)) {..<S - 1}" using assms(3) by simp
  moreover have "go S ! tid = word_steps (X (S - 1)) ?ts (go (S - 1) ! tid)"
    using go_Suc [of "S - 1"] assms(3) by (simp add: last_subtile_words)
  ultimately have "go S ! tid = big_xor.F (\<lambda>s. word_steps (X s) ?ts 0) {..<S - 1} XOR word_steps (X (S - 1)) ?ts 0"
    using word_steps_from [of "X (S - 1)" ?ts "go (S - 1) ! tid"] by (simp add: xor_rotl)
  also have "\<dots> = big_xor.F (\<lambda>s. word_steps (X s) ?ts 0) {..<S}"
    using assms(3) by (cases S) (simp_all add: lessThan_Suc xor.commute)
  finally show ?thesis by (simp add: word_steps_sum run_subtiles_def go_def)
qed


section \<open>The jackpot as a sum over subtiles\<close>

definition dot :: "(nat \<Rightarrow> nat \<Rightarrow> nat \<Rightarrow> i32) \<Rightarrow> nat \<Rightarrow> nat \<Rightarrow> nat \<Rightarrow> i32" where
  "dot g u v hi = fold (\<lambda>l acc. acc + g u v l) [0..<hi] 0"

definition tile_at :: "(nat \<Rightarrow> nat \<Rightarrow> nat \<Rightarrow> i32) \<Rightarrow> nat \<Rightarrow> nat \<Rightarrow> nat \<Rightarrow> i32 list list" where
  "tile_at g h w hi = map (\<lambda>u. map (\<lambda>v. dot g u v hi) [0..<w]) [0..<h]"

lemma dot_from: "lo \<le> hi \<Longrightarrow> fold (\<lambda>l acc. acc + g u v l) [lo..<hi] (dot g u v lo) = dot g u v hi"
proof -
  assume "lo \<le> hi"
  then have "[0..<hi] = [0..<lo] @ [lo..<hi]" using upt_add_eq_append [of 0 lo "hi - lo"] by simp
  then show ?thesis by (simp add: dot_def)
qed

lemma tile_after_at: "lo \<le> hi \<Longrightarrow> tile_after g h w lo hi (tile_at g h w lo) = tile_at g h w hi"
  by (simp add: tile_after_def tile_at_def dot_from)

definition cell_xor :: "(nat \<Rightarrow> nat \<Rightarrow> nat \<Rightarrow> i32) \<Rightarrow> nat \<Rightarrow> nat \<Rightarrow> nat \<Rightarrow> u32" where
  "cell_xor g i j hi = dot g (2 * i) (2 * j) hi XOR dot g (2 * i) (2 * j + 1) hi XOR dot g (2 * i + 1) (2 * j) hi XOR dot g (2 * i + 1) (2 * j + 1) hi"

lemma tile_xor:
  assumes "0 < nw"
  shows "foldl (\<lambda>a x. a XOR x) (0 :: u32) (concat (tile_at g (2 * nh) (2 * nw) hi)) = big_xor.F (\<lambda>s. cell_xor g (s div nw) (s mod nw) hi) {..<nh * nw}"
proof -
  have "big_xor.F (\<lambda>s. cell_xor g (s div nw) (s mod nw) hi) {..<nh * nw} = big_xor.F (\<lambda>(i, j). cell_xor g i j hi) ({..<nh} \<times> {..<nw})"
    by (rule big_xor.reindex_bij_witness [where i = "\<lambda>(i, j). i * nw + j" and j = "\<lambda>s. (s div nw, s mod nw)"])
       (use assms in \<open>auto simp: less_mult_imp_div_less intro: grid_index_less\<close>)
  then show ?thesis unfolding tile_at_def xor_tiles by (simp add: cell_xor_def case_prod_beta')
qed

lemma jackpot_of_words:
  assumes "0 < r" "tid < ZK_JACKPOT_SIZE"
  shows "length (jackpot_of g h w r k) = ZK_JACKPOT_SIZE"
    and "jackpot_of g h w r k ! tid
      = word_steps (\<lambda>t. foldl (\<lambda>a x. a XOR x) 0 (concat (tile_at g h w ((t + 1) * r)))) (steps_of (k div r) tid) 0"
proof -
  define X where "X = (\<lambda>t. foldl (\<lambda>a x. a XOR x) (0 :: u32) (concat (tile_at g h w ((t + 1) * r))))"
  define msgs where "msgs = (\<lambda>K. fold (\<lambda>t msg. msg[t mod ZK_JACKPOT_SIZE := word_rotl LROT_PER_TILE (msg ! (t mod ZK_JACKPOT_SIZE)) XOR X t]) [0..<K]
      (replicate ZK_JACKPOT_SIZE 0))"
  have "fold (jackpot_update g h w r) (map (\<lambda>i. (i + 1) * r) [0..<K]) (replicate h (replicate w 0), replicate ZK_JACKPOT_SIZE 0)
      = (tile_at g h w (K * r), msgs K)" for K
  proof (induction K)
    case 0
    show ?case by (simp add: msgs_def tile_at_def dot_def map_replicate_trivial)
  next
    case (Suc K)
    have "tile_after g h w ((K + 1) * r - r) ((K + 1) * r) (tile_at g h w (K * r)) = tile_at g h w ((K + 1) * r)"
      using tile_after_at [of "K * r" "(K + 1) * r" g h w] by simp
    then show ?case using Suc assms(1) by (simp add: jackpot_update_def Let_def msgs_def X_def)
  qed
  then have j: "jackpot_of g h w r k = msgs (k div r)" by (simp add: jackpot_of_def)
  have "length (msgs K) = ZK_JACKPOT_SIZE \<and> msgs K ! tid = fold (\<lambda>t w. word_rotl LROT_PER_TILE w XOR X t) (steps_of K tid) 0" for K
    using fold_words [of "\<lambda>t msg. msg[t mod ZK_JACKPOT_SIZE := word_rotl LROT_PER_TILE (msg ! (t mod ZK_JACKPOT_SIZE)) XOR X t]"
        "\<lambda>t w. word_rotl LROT_PER_TILE w XOR X t" "replicate ZK_JACKPOT_SIZE 0" tid K] assms(2)
    by (simp add: msgs_def ZK_JACKPOT_SIZE_def)
  then show "length (jackpot_of g h w r k) = ZK_JACKPOT_SIZE"
    "jackpot_of g h w r k ! tid
      = word_steps (\<lambda>t. foldl (\<lambda>a x. a XOR x) 0 (concat (tile_at g h w ((t + 1) * r)))) (steps_of (k div r) tid) 0"
    by (simp_all add: j word_steps_def X_def)
qed

lemma subtiles_jackpot:
  assumes "0 < r" "0 < nh" "0 < nw"
  shows "run_subtiles r k (nh * nw) (\<lambda>s t. cell_xor g (s div nw) (s mod nw) ((t + 1) * r)) = jackpot_of g (2 * nh) (2 * nw) r k"
proof (rule nth_equalityI)
  have "length (fold (\<lambda>s. fold (step_msg r k (s = nh * nw - 1) (f s)) [0..<k div r]) [0..<N] (replicate ZK_JACKPOT_SIZE 0)) = ZK_JACKPOT_SIZE" for f N
    by (induction N) (simp_all add: fold_step_msg [where tid = 0] ZK_JACKPOT_SIZE_def)
  then show len: "length (run_subtiles r k (nh * nw) (\<lambda>s t. cell_xor g (s div nw) (s mod nw) ((t + 1) * r))) = length (jackpot_of g (2 * nh) (2 * nw) r k)"
    using jackpot_of_words(1) [OF assms(1), of 0] by (simp add: run_subtiles_def ZK_JACKPOT_SIZE_def)
  fix tid assume "tid < length (run_subtiles r k (nh * nw) (\<lambda>s t. cell_xor g (s div nw) (s mod nw) ((t + 1) * r)))"
  then have "tid < ZK_JACKPOT_SIZE" using len jackpot_of_words(1) [OF assms(1), of 0] by (simp add: ZK_JACKPOT_SIZE_def)
  then show "run_subtiles r k (nh * nw) (\<lambda>s t. cell_xor g (s div nw) (s mod nw) ((t + 1) * r)) ! tid = jackpot_of g (2 * nh) (2 * nw) r k ! tid"
    using assms by (simp add: run_subtiles_words jackpot_of_words(2) tile_xor)
qed


section \<open>What the buffer holds\<close>

lemma length_fill_back [simp]: "length (fill_back n start row cur buf) = length buf"
  by (induction n start row cur buf rule: fill_back.induct) (subst fill_back.simps, simp add: Let_def)

lemma rotate4_power: "(rotate4 ^^ Suc n) cur = (rotate4 ^^ n) (rotate4 cur)"
  by (simp add: funpow_swap1)

lemma power_step: "x < m \<Longrightarrow> f ((f ^^ (m - Suc x)) c) = (f ^^ (m - x)) c"
  by (metis Suc_diff_Suc funpow.simps(2) comp_apply)

lemma nth_fill_back:
  assumes "start < n" "row < n" "length buf = n" "x < n"
  shows "fill_back n start row cur buf ! x =
    (if start \<le> row then (if start < x \<and> x \<le> row then (rotate4 ^^ (row - x + 1)) cur else buf ! x)
     else if x \<le> row then (rotate4 ^^ (row - x + 1)) cur
     else if start < x then (rotate4 ^^ (row + n - x + 1)) cur else buf ! x)"
  using assms
proof (induction n start row cur buf rule: fill_back.induct)
  case (1 n start row cur buf)
  show ?case
  proof (cases "row = start")
    case True
    then show ?thesis by (subst fill_back.simps) auto
  next
    case False
    define row' where "row' = (if row = 0 then n - 1 else row - 1)"
    have row': "row' < n" using 1(3) by (auto simp: row'_def)
    have unfold: "fill_back n start row cur buf = fill_back n start row' (rotate4 cur) (buf[row := rotate4 cur])"
      by (subst fill_back.simps) (use False 1(2,3) in \<open>simp add: Let_def row'_def\<close>)
    have IH: "fill_back n start row' (rotate4 cur) (buf[row := rotate4 cur]) ! x =
      (if start \<le> row' then (if start < x \<and> x \<le> row' then (rotate4 ^^ (row' - x + 1)) (rotate4 cur) else buf[row := rotate4 cur] ! x)
       else if x \<le> row' then (rotate4 ^^ (row' - x + 1)) (rotate4 cur)
       else if start < x then (rotate4 ^^ (row' + n - x + 1)) (rotate4 cur) else buf[row := rotate4 cur] ! x)"
      unfolding row'_def using 1(1) [OF _ refl] False 1(2-5) by auto
    have pow: "(rotate4 ^^ a) (rotate4 cur) = (rotate4 ^^ (a + 1)) cur" for a by (simp add: funpow_swap1)
    show ?thesis
      unfolding unfold IH pow using False 1(2-5) by (auto simp: row'_def nth_list_update power_step)
  qed
qed

definition dump_rows :: "jackpot_logic list \<Rightarrow> nat \<Rightarrow> nat list" where
  "dump_rows circuit n = filter (\<lambda>i. is_dump_cumsum_buffer (circuit ! i)) [0..<n]"

definition back_pass :: "nat \<Rightarrow> nat list \<Rightarrow> nat \<Rightarrow> i32 list list \<Rightarrow> i32 list list" where
  "back_pass n ds i b = fill_back n (ds ! (if i = 0 then length ds - 1 else i - 1)) ((ds ! i + n - 1) mod n) (b ! (ds ! i)) b"

lemma sorted_neighbours:
  assumes "sorted_wrt (<) (ds :: nat list)" "i < length ds" "x \<in> set ds"
  shows "x \<le> ds ! i \<or> (i + 1 < length ds \<and> ds ! (i + 1) \<le> x)" "x < ds ! i \<longleftrightarrow> (\<exists>j < i. x = ds ! j)"
proof -
  obtain j where j: "j < length ds" "x = ds ! j" using assms(3) by (auto simp: in_set_conv_nth)
  have mono: "a < b \<Longrightarrow> b < length ds \<Longrightarrow> ds ! a < ds ! b" for a b using assms(1) by (simp add: sorted_wrt_iff_nth_less)
  consider "j < i" | "j = i" | "j = i + 1" | "i + 1 < j" by linarith
  then show "x \<le> ds ! i \<or> (i + 1 < length ds \<and> ds ! (i + 1) \<le> x)"
    by cases (use mono [of j i] mono [of "i + 1" j] j assms(2) in auto)
  show "x < ds ! i \<longleftrightarrow> (\<exists>j < i. x = ds ! j)"
  proof
    assume "x < ds ! i"
    then have "j < i" using j mono [of i j] by (metis assms(2) linorder_neqE_nat not_less_iff_gr_or_eq)
    then show "\<exists>j < i. x = ds ! j" using j by blast
  qed (use mono assms(2) in auto)
qed


lemma back_pass_invariant:
  assumes ds: "sorted_wrt (<) ds" "\<forall>d \<in> set ds. d < n" "0 < ds ! 0" "ds \<noteq> []" and len: "length b0 = n" and m: "m \<le> length ds"
  shows "length (fold (back_pass n ds) [0..<m] b0) = n
    \<and> (\<forall>x \<in> set ds. fold (back_pass n ds) [0..<m] b0 ! x = b0 ! x)
    \<and> (\<forall>i x. i < m \<longrightarrow> x < ds ! i \<longrightarrow> (\<forall>d \<in> set ds. d < x \<or> ds ! i \<le> d) \<longrightarrow>
         fold (back_pass n ds) [0..<m] b0 ! x = (rotate4 ^^ (ds ! i - x)) (b0 ! (ds ! i)))"
  using m
proof (induction m)
  case (Suc m)
  let ?b = "fold (back_pass n ds) [0..<m] b0" and ?start = "ds ! (if m = 0 then length ds - 1 else m - 1)"
  have IH: "length ?b = n" "\<And>x. x \<in> set ds \<Longrightarrow> ?b ! x = b0 ! x"
    "\<And>i x. i < m \<Longrightarrow> x < ds ! i \<Longrightarrow> (\<forall>d \<in> set ds. d < x \<or> ds ! i \<le> d) \<Longrightarrow> ?b ! x = (rotate4 ^^ (ds ! i - x)) (b0 ! (ds ! i))"
    using Suc by auto
  have mono: "a < b \<Longrightarrow> b < length ds \<Longrightarrow> ds ! a < ds ! b" for a b using ds(1) by (simp add: sorted_wrt_iff_nth_less)
  have fin: "ds ! m < n" "0 < ds ! m" using ds Suc(2) mono [of 0 m] by (auto simp: Suc_le_eq) (cases "m = 0", auto)
  then have row: "(ds ! m + n - 1) mod n = ds ! m - 1" by (simp add: mod_if)
  have start: "?start < n" "?start \<in> set ds" using ds Suc(2) by (auto simp: Suc_le_eq)
  have order: "m = 0 \<Longrightarrow> ds ! m \<le> ?start" "0 < m \<Longrightarrow> ?start < ds ! m"
    using mono [of 0 "length ds - 1"] mono [of "m - 1" m] Suc(2) by (cases "length ds = 1", auto simp: Suc_le_eq)
  have pass: "fold (back_pass n ds) [0..<Suc m] b0 ! x =
      (if ?start \<le> ds ! m - 1 then (if ?start < x \<and> x \<le> ds ! m - 1 then (rotate4 ^^ (ds ! m - x)) (b0 ! (ds ! m)) else ?b ! x)
       else if x \<le> ds ! m - 1 then (rotate4 ^^ (ds ! m - x)) (b0 ! (ds ! m))
       else if ?start < x then (rotate4 ^^ (ds ! m - 1 + n - x + 1)) (b0 ! (ds ! m)) else ?b ! x)" if "x < n" for x
  proof -
    have "back_pass n ds m ?b = fill_back n ?start (ds ! m - 1) (b0 ! (ds ! m)) ?b"
      unfolding back_pass_def [of n ds m ?b] row using IH(2) [of "ds ! m"] Suc(2) by (simp add: Suc_le_eq)
    then show ?thesis
      using nth_fill_back [OF start(1), of "ds ! m - 1" ?b x "b0 ! (ds ! m)"] fin IH(1) that by (auto simp: power_step)
  qed
  have keep: "fold (back_pass n ds) [0..<Suc m] b0 ! x = b0 ! x" if x: "x \<in> set ds" for x
  proof -
    have "x < n" using ds(2) x by blast
    moreover have "\<not> (?start < x \<and> x \<le> ds ! m - 1)" if "0 < m"
    proof -
      have "x \<le> ?start \<or> ds ! m \<le> x" using sorted_neighbours(1) [OF ds(1) _ x, of "m - 1"] that Suc(2) by (auto simp: Suc_le_eq)
      then show ?thesis using fin by linarith
    qed
    moreover have "ds ! m \<le> x \<and> x \<le> ?start" if "m = 0"
      using sorted_neighbours(2) [OF ds(1) _ x, of 0] sorted_neighbours(1) [OF ds(1) _ x, of "length ds - 1"] that ds(4) by auto
    ultimately show ?thesis using pass [of x] IH(2) [OF x] order fin by (cases "m = 0") auto
  qed
  have walked: "fold (back_pass n ds) [0..<Suc m] b0 ! x = (rotate4 ^^ (ds ! i - x)) (b0 ! (ds ! i))"
    if i: "i < Suc m" "x < ds ! i" "\<forall>d \<in> set ds. d < x \<or> ds ! i \<le> d" for i x
  proof -
    have x: "x < n" using i ds(2) Suc(2) nth_mem [of i ds] by fastforce
    show ?thesis
    proof (cases "i = m")
      case True
      have "?start < x" if "0 < m"
        using i(3) True that mono [of "m - 1" m] Suc(2) start(2) by force
      then show ?thesis using pass [OF x] order fin i(2) True by (cases "m = 0") auto
    next
      case False
      then have im: "i < m" using i(1) by simp
      then have "x \<le> ?start \<and> x \<le> ds ! (m - 1)" proof -
        have "i = m - 1 \<or> i < m - 1" "m - 1 < length ds" using im Suc(2) by linarith+
        then have "ds ! i \<le> ds ! (m - 1)" using mono [of i "m - 1"] by auto
        with i(2) im show ?thesis by simp
      qed
      then have "fold (back_pass n ds) [0..<Suc m] b0 ! x = ?b ! x" using pass [OF x] im order fin by auto
      then show ?thesis using IH(3) [OF im i(2,3)] by simp
    qed
  qed
  have "length (fold (back_pass n ds) [0..<Suc m] b0) = n" using IH(1) by (simp add: back_pass_def)
  with keep walked show ?case by blast
qed (use len in simp)

lemma buffer_nth:
  assumes "x \<le> e" "e < length tiles" "is_dump_cumsum_buffer (circuit ! e)" "\<not> is_dump_cumsum_buffer (circuit ! 0)"
    and none: "\<And>y. x \<le> y \<Longrightarrow> y < e \<Longrightarrow> \<not> is_dump_cumsum_buffer (circuit ! y)"
  shows "fill_cumsum_buffer tiles circuit ! x = (rotate4 ^^ (e - x)) (tiles ! e)"
proof -
  define n where "n = length tiles"
  define ds where "ds = dump_rows circuit n"
  define b0 where "b0 = fold (\<lambda>i b. b[i := tiles ! i]) ds (replicate n (replicate 4 0))"
  have len: "length (fold (\<lambda>i b. b[i := tiles ! i]) is z) = length z" for "is" and z :: "i32 list list"
    by (induction "is" arbitrary: z) simp_all
  have b0: "b0 ! d = tiles ! d" if "d \<in> set ds" for d
  proof -
    have "fold (\<lambda>i b. b[i := tiles ! i]) is z ! d = (if d \<in> set is then tiles ! d else z ! d)" if "d < length z" for "is" and z :: "i32 list list"
      using that
      by (induction "is" arbitrary: z) (auto simp: nth_list_update list_update_beyond)
    then show ?thesis using \<open>d \<in> set ds\<close> by (auto simp: b0_def ds_def dump_rows_def)
  qed
  have fill: "fill_cumsum_buffer tiles circuit = fold (back_pass n ds) [0..<length ds] b0"
    by (simp add: fill_cumsum_buffer_def Let_def n_def dump_rows_def ds_def b0_def back_pass_def [abs_def])
  have sorted: "sorted_wrt (<) ds" by (simp add: ds_def dump_rows_def sorted_wrt_filter)
  have mem: "d \<in> set ds \<longleftrightarrow> d < n \<and> is_dump_cumsum_buffer (circuit ! d)" for d by (auto simp: ds_def dump_rows_def)
  then have e: "e \<in> set ds" using assms(2,3) by (simp add: n_def)
  then obtain i where i: "i < length ds" "ds ! i = e" by (auto simp: in_set_conv_nth)
  then have ne: "ds \<noteq> []" by auto
  then have "0 < ds ! 0" using mem [of "ds ! 0"] assms(4) by (auto intro: gr0I)
  from back_pass_invariant [OF sorted _ this ne, of n b0 "length ds"]
  have inv: "\<And>x. x \<in> set ds \<Longrightarrow> fill_cumsum_buffer tiles circuit ! x = b0 ! x"
    "\<And>i x. i < length ds \<Longrightarrow> x < ds ! i \<Longrightarrow> (\<forall>d \<in> set ds. d < x \<or> ds ! i \<le> d) \<Longrightarrow>
         fill_cumsum_buffer tiles circuit ! x = (rotate4 ^^ (ds ! i - x)) (b0 ! (ds ! i))"
    by (auto simp: mem fill b0_def len)
  show ?thesis
  proof (cases "x = e")
    case True
    then show ?thesis using inv(1) [OF e] b0 [OF e] by simp
  next
    case False
    moreover have "\<forall>d \<in> set ds. d < x \<or> ds ! i \<le> d" using none mem i(2) by (meson not_le)
    ultimately show ?thesis using inv(2) [OF i(1)] i(2) assms(1) b0 [OF e] by simp
  qed
qed


section \<open>What the rows of a step do\<close>

definition reg_next :: "jackpot_logic \<times> i32 \<Rightarrow> u32 \<times> u32 list \<Rightarrow> u32 \<times> u32 list" where
  "reg_next = (\<lambda>(l, prev) (bit_reg, msg).
     let b = (case jl_src l of SrcJackpot \<Rightarrow> word_rotl LROT_PER_TILE (msg ! jackpot_idx l) | SrcXor \<Rightarrow> bit_reg XOR prev
              | SrcShift3 \<Rightarrow> word_rotr (3 * LROT_PER_TILE) bit_reg)
     in (b, if jl_src l = SrcJackpot then msg else msg[jackpot_idx l := stored (jl_dst l) b]))"

lemma reg_next_simps [simp]:
  "jl_src l = SrcJackpot \<Longrightarrow> reg_next (l, p) (b, msg) = (word_rotl LROT_PER_TILE (msg ! jackpot_idx l), msg)"
  "jl_src l = SrcXor \<Longrightarrow> reg_next (l, p) (b, msg) = (b XOR p, msg[jackpot_idx l := stored (jl_dst l) (b XOR p)])"
  "jl_src l = SrcShift3 \<Longrightarrow> reg_next (l, p) (b, msg)
     = (word_rotr (3 * LROT_PER_TILE) b, msg[jackpot_idx l := stored (jl_dst l) (word_rotr (3 * LROT_PER_TILE) b)])"
  by (simp_all add: reg_next_def Let_def)

lemma register_rows_Ok:
  assumes "\<forall>lp \<in> set lps. jackpot_idx (fst lp) < ZK_JACKPOT_SIZE" "length (snd st) = ZK_JACKPOT_SIZE"
  shows "\<exists>rows. register_rows lps st = Ok rows \<and> length rows = length lps
    \<and> (\<forall>i < length lps. rows ! i = fold reg_next (take (i + 1) lps) st)"
proof (rule register.rows_fold)
  fix lp and st' :: "u32 \<times> u32 list" assume "lp \<in> set lps" "length (snd st') = ZK_JACKPOT_SIZE"
  then show "(case lp of (l, prev) \<Rightarrow> register_row l prev) st' = Ok (reg_next lp st') \<and> length (snd (reg_next lp st')) = ZK_JACKPOT_SIZE"
  proof -
    obtain l prev bit_reg msg where *: "lp = (l, prev)" "st' = (bit_reg, msg)" by (cases lp, cases st') blast
    have "jackpot_idx l < ZK_JACKPOT_SIZE" "length msg = ZK_JACKPOT_SIZE"
      using assms(1) \<open>lp \<in> set lps\<close> \<open>length (snd st') = ZK_JACKPOT_SIZE\<close> by (auto simp: *)
    then show ?thesis by (simp add: * register_row_def reg_next_def Let_def)
  qed
qed (rule assms(2))

lemma fold_defaults: "snd (fold reg_next (zip (replicate n jackpot_default) ps) st) = snd st"
proof (induction n arbitrary: ps st)
  case (Suc n)
  have "snd (reg_next (jackpot_default, p) st) = snd st" for p by (cases st) (simp add: jackpot_default_def)
  then show ?case by (cases ps) (simp_all add: Suc)
qed simp

lemma fold_shifts:
  assumes "length ps = n" "tid < length msg"
  shows "fold reg_next (zip (map (\<lambda>ss. \<lparr>jl_src = SrcShift3, jl_dst = (if ss = a + n - 1 then dst else Store0), jackpot_idx = tid,
            is_dump_cumsum_buffer = (ss = a + n - 1)\<rparr>) [a..<a + n]) ps) (b, msg)
     = ((word_rotr (3 * LROT_PER_TILE) ^^ n) b,
        if n = 0 then msg else msg[tid := stored dst ((word_rotr (3 * LROT_PER_TILE) ^^ n) b)])"
  using assms
proof (induction n arbitrary: a ps b msg)
  case (Suc n)
  obtain p ps' where ps: "ps = p # ps'" "length ps' = n" using Suc.prems(1) by (cases ps) auto
  have "[a..<a + Suc n] = a # [Suc a..<Suc a + n]" by (simp add: upt_conv_Cons)
  with Suc.IH [of ps' "msg[tid := stored (if n = 0 then dst else Store0) (word_rotr (3 * LROT_PER_TILE) b)]" "Suc a"
        "word_rotr (3 * LROT_PER_TILE) b"] ps Suc.prems(2)
  show ?case by (cases n) (simp_all add: funpow_swap1)
qed simp

lemma four_rotations: fixes a :: u32
  shows "a XOR d XOR c XOR b = a XOR b XOR c XOR d" "b XOR a XOR d XOR c = a XOR b XOR c XOR d"
    "c XOR b XOR a XOR d = a XOR b XOR c XOR d" "d XOR c XOR b XOR a = a XOR b XOR c XOR d"
  by (rule bit_word_eqI, auto simp: bit_simps)+

lemma mod4_cases:
  "ns mod 4 = 0 \<and> (ns + 1) mod 4 = 1 \<and> (ns + 2) mod 4 = 2 \<and> (ns + 3) mod 4 = (3 :: nat)
   \<or> ns mod 4 = 1 \<and> (ns + 1) mod 4 = 2 \<and> (ns + 2) mod 4 = 3 \<and> (ns + 3) mod 4 = 0
   \<or> ns mod 4 = 2 \<and> (ns + 1) mod 4 = 3 \<and> (ns + 2) mod 4 = 0 \<and> (ns + 3) mod 4 = 1
   \<or> ns mod 4 = 3 \<and> (ns + 1) mod 4 = 0 \<and> (ns + 2) mod 4 = 1 \<and> (ns + 3) mod 4 = 2"
  by presburger

text \<open>The register rows of a step see the four cells of the subtile, whatever the number of shifts.\<close>

lemma fold_register_ops:
  assumes len: "length ps = 5 + ns" and tid: "tid < length msg"
    and seen: "\<And>y. 1 \<le> y \<Longrightarrow> y < 5 + ns \<Longrightarrow> ps ! y = cells ! ((5 + ns - y) mod 4)"
  shows "snd (fold reg_next (zip (register_ops tid ns dst) ps) (b, msg))
     = msg[tid := final_word (ns, dst) (word_rotl LROT_PER_TILE (msg ! tid) XOR (cells ! 0 XOR cells ! 1 XOR cells ! 2 XOR cells ! 3))]"
proof -
  obtain p0 p1 p2 p3 p4 ps' where ps: "ps = p0 # p1 # p2 # p3 # p4 # ps'" "length ps' = ns"
  proof -
    have "length ps = Suc (Suc (Suc (Suc (Suc ns))))" using len by simp
    then show ?thesis using that unfolding length_Suc_conv by blast
  qed
  have nths: "ps ! 1 = p1" "ps ! 2 = p2" "ps ! 3 = p3" "ps ! 4 = p4" by (simp_all add: ps)
  have gaps: "5 + ns - 1 = ns + 4" "5 + ns - 2 = ns + 3" "5 + ns - 3 = ns + 2" "5 + ns - 4 = ns + 1" by simp_all
  have p: "p1 = cells ! ((ns + 4) mod 4)" "p2 = cells ! ((ns + 3) mod 4)" "p3 = cells ! ((ns + 2) mod 4)" "p4 = cells ! ((ns + 1) mod 4)"
    using seen [of 1, unfolded nths gaps] seen [of 2, unfolded nths gaps] seen [of 3, unfolded nths gaps] seen [of 4, unfolded nths gaps]
    by auto
  from mod4_cases [of ns]
  have cells: "p1 XOR p2 XOR p3 XOR p4 = cells ! 0 XOR cells ! 1 XOR cells ! 2 XOR cells ! 3"
    by (elim disjE conjE) (simp only: p mod_add_self2, rule four_rotations)+
  define w where "w = word_rotl LROT_PER_TILE (msg ! tid) XOR (p1 XOR p2 XOR p3 XOR p4)"
  have ops: "register_ops tid ns dst =
      [\<lparr>jl_src = SrcJackpot, jl_dst = Store1, jackpot_idx = tid, is_dump_cumsum_buffer = False\<rparr>,
       \<lparr>jl_src = SrcXor, jl_dst = Store0, jackpot_idx = tid, is_dump_cumsum_buffer = False\<rparr>,
       \<lparr>jl_src = SrcXor, jl_dst = Store0, jackpot_idx = tid, is_dump_cumsum_buffer = False\<rparr>,
       \<lparr>jl_src = SrcXor, jl_dst = Store0, jackpot_idx = tid, is_dump_cumsum_buffer = False\<rparr>,
       \<lparr>jl_src = SrcXor, jl_dst = (if ns = 0 then dst else Store0), jackpot_idx = tid, is_dump_cumsum_buffer = (ns = 0)\<rparr>]
      @ map (\<lambda>ss. \<lparr>jl_src = SrcShift3, jl_dst = (if ss = 1 + ns - 1 then dst else Store0), jackpot_idx = tid,
            is_dump_cumsum_buffer = (ss = 1 + ns - 1)\<rparr>) [1..<1 + ns]"
  proof -
    have "[1..<xor_instructions - 1] = [1, 2, 3]" by (simp add: xor_instructions_def TILE_H_def upt_rec)
    moreover have "[0..<ns + 1] = 0 # [1..<1 + ns]" by (simp add: upt_conv_Cons)
    ultimately show ?thesis by (auto simp: register_ops_def)
  qed
  have "fold reg_next (zip (register_ops tid ns dst) ps) (b, msg)
      = fold reg_next (zip (map (\<lambda>ss. \<lparr>jl_src = SrcShift3, jl_dst = (if ss = 1 + ns - 1 then dst else Store0), jackpot_idx = tid,
            is_dump_cumsum_buffer = (ss = 1 + ns - 1)\<rparr>) [1..<1 + ns]) ps') (w, msg[tid := stored (if ns = 0 then dst else Store0) w])"
    by (simp add: ops ps stored_def w_def xor.assoc)
  also have "snd \<dots> = msg[tid := final_word (ns, dst) w]"
    using fold_shifts [OF ps(2), where tid = tid and msg = "msg[tid := stored (if ns = 0 then dst else Store0) w]" and dst = dst and a = 1 and b = w] tid
    by (simp add: final_word_def)
  finally show ?thesis by (simp add: w_def cells)
qed

end
