(* ===== verification/Jackpot_Program.thy ===== *)
theory Jackpot_Program imports Jackpot_Trace begin

text \<open>
  The program of the products and of the jackpot register computes the verifier's jackpot: block by block, the
  accumulated tile is the subtile's dot products, the buffer feeds its four cells to the register, and the words end
  as \<open>compute_jackpot\<close> leaves them.
\<close>

section \<open>Tiles of a slice\<close>

definition holds_strips :: "i8 list list \<Rightarrow> nat \<Rightarrow> nat \<Rightarrow> bool" where
  "holds_strips xs n len \<longleftrightarrow> n \<le> length xs \<and> (\<forall>u < n. len \<le> length (xs ! u))"

lemma subrange_eight: "p + 8 \<le> length xs \<Longrightarrow> subrange p (p + 8) xs = map (\<lambda>i. xs ! (p + i)) [0..<8]"
  by (intro nth_equalityI) (simp_all add: subrange_def)

definition strips_for :: "mm_slice \<Rightarrow> bool \<Rightarrow> i8 list list" where
  "strips_for s is_b = (if is_b then mm_b s else mm_a s)"

lemma read_tile_Ok:
  assumes "holds_strips (strips_for s is_b) n len" "strip + 2 \<le> n" "pos + 16 \<le> len"
  shows "read_tile s \<lparr>is_b_strip = is_b, strip_idx = strip, idx_in_strip = pos\<rparr>
    = Ok (map (\<lambda>i. strips_for s is_b ! (strip + i div 16) ! (pos + i mod 16)) [0..<32])"
proof -
  let ?xs = "strips_for s is_b"
  have dw: "read_dword_from_matrix s \<lparr>is_b_strip = is_b, strip_idx = strip + u, idx_in_strip = pos + v * 8\<rparr>
      = Ok (map (\<lambda>i. ?xs ! (strip + u) ! (pos + v * 8 + i)) [0..<8])" if "u < 2" "v < 2" for u v
  proof -
    have "strip + u < length ?xs" "pos + v * 8 + 8 \<le> length (?xs ! (strip + u))"
      using assms that by (auto simp: holds_strips_def intro: order_trans [of _ len])
    then show ?thesis using subrange_eight [of "pos + v * 8" "?xs ! (strip + u)"]
      by (simp add: read_dword_from_matrix_def nth_res_def strips_for_def DWORD_SIZE_def add.assoc)
  qed
  have "List.product [0..<TILE_H] [0..<TILE_D div DWORD_SIZE] = [(0, 0), (0, 1), (1, 0), (1, 1)]"
    by (simp add: TILE_H_def TILE_D_def DWORD_SIZE_def upt_rec)
  then have "read_tile s \<lparr>is_b_strip = is_b, strip_idx = strip, idx_in_strip = pos\<rparr>
    = Ok (concat [map (\<lambda>i. ?xs ! strip ! (pos + i)) [0..<8], map (\<lambda>i. ?xs ! strip ! (pos + 8 + i)) [0..<8],
        map (\<lambda>i. ?xs ! (strip + 1) ! (pos + i)) [0..<8], map (\<lambda>i. ?xs ! (strip + 1) ! (pos + 8 + i)) [0..<8]])"
    using dw [of 0 0] dw [of 0 1] dw [of 1 0] dw [of 1 1] by (simp add: read_tile_def DWORD_SIZE_def)
  also have "\<dots> = Ok (concat (map (\<lambda>c. map (\<lambda>i. ?xs ! (strip + c div 2) ! (pos + c mod 2 * 8 + i)) [0..<8]) [0..<4]))"
    by (simp add: upt_rec [of _ 4])
  also have "concat (map (\<lambda>c. map (\<lambda>i. ?xs ! (strip + c div 2) ! (pos + c mod 2 * 8 + i)) [0..<8]) [0..<4])
      = map (\<lambda>i. ?xs ! (strip + i div 16) ! (pos + i mod 16)) [0..<32]"
  proof (rule nth_equalityI)
    fix x assume "x < length (concat (map (\<lambda>c. map (\<lambda>i. ?xs ! (strip + c div 2) ! (pos + c mod 2 * 8 + i)) [0..<8]) [0..<4]))"
    then have x: "x < 4 * 8" by (simp add: length_concat comp_def sum_list_triv)
    have "x div 8 div 2 = x div 16" "x div 8 mod 2 * 8 + x mod 8 = x mod 16"
      using div_mult2_eq [of x 8 2] mod_mult2_eq [of x 8 2] by simp_all
    then have p: "pos + x div 8 mod 2 * 8 + x mod 8 = pos + x mod 16" by (simp add: add.assoc)
    have "concat (map (\<lambda>c. map (\<lambda>i. ?xs ! (strip + c div 2) ! (pos + c mod 2 * 8 + i)) [0..<8]) [0..<4]) ! x
      = map (\<lambda>i. ?xs ! (strip + x div 8 div 2) ! (pos + x div 8 mod 2 * 8 + i)) [0..<8] ! (x mod 8)"
      by (rule nth_concat_chunks [OF _ x]) simp
    also have "\<dots> = ?xs ! (strip + x div 8 div 2) ! (pos + x div 8 mod 2 * 8 + x mod 8)" by simp
    also have "\<dots> = map (\<lambda>i. ?xs ! (strip + i div 16) ! (pos + i mod 16)) [0..<32] ! x"
      unfolding p \<open>x div 8 div 2 = x div 16\<close> using x by simp
    finally show "concat (map (\<lambda>c. map (\<lambda>i. ?xs ! (strip + c div 2) ! (pos + c mod 2 * 8 + i)) [0..<8]) [0..<4]) ! x
      = map (\<lambda>i. ?xs ! (strip + i div 16) ! (pos + i mod 16)) [0..<32] ! x" .
  qed (simp add: length_concat comp_def sum_list_triv)
  finally show ?thesis .
qed

text \<open>What both slices give at a position: the sum of a secret and a noise byte.\<close>

definition noised :: "mm_slice \<Rightarrow> mm_slice \<Rightarrow> bool \<Rightarrow> nat \<Rightarrow> nat \<Rightarrow> i8" where
  "noised s z is_b u l = strips_for s is_b ! u ! l + strips_for z is_b ! u ! l"

lemma noised_tile_Ok:
  assumes "holds_strips (strips_for s is_b) n len" "holds_strips (strips_for z is_b) n len" "strip + 2 \<le> n" "pos + 16 \<le> len"
  shows "noised_tile s z (Some \<lparr>is_b_strip = is_b, strip_idx = strip, idx_in_strip = pos\<rparr>)
    = Ok (map (\<lambda>i. noised s z is_b (strip + i div 16) (pos + i mod 16)) [0..<32])"
  by (simp add: noised_tile_def read_tile_Ok [OF assms(1,3,4)] read_tile_Ok [OF assms(2,3,4)] noised_def map2_map_map)

section \<open>The accumulated tile\<close>

definition product :: "mm_slice \<Rightarrow> mm_slice \<Rightarrow> nat \<Rightarrow> nat \<Rightarrow> nat \<Rightarrow> i32" where
  "product s z u v l = scast (noised s z False u l) * scast (noised s z True v l)"

definition tile2 :: "(nat \<Rightarrow> nat \<Rightarrow> nat \<Rightarrow> i32) \<Rightarrow> nat \<Rightarrow> nat \<Rightarrow> nat \<Rightarrow> i32 list list" where
  "tile2 g i j hi = map (\<lambda>u. map (\<lambda>v. dot g (2 * i + u) (2 * j + v) hi) [0..<2]) [0..<2]"

definition holds_dims :: "mm_slice \<Rightarrow> nat \<Rightarrow> nat \<Rightarrow> nat \<Rightarrow> bool" where
  "holds_dims s h w len \<longleftrightarrow> holds_strips (mm_a s) h len \<and> holds_strips (mm_b s) w len"

lemma fold_from: "fold (\<lambda>k acc. acc + f k) [0..<n] (a :: i32) = fold (\<lambda>l acc. acc + f (l - m)) [m..<m + n] a"
  by (induction n) simp_all

lemma product_row:
  assumes "holds_dims s h w len" "holds_dims z h w len" "2 * i + 2 \<le> h" "2 * j + 2 \<le> w" "pos + 16 \<le> len"
    and "pos = 0 \<or> st = tile2 (product s z) i j pos"
  shows "cumsum_row s z \<lparr>is_reset_cumsum = (pos = 0), a_dword = Some \<lparr>is_b_strip = False, strip_idx = i * TILE_H, idx_in_strip = pos\<rparr>,
      b_dword = Some \<lparr>is_b_strip = True, strip_idx = j * TILE_H, idx_in_strip = pos\<rparr>\<rparr> st = Ok (tile2 (product s z) i j (pos + 16))"
proof -
  have a: "noised_tile s z (Some \<lparr>is_b_strip = False, strip_idx = 2 * i, idx_in_strip = pos\<rparr>)
      = Ok (map (\<lambda>x. noised s z False (2 * i + x div 16) (pos + x mod 16)) [0..<32])"
    using assms by (intro noised_tile_Ok) (auto simp: holds_dims_def strips_for_def)
  have b: "noised_tile s z (Some \<lparr>is_b_strip = True, strip_idx = 2 * j, idx_in_strip = pos\<rparr>)
      = Ok (map (\<lambda>x. noised s z True (2 * j + x div 16) (pos + x mod 16)) [0..<32])"
    using assms by (intro noised_tile_Ok) (auto simp: holds_dims_def strips_for_def)
  define start where "start = (if pos = 0 then replicate TILE_H (replicate TILE_H 0) else st)"
  have start: "start ! u ! v = dot (product s z) (2 * i + u) (2 * j + v) pos" if "u < 2" "v < 2" for u v
    using assms(6) that by (auto simp: start_def tile2_def dot_def TILE_H_def)
  have cell: "fold (\<lambda>k acc. acc + scast (map (\<lambda>x. noised s z False (2 * i + x div 16) (pos + x mod 16)) [0..<32] ! (u * 16 + k))
        * scast (map (\<lambda>x. noised s z True (2 * j + x div 16) (pos + x mod 16)) [0..<32] ! (v * 16 + k))) [0..<16] (start ! u ! v)
      = dot (product s z) (2 * i + u) (2 * j + v) (pos + 16)" if uv: "u < 2" "v < 2" for u v
  proof -
    have "fold (\<lambda>k acc. acc + scast (map (\<lambda>x. noised s z False (2 * i + x div 16) (pos + x mod 16)) [0..<32] ! (u * 16 + k))
        * scast (map (\<lambda>x. noised s z True (2 * j + x div 16) (pos + x mod 16)) [0..<32] ! (v * 16 + k))) [0..<16] (start ! u ! v)
      = fold (\<lambda>k acc. acc + product s z (2 * i + u) (2 * j + v) (pos + k)) [0..<16] (start ! u ! v)"
      by (rule fold_cong) (use uv in \<open>auto simp: product_def\<close>)
    also have "\<dots> = fold (\<lambda>l acc. acc + product s z (2 * i + u) (2 * j + v) (pos + (l - pos))) [pos..<pos + 16] (start ! u ! v)"
      by (rule fold_from)
    also have "\<dots> = fold (\<lambda>l acc. acc + product s z (2 * i + u) (2 * j + v) l) [pos..<pos + 16] (start ! u ! v)"
      by (rule fold_cong) auto
    also have "\<dots> = dot (product s z) (2 * i + u) (2 * j + v) (pos + 16)" using dot_from [of pos "pos + 16"] start [OF uv] by simp
    finally show ?thesis .
  qed
  have "map (\<lambda>u. map (\<lambda>v. fold (\<lambda>k acc. acc + scast (map (\<lambda>x. noised s z False (2 * i + x div 16) (pos + x mod 16)) [0..<32] ! (u * 16 + k))
        * scast (map (\<lambda>x. noised s z True (2 * j + x div 16) (pos + x mod 16)) [0..<32] ! (v * 16 + k))) [0..<16] (start ! u ! v)) [0..<2]) [0..<2]
     = tile2 (product s z) i j (pos + 16)"
    unfolding tile2_def by (intro map_cong refl) (simp add: cell)
  then show ?thesis
    by (simp add: cumsum_row_def TILE_H_def TILE_D_def a b is_update_cumsum_def start_def mult.commute [of _ 2] split del: if_split)
qed

lemma default_row: "cumsum_row s z matmul_default st = Ok st"
  by (simp add: cumsum_row_def matmul_default_def noised_tile_def is_update_cumsum_def)

section \<open>The register over the blocks\<close>

lemma concat_at:
  assumes "n < N" "p < length (f n)"
  shows "concat (map f [0..<N]) ! (length (concat (map f [0..<n])) + p) = f n ! p"
    and "length (concat (map f [0..<n])) + p < length (concat (map f [0..<N]))"
proof -
  have "[0..<N] = [0..<n] @ n # [Suc n..<N]"
    using assms(1) upt_add_eq_append [of 0 n "N - n"] by (simp add: upt_conv_Cons)
  then have *: "concat (map f [0..<N]) = concat (map f [0..<n]) @ f n @ concat (map f [Suc n..<N])" by simp
  show "concat (map f [0..<N]) ! (length (concat (map f [0..<n])) + p) = f n ! p"
    unfolding * using assms(2) by (simp add: nth_append)
  show "length (concat (map f [0..<n])) + p < length (concat (map f [0..<N]))"
    unfolding * using assms(2) by simp
qed

lemma rotate4_nth:
  assumes "length cells = 4"
  shows "(rotate4 ^^ m) cells ! 0 = cells ! (m mod 4)"
proof -
  have "length cells = Suc (Suc (Suc (Suc 0)))" using assms by simp
  then obtain a b c d where cells: "cells = [a, b, c, d]" unfolding length_Suc_conv length_0_conv by blast
  have "(rotate4 ^^ 4) [a, b, c, d] = [a, b, c, d]" by (simp add: rotate4_def eval_nat_numeral)
  then have "(rotate4 ^^ (m mod 4)) [a, b, c, d] = (rotate4 ^^ m) [a, b, c, d]" by (rule funpow_mod_eq)
  then have "(rotate4 ^^ m) cells = (rotate4 ^^ (m mod 4)) cells" by (simp add: cells)
  moreover have "m mod 4 = 0 \<or> m mod 4 = 1 \<or> m mod 4 = 2 \<or> m mod 4 = 3" by presburger
  ultimately show ?thesis by (elim disjE) (simp_all add: cells rotate4_def numeral_2_eq_2 numeral_3_eq_3)
qed

lemma register_ops_length [simp]: "length (register_ops t ns dst) = 5 + ns"
  by (simp add: register_ops_def xor_instructions_def TILE_H_def)

lemma register_ops_dump: "q < 5 + ns \<Longrightarrow> is_dump_cumsum_buffer (register_ops t ns dst ! q) \<longleftrightarrow> q = 4 + ns"
  by (auto simp: register_ops_def xor_instructions_def TILE_H_def nth_append nth_Cons split: nat.split)

lemma register_ops_idx: "l \<in> set (register_ops t ns dst) \<Longrightarrow> jackpot_idx l = t"
  by (auto simp: register_ops_def)

lemma fold_length: "(\<And>x b. length (f x b) = length b) \<Longrightarrow> length (fold f xs z) = length z"
  by (induction xs arbitrary: z) simp_all

lemma blocks_register:
  fixes J :: "nat \<Rightarrow> jackpot_logic list" and T :: "nat \<Rightarrow> i32 list list"
  assumes J: "\<And>b. b < N \<Longrightarrow> J b = replicate (d b) jackpot_default @ register_ops (tid b) (ns b) (dst b)"
    and tid: "\<And>b. b < N \<Longrightarrow> tid b < ZK_JACKPOT_SIZE"
    and T: "\<And>b. b < N \<Longrightarrow> length (T b) = length (J b) \<and> last (T b) = cells b \<and> length (cells b) = 4"
    and circuit: "circuit = concat (map J [0..<N]) @ replicate pad jackpot_default"
    and tiles: "tiles = concat (map T [0..<N]) @ pad_tiles" "length pad_tiles = pad"
  shows "\<exists>regs. fill_cumsum_buffer_xor_jackpot tiles circuit = Ok regs \<and> length regs = length circuit
    \<and> (\<forall>i < length circuit. length (concat (map J [0..<N])) \<le> i + 1 \<longrightarrow>
         snd (regs ! i) = fold (\<lambda>b msg. msg[tid b := final_word (ns b, dst b)
            (word_rotl LROT_PER_TILE (msg ! tid b) XOR (cells b ! 0 XOR cells b ! 1 XOR cells b ! 2 XOR cells b ! 3))]) [0..<N] (replicate ZK_JACKPOT_SIZE 0))"
proof -
  define off where "off = (\<lambda>n. length (concat (map J [0..<n])))"
  define prevs where "prevs = 0 # map (\<lambda>b. b ! 0) (fill_cumsum_buffer tiles circuit)"
  define lps where "lps = zip circuit prevs"
  define upd where "upd = (\<lambda>b msg. msg[tid b := final_word (ns b, dst b)
            (word_rotl LROT_PER_TILE (msg ! tid b) XOR (cells b ! 0 XOR cells b ! 1 XOR cells b ! 2 XOR cells b ! 3))])"
  have lenJ: "length (J b) = d b + (5 + ns b)" if "b < N" for b using J [OF that] by simp
  have offT: "length (concat (map T [0..<n])) = off n" if "n \<le> N" for n
    using that by (induction n) (simp_all add: off_def T)
  have len: "length tiles = length circuit" using offT [of N] by (simp add: circuit tiles off_def)
  have circ: "circuit ! (off b + p) = J b ! p" "off b + p < off N" if "b < N" "p < length (J b)" for b p
    using concat_at [OF that(1), of p J] that by (simp_all add: circuit off_def nth_append)
  have tile: "tiles ! (off b + p) = T b ! p" if "b < N" "p < length (J b)" for b p
    using concat_at [OF that(1), of p T] that T [OF that(1)] offT [of b] offT [of N] by (simp add: tiles nth_append)
  have dump: "is_dump_cumsum_buffer (J b ! p) \<longleftrightarrow> p = d b + (4 + ns b)" if "b < N" "p < length (J b)" for b p
    using that lenJ [OF that(1)] register_ops_dump [of "p - d b" "ns b"] by (auto simp: J nth_append jackpot_default_def)
  have idx: "jackpot_idx l < ZK_JACKPOT_SIZE" if "l \<in> set circuit" for l
    using that tid by (auto simp: circuit J jackpot_default_def ZK_JACKPOT_SIZE_def dest!: register_ops_idx)
  have lenB: "length (fill_cumsum_buffer tiles circuit) = length tiles"
    by (simp add: fill_cumsum_buffer_def Let_def fold_length)
  have lenL: "length lps = length circuit" by (simp add: lps_def prevs_def lenB len)
  have prev: "prevs ! (off b + (d b + y)) = cells b ! ((5 + ns b - y) mod 4)" if b: "b < N" and y: "1 \<le> y" "y < 5 + ns b" for b y
  proof -
    let ?x = "off b + (d b + (y - 1))" and ?e = "off b + (d b + (4 + ns b))"
    have e: "d b + (4 + ns b) < length (J b)" using lenJ [OF b] by simp
    have "\<not> is_dump_cumsum_buffer (circuit ! 0)"
      using circ(1) [of 0 0] dump [of 0 0] lenJ [of 0] b by (simp add: off_def)
    moreover have "\<not> is_dump_cumsum_buffer (circuit ! z)" if z: "?x \<le> z" "z < ?e" for z
    proof -
      define q where "q = z - off b"
      have "z = off b + q" "q < d b + (4 + ns b)" using z by (auto simp: q_def)
      then show ?thesis using circ(1) [OF b, of q] dump [OF b, of q] e by simp
    qed
    ultimately have "fill_cumsum_buffer tiles circuit ! ?x = (rotate4 ^^ (?e - ?x)) (tiles ! ?e)"
      using circ [OF b e] dump [OF b e] y len by (intro buffer_nth) (auto simp: circuit off_def)
    also have "tiles ! ?e = cells b"
    proof -
      have "last (T b) = T b ! (length (T b) - 1)" using T [OF b] lenJ [OF b] by (intro last_conv_nth) auto
      also have "length (T b) - 1 = d b + (4 + ns b)" using T [OF b] lenJ [OF b] by simp
      finally show ?thesis using tile [OF b e] T [OF b] by simp
    qed
    also have "?e - ?x = 5 + ns b - y" using y by simp
    finally have "fill_cumsum_buffer tiles circuit ! ?x ! 0 = cells b ! ((5 + ns b - y) mod 4)"
      using T [OF b] by (simp add: rotate4_nth)
    moreover have "?x < length tiles"
    proof -
      have "d b + (y - 1) < length (J b)" using lenJ [OF b] y by simp
      from circ(2) [OF b this] show ?thesis using len by (simp add: circuit off_def)
    qed
    ultimately have "prevs ! Suc ?x = cells b ! ((5 + ns b - y) mod 4)" unfolding prevs_def nth_Cons_Suc by (subst nth_map) (simp_all only: lenB)
    moreover have "off b + (d b + y) = Suc ?x" using y by simp
    ultimately show ?thesis by (simp only:)
  qed
  have run: "snd (fold reg_next (take (off n) lps) (0, replicate ZK_JACKPOT_SIZE 0)) = fold upd [0..<n] (replicate ZK_JACKPOT_SIZE 0)
      \<and> length (fold upd [0..<n] (replicate ZK_JACKPOT_SIZE 0)) = ZK_JACKPOT_SIZE" if "n \<le> N" for n
    using that
  proof (induction n)
    case (Suc n)
    let ?st = "fold reg_next (take (off n) lps) (0, replicate ZK_JACKPOT_SIZE 0)"
    define seen where "seen = (\<lambda>p. prevs ! (off n + p))"
    have n: "n < N" using Suc(2) by simp
    have IH: "snd ?st = fold upd [0..<n] (replicate ZK_JACKPOT_SIZE 0)" "length (fold upd [0..<n] (replicate ZK_JACKPOT_SIZE 0)) = ZK_JACKPOT_SIZE"
      using Suc n by simp_all
    have offS: "off (Suc n) = off n + length (J n)" by (simp add: off_def)
    have le: "off (Suc n) \<le> length lps"
      using circ(2) [OF n, of "length (J n) - 1"] lenJ [OF n] lenL offS by (simp add: circuit) (simp add: off_def)
    have "take (length (J n)) (drop (off n) lps) = zip (J n) (map seen [0..<length (J n)])"
    proof (rule nth_equalityI)
      fix p assume "p < length (take (length (J n)) (drop (off n) lps))"
      then have p: "p < length (J n)" by simp
      have len_prevs: "length prevs = Suc (length circuit)" by (simp add: prevs_def lenB len)
      show "take (length (J n)) (drop (off n) lps) ! p = zip (J n) (map seen [0..<length (J n)]) ! p"
        using p le offS circ(1) [OF n p] lenL len_prevs by (simp add: lps_def seen_def)
    qed (use le offS in simp)
    then have "take (off (Suc n)) lps = take (off n) lps @ zip (J n) (map seen [0..<length (J n)])"
      by (simp only: offS take_add)
    then have "snd (fold reg_next (take (off (Suc n)) lps) (0, replicate ZK_JACKPOT_SIZE 0)) = snd (fold reg_next (zip (J n) (map seen [0..<length (J n)])) ?st)"
      by simp
    also have "\<dots> = snd (fold reg_next (zip (register_ops (tid n) (ns n) (dst n)) (map (\<lambda>y. seen (d n + y)) [0..<5 + ns n]))
        (fold reg_next (zip (replicate (d n) jackpot_default) (map seen [0..<d n])) ?st))"
    proof -
      have "map seen [0..<length (J n)] = map seen [0..<d n] @ map (\<lambda>y. seen (d n + y)) [0..<5 + ns n]"
        by (rule nth_equalityI) (auto simp: lenJ [OF n] nth_append)
      then show ?thesis by (simp add: J [OF n])
    qed
    also have "\<dots> = upd n (snd ?st)"
    proof -
      obtain b msg where st: "fold reg_next (zip (replicate (d n) jackpot_default) (map seen [0..<d n])) ?st = (b, msg)" by fastforce
      then have msg: "msg = snd ?st" using fold_defaults by (metis snd_conv)
      show ?thesis unfolding st upd_def msg
        by (rule fold_register_ops) (use tid [OF n] prev [OF n] IH in \<open>auto simp: seen_def\<close>)
    qed
    finally show ?case using IH by (simp add: upd_def)
  qed (simp add: off_def)
  obtain regs where regs: "register_rows lps (0, replicate ZK_JACKPOT_SIZE 0) = Ok regs" "length regs = length lps"
    "\<forall>i < length lps. regs ! i = fold reg_next (take (i + 1) lps) (0, replicate ZK_JACKPOT_SIZE 0)"
  proof -
    have "\<forall>lp \<in> set lps. jackpot_idx (fst lp) < ZK_JACKPOT_SIZE"
      using idx by (auto simp: lps_def dest: set_zip_leftD)
    then show ?thesis using register_rows_Ok [of lps "(0, replicate ZK_JACKPOT_SIZE 0)"] that by auto
  qed
  have "snd (regs ! i) = fold upd [0..<N] (replicate ZK_JACKPOT_SIZE 0)" if i: "i < length circuit" "off N \<le> i + 1" for i
  proof -
    have "drop (off N) lps = zip (replicate pad jackpot_default) (drop (off N) prevs)"
      by (simp add: lps_def drop_zip circuit off_def)
    then have "take (i + 1) lps = take (off N) lps @ zip (replicate (min pad (i + 1 - off N)) jackpot_default) (take (i + 1 - off N) (drop (off N) prevs))"
      using take_add [of "off N" "i + 1 - off N" lps] i by (simp add: take_zip min.commute)
    then show ?thesis using regs(3) lenL i run [of N] by (simp add: fold_defaults)
  qed
  then show ?thesis using regs lenL
    by (simp add: fill_cumsum_buffer_xor_jackpot_def Let_def lps_def [symmetric] prevs_def [symmetric] off_def upd_def)
qed

section \<open>The tile over the blocks\<close>

lemma goes_defaults: "goes (cumsum_rows s z) (replicate n matmul_default) st (replicate n (concat st)) st"
  by (rule cumsum.goes_same) (rule default_row)

lemma goes_products:
  assumes "holds_dims s h w len" "holds_dims z h w len" "2 * i + 2 \<le> h" "2 * j + 2 \<le> w" "lo + n * 16 \<le> len"
    and "lo = 0 \<or> st = tile2 (product s z) i j lo" "0 < n"
  shows "goes (cumsum_rows s z) (map (\<lambda>l. let pos = lo + l * 16 in
        \<lparr>is_reset_cumsum = (pos = 0), a_dword = Some \<lparr>is_b_strip = False, strip_idx = i * TILE_H, idx_in_strip = pos\<rparr>,
         b_dword = Some \<lparr>is_b_strip = True, strip_idx = j * TILE_H, idx_in_strip = pos\<rparr>\<rparr>) [0..<n]) st
      (map (\<lambda>l. concat (tile2 (product s z) i j (lo + (l + 1) * 16))) [0..<n]) (tile2 (product s z) i j (lo + n * 16))"
  using assms(5,7)
proof (induction n)
  case (Suc n)
  have row: "cumsum_row s z \<lparr>is_reset_cumsum = (lo + n * 16 = 0), a_dword = Some \<lparr>is_b_strip = False, strip_idx = i * TILE_H, idx_in_strip = lo + n * 16\<rparr>,
      b_dword = Some \<lparr>is_b_strip = True, strip_idx = j * TILE_H, idx_in_strip = lo + n * 16\<rparr>\<rparr> st' = Ok (tile2 (product s z) i j (lo + Suc n * 16))"
    if "lo + n * 16 = 0 \<or> st' = tile2 (product s z) i j (lo + n * 16)" for st'
    using product_row [OF assms(1-4) _ that] Suc(2) by (simp add: add.assoc add.commute [of 16])
  show ?case
  proof (cases "n = 0")
    case True
    then show ?thesis using cumsum.goes_Cons [OF row [of st]] assms(6) by (simp add: Let_def)
  next
    case False
    then show ?thesis using cumsum.goes_append [OF Suc.IH cumsum.goes_Cons [OF row]] Suc.prems by (simp add: Let_def)
  qed
qed simp

section \<open>The blocks of the program\<close>

lemma concat_grid: "concat (map (\<lambda>s. map (f s) [0..<K]) [0..<S]) = map (\<lambda>b. f (b div K) (b mod K)) [0..<S * K]"
proof (rule nth_equalityI)
  fix x assume "x < length (concat (map (\<lambda>s. map (f s) [0..<K]) [0..<S]))"
  then have x: "x < S * K" by (simp add: length_concat comp_def sum_list_triv)
  then have "x mod K < K" by (cases K) simp_all
  then show "concat (map (\<lambda>s. map (f s) [0..<K]) [0..<S]) ! x = map (\<lambda>b. f (b div K) (b mod K)) [0..<S * K] ! x"
    using nth_concat_chunks [OF _ x, of "\<lambda>s. map (f s) [0..<K]"] x by simp
qed (simp add: length_concat comp_def sum_list_triv)

lemma product_grid: "List.product [0..<nh] [0..<nw] = map (\<lambda>s. (s div nw, s mod nw)) [0..<nh * nw]"
proof -
  have "List.product [0..<nh] [0..<nw] = concat (map (\<lambda>i. map (Pair i) [0..<nw]) [0..<nh])"
    by (simp add: product_concat_map)
  then show ?thesis by (simp add: concat_grid)
qed

lemma fold_grid: "fold (\<lambda>s. fold (f s) [0..<K]) [0..<S] m = fold (\<lambda>b. f (b div K) (b mod K)) [0..<S * K] m"
proof -
  have "fold (\<lambda>s. fold (f s) [0..<K]) [0..<S] m = fold (\<lambda>g. g) (concat (map (\<lambda>s. map (f s) [0..<K]) [0..<S])) m"
    by (induction S) (simp_all add: fold_map comp_def)
  then show ?thesis by (simp add: concat_grid fold_map comp_def)
qed

definition block_ops :: "nat \<Rightarrow> nat \<Rightarrow> nat \<Rightarrow> nat \<Rightarrow> nat \<times> bit_reg_dst" where
  "block_ops r k S b = back_shift r k (b div (k div r) = S - 1) ((b mod (k div r) + 1) * r)"

definition program_block :: "nat \<Rightarrow> nat \<Rightarrow> nat \<Rightarrow> nat \<Rightarrow> nat \<Rightarrow> matmul_logic list \<times> jackpot_logic list" where
  "program_block r k nw S b =
     step_logic (b div (k div r) div nw) (b div (k div r) mod nw) r ((b mod (k div r) + 1) * r) (block_ops r k S b)"

lemma program_blocks:
  assumes "structure_matmul_in_stark c = Ok (mp, jp)"
  shows "0 < c_r c" "c_k c mod 16 = 0" "c_h c = 2 * (c_h c div 2)" "c_w c = 2 * (c_w c div 2)"
    and "mp = concat (map (\<lambda>b. fst (program_block (c_r c) (c_k c) (c_w c div 2) (c_h c div 2 * (c_w c div 2)) b)) [0..<c_h c div 2 * (c_w c div 2) * (c_k c div c_r c)])"
    and "jp = concat (map (\<lambda>b. snd (program_block (c_r c) (c_k c) (c_w c div 2) (c_h c div 2 * (c_w c div 2)) b)) [0..<c_h c div 2 * (c_w c div 2) * (c_k c div c_r c)])"
proof -
  let ?nh = "c_h c div 2" and ?nw = "c_w c div 2" and ?K = "c_k c div c_r c"
  have e: "c_k c mod 16 = 0" "c_h c mod 2 = 0" "c_w c mod 2 = 0" "c_r c \<noteq> 0"
    and mp: "mp = concat (map fst (concat (map (subtile_logic (c_r c) (c_k c) ?nw (?nh * ?nw)) (List.product [0..<?nh] [0..<?nw]))))"
    and jp: "jp = concat (map snd (concat (map (subtile_logic (c_r c) (c_k c) ?nw (?nh * ?nw)) (List.product [0..<?nh] [0..<?nw]))))"
    using assms by (auto simp: structure_matmul_in_stark_def Let_def res_bind_Ok_iff TILE_D_def TILE_H_def split: if_splits)
  then show "0 < c_r c" "c_k c mod 16 = 0" "c_h c = 2 * (c_h c div 2)" "c_w c = 2 * (c_w c div 2)" by auto
  have "concat (map (subtile_logic (c_r c) (c_k c) ?nw (?nh * ?nw)) (List.product [0..<?nh] [0..<?nw]))
      = map (program_block (c_r c) (c_k c) ?nw (?nh * ?nw)) [0..<?nh * ?nw * ?K]"
  proof -
    have "map (subtile_logic (c_r c) (c_k c) ?nw (?nh * ?nw)) (List.product [0..<?nh] [0..<?nw])
      = map (\<lambda>s. map (\<lambda>t. step_logic (s div ?nw) (s mod ?nw) (c_r c) ((t + 1) * c_r c)
          (back_shift (c_r c) (c_k c) (s = ?nh * ?nw - 1) ((t + 1) * c_r c))) [0..<?K]) [0..<?nh * ?nw]"
      by (simp add: product_grid subtile_logic_def rank_steps_def comp_def div_mult_mod_eq)
    then show ?thesis by (simp only: concat_grid program_block_def [abs_def] block_ops_def)
  qed
  then show "mp = concat (map (\<lambda>b. fst (program_block (c_r c) (c_k c) ?nw (?nh * ?nw) b)) [0..<?nh * ?nw * ?K])"
    "jp = concat (map (\<lambda>b. snd (program_block (c_r c) (c_k c) ?nw (?nh * ?nw) b)) [0..<?nh * ?nw * ?K])"
    by (simp_all add: mp jp comp_def)
qed

lemma program_block_rows:
  assumes "block_ops r k S b = (ns, dst)"
  shows "fst (program_block r k nw S b) = tile_products (b div (k div r) div nw) (b div (k div r) mod nw) r ((b mod (k div r) + 1) * r)
      @ replicate (5 + ns - r div 16) matmul_default"
    and "snd (program_block r k nw S b) = replicate (r div 16 - (5 + ns)) jackpot_default @ register_ops (tid_of r ((b mod (k div r) + 1) * r)) ns dst"
  by (simp_all add: program_block_def assms step_logic_def Let_def xor_instructions_def TILE_H_def TILE_D_def)

definition block_tiles :: "(nat \<Rightarrow> nat \<Rightarrow> nat \<Rightarrow> i32) \<Rightarrow> nat \<Rightarrow> nat \<Rightarrow> nat \<Rightarrow> nat \<Rightarrow> nat \<Rightarrow> i32 list list" where
  "block_tiles g r k nw S b =
     (let i = b div (k div r) div nw; j = b div (k div r) mod nw; t = b mod (k div r)
      in map (\<lambda>l. concat (tile2 g i j (t * r + (l + 1) * 16))) [0..<r div 16]
         @ replicate (5 + fst (block_ops r k S b) - r div 16) (concat (tile2 g i j ((t + 1) * r))))"

lemma program_tiles:
  assumes r: "0 < r" "r mod 16 = 0" and dims: "holds_dims s (2 * nh) (2 * nw) len" "holds_dims z (2 * nh) (2 * nw) len" "k div r * r \<le> len"
    and n: "n \<le> nh * nw * (k div r)"
  shows "\<exists>st. goes (cumsum_rows s z) (concat (map (\<lambda>b. fst (program_block r k nw (nh * nw) b)) [0..<n])) zero
      (concat (map (block_tiles (product s z) r k nw (nh * nw)) [0..<n])) st
    \<and> (n mod (k div r) \<noteq> 0 \<longrightarrow> st = tile2 (product s z) (n div (k div r) div nw) (n div (k div r) mod nw) (n mod (k div r) * r))"
  using n
proof (induction n)
  case 0
  show ?case using cumsum.goes_Nil by auto
next
  case (Suc n)
  let ?K = "k div r" and ?g = "product s z"
  define i where "i = n div ?K div nw"
  define j where "j = n div ?K mod nw"
  define t where "t = n mod ?K"
  from Suc obtain st where st: "goes (cumsum_rows s z) (concat (map (\<lambda>b. fst (program_block r k nw (nh * nw) b)) [0..<n])) zero
      (concat (map (block_tiles ?g r k nw (nh * nw)) [0..<n])) st" "t \<noteq> 0 \<longrightarrow> st = tile2 ?g i j (t * r)"
    by (auto simp: i_def j_def t_def)
  have n: "n < nh * nw * ?K" using Suc(2) by simp
  then have K: "0 < ?K" "0 < nw" by (auto intro: gr0I)
  have "n div ?K < nh * nw" using n by (simp add: less_mult_imp_div_less)
  then have "i < nh" by (simp add: i_def less_mult_imp_div_less)
  moreover have "j < nw" using K(2) by (simp add: j_def)
  ultimately have ij: "2 * i + 2 \<le> 2 * nh" "2 * j + 2 \<le> 2 * nw" by simp_all
  have t: "t < ?K" using K by (simp add: t_def)
  have r16: "r div 16 * 16 = r" using r(2) by auto
  have top: "t * r + r div 16 * 16 \<le> len" using mult_le_mono1 [of "t + 1" ?K r] t dims(3) by (simp add: r16)
  obtain ns dst where ops: "block_ops r k (nh * nw) n = (ns, dst)" by fastforce
  have "tile_products i j r ((t + 1) * r) = map (\<lambda>l. let pos = t * r + l * 16 in
        \<lparr>is_reset_cumsum = (pos = 0), a_dword = Some \<lparr>is_b_strip = False, strip_idx = i * TILE_H, idx_in_strip = pos\<rparr>,
         b_dword = Some \<lparr>is_b_strip = True, strip_idx = j * TILE_H, idx_in_strip = pos\<rparr>\<rparr>) [0..<r div 16]"
    by (simp add: tile_products_def TILE_D_def)
  moreover have "0 < r div 16" using r by (auto intro: gr0I)
  moreover have "t * r = 0 \<or> st = tile2 ?g i j (t * r)" using st(2) by auto
  moreover have "t * r + r div 16 * 16 = (t + 1) * r" by (simp add: r16)
  ultimately have "goes (cumsum_rows s z) (tile_products i j r ((t + 1) * r)) st
      (map (\<lambda>l. concat (tile2 ?g i j (t * r + (l + 1) * 16))) [0..<r div 16]) (tile2 ?g i j ((t + 1) * r))"
    using goes_products [OF dims(1,2) ij top] by (simp only:)
  from cumsum.goes_append [OF this goes_defaults]
  have "goes (cumsum_rows s z) (fst (program_block r k nw (nh * nw) n)) st (block_tiles ?g r k nw (nh * nw) n) (tile2 ?g i j ((t + 1) * r))"
    unfolding program_block_rows(1) [OF ops] block_tiles_def Let_def ops fst_conv by (simp only: i_def j_def t_def)
  from cumsum.goes_append [OF st(1) this] have "goes (cumsum_rows s z) (concat (map (\<lambda>b. fst (program_block r k nw (nh * nw) b)) [0..<Suc n])) zero
      (concat (map (block_tiles ?g r k nw (nh * nw)) [0..<Suc n])) (tile2 ?g i j ((t + 1) * r))"
    by simp
  moreover have "tile2 ?g i j ((t + 1) * r) = tile2 ?g (Suc n div ?K div nw) (Suc n div ?K mod nw) (Suc n mod ?K * r)" if "Suc n mod ?K \<noteq> 0"
  proof -
    have "Suc n mod ?K = t + 1" "Suc n div ?K = n div ?K" using that by (auto simp: mod_Suc div_Suc t_def split: if_splits)
    then show ?thesis by (simp add: i_def j_def)
  qed
  ultimately show ?case by blast
qed

lemma block_tiles_last:
  assumes "block_ops r k S b = (ns, dst)" "0 < r" "r mod 16 = 0"
  shows "last (block_tiles g r k nw S b) = concat (tile2 g (b div (k div r) div nw) (b div (k div r) mod nw) ((b mod (k div r) + 1) * r))"
    and "length (block_tiles g r k nw S b) = length (snd (program_block r k nw S b))"
proof -
  have r16: "r div 16 * 16 = r" "0 < r div 16" using assms(2,3) by (auto intro: gr0I)
  then obtain m where m: "r div 16 = Suc m" by (auto simp: gr0_conv_Suc)
  show "last (block_tiles g r k nw S b) = concat (tile2 g (b div (k div r) div nw) (b div (k div r) mod nw) ((b mod (k div r) + 1) * r))"
  proof (cases "5 + ns - r div 16 = 0")
    case True
    have "b mod (k div r) * r + (m + 1) * 16 = (b mod (k div r) + 1) * r" using r16 m by simp
    then show ?thesis using True by (simp add: block_tiles_def Let_def assms(1) m add.commute)
  qed (simp add: block_tiles_def Let_def assms(1))
  show "length (block_tiles g r k nw S b) = length (snd (program_block r k nw S b))"
    by (simp add: block_tiles_def Let_def program_block_rows(2) [OF assms(1)] assms(1))
qed

text \<open>The program of the products and of the register, run on two slices, ends with the jackpot of their sum.\<close>

lemma program_computes:
  assumes prog: "structure_matmul_in_stark c = Ok (mp, jp)" and r: "c_r c mod 16 = 0" and ne: "0 < c_h c" "0 < c_w c"
    and dims: "holds_dims s (c_h c) (c_w c) len" "holds_dims z (c_h c) (c_w c) len" "c_k c div c_r c * c_r c \<le> len"
  shows "\<exists>tiles regs. cumsum_rows s z (mp @ replicate pad matmul_default) zero = Ok tiles
    \<and> fill_cumsum_buffer_xor_jackpot tiles (jp @ replicate pad jackpot_default) = Ok regs
    \<and> length mp = length jp \<and> length regs = length jp + pad
    \<and> (\<forall>i < length regs. length jp \<le> i + 1 \<longrightarrow> snd (regs ! i) = jackpot_of (product s z) (c_h c) (c_w c) (c_r c) (c_k c))"
proof -
  let ?r = "c_r c" and ?k = "c_k c" and ?g = "product s z"
  define nh where "nh = c_h c div 2"
  define nw where "nw = c_w c div 2"
  define K where "K = ?k div ?r"
  define M where "M = nh * nw * K"
  note pb = program_blocks [OF prog, folded nh_def nw_def K_def M_def]
  define J where "J = (\<lambda>b. snd (program_block ?r ?k nw (nh * nw) b))"
  define T where "T = block_tiles ?g ?r ?k nw (nh * nw)"
  define cells where "cells = (\<lambda>b. concat (tile2 ?g (b div K div nw) (b div K mod nw) ((b mod K + 1) * ?r)))"
  define ns where "ns = (\<lambda>b. fst (block_ops ?r ?k (nh * nw) b))"
  define dst where "dst = (\<lambda>b. snd (block_ops ?r ?k (nh * nw) b))"
  have ops: "block_ops ?r ?k (nh * nw) b = (ns b, dst b)" for b by (simp add: ns_def dst_def)
  have pos: "0 < nh" "0 < nw" using ne pb(3,4) by (auto intro: gr0I)
  obtain st where "goes (cumsum_rows s z) mp zero (concat (map T [0..<M])) st"
    using program_tiles [OF pb(1) r, of s nh nw len z ?k M zero] dims pb(3-5) by (auto simp: T_def M_def K_def)
  from cumsum.goes_append [OF this goes_defaults [of s z pad]]
  have tiles: "cumsum_rows s z (mp @ replicate pad matmul_default) zero = Ok (concat (map T [0..<M]) @ replicate pad (concat st))"
    by (rule cumsum.goes_all)
  have tid: "tid_of ?r ((b mod K + 1) * ?r) = b mod K mod ZK_JACKPOT_SIZE" for b
    using pb(1) by (simp add: tid_of_def)
  have jp: "jp = concat (map J [0..<M])" using pb(6) by (simp only: J_def M_def)
  have len: "length (fst (program_block ?r ?k nw (nh * nw) b)) = length (J b)" for b
    unfolding J_def program_block_rows [OF ops] by (simp add: tile_products_def TILE_D_def)
  have "length mp = length jp"
    unfolding jp pb(5) M_def by (simp add: length_concat comp_def len)
  moreover have "\<exists>regs. fill_cumsum_buffer_xor_jackpot (concat (map T [0..<M]) @ replicate pad (concat st)) (jp @ replicate pad jackpot_default) = Ok regs
     \<and> length regs = length (jp @ replicate pad jackpot_default) \<and> (\<forall>i < length (jp @ replicate pad jackpot_default). length (concat (map J [0..<M])) \<le> i + 1 \<longrightarrow>
         snd (regs ! i) = fold (\<lambda>b msg. msg[b mod K mod ZK_JACKPOT_SIZE := final_word (ns b, dst b)
            (word_rotl LROT_PER_TILE (msg ! (b mod K mod ZK_JACKPOT_SIZE)) XOR (cells b ! 0 XOR cells b ! 1 XOR cells b ! 2 XOR cells b ! 3))]) [0..<M] (replicate ZK_JACKPOT_SIZE 0))"
  proof (rule blocks_register)
    show "J b = replicate (?r div 16 - (5 + ns b)) jackpot_default @ register_ops (b mod K mod ZK_JACKPOT_SIZE) (ns b) (dst b)" for b
      unfolding J_def program_block_rows [OF ops] K_def [symmetric] tid ..
    show "length (T b) = length (J b) \<and> last (T b) = cells b \<and> length (cells b) = 4" for b
      using block_tiles_last [OF ops pb(1) r, of ?g nw b] by (simp add: T_def J_def cells_def K_def tile2_def upt_rec)
  qed (simp_all add: jp ZK_JACKPOT_SIZE_def)
  moreover have "fold (\<lambda>b msg. msg[b mod K mod ZK_JACKPOT_SIZE := final_word (ns b, dst b)
            (word_rotl LROT_PER_TILE (msg ! (b mod K mod ZK_JACKPOT_SIZE)) XOR (cells b ! 0 XOR cells b ! 1 XOR cells b ! 2 XOR cells b ! 3))]) [0..<M] (replicate ZK_JACKPOT_SIZE 0)
      = jackpot_of ?g (c_h c) (c_w c) ?r ?k"
  proof -
    have "cells b ! 0 XOR cells b ! 1 XOR cells b ! 2 XOR cells b ! 3 = cell_xor ?g (b div K div nw) (b div K mod nw) ((b mod K + 1) * ?r)" for b
      by (simp add: cells_def tile2_def cell_xor_def upt_rec xor.assoc)
    moreover have "(ns b, dst b) = back_shift ?r ?k (b div K = nh * nw - 1) ((b mod K + 1) * ?r)" for b
      using ops [of b] by (simp add: block_ops_def K_def)
    ultimately show ?thesis
      using subtiles_jackpot [OF pb(1) pos, of ?k ?g] pb(3,4)
      by (simp add: run_subtiles_def step_msg_def [abs_def] Let_def fold_grid K_def [symmetric] M_def)
  qed
  ultimately show ?thesis using tiles by (auto simp: jp)
qed

end
