(* ===== verification/Stark_Run.thy ===== *)
theory Stark_Run imports Jackpot_Program begin

text \<open>
  The program of the STARK as a whole: the hash program it lays out is well formed, its length is the announced one
  whenever the register's shifts fit, and its trace ends with the verifier's jackpot.
\<close>

section \<open>The hash program is well formed\<close>

definition cv_before :: "cv_type \<Rightarrow> nat \<Rightarrow> bool" where
  "cv_before cv n = (case cv of CvInstruction i \<Rightarrow> i < n | CvAuxiliary i \<Rightarrow> True)"

definition instruction_ok :: "nat \<Rightarrow> blake_instruction \<Rightarrow> bool" where
  "instruction_ok i ins \<longleftrightarrow> (i = 0 \<longrightarrow> is_cv_key ins) \<and>
     (case b_msg ins of
        MatrixLeaf dwords \<Rightarrow> length dwords = 8
      | AuxiliaryLeaf _ \<Rightarrow> True
      | ParentMsg l r \<Rightarrow> is_cv_key ins \<and> cv_before l i \<and> cv_before r i)"

definition program_ok :: "blake_instruction list \<Rightarrow> bool" where
  "program_ok inss \<longleftrightarrow> (\<forall>i < length inss. instruction_ok i (inss ! i))"

lemma program_ok_snoc: "program_ok (inss @ [ins]) \<longleftrightarrow> program_ok inss \<and> instruction_ok (length inss) ins"
  by (auto simp: program_ok_def nth_append less_Suc_eq)

lemma program_ok_push:
  "program_ok (out_instructions out) \<Longrightarrow> instruction_ok (length (out_instructions out)) \<lparr>is_cv_key = k, tweak = tw, b_msg = m, is_hash_a = False, is_hash_b = False\<rparr>
   \<Longrightarrow> program_ok (out_instructions (push_instruction k tw m out))"
  by (simp add: push_instruction_def program_ok_snoc)

lemma program_ok_mark:
  assumes "program_ok inss" "b_msg (f (inss ! i)) = b_msg (inss ! i)" "is_cv_key (f (inss ! i)) = is_cv_key (inss ! i)"
  shows "program_ok (inss[i := f (inss ! i)])"
proof -
  have "instruction_ok j (f (inss ! i)) = instruction_ok j (inss ! i)" for j using assms(2,3) by (simp add: instruction_ok_def split: message_type.split)
  note same = this
  have "instruction_ok j (inss[i := f (inss ! i)] ! j)" if "j < length inss" for j
    using assms(1) that same [of j] by (cases "i = j") (simp_all add: program_ok_def)
  then show ?thesis by (simp add: program_ok_def)
qed

lemma compile_chunk_ok:
  assumes "program_ok (out_instructions out)" "out_instructions out = [] \<longrightarrow> is_first"
  shows "program_ok (out_instructions (compile_chunk c idx msg_start stop rf is_first out))"
  using assms
proof (induction c idx msg_start stop rf is_first out rule: compile_chunk.induct)
  case (1 c idx msg_start stop rf is_first out)
  show ?case
  proof (cases "msg_start < stop")
    case True
    show ?thesis
      using 1(1) [OF True refl refl refl refl refl] True 1(2,3)
      by (subst compile_chunk.simps, cases "find_hotspot c msg_start 0 (hotspot_strips c)")
         (auto simp: Let_def push_instruction_def program_ok_snoc instruction_ok_def contiguous_def split: if_splits)
  next
    case False
    then show ?thesis using 1(2) by (subst compile_chunk.simps) simp
  qed
qed

lemma compile_chunk_extends:
  "\<exists>is. out_instructions (compile_chunk c idx msg_start stop rf is_first out) = out_instructions out @ is"
proof (induction c idx msg_start stop rf is_first out rule: compile_chunk.induct)
  case (1 c idx msg_start stop rf is_first out)
  show ?case
  proof (cases "msg_start < stop")
    case True
    show ?thesis
      using 1 [OF True refl refl refl refl refl] True
      by (subst compile_chunk.simps, cases "find_hotspot c msg_start 0 (hotspot_strips c)")
         (auto simp: Let_def push_instruction_def split: if_splits)
  next
    case False
    then show ?thesis by (subst compile_chunk.simps) simp
  qed
qed

lemma recursive_compilation_ok:
  assumes "program_ok (out_instructions out)" "recursive_compilation c start stop out = (cv, out')" "start < stop"
  shows "program_ok (out_instructions out') \<and> cv_before cv (length (out_instructions out')) \<and> (\<exists>is. out_instructions out' = out_instructions out @ is)"
  using assms
proof (induction c start stop out arbitrary: cv out' rule: recursive_compilation.induct)
  case (1 c start stop out)
  show ?case
  proof (cases "\<not> intersects_strips c start stop \<and> CHUNK_LEN \<le> stop - start")
    case True
    then show ?thesis using 1(3,4) unfolding recursive_compilation.simps [of c start stop out] by (auto simp: Let_def cv_before_def)
  next
    case False
    define rf where "rf = (if start = 0 \<and> stop = padded_chunk_len (num_rows c * row_len c) then B3F_ROOT else 0)"
    show ?thesis
    proof (cases "stop - start \<le> CHUNK_LEN")
      case True
      define out1 where "out1 = compile_chunk c (start div CHUNK_LEN) start stop rf True out"
      have "cv = last_instruction out1" "out' = out1"
        using 1(4) False True unfolding recursive_compilation.simps [of c start stop out] by (auto simp: Let_def out1_def rf_def)
      moreover have "program_ok (out_instructions out1)" using 1(3) by (simp add: out1_def compile_chunk_ok)
      moreover have "length (out_instructions out) + 1 \<le> length (out_instructions out1)"
        using compile_chunk_length [of out start stop c "start div CHUNK_LEN" rf True] 1(5) by (simp add: out1_def)
      moreover have "\<exists>is. out_instructions out1 = out_instructions out @ is"
        unfolding out1_def by (rule compile_chunk_extends)
      ultimately show ?thesis by (auto simp: last_instruction_def cv_before_def)
    next
      case large: False
      define mid where "mid = start + next_power_of_two (stop - start) div 2"
      obtain left_cv out1 where l: "recursive_compilation c start mid out = (left_cv, out1)" by fastforce
      obtain right_cv out2 where r: "recursive_compilation c mid stop out1 = (right_cv, out2)" by fastforce
      have mid: "start < mid" "mid < stop" using half_bounds [of "stop - start"] large by (auto simp: mid_def CHUNK_LEN_def)
      have out': "cv = last_instruction out'" "out' = push_instruction True \<lparr>counter_low = 0, counter_high = 0, block_len = of_nat BLAKE3_MSG_LEN,
                        tweak_flags = ucast (B3F_PARENT OR B3F_KEYED_HASH OR rf)\<rparr> (ParentMsg left_cv right_cv) out2"
        using 1(4) False large l r unfolding recursive_compilation.simps [of c start stop out] by (auto simp: Let_def mid_def rf_def)
      have L: "program_ok (out_instructions out1)" "cv_before left_cv (length (out_instructions out1))" "\<exists>is. out_instructions out1 = out_instructions out @ is"
        using 1(1) [OF refl refl refl False large mid_def 1(3) l mid(1)] by simp_all
      have R: "program_ok (out_instructions out2)" "cv_before right_cv (length (out_instructions out2))" "\<exists>is. out_instructions out2 = out_instructions out1 @ is"
        using 1(2) [OF refl refl refl False large mid_def l [symmetric] refl L(1) r mid(2)] by simp_all
      have "instruction_ok (length (out_instructions out2)) \<lparr>is_cv_key = True, tweak = tw, b_msg = ParentMsg left_cv right_cv, is_hash_a = False, is_hash_b = False\<rparr>" for tw
        using L(2) R(2,3) by (auto simp: instruction_ok_def cv_before_def split: cv_type.splits)
      then have "program_ok (out_instructions out')" using R(1) unfolding out'(2) by (intro program_ok_push)
      then show ?thesis using out' L(3) R(3) by (auto simp: last_instruction_def cv_before_def push_instruction_def)
    qed
  qed
qed

lemma compile_matrix_program_ok:
  assumes "program_ok (out_instructions out)" "compile_matrix c out = (cv, out')"
  shows "program_ok (out_instructions out') \<and> (\<exists>is. out_instructions out' = out_instructions out @ is)"
proof (cases "padded_chunk_len (num_rows c * row_len c) = 0")
  case True
  have "compile_chunk c 0 0 0 rf True out = out" for rf by (subst compile_chunk.simps) simp
  then have "recursive_compilation c 0 0 out = (last_instruction out, out)"
    by (subst recursive_compilation.simps) (simp add: Let_def CHUNK_LEN_def)
  then show ?thesis using assms True by (simp add: compile_matrix_def)
next
  case False
  then show ?thesis using recursive_compilation_ok [OF assms(1), of c 0] assms(2) by (simp add: compile_matrix_def)
qed

definition marks_hashes :: "blake_instruction list \<Rightarrow> bool" where
  "marks_hashes inss \<longleftrightarrow> list_ex is_hash_a inss \<and> list_ex is_hash_b inss"

lemma mark_hash_Ok:
  assumes "mark_hash f cv out = Ok out'"
  obtains i where "i < length (out_instructions out)" "out_instructions out' = (out_instructions out)[i := f (out_instructions out ! i)]"
  using assms by (auto simp: mark_hash_def res_bind_Ok_iff nth_res_def split: cv_type.splits if_splits)

lemma blake_program_parts:
  assumes "blake_program_new p = Ok (prog, ms, cs)"
  obtains len a_cv out1 out2 b_cv out3 out4 where
    "compile_matrix (compile_a p len) \<lparr>out_instructions = [], out_msgs = [], out_cvs = []\<rparr> = (a_cv, out1)"
    "mark_hash (\<lambda>i. i\<lparr>is_hash_a := True\<rparr>) a_cv out1 = Ok out2" "compile_matrix (compile_b p len) out2 = (b_cv, out3)"
    "mark_hash (\<lambda>i. i\<lparr>is_hash_b := True\<rparr>) b_cv out3 = Ok out4" "instructions prog = out_instructions out4"
proof -
  obtain len where len: "dot_product_length (p_config p) = Ok len" using assms by (auto simp: blake_program_new_def res_bind_Ok_iff)
  obtain a_cv out1 where a: "compile_matrix (compile_a p len) \<lparr>out_instructions = [], out_msgs = [], out_cvs = []\<rparr> = (a_cv, out1)" by fastforce
  obtain out2 where a2: "mark_hash (\<lambda>i. i\<lparr>is_hash_a := True\<rparr>) a_cv out1 = Ok out2"
    using assms by (auto simp: blake_program_new_def res_bind_Ok_iff len a)
  obtain b_cv out3 where b: "compile_matrix (compile_b p len) out2 = (b_cv, out3)" by fastforce
  obtain out4 where b2: "mark_hash (\<lambda>i. i\<lparr>is_hash_b := True\<rparr>) b_cv out3 = Ok out4" and prog: "instructions prog = out_instructions out4"
    using assms by (auto simp: blake_program_new_def res_bind_Ok_iff len a a2 b)
  show thesis by (rule that [OF a a2 b b2 prog])
qed

lemma blake_program_ok:
  assumes "blake_program_new p = Ok (prog, ms, cs)"
  shows "program_ok (instructions prog) \<and> marks_hashes (instructions prog)"
proof -
  obtain len a_cv out1 out2 b_cv out3 out4 where
    a: "compile_matrix (compile_a p len) \<lparr>out_instructions = [], out_msgs = [], out_cvs = []\<rparr> = (a_cv, out1)"
    and a2: "mark_hash (\<lambda>i. i\<lparr>is_hash_a := True\<rparr>) a_cv out1 = Ok out2" and b: "compile_matrix (compile_b p len) out2 = (b_cv, out3)"
    and b2: "mark_hash (\<lambda>i. i\<lparr>is_hash_b := True\<rparr>) b_cv out3 = Ok out4" and prog: "instructions prog = out_instructions out4"
    by (rule blake_program_parts [OF assms])
  obtain i where i: "i < length (out_instructions out1)"
    "out_instructions out2 = (out_instructions out1)[i := (out_instructions out1 ! i)\<lparr>is_hash_a := True\<rparr>]" by (rule mark_hash_Ok [OF a2])
  obtain j where j: "j < length (out_instructions out3)"
    "out_instructions out4 = (out_instructions out3)[j := (out_instructions out3 ! j)\<lparr>is_hash_b := True\<rparr>]" by (rule mark_hash_Ok [OF b2])
  have "program_ok (out_instructions out1)" using compile_matrix_program_ok [OF _ a] by (simp add: program_ok_def)
  then have ok2: "program_ok (out_instructions out2)" unfolding i(2) by (intro program_ok_mark) simp_all
  note m = compile_matrix_program_ok [OF ok2 b]
  then obtain more_is where ext: "out_instructions out3 = out_instructions out2 @ more_is" by blast
  have "program_ok (instructions prog)" using m unfolding prog j(2) by (intro program_ok_mark) simp_all
  moreover have "is_hash_a (instructions prog ! i)" "i < length (instructions prog)"
    using i j(1) by (auto simp: prog j(2) ext nth_list_update nth_append)
  moreover have "is_hash_b (instructions prog ! j)" "j < length (instructions prog)"
    using j by (auto simp: prog)
  ultimately show ?thesis by (auto simp: marks_hashes_def list_ex_length)
qed

section \<open>The rounds of a well-formed program\<close>

lemma emit_round_Ok:
  assumes "instruction_ok idx ins" "idx \<le> length inst_to_row" "i < 8"
  shows "\<exists>r. emit_round ins inst_to_row rcv i = Ok r"
proof (cases "b_msg ins")
  case (MatrixLeaf dwords)
  then show ?thesis using assms by (auto simp: emit_round_def instruction_ok_def nth_res_def)
next
  case (AuxiliaryLeaf x)
  then show ?thesis by (simp add: emit_round_def)
next
  case (ParentMsg l r)
  then show ?thesis using assms by (auto simp: emit_round_def instruction_ok_def cv_before_def nth_res_def Let_def split: cv_type.splits)
qed

lemma instruction_rounds_Ok:
  assumes "instruction_ok i ins" "i < length inst_to_row"
  shows "\<exists>rs. instruction_rounds inst_to_row (i, ins) = Ok rs \<and> length rs = 8"
proof -
  obtain rcv where rcv: "(if is_cv_key ins then Ok None
      else if i = 0 then Panic else res_bind (nth_res inst_to_row (i - 1)) (\<lambda>r. Ok (Some r))) = (Ok rcv :: (anyhow, nat option) res)"
  proof (cases "is_cv_key ins")
    case False
    then have "i \<noteq> 0" using assms(1) by (auto simp: instruction_ok_def)
    then show ?thesis using that [of "Some (inst_to_row ! (i - 1))"] False assms(2) by (simp add: nth_res_def)
  qed (use that in simp)
  have "\<forall>j \<in> set [0..<8]. \<exists>r. emit_round ins inst_to_row rcv j = Ok r" using emit_round_Ok [OF assms(1)] assms(2) by auto
  then obtain g where "\<forall>j \<in> set [0..<8]. emit_round ins inst_to_row rcv j = Ok (g j)" by metis
  then have "res_map (emit_round ins inst_to_row rcv) [0..<8] = Ok (map g [0..<8])" by (intro res_map_all_Ok) blast
  then show ?thesis by (simp add: instruction_rounds_def rcv emit_instruction_rounds_def ROUNDS_PER_BLAKE_INSTRUCTION_def)
qed

lemma structure_commitment_hash_Ok:
  assumes "program_ok inss" "marks_hashes inss"
  shows "\<exists>rs. structure_commitment_hash_in_stark inss = Ok rs \<and> length rs = 8 * length inss"
proof -
  let ?rows = "map (\<lambda>i. i * ROUNDS_PER_BLAKE_INSTRUCTION + (ROUNDS_PER_BLAKE_INSTRUCTION - 1)) [0..<length inss]"
  have "list_all (\<lambda>ins. case b_msg ins of ParentMsg _ _ \<Rightarrow> is_cv_key ins | _ \<Rightarrow> True) inss"
    using assms(1) by (auto simp: program_ok_def instruction_ok_def list_all_length split: message_type.split)
  moreover have "\<forall>x \<in> set (enumerate 0 inss). \<exists>rs. instruction_rounds ?rows x = Ok rs \<and> length rs = 8"
    using assms(1) instruction_rounds_Ok by (auto simp: program_ok_def in_set_enumerate_eq)
  then obtain g where g: "\<forall>x \<in> set (enumerate 0 inss). instruction_rounds ?rows x = Ok (g x) \<and> length (g x) = 8" by metis
  then have "res_map (instruction_rounds ?rows) (enumerate 0 inss) = Ok (map g (enumerate 0 inss))" by (intro res_map_all_Ok) blast
  moreover have "sum_list (map (\<lambda>x. length (g x)) (enumerate 0 inss)) = 8 * length inss"
  proof -
    have "map (\<lambda>x. length (g x)) (enumerate 0 inss) = map (\<lambda>x. 8) (enumerate 0 inss)" using g by (intro map_cong) auto
    then show ?thesis by (simp only: sum_list_triv length_enumerate) simp
  qed
  ultimately show ?thesis
    using assms(2) by (simp add: structure_commitment_hash_in_stark_def marks_hashes_def ensure_def Let_def length_concat comp_def)
qed

section \<open>Its length\<close>

definition shifts_fit :: "nat \<Rightarrow> nat \<Rightarrow> bool" where
  "shifts_fit r k \<longleftrightarrow> list_all (\<lambda>num. 5 + fst (compute_back_shift_ops num) \<le> max (r div 16) 5) (snd (occurrences r k))"

lemma shifts_fit_large: "256 \<le> r \<Longrightarrow> shifts_fit r k"
proof -
  assume "256 \<le> r"
  then have r: "16 \<le> r div 16" using div_le_mono [of 256 r 16] by simp
  have "fst (compute_back_shift_ops n) \<le> 10" for n
  proof -
    have "n mod 32 div 3 \<le> 31 div 3" by (rule div_le_mono) simp
    then show ?thesis by (simp add: compute_back_shift_ops_def Let_def)
  qed
  then have "5 + fst (compute_back_shift_ops n) \<le> max (r div 16) 5" for n
  proof -
    have "fst (compute_back_shift_ops n) \<le> 10" by fact
    then show ?thesis using r by linarith
  qed
  then show ?thesis by (simp add: shifts_fit_def list_all_iff)
qed

lemma occurrences_length: "length (snd (occurrences r k)) = ZK_JACKPOT_SIZE"
proof -
  have "length (snd (fold (\<lambda>ll (last_ll, num :: nat list). let tid = tid_of r ll in (last_ll[tid := ll], num[tid := num ! tid + 1])) xs z)) = length (snd z)" for xs z
    by (induction xs arbitrary: z) (simp_all add: Let_def split_beta)
  then show ?thesis by (simp add: occurrences_def)
qed

lemma shifts_fit_steps:
  assumes "0 < r"
  shows "shifts_fit r k \<longleftrightarrow> list_all (\<lambda>tid. 5 + fst (compute_back_shift_ops (length (steps_of (k div r) tid))) \<le> max (r div 16) 5) [0..<ZK_JACKPOT_SIZE]"
  using occurrences_steps(1) [OF assms] by (simp add: shifts_fit_def list_all_length occurrences_length)

lemma block_length:
  assumes "0 < r" "shifts_fit r k"
  shows "length (fst (program_block r k nw S b)) = max (r div 16) 5"
proof -
  obtain ns dst where ops: "block_ops r k S b = (ns, dst)" by fastforce
  note occurrences_length [of r k]
  then have fit: "5 + fst (compute_back_shift_ops (snd (occurrences r k) ! tid)) \<le> max (r div 16) 5" if "tid < ZK_JACKPOT_SIZE" for tid
    using assms(2) that by (simp add: shifts_fit_def list_all_length)
  have "tid_of r ll < ZK_JACKPOT_SIZE" for ll by (simp add: tid_of_def ZK_JACKPOT_SIZE_def)
  note fit' = fit [OF this]
  have "5 + fst (back_shift r k is_last ll) \<le> max (r div 16) 5" for is_last ll
    using fit' [of ll] by (simp add: back_shift_def)
  then have "5 + ns \<le> max (r div 16) 5" using ops unfolding block_ops_def by (metis fst_conv)
  then show ?thesis unfolding program_block_rows(1) [OF ops] by (simp add: tile_products_def TILE_D_def)
qed

lemma structure_proof_exists:
  assumes "program_ok (instructions (blake_proof c))" "marks_hashes (instructions (blake_proof c))"
    and r: "0 < c_r c" and dims: "c_k c mod 16 = 0" "c_h c mod 2 = 0" "c_w c mod 2 = 0" "c_h c * c_w c \<le> 256"
    and fit: "shifts_fit (c_r c) (c_k c)"
  shows "\<exists>rows. structure_proof c = Ok rows"
proof -
  obtain rs where rs: "structure_commitment_hash_in_stark (instructions (blake_proof c)) = Ok rs" "length rs = 8 * length (instructions (blake_proof c))"
    using structure_commitment_hash_Ok [OF assms(1,2)] by blast
  obtain mp jp where mp: "structure_matmul_in_stark c = Ok (mp, jp)"
    using r dims by (simp add: structure_matmul_in_stark_def ensure_def Let_def TILE_D_def TILE_H_def)
  have "length mp = c_h c div 2 * (c_w c div 2) * (c_k c div c_r c) * max (c_r c div 16) 5"
    unfolding program_blocks(5) [OF mp] by (simp add: length_concat comp_def block_length [OF r fit] sum_list_triv)
  then have "expected_num_rows c = Ok (max (length rs + ROUNDS_PER_BLAKE_INSTRUCTION) (length mp))"
    using r rs(2) by (simp add: expected_num_rows_def Let_def ROUNDS_PER_BLAKE_INSTRUCTION_def TILE_D_def TILE_H_def mult.commute [of _ 8])
  then show ?thesis by (simp add: structure_proof_def rs(1) mp Let_def ensure_def)
qed

lemma next_power_of_two_ge: "n \<le> next_power_of_two n"
proof (cases "1 < n")
  case True
  then obtain k where "2 ^ k < n" "n \<le> 2 ^ (k + 1)" using ex_power_ivl2 [of 2 n] by auto
  then show ?thesis using next_power_of_two_eq [of k n] by simp
next
  case False
  then show ?thesis by (subst next_power_of_two.simps) simp
qed

lemma structure_proof_rows:
  assumes "structure_proof c = Ok rows"
  obtains mp jp n where "structure_matmul_in_stark c = Ok (mp, jp)" "expected_num_rows c = Ok n" "0 < n" "length mp \<le> n" "n \<le> length rows"
    and "length mp = length jp \<longrightarrow> map rl_matmul rows = mp @ replicate (length rows - length mp) matmul_default
      \<and> map rl_jackpot rows = jp @ replicate (length rows - length jp) jackpot_default"
proof -
  obtain rs where rs: "structure_commitment_hash_in_stark (instructions (blake_proof c)) = Ok rs"
    using assms by (auto simp: structure_proof_def res_bind_Ok_iff)
  obtain mp jp where mp: "structure_matmul_in_stark c = Ok (mp, jp)"
    using assms by (auto simp: structure_proof_def res_bind_Ok_iff rs)
  define n where "n = max (length rs + ROUNDS_PER_BLAKE_INSTRUCTION) (length mp)"
  define padded_n where "padded_n = max (next_power_of_two n) MIN_STARK_LEN"
  have e: "expected_num_rows c = Ok n"
    using assms by (auto simp: structure_proof_def res_bind_Ok_iff rs mp Let_def n_def)
  have rows: "rows = map (\<lambda>i. if n \<le> i then row_default
          else \<lparr>rl_blake = (if i < length rs then rs ! i
                            else if n - ROUNDS_PER_BLAKE_INSTRUCTION \<le> i then structure_jackpot_blake ! (i - (n - ROUNDS_PER_BLAKE_INSTRUCTION))
                            else round_default),
                rl_matmul = get_or matmul_default mp i,
                rl_jackpot = get_or jackpot_default jp i\<rparr>) [0..<padded_n]"
    using assms unfolding structure_proof_def rs mp res_bind.simps prod.case Let_def n_def [symmetric] padded_n_def [symmetric] e
    by (simp add: ensure_def)
  have n: "0 < n" "length mp \<le> n" "n \<le> padded_n" using next_power_of_two_ge [of n]
    by (auto simp: n_def padded_n_def ROUNDS_PER_BLAKE_INSTRUCTION_def)
  have "map rl_matmul rows = mp @ replicate (length rows - length mp) matmul_default
      \<and> map rl_jackpot rows = jp @ replicate (length rows - length jp) jackpot_default" if "length mp = length jp"
    using n that by (intro conjI nth_equalityI) (auto simp: rows get_or_def nth_append row_default_def)
  then show thesis using that [OF mp e n(1,2)] n(3) by (auto simp: rows)
qed

lemma compiled_fields:
  assumes "compile_params B p = Ok (c, ms, cs)"
  shows "c_k c = pub_common_dim p" "c_h c = pub_h p" "c_w c = pub_w p" "c_r c = pub_rank p"
    "c_a_rows c = map unat (a_rows_indices p)" "c_b_cols c = map unat (b_cols_indices p)"
    "program_ok (instructions (blake_proof c))" "marks_hashes (instructions (blake_proof c))"
  using assms blake_program_ok [of p] by (auto simp: compile_params_def res_bind_Ok_iff split: prod.splits)

lemma sane_dims:
  assumes "public_params_sanity_check p = Ok ()"
  shows "pub_common_dim p mod 16 = 0" "pub_rank p mod 16 = 0" "pub_h p mod 2 = 0" "pub_w p mod 2 = 0" "0 < pub_h p" "0 < pub_w p"
proof -
  have k: "pub_common_dim p mod 64 = 0" "pub_rank p mod 16 = 0" "pub_h p mod 2 = 0" "pub_w p mod 2 = 0" "32 \<le> pub_h p * pub_w p"
    using assms by (auto simp: public_params_sanity_check_def Let_def res_bind_Ok_iff TILE_D_def TILE_H_def)
  then show "pub_rank p mod 16 = 0" "pub_h p mod 2 = 0" "pub_w p mod 2 = 0" by simp_all
  have "64 dvd pub_common_dim p" using k(1) by (simp add: mod_eq_0_iff_dvd)
  then have "16 dvd pub_common_dim p" by (rule dvd_trans [rotated]) simp
  then show "pub_common_dim p mod 16 = 0" by (simp add: mod_eq_0_iff_dvd)
  show "0 < pub_h p" "0 < pub_w p" using k(5) by (auto intro: gr0I)
qed

text \<open>C17: For checked parameters with a tile of at most 256 cells, the program of the STARK is laid out without an error
  or a panic for every rank from 256 on, and for a smaller rank whenever the final shifts of the jackpot's words fit into
  the time of a step; the check on its own length then holds.\<close>

theorem structure_proof_total:
  assumes "public_params_sanity_check p = Ok ()" "compile_params B p = Ok (c, ms, cs)" "pub_h p * pub_w p \<le> 256"
    and "256 \<le> pub_rank p \<or> shifts_fit (pub_rank p) (pub_common_dim p)"
  shows "\<exists>rows. structure_proof c = Ok rows"
proof (rule structure_proof_exists)
  note f = compiled_fields [OF assms(2)]
  show "program_ok (instructions (blake_proof c))" "marks_hashes (instructions (blake_proof c))" by (rule f)+
  obtain e where "pub_rank p = 2 ^ e" by (rule sane_rank [OF assms(1)])
  then show "0 < c_r c" by (simp add: f)
  show "c_k c mod 16 = 0" "c_h c mod 2 = 0" "c_w c mod 2 = 0" "c_h c * c_w c \<le> 256"
    using sane_dims [OF assms(1)] assms(3) by (simp_all add: f)
  show "shifts_fit (c_r c) (c_k c)" using assms(4) shifts_fit_large by (auto simp: f)
qed

lemma sample_compiled: "\<exists>c ms cs. compile_params spec_blake3 sample_params = Ok (c, ms, cs)"
proof -
  obtain key where key: "job_key (blake3_digest spec_blake3) sample_params = Ok key" using sample_job_key by blast
  obtain len where len: "dot_product_length (p_config sample_params) = Ok len"
    using sample_params_sane by (auto simp: public_params_sanity_check_def Let_def res_bind_Ok_iff)
  obtain prog ms cs where "blake_program_new sample_params = Ok (prog, ms, cs)"
    using program_new [OF sample_params_sane sample_canonical(2) len] by (elim exE conjE) blast
  then show ?thesis by (simp add: compile_params_def key)
qed

lemma sample_shape: "pub_h sample_params * pub_w sample_params \<le> 256" "shifts_fit (pub_rank sample_params) (pub_common_dim sample_params)"
proof -
  have "unat (pp_size (rows_pattern sample_config)) = 2" "unat (pp_size (cols_pattern sample_config)) = 32"
    by (simp_all add: sample_config_def pp_size_def)
  then show "pub_h sample_params * pub_w sample_params \<le> 256" by (simp add: pub_h_def pub_w_def sample_params_def)
  have "list_all (\<lambda>tid. length (steps_of 32 tid) = 2) [0..<ZK_JACKPOT_SIZE]" by code_simp
  then have "shifts_fit 128 4096"
    unfolding shifts_fit_steps [of 128, simplified] by (auto simp: list_all_iff compute_back_shift_ops_def Let_def)
  then show "shifts_fit (pub_rank sample_params) (pub_common_dim sample_params)"
    by (simp add: sample_params_def sample_config_def pub_rank_def pub_common_dim_def)
qed

lemma structure_proof_total_witness:
  "\<exists>c ms cs rows. compile_params spec_blake3 sample_params = Ok (c, ms, cs) \<and> structure_proof c = Ok rows"
  using sample_compiled structure_proof_total [OF sample_params_sane _ sample_shape(1) disjI2 [OF sample_shape(2)]] by blast

section \<open>The jackpot of the trace\<close>

text \<open>The strips as \<open>generate_trace\<close> asserts them, with the entries the verifier admits.\<close>

definition strips_fit :: "public_params \<Rightarrow> private_params \<Rightarrow> bool" where
  "strips_fit p priv \<longleftrightarrow> length (s_a priv) = pub_h p \<and> length (s_b priv) = pub_w p
     \<and> list_all (\<lambda>strip. Ok (length strip) = dot_product_length (p_config p)) (s_a priv @ s_b priv)
     \<and> list_all (list_all in_signal_range) (s_a priv @ s_b priv)"

lemma signed_sum:
  assumes "in_signal_range a" "- 63 \<le> sint b \<and> sint b \<le> 63"
  shows "scast (a + b) = (scast a + scast b :: i32)"
proof -
  have "sint (a + b) = sint a + sint b" using assms by (intro sint_plus_small) (auto simp: in_signal_range_def)
  then show ?thesis by (simp only: scast_eq of_int_add)
qed

definition zero_tile :: "i32 list list" where
  "zero_tile = replicate TILE_H (replicate TILE_H 0)"

text \<open>C6: The trace computes the verifier's jackpot.  For checked parameters, strips of the admitted shape and range and the
  noise of the commitment, the rows of the program accumulate the products in CUMSUM_TILE, buffer them backwards from the
  dump rows and drive the jackpot register without a panic, and the words JACKPOT_MSG of the last row before the padding,
  which the jackpot hash reads, are the ones \<open>compute_jackpot\<close> returns.\<close>

theorem jackpot_machine:
  assumes D: "digest32 (blake3_digest B)" and sane: "public_params_sanity_check p = Ok ()" and inside: "rows_inside p"
    and c: "compile_params B p = Ok (c, ms, cs)" and strips: "strips_fit p priv" and rows: "structure_proof c = Ok rows"
  shows "\<exists>noise tiles regs n. compute_noise (blake3_digest B) c = Ok noise \<and> expected_num_rows c = Ok n
    \<and> cumsum_rows \<lparr>mm_a = s_a priv, mm_b = s_b priv\<rparr> noise (map rl_matmul rows) zero_tile = Ok tiles
    \<and> fill_cumsum_buffer_xor_jackpot tiles (map rl_jackpot rows) = Ok regs
    \<and> 0 < n \<and> n \<le> length regs \<and> compute_jackpot c (s_a priv) (s_b priv) noise = Ok (snd (regs ! (n - 1)))"
proof -
  let ?D = "blake3_digest B" and ?s = "\<lparr>mm_a = s_a priv, mm_b = s_b priv\<rparr>" and ?r = "c_r c" and ?k = "c_k c"
  note f = compiled_fields [OF c] and dims = sane_dims [OF sane]
  obtain e where e: "pub_rank p = 2 ^ e" "0 < e" "e < 32" by (rule sane_rank [OF sane])
  obtain bs as where seeds: "c_commitment c = (bs, as)" by fastforce
  define nz where "nz = \<lparr>mm_a = map (\<lambda>r. map (noise_entry ?D SEED_LABEL_A as (pub_rank p) r) [0..<pub_common_dim p]) (c_a_rows c),
           mm_b = map (\<lambda>r. map (noise_entry ?D SEED_LABEL_B bs (pub_rank p) r) [0..<pub_common_dim p]) (c_b_cols c)\<rparr>"
  have nz: "compute_noise ?D c = Ok nz"
    using noise_for_indices [OF D e(2,3)] by (simp add: compute_noise_def seeds nz_def f e(1))
  define len where "len = ?k - ?k mod ?r"
  have dpl: "dot_product_length (p_config p) = Ok len"
    using e(1) by (auto simp: dot_product_length_def Let_def len_def f pub_common_dim_def pub_rank_def)
  have lk: "len = ?k div ?r * ?r" "len \<le> ?k" by (simp_all add: len_def minus_mod_eq_div_mult)
  have sl: "length (s_a priv) = c_h c" "length (s_b priv) = c_w c" "length (c_a_rows c) = c_h c" "length (c_b_cols c) = c_w c"
    using strips inside by (simp_all add: strips_fit_def rows_inside_def f)
  have strip: "length (s_a priv ! u) = len" "list_all in_signal_range (s_a priv ! u)" if "u < c_h c" for u
    using strips that sl by (auto simp: strips_fit_def dpl list_all_iff)
  have strip': "length (s_b priv ! u) = len" "list_all in_signal_range (s_b priv ! u)" if "u < c_w c" for u
    using strips that sl by (auto simp: strips_fit_def dpl list_all_iff)
  have holds: "holds_dims ?s (c_h c) (c_w c) len" "holds_dims nz (c_h c) (c_w c) len"
    using sl strip strip' lk(2) by (auto simp: holds_dims_def holds_strips_def nz_def f)
  obtain mp jp n where mp: "structure_matmul_in_stark c = Ok (mp, jp)" "expected_num_rows c = Ok n" "0 < n" "length mp \<le> n" "n \<le> length rows"
    and parts: "length mp = length jp \<longrightarrow> map rl_matmul rows = mp @ replicate (length rows - length mp) matmul_default
      \<and> map rl_jackpot rows = jp @ replicate (length rows - length jp) jackpot_default"
    by (rule structure_proof_rows [OF rows])
  obtain tiles regs where run: "cumsum_rows ?s nz (mp @ replicate (length rows - length mp) matmul_default) zero_tile = Ok tiles"
    "fill_cumsum_buffer_xor_jackpot tiles (jp @ replicate (length rows - length mp) jackpot_default) = Ok regs"
    "length mp = length jp" "length regs = length jp + (length rows - length mp)"
    "\<forall>i < length regs. length jp \<le> i + 1 \<longrightarrow> snd (regs ! i) = jackpot_of (product ?s nz) (c_h c) (c_w c) ?r ?k"
    using program_computes [OF mp(1) _ _ _ holds, of "length rows - length mp" zero_tile] dims lk by (auto simp: f)
  have "compute_jackpot c (s_a priv) (s_b priv) nz = Ok (jackpot_of (product ?s nz) (c_h c) (c_w c) ?r ?k)"
    unfolding compute_jackpot_def
  proof (rule jackpot_loop_Ok)
    show "0 < ?r" by (simp add: f e(1))
    fix u v l assume uvl: "u < c_h c" "v < c_w c" "l < ?k div ?r * ?r"
    then have l: "l < len" using lk(1) by simp
    then have "l < ?k" using lk(2) by (rule less_le_trans)
    note l = l this
    have "in_signal_range (s_a priv ! u ! l)" "in_signal_range (s_b priv ! v ! l)"
      using strip [OF uvl(1)] strip' [OF uvl(2)] l by (auto simp: list_all_length)
    then show "res_bind (nth2 (s_a priv) u l) (\<lambda>a. res_bind (nth2 (mm_a nz) u l) (\<lambda>na.
       res_bind (nth2 (s_b priv) v l) (\<lambda>b. res_bind (nth2 (mm_b nz) v l) (\<lambda>nb.
       Ok ((scast a + scast na) * (scast b + scast nb)))))) = Ok (product ?s nz u v l)"
      using uvl l sl strip [OF uvl(1)] strip' [OF uvl(2)] noise_entry_range
      by (simp add: nth2_Ok nz_def product_def noised_def strips_for_def signed_sum f)
  qed
  then show ?thesis using nz mp run parts by (auto simp: intro!: exI [of _ nz])
qed

definition sample_private :: private_params where
  "sample_private = \<lparr>s_a = replicate 2 (replicate 4096 0), s_b = replicate 32 (replicate 4096 0), external_msgs = [], external_cvs = []\<rparr>"

lemma jackpot_machine_witness:
  "\<exists>c ms cs rows noise tiles regs n. compile_params spec_blake3 sample_params = Ok (c, ms, cs) \<and> structure_proof c = Ok rows
    \<and> expected_num_rows c = Ok n
    \<and> cumsum_rows \<lparr>mm_a = s_a sample_private, mm_b = s_b sample_private\<rparr> noise (map rl_matmul rows) zero_tile = Ok tiles
    \<and> fill_cumsum_buffer_xor_jackpot tiles (map rl_jackpot rows) = Ok regs
    \<and> compute_jackpot c (s_a sample_private) (s_b sample_private) noise = Ok (snd (regs ! (n - 1)))"
proof -
  obtain c ms cs where c: "compile_params spec_blake3 sample_params = Ok (c, ms, cs)" using sample_compiled by blast
  note f = compiled_fields [OF c] and dims = sane_dims [OF sample_params_sane]
  have "\<exists>rows. structure_proof c = Ok rows"
    by (rule structure_proof_exists)
       (use f dims sample_shape in \<open>simp_all add: sample_params_def sample_config_def pub_rank_def\<close>)
  then obtain rows where rows: "structure_proof c = Ok rows" by blast
  have "digest32 (blake3_digest spec_blake3)"
    by (simp add: digest32_def blake3_digest_def spec_blake3_def length_chunk_value split: option.split)
  moreover have "dot_product_length sample_config = Ok 4096"
    by (simp add: sample_config_def dot_product_length_def Let_def)
  then have "strips_fit sample_params sample_private"
    by (simp add: strips_fit_def sample_private_def sample_params_def pub_h_def pub_w_def list_all_iff in_signal_range_def)
       (simp add: sample_config_def pp_size_def)
  ultimately show ?thesis
    using jackpot_machine [OF _ sample_params_sane sample_canonical(2) c _ rows, of sample_private] c rows by blast
qed

end
