(* ===== verification/Stark_Limits.thy ===== *)
theory Stark_Limits imports Stark_Run begin

text \<open>
  Parameters the checks accept and the layout of the program rejects.
\<close>

section \<open>A rank whose shifts do not fit\<close>

lemma steps_of_whole:
  assumes "tid < ZK_JACKPOT_SIZE"
  shows "steps_of (n * 16) tid = map (\<lambda>i. i * 16 + tid) [0..<n]"
proof (induction n)
  case (Suc n)
  have tid: "tid < 16" using assms by (simp add: ZK_JACKPOT_SIZE_def)
  have "[0..<Suc n * 16] = [0..<n * 16] @ [n * 16..<n * 16 + 16]" using upt_add_eq_append [of 0 "n * 16" 16] by (simp add: add.commute)
  moreover have "[n * 16..<n * 16 + 16] = [n * 16..<n * 16 + tid] @ (n * 16 + tid) # [n * 16 + tid + 1..<n * 16 + 16]"
    using upt_add_eq_append [of "n * 16" "n * 16 + tid" "16 - tid"] tid by (simp add: upt_conv_Cons)
  moreover have "t mod 16 = t - n * 16" if "n * 16 \<le> t" "t < n * 16 + 16" for t
  proof -
    have "t = n * 16 + (t - n * 16)" "t - n * 16 < 16" using that by simp_all
    then show ?thesis by (metis mod_less mod_mult_self3)
  qed
  then have "filter (\<lambda>t. t mod 16 = tid) [n * 16..<n * 16 + tid] = []" "filter (\<lambda>t. t mod 16 = tid) [n * 16 + tid + 1..<n * 16 + 16] = []"
    using tid by (auto simp: filter_empty_conv)
  ultimately show ?case using Suc tid by (simp add: steps_of_def ZK_JACKPOT_SIZE_def)
qed simp

lemma block_length_32:
  assumes "b < 64 * 128"
  shows "length (fst (program_block 32 4096 nw 64 b)) = (if b div 128 \<noteq> 63 \<and> 112 \<le> b mod 128 then 7 else 5)"
proof -
  obtain ns dst where ops: "block_ops 32 4096 64 b = (ns, dst)" by fastforce
  define t where "t = b mod 128"
  have t: "t < 128" by (simp add: t_def)
  define tid where "tid = t mod 16"
  have tid: "tid < ZK_JACKPOT_SIZE" by (simp add: tid_def ZK_JACKPOT_SIZE_def)
  then have s: "length (steps_of 128 tid) = 8" "last (steps_of 128 tid) = 112 + tid"
    using steps_of_whole [OF tid, of 8] by (simp_all add: last_map)
  then have "steps_of 128 tid \<noteq> []" by auto
  then have o: "fst (occurrences 32 4096) ! tid = (112 + tid + 1) * 32" "snd (occurrences 32 4096) ! tid = 8"
    using occurrences_steps [of 32 tid 4096] tid s by simp_all
  have "tid_of 32 ((t + 1) * 32) = tid" by (simp add: tid_of_def tid_def ZK_JACKPOT_SIZE_def)
  then have "ns = (if b div 128 \<noteq> 63 \<and> t = 112 + tid then 2 else 0)"
    using ops o by (simp add: block_ops_def back_shift_def compute_back_shift_ops_def Let_def t_def [symmetric] split: if_splits)
  moreover have "t = 112 + tid \<longleftrightarrow> 112 \<le> t"
  proof
    assume "112 \<le> t"
    then have "t = (t - 112) + 7 * 16" "t - 112 < 16" using t by simp_all
    then have "t mod 16 = t - 112" by (metis mod_less mod_mult_self1)
    then show "t = 112 + tid" using \<open>112 \<le> t\<close> by (simp add: tid_def)
  qed simp
  ultimately show ?thesis unfolding program_block_rows(1) [OF ops] by (simp add: tile_products_def TILE_D_def t_def)
qed

lemma program_length_32:
  "length (concat (map (\<lambda>b. fst (program_block 32 4096 nw 64 b)) [0..<64 * 128])) = 42976"
proof -
  define f where "f = (\<lambda>(s :: nat) (t :: nat). if s \<noteq> 63 \<and> 112 \<le> t then 7 else 5 :: nat)"
  have "length (concat (map (\<lambda>b. fst (program_block 32 4096 nw 64 b)) [0..<64 * 128])) = sum_list (map (\<lambda>b. f (b div 128) (b mod 128)) [0..<64 * 128])"
    unfolding length_concat map_map comp_def by (intro arg_cong [where f = sum_list] map_cong refl) (simp only: set_upt atLeastLessThan_iff f_def block_length_32)
  also have "\<dots> = sum_list (concat (map (\<lambda>s. map (f s) [0..<128]) [0..<64]))" by (simp only: concat_grid)
  also have "\<dots> = sum_list (map (\<lambda>s. if s \<noteq> 63 then 672 else 640) [0..<64])"
  proof -
    have "sum_list (map (f s) [0..<128]) = (if s \<noteq> 63 then 672 else 640)" for s
    proof -
      have "sum_list (map (\<lambda>t. if 112 \<le> t then 7 else 5) [0..<128]) = (672 :: nat)"
      proof -
        have e: "112 + 16 = (128 :: nat)" by simp
        have "[0..<128 :: nat] = [0..<112] @ [112..<128]" using upt_add_eq_append [OF le0, of 112 16] unfolding e .
        moreover have "map (\<lambda>t. if 112 \<le> t then 7 else 5) [0..<112] = map (\<lambda>t. 5 :: nat) [0..<112 :: nat]"
          "map (\<lambda>t. if 112 \<le> t then 7 else 5) [112..<128] = map (\<lambda>t. 7 :: nat) [112..<128 :: nat]" by (rule map_cong; auto)+
        ultimately show ?thesis by (simp only: map_append sum_list_append sum_list_triv length_upt) simp
      qed
      moreover have "sum_list (map (\<lambda>t. 5) [0..<128 :: nat]) = (640 :: nat)" by (simp only: sum_list_triv) simp
      ultimately show ?thesis by (simp add: f_def)
    qed
    moreover have "sum_list (concat xss) = sum_list (map sum_list xss)" for xss :: "nat list list" by (induction xss) simp_all
    ultimately show ?thesis by (simp only: map_map comp_def)
  qed
  also have "\<dots> = 42976"
  proof -
    have e: "63 + 1 = (64 :: nat)" "[63..<64] = [63 :: nat]" by simp_all
    have "[0..<64] = [0..<63] @ [63 :: nat]" using upt_add_eq_append [OF le0, of 63 1] unfolding e .
    moreover have "map (\<lambda>s. if s \<noteq> 63 then 672 else 640) [0..<63] = map (\<lambda>s. 672 :: nat) [0..<63 :: nat]" by (rule map_cong) auto
    ultimately show ?thesis by (simp only: map_append sum_list_append sum_list_triv length_upt) simp
  qed
  finally show ?thesis .
qed

text \<open>C35: The announced length ignores the rows of the final shifts.  For the rank 32 with a common dimension of 4096 and a
  tile of 16 by 16, parameters the sanity check accepts, the matrix program needs 42976 rows where 40960 are announced:
  the layout fails exactly when the hash program is not longer than that.\<close>

theorem short_rank_rejected:
  assumes "compile_params B p = Ok (c, ms, cs)" "pub_rank p = 32" "pub_common_dim p = 4096" "pub_h p = 16" "pub_w p = 16"
  shows "structure_proof c = Err ''structure_proof length does not match expected num rows''
    \<longleftrightarrow> length (instructions (blake_proof c)) * ROUNDS_PER_BLAKE_INSTRUCTION + ROUNDS_PER_BLAKE_INSTRUCTION < 42976"
proof -
  note f = compiled_fields [OF assms(1), unfolded assms(2-5)]
  obtain rs where rs: "structure_commitment_hash_in_stark (instructions (blake_proof c)) = Ok rs" "length rs = 8 * length (instructions (blake_proof c))"
    using structure_commitment_hash_Ok [OF f(7,8)] by blast
  have "\<exists>m. structure_matmul_in_stark c = Ok m"
    unfolding structure_matmul_in_stark_def f(1-4) Let_def ensure_def TILE_D_def TILE_H_def by simp
  then obtain mp jp where mp: "structure_matmul_in_stark c = Ok (mp, jp)" by auto
  have "length mp = 42976"
  proof -
    have n: "16 div 2 = (8 :: nat)" "8 * 8 = (64 :: nat)" "4096 div 32 = (128 :: nat)" by simp_all
    show ?thesis unfolding program_blocks(5) [OF mp] f(1-4) n by (rule program_length_32)
  qed
  moreover have l8: "length (instructions (blake_proof c)) * 8 = length rs" using rs(2) by simp
  moreover have "expected_num_rows c = Ok (max (length rs + ROUNDS_PER_BLAKE_INSTRUCTION) 40960)"
    unfolding expected_num_rows_def f(1-4) Let_def ROUNDS_PER_BLAKE_INSTRUCTION_def l8 TILE_D_def TILE_H_def by simp
  ultimately show ?thesis
    by (auto simp: structure_proof_def rs mp Let_def ensure_def ROUNDS_PER_BLAKE_INSTRUCTION_def)
qed

section \<open>The size of the hash program\<close>

lemma compile_chunk_step:
  assumes "msg_start < stop"
  shows "\<exists>out'. compile_chunk c idx msg_start stop rf first out = compile_chunk c idx (msg_start + min (stop - msg_start) 64) stop rf False out'
    \<and> length (out_instructions out') = length (out_instructions out) + 1"
  unfolding compile_chunk.simps [of c idx msg_start stop rf first out] Let_def BLAKE3_MSG_LEN_def
  using assms by (cases "find_hotspot c msg_start 0 (hotspot_strips c)") (auto intro!: exI simp: push_instruction_def simp del: compile_chunk.simps)

lemma compile_chunk_count:
  "length (out_instructions (compile_chunk c idx msg_start stop rf first out)) \<le> length (out_instructions out) + (stop - msg_start + 63) div 64"
proof (induction "stop - msg_start" arbitrary: msg_start first out rule: less_induct)
  case less
  show ?case
  proof (cases "msg_start < stop")
    case True
    define len where "len = min (stop - msg_start) 64"
    obtain out' where step: "compile_chunk c idx msg_start stop rf first out = compile_chunk c idx (msg_start + len) stop rf False out'"
      "length (out_instructions out') = length (out_instructions out) + 1"
      using compile_chunk_step [OF True] unfolding len_def by blast
    have "stop - (msg_start + len) < stop - msg_start" using True by (simp add: len_def)
    from less [OF this, of False out'] step(2)
    have "length (out_instructions (compile_chunk c idx (msg_start + len) stop rf False out')) \<le> length (out_instructions out) + 1 + (stop - (msg_start + len) + 63) div 64"
      by simp
    moreover have "(stop - (msg_start + len) + 63) div 64 + 1 \<le> (stop - msg_start + 63) div 64"
    proof (cases "64 \<le> stop - msg_start")
      case True
      then obtain d where "stop - msg_start = d + 64" using le_Suc_ex [of 64] by (metis add.commute)
      then show ?thesis by (simp add: len_def diff_diff_left [symmetric])
    next
      case False
      then have "stop - (msg_start + len) = 0" by (simp add: len_def)
      moreover have "1 \<le> (stop - msg_start + 63) div 64" using True div_le_mono [of 64 "stop - msg_start + 63" 64] by simp
      ultimately show ?thesis by simp
    qed
    ultimately show ?thesis unfolding step(1) by linarith
  qed (subst compile_chunk.simps, simp)
qed

lemma recursive_compilation_count:
  assumes "recursive_compilation c start stop out = (cv, out')" "stop - start = 1024 * n" "0 < n"
  shows "length (out_instructions out') + 1 \<le> length (out_instructions out) + 17 * n"
  using assms
proof (induction n arbitrary: start stop out cv out' rule: less_induct)
  case (less n)
  define rf where "rf = (if start = 0 \<and> stop = padded_chunk_len (num_rows c * row_len c) then B3F_ROOT else 0)"
  consider (aux) "\<not> intersects_strips c start stop" | (chunk) "intersects_strips c start stop" "n = 1"
    | (tree) "intersects_strips c start stop" "2 \<le> n" using less.prems(3) by linarith
  then show ?case
  proof cases
    case aux
    then have "out_instructions out' = out_instructions out"
      using less.prems unfolding recursive_compilation.simps [of c start stop out] by (auto simp: Let_def CHUNK_LEN_def)
    then show ?thesis using less.prems(3) by simp
  next
    case chunk
    then have "out' = compile_chunk c (start div CHUNK_LEN) start stop rf True out"
      using less.prems unfolding recursive_compilation.simps [of c start stop out] by (auto simp: Let_def CHUNK_LEN_def rf_def)
    then show ?thesis using compile_chunk_count [of c "start div CHUNK_LEN" start stop rf True out] less.prems(2) chunk(2) by simp
  next
    case tree
    define h where "h = next_power_of_two n div 2"
    have h: "0 < h" "h < n" using half_bounds [OF tree(2)] by (simp_all add: h_def)
    obtain left_cv out1 where l: "recursive_compilation c start (start + 1024 * h) out = (left_cv, out1)" by fastforce
    obtain right_cv out2 where r: "recursive_compilation c (start + 1024 * h) stop out1 = (right_cv, out2)" by fastforce
    have "length (out_instructions out') = length (out_instructions out2) + 1"
      using less.prems tree l r unfolding recursive_compilation.simps [of c start stop out] less.prems(2) next_power_of_two_chunks [OF tree(2)] h_def [symmetric]
      by (auto simp: Let_def CHUNK_LEN_def push_instruction_def)
    moreover have "length (out_instructions out1) + 1 \<le> length (out_instructions out) + 17 * h"
      by (rule less.IH [OF h(2) l _ h(1)]) simp
    moreover have "length (out_instructions out2) + 1 \<le> length (out_instructions out1) + 17 * (n - h)"
      by (rule less.IH [OF _ r]) (use h less.prems(2) in \<open>auto simp: right_diff_distrib'\<close>)
    ultimately show ?thesis using h by simp
  qed
qed

lemma blake_program_count:
  assumes "blake_program_new p = Ok (prog, ms, cs)" "padded_chunk_len (unat (p_m p) * pub_common_dim p) = 1024 * a"
    "padded_chunk_len (unat (p_n p) * pub_common_dim p) = 1024 * b" "0 < a" "0 < b"
  shows "length (instructions prog) + 2 \<le> 17 * (a + b)"
proof -
  obtain len a_cv out1 out2 b_cv out3 out4 where
    a: "compile_matrix (compile_a p len) \<lparr>out_instructions = [], out_msgs = [], out_cvs = []\<rparr> = (a_cv, out1)"
    and a2: "mark_hash (\<lambda>i. i\<lparr>is_hash_a := True\<rparr>) a_cv out1 = Ok out2" and b: "compile_matrix (compile_b p len) out2 = (b_cv, out3)"
    and b2: "mark_hash (\<lambda>i. i\<lparr>is_hash_b := True\<rparr>) b_cv out3 = Ok out4" and prog: "instructions prog = out_instructions out4"
    by (rule blake_program_parts [OF assms(1)])
  have "length (out_instructions out1) + 1 \<le> 17 * a"
    using recursive_compilation_count [OF a [unfolded compile_matrix_def], of a] assms(2,4) by (simp add: compile_a_def)
  moreover have "length (out_instructions out3) + 1 \<le> length (out_instructions out2) + 17 * b"
    using recursive_compilation_count [OF b [unfolded compile_matrix_def], of b] assms(3,5) by (simp add: compile_b_def)
  moreover have "length (out_instructions out2) = length (out_instructions out1)" by (rule mark_hash_Ok [OF a2]) simp
  moreover have "length (out_instructions out4) = length (out_instructions out3)" by (rule mark_hash_Ok [OF b2]) simp
  ultimately show ?thesis by (simp add: prog)
qed

definition small_config :: mining_config where
  "small_config = \<lparr>common_dim = 4096, rank = 32, mma_type = Int7xInt7ToInt32,
     rows_pattern = \<lparr>shape = [(1, 16), (16, 1), (16, 1)]\<rparr>, cols_pattern = \<lparr>shape = [(1, 16), (16, 1), (16, 1)]\<rparr>, reserved = RESERVED_VALUE\<rparr>"

definition small_params :: public_params where
  "small_params = sample_params\<lparr>p_config := small_config, p_m := 16, p_n := 16\<rparr>"

lemma small_shape: "pub_rank small_params = 32" "pub_common_dim small_params = 4096" "pub_h small_params = 16" "pub_w small_params = 16"
  by (simp_all add: small_params_def small_config_def pub_rank_def pub_common_dim_def pub_h_def pub_w_def pp_size_def)

lemma small_params_sane: "public_params_sanity_check small_params = Ok ()"
proof -
  have "dot_product_length small_config = Ok 4096"
    by (simp add: small_config_def dot_product_length_def Let_def)
  moreover have "pp_max (rows_pattern small_config) = Ok 15" "pp_max (cols_pattern small_config) = Ok 15"
    by code_simp+
  moreover have "is_power_of_two 32" by (rule is_power_of_twoI [of _ 5]) simp_all
  ultimately show ?thesis
    unfolding public_params_sanity_check_def small_shape Let_def
    by (simp add: small_params_def sample_params_def saturate_def USIZE_MAX_def TILE_D_def TILE_H_def DWORD_SIZE_def)
      (simp add: small_config_def)
qed

lemma short_rank_rejected_witness:
  "\<exists>c ms cs. public_params_sanity_check small_params = Ok () \<and> compile_params spec_blake3 small_params = Ok (c, ms, cs)
    \<and> structure_proof c = Err ''structure_proof length does not match expected num rows''"
proof -
  have inside: "rows_inside small_params" by code_simp
  have "(case config_to_bytes (p_config small_params) of Ok bs \<Rightarrow> True | _ \<Rightarrow> False)" by code_simp
  then obtain key where key: "job_key (blake3_digest spec_blake3) small_params = Ok key"
    by (auto simp: job_key_def blake3_digest_def spec_blake3_def length_chunk_value split: res.splits)
  obtain len where len: "dot_product_length (p_config small_params) = Ok len"
    using small_params_sane by (auto simp: public_params_sanity_check_def Let_def res_bind_Ok_iff)
  obtain prog ms cs where prog: "blake_program_new small_params = Ok (prog, ms, cs)"
    using program_new [OF small_params_sane inside len] by (elim exE conjE) blast
  obtain c where c: "compile_params spec_blake3 small_params = Ok (c, ms, cs)" "blake_proof c = prog"
    by (simp add: compile_params_def key prog)
  have "padded_chunk_len (16 * 4096) = 1024 * 64" by (simp add: padded_chunk_len_def CHUNK_LEN_def)
  then have "length (instructions prog) + 2 \<le> 17 * (64 + 64)"
    by (intro blake_program_count [OF prog]) (simp_all add: small_shape, simp_all add: small_params_def)
  then have "length (instructions (blake_proof c)) * ROUNDS_PER_BLAKE_INSTRUCTION + ROUNDS_PER_BLAKE_INSTRUCTION < 42976"
    by (simp add: c(2) ROUNDS_PER_BLAKE_INSTRUCTION_def)
  then show ?thesis using short_rank_rejected [OF c(1) small_shape] small_params_sane c(1) by blast
qed

section \<open>The numbering of the matrix words\<close>

definition dword_valid :: "compiled_params \<Rightarrow> mat_dword_id \<Rightarrow> bool" where
  "dword_valid c d \<longleftrightarrow> strip_idx d < (if is_b_strip d then c_w c else c_h c)
     \<and> idx_in_strip d < strip_length (blake_proof c) \<and> idx_in_strip d mod DWORD_SIZE = 0"

lemma block_position:
  fixes s q m n :: nat
  assumes "s < 2 * m" "q < n"
  shows "s div 2 * n * 2 + q * 2 + s mod 2 < 2 * m * n" "(s div 2 * n * 2 + q * 2 + s mod 2) div (n * 2) = s div 2"
    "(s div 2 * n * 2 + q * 2 + s mod 2) mod (n * 2) = q * 2 + s mod 2"
proof -
  have r: "q * 2 + s mod 2 < n * 2" using assms(2) by (cases "s mod 2 = 0") auto
  have "s div 2 * (n * 2) + (q * 2 + s mod 2) < m * (n * 2)" using assms(1) r by (intro grid_index_less) simp_all
  then show "s div 2 * n * 2 + q * 2 + s mod 2 < 2 * m * n" by (simp add: ac_simps)
  have e: "s div 2 * n * 2 + q * 2 + s mod 2 = (q * 2 + s mod 2) + s div 2 * (n * 2)" by simp
  show "(s div 2 * n * 2 + q * 2 + s mod 2) div (n * 2) = s div 2" unfolding e using r by (simp add: div_mult_self1)
  show "(s div 2 * n * 2 + q * 2 + s mod 2) mod (n * 2) = q * 2 + s mod 2" unfolding e using r by simp
qed

text \<open>C36: The numbering of the matrix words is injective: a word of the strips gets an index below the
  number of words of both matrices, and \<open>index_to_dword\<close> returns it.\<close>

theorem dword_index_roundtrip:
  assumes "c_h c mod 2 = 0" "c_w c mod 2 = 0" "strip_length (blake_proof c) mod 8 = 0" "dword_valid c d"
  shows "index_to_dword c (dword_to_index c d) = Ok d \<and> dword_to_index c d < num_dwords c False + num_dwords c True"
proof -
  define n where "n = num_dwords_per_strip c"
  define q where "q = idx_in_strip d div 8"
  have d: "idx_in_strip d = q * 8" using assms(4) by (auto simp: q_def dword_valid_def DWORD_SIZE_def)
  have q: "q < n" using assms(3,4) d by (auto simp: n_def num_dwords_per_strip_def dword_valid_def DWORD_SIZE_def)
  obtain h w where hw: "c_h c = 2 * h" "c_w c = 2 * w" using assms(1,2) by (metis mod_eq_0_iff_dvd dvd_def)
  define i where "i = strip_idx d div 2 * n * 2 + q * 2 + strip_idx d mod 2"
  have idx: "dword_to_index c d = (if is_b_strip d then 2 * h * n else 0) + i"
    by (simp add: dword_to_index_def Let_def num_dwords_def hw d i_def TILE_H_def DWORD_SIZE_def n_def)
  have strip: "strip_idx d < 2 * (if is_b_strip d then w else h)" using assms(4) by (auto simp: dword_valid_def hw split: if_splits)
  note pos = block_position [OF strip q, folded i_def]
  have a: "num_dwords c False = 2 * h * n" "num_dwords c True = 2 * w * n" by (simp_all add: num_dwords_def hw n_def)
  have "index_to_dword c (dword_to_index c d) = Ok \<lparr>is_b_strip = is_b_strip d, strip_idx = strip_idx d div 2 * 2 + (q * 2 + strip_idx d mod 2) mod 2,
      idx_in_strip = (q * 2 + strip_idx d mod 2) div 2 * 8\<rparr>"
    using pos q unfolding index_to_dword_def Let_def a idx n_def [symmetric] by (cases "is_b_strip d") (auto simp: TILE_H_def DWORD_SIZE_def)
  also have "\<dots> = Ok d" using d by simp
  finally show ?thesis using pos(1) by (auto simp: idx a)
qed

lemma dword_index_roundtrip_witness:
  "\<exists>c d. dword_valid c d \<and> is_b_strip d \<and> index_to_dword c (dword_to_index c d) = Ok d"
proof -
  define c where "c = \<lparr>c_job_key = [], c_k = 64, c_h = 2, c_w = 4, c_r = 32, blake_proof = \<lparr>num_a_rows = 2, num_b_cols = 4, strip_length = 64,
      num_auxiliary_msgs = 0, num_auxiliary_cvs = 0, instructions = []\<rparr>, c_a_rows = [0, 1], c_b_cols = [0, 1, 2, 3], c_commitment = ([], [])\<rparr>"
  have "dword_valid c \<lparr>is_b_strip = True, strip_idx = 3, idx_in_strip = 24\<rparr>" by (simp add: dword_valid_def c_def DWORD_SIZE_def)
  with dword_index_roundtrip [OF _ _ _ this] show ?thesis
    by (intro exI [of _ c] exI [of _ "\<lparr>is_b_strip = True, strip_idx = 3, idx_in_strip = 24\<rparr>"]) (simp add: c_def)
qed

end
