(* ===== verification/Goldilocks.thy ===== *)
theory Goldilocks imports Prelude begin

unbundle bit_operations_syntax

text \<open>
  The field of the proof system (\<open>deps/plonky2/field/src/goldilocks_field.rs\<close>): its elements as residues, and its
  arithmetic on 64-bit words that need not be canonical.
\<close>

section \<open>Residues\<close>

definition GL_ORDER :: int where "GL_ORDER = 0xFFFFFFFF00000001"

lemma GL_ORDER_gt: "1 < GL_ORDER" by (simp add: GL_ORDER_def)

typedef goldilocks = "{0..<GL_ORDER}" morphisms residue Residue
  using GL_ORDER_gt by (intro exI [of _ 0]) simp

setup_lifting type_definition_goldilocks

instantiation goldilocks :: comm_ring_1
begin

lift_definition zero_goldilocks :: goldilocks is 0 using GL_ORDER_gt by simp
lift_definition one_goldilocks :: goldilocks is 1 using GL_ORDER_gt by simp
lift_definition plus_goldilocks :: "goldilocks \<Rightarrow> goldilocks \<Rightarrow> goldilocks" is "\<lambda>x y. (x + y) mod GL_ORDER"
  using GL_ORDER_gt by simp
lift_definition uminus_goldilocks :: "goldilocks \<Rightarrow> goldilocks" is "\<lambda>x. (- x) mod GL_ORDER"
  using GL_ORDER_gt by simp
lift_definition minus_goldilocks :: "goldilocks \<Rightarrow> goldilocks \<Rightarrow> goldilocks" is "\<lambda>x y. (x - y) mod GL_ORDER"
  using GL_ORDER_gt by simp
lift_definition times_goldilocks :: "goldilocks \<Rightarrow> goldilocks \<Rightarrow> goldilocks" is "\<lambda>x y. (x * y) mod GL_ORDER"
  using GL_ORDER_gt by simp

instance
  by (standard; transfer)
    (use GL_ORDER_gt in \<open>auto simp: algebra_simps mod_simps\<close>)

end

instantiation goldilocks :: equal
begin
lift_definition equal_goldilocks :: "goldilocks \<Rightarrow> goldilocks \<Rightarrow> bool" is "(=)" .
instance by (standard; transfer) simp
end

lemma residue_bounds: "0 \<le> residue x" "residue x < GL_ORDER"
  using residue [of x] by simp_all

lemma residue_of_nat: "residue (of_nat n) = int n mod GL_ORDER"
  using GL_ORDER_gt by (induction n) (auto simp: zero_goldilocks.rep_eq one_goldilocks.rep_eq plus_goldilocks.rep_eq mod_simps ac_simps)

lemma residue_of_int: "residue (of_int k) = k mod GL_ORDER"
  by (cases k) (simp_all add: residue_of_nat uminus_goldilocks.rep_eq minus_goldilocks.rep_eq one_goldilocks.rep_eq mod_simps)

lemma of_int_residue [simp]: "of_int (residue x) = x"
  using residue_bounds [of x] by (simp add: residue_inject [symmetric] residue_of_int)

lemma of_int_eq_goldilocks: "(of_int j :: goldilocks) = of_int k \<longleftrightarrow> j mod GL_ORDER = k mod GL_ORDER"
  by (simp add: residue_inject [symmetric] residue_of_int)

lemma of_int_inj:
  assumes "(of_int j :: goldilocks) = of_int k" "\<bar>j - k\<bar> < GL_ORDER"
  shows "j = k"
proof -
  have "GL_ORDER dvd j - k" using assms(1) by (simp add: of_int_eq_goldilocks mod_eq_dvd_iff)
  then show ?thesis using assms(2) dvd_imp_le_int [of "j - k" GL_ORDER] GL_ORDER_gt by fastforce
qed

section \<open>The order is prime\<close>

text \<open>The element \<open>POWER_OF_TWO_GENERATOR\<close> has order \<open>2 ^ 32\<close> modulo every divisor of the order but one, so no proper
  divisor is below \<open>2 ^ 32\<close>.\<close>

definition POWER_OF_TWO_GENERATOR :: int where "POWER_OF_TWO_GENERATOR = 7277203076849721926"

lemma odd_part: "0 < (n :: nat) \<Longrightarrow> \<exists>t l. n = 2 ^ t * (2 * l + 1)"
proof (induction n rule: less_induct)
  case (less n)
  show ?case
  proof (cases "even n")
    case True
    then obtain m where m: "n = 2 * m" by blast
    then obtain t l where "m = 2 ^ t * (2 * l + 1)" using less by force
    then have "n = 2 ^ Suc t * (2 * l + 1)" using m by simp
    then show ?thesis by blast
  next
    case False
    then obtain l where "n = 2 ^ 0 * (2 * l + 1)" by (metis mult_1 oddE power_0)
    then show ?thesis by blast
  qed
qed

fun squarings :: "int \<Rightarrow> nat \<Rightarrow> int \<Rightarrow> int" where
  "squarings m 0 x = x"
| "squarings m (Suc n) x = squarings m n (x * x mod m)"

lemma squarings_power: "squarings m n x mod m = x ^ 2 ^ n mod m"
proof (induction n arbitrary: x)
  case (Suc n)
  have "x ^ 2 ^ Suc n = (x * x) ^ 2 ^ n" by (simp add: power_mult power2_eq_square)
  then show ?case using Suc [of "x * x mod m"] by (simp add: power_mod)
qed simp

lemma squarings_numeral [simp]: "squarings m (numeral k) x = squarings m (pred_numeral k) (x * x mod m)"
  by (simp add: numeral_eq_Suc)

lemma generator_power: "POWER_OF_TWO_GENERATOR ^ 2 ^ 31 mod GL_ORDER = GL_ORDER - 1"
proof -
  have "squarings GL_ORDER 31 POWER_OF_TWO_GENERATOR mod GL_ORDER = GL_ORDER - 1"
    unfolding POWER_OF_TWO_GENERATOR_def GL_ORDER_def by simp
  then show ?thesis by (simp only: squarings_power)
qed

lemma coprime_power_minus_one:
  assumes "d dvd (g ^ N :: int) + 1" "0 < N"
  shows "coprime d g"
proof (rule coprimeI)
  fix c assume "c dvd d" "c dvd g"
  then have "c dvd g ^ N + 1" "c dvd g ^ N" using assms by (auto intro: dvd_trans dvd_power_le [of c g 1 N, simplified])
  then show "is_unit c" by (metis dvd_add_right_iff)
qed

lemma divisor_large:
  assumes d: "1 < d" "d dvd GL_ORDER"
  shows "2 ^ 32 < d"
proof -
  define g where "g = POWER_OF_TWO_GENERATOR"
  define N :: nat where "N = 2 ^ 31"
  have "(g ^ N + 1) mod GL_ORDER = 0"
    using generator_power by (simp add: g_def N_def mod_simps flip: mod_add_left_eq)
  then have half: "d dvd g ^ N + 1" using d(2) dvd_trans by blast
  then have minus1: "g ^ N mod d = (- 1) mod d" by (simp add: mod_eq_dvd_iff)
  have odd: "\<not> d dvd 2"
  proof
    assume "d dvd 2"
    then have "d = 2" using d(1) zdvd_imp_le [of d 2] by simp
    then show False using d(2) by (simp add: GL_ORDER_def)
  qed
  have cop: "coprime d g" by (rule coprime_power_minus_one [OF half]) (simp add: N_def)
  have neq: "g ^ m mod d \<noteq> 1 mod d" if m: "0 < m" "m < 2 ^ 32" for m
  proof
    assume one: "g ^ m mod d = 1 mod d"
    obtain t l where tl: "m = 2 ^ t * (2 * l + 1)" using odd_part [OF m(1)] by blast
    have "2 ^ t \<le> m" using tl by simp
    then have "(2 :: nat) ^ t < 2 ^ 32" using m(2) by linarith
    then have "t < 32" by (rule power_less_imp_less_exp [rotated]) simp
    then have t: "t \<le> 31" by simp
    have "m * 2 ^ (31 - t) = (2 ^ t * 2 ^ (31 - t)) * (2 * l + 1)" by (simp only: tl ac_simps)
    also have "2 ^ t * 2 ^ (31 - t) = N" using t by (simp only: N_def power_add [symmetric] le_add_diff_inverse)
    finally have "(g ^ m) ^ 2 ^ (31 - t) = (g ^ N) ^ (2 * l + 1)" by (simp only: power_mult [symmetric])
    moreover have "(g ^ m) ^ 2 ^ (31 - t) mod d = 1 mod d" by (subst power_mod [symmetric]) (simp add: one power_mod)
    moreover have "(g ^ N) ^ (2 * l + 1) mod d = (- 1) ^ (2 * l + 1) mod d" by (subst power_mod [symmetric]) (simp only: minus1 power_mod)
    ultimately have "1 mod d = (- 1) mod d" by simp
    then show False using odd by (simp add: mod_eq_dvd_iff)
  qed
  have inj: "inj_on (\<lambda>i. g ^ i mod d) {..<2 ^ 32}"
  proof (rule linorder_inj_onI)
    fix i j :: nat assume ij: "i < j" "i \<in> {..<2 ^ 32}" "j \<in> {..<2 ^ 32}"
    show "g ^ i mod d \<noteq> g ^ j mod d"
    proof
      assume "g ^ i mod d = g ^ j mod d"
      then have "d dvd g ^ i * (g ^ (j - i) - 1)" using ij(1) by (simp add: mod_eq_dvd_iff algebra_simps dvd_diff_commute flip: power_add)
      then have "d dvd g ^ (j - i) - 1" using cop by (simp add: coprime_dvd_mult_right_iff)
      moreover have "0 < j - i" "j - i < 2 ^ 32" using ij by auto
      ultimately show False using neq [of "j - i"] by (simp only: mod_eq_dvd_iff)
    qed
  qed auto
  have "(\<lambda>i. g ^ i mod d) ` {..<2 ^ 32} \<subseteq> {1..d - 1}"
  proof
    fix x assume "x \<in> (\<lambda>i. g ^ i mod d) ` {..<2 ^ 32}"
    then obtain i where x: "x = g ^ i mod d" by blast
    have "x \<noteq> 0"
    proof
      assume "x = 0"
      then have "d dvd g ^ i * 1" using x by auto
      moreover have "coprime d (g ^ i)" using cop by simp
      ultimately have "d dvd 1" using coprime_dvd_mult_right_iff by blast
      then show False using d(1) by simp
    qed
    moreover have "0 \<le> x" "x < d" using x d(1) by simp_all
    ultimately show "x \<in> {1..d - 1}" by simp
  qed
  then have "card ((\<lambda>i. g ^ i mod d) ` {..<2 ^ 32}) \<le> card {1..d - 1}" by (intro card_mono) simp_all
  then have "2 ^ 32 \<le> nat (d - 1)" unfolding card_image [OF inj] by simp
  then show ?thesis using d(1) by simp
qed

lemma goldilocks_prime:
  assumes "GL_ORDER dvd a * b"
  shows "GL_ORDER dvd a \<or> GL_ORDER dvd b"
proof -
  define d where "d = gcd GL_ORDER a"
  have d: "d dvd GL_ORDER" "0 < d" using GL_ORDER_gt by (simp_all add: d_def)
  then obtain e where e: "GL_ORDER = d * e" by blast
  then have "e dvd GL_ORDER" by (metis dvd_triv_right)
  moreover have "0 < e"
  proof (rule ccontr)
    assume "\<not> 0 < e"
    then have "d * e \<le> 0" using d(2) by (simp add: mult_nonneg_nonpos)
    then show False using e GL_ORDER_gt by simp
  qed
  ultimately have "d = 1 \<or> e = 1"
  proof -
    have False if "1 < d" "1 < e"
    proof -
      have "(2 ^ 32 + 1) * (2 ^ 32 + 1) \<le> d * e"
        using divisor_large [OF that(1) d(1)] divisor_large [OF that(2)] \<open>e dvd GL_ORDER\<close> by (intro mult_mono) simp_all
      then show False using e by (simp add: GL_ORDER_def)
    qed
    then show ?thesis using d(2) \<open>0 < e\<close> by (cases "1 < d"; cases "1 < e") auto
  qed
  then show ?thesis
  proof
    assume "d = 1"
    then have "coprime GL_ORDER a" by (simp add: d_def coprime_iff_gcd_eq_1)
    then show ?thesis using assms by (simp add: coprime_dvd_mult_right_iff)
  next
    assume "e = 1"
    then have "GL_ORDER = d" using e by simp
    then have "GL_ORDER dvd a" by (simp add: d_def) (metis gcd_dvd2)
    then show ?thesis ..
  qed
qed

instance goldilocks :: idom
proof
  fix a b :: goldilocks assume "a \<noteq> 0" "b \<noteq> 0"
  show "a * b \<noteq> 0"
  proof
    assume "a * b = 0"
    then have "GL_ORDER dvd residue a * residue b" by (simp add: residue_inject [symmetric] times_goldilocks.rep_eq zero_goldilocks.rep_eq dvd_eq_mod_eq_0)
    then have "residue a mod GL_ORDER = 0 \<or> residue b mod GL_ORDER = 0" using goldilocks_prime by (simp add: dvd_eq_mod_eq_0)
    then have "residue a = 0 \<or> residue b = 0" using residue_bounds by (metis mod_pos_pos_trivial)
    then show False using \<open>a \<noteq> 0\<close> \<open>b \<noteq> 0\<close> by (simp add: residue_inject [symmetric] zero_goldilocks.rep_eq)
  qed
qed

section \<open>The arithmetic of the words\<close>

text \<open>An element is a 64-bit word, canonical when it is below the order.  The hint \<open>assume(c)\<close> makes a false \<open>c\<close>
  undefined behaviour: \<open>None\<close>.\<close>

definition FIELD_ORDER :: u64 where "FIELD_ORDER = 0xFFFFFFFF00000001"
definition EPSILON :: u64 where "EPSILON = push_bit 32 1 - 1"

definition assume_hint :: "bool \<Rightarrow> 'a option \<Rightarrow> 'a option" where
  "assume_hint c k = (if c then k else None)"

definition overflowing_add :: "u64 \<Rightarrow> u64 \<Rightarrow> u64 \<times> bool" where
  "overflowing_add x y = (x + y, 2 ^ 64 \<le> uint x + uint y)"

definition overflowing_sub :: "u64 \<Rightarrow> u64 \<Rightarrow> u64 \<times> bool" where
  "overflowing_sub x y = (x - y, x < y)"

definition to_canonical_u64 :: "u64 \<Rightarrow> u64" where
  "to_canonical_u64 c = (if FIELD_ORDER \<le> c then c - FIELD_ORDER else c)"

definition gl_neg :: "u64 \<Rightarrow> u64" where
  "gl_neg x = (if to_canonical_u64 x = to_canonical_u64 0 then 0 else FIELD_ORDER - to_canonical_u64 x)"

definition gl_add :: "u64 \<Rightarrow> u64 \<Rightarrow> u64 option" where
  "gl_add x y =
     (let (sum, over) = overflowing_add x y; (sum, over) = overflowing_add sum (of_bool over * EPSILON)
      in if over then assume_hint (FIELD_ORDER < x \<and> FIELD_ORDER < y) (Some (sum + EPSILON)) else Some sum)"

definition gl_sub :: "u64 \<Rightarrow> u64 \<Rightarrow> u64 option" where
  "gl_sub x y =
     (let (diff, under) = overflowing_sub x y; (diff, under) = overflowing_sub diff (of_bool under * EPSILON)
      in if under then assume_hint (x < EPSILON - 1 \<and> FIELD_ORDER < y) (Some (diff - EPSILON)) else Some diff)"

text \<open>The carry is added by \<open>sbb\<close> on x86-64, with two hints, and by a multiplication elsewhere; the value is the same.\<close>

definition add_no_canonicalize_trashing_input :: "u64 \<Rightarrow> u64 \<Rightarrow> u64 option" where
  "add_no_canonicalize_trashing_input x y =
     (let (res_wrapped, carry) = overflowing_add x y; adjustment = (if carry then EPSILON else 0)
      in assume_hint (x \<noteq> 0 \<or> (res_wrapped = y \<and> adjustment = 0))
        (assume_hint (y \<noteq> 0 \<or> (res_wrapped = x \<and> adjustment = 0)) (Some (res_wrapped + adjustment))))"

definition reduce96 :: "u64 \<times> u32 \<Rightarrow> u64 option" where
  "reduce96 = (\<lambda>(x_lo, x_hi). add_no_canonicalize_trashing_input x_lo (ucast x_hi * EPSILON))"

definition split_u128 :: "128 word \<Rightarrow> u64 \<times> u64" where
  "split_u128 x = (ucast x, ucast (drop_bit 64 x))"

definition reduce128 :: "128 word \<Rightarrow> u64 option" where
  "reduce128 x =
     (let (x_lo, x_hi) = split_u128 x; x_hi_hi = drop_bit 32 x_hi; x_hi_lo = x_hi AND EPSILON;
          (t0, borrow) = overflowing_sub x_lo x_hi_hi; t0 = (if borrow then t0 - EPSILON else t0); t1 = x_hi_lo * EPSILON
      in add_no_canonicalize_trashing_input t0 t1)"

definition gl_mul :: "u64 \<Rightarrow> u64 \<Rightarrow> u64 option" where
  "gl_mul x y = reduce128 (ucast x * ucast y)"

definition multiply_accumulate :: "u64 \<Rightarrow> u64 \<Rightarrow> u64 \<Rightarrow> u64 option" where
  "multiply_accumulate s x y = reduce128 (ucast s + ucast x * ucast y)"

definition from_noncanonical_i64 :: "64 word \<Rightarrow> u64" where
  "from_noncanonical_i64 n = (if n <s 0 then FIELD_ORDER + n else n)"

section \<open>The words compute in the field\<close>

definition gl :: "u64 \<Rightarrow> goldilocks" where
  "gl x = of_int (uint x)"

lemma uint_u64: "0 \<le> uint x" "uint (x :: u64) < 2 ^ 64" using uint_lt2p [of x] by simp_all

lemma uint_consts [simp]: "uint EPSILON = 2 ^ 32 - 1" "uint (2 * EPSILON) = 2 ^ 33 - 2" "uint (EPSILON - 1) = 2 ^ 32 - 2"
    "uint FIELD_ORDER = 2 ^ 64 - 2 ^ 32 + 1"
  by (simp_all add: EPSILON_def FIELD_ORDER_def push_bit_eq_mult)

lemma gl_eqI: "GL_ORDER dvd uint z - k \<Longrightarrow> gl z = of_int k"
  unfolding gl_def of_int_eq_goldilocks mod_eq_dvd_iff .

lemma uint_add_u64: "uint (x + y :: u64) = (if uint x + uint y < 2 ^ 64 then uint x + uint y else uint x + uint y - 2 ^ 64)"
  by (simp add: uint_plus_if')

lemma uint_sub_u64: "uint (x - y :: u64) = (if uint y \<le> uint x then uint x - uint y else uint x - uint y + 2 ^ 64)"
  by (simp add: uint_sub_if')

lemma gl_add_exact: "\<exists>z. gl_add x y = Some z \<and> gl z = gl x + gl y"
proof -
  have "\<exists>z. gl_add x y = Some z \<and> GL_ORDER dvd uint z - (uint x + uint y)"
    using uint_u64 [of x] uint_u64 [of y]
    by (auto simp: gl_add_def overflowing_add_def assume_hint_def Let_def uint_add_u64 word_less_def GL_ORDER_def of_bool_def)
  then show ?thesis using gl_eqI [of _ "uint x + uint y"] by (auto simp: gl_def)
qed

lemma gl_sub_exact: "\<exists>z. gl_sub x y = Some z \<and> gl z = gl x - gl y"
proof -
  have "\<exists>z. gl_sub x y = Some z \<and> GL_ORDER dvd uint z - (uint x - uint y)"
    using uint_u64 [of x] uint_u64 [of y]
    by (auto simp: gl_sub_def overflowing_sub_def assume_hint_def Let_def uint_sub_u64 word_less_def GL_ORDER_def of_bool_def)
      (use uint_u64 [of x] uint_u64 [of y] in linarith)
  then show ?thesis using gl_eqI [of _ "uint x - uint y"] by (auto simp: gl_def)
qed

lemma residue_gl: "residue (gl x) = uint x mod GL_ORDER"
  unfolding gl_def residue_of_int ..

lemma mod_order: "0 \<le> k \<Longrightarrow> k < 2 ^ 64 \<Longrightarrow> k mod GL_ORDER = (if GL_ORDER \<le> k then k - GL_ORDER else k)"
  by (auto simp: mod_pos_pos_trivial GL_ORDER_def intro: int_mod_pos_eq [of _ _ 1])

lemma to_canonical_exact: "uint (to_canonical_u64 x) = residue (gl x)"
  using uint_u64 [of x]
  by (simp add: to_canonical_u64_def residue_gl mod_order word_le_def uint_sub_u64) (simp add: GL_ORDER_def)

lemma gl_canonical [simp]: "gl (to_canonical_u64 x) = gl x"
  unfolding gl_def [of "to_canonical_u64 x"] to_canonical_exact by (rule of_int_residue)

lemma gl_neg_exact: "gl (gl_neg x) = - gl x"
proof (cases "to_canonical_u64 x = to_canonical_u64 0")
  case True
  then have "gl x = gl 0" by (metis gl_canonical)
  then show ?thesis using True by (simp add: gl_neg_def) (simp add: gl_def)
next
  case False
  have "uint (to_canonical_u64 x) < GL_ORDER" unfolding to_canonical_exact by (rule residue_bounds)
  then have "uint (FIELD_ORDER - to_canonical_u64 x) = GL_ORDER - uint (to_canonical_u64 x)"
    by (simp add: uint_sub_u64 GL_ORDER_def)
  then have "gl (gl_neg x) = of_int GL_ORDER - gl (to_canonical_u64 x)"
    unfolding gl_def [of "to_canonical_u64 x"] using False by (simp add: gl_neg_def gl_def del: of_int_uint)
  moreover have "of_int GL_ORDER = (0 :: goldilocks)" using of_int_eq_goldilocks [of GL_ORDER 0] by simp
  ultimately show ?thesis by simp
qed

lemma add_no_canonicalize_exact:
  assumes "uint x + uint y < 2 ^ 64 + GL_ORDER"
  shows "\<exists>z. add_no_canonicalize_trashing_input x y = Some z \<and> GL_ORDER dvd uint z - (uint x + uint y)"
  using assms uint_u64 [of x] uint_u64 [of y]
  by (auto simp: add_no_canonicalize_trashing_input_def overflowing_add_def assume_hint_def Let_def uint_add_u64 GL_ORDER_def)

lemma uint_mul_epsilon: "uint h < 2 ^ 32 \<Longrightarrow> uint (h * EPSILON) = uint h * (2 ^ 32 - 1)"
proof -
  assume "uint h < 2 ^ 32"
  then have "uint h * (2 ^ 32 - 1) < 2 ^ 32 * (2 ^ 32 - 1)" by (intro mult_strict_right_mono) simp_all
  then show ?thesis using uint_mult_lem [of h EPSILON] by simp
qed

lemma uint_ucast_64: "uint (ucast (x :: 128 word) :: u64) = uint x mod 2 ^ 64"
  by (simp add: unsigned_ucast_eq take_bit_eq_mod)

lemma uint_drop_bit: "uint (drop_bit n x) = uint x div 2 ^ n"
  unfolding unsigned_drop_bit_eq by (simp add: drop_bit_eq_div bintr_uint)

lemma uint_low_half: "uint (x AND EPSILON) = uint (x :: u64) mod 2 ^ 32"
proof -
  have "EPSILON = mask 32" by (simp add: EPSILON_def mask_eq_exp_minus_1 push_bit_eq_mult)
  then have "x AND EPSILON = take_bit 32 x" by (simp only: take_bit_eq_mask)
  then have "uint (x AND EPSILON) = take_bit 32 (uint x)" by (simp only: unsigned_take_bit_eq)
  then show ?thesis by (simp only: take_bit_eq_mod)
qed

lemma reduce128_exact: "\<exists>z. reduce128 x = Some z \<and> gl z = of_int (uint x)"
proof -
  define lo hi :: u64 where "lo = ucast x" "hi = ucast (drop_bit 64 x)"
  define hh hl where "hh = drop_bit 32 hi" "hl = hi AND EPSILON"
  have bound: "0 \<le> uint x" "uint x < 2 ^ 128" using uint_lt2p [of x] by simp_all
  then have "uint x div 2 ^ 64 < 2 ^ 64" by simp
  then have hi': "uint hi = uint x div 2 ^ 64"
    using bound by (simp add: lo_hi_def uint_ucast_64 uint_drop_bit mod_pos_pos_trivial pos_imp_zdiv_nonneg_iff)
  have x: "uint x = uint lo + 2 ^ 64 * uint hi" unfolding hi' by (simp add: lo_hi_def uint_ucast_64)
  have hi: "uint hi = uint hl + 2 ^ 32 * uint hh" by (simp add: hh_hl_def uint_low_half uint_drop_bit)
  have small: "uint hl < 2 ^ 32" by (simp add: hh_hl_def uint_low_half)
  have small': "uint hh < 2 ^ 32" using uint_u64 [of hi] by (simp add: hh_hl_def uint_drop_bit)
  note small = small small'
  define t0 where "t0 = (if lo < hh then lo - hh - EPSILON else lo - hh)"
  have t0: "uint t0 = uint lo - uint hh + (if uint lo < uint hh then GL_ORDER else 0)"
    using small uint_u64 [of lo] uint_u64 [of hh] by (auto simp: t0_def uint_sub_u64 word_less_def GL_ORDER_def)
      (use small uint_u64 [of lo] in linarith)
  obtain z where z: "add_no_canonicalize_trashing_input t0 (hl * EPSILON) = Some z" "GL_ORDER dvd uint z - (uint t0 + uint (hl * EPSILON))"
    using add_no_canonicalize_exact [of t0 "hl * EPSILON"] small(1) uint_u64 [of t0] by (auto simp: uint_mul_epsilon GL_ORDER_def)
  have "reduce128 x = Some z"
    using z(1) by (cases "lo < hh") (simp_all add: reduce128_def split_u128_def overflowing_sub_def Let_def t0_def flip: lo_hi_def hh_hl_def)
  moreover have "GL_ORDER dvd uint z - uint x"
  proof -
    have "uint t0 + uint (hl * EPSILON) - uint x = GL_ORDER * ((if uint lo < uint hh then 1 else 0) - uint hl - 2 ^ 32 * uint hh - uint hh)"
      unfolding t0 x hi uint_mul_epsilon [OF small(1)] by (simp add: GL_ORDER_def algebra_simps)
    then have "GL_ORDER dvd uint t0 + uint (hl * EPSILON) - uint x" by simp
    from dvd_add [OF z(2) this] show ?thesis by simp
  qed
  ultimately show ?thesis using gl_eqI by blast
qed

lemma uint_ucast_128: "uint (ucast (x :: u64) :: 128 word) = uint x"
  by (simp add: unsigned_ucast_eq bintr_uint)

lemma product_bound: "uint (x :: u64) * uint (y :: u64) + uint (z :: u64) < 2 ^ 128"
proof -
  have "uint x * uint y \<le> (2 ^ 64 - 1) * (2 ^ 64 - 1)" using uint_u64 [of x] uint_u64 [of y] by (intro mult_mono) simp_all
  then show ?thesis using uint_u64 [of z] by simp
qed

lemma uint_product: "uint (ucast (x :: u64) * ucast (y :: u64) :: 128 word) = uint x * uint y"
  using product_bound [of x y 0] by (subst uint_mult_lem [THEN iffD1]) (simp_all add: uint_ucast_128)

lemma uint_mac: "uint (ucast (s :: u64) + ucast (x :: u64) * ucast (y :: u64) :: 128 word) = uint s + uint x * uint y"
  using product_bound [of x y s] by (simp add: uint_plus_if' uint_product uint_ucast_128)

text \<open>C38: Whatever 64-bit representatives they get, the addition, subtraction, multiplication, multiply-accumulate and negation
  of the code return a word that stands for the sum, difference, product and negative in the field, without a hint to the
  optimiser being false; the canonical form is the residue, and a signed integer is mapped to its residue.\<close>

theorem goldilocks_arithmetic:
  "(\<exists>z. gl_add x y = Some z \<and> gl z = gl x + gl y) \<and> (\<exists>z. gl_sub x y = Some z \<and> gl z = gl x - gl y)
    \<and> (\<exists>z. gl_mul x y = Some z \<and> gl z = gl x * gl y) \<and> (\<exists>z. multiply_accumulate s x y = Some z \<and> gl z = gl s + gl x * gl y)
    \<and> gl (gl_neg x) = - gl x \<and> uint (to_canonical_u64 x) = residue (gl x) \<and> gl (from_noncanonical_i64 n) = of_int (sint n)"
proof -
  have mul: "\<exists>z. gl_mul x y = Some z \<and> gl z = gl x * gl y"
    using reduce128_exact [of "ucast x * ucast y"] by (simp add: gl_mul_def uint_product gl_def del: of_int_uint)
  have mac: "\<exists>z. multiply_accumulate s x y = Some z \<and> gl z = gl s + gl x * gl y"
    using reduce128_exact [of "ucast s + ucast x * ucast y"] by (simp add: multiply_accumulate_def uint_mac gl_def del: of_int_uint)
  have "gl (from_noncanonical_i64 n) = of_int (sint n)"
  proof (rule gl_eqI)
    have "sint n = (if uint n < 2 ^ 63 then uint n else uint n - 2 ^ 64)"
    proof -
      have "signed_take_bit 63 (uint n) = (if uint n < 2 ^ 63 then uint n else uint n - 2 ^ 64)"
      proof (cases "uint n < 2 ^ 63")
        case False
        then have "(uint n + 2 ^ 63) mod 2 ^ 64 = uint n - 2 ^ 63" using uint_u64 [of n] by (intro int_mod_pos_eq [of _ _ 1]) simp_all
        then show ?thesis using False by (simp add: signed_take_bit_eq_take_bit_shift take_bit_eq_mod)
      qed (use uint_u64 [of n] in \<open>simp add: signed_take_bit_eq_take_bit_shift take_bit_eq_mod mod_pos_pos_trivial\<close>)
      then show ?thesis by (simp add: sint_uint)
    qed
    then show "GL_ORDER dvd uint (from_noncanonical_i64 n) - sint n"
      using uint_u64 [of n] by (auto simp: from_noncanonical_i64_def word_sless_alt uint_add_u64 GL_ORDER_def)
  qed
  then show ?thesis using gl_add_exact gl_sub_exact mul mac gl_neg_exact to_canonical_exact by blast
qed

end
