(* ===== verification/Trace_Utils.thy ===== *)
theory Trace_Utils imports Stark_Run Goldilocks "HOL-Library.Signed_Division" begin

unbundle bit_operations_syntax

text \<open>
  The helpers of the trace (circuit/utils/trace_utils.rs): packing of limbs, the encoding of signed integers in the
  field, bits of words and the two-hot encoding of an index.  A field element is its canonical 64-bit value.
\<close>

section \<open>Limbs\<close>

text \<open>A shift of a 64-bit word takes its amount modulo 64.\<close>

definition shl64 :: "u64 \<Rightarrow> nat \<Rightarrow> u64" where "shl64 x n = push_bit (n mod 64) x"
definition shr64 :: "u64 \<Rightarrow> nat \<Rightarrow> u64" where "shr64 x n = drop_bit (n mod 64) x"

primrec u64_unpack_le :: "u64 \<Rightarrow> nat \<Rightarrow> nat \<Rightarrow> u64 list" where
  "u64_unpack_le packed bit_width 0 = []"
| "u64_unpack_le packed bit_width (Suc n) = (packed AND (shl64 1 bit_width - 1)) # u64_unpack_le (shr64 packed bit_width) bit_width n"

definition u64_pack_le :: "u64 list \<Rightarrow> nat \<Rightarrow> u64" where
  "u64_pack_le limbs bit_width = fold (\<lambda>(i, limb) res. res OR shl64 limb (i * bit_width)) (enumerate 0 limbs) 0"

text \<open>Division of two \<open>i64\<close> rounds towards zero; the base is positive at every call.\<close>

definition i64_div :: "64 word \<Rightarrow> 64 word \<Rightarrow> 64 word" where
  "i64_div a b = word_of_int (sint a sdiv sint b)"

primrec i64_unpack_base :: "64 word \<Rightarrow> 64 word \<Rightarrow> nat \<Rightarrow> 64 word list" where
  "i64_unpack_base packed base 0 = []"
| "i64_unpack_base packed base (Suc n) =
     (let half_range = i64_div base 2; rem = word_of_int (sint packed mod sint base);
          limb = (if half_range <s rem then rem - base else rem)
      in limb # i64_unpack_base (i64_div (packed - limb) base) base n)"

definition i64_pack_base :: "64 word list \<Rightarrow> 64 word \<Rightarrow> 64 word" where
  "i64_pack_base limbs base = fold (\<lambda>limb acc. acc * base + limb) (rev limbs) 0"

section \<open>Signed integers in the field\<close>

definition i64_to_u64 :: "64 word \<Rightarrow> u64" where
  "i64_to_u64 i = (if sint i < 0 then FIELD_ORDER - (- i) else i)"

definition field_to_i64 :: "u64 \<Rightarrow> 64 word" where
  "field_to_i64 u = (if u \<le> FIELD_ORDER div 2 then u else - (FIELD_ORDER - u))"

section \<open>Words and bits\<close>

definition bytes_to_words :: "nat \<Rightarrow> bytes \<Rightarrow> u32 list" where
  "bytes_to_words w bs = map (\<lambda>i. u32_from_le (subrange (i * 4) ((i + 1) * 4) bs)) [0..<w]"

primrec u32_bits :: "nat \<Rightarrow> u32 \<Rightarrow> u32 list" where
  "u32_bits 0 v = []"
| "u32_bits (Suc n) v = (v AND 1) # u32_bits n (drop_bit 1 v)"

definition write_u32_as_bits :: "u32 \<Rightarrow> u32 list" where
  "write_u32_as_bits v = u32_bits 32 v"

definition read_bits_as_u32 :: "u32 list \<Rightarrow> u32" where
  "read_bits_as_u32 bits = fold (\<lambda>j val. val OR push_bit j (bits ! j)) [0..<32] 0"

section \<open>Pairs\<close>

text \<open>The index of a pair in the order of its larger component.\<close>

function index_to_pair_from :: "nat \<Rightarrow> nat \<Rightarrow> nat \<times> nat" where
  "index_to_pair_from j idx = (if j < idx then index_to_pair_from (j + 1) (idx - (j + 1)) else (idx, j))"
  by pat_completeness auto
termination by (relation "measure (\<lambda>(j, idx). idx)") auto

declare index_to_pair_from.simps [simp del]

definition index_to_pair :: "nat \<Rightarrow> nat \<times> nat" where
  "index_to_pair idx = index_to_pair_from 0 idx"

definition deg2_muxer_bits :: "nat \<Rightarrow> nat option \<Rightarrow> (anyhow, bool list) res" where
  "deg2_muxer_bits len idx =
     (case idx of
        Some idx \<Rightarrow> (case index_to_pair idx of (i, j) \<Rightarrow>
          if i < len \<and> j < len then Ok ((replicate len False)[i := True, j := True]) else Panic)
      | None \<Rightarrow> Ok (replicate len False))"

section \<open>Round trips\<close>

lemma sint_small: "- (2 ^ 63) \<le> x \<Longrightarrow> x < 2 ^ 63 \<Longrightarrow> sint (word_of_int x :: 64 word) = x"
  by (simp add: signed_of_int signed_take_bit_int_eq_self)

lemma uint_small: "0 \<le> x \<Longrightarrow> x < 2 ^ 64 \<Longrightarrow> uint (word_of_int x :: 64 word) = x"
  by (simp add: unsigned_of_int take_bit_int_eq_self)

lemma i64_field_roundtrip:
  assumes "- (2 ^ 63 - 2 ^ 31) \<le> sint i" "sint i \<le> 2 ^ 63 - 2 ^ 31"
  shows "field_to_i64 (i64_to_u64 i) = i"
proof -
  have half: "uint (FIELD_ORDER div 2) = 2 ^ 63 - 2 ^ 31" by (simp add: FIELD_ORDER_def uint_div)
  have order: "FIELD_ORDER = word_of_int (2 ^ 64 - 2 ^ 32 + 1)" by (simp add: FIELD_ORDER_def)
  have i: "i = word_of_int (sint i)" by simp
  show ?thesis
  proof (cases "sint i < 0")
    case True
    have "FIELD_ORDER - (- i) = word_of_int (2 ^ 64 - 2 ^ 32 + 1 + sint i)"
      unfolding order by (subst i) (simp add: wi_hom_syms)
    moreover have "uint (word_of_int (2 ^ 64 - 2 ^ 32 + 1 + sint i) :: 64 word) = 2 ^ 64 - 2 ^ 32 + 1 + sint i"
      using assms True by (intro uint_small) simp_all
    ultimately have "uint (FIELD_ORDER - (- i)) = 2 ^ 64 - 2 ^ 32 + 1 + sint i" by (simp only:)
    then have "\<not> FIELD_ORDER - (- i) \<le> FIELD_ORDER div 2" using assms(1) by (simp add: word_le_def half)
    then show ?thesis using True by (simp add: i64_to_u64_def field_to_i64_def)
  next
    case False
    have "uint (word_of_int (sint i) :: 64 word) = sint i" using False assms(2) by (intro uint_small) simp_all
    then have "uint i = sint i" by simp
    then have "i \<le> FIELD_ORDER div 2" using assms(2) by (simp add: word_le_def half)
    then show ?thesis using False by (simp add: i64_to_u64_def field_to_i64_def)
  qed
qed

definition limb_value :: "int \<Rightarrow> 64 word list \<Rightarrow> int" where
  "limb_value b limbs = foldr (\<lambda>l acc. acc * b + sint l) limbs 0"

lemma limb_value_simps [simp]: "limb_value b [] = 0" "limb_value b (l # ls) = limb_value b ls * b + sint l"
  by (simp_all add: limb_value_def)

lemma i64_pack_value: "i64_pack_base limbs base = word_of_int (limb_value (sint base) limbs)"
proof (induction limbs)
  case (Cons l ls)
  have "i64_pack_base (l # ls) base = i64_pack_base ls base * base + l" by (simp add: i64_pack_base_def)
  also have "\<dots> = word_of_int (limb_value (sint base) ls) * word_of_int (sint base) + word_of_int (sint l)" by (simp add: Cons)
  also have "\<dots> = word_of_int (limb_value (sint base) (l # ls))" by (simp only: wi_hom_syms limb_value_simps)
  finally show ?case .
qed (simp add: i64_pack_base_def)

lemma limb_value_bound:
  assumes "\<forall>l \<in> set limbs. \<bar>sint l\<bar> \<le> h"
  shows "2 * \<bar>limb_value (2 * h + 1) limbs\<bar> < (2 * h + 1) ^ length limbs"
  using assms
proof (induction limbs)
  case (Cons l ls)
  let ?b = "2 * h + 1"
  have h: "0 \<le> h" using Cons.prems by (meson abs_ge_zero list.set_intros(1) order_trans)
  have IH: "2 * \<bar>limb_value ?b ls\<bar> + 1 \<le> ?b ^ length ls" using Cons by simp
  have "\<bar>limb_value ?b ls * ?b + sint l\<bar> \<le> \<bar>limb_value ?b ls\<bar> * ?b + h"
    using abs_triangle_ineq [of "limb_value ?b ls * ?b" "sint l"] Cons.prems h by (simp add: abs_mult)
  then have "2 * \<bar>limb_value ?b (l # ls)\<bar> + 1 \<le> (2 * \<bar>limb_value ?b ls\<bar> + 1) * ?b"
    by (simp add: algebra_simps)
  also have "\<dots> \<le> ?b ^ length ls * ?b" using IH h by (intro mult_right_mono) simp_all
  finally show ?case by (simp add: mult.commute)
qed simp

lemma i64_unpack_pack:
  assumes "sint base = 2 * h + 1" "1 \<le> h" "\<forall>l \<in> set limbs. \<bar>sint l\<bar> \<le> h" "(2 * h + 1) ^ length limbs \<le> 2 ^ 63"
  shows "i64_unpack_base (i64_pack_base limbs base) base (length limbs) = limbs"
  using assms(3,4)
proof (induction limbs)
  case (Cons l ls)
  let ?b = "2 * h + 1" and ?v = "limb_value (2 * h + 1) ls"
  have val: "sint (i64_pack_base (l # ls) base) = ?v * ?b + sint l"
  proof -
    have "2 * \<bar>limb_value ?b (l # ls)\<bar> < 2 ^ 63" using limb_value_bound [OF Cons.prems(1)] Cons.prems(2) by linarith
    then show ?thesis unfolding i64_pack_value assms(1) by (subst sint_small) auto
  qed
  have "?b ^ length ls * 1 \<le> ?b ^ length ls * ?b" using assms(2) by (intro mult_left_mono) simp_all
  then have fit: "?b ^ length ls \<le> 2 ^ 63" using Cons.prems(2) by (simp add: mult.commute)
  then have small: "2 * \<bar>?v\<bar> < 2 ^ 63" using limb_value_bound [of ls h] Cons.prems(1) by force
  have l: "\<bar>sint l\<bar> \<le> h" using Cons.prems(1) by simp
  have b: "?b < 2 ^ 63" using sint_lt [of base] assms(1) by simp
  have half: "i64_div base 2 = word_of_int h"
    using assms(1,2) by (simp add: i64_div_def signed_divide_int_def)
  define r where "r = (word_of_int ((?v * ?b + sint l) mod ?b) :: 64 word)"
  have m: "(?v * ?b + sint l) mod ?b = (if 0 \<le> sint l then sint l else sint l + ?b)"
  proof -
    have "(?v * ?b + sint l) mod ?b = sint l mod ?b" by simp
    also have "\<dots> = (if 0 \<le> sint l then sint l else sint l + ?b)"
    proof (cases "0 \<le> sint l")
      case False
      have "sint l mod ?b = (sint l + ?b) mod ?b" by simp
      also have "\<dots> = sint l + ?b" using False l by (intro mod_pos_pos_trivial) auto
      finally show ?thesis using False by simp
    qed (use l in \<open>simp add: mod_pos_pos_trivial\<close>)
    finally show ?thesis .
  qed
  have r: "sint r = (if 0 \<le> sint l then sint l else sint l + ?b)"
    unfolding r_def m using l b assms(2) by (subst sint_small) auto
  have h: "sint (word_of_int h :: 64 word) = h" using b assms(2) by (intro sint_small) auto
  have limb: "(if word_of_int h <s r then r - base else r) = l"
  proof (cases "0 \<le> sint l")
    case True
    then have "r = l" using r by (simp add: signed_word_eqI)
    then show ?thesis using True l h by (simp add: word_sless_alt)
  next
    case False
    have "r = l + base" unfolding r_def m using False assms(1) by (simp add: wi_hom_syms [symmetric] flip: assms(1))
    moreover have "word_of_int h <s r" using r False l h by (simp add: word_sless_alt)
    ultimately show ?thesis by simp
  qed
  have "i64_pack_base (l # ls) base - l = word_of_int (?v * ?b)"
    unfolding i64_pack_value assms(1) by (simp add: wi_hom_syms [symmetric])
  moreover have "\<bar>?v * ?b\<bar> < 2 ^ 63"
  proof -
    have "2 * \<bar>?v * ?b + sint l\<bar> < 2 ^ 63" using limb_value_bound [OF Cons.prems(1)] Cons.prems(2) by simp
    moreover define x where "x = ?v * ?b"
    ultimately have "2 * \<bar>x + sint l\<bar> < 2 ^ 63" by simp
    then have "\<bar>x\<bar> < 2 ^ 63" using l b by (auto simp: abs_if split: if_splits)
    then show ?thesis by (simp only: x_def)
  qed
  ultimately have "sint (i64_pack_base (l # ls) base - l) = ?v * ?b" by (simp only:) (rule sint_small, auto)
  moreover have "(?v * ?b) sdiv ?b = ?v"
    using assms(2) by (simp add: signed_divide_int_def abs_mult sgn_mult mult_sgn_abs)
  ultimately have "i64_div (i64_pack_base (l # ls) base - l) base = i64_pack_base ls base"
    unfolding i64_div_def assms(1) i64_pack_value by (simp only:)
  moreover have "i64_unpack_base (i64_pack_base ls base) base (length ls) = ls" using Cons.IH fit Cons.prems(1) by simp
  ultimately show ?case
    unfolding length_Cons i64_unpack_base.simps Let_def val half assms(1) r_def [symmetric] limb by (simp only:)
qed simp

lemma bits_roundtrip: "read_bits_as_u32 (write_u32_as_bits v) = v"
proof -
  have nth: "j < n \<Longrightarrow> u32_bits n w ! j = drop_bit j w AND 1" for j n and w :: u32
  proof (induction n arbitrary: w j)
    case (Suc n)
    then show ?case by (cases j) (simp_all add: drop_bit_drop_bit)
  qed simp
  have bits: "fold (\<lambda>j val. val OR push_bit j (drop_bit j v AND 1)) [0..<n] 0 = take_bit n v" for n
  proof (induction n)
    case (Suc n)
    show ?case using Suc by simp (rule bit_word_eqI, auto simp: bit_simps less_Suc_eq)
  qed simp
  have "read_bits_as_u32 (write_u32_as_bits v) = fold (\<lambda>j val. val OR push_bit j (drop_bit j v AND 1)) [0..<32] 0"
    unfolding read_bits_as_u32_def write_u32_as_bits_def by (intro fold_cong) (auto simp: nth)
  also have "\<dots> = v" unfolding bits by (rule bit_word_eqI) (auto simp: bit_simps)
  finally show ?thesis .
qed

lemma pack_bytes: "length bs = 4 \<Longrightarrow> ucast (u64_pack_le (map ucast bs) 8) = u32_from_le bs"
proof -
  assume "length bs = 4"
  then have "length bs = Suc (Suc (Suc (Suc 0)))" by simp
  then obtain a b c d where bs: "bs = [a, b, c, d]" unfolding length_Suc_conv length_0_conv by blast
  have "ucast (u64_pack_le (map ucast bs) 8) = (ucast a OR push_bit 8 (ucast b) OR push_bit 16 (ucast c) OR push_bit 24 (ucast d) :: u32)"
    by (simp add: bs u64_pack_le_def shl64_def) (rule bit_word_eqI, auto simp: bit_simps)
  also have "\<dots> = ucast a + (push_bit 8 (ucast b) + (push_bit 16 (ucast c) + push_bit 24 (ucast d)))"
    by (subst disjunctive_add, (auto simp: bit_simps dest: bit_imp_le_length)[1])+ simp
  also have "\<dots> = u32_from_le bs"
    by (simp add: bs u32_from_le_def push_bit_eq_mult unsigned_of_nat algebra_simps)
  finally show ?thesis .
qed

section \<open>Pairs are numbered one after the other\<close>

lemma index_to_pair_from_step:
  "i \<le> j + d \<Longrightarrow> index_to_pair_from j (i + sum Suc {j..<j + d}) = (i, j + d)"
proof (induction d arbitrary: j)
  case 0
  then show ?case by (subst index_to_pair_from.simps) simp
next
  case (Suc d)
  have split: "sum Suc {j..<j + Suc d} = Suc j + sum Suc {Suc j..<Suc j + d}"
    by (simp add: sum.atLeast_Suc_lessThan)
  have "index_to_pair_from j (i + sum Suc {j..<j + Suc d}) = index_to_pair_from (Suc j) (i + sum Suc {Suc j..<Suc j + d})"
    unfolding split by (subst index_to_pair_from.simps) simp
  also have "\<dots> = (i, Suc j + d)" using Suc.prems by (intro Suc.IH) simp
  finally show ?case unfolding add_Suc_right add_Suc .
qed

lemma index_to_pair_number: "i \<le> j \<Longrightarrow> index_to_pair (i + j * (j + 1) div 2) = (i, j)"
proof -
  assume "i \<le> j"
  moreover have "sum Suc {0..<j} = j * (j + 1) div 2" by (induction j) simp_all
  ultimately show ?thesis using index_to_pair_from_step [of i 0 j] by (simp add: index_to_pair_def)
qed

end
