(* ===== verification/Air_Eval.thy ===== *)
theory Air_Eval imports Trace_Utils begin

unbundle bit_operations_syntax

text \<open>
  The evaluator of the constraints (circuit/utils/evaluator.rs, air_utils.rs, native_evaluator.rs): the code is generic over the
  values, here any commutative ring, and yields constraints, here a list.
\<close>

section \<open>Constraints\<close>

text \<open>What \<open>ConstraintConsumer\<close> (starky) is told: a value that is to vanish on every row, on every row but the last, on the
  first row or on the last row of the trace.\<close>

datatype 'v constr = Always 'v | Transition 'v | FirstRow 'v | LastRow 'v

fun holds_at :: "nat \<Rightarrow> nat \<Rightarrow> 'v::zero constr \<Rightarrow> bool" where
  "holds_at n i (Always c) \<longleftrightarrow> c = 0"
| "holds_at n i (Transition c) \<longleftrightarrow> Suc i = n \<or> c = 0"
| "holds_at n i (FirstRow c) \<longleftrightarrow> i \<noteq> 0 \<or> c = 0"
| "holds_at n i (LastRow c) \<longleftrightarrow> Suc i \<noteq> n \<or> c = 0"

definition all_hold :: "nat \<Rightarrow> nat \<Rightarrow> 'v::zero constr list \<Rightarrow> bool" where
  "all_hold n i cs \<longleftrightarrow> list_all (holds_at n i) cs"

lemma all_hold_simps [simp]:
  "all_hold n i []" "all_hold n i (c # cs) \<longleftrightarrow> holds_at n i c \<and> all_hold n i cs"
  "all_hold n i (cs @ ds) \<longleftrightarrow> all_hold n i cs \<and> all_hold n i ds"
  "all_hold n i (concat css) \<longleftrightarrow> (\<forall>cs \<in> set css. all_hold n i cs)"
  "all_hold n i (map f xs) \<longleftrightarrow> (\<forall>x \<in> set xs. holds_at n i (f x))"
  by (auto simp: all_hold_def list_all_iff)

section \<open>The evaluator\<close>

definition mad :: "'v::comm_ring_1 \<Rightarrow> 'v \<Rightarrow> 'v \<Rightarrow> 'v" where "mad a b c = a * b + c"
definition msub :: "'v::comm_ring_1 \<Rightarrow> 'v \<Rightarrow> 'v \<Rightarrow> 'v" where "msub a b c = a * b - c"

definition polyval :: "'v::comm_ring_1 list \<Rightarrow> 'v \<Rightarrow> 'v" where
  "polyval coeffs x = (case rev coeffs of [] \<Rightarrow> 0 | c # cs \<Rightarrow> foldl (\<lambda>res c. mad res x c) c cs)"

definition constraint_bool :: "'v::comm_ring_1 \<Rightarrow> 'v constr" where "constraint_bool a = Always (msub a a a)"
definition constraint_eq :: "'v::comm_ring_1 \<Rightarrow> 'v \<Rightarrow> 'v constr" where "constraint_eq a b = Always (a - b)"
definition constraint_eq_if :: "'v::comm_ring_1 \<Rightarrow> 'v \<Rightarrow> 'v \<Rightarrow> 'v constr" where "constraint_eq_if c a b = Always (c * (a - b))"
definition constraint_transition_eq :: "'v::comm_ring_1 \<Rightarrow> 'v \<Rightarrow> 'v constr" where "constraint_transition_eq a b = Transition (a - b)"
definition constraint_first_row_eq :: "'v::comm_ring_1 \<Rightarrow> 'v \<Rightarrow> 'v constr" where "constraint_first_row_eq a b = FirstRow (a - b)"
definition constraint_last_row_eq :: "'v::comm_ring_1 \<Rightarrow> 'v \<Rightarrow> 'v constr" where "constraint_last_row_eq a b = LastRow (a - b)"

definition xor_bit :: "'v::comm_ring_1 \<Rightarrow> 'v \<Rightarrow> 'v" where
  "xor_bit a b = (let ab = a * b; double_ab = ab + ab; apb = a + b in apb - double_ab)"

definition mux :: "'v::comm_ring_1 \<Rightarrow> 'v \<Rightarrow> 'v \<Rightarrow> 'v" where
  "mux choice option0 option1 = mad choice (option1 - option0) option0"

definition inner_product :: "'v::comm_ring_1 list \<Rightarrow> 'v list \<Rightarrow> 'v" where
  "inner_product a b = fold (\<lambda>i res. mad (a ! i) (b ! i) res) [1..<length a] (a ! 0 * b ! 0)"

definition ev_sum :: "'v::comm_ring_1 list \<Rightarrow> 'v" where
  "ev_sum a = foldl (+) (a ! 0 + a ! 1) (drop 2 a)"

fun indicators_from :: "'v::comm_ring_1 list \<Rightarrow> 'v \<Rightarrow> nat \<times> nat \<Rightarrow> nat \<Rightarrow> 'v list" where
  "indicators_from muxer_bits sum_muxer_bits (i, j) 0 = []"
| "indicators_from muxer_bits sum_muxer_bits (i, j) (Suc n) =
     (if i = j then (let is_active = muxer_bits ! i; is_participant = msub is_active 2 sum_muxer_bits
                     in (is_participant * is_active) # indicators_from muxer_bits sum_muxer_bits (0, j + 1) n)
      else (muxer_bits ! i * muxer_bits ! j) # indicators_from muxer_bits sum_muxer_bits (i + 1, j) n)"

text \<open>The range is \<open>start..<start + n\<close>.\<close>

definition degree_2_indicators :: "'v::comm_ring_1 list \<Rightarrow> nat \<Rightarrow> nat \<Rightarrow> 'v list" where
  "degree_2_indicators muxer_bits start n =
     (if n = 0 then [] else indicators_from muxer_bits (ev_sum muxer_bits) (index_to_pair start) n)"

text \<open>\<open>RowView::consume_few\<close>: a slice of a row, which is the function of its column.\<close>

definition cols :: "(nat \<Rightarrow> 'v) \<Rightarrow> nat \<Rightarrow> nat \<Rightarrow> 'v list" where
  "cols row offset num_values = map row [offset..<offset + num_values]"

lemma length_cols [simp]: "length (cols row off n) = n" by (simp add: cols_def)
lemma nth_cols [simp]: "i < n \<Longrightarrow> cols row off n ! i = row (off + i)" by (simp add: cols_def)

section \<open>What the constraints say\<close>

lemma holds_simps [simp]:
  fixes a :: "'v::idom"
  shows "holds_at n i (constraint_bool a) \<longleftrightarrow> a = 0 \<or> a = 1"
    "holds_at n i (constraint_eq a b) \<longleftrightarrow> a = b"
    "holds_at n i (constraint_eq_if c a b) \<longleftrightarrow> c = 0 \<or> a = b"
    "holds_at n i (constraint_transition_eq a b) \<longleftrightarrow> Suc i = n \<or> a = b"
    "holds_at n i (constraint_first_row_eq a b) \<longleftrightarrow> i \<noteq> 0 \<or> a = b"
    "holds_at n i (constraint_last_row_eq a b) \<longleftrightarrow> Suc i \<noteq> n \<or> a = b"
proof -
  have "a * a - a = 0 \<longleftrightarrow> a = 0 \<or> a = 1"
    using mult_cancel_left [of a a 1] by auto
  then show "holds_at n i (constraint_bool a) \<longleftrightarrow> a = 0 \<or> a = 1" by (simp add: constraint_bool_def msub_def)
qed (simp_all add: constraint_eq_def constraint_eq_if_def constraint_transition_eq_def constraint_first_row_eq_def constraint_last_row_eq_def)

lemma polyval_horner: "polyval cs x = horner_sum id x cs"
proof -
  have loop: "foldl (\<lambda>res c. mad res x c) a ds = foldr (\<lambda>c acc. c + x * acc) (rev ds) a" for a ds
    by (induction ds arbitrary: a) (simp_all add: mad_def ac_simps)
  have "polyval cs x = foldr (\<lambda>c acc. c + x * acc) cs 0"
    by (cases cs rule: rev_exhaust) (simp_all add: polyval_def loop)
  then show ?thesis by (simp add: horner_sum_foldr)
qed

lemma polyval_simps [simp]: "polyval [] x = 0" "polyval (c # cs) x = c + x * polyval cs x"
  by (simp_all add: polyval_horner)

lemma xor_bit_bool [simp]: "xor_bit (of_bool p) (of_bool q :: 'v::comm_ring_1) = of_bool (p \<noteq> q)"
  by (simp add: xor_bit_def Let_def)

lemma mux_bool [simp]: "mux (of_bool p) a b = (if p then b else a)"
  by (simp add: mux_def mad_def)

lemma mux_01 [simp]: "mux 0 a b = a" "mux 1 a b = b"
  by (simp_all add: mux_def mad_def)

lemma inner_product_sum: "a \<noteq> [] \<Longrightarrow> inner_product a b = (\<Sum>i<length a. a ! i * b ! i)"
proof -
  have fold: "fold (\<lambda>i res. mad (a ! i) (b ! i) res) xs s = s + (\<Sum>i\<leftarrow>xs. a ! i * b ! i)" for xs s
    by (induction xs arbitrary: s) (simp_all add: mad_def ac_simps)
  assume "a \<noteq> []"
  then obtain n where n: "length a = Suc n" by (cases a) auto
  have "(\<Sum>i\<leftarrow>[1..<Suc n]. f i) = (\<Sum>i<n. f (Suc i))" for f :: "nat \<Rightarrow> 'a"
    by (induction n) simp_all
  then have "(\<Sum>i<length a. a ! i * b ! i) = a ! 0 * b ! 0 + (\<Sum>i\<leftarrow>[1..<Suc n]. a ! i * b ! i)"
    by (simp only: n sum.lessThan_Suc_shift)
  then show ?thesis by (simp add: inner_product_def fold n del: upt_Suc)
qed

section \<open>Words and bits in the field\<close>

text \<open>A word is embedded by \<^const>\<open>unsigned\<close>, and by its list of bits.\<close>

definition bit_list :: "u32 \<Rightarrow> 'v::comm_ring_1 list" where
  "bit_list w = map (\<lambda>i. of_bool (bit w i)) [0..<32]"

lemma length_bit_list [simp]: "length (bit_list w) = 32" by (simp add: bit_list_def)
lemma nth_bit_list [simp]: "i < 32 \<Longrightarrow> bit_list w ! i = of_bool (bit w i)" by (simp add: bit_list_def)

lemma polyval_of_bools: "polyval (map of_bool bs) 2 = (of_nat (horner_sum of_bool 2 bs) :: 'v::comm_ring_1)"
  by (induction bs) simp_all

lemma unat_horner: "unat (w :: 'a::len word) = horner_sum of_bool 2 (map (bit w) [0..<LENGTH('a)])"
proof -
  have "horner_sum of_bool 2 (map (bit (unat w)) [0..<LENGTH('a)]) = unat w"
    by (simp add: horner_sum_bit_eq_take_bit flip: unsigned_take_bit_eq)
  moreover have "map (bit (unat w)) [0..<LENGTH('a)] = map (bit w) [0..<LENGTH('a)]"
    by (simp add: bit_unsigned_iff)
  ultimately show ?thesis by simp
qed

lemma polyval_bit_list [simp]: "polyval (bit_list w) 2 = (unsigned w :: 'v::comm_ring_1)"
proof -
  have "polyval (bit_list w) 2 = polyval (map of_bool (map (bit w) [0..<32])) (2 :: 'v)" by (simp add: bit_list_def comp_def)
  also have "\<dots> = of_nat (unat w)" using unat_horner [of w] by (simp only: polyval_of_bools) simp
  finally show ?thesis by simp
qed

lemma bit_list_exists:
  assumes "length bs = 32" "\<forall>b \<in> set bs. b = 0 \<or> b = (1 :: 'v::comm_ring_1)"
  shows "\<exists>w. bs = bit_list w"
proof
  define w :: u32 where "w = horner_sum of_bool 2 (map (\<lambda>b. b = 1) bs)"
  show "bs = bit_list w"
  proof (rule nth_equalityI)
    fix i assume i: "i < length bs"
    then have "bit w i \<longleftrightarrow> bs ! i = 1" using assms(1) by (simp add: w_def bit_horner_sum_bit_iff)
    then show "bs ! i = bit_list w ! i" using i assms by (auto simp: all_set_conv_all_nth)
  qed (simp add: assms)
qed

lemma unsigned_goldilocks: "(unsigned (w :: 'a::len word) :: goldilocks) = of_int (uint w)" by simp

lemma unsigned_inj_goldilocks: "(unsigned (v :: u32) :: goldilocks) = unsigned w \<longleftrightarrow> v = w"
proof
  assume "(unsigned v :: goldilocks) = unsigned w"
  then have "(of_int (uint v) :: goldilocks) = of_int (uint w)" by simp
  moreover have "uint v < 4294967296" "uint w < 4294967296" using uint_lt2p [of v] uint_lt2p [of w] by simp_all
  then have "\<bar>uint v - uint w\<bar> < GL_ORDER" using uint_ge_0 [of v] uint_ge_0 [of w] unfolding GL_ORDER_def by linarith
  ultimately have "uint v = uint w" by (rule of_int_inj)
  then show "v = w" by (rule word_uint_eqI)
qed simp

end
