(* ===== verification/Pearl_Layout.thy ===== *)
theory Pearl_Layout imports Air_Eval begin

text \<open>
  The columns of the trace and the public inputs (circuit/pearl_layout.rs): \<open>define_layout!\<close> numbers the declared slices
  one after the other, and gives every name the first of its columns.
\<close>

section \<open>The declared lengths\<close>

definition pearl_columns :: "(string \<times> nat) list" where
  "pearl_columns =
     [(''URANGE8_TABLE'', 1), (''URANGE8_FREQ'', 1), (''URANGE13_TABLE'', 1), (''URANGE13_FREQ'', 1),
      (''IRANGE7P1_TABLE'', 1), (''IRANGE7P1_FREQ'', 1), (''IRANGE8_TABLE'', 1), (''IRANGE8_FREQ'', 1),
      (''I8U8_TABLE'', 1), (''I8U8_AUX'', 1), (''I8U8_FREQ'', 1), (''CONTROL_PREP'', 1),
      (''IS_RESET_CUMSUM'', 1), (''IS_UPDATE_CUMSUM'', 1), (''IS_USE_JOB_KEY'', 1), (''IS_USE_COMMITMENT_HASH'', 1),
      (''IS_HASH_A'', 1), (''IS_HASH_B'', 1), (''IS_HASH_JACKPOT'', 1), (''IS_CV_IN'', 1),
      (''IS_NEW_BLAKE'', 1), (''IS_LAST_ROUND'', 1), (''IS_MSG_MAT'', 1), (''IS_MSG_JACKPOT'', 1),
      (''IS_MSG_AUX_DATA'', 1), (''IS_MSG_CV'', 1), (''IS_LOAD'', 1), (''IS_XOR'', 1),
      (''IS_SHIFT3'', 1), (''IS_STORE0'', 1), (''IS_STORE1'', 1), (''IS_STORE2'', 1),
      (''IS_DUMP_CUMSUM_BUFFER'', 1), (''JACKPOT_IDX'', 8), (''MAT_ID_LIMBS'', 2), (''MAT_ID'', 1),
      (''STARK_ROW_IDX'', 1), (''MAT_UNPACK'', 8), (''UINT8_DATA'', 8), (''NOISE_PACKED_PREP'', 1),
      (''NOISE_UNPACK'', 8), (''NOISED_PACKED'', 2), (''MAT_FREQ'', 1), (''BLAKE3_MSG_BUFFER'', 16),
      (''CV_OR_TWEAK_PREP'', 1), (''CV_IN'', 8), (''BLAKE3_MSG'', 16), (''BLAKE3_CV'', 8),
      (''BLAKE3_ROUND'', 1056), (''CV_OUT'', 8), (''CV_OUT_FREQ'', 1), (''AB_ID_PREP'', 1),
      (''AB_ID_LIMBS'', 4), (''A_ID'', 1), (''B_ID'', 1), (''A_NOISED'', 8),
      (''A_NOISED_UNPACK'', 32), (''B_NOISED'', 8), (''B_NOISED_UNPACK'', 32), (''CUMSUM_TILE'', 4),
      (''CUMSUM_BUFFER'', 4), (''JACKPOT_MSG'', 16), (''BIT_REG'', 32)]"

definition pearl_public :: "(string \<times> nat) list" where
  "pearl_public = [(''JOB_KEY'', 8), (''COMMITMENT_HASH'', 8), (''HASH_A'', 8), (''HASH_B'', 8), (''HASH_JACKPOT'', 8)]"

text \<open>The running sum of the macro.\<close>

fun running_starts :: "nat \<Rightarrow> (string \<times> nat) list \<Rightarrow> (string \<times> nat) list" where
  "running_starts acc [] = []"
| "running_starts acc ((name, len) # items) = (name, acc) # running_starts (acc + len) items"

section \<open>The constants\<close>

definition URANGE8_TABLE :: nat where "URANGE8_TABLE = 0"
definition URANGE8_FREQ :: nat where "URANGE8_FREQ = 1"
definition URANGE13_TABLE :: nat where "URANGE13_TABLE = 2"
definition URANGE13_FREQ :: nat where "URANGE13_FREQ = 3"
definition IRANGE7P1_TABLE :: nat where "IRANGE7P1_TABLE = 4"
definition IRANGE7P1_FREQ :: nat where "IRANGE7P1_FREQ = 5"
definition IRANGE8_TABLE :: nat where "IRANGE8_TABLE = 6"
definition IRANGE8_FREQ :: nat where "IRANGE8_FREQ = 7"
definition I8U8_TABLE :: nat where "I8U8_TABLE = 8"
definition I8U8_AUX :: nat where "I8U8_AUX = 9"
definition I8U8_FREQ :: nat where "I8U8_FREQ = 10"
definition CONTROL_PREP :: nat where "CONTROL_PREP = 11"
definition IS_RESET_CUMSUM :: nat where "IS_RESET_CUMSUM = 12"
definition IS_UPDATE_CUMSUM :: nat where "IS_UPDATE_CUMSUM = 13"
definition IS_USE_JOB_KEY :: nat where "IS_USE_JOB_KEY = 14"
definition IS_USE_COMMITMENT_HASH :: nat where "IS_USE_COMMITMENT_HASH = 15"
definition IS_HASH_A :: nat where "IS_HASH_A = 16"
definition IS_HASH_B :: nat where "IS_HASH_B = 17"
definition IS_HASH_JACKPOT :: nat where "IS_HASH_JACKPOT = 18"
definition IS_CV_IN :: nat where "IS_CV_IN = 19"
definition IS_NEW_BLAKE :: nat where "IS_NEW_BLAKE = 20"
definition IS_LAST_ROUND :: nat where "IS_LAST_ROUND = 21"
definition IS_MSG_MAT :: nat where "IS_MSG_MAT = 22"
definition IS_MSG_JACKPOT :: nat where "IS_MSG_JACKPOT = 23"
definition IS_MSG_AUX_DATA :: nat where "IS_MSG_AUX_DATA = 24"
definition IS_MSG_CV :: nat where "IS_MSG_CV = 25"
definition IS_LOAD :: nat where "IS_LOAD = 26"
definition IS_XOR :: nat where "IS_XOR = 27"
definition IS_SHIFT3 :: nat where "IS_SHIFT3 = 28"
definition IS_STORE0 :: nat where "IS_STORE0 = 29"
definition IS_STORE1 :: nat where "IS_STORE1 = 30"
definition IS_STORE2 :: nat where "IS_STORE2 = 31"
definition IS_DUMP_CUMSUM_BUFFER :: nat where "IS_DUMP_CUMSUM_BUFFER = 32"
definition JACKPOT_IDX :: nat where "JACKPOT_IDX = 33"
definition MAT_ID_LIMBS :: nat where "MAT_ID_LIMBS = 41"
definition MAT_ID :: nat where "MAT_ID = 43"
definition STARK_ROW_IDX :: nat where "STARK_ROW_IDX = 44"
definition MAT_UNPACK :: nat where "MAT_UNPACK = 45"
definition UINT8_DATA :: nat where "UINT8_DATA = 53"
definition NOISE_PACKED_PREP :: nat where "NOISE_PACKED_PREP = 61"
definition NOISE_UNPACK :: nat where "NOISE_UNPACK = 62"
definition NOISED_PACKED :: nat where "NOISED_PACKED = 70"
definition MAT_FREQ :: nat where "MAT_FREQ = 72"
definition BLAKE3_MSG_BUFFER :: nat where "BLAKE3_MSG_BUFFER = 73"
definition CV_OR_TWEAK_PREP :: nat where "CV_OR_TWEAK_PREP = 89"
definition CV_IN :: nat where "CV_IN = 90"
definition BLAKE3_MSG :: nat where "BLAKE3_MSG = 98"
definition BLAKE3_CV :: nat where "BLAKE3_CV = 114"
definition BLAKE3_ROUND :: nat where "BLAKE3_ROUND = 122"
definition CV_OUT :: nat where "CV_OUT = 1178"
definition CV_OUT_FREQ :: nat where "CV_OUT_FREQ = 1186"
definition AB_ID_PREP :: nat where "AB_ID_PREP = 1187"
definition AB_ID_LIMBS :: nat where "AB_ID_LIMBS = 1188"
definition A_ID :: nat where "A_ID = 1192"
definition B_ID :: nat where "B_ID = 1193"
definition A_NOISED :: nat where "A_NOISED = 1194"
definition A_NOISED_UNPACK :: nat where "A_NOISED_UNPACK = 1202"
definition B_NOISED :: nat where "B_NOISED = 1234"
definition B_NOISED_UNPACK :: nat where "B_NOISED_UNPACK = 1242"
definition CUMSUM_TILE :: nat where "CUMSUM_TILE = 1274"
definition CUMSUM_BUFFER :: nat where "CUMSUM_BUFFER = 1278"
definition JACKPOT_MSG :: nat where "JACKPOT_MSG = 1282"
definition BIT_REG :: nat where "BIT_REG = 1298"
definition TOTAL :: nat where "TOTAL = 1330"

definition PUB_JOB_KEY :: nat where "PUB_JOB_KEY = 0"
definition PUB_COMMITMENT_HASH :: nat where "PUB_COMMITMENT_HASH = 8"
definition PUB_HASH_A :: nat where "PUB_HASH_A = 16"
definition PUB_HASH_B :: nat where "PUB_HASH_B = 24"
definition PUB_HASH_JACKPOT :: nat where "PUB_HASH_JACKPOT = 32"
definition PUB_TOTAL :: nat where "PUB_TOTAL = 40"

lemmas columns = URANGE8_TABLE_def URANGE8_FREQ_def URANGE13_TABLE_def URANGE13_FREQ_def IRANGE7P1_TABLE_def IRANGE7P1_FREQ_def IRANGE8_TABLE_def IRANGE8_FREQ_def I8U8_TABLE_def I8U8_AUX_def I8U8_FREQ_def CONTROL_PREP_def IS_RESET_CUMSUM_def IS_UPDATE_CUMSUM_def IS_USE_JOB_KEY_def IS_USE_COMMITMENT_HASH_def IS_HASH_A_def IS_HASH_B_def IS_HASH_JACKPOT_def IS_CV_IN_def IS_NEW_BLAKE_def IS_LAST_ROUND_def IS_MSG_MAT_def IS_MSG_JACKPOT_def IS_MSG_AUX_DATA_def IS_MSG_CV_def IS_LOAD_def IS_XOR_def IS_SHIFT3_def IS_STORE0_def IS_STORE1_def IS_STORE2_def IS_DUMP_CUMSUM_BUFFER_def JACKPOT_IDX_def MAT_ID_LIMBS_def MAT_ID_def STARK_ROW_IDX_def MAT_UNPACK_def UINT8_DATA_def NOISE_PACKED_PREP_def NOISE_UNPACK_def NOISED_PACKED_def MAT_FREQ_def BLAKE3_MSG_BUFFER_def CV_OR_TWEAK_PREP_def CV_IN_def BLAKE3_MSG_def BLAKE3_CV_def BLAKE3_ROUND_def CV_OUT_def CV_OUT_FREQ_def AB_ID_PREP_def AB_ID_LIMBS_def A_ID_def B_ID_def A_NOISED_def A_NOISED_UNPACK_def B_NOISED_def B_NOISED_UNPACK_def CUMSUM_TILE_def CUMSUM_BUFFER_def JACKPOT_MSG_def BIT_REG_def

lemmas public_columns = PUB_JOB_KEY_def PUB_COMMITMENT_HASH_def PUB_HASH_A_def PUB_HASH_B_def PUB_HASH_JACKPOT_def

text \<open>They are the sums the macro computes.\<close>

lemma layout_starts:
  "running_starts 0 pearl_columns =
     [(''URANGE8_TABLE'', URANGE8_TABLE), (''URANGE8_FREQ'', URANGE8_FREQ), (''URANGE13_TABLE'', URANGE13_TABLE), (''URANGE13_FREQ'', URANGE13_FREQ),
      (''IRANGE7P1_TABLE'', IRANGE7P1_TABLE), (''IRANGE7P1_FREQ'', IRANGE7P1_FREQ), (''IRANGE8_TABLE'', IRANGE8_TABLE), (''IRANGE8_FREQ'', IRANGE8_FREQ),
      (''I8U8_TABLE'', I8U8_TABLE), (''I8U8_AUX'', I8U8_AUX), (''I8U8_FREQ'', I8U8_FREQ), (''CONTROL_PREP'', CONTROL_PREP),
      (''IS_RESET_CUMSUM'', IS_RESET_CUMSUM), (''IS_UPDATE_CUMSUM'', IS_UPDATE_CUMSUM), (''IS_USE_JOB_KEY'', IS_USE_JOB_KEY), (''IS_USE_COMMITMENT_HASH'', IS_USE_COMMITMENT_HASH),
      (''IS_HASH_A'', IS_HASH_A), (''IS_HASH_B'', IS_HASH_B), (''IS_HASH_JACKPOT'', IS_HASH_JACKPOT), (''IS_CV_IN'', IS_CV_IN),
      (''IS_NEW_BLAKE'', IS_NEW_BLAKE), (''IS_LAST_ROUND'', IS_LAST_ROUND), (''IS_MSG_MAT'', IS_MSG_MAT), (''IS_MSG_JACKPOT'', IS_MSG_JACKPOT),
      (''IS_MSG_AUX_DATA'', IS_MSG_AUX_DATA), (''IS_MSG_CV'', IS_MSG_CV), (''IS_LOAD'', IS_LOAD), (''IS_XOR'', IS_XOR),
      (''IS_SHIFT3'', IS_SHIFT3), (''IS_STORE0'', IS_STORE0), (''IS_STORE1'', IS_STORE1), (''IS_STORE2'', IS_STORE2),
      (''IS_DUMP_CUMSUM_BUFFER'', IS_DUMP_CUMSUM_BUFFER), (''JACKPOT_IDX'', JACKPOT_IDX), (''MAT_ID_LIMBS'', MAT_ID_LIMBS), (''MAT_ID'', MAT_ID),
      (''STARK_ROW_IDX'', STARK_ROW_IDX), (''MAT_UNPACK'', MAT_UNPACK), (''UINT8_DATA'', UINT8_DATA), (''NOISE_PACKED_PREP'', NOISE_PACKED_PREP),
      (''NOISE_UNPACK'', NOISE_UNPACK), (''NOISED_PACKED'', NOISED_PACKED), (''MAT_FREQ'', MAT_FREQ), (''BLAKE3_MSG_BUFFER'', BLAKE3_MSG_BUFFER),
      (''CV_OR_TWEAK_PREP'', CV_OR_TWEAK_PREP), (''CV_IN'', CV_IN), (''BLAKE3_MSG'', BLAKE3_MSG), (''BLAKE3_CV'', BLAKE3_CV),
      (''BLAKE3_ROUND'', BLAKE3_ROUND), (''CV_OUT'', CV_OUT), (''CV_OUT_FREQ'', CV_OUT_FREQ), (''AB_ID_PREP'', AB_ID_PREP),
      (''AB_ID_LIMBS'', AB_ID_LIMBS), (''A_ID'', A_ID), (''B_ID'', B_ID), (''A_NOISED'', A_NOISED),
      (''A_NOISED_UNPACK'', A_NOISED_UNPACK), (''B_NOISED'', B_NOISED), (''B_NOISED_UNPACK'', B_NOISED_UNPACK), (''CUMSUM_TILE'', CUMSUM_TILE),
      (''CUMSUM_BUFFER'', CUMSUM_BUFFER), (''JACKPOT_MSG'', JACKPOT_MSG), (''BIT_REG'', BIT_REG)]"
  by (simp add: pearl_columns_def columns)

lemma public_starts: "running_starts 0 pearl_public = [(''JOB_KEY'', PUB_JOB_KEY), (''COMMITMENT_HASH'', PUB_COMMITMENT_HASH), (''HASH_A'', PUB_HASH_A), (''HASH_B'', PUB_HASH_B), (''HASH_JACKPOT'', PUB_HASH_JACKPOT)]"
  by (simp add: pearl_public_def public_columns)

lemma layout_total: "sum_list (map snd pearl_columns) = TOTAL" "sum_list (map snd pearl_public) = PUB_TOTAL"
  by (simp_all add: pearl_columns_def TOTAL_def pearl_public_def PUB_TOTAL_def)

end
