(* ===== verification/Air_Blake.thy ===== *)
theory Air_Blake imports Pearl_Layout begin

unbundle bit_operations_syntax

text \<open>
  The constraints of a BLAKE3 compression (circuit/chip/blake3/blake3_air.rs), and the round they describe as the trace
  computes it (circuit/chip/blake3/trace.rs).
\<close>

section \<open>The round of the trace\<close>

definition half_quarter_round :: "u32 \<Rightarrow> u32 \<Rightarrow> u32 \<Rightarrow> u32 \<Rightarrow> u32 \<Rightarrow> bool \<Rightarrow> u32 \<times> u32 \<times> u32 \<times> u32" where
  "half_quarter_round a b c d m is_second_half =
     (let (rot_1, rot_2) = (if is_second_half then (8, 7) else (16, 12));
          a = a + b + m; d = word_rotr rot_1 (d XOR a); c = c + d; b = word_rotr rot_2 (b XOR c)
      in (a, b, c, d))"

text \<open>One of the four passes; \<open>sh\<close> is 0 on the columns and 1 on the diagonals.\<close>

definition round_pass_at :: "nat \<Rightarrow> nat \<Rightarrow> bool \<Rightarrow> u32 list \<Rightarrow> nat \<Rightarrow> u32 list \<Rightarrow> u32 list" where
  "round_pass_at sh base flag msg i state =
     (let (a, b, c, d) = half_quarter_round (state ! i) (state ! (4 + (i + sh) mod 4)) (state ! (8 + (i + 2 * sh) mod 4))
            (state ! (12 + (i + 3 * sh) mod 4)) (msg ! (base + 2 * i)) flag
      in state[i := a, 4 + (i + sh) mod 4 := b, 8 + (i + 2 * sh) mod 4 := c, 12 + (i + 3 * sh) mod 4 := d])"

definition round_quarter :: "nat \<Rightarrow> nat \<Rightarrow> bool \<Rightarrow> u32 list \<Rightarrow> u32 list \<Rightarrow> u32 list" where
  "round_quarter sh base flag msg state = fold (round_pass_at sh base flag msg) [0..<4] state"

definition compute_blake3_round :: "u32 list \<Rightarrow> u32 list \<Rightarrow> u32 list list" where
  "compute_blake3_round state msg =
     (let s0 = round_quarter 0 0 False msg state; s1 = round_quarter 0 1 True msg s0;
          s2 = round_quarter 1 8 False msg s1; s3 = round_quarter 1 9 True msg s2
      in [s0, s1, s2, s3])"

section \<open>The constraints\<close>

definition add3_unchecked :: "'v::comm_ring_1 \<Rightarrow> 'v \<Rightarrow> 'v \<Rightarrow> 'v \<Rightarrow> 'v constr" where
  "add3_unchecked res a b c =
     (let sm1 = a + b; sm2 = sm1 + c; c2_32 = 2 ^ 32; diff = sm2 - res; diff_1 = diff - c2_32; diff_2 = diff_1 - c2_32;
          poly1 = diff * diff_1; poly2 = poly1 * diff_2
      in Always poly2)"

definition add2_unchecked :: "'v::comm_ring_1 \<Rightarrow> 'v \<Rightarrow> 'v \<Rightarrow> 'v constr" where
  "add2_unchecked res a b =
     (let sm = a + b; diff = sm - res; c2_32 = 2 ^ 32; diff_1 = diff - c2_32 in Always (diff * diff_1))"

definition xor_32_shift_if :: "'v::comm_ring_1 \<Rightarrow> 'v list \<Rightarrow> 'v list \<Rightarrow> 'v \<Rightarrow> nat \<Rightarrow> 'v constr list" where
  "xor_32_shift_if res a b is_activated shift =
     map constraint_bool b
     @ [constraint_eq_if is_activated res (polyval (map (\<lambda>i. xor_bit (a ! i) (b ! ((i + 32 - shift) mod 32))) [0..<32]) 2)]"

definition xor_32 :: "'v::comm_ring_1 list \<Rightarrow> 'v list \<Rightarrow> 'v" where
  "xor_32 a b = polyval (map (\<lambda>i. xor_bit (a ! i) (b ! i)) [0..<32]) 2"

definition half_g ::
  "'v::comm_ring_1 \<Rightarrow> 'v list \<Rightarrow> 'v \<Rightarrow> 'v list \<Rightarrow> 'v \<Rightarrow> bool \<Rightarrow> 'v \<Rightarrow> 'v list \<Rightarrow> 'v \<Rightarrow> 'v list \<Rightarrow> 'v \<Rightarrow> 'v constr list" where
  "half_g a b c d m flag expected_a expected_b expected_c expected_d is_activated =
     (let (rot_1, rot_2) = (if flag then (8, 7) else (16, 12)); b_packed = polyval b 2; expected_d_packed = polyval expected_d 2
      in [add3_unchecked expected_a a b_packed m] @ xor_32_shift_if expected_a d expected_d is_activated rot_1
         @ [add2_unchecked expected_c c expected_d_packed] @ xor_32_shift_if expected_c b expected_b is_activated rot_2)"

record 'v blake3_state =
  row1 :: "'v list"
  row2 :: "'v list list"
  row3 :: "'v list"
  row4 :: "'v list list"

definition consume_blake3_state :: "(nat \<Rightarrow> 'v) \<Rightarrow> nat \<Rightarrow> 'v blake3_state" where
  "consume_blake3_state row offset =
     \<lparr>row1 = cols row offset 4, row2 = map (\<lambda>i. cols row (offset + 4 + 32 * i) 32) [0..<4],
      row3 = cols row (offset + 132) 4, row4 = map (\<lambda>i. cols row (offset + 136 + 32 * i) 32) [0..<4]\<rparr>"

definition BLAKE3_STATE_SIZE :: nat where "BLAKE3_STATE_SIZE = 4 + 128 + 4 + 128"

definition verify_round :: "'v::comm_ring_1 blake3_state list \<Rightarrow> 'v list \<Rightarrow> 'v \<Rightarrow> 'v constr list" where
  "verify_round states msg is_activated =
     concat (map (\<lambda>i. half_g (row1 (states ! 0) ! i) (row2 (states ! 0) ! i) (row3 (states ! 0) ! i) (row4 (states ! 0) ! i)
       (msg ! (2 * i)) False
       (row1 (states ! 1) ! i) (row2 (states ! 1) ! i) (row3 (states ! 1) ! i) (row4 (states ! 1) ! i) is_activated) [0..<4])
     @ concat (map (\<lambda>i. half_g (row1 (states ! 1) ! i) (row2 (states ! 1) ! i) (row3 (states ! 1) ! i) (row4 (states ! 1) ! i)
       (msg ! (2 * i + 1)) True
       (row1 (states ! 2) ! i) (row2 (states ! 2) ! i) (row3 (states ! 2) ! i) (row4 (states ! 2) ! i) is_activated) [0..<4])
     @ concat (map (\<lambda>i. half_g (row1 (states ! 2) ! i) (row2 (states ! 2) ! ((i + 1) mod 4)) (row3 (states ! 2) ! ((i + 2) mod 4))
       (row4 (states ! 2) ! ((i + 3) mod 4)) (msg ! (8 + 2 * i)) False
       (row1 (states ! 3) ! i) (row2 (states ! 3) ! ((i + 1) mod 4)) (row3 (states ! 3) ! ((i + 2) mod 4))
       (row4 (states ! 3) ! ((i + 3) mod 4)) is_activated) [0..<4])
     @ concat (map (\<lambda>i. half_g (row1 (states ! 3) ! i) (row2 (states ! 3) ! ((i + 1) mod 4)) (row3 (states ! 3) ! ((i + 2) mod 4))
       (row4 (states ! 3) ! ((i + 3) mod 4)) (msg ! (8 + 2 * i + 1)) True
       (row1 (states ! 4) ! i) (row2 (states ! 4) ! ((i + 1) mod 4)) (row3 (states ! 4) ! ((i + 2) mod 4))
       (row4 (states ! 4) ! ((i + 3) mod 4)) is_activated) [0..<4])"

definition finalize_blake :: "'v::comm_ring_1 blake3_state list \<Rightarrow> 'v \<Rightarrow> 'v constr list \<times> 'v list" where
  "finalize_blake states is_activated =
     (map (\<lambda>i. constraint_eq_if is_activated (row1 (states ! 0) ! i) (polyval (row2 (states ! 1) ! i) 2)) [0..<4]
      @ map (\<lambda>i. constraint_eq_if is_activated (row3 (states ! 0) ! i) (polyval (row4 (states ! 1) ! i) 2)) [0..<4],
      let row1_xor_row3 = map (\<lambda>i. xor_32 (row2 (states ! 1) ! i) (row4 (states ! 1) ! i)) [0..<4];
          row2_xor_row4 = map (\<lambda>i. xor_32 (row2 (states ! 0) ! i) (row4 (states ! 0) ! i)) [0..<4]
      in map (\<lambda>i. if i < 4 then row1_xor_row3 ! i else row2_xor_row4 ! (i - 4)) [0..<8])"

definition verify_init_state :: "'v::comm_ring_1 blake3_state \<Rightarrow> 'v \<Rightarrow> 'v list \<Rightarrow> 'v \<Rightarrow> 'v constr list" where
  "verify_init_state init_state is_new_blake cv blake3_tweak =
     (let active_bits = row4 init_state ! 0 @ take 16 (row4 init_state ! 1) @ take 8 (row4 init_state ! 3) @ take 7 (row4 init_state ! 2);
          zero_bits = drop 16 (row4 init_state ! 1) @ drop 7 (row4 init_state ! 2) @ drop 8 (row4 init_state ! 3)
      in concat (map (\<lambda>i. [constraint_eq_if is_new_blake (row1 init_state ! i) (cv ! i),
                           constraint_eq_if is_new_blake (row3 init_state ! i) (of_nat (unat (BLAKE3_IV ! i)))]) [0..<4])
         @ map (\<lambda>i. constraint_eq_if is_new_blake (polyval (row2 init_state ! i) 2) (cv ! (i + 4))) [0..<4]
         @ [constraint_eq_if is_new_blake (polyval active_bits 2) blake3_tweak]
         @ map (\<lambda>b. Always (is_new_blake * b)) zero_bits)"

definition blake3_eval_transition_constraints ::
  "(nat \<Rightarrow> 'v::comm_ring_1) \<Rightarrow> nat \<Rightarrow> 'v list \<Rightarrow> (nat \<Rightarrow> 'v) \<Rightarrow> 'v \<Rightarrow> 'v constr list \<times> 'v list \<times> 'v blake3_state" where
  "blake3_eval_transition_constraints row offset msg next_row next_is_new_blake =
     (let init_state = consume_blake3_state row offset; next_init_state = consume_blake3_state next_row offset;
          states = [init_state, consume_blake3_state row (offset + BLAKE3_STATE_SIZE),
            consume_blake3_state row (offset + 2 * BLAKE3_STATE_SIZE), consume_blake3_state row (offset + 3 * BLAKE3_STATE_SIZE), next_init_state];
          next_is_same_blake = 1 - next_is_new_blake;
          (final, blake3_output) = finalize_blake states next_is_new_blake
      in (verify_round states msg next_is_same_blake @ final, blake3_output, init_state))"

section \<open>A half quarter round is what its constraints say\<close>

lemma field_small:
  assumes "(of_int j :: goldilocks) = of_int k" "- (2 ^ 40) \<le> j" "j \<le> 2 ^ 40" "- (2 ^ 40) \<le> k" "k \<le> 2 ^ 40"
  shows "j = k"
  by (rule of_int_inj [OF assms(1)]) (use assms(2-) in \<open>simp add: GL_ORDER_def\<close>)

lemma uint_u32: "0 \<le> uint w" "uint (w :: u32) < 4294967296" using uint_lt2p [of w] by simp_all

lemma add3_sound:
  assumes "holds_at n r (add3_unchecked (unsigned res) (unsigned a) (unsigned b) (unsigned c :: goldilocks))"
  shows "res = a + b + (c :: u32)"
proof -
  let ?d = "uint a + uint b + uint c - uint res"
  note bounds = uint_u32 [of a] uint_u32 [of b] uint_u32 [of c] uint_u32 [of res]
  define D :: goldilocks where "D = unsigned a + unsigned b + unsigned c - unsigned res"
  have "D * (D - 2 ^ 32) * (D - 2 ^ 32 - 2 ^ 32) = 0" using assms unfolding add3_unchecked_def Let_def holds_at.simps D_def .
  then have "D = 0 \<or> D = 2 ^ 32 \<or> D = 2 ^ 33" by (auto simp: diff_eq_eq)
  then have "(of_int ?d :: goldilocks) = 0 \<or> (of_int ?d :: goldilocks) = of_int (2 ^ 32) \<or> (of_int ?d :: goldilocks) = of_int (2 ^ 33)"
  proof -
    have d: "of_int ?d = D" by (simp add: D_def)
    assume "D = 0 \<or> D = 2 ^ 32 \<or> D = 2 ^ 33"
    then show ?thesis unfolding d by simp
  qed
  then have "?d = 0 \<or> ?d = 2 ^ 32 \<or> ?d = 2 ^ 33"
  proof (elim disjE)
    assume "(of_int ?d :: goldilocks) = 0"
    then have "(of_int ?d :: goldilocks) = of_int 0" by simp
    from field_small [OF this] bounds show ?thesis by simp
  next
    assume "(of_int ?d :: goldilocks) = of_int (2 ^ 32)"
    from field_small [OF this] bounds show ?thesis by simp
  next
    assume "(of_int ?d :: goldilocks) = of_int (2 ^ 33)"
    from field_small [OF this] bounds show ?thesis by simp
  qed
  then obtain q where "uint a + uint b + uint c = uint res + 2 ^ 32 * q"
  proof (elim disjE)
    assume "?d = 0" then show ?thesis by (intro that [of 0]) simp
  next
    assume "?d = 2 ^ 32" then show ?thesis by (intro that [of 1]) simp
  next
    assume "?d = 2 ^ 33" then show ?thesis by (intro that [of 2]) simp
  qed
  then have "uint res = (uint a + uint b + uint c) mod 2 ^ 32" using uint_u32 [of res] by simp
  then show ?thesis by (intro word_uint_eqI) (simp add: uint_word_ariths mod_simps)
qed

lemma add2_sound:
  assumes "holds_at n r (add2_unchecked (unsigned res) (unsigned a) (unsigned b :: goldilocks))"
  shows "res = a + (b :: u32)"
proof -
  let ?d = "uint a + uint b - uint res"
  note bounds = uint_u32 [of a] uint_u32 [of b] uint_u32 [of res]
  define D :: goldilocks where "D = unsigned a + unsigned b - unsigned res"
  have "D * (D - 2 ^ 32) = 0" using assms by (simp add: add2_unchecked_def Let_def D_def)
  then have "D = 0 \<or> D = 2 ^ 32" by (auto simp: diff_eq_eq)
  then have "(of_int ?d :: goldilocks) = of_int 0 \<or> (of_int ?d :: goldilocks) = of_int (2 ^ 32)" by (simp add: D_def)
  then have "?d = 0 \<or> ?d = 2 ^ 32"
  proof
    assume "(of_int ?d :: goldilocks) = of_int 0"
    from field_small [OF this] bounds show ?thesis by simp
  next
    assume "(of_int ?d :: goldilocks) = of_int (2 ^ 32)"
    from field_small [OF this] bounds show ?thesis by simp
  qed
  then have "uint res = (uint a + uint b) mod 2 ^ 32"
    using uint_u32 [of res] by (elim disjE) (simp_all add: algebra_simps)
  then show ?thesis by (intro word_uint_eqI) (simp add: uint_word_ariths)
qed

lemma xor_bits: "xor_32 (bit_list v) (bit_list w) = (unsigned (v XOR w) :: 'v::comm_ring_1)"
proof -
  have "map (\<lambda>i. xor_bit (bit_list v ! i) (bit_list w ! i)) [0..<32] = (bit_list (v XOR w) :: 'v list)"
    by (simp add: bit_list_def bit_xor_iff)
  then show ?thesis by (simp add: xor_32_def)
qed

lemma xor_shift_sound:
  assumes "all_hold n r (xor_32_shift_if res (bit_list a) b act s)" "act \<noteq> 0" "length b = 32" "s < 32"
  shows "\<exists>w. b = bit_list w \<and> res = (unsigned (a XOR word_rotl s w) :: goldilocks)"
proof -
  obtain w where w: "b = bit_list w"
    using bit_list_exists [OF assms(3)] assms(1) by (auto simp: xor_32_shift_if_def)
  have "xor_bit (bit_list a ! i) (bit_list w ! ((i + 32 - s) mod 32)) = (of_bool (bit (a XOR word_rotl s w) i) :: goldilocks)" if "i < 32" for i
    using that assms(4) by (simp add: bit_xor_iff bit_word_rotl_iff)
  then have "map (\<lambda>i. xor_bit (bit_list a ! i) (bit_list w ! ((i + 32 - s) mod 32))) [0..<32] = (bit_list (a XOR word_rotl s w) :: goldilocks list)"
    by (simp add: bit_list_def)
  then have "res = unsigned (a XOR word_rotl s w)"
    using assms(1,2) by (simp add: xor_32_shift_if_def w)
  then show ?thesis using w by blast
qed

lemma rotate_back: "res = a XOR word_rotl s w \<Longrightarrow> w = word_rotr s (a XOR res)"
  by (simp add: xor.assoc [symmetric])

lemma half_g_sound:
  assumes hold: "all_hold n r (half_g (unsigned a) (bit_list b) (unsigned c) (bit_list d) (unsigned m) flag ea eb ec ed act)"
    and "act \<noteq> (0 :: goldilocks)" "length eb = 32" "length ed = 32" and q: "half_quarter_round a b c d m flag = (a', b', c', d')"
  shows "ea = unsigned a' \<and> eb = bit_list b' \<and> ec = unsigned c' \<and> ed = bit_list d'"
proof -
  obtain r1 r2 :: nat where rot: "(if flag then (8, 7) else (16, 12)) = (r1, r2)" "r1 < 32" "r2 < 32" by (cases flag) auto
  have parts: "holds_at n r (add3_unchecked ea (unsigned a) (unsigned b) (unsigned m))"
    "all_hold n r (xor_32_shift_if ea (bit_list d) ed act r1)"
    "holds_at n r (add2_unchecked ec (unsigned c) (polyval ed 2))" "all_hold n r (xor_32_shift_if ec (bit_list b) eb act r2)"
    using hold rot by (simp_all add: half_g_def Let_def)
  obtain w where w: "ed = bit_list w" "ea = unsigned (d XOR word_rotl r1 w)" using xor_shift_sound [OF parts(2) assms(2,4) rot(2)] by blast
  have a': "d XOR word_rotl r1 w = a + b + m" using add3_sound parts(1) unfolding w(2) by blast
  then have d': "w = word_rotr r1 (d XOR (a + b + m))" using rotate_back by metis
  obtain v where v: "eb = bit_list v" "ec = unsigned (b XOR word_rotl r2 v)" using xor_shift_sound [OF parts(4) assms(2,3) rot(3)] by blast
  have c': "b XOR word_rotl r2 v = c + w" using add2_sound parts(3) unfolding v(2) w(1) polyval_bit_list by blast
  then have b': "v = word_rotr r2 (b XOR (c + w))" using rotate_back by metis
  show ?thesis
    using q unfolding half_quarter_round_def rot(1) Let_def prod.case
    unfolding w v a' c' by (auto simp flip: b' d')
qed

section \<open>A round is what its constraints say\<close>

definition encodes :: "u32 list \<Rightarrow> 'v::comm_ring_1 blake3_state \<Rightarrow> bool" where
  "encodes s st \<longleftrightarrow> (\<forall>i<4. row1 st ! i = unsigned (s ! i) \<and> row2 st ! i = bit_list (s ! (4 + i))
     \<and> row3 st ! i = unsigned (s ! (8 + i)) \<and> row4 st ! i = bit_list (s ! (12 + i)))"

definition bits_wide :: "'v blake3_state \<Rightarrow> bool" where
  "bits_wide st \<longleftrightarrow> (\<forall>i<4. length (row2 st ! i) = 32 \<and> length (row4 st ! i) = 32)"

lemma all_less_4: "(\<forall>i<4. P i) \<longleftrightarrow> P 0 \<and> P 1 \<and> P 2 \<and> P (3 :: nat)"
  by (auto simp: numeral_eq_Suc less_Suc_eq)

lemma upt_4: "[0..<4] = [0, 1, 2, 3 :: nat]" by (simp add: upt_rec)

definition quarter_constraints ::
  "nat \<Rightarrow> 'v::comm_ring_1 blake3_state \<Rightarrow> 'v blake3_state \<Rightarrow> 'v list \<Rightarrow> nat \<Rightarrow> bool \<Rightarrow> 'v \<Rightarrow> nat \<Rightarrow> 'v constr list" where
  "quarter_constraints sh st st' msg base flag act i =
     half_g (row1 st ! i) (row2 st ! ((i + sh) mod 4)) (row3 st ! ((i + 2 * sh) mod 4)) (row4 st ! ((i + 3 * sh) mod 4))
       (msg ! (base + 2 * i)) flag
       (row1 st' ! i) (row2 st' ! ((i + sh) mod 4)) (row3 st' ! ((i + 2 * sh) mod 4)) (row4 st' ! ((i + 3 * sh) mod 4)) act"

lemma round_pass_at_length [simp]: "length (round_pass_at sh base flag m i s) = length s"
  by (simp add: round_pass_at_def half_quarter_round_def Let_def)

lemma quarter_sound:
  assumes enc: "encodes s st" and wide: "bits_wide st'" and s: "length s = 16" and sh: "sh = 0 \<or> sh = 1"
    and msg: "\<forall>i<4. msg ! (base + 2 * i) = unsigned (m ! (base + 2 * i) :: u32)" and act: "act \<noteq> (0 :: goldilocks)"
    and hold: "\<forall>i<4. all_hold n r (quarter_constraints sh st st' msg base flag act i)"
  shows "encodes (round_quarter sh base flag m s) st' \<and> length (round_quarter sh base flag m s) = 16"
proof -
  define q where "q = (\<lambda>i. half_quarter_round (s ! i) (s ! (4 + (i + sh) mod 4)) (s ! (8 + (i + 2 * sh) mod 4)) (s ! (12 + (i + 3 * sh) mod 4))
    (m ! (base + 2 * i)) flag)"
  have one: "row1 st' ! i = unsigned a \<and> row2 st' ! ((i + sh) mod 4) = bit_list b \<and> row3 st' ! ((i + 2 * sh) mod 4) = unsigned c
      \<and> row4 st' ! ((i + 3 * sh) mod 4) = bit_list d" if "i < 4" "q i = (a, b, c, d)" for i a b c d
  proof (rule half_g_sound [OF _ act])
    show "all_hold n r (half_g (unsigned (s ! i)) (bit_list (s ! (4 + (i + sh) mod 4))) (unsigned (s ! (8 + (i + 2 * sh) mod 4)))
        (bit_list (s ! (12 + (i + 3 * sh) mod 4))) (unsigned (m ! (base + 2 * i))) flag
        (row1 st' ! i) (row2 st' ! ((i + sh) mod 4)) (row3 st' ! ((i + 2 * sh) mod 4)) (row4 st' ! ((i + 3 * sh) mod 4)) act)"
      using hold msg enc that(1) by (simp add: quarter_constraints_def encodes_def)
    show "half_quarter_round (s ! i) (s ! (4 + (i + sh) mod 4)) (s ! (8 + (i + 2 * sh) mod 4)) (s ! (12 + (i + 3 * sh) mod 4))
        (m ! (base + 2 * i)) flag = (a, b, c, d)" using that(2) by (simp add: q_def)
  qed (use wide in \<open>simp_all add: bits_wide_def\<close>)
  obtain a0 b0 c0 d0 where q0: "q 0 = (a0, b0, c0, d0)" by (cases "q 0")
  obtain a1 b1 c1 d1 where q1: "q 1 = (a1, b1, c1, d1)" by (cases "q 1")
  obtain a2 b2 c2 d2 where q2: "q 2 = (a2, b2, c2, d2)" by (cases "q 2")
  obtain a3 b3 c3 d3 where q3: "q 3 = (a3, b3, c3, d3)" by (cases "q 3")
  note cells = one [OF _ q0] one [OF _ q1] one [OF _ q2] one [OF _ q3]
  show ?thesis
    using s sh
  proof (elim list_16 disjE)
    fix x0 x1 x2 x3 x4 x5 x6 x7 x8 x9 x10 x11 x12 x13 x14 x15
    assume s: "s = [x0, x1, x2, x3, x4, x5, x6, x7, x8, x9, x10, x11, x12, x13, x14, x15]" and "sh = 0"
    then have "round_quarter sh base flag m s = [a0, a1, a2, a3, b0, b1, b2, b3, c0, c1, c2, c3, d0, d1, d2, d3]"
      using q0 q1 q2 q3 by (simp add: round_quarter_def upt_4 round_pass_at_def q_def)
    then show ?thesis using cells unfolding \<open>sh = 0\<close> by (simp add: encodes_def all_less_4)
  next
    fix x0 x1 x2 x3 x4 x5 x6 x7 x8 x9 x10 x11 x12 x13 x14 x15
    assume s: "s = [x0, x1, x2, x3, x4, x5, x6, x7, x8, x9, x10, x11, x12, x13, x14, x15]" and "sh = 1"
    then have "round_quarter sh base flag m s = [a0, a1, a2, a3, b3, b0, b1, b2, c2, c3, c0, c1, d1, d2, d3, d0]"
      using q0 q1 q2 q3 by (simp add: round_quarter_def upt_4 round_pass_at_def q_def)
    then show ?thesis using cells unfolding \<open>sh = 1\<close> by (simp del: One_nat_def add: encodes_def all_less_4) (simp add: numeral_2_eq_2)
  qed
qed

lemma round_sound:
  assumes enc: "encodes s (states ! 0)" and s: "length s = 16" and wide: "\<forall>k<4. bits_wide (states ! Suc k)"
    and msg: "\<forall>i<16. msg ! i = unsigned (m ! i :: u32)" and act: "act \<noteq> (0 :: goldilocks)"
    and hold: "all_hold n r (verify_round states msg act)"
  shows "encodes (compute_blake3_round s m ! 3) (states ! 4) \<and> length (compute_blake3_round s m ! 3) = 16"
proof -
  have q: "\<forall>i<4. all_hold n r (quarter_constraints 0 (states ! 0) (states ! 1) msg 0 False act i)"
    "\<forall>i<4. all_hold n r (quarter_constraints 0 (states ! 1) (states ! 2) msg 1 True act i)"
    "\<forall>i<4. all_hold n r (quarter_constraints 1 (states ! 2) (states ! 3) msg 8 False act i)"
    "\<forall>i<4. all_hold n r (quarter_constraints 1 (states ! 3) (states ! 4) msg 9 True act i)"
    using hold by (simp_all add: verify_round_def quarter_constraints_def add.commute)
  have w: "bits_wide (states ! 1)" "bits_wide (states ! 2)" "bits_wide (states ! 3)" "bits_wide (states ! 4)"
    using wide by (simp_all add: all_less_4 numeral_eq_Suc)
  have m: "\<forall>i<4. msg ! (k + 2 * i) = unsigned (m ! (k + 2 * i))" if "k \<in> {0, 1, 8, 9}" for k
    using msg that by auto
  note quarter = quarter_sound [OF _ _ _ _ m act]
  have 0: "encodes (round_quarter 0 0 False m s) (states ! 1) \<and> length (round_quarter 0 0 False m s) = 16"
    by (rule quarter [OF enc w(1) s _ _ q(1)]) simp_all
  define s0 where "s0 = round_quarter 0 0 False m s"
  have 1: "encodes (round_quarter 0 1 True m s0) (states ! 2) \<and> length (round_quarter 0 1 True m s0) = 16"
    by (rule quarter [OF _ w(2) _ _ _ q(2)]) (use 0 in \<open>simp_all add: s0_def\<close>)
  define s1 where "s1 = round_quarter 0 1 True m s0"
  have 2: "encodes (round_quarter 1 8 False m s1) (states ! 3) \<and> length (round_quarter 1 8 False m s1) = 16"
    by (rule quarter [OF _ w(3) _ _ _ q(3)]) (use 1 in \<open>simp_all add: s1_def\<close>)
  define s2 where "s2 = round_quarter 1 8 False m s1"
  have 3: "encodes (round_quarter 1 9 True m s2) (states ! 4) \<and> length (round_quarter 1 9 True m s2) = 16"
    by (rule quarter [OF _ w(4) _ _ _ q(4)]) (use 2 in \<open>simp_all add: s2_def\<close>)
  show ?thesis using 3 by (simp add: compute_blake3_round_def Let_def s2_def s1_def s0_def numeral_3_eq_3)
qed

text \<open>The four passes are the eight mixings of the compression function.\<close>

lemma g_mix_halves:
  assumes "distinct [i1, i2, i3, i4]" "i1 < length s" "i2 < length s" "i3 < length s" "i4 < length s"
    and "half_quarter_round (s ! i1) (s ! i2) (s ! i3) (s ! i4) mx False = (a, b, c, d)" "half_quarter_round a b c d my True = (a', b', c', d')"
  shows "g_mix i1 i2 i3 i4 mx my s = s[i1 := a', i2 := b', i3 := c', i4 := d']"
proof -
  have "a = s ! i1 + s ! i2 + mx" "d = word_rotr 16 (s ! i4 XOR a)" "c = s ! i3 + d" "b = word_rotr 12 (s ! i2 XOR c)"
    "a' = a + b + my" "d' = word_rotr 8 (d XOR a')" "c' = c + d'" "b' = word_rotr 7 (b XOR c')"
    using assms(6,7) by (auto simp: half_quarter_round_def Let_def)
  then show ?thesis
    using assms(1-5) by (auto simp: g_mix_def Let_def nth_list_update intro!: nth_equalityI)
qed

lemma compute_blake3_round_is: 
  assumes "length s = 16"
  shows "compute_blake3_round s m ! 3 = blake_round m [0..<16] s"
  using assms
proof (elim list_16)
  fix x0 x1 x2 x3 x4 x5 x6 x7 x8 x9 x10 x11 x12 x13 x14 x15
  assume s: "s = [x0, x1, x2, x3, x4, x5, x6, x7, x8, x9, x10, x11, x12, x13, x14, x15]"
  have upt: "[0..<16] = [0, 1, 2, 3, 4, 5, 6, 7, 8, 9, 10, 11, 12, 13, 14, 15 :: nat]" by (simp add: upt_rec)
  obtain ap0 bp0 cp0 dp0 where hp0: "half_quarter_round x0 x4 x8 x12 (m ! 0) False = (ap0, bp0, cp0, dp0)" by (cases "half_quarter_round x0 x4 x8 x12 (m ! 0) False")
  obtain ap1 bp1 cp1 dp1 where hp1: "half_quarter_round x1 x5 x9 x13 (m ! 2) False = (ap1, bp1, cp1, dp1)" by (cases "half_quarter_round x1 x5 x9 x13 (m ! 2) False")
  obtain ap2 bp2 cp2 dp2 where hp2: "half_quarter_round x2 x6 x10 x14 (m ! 4) False = (ap2, bp2, cp2, dp2)" by (cases "half_quarter_round x2 x6 x10 x14 (m ! 4) False")
  obtain ap3 bp3 cp3 dp3 where hp3: "half_quarter_round x3 x7 x11 x15 (m ! 6) False = (ap3, bp3, cp3, dp3)" by (cases "half_quarter_round x3 x7 x11 x15 (m ! 6) False")
  obtain aq0 bq0 cq0 dq0 where hq0: "half_quarter_round ap0 bp0 cp0 dp0 (m ! 1) True = (aq0, bq0, cq0, dq0)" by (cases "half_quarter_round ap0 bp0 cp0 dp0 (m ! 1) True")
  obtain aq1 bq1 cq1 dq1 where hq1: "half_quarter_round ap1 bp1 cp1 dp1 (m ! 3) True = (aq1, bq1, cq1, dq1)" by (cases "half_quarter_round ap1 bp1 cp1 dp1 (m ! 3) True")
  obtain aq2 bq2 cq2 dq2 where hq2: "half_quarter_round ap2 bp2 cp2 dp2 (m ! 5) True = (aq2, bq2, cq2, dq2)" by (cases "half_quarter_round ap2 bp2 cp2 dp2 (m ! 5) True")
  obtain aq3 bq3 cq3 dq3 where hq3: "half_quarter_round ap3 bp3 cp3 dp3 (m ! 7) True = (aq3, bq3, cq3, dq3)" by (cases "half_quarter_round ap3 bp3 cp3 dp3 (m ! 7) True")
  obtain ar0 br0 cr0 dr0 where hr0: "half_quarter_round aq0 bq1 cq2 dq3 (m ! 8) False = (ar0, br0, cr0, dr0)" by (cases "half_quarter_round aq0 bq1 cq2 dq3 (m ! 8) False")
  obtain ar1 br1 cr1 dr1 where hr1: "half_quarter_round aq1 bq2 cq3 dq0 (m ! 10) False = (ar1, br1, cr1, dr1)" by (cases "half_quarter_round aq1 bq2 cq3 dq0 (m ! 10) False")
  obtain ar2 br2 cr2 dr2 where hr2: "half_quarter_round aq2 bq3 cq0 dq1 (m ! 12) False = (ar2, br2, cr2, dr2)" by (cases "half_quarter_round aq2 bq3 cq0 dq1 (m ! 12) False")
  obtain ar3 br3 cr3 dr3 where hr3: "half_quarter_round aq3 bq0 cq1 dq2 (m ! 14) False = (ar3, br3, cr3, dr3)" by (cases "half_quarter_round aq3 bq0 cq1 dq2 (m ! 14) False")
  obtain as0 bs0 cs0 ds0 where hs0: "half_quarter_round ar0 br0 cr0 dr0 (m ! 9) True = (as0, bs0, cs0, ds0)" by (cases "half_quarter_round ar0 br0 cr0 dr0 (m ! 9) True")
  obtain as1 bs1 cs1 ds1 where hs1: "half_quarter_round ar1 br1 cr1 dr1 (m ! 11) True = (as1, bs1, cs1, ds1)" by (cases "half_quarter_round ar1 br1 cr1 dr1 (m ! 11) True")
  obtain as2 bs2 cs2 ds2 where hs2: "half_quarter_round ar2 br2 cr2 dr2 (m ! 13) True = (as2, bs2, cs2, ds2)" by (cases "half_quarter_round ar2 br2 cr2 dr2 (m ! 13) True")
  obtain as3 bs3 cs3 ds3 where hs3: "half_quarter_round ar3 br3 cr3 dr3 (m ! 15) True = (as3, bs3, cs3, ds3)" by (cases "half_quarter_round ar3 br3 cr3 dr3 (m ! 15) True")
  have 0: "round_quarter 0 0 False m s = [ap0, ap1, ap2, ap3, bp0, bp1, bp2, bp3, cp0, cp1, cp2, cp3, dp0, dp1, dp2, dp3]"
    by (simp add: s round_quarter_def upt_4 round_pass_at_def hp0 hp1 hp1 [unfolded numeral_2_eq_2] hp2 hp3)
  have 1: "round_quarter 0 1 True m [ap0, ap1, ap2, ap3, bp0, bp1, bp2, bp3, cp0, cp1, cp2, cp3, dp0, dp1, dp2, dp3] = [aq0, aq1, aq2, aq3, bq0, bq1, bq2, bq3, cq0, cq1, cq2, cq3, dq0, dq1, dq2, dq3]"
    by (simp add: round_quarter_def upt_4 round_pass_at_def hq0 [unfolded One_nat_def] hq1 hq1 [unfolded numeral_3_eq_3] hq2 hq3)
  have 2: "round_quarter 1 8 False m [aq0, aq1, aq2, aq3, bq0, bq1, bq2, bq3, cq0, cq1, cq2, cq3, dq0, dq1, dq2, dq3] = [ar0, ar1, ar2, ar3, br3, br0, br1, br2, cr2, cr3, cr0, cr1, dr1, dr2, dr3, dr0]"
    by (simp add: round_quarter_def upt_4 round_pass_at_def hr0 hr1 hr2 hr3)
  have 3: "round_quarter 1 9 True m [ar0, ar1, ar2, ar3, br3, br0, br1, br2, cr2, cr3, cr0, cr1, dr1, dr2, dr3, dr0] = [as0, as1, as2, as3, bs3, bs0, bs1, bs2, cs2, cs3, cs0, cs1, ds1, ds2, ds3, ds0]"
    by (simp add: round_quarter_def upt_4 round_pass_at_def hs0 hs1 hs2 hs3)
  have g0: "g_mix 0 4 8 12 (m ! 0) (m ! 1) [x0, x1, x2, x3, x4, x5, x6, x7, x8, x9, x10, x11, x12, x13, x14, x15]
      = [aq0, x1, x2, x3, bq0, x5, x6, x7, cq0, x9, x10, x11, dq0, x13, x14, x15]"
    by (subst g_mix_halves [OF _ _ _ _ _ _ hq0]) (simp_all add: hp0)
  have g1: "g_mix 1 5 9 13 (m ! 2) (m ! 3) [aq0, x1, x2, x3, bq0, x5, x6, x7, cq0, x9, x10, x11, dq0, x13, x14, x15]
      = [aq0, aq1, x2, x3, bq0, bq1, x6, x7, cq0, cq1, x10, x11, dq0, dq1, x14, x15]"
    by (subst g_mix_halves [OF _ _ _ _ _ _ hq1]) (simp_all add: hp1)
  have g2: "g_mix 2 6 10 14 (m ! 4) (m ! 5) [aq0, aq1, x2, x3, bq0, bq1, x6, x7, cq0, cq1, x10, x11, dq0, dq1, x14, x15]
      = [aq0, aq1, aq2, x3, bq0, bq1, bq2, x7, cq0, cq1, cq2, x11, dq0, dq1, dq2, x15]"
    by (subst g_mix_halves [OF _ _ _ _ _ _ hq2]) (simp_all add: hp2)
  have g3: "g_mix 3 7 11 15 (m ! 6) (m ! 7) [aq0, aq1, aq2, x3, bq0, bq1, bq2, x7, cq0, cq1, cq2, x11, dq0, dq1, dq2, x15]
      = [aq0, aq1, aq2, aq3, bq0, bq1, bq2, bq3, cq0, cq1, cq2, cq3, dq0, dq1, dq2, dq3]"
    by (subst g_mix_halves [OF _ _ _ _ _ _ hq3]) (simp_all add: hp3)
  have g4: "g_mix 0 5 10 15 (m ! 8) (m ! 9) [aq0, aq1, aq2, aq3, bq0, bq1, bq2, bq3, cq0, cq1, cq2, cq3, dq0, dq1, dq2, dq3]
      = [as0, aq1, aq2, aq3, bq0, bs0, bq2, bq3, cq0, cq1, cs0, cq3, dq0, dq1, dq2, ds0]"
    by (subst g_mix_halves [OF _ _ _ _ _ _ hs0]) (simp_all add: hr0)
  have g5: "g_mix 1 6 11 12 (m ! 10) (m ! 11) [as0, aq1, aq2, aq3, bq0, bs0, bq2, bq3, cq0, cq1, cs0, cq3, dq0, dq1, dq2, ds0]
      = [as0, as1, aq2, aq3, bq0, bs0, bs1, bq3, cq0, cq1, cs0, cs1, ds1, dq1, dq2, ds0]"
    by (subst g_mix_halves [OF _ _ _ _ _ _ hs1]) (simp_all add: hr1)
  have g6: "g_mix 2 7 8 13 (m ! 12) (m ! 13) [as0, as1, aq2, aq3, bq0, bs0, bs1, bq3, cq0, cq1, cs0, cs1, ds1, dq1, dq2, ds0]
      = [as0, as1, as2, aq3, bq0, bs0, bs1, bs2, cs2, cq1, cs0, cs1, ds1, ds2, dq2, ds0]"
    by (subst g_mix_halves [OF _ _ _ _ _ _ hs2]) (simp_all add: hr2)
  have g7: "g_mix 3 4 9 14 (m ! 14) (m ! 15) [as0, as1, as2, aq3, bq0, bs0, bs1, bs2, cs2, cq1, cs0, cs1, ds1, ds2, dq2, ds0]
      = [as0, as1, as2, as3, bs3, bs0, bs1, bs2, cs2, cs3, cs0, cs1, ds1, ds2, ds3, ds0]"
    by (subst g_mix_halves [OF _ _ _ _ _ _ hs3]) (simp_all add: hr3)
  have "blake_round m [0..<16] s = [as0, as1, as2, as3, bs3, bs0, bs1, bs2, cs2, cs3, cs0, cs1, ds1, ds2, ds3, ds0]"
    unfolding blake_round_def upt Let_def s by (simp del: One_nat_def add: g0 g1 g2 g3 g4 g5 g6 g7)
  then show ?thesis by (simp del: One_nat_def add: compute_blake3_round_def Let_def 0 1 2 3)
qed

end
