(* ===== verification/Stark_Preprocess.thy ===== *)
theory Stark_Preprocess imports Trace_Utils begin

unbundle bit_operations_syntax

text \<open>
  The preprocessed columns of the trace (circuit/pearl_preprocess.rs): the control word of a row with the index of its
  matrix word, the packed noise, the row of the chaining value or the packed tweak, and the two tile indices.
\<close>

definition BITS_PER_LIMB :: nat where "BITS_PER_LIMB = 13"
definition NOISE_PACKING_BASE :: "64 word" where "NOISE_PACKING_BASE = 129"
definition JACKPOT_IDX_LEN :: nat where "JACKPOT_IDX_LEN = 8"
definition STATIC_BITS_LEN :: nat where "STATIC_BITS_LEN = 21"
definition CONTROL_BITS_LEN :: nat where "CONTROL_BITS_LEN = STATIC_BITS_LEN + JACKPOT_IDX_LEN"

section \<open>One row\<close>

definition default_tweak :: blake3_tweak where
  "default_tweak = \<lparr>counter_low = 0, counter_high = 0, block_len = of_nat BLAKE3_MSG_LEN, tweak_flags = 0\<rparr>"

definition pack_blake3_tweak :: "blake3_tweak \<Rightarrow> u64" where
  "pack_blake3_tweak tw =
     ucast (counter_low tw) OR push_bit 32 (ucast (counter_high tw) AND 0xFFFF)
     OR push_bit 48 (ucast (ucast (tweak_flags tw) :: u8)) OR push_bit 56 (ucast (ucast (block_len tw) :: u8))"

definition static_bits :: "row_logic \<Rightarrow> bool list" where
  "static_bits row =
     (let blake_data = rl_blake row; matmul_data = rl_matmul row; jackpot_data = rl_jackpot row in
      [is_reset_cumsum matmul_data, is_update_cumsum matmul_data, is_use_job_key blake_data, is_use_commitment_hash blake_data,
       round_hash_a blake_data, round_hash_b blake_data, round_hash_jackpot blake_data,
       read_cv_row blake_data \<noteq> None, round_idx blake_data = 1, round_idx blake_data = 8,
       (case data_source blake_data of MatrixData _ \<Rightarrow> True | _ \<Rightarrow> False), data_source blake_data = JackpotData,
       (case data_source blake_data of AuxiliaryData _ _ \<Rightarrow> True | _ \<Rightarrow> False),
       (case data_source blake_data of PreviousCv _ \<Rightarrow> True | _ \<Rightarrow> False),
       jl_src jackpot_data = SrcJackpot, jl_src jackpot_data = SrcXor, jl_src jackpot_data = SrcShift3,
       jl_dst jackpot_data = Store0, jl_dst jackpot_data = Store1, jl_dst jackpot_data = Store2,
       is_dump_cumsum_buffer jackpot_data])"

definition mat_id :: "compiled_params \<Rightarrow> nat \<Rightarrow> row_logic \<Rightarrow> u64" where
  "mat_id c row_idx row =
     (case data_source (rl_blake row) of
        MatrixData d \<Rightarrow> of_nat (dword_to_index c d)
      | _ \<Rightarrow> of_nat (num_dwords c False + num_dwords c True) + of_nat row_idx)"

definition pack_bits :: "nat \<Rightarrow> bool list \<Rightarrow> u64 \<Rightarrow> u64" where
  "pack_bits from bits packed = fold (\<lambda>(i, b) packed. packed OR push_bit (from + i) (of_bool b)) (enumerate 0 bits) packed"

definition control_word :: "compiled_params \<Rightarrow> nat \<Rightarrow> row_logic \<Rightarrow> (anyhow, u64) res" where
  "control_word c row_idx row =
     (let jackpot_data = rl_jackpot row; is_bitreg_load = (jl_src jackpot_data = SrcJackpot) in
      res_bind (deg2_muxer_bits JACKPOT_IDX_LEN (Some (if is_bitreg_load then jackpot_idx jackpot_data else jackpot_idx jackpot_data + 16))) (\<lambda>muxer_bits.
      let bits_packed = pack_bits STATIC_BITS_LEN muxer_bits (pack_bits 0 (static_bits row) 0)
      in Ok (bits_packed + shl64 (mat_id c row_idx row) CONTROL_BITS_LEN)))"

definition noise_word :: "mm_slice \<Rightarrow> row_logic \<Rightarrow> (anyhow, u64) res" where
  "noise_word noise row =
     (case data_source (rl_blake row) of
        MatrixData d \<Rightarrow> res_bind (read_dword_from_matrix noise d) (\<lambda>noise_dword.
          Ok (i64_to_u64 (i64_pack_base (map scast noise_dword) NOISE_PACKING_BASE)))
      | _ \<Rightarrow> Ok 0)"

definition cv_or_tweak_word :: "row_logic list \<Rightarrow> nat \<Rightarrow> row_logic \<Rightarrow> u64" where
  "cv_or_tweak_word circuit row_idx row =
     (let prev_row_idx = (if row_idx = 0 then length circuit - 1 else row_idx - 1);
          prev_tweak = round_tweak (rl_blake (circuit ! prev_row_idx))
      in case read_cv_row (rl_blake row) of
           Some idx \<Rightarrow> of_nat idx
         | None \<Rightarrow> pack_blake3_tweak (case prev_tweak of Some tw \<Rightarrow> tw | None \<Rightarrow> default_tweak))"

definition ab_id_word :: "compiled_params \<Rightarrow> row_logic \<Rightarrow> u64" where
  "ab_id_word c row =
     (let id_of = (\<lambda>dword. case dword of Some d \<Rightarrow> of_nat (dword_to_index c d) | None \<Rightarrow> 0);
          a_id = id_of (a_dword (rl_matmul row)); b_id = id_of (b_dword (rl_matmul row))
      in a_id + shl64 b_id (2 * BITS_PER_LIMB))"

section \<open>The columns\<close>

record preprocessed =
  control_prep :: "u64 list"
  noise_packed_prep :: "u64 list"
  cv_or_tweak_prep :: "u64 list"
  ab_id_prep :: "u64 list"

definition generate_preprocessed ::
  "digest_fn \<Rightarrow> compiled_params \<Rightarrow> row_logic list option \<Rightarrow> (anyhow, preprocessed \<times> mm_slice) res" where
  "generate_preprocessed D c circuit =
     res_bind (case circuit of Some rows \<Rightarrow> Ok rows | None \<Rightarrow> structure_proof c) (\<lambda>rows.
     res_bind (compute_noise D c) (\<lambda>noise.
     res_bind (res_map (\<lambda>(i, row). control_word c i row) (enumerate 0 rows)) (\<lambda>control.
     res_bind (res_map (noise_word noise) rows) (\<lambda>noise_packed.
     Ok (\<lparr>control_prep = control, noise_packed_prep = noise_packed,
          cv_or_tweak_prep = map (\<lambda>(i, row). cv_or_tweak_word rows i row) (enumerate 0 rows),
          ab_id_prep = map (ab_id_word c) rows\<rparr>, noise)))))"

section \<open>What a row can be read back from\<close>

lemma bit_pack_bits:
  assumes "from + length bits \<le> 64"
  shows "bit (pack_bits from bits packed) n \<longleftrightarrow> bit packed n \<or> (from \<le> n \<and> n < from + length bits \<and> bits ! (n - from))"
proof -
  have "from + k + length bits \<le> 64 \<Longrightarrow> bit (fold (\<lambda>(i, b) packed. packed OR push_bit (from + i) (of_bool b)) (enumerate k bits) packed) n
      \<longleftrightarrow> bit packed n \<or> (from + k \<le> n \<and> n < from + k + length bits \<and> bits ! (n - (from + k)))" for k
  proof (induction bits arbitrary: k packed)
    case (Cons b bits)
    show ?case
      using Cons.prems by (simp add: Cons.IH) (auto simp: bit_simps nth_Cons' Suc_le_eq)
  qed auto
  from this [of 0] show ?thesis using assms by (simp add: pack_bits_def)
qed

lemma length_static_bits [simp]: "length (static_bits row) = 21"
  by (simp add: static_bits_def Let_def)

lemma index_to_pair_ex:
  fixes idx :: nat
  shows "\<exists>i j. i \<le> j \<and> idx = i + j * (j + 1) div 2"
proof (induction idx)
  case (Suc idx)
  then obtain i j where ij: "i \<le> j" "idx = i + j * (j + 1) div 2" by blast
  show ?case
  proof (cases "i = j")
    case True
    have "Suc idx = 0 + (j + 1) * (j + 1 + 1) div 2" using ij(2) True by simp
    then show ?thesis by blast
  next
    case False
    then have "Suc i \<le> j" "Suc idx = Suc i + j * (j + 1) div 2" using ij by simp_all
    then show ?thesis by blast
  qed
qed (auto intro: exI [of _ 0])

lemma muxer_bits_Ok:
  assumes "idx < 36"
  shows "\<exists>i j. index_to_pair idx = (i, j) \<and> i < 8 \<and> j < 8 \<and> deg2_muxer_bits 8 (Some idx) = Ok ((replicate 8 False)[i := True, j := True])"
proof -
  obtain i j where ij: "i \<le> j" "idx = i + j * (j + 1) div 2" using index_to_pair_ex by blast
  have "j < 8"
  proof (rule ccontr)
    assume "\<not> j < 8"
    then have "8 * (8 + 1) div 2 \<le> j * (j + 1) div 2" by (intro div_le_mono mult_le_mono) simp_all
    then show False using ij(2) assms by simp
  qed
  then show ?thesis using ij index_to_pair_number [OF ij(1)] by (simp add: deg2_muxer_bits_def)
qed

text \<open>The control word of a row holds all of it: the twenty-one flags are its low bits in their order, the next eight are the
  two-hot code of the jackpot word and of whether it is loaded or stored, and the bits above are the index of the row's
  matrix word.\<close>

lemma control_word_exact:
  assumes "jackpot_idx (rl_jackpot row) < 16" "unat (mat_id c row_idx row) < 2 ^ 35"
  shows "\<exists>w i j. control_word c row_idx row = Ok w
    \<and> (\<forall>k < 21. bit w k \<longleftrightarrow> static_bits row ! k)
    \<and> index_to_pair (if jl_src (rl_jackpot row) = SrcJackpot then jackpot_idx (rl_jackpot row) else jackpot_idx (rl_jackpot row) + 16) = (i, j)
    \<and> (\<forall>k < 8. bit w (21 + k) \<longleftrightarrow> k = i \<or> k = j) \<and> drop_bit 29 w = mat_id c row_idx row"
proof -
  define idx where "idx = (if jl_src (rl_jackpot row) = SrcJackpot then jackpot_idx (rl_jackpot row) else jackpot_idx (rl_jackpot row) + 16)"
  have "idx < 36" using assms(1) by (simp add: idx_def)
  then obtain i j where ij: "index_to_pair idx = (i, j)" "i < 8" "j < 8" "deg2_muxer_bits 8 (Some idx) = Ok ((replicate 8 False)[i := True, j := True])"
    using muxer_bits_Ok by blast
  let ?mux = "(replicate 8 False)[i := True, j := True]"
  define m where "m = mat_id c row_idx row"
  define b where "b = pack_bits 21 ?mux (pack_bits 0 (static_bits row) 0)"
  have b: "bit b n \<longleftrightarrow> (n < 21 \<and> static_bits row ! n) \<or> (21 \<le> n \<and> n < 29 \<and> ?mux ! (n - 21))" for n
    by (auto simp: b_def bit_pack_bits)
  have m: "bit m n \<Longrightarrow> n < 35" for n
  proof -
    have "take_bit 35 m = m"
      using assms(2) unfolding m_def [symmetric] by (metis take_bit_nat_eq_self unsigned_take_bit_eq word_unat_eq_iff)
    then show "bit m n \<Longrightarrow> n < 35" by (metis bit_take_bit_iff)
  qed
  have "b + shl64 m 29 = b OR push_bit 29 m"
    by (subst disjunctive_add) (auto simp: shl64_def bit_simps b)
  then have w: "control_word c row_idx row = Ok (b OR push_bit 29 m)"
    using ij(4) by (simp add: control_word_def Let_def JACKPOT_IDX_LEN_def STATIC_BITS_LEN_def CONTROL_BITS_LEN_def idx_def [symmetric] b_def m_def)
  have "bit (b OR push_bit 29 m) k \<longleftrightarrow> static_bits row ! k" if "k < 21" for k
    using that by (auto simp: bit_simps b)
  moreover have "bit (b OR push_bit 29 m) (21 + k) \<longleftrightarrow> k = i \<or> k = j" if "k < 8" for k
    using that ij(2,3) by (auto simp: bit_simps b nth_list_update)
  moreover have "drop_bit 29 (b OR push_bit 29 m) = m"
    using m by (intro bit_word_eqI) (auto simp: bit_simps b)
  ultimately show ?thesis using w ij(1) unfolding idx_def m_def by blast
qed

end
