(* ===== verification/Air_Chip.thy ===== *)
theory Air_Chip imports Air_Blake Stark_Preprocess begin

unbundle bit_operations_syntax

text \<open>
  The constraints of the BLAKE3 chip (circuit/chip/blake3/constraints.rs), and that eight rows which satisfy them hold a
  compression.
\<close>

section \<open>The constraints\<close>

record 'v blake3_control_fields =
  cf_is_use_job_key :: 'v
  cf_is_use_commitment_hash :: 'v
  cf_is_hash_a :: 'v
  cf_is_hash_b :: 'v
  cf_is_hash_jackpot :: 'v
  cf_is_cv_in :: 'v
  cf_is_new_blake :: 'v
  cf_is_last_round :: 'v
  cf_is_msg_mat :: 'v
  cf_is_msg_jackpot :: 'v
  cf_is_msg_aux_data :: 'v
  cf_is_msg_cv :: 'v

definition consume_blake3_fields :: "(nat \<Rightarrow> 'v) \<Rightarrow> nat \<Rightarrow> 'v blake3_control_fields" where
  "consume_blake3_fields row off =
     \<lparr>cf_is_use_job_key = row off, cf_is_use_commitment_hash = row (off + 1), cf_is_hash_a = row (off + 2),
      cf_is_hash_b = row (off + 3), cf_is_hash_jackpot = row (off + 4), cf_is_cv_in = row (off + 5),
      cf_is_new_blake = row (off + 6), cf_is_last_round = row (off + 7), cf_is_msg_mat = row (off + 8),
      cf_is_msg_jackpot = row (off + 9), cf_is_msg_aux_data = row (off + 10), cf_is_msg_cv = row (off + 11)\<rparr>"

definition verify_msg_constraints :: "'v::comm_ring_1 list \<Rightarrow> 'v list \<Rightarrow> (nat \<Rightarrow> 'v) \<Rightarrow> 'v \<Rightarrow> 'v constr list" where
  "verify_msg_constraints blake3_msg blake3_msg_buffer next_trace is_last_round =
     (let next_blake3_msg = cols next_trace BLAKE3_MSG 16; next_is_new_blake = next_trace IS_NEW_BLAKE;
          next_is_same_blake = 1 - next_is_new_blake; permuted_msg = blake3_permute_msg blake3_msg
      in map (\<lambda>i. constraint_eq_if next_is_same_blake (permuted_msg ! i) (next_blake3_msg ! i)) [0..<16]
         @ map (\<lambda>i. constraint_eq_if is_last_round (permuted_msg ! i) (blake3_msg_buffer ! i)) [0..<16])"

definition verify_buffer_advancement ::
  "'v::comm_ring_1 list \<Rightarrow> 'v list \<Rightarrow> 'v list \<Rightarrow> 'v list \<Rightarrow> 'v list \<Rightarrow> 'v \<Rightarrow> 'v \<Rightarrow> 'v \<Rightarrow> 'v \<Rightarrow> 'v constr list" where
  "verify_buffer_advancement msg_buffer next_msg_buffer uint8_data cv_in jackpot is_msg_mat is_msg_aux_data is_msg_cv is_msg_jackpot =
     (let uint8_data_packed = map (\<lambda>i. polyval (subrange (i * 4) ((i + 1) * 4) uint8_data) 256) [0..<2];
          is_load_uint8 = is_msg_mat + is_msg_aux_data
      in map (\<lambda>i. constraint_eq (next_msg_buffer ! i) (msg_buffer ! (i + 2))) [0..<14]
         @ map (\<lambda>i. constraint_eq_if is_load_uint8 (msg_buffer ! (14 + i)) (uint8_data_packed ! i)) [0..<2]
         @ map (\<lambda>i. constraint_eq_if is_msg_cv (msg_buffer ! (8 + i)) (cv_in ! i)) [0..<8]
         @ map (\<lambda>i. constraint_eq_if is_msg_jackpot (msg_buffer ! i) (jackpot ! i)) [0..<16])"

text \<open>\<open>eval_constraints\<close> of the chip: its constraints and the words it returns.\<close>

definition blake3_chip_constraints ::
  "(nat \<Rightarrow> 'v::comm_ring_1) \<Rightarrow> (nat \<Rightarrow> 'v) \<Rightarrow> (nat \<Rightarrow> 'v) \<Rightarrow> 'v blake3_control_fields \<Rightarrow> 'v list \<Rightarrow> 'v constr list \<times> 'v list" where
  "blake3_chip_constraints local_trace next_trace public_inputs cf uint8_data =
     (let blake3_msg_buffer = cols local_trace BLAKE3_MSG_BUFFER 16; cv_in = cols local_trace CV_IN 8;
          jackpot = cols local_trace JACKPOT_MSG 16; blake3_tweak = next_trace CV_OR_TWEAK_PREP;
          blake3_msg = cols local_trace BLAKE3_MSG 16; blake3_cv = cols local_trace BLAKE3_CV 8;
          job_key = cols public_inputs PUB_JOB_KEY 8; commitment_hash = cols public_inputs PUB_COMMITMENT_HASH 8;
          use_cv_in = 1 - cf_is_use_job_key cf - cf_is_use_commitment_hash cf;
          cv_selectors = [use_cv_in, cf_is_use_job_key cf, cf_is_use_commitment_hash cf];
          next_is_new_blake = next_trace IS_NEW_BLAKE;
          (transition, blake3_output, init_state) =
            blake3_eval_transition_constraints local_trace BLAKE3_ROUND blake3_msg next_trace next_is_new_blake;
          cv_out = cols local_trace CV_OUT 8
      in (verify_buffer_advancement blake3_msg_buffer (cols next_trace BLAKE3_MSG_BUFFER 16) uint8_data cv_in jackpot
            (cf_is_msg_mat cf) (cf_is_msg_aux_data cf) (cf_is_msg_cv cf) (cf_is_msg_jackpot cf)
          @ verify_msg_constraints blake3_msg blake3_msg_buffer next_trace (cf_is_last_round cf)
          @ map (\<lambda>i. constraint_eq (blake3_cv ! i) (inner_product cv_selectors [cv_in ! i, job_key ! i, commitment_hash ! i])) [0..<8]
          @ transition
          @ verify_init_state init_state (cf_is_new_blake cf) blake3_cv blake3_tweak
          @ map (\<lambda>i. constraint_eq (cv_out ! i) (blake3_output ! i)) [0..<8],
          blake3_output))"

section \<open>What a row says\<close>

text \<open>The four states of a row and the first of the next one.\<close>

definition row_states :: "(nat \<Rightarrow> 'v) \<Rightarrow> (nat \<Rightarrow> 'v) \<Rightarrow> 'v blake3_state list" where
  "row_states row next_row =
     [consume_blake3_state row BLAKE3_ROUND, consume_blake3_state row (BLAKE3_ROUND + BLAKE3_STATE_SIZE),
      consume_blake3_state row (BLAKE3_ROUND + 2 * BLAKE3_STATE_SIZE), consume_blake3_state row (BLAKE3_ROUND + 3 * BLAKE3_STATE_SIZE),
      consume_blake3_state next_row BLAKE3_ROUND]"

lemma consumed_wide [simp]: "bits_wide (consume_blake3_state row off)"
  by (simp add: bits_wide_def consume_blake3_state_def)

lemma row_states_simps [simp]:
  "row_states row next_row ! 0 = consume_blake3_state row BLAKE3_ROUND" "row_states row next_row ! 4 = consume_blake3_state next_row BLAKE3_ROUND"
  by (simp_all add: row_states_def)

lemma row_states_wide [simp]: "\<forall>k<4. bits_wide (row_states row next_row ! Suc k)"
  by (simp add: all_less_4 row_states_def)

text \<open>The constraints of the chip on one row, as the facts the proofs use.\<close>

lemma chip_holds:
  assumes "all_hold n r (fst (blake3_chip_constraints row nxt pub cf u8))"
  shows "all_hold n r (verify_round (row_states row nxt) (cols row BLAKE3_MSG 16) (1 - nxt IS_NEW_BLAKE))"
    and "all_hold n r (fst (finalize_blake (row_states row nxt) (nxt IS_NEW_BLAKE)))"
    and "all_hold n r (verify_init_state (consume_blake3_state row BLAKE3_ROUND) (cf_is_new_blake cf) (cols row BLAKE3_CV 8) (nxt CV_OR_TWEAK_PREP))"
    and "all_hold n r (verify_msg_constraints (cols row BLAKE3_MSG 16) (cols row BLAKE3_MSG_BUFFER 16) nxt (cf_is_last_round cf))"
    and "all_hold n r (map (\<lambda>i. constraint_eq (row (CV_OUT + i)) (snd (finalize_blake (row_states row nxt) (nxt IS_NEW_BLAKE)) ! i)) [0..<8])"
    and "all_hold n r (verify_buffer_advancement (cols row BLAKE3_MSG_BUFFER 16) (cols nxt BLAKE3_MSG_BUFFER 16) u8 (cols row CV_IN 8) (cols row JACKPOT_MSG 16)
            (cf_is_msg_mat cf) (cf_is_msg_aux_data cf) (cf_is_msg_cv cf) (cf_is_msg_jackpot cf))"
  using assms
  by (simp_all add: blake3_chip_constraints_def blake3_eval_transition_constraints_def Let_def row_states_def case_prod_unfold)

section \<open>Bits\<close>

lemma half_g_bits:
  assumes "all_hold n r (half_g a b c d m flag ea eb ec ed act)"
  shows "\<forall>x \<in> set eb \<union> set ed. x = 0 \<or> x = (1 :: 'v::idom)"
  using assms by (auto simp: half_g_def xor_32_shift_if_def Let_def split: if_splits)

lemma verify_round_bits:
  assumes "all_hold n r (verify_round states msg act)" "k = 1 \<or> k = 4" "i < 4"
  shows "\<forall>x \<in> set (row2 (states ! k) ! i) \<union> set (row4 (states ! k) ! i). x = 0 \<or> x = (1 :: 'v::idom)"
proof -
  have all: "\<forall>i<4. \<forall>x \<in> set (row2 (states ! 1) ! i) \<union> set (row4 (states ! 1) ! i). x = 0 \<or> x = 1"
    "\<forall>i<4. \<forall>x \<in> set (row2 (states ! 4) ! ((i + 1) mod 4)) \<union> set (row4 (states ! 4) ! ((i + 3) mod 4)). x = 0 \<or> x = 1"
  proof -
    have "\<forall>i<4. all_hold n r (quarter_constraints 0 (states ! 0) (states ! 1) msg 0 False act i)"
      and "\<forall>i<4. all_hold n r (quarter_constraints 1 (states ! 3) (states ! 4) msg 9 True act i)"
      using assms(1) by (simp_all add: verify_round_def quarter_constraints_def add.commute)
    then show "\<forall>i<4. \<forall>x \<in> set (row2 (states ! 1) ! i) \<union> set (row4 (states ! 1) ! i). x = 0 \<or> x = 1"
      and "\<forall>i<4. \<forall>x \<in> set (row2 (states ! 4) ! ((i + 1) mod 4)) \<union> set (row4 (states ! 4) ! ((i + 3) mod 4)). x = 0 \<or> x = 1"
      unfolding quarter_constraints_def using half_g_bits by (fastforce, fastforce)
  qed
  have "\<forall>i<4. \<forall>x \<in> set (row2 (states ! 4) ! i) \<union> set (row4 (states ! 4) ! i). x = 0 \<or> x = 1"
    using all(2) unfolding all_less_4 by (simp del: One_nat_def add: ball_Un)
  then show ?thesis using all(1) assms(2,3) by blast
qed

lemma consumed_lengths [simp]:
  "i < 4 \<Longrightarrow> length (row2 (consume_blake3_state row off) ! i) = 32"
  "i < 4 \<Longrightarrow> length (row4 (consume_blake3_state row off) ! i) = 32"
  by (simp_all add: consume_blake3_state_def)

section \<open>Messages\<close>

lemma permute_map: "length m = 16 \<Longrightarrow> blake3_permute_msg (map f m) = map f (blake3_permute_msg m)"
  by (simp add: permute_msg BLAKE3_MSG_PERMUTATION_def)

lemma permute_order: "length m = 16 \<Longrightarrow> (blake3_permute_msg ^^ 8) m = m"
proof -
  assume m: "length m = 16"
  have run: "(blake3_permute_msg ^^ k) (map ((!) m) [0..<16]) = map ((!) m) ((blake3_permute_msg ^^ k) [0..<16]) \<and> length ((blake3_permute_msg ^^ k) [0..<16]) = 16" for k
    by (induction k) (auto simp: permute_map)
  have order: "(blake3_permute_msg ^^ 8) [0..<16] = [0..<16]"
  proof -
    define p where "p = (\<lambda>row. map ((!) row) BLAKE3_MSG_PERMUTATION :: nat list)"
    have "(blake3_permute_msg ^^ k) [0..<16] = (p ^^ k) [0..<16] \<and> length ((p ^^ k) [0..<16]) = 16" for k
      by (induction k) (simp_all add: p_def permute_msg BLAKE3_MSG_PERMUTATION_def)
    moreover have "(p ^^ 8) [0..<16] = [0..<16]" unfolding p_def by code_simp
    ultimately show ?thesis by simp
  qed
  have "map ((!) m) [0..<16] = m" using map_nth [of m] m by simp
  then show ?thesis using run [of 8] unfolding order by simp
qed

lemma verify_msg_next:
  assumes "all_hold n r (verify_msg_constraints msg buf nxt lst)" "nxt IS_NEW_BLAKE = (0 :: 'v::idom)" "length msg = 16"
  shows "cols nxt BLAKE3_MSG 16 = blake3_permute_msg msg"
  using assms by (auto simp: verify_msg_constraints_def Let_def intro!: nth_equalityI)

lemma verify_msg_last:
  assumes "all_hold n r (verify_msg_constraints msg buf nxt lst)" "lst = (1 :: 'v::idom)" "length msg = 16" "length buf = 16"
  shows "buf = blake3_permute_msg msg"
  using assms by (auto simp: verify_msg_constraints_def Let_def intro!: nth_equalityI)

lemma block_messages:
  assumes "\<forall>k<8. all_hold n (r k) (verify_msg_constraints (cols (R k) BLAKE3_MSG 16) (cols (R k) BLAKE3_MSG_BUFFER 16) (R (Suc k)) (R k IS_LAST_ROUND))"
    and "\<forall>k. 1 \<le> k \<and> k \<le> 7 \<longrightarrow> R k IS_NEW_BLAKE = (0 :: 'v::idom)" "R 7 IS_LAST_ROUND = 1" "k \<le> 7"
  shows "cols (R k) BLAKE3_MSG 16 = (blake3_permute_msg ^^ k) (cols (R 7) BLAKE3_MSG_BUFFER 16)"
proof -
  have step: "cols (R k) BLAKE3_MSG 16 = (blake3_permute_msg ^^ k) (cols (R 0) BLAKE3_MSG 16)" if "k \<le> 7" for k
    using that
  proof (induction k)
    case (Suc k)
    have "cols (R (Suc k)) BLAKE3_MSG 16 = blake3_permute_msg (cols (R k) BLAKE3_MSG 16)"
      using assms(1,2) Suc.prems by (intro verify_msg_next [of n "r k" _ "cols (R k) BLAKE3_MSG_BUFFER 16" _ "R k IS_LAST_ROUND"]) auto
    then show ?case using Suc by simp
  qed simp
  have "cols (R 7) BLAKE3_MSG_BUFFER 16 = blake3_permute_msg (cols (R 7) BLAKE3_MSG 16)"
    using assms(1) [rule_format, of 7] assms(3) by (intro verify_msg_last [of n "r 7" _ _ "R (Suc 7)" "R 7 IS_LAST_ROUND"]) simp_all
  also have "\<dots> = (blake3_permute_msg ^^ Suc 7) (cols (R 0) BLAKE3_MSG 16)" by (simp only: step [of 7] funpow.simps comp_apply order_refl)
  also have "Suc 7 = 8" by simp
  finally have "cols (R 7) BLAKE3_MSG_BUFFER 16 = cols (R 0) BLAKE3_MSG 16" by (simp only: permute_order length_cols)
  then show ?thesis using step [OF assms(4)] by simp
qed

section \<open>The initial state\<close>

lemma polyval_append: "polyval (xs @ ys) x = polyval xs x + x ^ length xs * polyval ys x"
  by (induction xs) (simp_all add: algebra_simps)

text \<open>Sixty-three bits determine a tweak.\<close>

lemma abs_small: "0 \<le> a \<Longrightarrow> a < 2 ^ 63 \<Longrightarrow> 0 \<le> b \<Longrightarrow> b < 2 ^ 63 \<Longrightarrow> \<bar>a - b\<bar> < GL_ORDER"
  by (simp add: GL_ORDER_def)

lemma bit_list_values:
  assumes "polyval (map of_bool bs) 2 = (of_int (uint p) :: goldilocks)" "length bs = 63" "uint (p :: u64) < 2 ^ 63" "i < 63"
  shows "bs ! i \<longleftrightarrow> bit p i"
proof -
  define H :: int where "H = horner_sum of_bool 2 bs"
  have "polyval (map of_bool bs) 2 = (of_int H :: goldilocks)"
    unfolding H_def by (induction bs) simp_all
  then have "(of_int H :: goldilocks) = of_int (uint p)" using assms(1) by simp
  moreover have "\<bar>H - uint p\<bar> < GL_ORDER"
  proof -
    have "0 \<le> H" "H < 2 ^ 63" using horner_sum_of_bool_2_less [of bs, where 'a = int] assms(2) by (simp_all add: H_def horner_sum_nonnegative)
    then show ?thesis using assms(3) by (intro abs_small) simp_all
  qed
  ultimately have "H = uint p" by (rule of_int_inj)
  then have "bit H i \<longleftrightarrow> bit p i" using assms(4) by (simp add: bit_uint_iff)
  then show ?thesis using assms(2,4) by (simp add: H_def bit_horner_sum_bit_iff)
qed

lemma pack_tweak_bits:
  assumes "unat (tweak_flags tw) < 2 ^ 8" "unat (block_len tw) < 2 ^ 7"
  shows "i < 32 \<Longrightarrow> bit (pack_blake3_tweak tw) i \<longleftrightarrow> bit (counter_low tw) i"
    and "i < 16 \<Longrightarrow> bit (pack_blake3_tweak tw) (32 + i) \<longleftrightarrow> bit (counter_high tw) i"
    and "i < 8 \<Longrightarrow> bit (pack_blake3_tweak tw) (48 + i) \<longleftrightarrow> bit (tweak_flags tw) i"
    and "i < 7 \<Longrightarrow> bit (pack_blake3_tweak tw) (56 + i) \<longleftrightarrow> bit (block_len tw) i"
    and "uint (pack_blake3_tweak tw) < 2 ^ 63"
    and "bit (tweak_flags tw) i \<Longrightarrow> i < 8" "bit (block_len tw) i \<Longrightarrow> i < 7"
proof -
  have low: "bit w j \<Longrightarrow> j < k" if "unat (w :: u32) < 2 ^ k" for w j k
  proof -
    have "take_bit k w = w" using that by (metis take_bit_nat_eq_self unsigned_take_bit_eq word_unat_eq_iff)
    then show "bit w j \<Longrightarrow> j < k" by (metis bit_take_bit_iff)
  qed
  show "bit (tweak_flags tw) i \<Longrightarrow> i < 8" "bit (block_len tw) i \<Longrightarrow> i < 7" using low assms by blast+
  define hi :: u64 where "hi = push_bit 32 (ucast (counter_high tw) AND 0xFFFF)"
  have hi: "bit hi j \<longleftrightarrow> 32 \<le> j \<and> j < 48 \<and> bit (counter_high tw) (j - 32)" for j
  proof -
    have "(0xFFFF :: u64) = mask 16" by (simp add: mask_eq_exp_minus_1)
    then have low16: "bit (0xFFFF :: u64) j \<longleftrightarrow> j < 16" for j by (simp only: bit_mask_iff) auto
    have "ucast (counter_high tw) AND 0xFFFF = (ucast (counter_high tw) :: u64)"
    proof (rule bit_word_eqI)
      fix n
      have "bit (ucast (counter_high tw) :: u64) n \<Longrightarrow> n < 16" by (auto simp: bit_unsigned_iff dest: bit_imp_le_length)
      then show "bit (ucast (counter_high tw) AND 0xFFFF :: u64) n \<longleftrightarrow> bit (ucast (counter_high tw) :: u64) n"
        unfolding bit_and_iff low16 by blast
    qed
    then show ?thesis unfolding hi_def by (auto simp: bit_simps dest: bit_imp_le_length)
  qed
  have pack: "pack_blake3_tweak tw = ucast (counter_low tw) OR hi OR push_bit 48 (ucast (ucast (tweak_flags tw) :: u8)) OR push_bit 56 (ucast (ucast (block_len tw) :: u8))"
    by (simp only: pack_blake3_tweak_def hi_def)
  show "i < 32 \<Longrightarrow> bit (pack_blake3_tweak tw) i \<longleftrightarrow> bit (counter_low tw) i"
    by (auto simp: pack hi bit_simps dest: bit_imp_le_length)
  show "i < 16 \<Longrightarrow> bit (pack_blake3_tweak tw) (32 + i) \<longleftrightarrow> bit (counter_high tw) i"
    by (auto simp: pack hi bit_simps dest: bit_imp_le_length)
  show "i < 8 \<Longrightarrow> bit (pack_blake3_tweak tw) (48 + i) \<longleftrightarrow> bit (tweak_flags tw) i"
    by (auto simp: pack hi bit_simps dest: bit_imp_le_length)
  show "i < 7 \<Longrightarrow> bit (pack_blake3_tweak tw) (56 + i) \<longleftrightarrow> bit (block_len tw) i"
    by (auto simp: pack hi bit_simps dest: bit_imp_le_length)
  have "take_bit 63 (pack_blake3_tweak tw) = pack_blake3_tweak tw"
  proof (rule bit_word_eqI)
    fix j assume "j < LENGTH(64)"
    then show "bit (take_bit 63 (pack_blake3_tweak tw)) j \<longleftrightarrow> bit (pack_blake3_tweak tw) j"
      by (auto simp: pack hi bit_simps dest: bit_imp_le_length low [OF assms(2)])
  qed
  then have "uint (pack_blake3_tweak tw) = take_bit 63 (uint (pack_blake3_tweak tw))" by (metis unsigned_take_bit_eq)
  then show "uint (pack_blake3_tweak tw) < 2 ^ 63" by (metis take_bit_int_less_exp)
qed

definition init_words :: "u32 list \<Rightarrow> blake3_tweak \<Rightarrow> u32 list" where
  "init_words cv tw = cv @ take 4 BLAKE3_IV @ [counter_low tw, ucast (counter_high tw), block_len tw, tweak_flags tw]"

lemma take_bit_list: "k \<le> 32 \<Longrightarrow> take k (bit_list w) = map of_bool (map (bit w) [0..<k])"
  by (simp add: bit_list_def take_map comp_def)

lemma drop_bit_list_zero: "\<forall>b \<in> set (drop k (bit_list w :: 'v::comm_ring_1 list)). b = 0 \<Longrightarrow> k \<le> i \<Longrightarrow> i < 32 \<Longrightarrow> \<not> bit w i"
proof
  assume zero: "\<forall>b \<in> set (drop k (bit_list w :: 'v list)). b = 0" and i: "k \<le> i" "i < 32" and "bit w i"
  have "drop k (bit_list w :: 'v list) ! (i - k) \<in> set (drop k (bit_list w))" using i by (intro nth_mem) simp
  then have "drop k (bit_list w :: 'v list) ! (i - k) = 0" using zero by blast
  then show False using i \<open>bit w i\<close> by simp
qed

lemma init_state_sound:
  assumes hold: "all_hold n r (verify_init_state st 1 (map unsigned cv) (gl (pack_blake3_tweak tw)))"
    and bits: "\<forall>i<4. \<forall>x \<in> set (row2 st ! i) \<union> set (row4 st ! i). x = 0 \<or> x = 1" and wide: "bits_wide st"
    and cv: "length cv = 8" and tw: "unat (tweak_flags tw) < 2 ^ 8" "unat (block_len tw) < 2 ^ 7"
  shows "encodes (init_words cv tw) st"
proof -
  have cells: "\<forall>i<4. row1 st ! i = unsigned (cv ! i) \<and> row3 st ! i = unsigned (BLAKE3_IV ! i)"
    "\<forall>i<4. polyval (row2 st ! i) 2 = unsigned (cv ! (i + 4))"
    "polyval (row4 st ! 0 @ take 16 (row4 st ! 1) @ take 8 (row4 st ! 3) @ take 7 (row4 st ! 2)) 2 = gl (pack_blake3_tweak tw)"
    "\<forall>b \<in> set (drop 16 (row4 st ! 1)) \<union> set (drop 7 (row4 st ! 2)) \<union> set (drop 8 (row4 st ! 3)). b = 0"
    using hold cv by (auto simp: verify_init_state_def Let_def)
  have word2: "row2 st ! i = bit_list (cv ! (4 + i))" if "i < 4" for i
  proof -
    obtain w where w: "row2 st ! i = bit_list w"
      using bit_list_exists [of "row2 st ! i"] bits wide \<open>i < 4\<close> by (auto simp: bits_wide_def)
    have "(unsigned w :: goldilocks) = unsigned (cv ! (i + 4))" using cells(2) that w by (metis polyval_bit_list)
    then have "w = cv ! (4 + i)" unfolding unsigned_inj_goldilocks by (simp add: add.commute)
    then show ?thesis using w by simp
  qed
  have "\<exists>w. row4 st ! i = bit_list w" if "i < 4" for i
    using bit_list_exists [of "row4 st ! i"] bits wide that by (auto simp: bits_wide_def)
  from this [of 0] this [of 1] this [of 2] this [of 3] obtain w0 w1 w2 w3
    where w: "row4 st ! 0 = bit_list w0" "row4 st ! 1 = bit_list w1" "row4 st ! 2 = bit_list w2" "row4 st ! 3 = bit_list w3"
    by (auto simp del: One_nat_def)
  let ?bs = "map (bit w0) [0..<32] @ map (bit w1) [0..<16] @ map (bit w3) [0..<8] @ map (bit w2) [0..<7]"
  have "bit_list w0 = (map of_bool (map (bit w0) [0..<32]) :: goldilocks list)" by (simp add: bit_list_def comp_def)
  then have "polyval (map of_bool ?bs) 2 = gl (pack_blake3_tweak tw)"
    using cells(3) by (simp del: One_nat_def add: w take_bit_list)
  then have eq: "?bs ! i \<longleftrightarrow> bit (pack_blake3_tweak tw) i" if "i < 63" for i
    using that pack_tweak_bits(5) [OF tw] by (intro bit_list_values) (simp_all add: gl_def)
  have z: "\<not> bit w1 i" if "16 \<le> i" "i < 32" for i using drop_bit_list_zero [where 'v = goldilocks, OF _ that, of w1] cells(4) unfolding w by blast
  have z2: "\<not> bit w2 i" if "7 \<le> i" "i < 32" for i using drop_bit_list_zero [where 'v = goldilocks, OF _ that, of w2] cells(4) unfolding w by blast
  have z3: "\<not> bit w3 i" if "8 \<le> i" "i < 32" for i using drop_bit_list_zero [where 'v = goldilocks, OF _ that, of w3] cells(4) unfolding w by blast
  have "w0 = counter_low tw"
  proof (rule bit_word_eqI)
    fix i assume i: "i < LENGTH(32)"
    show "bit w0 i \<longleftrightarrow> bit (counter_low tw) i" using eq [of i] pack_tweak_bits(1) [OF tw, of i] i by (simp add: nth_append)
  qed
  moreover have "w1 = ucast (counter_high tw)"
  proof (rule bit_word_eqI)
    fix i assume i: "i < LENGTH(32)"
    show "bit w1 i \<longleftrightarrow> bit (ucast (counter_high tw) :: u32) i"
      using eq [of "32 + i"] pack_tweak_bits(2) [OF tw, of i] z [of i] i
      by (cases "i < 16") (auto simp: nth_append bit_simps dest: bit_imp_le_length)
  qed
  moreover have "w3 = tweak_flags tw"
  proof (rule bit_word_eqI)
    fix i assume i: "i < LENGTH(32)"
    show "bit w3 i \<longleftrightarrow> bit (tweak_flags tw) i"
      using eq [of "48 + i"] pack_tweak_bits(3,6) [OF tw, of i] z3 [of i] i
      by (cases "i < 8") (auto simp: nth_append)
  qed
  moreover have "w2 = block_len tw"
  proof (rule bit_word_eqI)
    fix i assume i: "i < LENGTH(32)"
    show "bit w2 i \<longleftrightarrow> bit (block_len tw) i"
      using eq [of "56 + i"] pack_tweak_bits(4,7) [OF tw, of i] z2 [of i] i
      by (cases "i < 7") (auto simp: nth_append)
  qed
  ultimately show ?thesis
    using cells(1) word2 w cv
    by (simp add: encodes_def init_words_def nth_append BLAKE3_IV_def all_less_4)
qed

section \<open>Eight rows\<close>

text \<open>The chip on a row of the trace, with the fields and the bytes read from the row.\<close>

definition blake3_row_constraints :: "(nat \<Rightarrow> 'v::comm_ring_1) \<Rightarrow> (nat \<Rightarrow> 'v) \<Rightarrow> (nat \<Rightarrow> 'v) \<Rightarrow> 'v constr list" where
  "blake3_row_constraints row nxt pub = fst (blake3_chip_constraints row nxt pub (consume_blake3_fields row IS_USE_JOB_KEY) (cols row UINT8_DATA 8))"

lemma finalize_sound:
  assumes "all_hold n r (verify_round (row_states row nxt) msg act)" "all_hold n r (fst (finalize_blake (row_states row nxt) 1))"
    and enc: "encodes s (consume_blake3_state row BLAKE3_ROUND)" and s: "length s = 16"
  shows "snd (finalize_blake (row_states row nxt) (1 :: goldilocks)) = map (\<lambda>i. unsigned (s ! i XOR s ! (i + 8))) [0..<8]"
proof -
  have bits: "\<exists>w. row2 (row_states row nxt ! 1) ! i = bit_list w" "\<exists>w. row4 (row_states row nxt ! 1) ! i = bit_list w" if "i < 4" for i
    using verify_round_bits [OF assms(1), of 1 i] that row_states_wide [of row nxt]
    by (auto simp: bits_wide_def intro!: bit_list_exists)
  have cells: "row1 (row_states row nxt ! 0) ! i = polyval (row2 (row_states row nxt ! 1) ! i) 2"
    "row3 (row_states row nxt ! 0) ! i = polyval (row4 (row_states row nxt ! 1) ! i) 2" if "i < 4" for i
    using assms(2) that by (simp_all add: finalize_blake_def)
  have low: "row2 (row_states row nxt ! 1) ! i = bit_list (s ! i) \<and> row4 (row_states row nxt ! 1) ! i = bit_list (s ! (8 + i))" if i: "i < 4" for i
  proof -
    obtain v w where vw: "row2 (row_states row nxt ! 1) ! i = bit_list v" "row4 (row_states row nxt ! 1) ! i = bit_list w" using bits(1) [OF i] bits(2) [OF i] by blast
    then have "(unsigned v :: goldilocks) = unsigned (s ! i)" "(unsigned w :: goldilocks) = unsigned (s ! (8 + i))"
      using cells [OF i] enc i by (simp_all add: encodes_def)
    then show ?thesis using vw unfolding unsigned_inj_goldilocks by simp
  qed
  show ?thesis
  proof (rule nth_equalityI)
    fix i assume "i < length (snd (finalize_blake (row_states row nxt) (1 :: goldilocks)))"
    then have i: "i < 8" by (simp add: finalize_blake_def Let_def)
    show "snd (finalize_blake (row_states row nxt) 1) ! i = map (\<lambda>i. unsigned (s ! i XOR s ! (i + 8))) [0..<8] ! i"
    proof (cases "i < 4")
      case True
      then show ?thesis using low [OF True] i by (simp add: finalize_blake_def Let_def xor_bits add.commute)
    next
      case False
      then have "i - 4 < 4" "4 + (i - 4) = i" "12 + (i - 4) = i + 8" using i by simp_all
      then show ?thesis using enc i False by (simp add: finalize_blake_def Let_def xor_bits encodes_def add.commute)
    qed
  qed (simp add: finalize_blake_def Let_def)
qed

lemma chip_fields:
  "cf_is_new_blake (consume_blake3_fields row IS_USE_JOB_KEY) = row IS_NEW_BLAKE"
  "cf_is_last_round (consume_blake3_fields row IS_USE_JOB_KEY) = row IS_LAST_ROUND"
  by (simp_all add: consume_blake3_fields_def columns)

primrec state_after :: "u32 list \<Rightarrow> u32 list \<Rightarrow> nat \<Rightarrow> u32 list" where
  "state_after m s 0 = s"
| "state_after m s (Suc k) = blake_round ((blake3_permute_msg ^^ k) m) [0..<16] (state_after m s k)"

lemma permuted_rounds_state: "permuted_rounds n m s = state_after m s n"
proof -
  have shift: "state_after m s (Suc k) = state_after (blake3_permute_msg m) (blake_round m [0..<16] s) k" for m s k
    by (induction k) (simp_all add: funpow_swap1)
  show ?thesis by (induction n arbitrary: m s) (simp_all only: permuted_rounds.simps shift state_after.simps(1))
qed

text \<open>C39: Eight rows of the trace, from one that starts a compression to one that ends it, that satisfy the constraints of
  the BLAKE3 chip (with the row before them, whose last round binds their first state) hold the BLAKE3 compression of the
  message in the last buffer, of the chaining value of the first row and of the tweak of the second: \<open>CV_OUT\<close> of the last
  row is its first eight words, whatever the other cells hold.\<close>

theorem blake3_rows_sound:
  assumes prev: "all_hold n p (blake3_row_constraints P (R 0) pub)"
    and rows: "\<forall>k<8. all_hold n (r k) (blake3_row_constraints (R k) (R (Suc k)) pub)"
    and start: "R 0 IS_NEW_BLAKE = 1" and same: "\<forall>k. 1 \<le> k \<and> k \<le> 7 \<longrightarrow> R k IS_NEW_BLAKE = 0" and stop: "R 8 IS_NEW_BLAKE = 1"
    and final: "R 7 IS_LAST_ROUND = (1 :: goldilocks)"
    and buf: "cols (R 7) BLAKE3_MSG_BUFFER 16 = map unsigned m" and m: "length m = 16"
    and cv: "cols (R 0) BLAKE3_CV 8 = map unsigned cv" "length cv = 8"
    and tweak: "R 1 CV_OR_TWEAK_PREP = gl (pack_blake3_tweak tw)" "unat (tweak_flags tw) < 2 ^ 8" "unat (block_len tw) < 2 ^ 7"
  shows "cols (R 7) CV_OUT 8 = map unsigned (take 8 (compress cv m (counter_low tw) (ucast (counter_high tw)) (block_len tw) (tweak_flags tw)))"
proof -
  have messages: "\<forall>k<8. all_hold n (r k) (verify_msg_constraints (cols (R k) BLAKE3_MSG 16) (cols (R k) BLAKE3_MSG_BUFFER 16) (R (Suc k)) (R k IS_LAST_ROUND))"
    using rows chip_holds(4) unfolding blake3_row_constraints_def chip_fields(2) [symmetric] by blast
  have msg: "cols (R k) BLAKE3_MSG 16 = map unsigned ((blake3_permute_msg ^^ k) m)" if "k \<le> 7" for k
  proof -
    have "cols (R k) BLAKE3_MSG 16 = (blake3_permute_msg ^^ k) (map unsigned m)"
      unfolding buf [symmetric] by (rule block_messages [OF messages same final that])
    moreover have "(blake3_permute_msg ^^ k) (map unsigned m) = (map unsigned ((blake3_permute_msg ^^ k) m) :: goldilocks list) \<and> length ((blake3_permute_msg ^^ k) m) = 16" for k
      by (induction k) (auto simp: permute_map m)
    ultimately show ?thesis by simp
  qed
  have round: "all_hold n (r k) (verify_round (row_states (R k) (R (Suc k))) (cols (R k) BLAKE3_MSG 16) (1 - R (Suc k) IS_NEW_BLAKE))" if "k < 8" for k
    using rows that unfolding blake3_row_constraints_def by (blast intro: chip_holds(1))
  define S where "S = state_after m (init_words cv tw)"
  have "encodes (S k) (consume_blake3_state (R k) BLAKE3_ROUND) \<and> length (S k) = 16" if "k \<le> 7" for k
    using that
  proof (induction k)
    case 0
    have "all_hold n (r 0) (verify_init_state (consume_blake3_state (R 0) BLAKE3_ROUND) (R 0 IS_NEW_BLAKE) (cols (R 0) BLAKE3_CV 8) (R (Suc 0) CV_OR_TWEAK_PREP))"
      using rows chip_holds(3) unfolding blake3_row_constraints_def chip_fields(1) [symmetric] by (metis zero_less_numeral)
    moreover have "\<forall>i<4. \<forall>x \<in> set (row2 (consume_blake3_state (R 0) BLAKE3_ROUND) ! i) \<union> set (row4 (consume_blake3_state (R 0) BLAKE3_ROUND) ! i). x = 0 \<or> x = 1"
      using verify_round_bits [OF chip_holds(1) [OF prev [unfolded blake3_row_constraints_def]], of 4] by simp
    ultimately have "encodes (init_words cv tw) (consume_blake3_state (R 0) BLAKE3_ROUND)"
      using tweak cv start by (intro init_state_sound [of n "r 0"]) simp_all
    then show ?case using cv(2) by (simp add: S_def init_words_def BLAKE3_IV_def)
  next
    case (Suc k)
    then have IH: "encodes (S k) (row_states (R k) (R (Suc k)) ! 0)" "length (S k) = 16" by simp_all
    have "length ((blake3_permute_msg ^^ k) m) = 16" by (induction k) (simp_all add: m)
    then have words: "\<forall>i<16. cols (R k) BLAKE3_MSG 16 ! i = unsigned ((blake3_permute_msg ^^ k) m ! i)"
      using msg [of k] Suc.prems by simp
    have "1 - R (Suc k) IS_NEW_BLAKE \<noteq> 0" using same Suc.prems by simp
    from round_sound [OF IH row_states_wide words this round] Suc.prems IH(2)
    show ?case by (simp add: S_def compute_blake3_round_is)
  qed
  from this [of 7] have S: "encodes (S 7) (consume_blake3_state (R 7) BLAKE3_ROUND)" "length (S 7) = 16" by simp_all
  have "all_hold n (r 7) (map (\<lambda>i. constraint_eq (R 7 (CV_OUT + i)) (snd (finalize_blake (row_states (R 7) (R 8)) (R 8 IS_NEW_BLAKE)) ! i)) [0..<8])"
    "all_hold n (r 7) (fst (finalize_blake (row_states (R 7) (R 8)) (R 8 IS_NEW_BLAKE)))"
    using rows [rule_format, of 7] unfolding blake3_row_constraints_def by (auto dest: chip_holds(5) chip_holds(2))
  then have "cols (R 7) CV_OUT 8 = snd (finalize_blake (row_states (R 7) (R 8)) 1)" "all_hold n (r 7) (fst (finalize_blake (row_states (R 7) (R 8)) 1))"
    using stop by (auto simp: finalize_blake_def Let_def intro!: nth_equalityI)
  then have "cols (R 7) CV_OUT 8 = map (\<lambda>i. unsigned (S 7 ! i XOR S 7 ! (i + 8))) [0..<8]"
    using finalize_sound [OF round [of 7]] S by simp
  moreover have "fold (blake_round m) MSG_SCHEDULE (init_words cv tw) = S 7"
    using schedule_rounds [OF m] by (simp add: S_def permuted_rounds_state)
  ultimately show ?thesis by (simp add: compress_def init_words_def Let_def comp_def)
qed

end
