(* ===== verification/Air_Fill.thy ===== *)
theory Air_Fill imports Air_Chip begin

unbundle bit_operations_syntax

text \<open>
  The rows of a compression as the trace generator fills them (circuit/chip/blake3/trace.rs), and that they satisfy the
  constraints.
\<close>

section \<open>Cells\<close>

text \<open>\<open>write_to_trace\<close>, \<open>read_from_trace\<close>: a row is the function of its column, a trace the list of its rows.\<close>

definition put :: "nat \<Rightarrow> 'v list \<Rightarrow> (nat \<Rightarrow> 'v) \<Rightarrow> nat \<Rightarrow> 'v" where
  "put col values row = (\<lambda>c. if col \<le> c \<and> c < col + length values then values ! (c - col) else row c)"

definition write_words :: "nat \<Rightarrow> u32 list \<Rightarrow> (nat \<Rightarrow> goldilocks) \<Rightarrow> nat \<Rightarrow> goldilocks" where
  "write_words col values row = put col (map unsigned values) row"

definition from_field_u32 :: "goldilocks \<Rightarrow> u32" where "from_field_u32 f = word_of_int (residue f)"
definition from_field_u8 :: "goldilocks \<Rightarrow> u8" where "from_field_u8 f = word_of_int (residue f)"

definition read_words :: "(nat \<Rightarrow> goldilocks) \<Rightarrow> nat \<Rightarrow> nat \<Rightarrow> u32 list" where
  "read_words row col n = map from_field_u32 (cols row col n)"

definition read_bits_as_u32s :: "(nat \<Rightarrow> goldilocks) \<Rightarrow> nat \<Rightarrow> u32 list" where
  "read_bits_as_u32s row col = map (\<lambda>i. read_bits_as_u32 (read_words row (col + i * 32) 32)) [0..<4]"

section \<open>Filling\<close>

text \<open>\<open>write_blake3_state\<close>: the columns of a state.\<close>

definition write_blake3_state :: "u32 list \<Rightarrow> 'v::comm_ring_1 list" where
  "write_blake3_state state =
     map unsigned (take 4 state) @ concat (map bit_list (take 4 (drop 4 state)))
     @ map unsigned (take 4 (drop 8 state)) @ concat (map bit_list (take 4 (drop 12 state)))"

text \<open>\<open>postprocess_round8_rows\<close> on the row \<open>s\<close> before a new compression that starts with \<open>next\<close>.\<close>

definition postprocess_row :: "u32 list \<Rightarrow> u32 list \<Rightarrow> u32 list \<Rightarrow> u32 list list" where
  "postprocess_row s msg nxt =
     (let r1 = take 4 s; r2 = take 4 (drop 4 s); r3 = take 4 (drop 8 s);
          s1r1 = map (\<lambda>i. r1 ! i + r2 ! i + msg ! (2 * i)) [0..<4]; s1r3 = map (\<lambda>i. r3 ! i + r3 ! i) [0..<4];
          s2r1 = map (\<lambda>i. s1r1 ! i + r1 ! i + msg ! (2 * i + 1)) [0..<4];
          nr1 = take 4 nxt; nr3 = take 4 (drop 8 nxt); nr4 = take 4 (drop 12 nxt);
          s3r1 = map (\<lambda>i. s2r1 ! i + msg ! (8 + 2 * i)) [0..<4];
          (s3r2, s3r3, s3r4) = fold (\<lambda>i (s3r2, s3r3, s3r4).
             let b = (i + 1) mod 4; c = (i + 2) mod 4; d = (i + 3) mod 4; s3r3 = s3r3[c := nr3 ! c - nr4 ! d];
                 s3r4 = s3r4[d := s3r3 ! c - s1r3 ! c]
             in (s3r2[b := nr1 ! i - s3r1 ! i - msg ! (8 + 2 * i + 1)], s3r3, s3r4)) [0..<4]
           (replicate 4 0, replicate 4 0, replicate 4 0)
      in [s1r1 @ r1 @ s1r3 @ r3, s2r1 @ replicate 4 0 @ s1r3 @ replicate 4 0, s3r1 @ s3r2 @ s3r3 @ s3r4])"

text \<open>The message buffer: \<open>Panic\<close> is an index out of range.\<close>

definition shift_buffer :: "u32 list \<Rightarrow> u32 list" where
  "shift_buffer buffer = map (\<lambda>i. if i < 14 then buffer ! (i + 2) else 0) [0..<16]"

definition blake3_inverse_permute_msg :: "u32 list \<Rightarrow> u32 list" where
  "blake3_inverse_permute_msg msg = fold (\<lambda>i res. res[BLAKE3_MSG_PERMUTATION ! i := msg ! i]) [0..<16] (replicate 16 0)"

definition load_buffer :: "nat \<Rightarrow> message_data_type \<Rightarrow> (nat \<Rightarrow> goldilocks) list \<Rightarrow> u32 list \<Rightarrow> (anyhow, u32 list) res" where
  "load_buffer row_idx source trace buffer =
     (let uint8_data = map from_field_u8 (cols (trace ! row_idx) UINT8_DATA 8);
          word_at = (\<lambda>bs. ucast (u64_pack_le (map ucast bs) 8) :: u32);
          data = take 14 buffer @ [word_at (take 4 uint8_data), word_at (drop 4 uint8_data)]
      in case source of
           MatrixData _ \<Rightarrow> Ok data
         | AuxiliaryData _ _ \<Rightarrow> Ok data
         | PreviousCv source_row \<Rightarrow>
             if source_row < length trace then Ok (take 8 buffer @ read_words (trace ! source_row) CV_OUT 8) else Panic
         | JackpotData \<Rightarrow> Ok (read_words (trace ! row_idx) JACKPOT_MSG 16)
         | NoData \<Rightarrow> Ok buffer)"

text \<open>What the last row of a compression makes the rows of it and the seven after it hold.\<close>

definition write_messages :: "nat \<Rightarrow> u32 list \<Rightarrow> (nat \<Rightarrow> goldilocks) list \<Rightarrow> (nat \<Rightarrow> goldilocks) list" where
  "write_messages row_idx buffer trace =
     (let msg = blake3_inverse_permute_msg buffer;
          trace = trace[row_idx := write_words BLAKE3_MSG msg (write_words BLAKE3_MSG_BUFFER buffer (trace ! row_idx))];
          (msg, trace) = fold (\<lambda>r (msg, trace).
             let msg = blake3_inverse_permute_msg msg in (msg, trace[r := write_words BLAKE3_MSG msg (trace ! r)]))
             (rev [row_idx - 7..<row_idx]) (msg, trace);
          trace = fold (\<lambda>r trace.
             let len = 2 * (r + 8 - row_idx)
             in trace[r := write_words (BLAKE3_MSG_BUFFER + 16 - len) (take len buffer) (trace ! r)]) [row_idx - 7..<row_idx] trace;
          (fwd, trace) = fold (\<lambda>off (fwd, trace).
             let fwd = shift_buffer fwd; r = (row_idx + off) mod length trace
             in (fwd, trace[r := write_words BLAKE3_MSG_BUFFER (take (16 - 2 * off) fwd) (trace ! r)])) [1..<8] (buffer, trace)
      in trace)"

type_synonym blake_blocks = "(nat \<times> nat \<times> blake3_tweak) list"

definition phase1_row ::
  "blake_round_logic list \<Rightarrow> u32 list \<Rightarrow> u32 list \<Rightarrow> nat \<Rightarrow> u32 list \<times> (nat \<Rightarrow> goldilocks) list \<times> blake_blocks
   \<Rightarrow> (anyhow, u32 list \<times> (nat \<Rightarrow> goldilocks) list \<times> blake_blocks) res" where
  "phase1_row circuit key commitment row_idx = (\<lambda>(buffer, trace, blocks).
     let blake = circuit ! row_idx in
     if length circuit \<le> row_idx \<or> length circuit \<le> (row_idx + 1) mod length trace then Panic else
     res_bind (load_buffer row_idx (data_source blake) trace (shift_buffer buffer)) (\<lambda>buffer.
     res_bind (case read_cv_row blake of None \<Rightarrow> Ok (replicate 8 0)
               | Some i \<Rightarrow> if i < length trace then Ok (read_words (trace ! i) CV_OUT 8) else Panic) (\<lambda>cv_in.
     let blake3_cv = (if is_use_commitment_hash blake then commitment else if is_use_job_key blake then key else cv_in);
         trace = trace[row_idx := write_words BLAKE3_CV blake3_cv (write_words CV_IN cv_in (trace ! row_idx))]
     in if round_idx (circuit ! ((row_idx + 1) mod length trace)) \<noteq> 1 then Ok (buffer, trace, blocks)
        else if row_idx + 1 < round_idx blake \<or> length circuit \<le> row_idx + 1 - round_idx blake then Panic
        else let first = row_idx + 1 - round_idx blake; tweak = round_tweak (circuit ! first)
             in if round_idx blake = 8
                then (case tweak of None \<Rightarrow> Panic | Some tw \<Rightarrow>
                  let cv = read_words (trace ! first) BLAKE3_CV 8;
                      cv_out = bytes_to_words 8 (blake3_compress (concat (map u32_le buffer)) (concat (map u32_le cv)) tw);
                      trace = trace[row_idx := write_words CV_OUT cv_out (trace ! row_idx)]
                  in Ok (buffer, write_messages row_idx buffer trace, blocks @ [(first, row_idx, tw)]))
                else Ok (buffer, trace, blocks @ [(first, row_idx, case tweak of None \<Rightarrow> default_tweak | Some tw \<Rightarrow> tw)]))))"

definition put_states :: "u32 list list \<Rightarrow> (nat \<Rightarrow> goldilocks) \<Rightarrow> nat \<Rightarrow> goldilocks" where
  "put_states states row =
     fold (\<lambda>(i, s). put (BLAKE3_ROUND + (i + 1) * BLAKE3_STATE_SIZE) (write_blake3_state s)) (enumerate 0 (take 3 states)) row"

definition fill_row :: "bool \<Rightarrow> u32 list \<Rightarrow> (nat \<Rightarrow> goldilocks) \<Rightarrow> u32 list \<times> (nat \<Rightarrow> goldilocks)" where
  "fill_row is_pivot state row =
     (let row = put BLAKE3_ROUND (write_blake3_state state) row
      in if is_pivot then (state, write_words CV_OUT (map (\<lambda>i. state ! i XOR state ! (8 + i)) [0..<8]) row)
         else let states = compute_blake3_round state (read_words row BLAKE3_MSG 16); row = put_states states row;
                  cv_out = map (\<lambda>i. if i < 4 then states ! 0 ! (4 + i) XOR states ! 0 ! (12 + i) else state ! i XOR state ! (8 + i)) [0..<8]
              in (states ! 3, write_words CV_OUT cv_out row))"

definition fill_block_row :: "nat \<Rightarrow> nat \<Rightarrow> u32 list \<times> (nat \<Rightarrow> goldilocks) list \<Rightarrow> u32 list \<times> (nat \<Rightarrow> goldilocks) list" where
  "fill_block_row pivot row_idx = (\<lambda>(state, trace).
     let (state, row) = fill_row (row_idx = pivot) state (trace ! row_idx) in (state, trace[row_idx := row]))"

definition fill_block :: "nat \<times> nat \<times> blake3_tweak \<Rightarrow> (nat \<Rightarrow> goldilocks) list \<Rightarrow> (nat \<Rightarrow> goldilocks) list" where
  "fill_block = (\<lambda>(first, pivot, params) trace.
     snd (fold (fill_block_row pivot) [first..<pivot + 1] (init_words (read_words (trace ! first) BLAKE3_CV 8) params, trace)))"

definition read_state :: "(nat \<Rightarrow> goldilocks) \<Rightarrow> u32 list" where
  "read_state row = read_words row BLAKE3_ROUND 4 @ read_bits_as_u32s row (BLAKE3_ROUND + 4)
     @ read_words row (BLAKE3_ROUND + 4 + 128) 4 @ read_bits_as_u32s row (BLAKE3_ROUND + 4 + 128 + 4)"

definition postprocess_round8_row :: "(nat \<Rightarrow> goldilocks) \<Rightarrow> (nat \<Rightarrow> goldilocks) \<Rightarrow> nat \<Rightarrow> goldilocks" where
  "postprocess_round8_row row next_row =
     put_states (postprocess_row (read_state row) (read_words row BLAKE3_MSG 16) (read_state next_row)) row"

definition postprocess_round8_rows :: "blake_round_logic list \<Rightarrow> (nat \<Rightarrow> goldilocks) list \<Rightarrow> (nat \<Rightarrow> goldilocks) list" where
  "postprocess_round8_rows circuit trace = fold (\<lambda>row_idx trace.
     let nxt = (row_idx + 1) mod length trace
     in if round_idx (circuit ! nxt) \<noteq> 1 then trace
        else trace[row_idx := postprocess_round8_row (trace ! row_idx) (trace ! nxt)]) [0..<length trace] trace"

primrec phase1 ::
  "blake_round_logic list \<Rightarrow> u32 list \<Rightarrow> u32 list \<Rightarrow> nat list \<Rightarrow> u32 list \<times> (nat \<Rightarrow> goldilocks) list \<times> blake_blocks
   \<Rightarrow> (anyhow, u32 list \<times> (nat \<Rightarrow> goldilocks) list \<times> blake_blocks) res" where
  "phase1 circuit key commitment [] s = Ok s"
| "phase1 circuit key commitment (r # rs) s =
     res_bind (phase1_row circuit key commitment r s) (phase1 circuit key commitment rs)"

definition fill_blake_data ::
  "bytes \<Rightarrow> bytes \<Rightarrow> blake_round_logic list \<Rightarrow> (nat \<Rightarrow> goldilocks) list \<Rightarrow> (anyhow, (nat \<Rightarrow> goldilocks) list) res" where
  "fill_blake_data key commitment circuit trace =
     res_bind (phase1 circuit (bytes_to_words 8 key) (bytes_to_words 8 commitment) [0..<length trace] (replicate 16 0, trace, []))
       (\<lambda>(_, trace, blocks). Ok (postprocess_round8_rows circuit (fold fill_block blocks trace)))"

definition encode_state :: "u32 list \<Rightarrow> 'v::comm_ring_1 blake3_state" where
  "encode_state s = \<lparr>row1 = map unsigned (take 4 s), row2 = map bit_list (take 4 (drop 4 s)),
     row3 = map unsigned (take 4 (drop 8 s)), row4 = map bit_list (take 4 (drop 12 s))\<rparr>"

section \<open>What is filled satisfies the constraints\<close>

lemma overflow_roots:
  "d = 0 \<or> d = 2 ^ 32 \<or> d = 2 ^ 33 \<Longrightarrow> (of_int d :: 'v::idom) * (of_int d - 2 ^ 32) * (of_int d - 2 ^ 32 - 2 ^ 32) = 0"
  "d = 0 \<or> d = 2 ^ 32 \<Longrightarrow> (of_int d :: 'v::idom) * (of_int d - 2 ^ 32) = 0"
  by (elim disjE; simp)+

lemma add3_complete: "holds_at n r (add3_unchecked (unsigned (a + b + c)) (unsigned a) (unsigned b) (unsigned (c :: u32) :: 'v::idom))"
proof -
  let ?d = "uint a + uint b + uint c - uint (a + b + c)"
  have "uint (a + b + c) = (uint a + uint b + uint c) mod 2 ^ 32" by (simp add: uint_word_ariths mod_simps)
  then have "?d = 2 ^ 32 * ((uint a + uint b + uint c) div 2 ^ 32)" by (simp add: minus_mod_eq_mult_div)
  moreover have "(uint a + uint b + uint c) div 2 ^ 32 \<in> {0, 1, 2}"
  proof -
    have "0 \<le> (uint a + uint b + uint c) div 2 ^ 32" "(uint a + uint b + uint c) div 2 ^ 32 < 3"
      using uint_u32 [of a] uint_u32 [of b] uint_u32 [of c] by (simp_all add: pos_imp_zdiv_nonneg_iff)
    then show ?thesis by auto
  qed
  ultimately have "?d = 0 \<or> ?d = 2 ^ 32 \<or> ?d = 2 ^ 33" by auto
  from overflow_roots(1) [OF this, where 'v = 'v] show ?thesis unfolding add3_unchecked_def Let_def holds_at.simps by simp
qed

lemma add2_complete: "holds_at n r (add2_unchecked (unsigned (a + b)) (unsigned a) (unsigned (b :: u32) :: 'v::idom))"
proof -
  let ?d = "uint a + uint b - uint (a + b)"
  have "?d = 0 \<or> ?d = 2 ^ 32" using uint_u32 [of a] uint_u32 [of b] by (simp add: uint_plus_if')
  from overflow_roots(2) [OF this, where 'v = 'v] show ?thesis unfolding add2_unchecked_def Let_def holds_at.simps by simp
qed

lemma bit_list_bools [simp]: "x \<in> set (bit_list w :: 'v::comm_ring_1 list) \<Longrightarrow> x = 0 \<or> x = 1"
  by (auto simp: bit_list_def)

lemma xor_shift_complete:
  assumes "s < 32"
  shows "all_hold n r (xor_32_shift_if (unsigned (a XOR word_rotl s w) :: 'v::idom) (bit_list a) (bit_list w) act s)"
proof -
  have "xor_bit (bit_list a ! i) (bit_list w ! ((i + 32 - s) mod 32)) = (of_bool (bit (a XOR word_rotl s w) i) :: 'v)" if "i < 32" for i
    using that assms by (simp add: bit_xor_iff bit_word_rotl_iff)
  then have "map (\<lambda>i. xor_bit (bit_list a ! i) (bit_list w ! ((i + 32 - s) mod 32))) [0..<32] = (bit_list (a XOR word_rotl s w) :: 'v list)"
    by (simp add: bit_list_def)
  then show ?thesis by (simp add: xor_32_shift_if_def)
qed

lemma xor_shift_idle: "all_hold n r (xor_32_shift_if res a (bit_list w) (0 :: 'v::idom) s)"
  by (simp add: xor_32_shift_if_def)

lemma half_g_complete:
  assumes "half_quarter_round a b c d m flag = (a', b', c', d')"
  shows "all_hold n r (half_g (unsigned a) (bit_list b) (unsigned c) (bit_list d) (unsigned m) flag
    (unsigned a') (bit_list b') (unsigned c') (bit_list d') (act :: 'v::idom))"
proof -
  obtain r1 r2 :: nat where rot: "(if flag then (8, 7) else (16, 12)) = (r1, r2)" "r1 < 32" "r2 < 32" by (cases flag) auto
  have q: "a' = a + b + m" "d' = word_rotr r1 (d XOR a')" "c' = c + d'" "b' = word_rotr r2 (b XOR c')"
    using assms unfolding half_quarter_round_def rot(1) by (auto simp: Let_def)
  have x: "a' = d XOR word_rotl r1 d'" "c' = b XOR word_rotl r2 b'" by (simp_all add: q(2,4) xor.assoc [symmetric])
  show ?thesis
    unfolding half_g_def rot(1) Let_def prod.case
    using add3_complete [of n r a b m] add2_complete [of n r c d'] xor_shift_complete [OF rot(2), of n r d d' act] xor_shift_complete [OF rot(3), of n r b b' act]
    by (simp add: q(1,3) [symmetric] x [symmetric])
qed

lemma half_g_idle:
  "all_hold n r (half_g (unsigned a) (bit_list b) (unsigned c) d (unsigned m) flag
    (unsigned (a + b + m)) (bit_list b') (unsigned (c + d')) (bit_list d') (0 :: 'v::idom))"
  using add3_complete [of n r a b m] add2_complete [of n r c d'] by (simp add: half_g_def Let_def xor_shift_idle split: prod.splits)

lemma encodes_encode_state: "length s = 16 \<Longrightarrow> encodes s (encode_state s :: 'v::comm_ring_1 blake3_state)"
  by (elim list_16) (simp add: encodes_def encode_state_def all_less_4)

lemma round_quarter_cells:
  assumes "length s = 16" "sh = 0 \<or> sh = 1" "i < 4"
    and "half_quarter_round (s ! i) (s ! (4 + (i + sh) mod 4)) (s ! (8 + (i + 2 * sh) mod 4)) (s ! (12 + (i + 3 * sh) mod 4)) (m ! (base + 2 * i)) flag = (a, b, c, d)"
  shows "round_quarter sh base flag m s ! i = a \<and> round_quarter sh base flag m s ! (4 + (i + sh) mod 4) = b
    \<and> round_quarter sh base flag m s ! (8 + (i + 2 * sh) mod 4) = c \<and> round_quarter sh base flag m s ! (12 + (i + 3 * sh) mod 4) = d"
proof -
  define q where "q = (\<lambda>i. half_quarter_round (s ! i) (s ! (4 + (i + sh) mod 4)) (s ! (8 + (i + 2 * sh) mod 4)) (s ! (12 + (i + 3 * sh) mod 4))
    (m ! (base + 2 * i)) flag)"
  obtain a0 b0 c0 d0 where q0: "q 0 = (a0, b0, c0, d0)" by (cases "q 0")
  obtain a1 b1 c1 d1 where q1: "q 1 = (a1, b1, c1, d1)" by (cases "q 1")
  obtain a2 b2 c2 d2 where q2: "q 2 = (a2, b2, c2, d2)" by (cases "q 2")
  obtain a3 b3 c3 d3 where q3: "q 3 = (a3, b3, c3, d3)" by (cases "q 3")
  have qi: "q i = (a, b, c, d)" using assms(4) by (simp add: q_def)
  have four: "i = 0 \<or> i = 1 \<or> i = 2 \<or> i = 3" using assms(3) by auto
  show ?thesis
    using assms(1,2)
  proof (elim list_16 disjE)
    fix x0 x1 x2 x3 x4 x5 x6 x7 x8 x9 x10 x11 x12 x13 x14 x15
    assume s: "s = [x0, x1, x2, x3, x4, x5, x6, x7, x8, x9, x10, x11, x12, x13, x14, x15]" and "sh = 0"
    then have "round_quarter sh base flag m s = [a0, a1, a2, a3, b0, b1, b2, b3, c0, c1, c2, c3, d0, d1, d2, d3]"
      using q0 q1 q2 q3 by (simp add: round_quarter_def upt_4 round_pass_at_def q_def)
    then show ?thesis using four qi q0 q1 q2 q3 unfolding \<open>sh = 0\<close> by (elim disjE) auto
  next
    fix x0 x1 x2 x3 x4 x5 x6 x7 x8 x9 x10 x11 x12 x13 x14 x15
    assume s: "s = [x0, x1, x2, x3, x4, x5, x6, x7, x8, x9, x10, x11, x12, x13, x14, x15]" and "sh = 1"
    then have "round_quarter sh base flag m s = [a0, a1, a2, a3, b3, b0, b1, b2, c2, c3, c0, c1, d1, d2, d3, d0]"
      using q0 q1 q2 q3 by (simp add: round_quarter_def upt_4 round_pass_at_def q_def)
    then show ?thesis using four qi q0 q1 q2 q3 unfolding \<open>sh = 1\<close> by (elim disjE) auto
  qed
qed

lemma quarter_complete:
  assumes enc: "encodes s st" "encodes (round_quarter sh base flag m s) st'" and s: "length s = 16" and sh: "sh = 0 \<or> sh = 1"
    and msg: "\<forall>i<4. msg ! (base + 2 * i) = unsigned (m ! (base + 2 * i) :: u32)" and i: "i < 4"
  shows "all_hold n r (quarter_constraints sh st st' msg base flag (act :: 'v::idom) i)"
proof -
  obtain a b c d where q: "half_quarter_round (s ! i) (s ! (4 + (i + sh) mod 4)) (s ! (8 + (i + 2 * sh) mod 4)) (s ! (12 + (i + 3 * sh) mod 4)) (m ! (base + 2 * i)) flag = (a, b, c, d)"
    by (metis prod_cases4)
  show ?thesis
    using half_g_complete [OF q, of n r act] round_quarter_cells [OF s sh i q] enc msg i
    by (simp add: quarter_constraints_def encodes_def)
qed

lemma round_quarter_length [simp]: "length (round_quarter sh base flag m s) = length s"
  by (simp add: round_quarter_def upt_4)

lemma verify_round_iff:
  "all_hold n r (verify_round states msg act) \<longleftrightarrow>
    (\<forall>i<4. all_hold n r (quarter_constraints 0 (states ! 0) (states ! 1) msg 0 False act i))
    \<and> (\<forall>i<4. all_hold n r (quarter_constraints 0 (states ! 1) (states ! 2) msg 1 True act i))
    \<and> (\<forall>i<4. all_hold n r (quarter_constraints 1 (states ! 2) (states ! 3) msg 8 False act i))
    \<and> (\<forall>i<4. all_hold n r (quarter_constraints 1 (states ! 3) (states ! 4) msg 9 True act i))"
  by (simp add: verify_round_def quarter_constraints_def all_less_4 upt_4 conj_assoc)

lemma round_complete:
  assumes s: "length s = 16" and m: "length m = 16"
  shows "all_hold n r (verify_round (map encode_state (s # compute_blake3_round s m)) (map unsigned m) (act :: 'v::idom))"
proof -
  have words: "\<forall>i<4. map unsigned m ! (k + 2 * i) = (unsigned (m ! (k + 2 * i)) :: 'v)" if "k \<in> {0, 1, 8, 9}" for k
    using that m by auto
  have quarter: "all_hold n r (quarter_constraints sh (encode_state t) (encode_state (round_quarter sh k flag m t)) (map unsigned m) k flag act i)"
    if "length t = 16" "i < 4" "sh = 0 \<or> sh = 1" "k \<in> {0, 1, 8, 9}" for t i sh k flag
    by (rule quarter_complete [OF encodes_encode_state encodes_encode_state that(1,3) words [OF that(4)] that(2)]) (simp_all add: that(1))
  define s0 where "s0 = round_quarter 0 0 False m s"
  define s1 where "s1 = round_quarter 0 1 True m s0"
  define s2 where "s2 = round_quarter 1 8 False m s1"
  have len: "length s0 = 16" "length s1 = 16" "length s2 = 16" by (simp_all add: s0_def s1_def s2_def s)
  have "compute_blake3_round s m = [s0, s1, s2, round_quarter 1 9 True m s2]"
    by (simp add: compute_blake3_round_def Let_def s0_def s1_def s2_def)
  then have nth: "map encode_state (s # compute_blake3_round s m) ! 0 = encode_state s" "map encode_state (s # compute_blake3_round s m) ! 1 = encode_state s0"
    "map encode_state (s # compute_blake3_round s m) ! 2 = encode_state s1" "map encode_state (s # compute_blake3_round s m) ! 3 = encode_state s2"
    "map encode_state (s # compute_blake3_round s m) ! 4 = encode_state (round_quarter 1 9 True m s2)" by simp_all
  show ?thesis
    unfolding verify_round_iff nth
    by (intro conjI allI impI) (auto simp: s0_def s1_def s2_def s intro!: quarter)
qed

lemma half_g_idle_eq:
  "ea = a + b + m \<Longrightarrow> ec = c + d' \<Longrightarrow>
   all_hold n r (half_g (unsigned a) (bit_list b) (unsigned c) d (unsigned m) flag (unsigned ea) (bit_list b') (unsigned ec) (bit_list d') (0 :: 'v::idom))"
  by (simp add: half_g_idle)

lemma replicate_4: "replicate 4 x = [x, x, x, x]" by (simp add: numeral_eq_Suc)

lemma state3_fold:
  "fold (\<lambda>i (s3r2, s3r3, s3r4).
      let b = (i + 1) mod 4; c = (i + 2) mod 4; d = (i + 3) mod 4; s3r3 = s3r3[c := nr3 ! c - nr4 ! d]; s3r4 = s3r4[d := s3r3 ! c - s1r3 ! c]
      in (s3r2[b := nr1 ! i - s3r1 ! i - msg ! (8 + 2 * i + 1)], s3r3, s3r4)) [0..<4] (replicate 4 0, replicate 4 0, replicate 4 (0 :: u32))
   = (map (\<lambda>b. nr1 ! ((b + 3) mod 4) - s3r1 ! ((b + 3) mod 4) - msg ! (8 + 2 * ((b + 3) mod 4) + 1)) [0..<4],
      map (\<lambda>c. nr3 ! c - nr4 ! ((c + 1) mod 4)) [0..<4],
      map (\<lambda>d. nr3 ! ((d + 3) mod 4) - nr4 ! d - s1r3 ! ((d + 3) mod 4)) [0..<4])"
  by (simp add: upt_4 replicate_4) (simp add: numeral_2_eq_2)

lemma postprocess_row_states:
  assumes "length s = 16" "length t = 16"
  obtains p1 p2 p3 where "postprocess_row s m t = [p1, p2, p3]" "length p1 = 16" "length p2 = 16" "length p3 = 16"
    and "\<forall>i<4. p1 ! i = s ! i + s ! (4 + i) + m ! (2 * i) \<and> p1 ! (4 + i) = s ! i \<and> p1 ! (8 + i) = s ! (8 + i) + s ! (8 + i) \<and> p1 ! (12 + i) = s ! (8 + i)"
    and "\<forall>i<4. p2 ! i = p1 ! i + s ! i + m ! (2 * i + 1) \<and> p2 ! (4 + i) = 0 \<and> p2 ! (8 + i) = p1 ! (8 + i) \<and> p2 ! (12 + i) = 0"
    and "\<forall>i<4. p3 ! i = p2 ! i + m ! (8 + 2 * i)
      \<and> p3 ! (8 + (i + 2) mod 4) = t ! (8 + (i + 2) mod 4) - t ! (12 + (i + 3) mod 4)
      \<and> p3 ! (12 + (i + 3) mod 4) = p3 ! (8 + (i + 2) mod 4) - p1 ! (8 + (i + 2) mod 4)
      \<and> p3 ! (4 + (i + 1) mod 4) = t ! i - p3 ! i - m ! (9 + 2 * i)"
proof -
  define s1r1 where "s1r1 = map (\<lambda>i. s ! i + s ! (4 + i) + m ! (2 * i)) [0..<4]"
  define s1r3 where "s1r3 = map (\<lambda>i. s ! (8 + i) + s ! (8 + i)) [0..<4]"
  define s2r1 where "s2r1 = map (\<lambda>i. s1r1 ! i + s ! i + m ! (2 * i + 1)) [0..<4]"
  define s3r1 where "s3r1 = map (\<lambda>i. s2r1 ! i + m ! (8 + 2 * i)) [0..<4]"
  define s3r3 where "s3r3 = map (\<lambda>c. t ! (8 + c) - t ! (12 + (c + 1) mod 4)) [0..<4]"
  define s3r4 where "s3r4 = map (\<lambda>d. s3r3 ! ((d + 3) mod 4) - s1r3 ! ((d + 3) mod 4)) [0..<4]"
  define s3r2 where "s3r2 = map (\<lambda>b. t ! ((b + 3) mod 4) - s3r1 ! ((b + 3) mod 4) - m ! (8 + 2 * ((b + 3) mod 4) + 1)) [0..<4]"
  have lengths: "length s1r1 = 4" "length s1r3 = 4" "length s2r1 = 4" "length s3r1 = 4" "length s3r2 = 4" "length s3r3 = 4" "length s3r4 = 4"
    by (simp_all add: s1r1_def s1r3_def s2r1_def s3r1_def s3r2_def s3r3_def s3r4_def)
  have eq: "postprocess_row s m t = [s1r1 @ take 4 s @ s1r3 @ take 4 (drop 8 s), s2r1 @ replicate 4 0 @ s1r3 @ replicate 4 0, s3r1 @ s3r2 @ s3r3 @ s3r4]"
  proof -
    have 1: "map (\<lambda>i. take 4 s ! i + take 4 (drop 4 s) ! i + m ! (2 * i)) [0..<4] = s1r1"
      "map (\<lambda>i. take 4 (drop 8 s) ! i + take 4 (drop 8 s) ! i) [0..<4] = s1r3"
      "map (\<lambda>i. s1r1 ! i + take 4 s ! i + m ! (2 * i + 1)) [0..<4] = s2r1"
      using assms by (simp_all add: s1r1_def s1r3_def s2r1_def upt_4)
    have 2: "map (\<lambda>c. take 4 (drop 8 t) ! c - take 4 (drop 12 t) ! ((c + 1) mod 4)) [0..<4] = s3r3"
      using assms by (simp add: s3r3_def upt_4)
    have 3: "map (\<lambda>b. take 4 t ! ((b + 3) mod 4) - s3r1 ! ((b + 3) mod 4) - m ! (8 + 2 * ((b + 3) mod 4) + 1)) [0..<4] = s3r2"
      using assms by (simp add: s3r2_def upt_4)
    have 4: "map (\<lambda>d. take 4 (drop 8 t) ! ((d + 3) mod 4) - take 4 (drop 12 t) ! d - s1r3 ! ((d + 3) mod 4)) [0..<4] = s3r4"
      using assms by (simp add: s3r3_def s3r4_def upt_4)
    show ?thesis unfolding postprocess_row_def Let_def 1 s3r1_def [symmetric] state3_fold [unfolded Let_def] 2 3 4 prod.case by simp
  qed
  show thesis
    using lengths assms
    by (intro that [OF eq]; (simp add: all_less_4 nth_append)?)
       (simp_all add: s1r1_def s1r3_def s2r1_def s3r1_def s3r2_def s3r3_def s3r4_def upt_4)
qed

lemma quarter_idle:
  assumes "encodes s st" "encodes s' st'" "i < 4" "msg ! (base + 2 * i) = unsigned (m ! (base + 2 * i) :: u32)"
    and "s' ! i = s ! i + s ! (4 + (i + sh) mod 4) + m ! (base + 2 * i)"
    and "s' ! (8 + (i + 2 * sh) mod 4) = s ! (8 + (i + 2 * sh) mod 4) + s' ! (12 + (i + 3 * sh) mod 4)"
  shows "all_hold n r (quarter_constraints sh st st' msg base flag (0 :: 'v::idom) i)"
proof -
  have "all_hold n r (half_g (unsigned (s ! i)) (bit_list (s ! (4 + (i + sh) mod 4))) (unsigned (s ! (8 + (i + 2 * sh) mod 4))) (row4 st ! ((i + 3 * sh) mod 4))
    (unsigned (m ! (base + 2 * i))) flag (unsigned (s' ! i)) (bit_list (s' ! (4 + (i + sh) mod 4))) (unsigned (s' ! (8 + (i + 2 * sh) mod 4)))
    (bit_list (s' ! (12 + (i + 3 * sh) mod 4))) (0 :: 'v))"
    by (rule half_g_idle_eq [OF assms(5,6)])
  then show ?thesis using assms(1-4) by (simp add: quarter_constraints_def encodes_def)
qed

lemma postprocess_complete:
  assumes s: "length s = 16" and m: "length m = 16" and t: "length t = 16"
  shows "all_hold n r (verify_round (map encode_state (s # postprocess_row s m t @ [t])) (map unsigned m) (0 :: 'v::idom))"
    and "all_hold n r (fst (finalize_blake (map encode_state (s # postprocess_row s m t @ [t])) (1 :: 'v)))"
proof -
  obtain p1 p2 p3 where p: "postprocess_row s m t = [p1, p2, p3]" "length p1 = 16" "length p2 = 16" "length p3 = 16"
    and p1: "\<forall>i<4. p1 ! i = s ! i + s ! (4 + i) + m ! (2 * i) \<and> p1 ! (4 + i) = s ! i \<and> p1 ! (8 + i) = s ! (8 + i) + s ! (8 + i) \<and> p1 ! (12 + i) = s ! (8 + i)"
    and p2: "\<forall>i<4. p2 ! i = p1 ! i + s ! i + m ! (2 * i + 1) \<and> p2 ! (4 + i) = 0 \<and> p2 ! (8 + i) = p1 ! (8 + i) \<and> p2 ! (12 + i) = 0"
    and p3: "\<forall>i<4. p3 ! i = p2 ! i + m ! (8 + 2 * i)
      \<and> p3 ! (8 + (i + 2) mod 4) = t ! (8 + (i + 2) mod 4) - t ! (12 + (i + 3) mod 4)
      \<and> p3 ! (12 + (i + 3) mod 4) = p3 ! (8 + (i + 2) mod 4) - p1 ! (8 + (i + 2) mod 4)
      \<and> p3 ! (4 + (i + 1) mod 4) = t ! i - p3 ! i - m ! (9 + 2 * i)"
    by (rule postprocess_row_states [OF s t]) blast
  have nth: "map encode_state (s # postprocess_row s m t @ [t]) ! 0 = (encode_state s :: 'v blake3_state)" "map encode_state (s # postprocess_row s m t @ [t]) ! 1 = (encode_state p1 :: 'v blake3_state)"
    "map encode_state (s # postprocess_row s m t @ [t]) ! 2 = (encode_state p2 :: 'v blake3_state)" "map encode_state (s # postprocess_row s m t @ [t]) ! 3 = (encode_state p3 :: 'v blake3_state)"
    "map encode_state (s # postprocess_row s m t @ [t]) ! 4 = (encode_state t :: 'v blake3_state)" by (simp_all add: p(1))
  note enc = encodes_encode_state [OF s, where 'v = 'v] encodes_encode_state [OF p(2), where 'v = 'v] encodes_encode_state [OF p(3), where 'v = 'v]
    encodes_encode_state [OF p(4), where 'v = 'v] encodes_encode_state [OF t, where 'v = 'v]
  have p2': "p2 ! (8 + k mod 4) = p1 ! (8 + k mod 4)" "p2 ! (4 + k mod 4) = 0" for k using p2 by simp_all
  have words: "map unsigned m ! (k + 2 * i) = (unsigned (m ! (k + 2 * i)) :: 'v)" if "k \<in> {0, 1, 8, 9}" "i < 4" for k i
    using that m by auto
  have "all_hold n r (quarter_constraints 0 (encode_state s) (encode_state p1) (map unsigned m) 0 False (0 :: 'v) i)" if "i < 4" for i
    by (rule quarter_idle [OF enc(1,2) that words]) (use p1 that in simp_all)
  moreover have "all_hold n r (quarter_constraints 0 (encode_state p1) (encode_state p2) (map unsigned m) 1 True (0 :: 'v) i)" if "i < 4" for i
    by (rule quarter_idle [OF enc(2,3) that words]) (use p1 p2 that in \<open>simp_all add: add.commute\<close>)
  moreover have "all_hold n r (quarter_constraints 1 (encode_state p2) (encode_state p3) (map unsigned m) 8 False (0 :: 'v) i)" if "i < 4" for i
    by (rule quarter_idle [OF enc(3,4) that words]) (use p3 [rule_format, OF that] p2' [of "i + 1"] p2' [of "i + 2"] that in \<open>simp_all add: algebra_simps\<close>)
  moreover have "all_hold n r (quarter_constraints 1 (encode_state p3) (encode_state t) (map unsigned m) 9 True (0 :: 'v) i)" if "i < 4" for i
    by (rule quarter_idle [OF enc(4,5) that words]) (use p3 that in \<open>simp_all add: add.commute\<close>)
  ultimately show "all_hold n r (verify_round (map encode_state (s # postprocess_row s m t @ [t])) (map unsigned m) (0 :: 'v))"
    unfolding verify_round_iff nth by blast
  have "row1 (encode_state s) ! i = polyval (row2 (encode_state p1) ! i) (2 :: 'v) \<and> row3 (encode_state s) ! i = polyval (row4 (encode_state p1) ! i) (2 :: 'v)" if "i < 4" for i
    using enc(1,2) p1 that by (simp add: encodes_def)
  then show "all_hold n r (fst (finalize_blake (map encode_state (s # postprocess_row s m t @ [t])) (1 :: 'v)))"
    unfolding finalize_blake_def nth by simp
qed

section \<open>Reading back what was written\<close>

lemma put_outside [simp]: "c < col \<or> col + length xs \<le> c \<Longrightarrow> put col xs row c = row c"
  by (auto simp: put_def)

lemma cols_put_outside: "off + n \<le> col \<or> col + length xs \<le> off \<Longrightarrow> cols (put col xs row) off n = cols row off n"
  by (auto simp: cols_def)

lemma cols_put_inside: "col \<le> off \<Longrightarrow> off + n \<le> col + length xs \<Longrightarrow> cols (put col xs row) off n = take n (drop (off - col) xs)"
  by (auto simp: put_def intro!: nth_equalityI)

lemma from_field_u32_unsigned [simp]: "from_field_u32 (unsigned (w :: u32)) = w"
proof -
  have "uint w mod GL_ORDER = uint w" using uint_u32 [of w] by (simp add: GL_ORDER_def)
  then show ?thesis unfolding from_field_u32_def unsigned_goldilocks residue_of_int by simp
qed

lemma read_words_unsigned: "cols row off n = map unsigned ws \<Longrightarrow> read_words row off n = ws"
  by (simp add: read_words_def comp_def)

lemma length_write_blake3_state [simp]: "length s = 16 \<Longrightarrow> length (write_blake3_state s) = 264"
  by (elim list_16) (simp add: write_blake3_state_def)

lemma consume_put_same:
  assumes "length s = 16"
  shows "consume_blake3_state (put off (write_blake3_state s) row) off = encode_state s"
  using assms
proof (elim list_16)
  fix x0 x1 x2 x3 x4 x5 x6 x7 x8 x9 x10 x11 x12 x13 x14 x15
  assume s: "s = [x0, x1, x2, x3, x4, x5, x6, x7, x8, x9, x10, x11, x12, x13, x14, x15]"
  have len: "length (write_blake3_state s) = 264" using assms by simp
  show ?thesis
    unfolding consume_blake3_state_def upt_4
    by (simp add: cols_put_inside len) (simp add: s write_blake3_state_def encode_state_def)
qed

lemma consume_put_outside:
  "off + 264 \<le> col \<or> col + length xs \<le> off \<Longrightarrow> consume_blake3_state (put col xs row) off = consume_blake3_state row off"
  by (auto simp: consume_blake3_state_def upt_4 cols_put_outside)

lemma u32_bits_map: "u32_bits n w = map (\<lambda>i. of_bool (bit w i)) [0..<n]"
proof (induction n arbitrary: w)
  case (Suc n)
  have "[0..<Suc n] = 0 # map Suc [0..<n]" by (simp only: upt_conv_Cons map_Suc_upt zero_less_Suc)
  then show ?case unfolding u32_bits.simps Suc by (simp add: and_one_eq bit_drop_bit_eq comp_def bit_0 mod_2_eq_odd del: upt_Suc)
qed simp

lemma read_state_encoded:
  assumes "consume_blake3_state row BLAKE3_ROUND = encode_state s" "length s = 16"
  shows "read_state row = s"
proof -
  have cells: "cols row BLAKE3_ROUND 4 = map unsigned (take 4 s)" "cols row (BLAKE3_ROUND + 132) 4 = map unsigned (take 4 (drop 8 s))"
    "map (\<lambda>i. cols row (BLAKE3_ROUND + 4 + 32 * i) 32) [0..<4] = map bit_list (take 4 (drop 4 s))"
    "map (\<lambda>i. cols row (BLAKE3_ROUND + 136 + 32 * i) 32) [0..<4] = map bit_list (take 4 (drop 12 s))"
    using assms(1) by (simp_all add: consume_blake3_state_def encode_state_def)
  have bits: "read_bits_as_u32 (map from_field_u32 (bit_list w)) = w" for w
  proof -
    have "map from_field_u32 (bit_list w) = map (\<lambda>i. of_bool (bit w i)) [0..<32]"
    proof -
      have "from_field_u32 (of_bool b) = of_bool b" for b using from_field_u32_unsigned [of 0] from_field_u32_unsigned [of 1] by simp
      then show ?thesis by (simp add: bit_list_def)
    qed
    moreover have "write_u32_as_bits w = map (\<lambda>i. of_bool (bit w i)) [0..<32]" by (simp only: write_u32_as_bits_def u32_bits_map)
    ultimately show ?thesis using bits_roundtrip [of w] by simp
  qed
  have group: "read_bits_as_u32s row off = ws" if "map (\<lambda>i. cols row (off + 32 * i) 32) [0..<4] = map bit_list ws" for off ws
  proof -
    have "read_bits_as_u32s row off = map (\<lambda>bs. read_bits_as_u32 (map from_field_u32 bs)) (map (\<lambda>i. cols row (off + 32 * i) 32) [0..<4])"
      by (simp add: read_bits_as_u32s_def read_words_def mult.commute)
    then show ?thesis unfolding that by (simp add: comp_def bits)
  qed
  have "read_bits_as_u32s row (BLAKE3_ROUND + 4) = take 4 (drop 4 s)" "read_bits_as_u32s row (BLAKE3_ROUND + 4 + 128 + 4) = take 4 (drop 12 s)"
    using group [OF cells(3)] group [of "BLAKE3_ROUND + 136"] cells(4) by (simp_all add: add.assoc)
  moreover have "take 4 s @ take 4 (drop 4 s) @ take 4 (drop 8 s) @ take 4 (drop 12 s) = s"
    using assms(2) by (elim list_16) simp
  ultimately show ?thesis
    using read_words_unsigned [OF cells(1)] read_words_unsigned [OF cells(2)]
    unfolding read_state_def by (simp add: add.assoc)
qed

section \<open>A filled row\<close>

lemma put_states_eq:
  "put_states (s1 # s2 # s3 # rest) row =
     put (BLAKE3_ROUND + 792) (write_blake3_state s3) (put (BLAKE3_ROUND + 528) (write_blake3_state s2) (put (BLAKE3_ROUND + 264) (write_blake3_state s1) row))"
  by (simp add: put_states_def BLAKE3_STATE_SIZE_def)

lemma put_states_cells:
  assumes "length s1 = 16" "length s2 = 16" "length s3 = 16"
  shows "consume_blake3_state (put_states (s1 # s2 # s3 # rest) row) BLAKE3_ROUND = consume_blake3_state row BLAKE3_ROUND"
    and "consume_blake3_state (put_states (s1 # s2 # s3 # rest) row) (BLAKE3_ROUND + 264) = encode_state s1"
    and "consume_blake3_state (put_states (s1 # s2 # s3 # rest) row) (BLAKE3_ROUND + 528) = encode_state s2"
    and "consume_blake3_state (put_states (s1 # s2 # s3 # rest) row) (BLAKE3_ROUND + 792) = encode_state s3"
    and "c < BLAKE3_ROUND + 264 \<or> CV_OUT \<le> c \<Longrightarrow> put_states (s1 # s2 # s3 # rest) row c = row c"
  using assms
  by (auto simp: put_states_eq consume_put_outside consume_put_same columns)

lemma row_states_encoded:
  assumes "consume_blake3_state row BLAKE3_ROUND = encode_state s" "consume_blake3_state nxt BLAKE3_ROUND = encode_state t"
    and "length p1 = 16" "length p2 = 16" "length p3 = 16"
  shows "row_states (put_states (p1 # p2 # p3 # rest) row) nxt = map encode_state [s, p1, p2, p3, t]"
  using put_states_cells(1-4) [OF assms(3-5), of rest row] assms(1,2) by (simp add: row_states_def BLAKE3_STATE_SIZE_def)

lemma consume_cong: "(\<And>c. off \<le> c \<Longrightarrow> c < off + 264 \<Longrightarrow> row c = row' c) \<Longrightarrow> consume_blake3_state row off = consume_blake3_state row' off"
  by (auto simp: consume_blake3_state_def cols_def)

lemma finalize_words:
  assumes "length s = 16" "length p = 16"
  shows "snd (finalize_blake (map encode_state (s # p # rest)) act)
     = (map unsigned (map (\<lambda>i. if i < 4 then p ! (4 + i) XOR p ! (12 + i) else s ! i XOR s ! (8 + i)) [0..<8]) :: 'v::comm_ring_1 list)"
proof -
  have "row2 (encode_state s) ! i = (bit_list (s ! (4 + i)) :: 'v list) \<and> row4 (encode_state s) ! i = (bit_list (s ! (12 + i)) :: 'v list)"
    "row2 (encode_state p) ! i = (bit_list (p ! (4 + i)) :: 'v list) \<and> row4 (encode_state p) ! i = (bit_list (p ! (12 + i)) :: 'v list)" if "i < 4" for i
    using that assms by (simp_all add: encode_state_def)
  note cells = this
  show ?thesis
  proof (rule nth_equalityI)
    fix i assume "i < length (snd (finalize_blake (map encode_state (s # p # rest)) (act :: 'v)))"
    then have i: "i < 8" by (simp add: finalize_blake_def Let_def)
    show "snd (finalize_blake (map encode_state (s # p # rest)) act) ! i
      = (map unsigned (map (\<lambda>i. if i < 4 then p ! (4 + i) XOR p ! (12 + i) else s ! i XOR s ! (8 + i)) [0..<8]) ! i :: 'v)"
    proof (cases "i < 4")
      case True
      then show ?thesis using cells(2) [OF True] by (simp add: finalize_blake_def Let_def xor_bits)
    next
      case False
      then have "i - 4 < 4" "4 + (i - 4) = i" "12 + (i - 4) = 8 + i" using i by simp_all
      then show ?thesis using cells(1) [of "i - 4"] i False by (simp add: finalize_blake_def Let_def xor_bits)
    qed
  qed (simp add: finalize_blake_def Let_def)
qed

lemma compute_round_cases:
  assumes "length s = 16"
  obtains s0 s1 s2 s3 where "compute_blake3_round s m = [s0, s1, s2, s3]" "length s0 = 16" "length s1 = 16" "length s2 = 16" "length s3 = 16"
  using assms by (simp add: compute_blake3_round_def Let_def)

text \<open>The row of a round that is not the last, and the row after the last round.\<close>

lemma fill_row_round:
  assumes s: "length s = 16" and m: "cols row BLAKE3_MSG 16 = map unsigned m" and c: "compute_blake3_round s m = [s0, s1, s2, s3]"
    and len: "length s0 = 16" "length s1 = 16" "length s2 = 16"
    and nxt: "consume_blake3_state nxt BLAKE3_ROUND = encode_state t"
  shows "fst (fill_row False s row) = s3"
    and "row_states (snd (fill_row False s row)) nxt = map encode_state [s, s0, s1, s2, t]"
    and "c < BLAKE3_ROUND \<or> CV_OUT + 8 \<le> c \<Longrightarrow> snd (fill_row False s row) c = row c"
    and "cols (snd (fill_row False s row)) CV_OUT 8
      = map unsigned (map (\<lambda>i. if i < 4 then s0 ! (4 + i) XOR s0 ! (12 + i) else s ! i XOR s ! (8 + i)) [0..<8])"
proof -
  let ?row = "put BLAKE3_ROUND (write_blake3_state s) row"
  let ?out = "map (\<lambda>i. if i < 4 then s0 ! (4 + i) XOR s0 ! (12 + i) else s ! i XOR s ! (8 + i)) [0..<8]"
  have read: "read_words ?row BLAKE3_MSG 16 = m"
    using m by (intro read_words_unsigned) (simp add: cols_put_outside s columns)
  then have eq: "fill_row False s row = (s3, write_words CV_OUT ?out (put_states [s0, s1, s2, s3] ?row))"
    unfolding fill_row_def Let_def if_False read c nth_Cons_0 by simp
  have st: "consume_blake3_state ?row BLAKE3_ROUND = encode_state s" by (rule consume_put_same [OF s])
  have same: "consume_blake3_state (write_words CV_OUT ?out x) (BLAKE3_ROUND + k) = consume_blake3_state x (BLAKE3_ROUND + k)" if "k \<le> 792" for k x
    unfolding write_words_def using that by (intro consume_put_outside) (simp add: columns)
  show "fst (fill_row False s row) = s3" by (simp add: eq)
  have "row_states (snd (fill_row False s row)) nxt = row_states (put_states [s0, s1, s2, s3] ?row) nxt"
    using same [of 0] same [of 264] same [of 528] same [of 792] by (simp add: eq row_states_def BLAKE3_STATE_SIZE_def)
  then show "row_states (snd (fill_row False s row)) nxt = map encode_state [s, s0, s1, s2, t]"
    by (simp only: row_states_encoded [OF st nxt len])
  show "snd (fill_row False s row) c = row c" if "c < BLAKE3_ROUND \<or> CV_OUT + 8 \<le> c"
    using that put_states_cells(5) [OF len, of c "[s3]" ?row] s by (auto simp: eq write_words_def columns)
  show "cols (snd (fill_row False s row)) CV_OUT 8 = map unsigned ?out"
    by (simp add: eq write_words_def cols_put_inside)
qed

lemma fill_row_pivot:
  assumes s: "length s = 16"
  shows "fst (fill_row True s row) = s"
    and "consume_blake3_state (snd (fill_row True s row)) BLAKE3_ROUND = encode_state s"
    and "c < BLAKE3_ROUND \<or> CV_OUT + 8 \<le> c \<Longrightarrow> snd (fill_row True s row) c = row c"
    and "cols (snd (fill_row True s row)) CV_OUT 8 = map unsigned (map (\<lambda>i. s ! i XOR s ! (8 + i)) [0..<8])"
  using s by (auto simp: fill_row_def Let_def write_words_def cols_put_inside consume_put_outside consume_put_same columns)

lemma postprocess_round8_row_cells:
  assumes row: "consume_blake3_state row BLAKE3_ROUND = encode_state s" and s: "length s = 16"
    and nxt: "consume_blake3_state nxt BLAKE3_ROUND = encode_state t" and t: "length t = 16"
    and m: "cols row BLAKE3_MSG 16 = map unsigned m"
  shows "row_states (postprocess_round8_row row nxt) nxt = map encode_state (s # postprocess_row s m t @ [t])"
    and "c < BLAKE3_ROUND + 264 \<or> CV_OUT \<le> c \<Longrightarrow> postprocess_round8_row row nxt c = row c"
    and "consume_blake3_state (postprocess_round8_row row nxt) BLAKE3_ROUND = encode_state s"
    and "postprocess_row s m t ! 0 ! (4 + i) XOR postprocess_row s m t ! 0 ! (12 + i) = s ! i XOR s ! (8 + i) \<or> 4 \<le> i"
proof -
  obtain p1 p2 p3 where p: "postprocess_row s m t = [p1, p2, p3]" "length p1 = 16" "length p2 = 16" "length p3 = 16"
    and p1: "\<forall>i<4. p1 ! i = s ! i + s ! (4 + i) + m ! (2 * i) \<and> p1 ! (4 + i) = s ! i \<and> p1 ! (8 + i) = s ! (8 + i) + s ! (8 + i) \<and> p1 ! (12 + i) = s ! (8 + i)"
    by (rule postprocess_row_states [OF s t]) blast
  have eq: "postprocess_round8_row row nxt = put_states [p1, p2, p3] row"
    by (simp only: postprocess_round8_row_def read_state_encoded [OF row s] read_state_encoded [OF nxt t] read_words_unsigned [OF m] p(1))
  show "row_states (postprocess_round8_row row nxt) nxt = map encode_state (s # postprocess_row s m t @ [t])"
    unfolding eq row_states_encoded [OF row nxt p(2-4)] p(1) by simp
  show "c < BLAKE3_ROUND + 264 \<or> CV_OUT \<le> c \<Longrightarrow> postprocess_round8_row row nxt c = row c"
    unfolding eq by (rule put_states_cells(5) [OF p(2-4)])
  show "consume_blake3_state (postprocess_round8_row row nxt) BLAKE3_ROUND = encode_state s"
    unfolding eq put_states_cells(1) [OF p(2-4)] by (rule row)
  show "postprocess_row s m t ! 0 ! (4 + i) XOR postprocess_row s m t ! 0 ! (12 + i) = s ! i XOR s ! (8 + i) \<or> 4 \<le> i"
    using p1 by (auto simp: p(1) not_le)
qed

section \<open>The initial state\<close>

lemma polyval_bits: "polyval (map of_bool bs) 2 = (of_int (horner_sum of_bool 2 bs) :: 'v::comm_ring_1)"
  by (induction bs) simp_all

lemma high_bits_zero: "(\<And>i. k \<le> i \<Longrightarrow> \<not> bit w i) \<Longrightarrow> \<forall>b \<in> set (drop k (bit_list (w :: u32) :: 'v::comm_ring_1 list)). b = 0"
  by (auto simp: bit_list_def drop_map)

lemma tweak_cells:
  assumes tw: "unat (tweak_flags tw) < 2 ^ 8" "unat (block_len tw) < 2 ^ 7"
  shows "polyval (bit_list (counter_low tw) @ take 16 (bit_list (ucast (counter_high tw))) @ take 8 (bit_list (tweak_flags tw))
      @ take 7 (bit_list (block_len tw))) 2 = gl (pack_blake3_tweak tw)"
    and "\<forall>b \<in> set (drop 16 (bit_list (ucast (counter_high tw) :: u32))) \<union> set (drop 7 (bit_list (block_len tw))) \<union> set (drop 8 (bit_list (tweak_flags tw))).
      b = (0 :: goldilocks)"
proof -
  let ?p = "pack_blake3_tweak tw"
  let ?bs = "map (bit (counter_low tw)) [0..<32] @ map (bit (ucast (counter_high tw) :: u32)) [0..<16] @ map (bit (tweak_flags tw)) [0..<8]
    @ map (bit (block_len tw)) [0..<7]"
  have "?bs = map (bit ?p) [0..<63]"
  proof (rule nth_equalityI)
    fix i assume "i < length ?bs"
    then have i: "i < 63" by simp
    consider "i < 32" | "32 \<le> i" "i < 48" | "48 \<le> i" "i < 56" | "56 \<le> i" by linarith
    then show "?bs ! i = map (bit ?p) [0..<63] ! i"
    proof cases
      case 1
      then show ?thesis using pack_tweak_bits(1) [OF tw, of i] by (simp add: nth_append)
    next
      case 2
      then have "i - 32 < 16" by linarith
      then show ?thesis using pack_tweak_bits(2) [OF tw, of "i - 32"] 2 i by (simp add: nth_append bit_simps)
    next
      case 3
      then have "i - 48 < 8" "\<not> i - 32 < 16" by linarith+
      then show ?thesis using pack_tweak_bits(3) [OF tw, of "i - 48"] 3 i by (simp add: nth_append)
    next
      case 4
      then have "i - 56 < 7" "\<not> i - 48 < 8" "\<not> i - 32 < 16" using i by linarith+
      then show ?thesis using pack_tweak_bits(4) [OF tw, of "i - 56"] 4 i by (simp add: nth_append)
    qed
  qed simp
  also have "\<dots> = map (bit (uint ?p)) [0..<63]" by (simp add: bit_uint_iff)
  finally have "horner_sum of_bool 2 ?bs = take_bit 63 (uint ?p)" by (simp only: horner_sum_bit_eq_take_bit)
  then have h: "horner_sum of_bool 2 ?bs = uint ?p"
    using pack_tweak_bits(5) [OF tw] by (simp add: take_bit_int_eq_self_iff)
  have "bit_list (counter_low tw) @ take 16 (bit_list (ucast (counter_high tw))) @ take 8 (bit_list (tweak_flags tw))
      @ take 7 (bit_list (block_len tw)) = (map of_bool ?bs :: goldilocks list)"
    by (simp add: bit_list_def take_map comp_def)
  then show "polyval (bit_list (counter_low tw) @ take 16 (bit_list (ucast (counter_high tw))) @ take 8 (bit_list (tweak_flags tw))
      @ take 7 (bit_list (block_len tw))) 2 = gl (pack_blake3_tweak tw)"
    by (simp only: polyval_bits h gl_def)
  show "\<forall>b \<in> set (drop 16 (bit_list (ucast (counter_high tw) :: u32))) \<union> set (drop 7 (bit_list (block_len tw))) \<union> set (drop 8 (bit_list (tweak_flags tw))).
      b = (0 :: goldilocks)"
  proof -
    have "\<not> bit (ucast (counter_high tw) :: u32) i" if "16 \<le> i" for i using that by (auto simp: bit_simps dest: bit_imp_le_length)
    moreover have "\<not> bit (tweak_flags tw) i" if "8 \<le> i" for i using pack_tweak_bits(6) [OF tw, of i] that by auto
    moreover have "\<not> bit (block_len tw) i" if "7 \<le> i" for i using pack_tweak_bits(7) [OF tw, of i] that by auto
    ultimately show ?thesis using high_bits_zero [where 'v = goldilocks] by (metis Un_iff)
  qed
qed

lemma init_complete:
  assumes "length cv = 8" and tw: "unat (tweak_flags tw) < 2 ^ 8" "unat (block_len tw) < 2 ^ 7"
  shows "all_hold n r (verify_init_state (encode_state (init_words cv tw)) flag (map unsigned cv) (gl (pack_blake3_tweak tw)))"
proof -
  have w: "row1 (encode_state (init_words cv tw)) ! i = unsigned (cv ! i)" "row3 (encode_state (init_words cv tw)) ! i = (unsigned (BLAKE3_IV ! i) :: goldilocks)"
    "row2 (encode_state (init_words cv tw)) ! i = bit_list (cv ! (4 + i))" if "i < 4" for i
  proof -
    have "i = 0 \<or> i = 1 \<or> i = 2 \<or> i = 3" using that by auto
    then show "row1 (encode_state (init_words cv tw)) ! i = unsigned (cv ! i)" "row3 (encode_state (init_words cv tw)) ! i = (unsigned (BLAKE3_IV ! i) :: goldilocks)"
      "row2 (encode_state (init_words cv tw)) ! i = bit_list (cv ! (4 + i))"
      using assms(1) by (auto simp: encode_state_def init_words_def BLAKE3_IV_def)
  qed
  have r4: "row4 (encode_state (init_words cv tw)) = [bit_list (counter_low tw), bit_list (ucast (counter_high tw)), bit_list (block_len tw), bit_list (tweak_flags tw)]"
    using assms(1) by (simp add: encode_state_def init_words_def BLAKE3_IV_def)
  have "polyval (row2 (encode_state (init_words cv tw)) ! i) 2 = (unsigned (cv ! (i + 4)) :: goldilocks)" if "i < 4" for i
    unfolding w(3) [OF that] polyval_bit_list by (simp only: add.commute)
  then show ?thesis
    using w(1,2) tweak_cells [OF tw] assms(1) unfolding verify_init_state_def Let_def r4 
    by (auto simp: add.commute polyval_bit_list)
qed

section \<open>A filled block\<close>

text \<open>The state before each of the rounds, for the messages of the rows.\<close>

primrec state_before :: "(nat \<Rightarrow> u32 list) \<Rightarrow> u32 list \<Rightarrow> nat \<Rightarrow> u32 list" where
  "state_before ms s 0 = s"
| "state_before ms s (Suc k) = compute_blake3_round (state_before ms s k) (ms k) ! 3"

lemma length_state_before [simp]: "length s = 16 \<Longrightarrow> length (state_before ms s k) = 16"
proof (induction k)
  case (Suc k)
  then obtain s0 s1 s2 s3 where "compute_blake3_round (state_before ms s k) (ms k) = [s0, s1, s2, s3]" "length s3 = 16"
    by (metis compute_round_cases)
  then show ?case by (simp add: numeral_3_eq_3)
qed simp

lemma fill_row_state:
  assumes "length s = 16" "cols row BLAKE3_MSG 16 = map unsigned m"
  shows "fst (fill_row False s row) = compute_blake3_round s m ! 3"
    and "consume_blake3_state (snd (fill_row False s row)) BLAKE3_ROUND = encode_state s"
    and "c < BLAKE3_ROUND \<or> CV_OUT + 8 \<le> c \<Longrightarrow> snd (fill_row False s row) c = row c"
proof -
  obtain s0 s1 s2 s3 where c: "compute_blake3_round s m = [s0, s1, s2, s3]" and l: "length s0 = 16" "length s1 = 16" "length s2 = 16"
    by (rule compute_round_cases [OF assms(1)])
  let ?nxt = "put BLAKE3_ROUND (write_blake3_state s) row"
  have n: "consume_blake3_state ?nxt BLAKE3_ROUND = encode_state s" by (rule consume_put_same [OF assms(1)])
  note f = fill_row_round [OF assms(1,2) c l n]
  show "fst (fill_row False s row) = compute_blake3_round s m ! 3" by (simp add: f(1) c numeral_3_eq_3)
  have "row_states (snd (fill_row False s row)) ?nxt ! 0 = encode_state s" unfolding f(2) by simp
  then show "consume_blake3_state (snd (fill_row False s row)) BLAKE3_ROUND = encode_state s" by simp
  show "c < BLAKE3_ROUND \<or> CV_OUT + 8 \<le> c \<Longrightarrow> snd (fill_row False s row) c = row c" by (rule f(3))
qed

lemma fill_rows:
  assumes "length s = 16" "first + k \<le> pivot" "pivot < length trace"
    and "\<forall>j<k. cols (trace ! (first + j)) BLAKE3_MSG 16 = map unsigned (ms j)"
  shows "\<exists>trace'. fold (fill_block_row pivot) [first..<first + k] (s, trace) = (state_before ms s k, trace') \<and> length trace' = length trace
    \<and> (\<forall>i. i < first \<or> first + k \<le> i \<longrightarrow> trace' ! i = trace ! i)
    \<and> (\<forall>j<k. trace' ! (first + j) = snd (fill_row False (state_before ms s j) (trace ! (first + j))))"
  using assms(2,4)
proof (induction k)
  case (Suc k)
  then obtain trace' where t: "fold (fill_block_row pivot) [first..<first + k] (s, trace) = (state_before ms s k, trace')" "length trace' = length trace"
    "\<forall>i. i < first \<or> first + k \<le> i \<longrightarrow> trace' ! i = trace ! i"
    "\<forall>j<k. trace' ! (first + j) = snd (fill_row False (state_before ms s j) (trace ! (first + j)))" by auto
  have row: "trace' ! (first + k) = trace ! (first + k)" using t(3) by simp
  have m: "cols (trace ! (first + k)) BLAKE3_MSG 16 = map unsigned (ms k)" using Suc.prems(2) by simp
  let ?row = "snd (fill_row False (state_before ms s k) (trace ! (first + k)))"
  have "first + k \<noteq> pivot" using Suc.prems(1) by simp
  then have "fold (fill_block_row pivot) [first..<first + Suc k] (s, trace) = (state_before ms s (Suc k), trace'[first + k := ?row])"
    using t(1) fill_row_state(1) [OF length_state_before [OF assms(1)] m] by (simp add: fill_block_row_def row case_prod_unfold)
  moreover have "\<forall>j<Suc k. trace'[first + k := ?row] ! (first + j) = snd (fill_row False (state_before ms s j) (trace ! (first + j)))"
    using t(2,4) assms(3) Suc.prems(1) by (auto simp: less_Suc_eq)
  ultimately show ?case using t(2,3) by (intro exI [of _ "trace'[first + k := ?row]"]) simp
qed simp

lemma fill_block_rows:
  fixes tw :: blake3_tweak
  assumes "first + 7 < length trace" "\<forall>k<7. cols (trace ! (first + k)) BLAKE3_MSG 16 = map unsigned (ms k)"
    and "cols (trace ! first) BLAKE3_CV 8 = map unsigned cv" "length cv = 8"
  defines "S \<equiv> state_before ms (init_words cv tw)" and "filled \<equiv> fill_block (first, first + 7, tw) trace"
  shows "length filled = length trace" and "i < first \<or> first + 8 \<le> i \<Longrightarrow> filled ! i = trace ! i"
    and "j < 7 \<Longrightarrow> filled ! (first + j) = snd (fill_row False (S j) (trace ! (first + j)))"
    and "filled ! (first + 7) = snd (fill_row True (S 7) (trace ! (first + 7)))"
proof -
  have l: "length (init_words cv tw) = 16" using assms(4) by (simp add: init_words_def BLAKE3_IV_def)
  from fill_rows [OF l, of first 7 "first + 7" trace ms] assms(1,2) obtain trace' where
    t: "fold (fill_block_row (first + 7)) [first..<first + 7] (init_words cv tw, trace) = (S 7, trace')" "length trace' = length trace"
    "\<forall>i. i < first \<or> first + 7 \<le> i \<longrightarrow> trace' ! i = trace ! i"
    "\<forall>j<7. trace' ! (first + j) = snd (fill_row False (S j) (trace ! (first + j)))" unfolding S_def by auto
  have row: "trace' ! (first + 7) = trace ! (first + 7)" using t(3) by simp
  have "[first..<first + 7 + 1] = [first..<first + 7] @ [first + 7]" by (simp only: Suc_eq_plus1 [symmetric] upt_Suc) simp
  then have eq: "filled = trace'[first + 7 := snd (fill_row True (S 7) (trace ! (first + 7)))]"
    unfolding filled_def fill_block_def prod.case read_words_unsigned [OF assms(3)]
    by (simp only: fold_append comp_apply t(1)) (simp add: fill_block_row_def row case_prod_unfold Let_def)
  show "length filled = length trace" by (simp add: eq t(2))
  show "i < first \<or> first + 8 \<le> i \<Longrightarrow> filled ! i = trace ! i" using t(3) by (auto simp: eq)
  show "j < 7 \<Longrightarrow> filled ! (first + j) = snd (fill_row False (S j) (trace ! (first + j)))" using t(4) by (simp add: eq)
  show "filled ! (first + 7) = snd (fill_row True (S 7) (trace ! (first + 7)))" using t(2) assms(1) by (simp add: eq)
qed

section \<open>The constraints of a filled block\<close>

text \<open>The constraints that do not read the state: buffer, message and CV.\<close>

definition input_constraints :: "(nat \<Rightarrow> 'v::comm_ring_1) \<Rightarrow> (nat \<Rightarrow> 'v) \<Rightarrow> (nat \<Rightarrow> 'v) \<Rightarrow> 'v constr list" where
  "input_constraints row nxt pub =
     (let cf = consume_blake3_fields row IS_USE_JOB_KEY; use_cv_in = 1 - cf_is_use_job_key cf - cf_is_use_commitment_hash cf
      in verify_buffer_advancement (cols row BLAKE3_MSG_BUFFER 16) (cols nxt BLAKE3_MSG_BUFFER 16) (cols row UINT8_DATA 8) (cols row CV_IN 8)
           (cols row JACKPOT_MSG 16) (cf_is_msg_mat cf) (cf_is_msg_aux_data cf) (cf_is_msg_cv cf) (cf_is_msg_jackpot cf)
         @ verify_msg_constraints (cols row BLAKE3_MSG 16) (cols row BLAKE3_MSG_BUFFER 16) nxt (cf_is_last_round cf)
         @ map (\<lambda>i. constraint_eq (cols row BLAKE3_CV 8 ! i) (inner_product [use_cv_in, cf_is_use_job_key cf, cf_is_use_commitment_hash cf]
             [cols row CV_IN 8 ! i, cols pub PUB_JOB_KEY 8 ! i, cols pub PUB_COMMITMENT_HASH 8 ! i])) [0..<8])"

lemma row_constraints_iff:
  "all_hold n r (blake3_row_constraints row nxt (pub :: nat \<Rightarrow> 'v::idom)) \<longleftrightarrow> all_hold n r (input_constraints row nxt pub)
    \<and> all_hold n r (verify_round (row_states row nxt) (cols row BLAKE3_MSG 16) (1 - nxt IS_NEW_BLAKE))
    \<and> all_hold n r (fst (finalize_blake (row_states row nxt) (nxt IS_NEW_BLAKE)))
    \<and> all_hold n r (verify_init_state (consume_blake3_state row BLAKE3_ROUND) (row IS_NEW_BLAKE) (cols row BLAKE3_CV 8) (nxt CV_OR_TWEAK_PREP))
    \<and> cols row CV_OUT 8 = snd (finalize_blake (row_states row nxt) (nxt IS_NEW_BLAKE))"
proof -
  have len: "length (snd (finalize_blake (row_states row nxt) (nxt IS_NEW_BLAKE))) = 8" by (simp add: finalize_blake_def Let_def)
  have out: "(\<forall>i<8. cols row CV_OUT 8 ! i = snd (finalize_blake (row_states row nxt) (nxt IS_NEW_BLAKE)) ! i)
      \<longleftrightarrow> cols row CV_OUT 8 = snd (finalize_blake (row_states row nxt) (nxt IS_NEW_BLAKE))"
    by (metis len length_cols nth_equalityI)
  show ?thesis
    unfolding blake3_row_constraints_def blake3_chip_constraints_def blake3_eval_transition_constraints_def Let_def input_constraints_def
      case_prod_unfold fst_conv snd_conv all_hold_simps chip_fields row_states_def [symmetric] out [symmetric]
    by auto
qed

text \<open>Filling a block changes the state columns and \<open>CV_OUT\<close> only.\<close>

definition same_inputs :: "(nat \<Rightarrow> 'v) \<Rightarrow> (nat \<Rightarrow> 'v) \<Rightarrow> bool" where
  "same_inputs row row' \<longleftrightarrow> (\<forall>c. c < BLAKE3_ROUND \<or> CV_OUT + 8 \<le> c \<longrightarrow> row c = row' c)"

lemma same_inputs_cols: "same_inputs row row' \<Longrightarrow> off + k \<le> BLAKE3_ROUND \<or> CV_OUT + 8 \<le> off \<Longrightarrow> cols row off k = cols row' off k"
  by (auto simp: same_inputs_def cols_def)

lemma input_constraints_cong:
  assumes "same_inputs row row'" "same_inputs nxt nxt'"
  shows "input_constraints row nxt pub = input_constraints row' nxt' pub"
proof -
  note c = same_inputs_cols [OF assms(1)] same_inputs_cols [OF assms(2)]
  have f: "consume_blake3_fields row IS_USE_JOB_KEY = consume_blake3_fields row' IS_USE_JOB_KEY"
    using assms(1) by (simp add: consume_blake3_fields_def same_inputs_def columns)
  have b: "nxt IS_NEW_BLAKE = nxt' IS_NEW_BLAKE" using assms(2) by (simp add: same_inputs_def columns)
  have "cols row BLAKE3_MSG_BUFFER 16 = cols row' BLAKE3_MSG_BUFFER 16" "cols nxt BLAKE3_MSG_BUFFER 16 = cols nxt' BLAKE3_MSG_BUFFER 16"
    "cols row UINT8_DATA 8 = cols row' UINT8_DATA 8" "cols row CV_IN 8 = cols row' CV_IN 8" "cols row JACKPOT_MSG 16 = cols row' JACKPOT_MSG 16"
    "cols row BLAKE3_MSG 16 = cols row' BLAKE3_MSG 16" "cols nxt BLAKE3_MSG 16 = cols nxt' BLAKE3_MSG 16" "cols row BLAKE3_CV 8 = cols row' BLAKE3_CV 8"
    by (rule c, simp add: columns)+
  then show ?thesis unfolding input_constraints_def verify_msg_constraints_def f b by simp
qed

lemma init_idle: "all_hold n r (verify_init_state st (0 :: 'v::idom) cv tw)"
  by (simp add: verify_init_state_def Let_def)

lemma finalize_idle: "all_hold n r (fst (finalize_blake states (0 :: 'v::idom)))"
  by (simp add: finalize_blake_def)

text \<open>A row before the last of its block.\<close>

lemma round_row_complete:
  assumes s: "length s = 16" and m: "cols row BLAKE3_MSG 16 = map unsigned m" "length m = 16"
    and nxt: "consume_blake3_state nxt BLAKE3_ROUND = encode_state (compute_blake3_round s m ! 3)" "nxt IS_NEW_BLAKE = 0"
  defines "filled \<equiv> snd (fill_row False s row)"
  shows "all_hold n r (verify_round (row_states filled nxt) (cols filled BLAKE3_MSG 16) (1 - nxt IS_NEW_BLAKE))"
    and "cols filled CV_OUT 8 = snd (finalize_blake (row_states filled nxt) (nxt IS_NEW_BLAKE))"
proof -
  obtain s0 s1 s2 s3 where c: "compute_blake3_round s m = [s0, s1, s2, s3]" and l: "length s0 = 16" "length s1 = 16" "length s2 = 16"
    by (rule compute_round_cases [OF s])
  note f = fill_row_round [OF s m(1) c l nxt(1), folded filled_def]
  have msg: "cols filled BLAKE3_MSG 16 = map unsigned m" using f(3) by (simp add: m(1) [symmetric] cols_def columns)
  have states: "row_states filled nxt = map encode_state (s # compute_blake3_round s m)" unfolding f(2) by (simp add: c numeral_3_eq_3)
  show "all_hold n r (verify_round (row_states filled nxt) (cols filled BLAKE3_MSG 16) (1 - nxt IS_NEW_BLAKE))"
    unfolding states msg by (rule round_complete [OF s m(2)])
  show "cols filled CV_OUT 8 = snd (finalize_blake (row_states filled nxt) (nxt IS_NEW_BLAKE))"
    unfolding f(4) states c by (rule finalize_words [OF s l(1), symmetric])
qed

text \<open>The last row, once it is postprocessed with the row after it.\<close>

lemma last_row_complete:
  fixes m s t :: "u32 list" and row nxt :: "nat \<Rightarrow> goldilocks"
  assumes s: "length s = 16" and m: "cols row BLAKE3_MSG 16 = map unsigned m" "length m = 16"
    and nxt: "consume_blake3_state nxt BLAKE3_ROUND = encode_state t" "length t = 16" "nxt IS_NEW_BLAKE = 1"
  defines "filled \<equiv> postprocess_round8_row (snd (fill_row True s row)) nxt"
  shows "all_hold n r (verify_round (row_states filled nxt) (cols filled BLAKE3_MSG 16) (1 - nxt IS_NEW_BLAKE))"
    and "all_hold n r (fst (finalize_blake (row_states filled nxt) (nxt IS_NEW_BLAKE)))"
    and "cols filled CV_OUT 8 = snd (finalize_blake (row_states filled nxt) (nxt IS_NEW_BLAKE))"
    and "same_inputs filled row" and "consume_blake3_state filled BLAKE3_ROUND = encode_state s"
    and "cols filled CV_OUT 8 = map unsigned (map (\<lambda>i. s ! i XOR s ! (8 + i)) [0..<8])"
proof -
  let ?row = "snd (fill_row True s row)"
  note f = fill_row_pivot [OF s, where row = row]
  have m': "cols ?row BLAKE3_MSG 16 = map unsigned m" using f(3) by (simp add: m(1) [symmetric] cols_def columns)
  note p = postprocess_round8_row_cells [OF f(2) s nxt(1,2) m', folded filled_def]
  obtain p1 p2 p3 where pp: "postprocess_row s m t = [p1, p2, p3]" "length p1 = 16" "length p2 = 16" "length p3 = 16"
    by (rule postprocess_row_states [OF s nxt(2)]) blast
  have msg: "cols filled BLAKE3_MSG 16 = map unsigned m" using p(2) by (simp add: m' [symmetric] cols_def columns)
  show "all_hold n r (verify_round (row_states filled nxt) (cols filled BLAKE3_MSG 16) (1 - nxt IS_NEW_BLAKE))"
    and "all_hold n r (fst (finalize_blake (row_states filled nxt) (nxt IS_NEW_BLAKE)))"
    unfolding p(1) msg nxt(3) using postprocess_complete [OF s m(2) nxt(2)] by simp_all
  have out: "cols filled CV_OUT 8 = cols ?row CV_OUT 8" using p(2) by (simp add: cols_def)
  then show cv: "cols filled CV_OUT 8 = map unsigned (map (\<lambda>i. s ! i XOR s ! (8 + i)) [0..<8])" by (simp only: f(4))
  have x: "p1 ! (4 + i) XOR p1 ! (12 + i) = s ! i XOR s ! (8 + i)" if "i < 4" for i using p(4) [of i] that by (simp add: pp(1))
  have "snd (finalize_blake (row_states filled nxt) (nxt IS_NEW_BLAKE))
      = map unsigned (map (\<lambda>i. if i < 4 then p1 ! (4 + i) XOR p1 ! (12 + i) else s ! i XOR s ! (8 + i)) [0..<8])"
    unfolding p(1) pp(1) append_Cons by (rule finalize_words [OF s pp(2)])
  also have "\<dots> = map unsigned (map (\<lambda>i. s ! i XOR s ! (8 + i)) [0..<8])" using x by simp
  finally show "cols filled CV_OUT 8 = snd (finalize_blake (row_states filled nxt) (nxt IS_NEW_BLAKE))" using cv by simp
  show "same_inputs filled row" using p(2) f(3) by (auto simp: same_inputs_def columns)
  show "consume_blake3_state filled BLAKE3_ROUND = encode_state s" by (rule p(3))
qed

section \<open>The rows of a block\<close>

text \<open>The eight rows of a filled block, the last postprocessed, and the row after them.\<close>

definition block_rows :: "nat \<Rightarrow> (nat \<Rightarrow> goldilocks) list \<Rightarrow> (nat \<Rightarrow> goldilocks) \<Rightarrow> nat \<Rightarrow> nat \<Rightarrow> goldilocks" where
  "block_rows first filled nxt k =
     (if k < 7 then filled ! (first + k) else if k = 7 then postprocess_round8_row (filled ! (first + 7)) nxt else nxt)"

definition input_rows :: "nat \<Rightarrow> (nat \<Rightarrow> goldilocks) list \<Rightarrow> (nat \<Rightarrow> goldilocks) \<Rightarrow> nat \<Rightarrow> nat \<Rightarrow> goldilocks" where
  "input_rows first trace nxt k = (if k < 8 then trace ! (first + k) else nxt)"

lemma state_before_rounds:
  "length s = 16 \<Longrightarrow> state_before (\<lambda>k. (blake3_permute_msg ^^ k) m) s k = state_after m s k"
proof (induction k)
  case (Suc k)
  then have "length (state_after m s k) = 16" using length_state_before [of s] by metis
  then show ?case using Suc by (simp add: compute_blake3_round_is)
qed simp

lemma length_permuted: "length m = 16 \<Longrightarrow> length ((blake3_permute_msg ^^ k) m) = 16"
  by (induction k) simp_all

lemma same_inputs_refl: "same_inputs row row"
  by (simp add: same_inputs_def)

lemma length_init_words: "length cv = 8 \<Longrightarrow> length (init_words cv tw) = 16"
  by (simp add: init_words_def BLAKE3_IV_def)

lemma filled_rows:
  fixes cv :: "u32 list" and tw :: blake3_tweak and trace :: "(nat \<Rightarrow> goldilocks) list"
  assumes block: "first + 7 < length trace" and msg: "\<forall>k<8. cols (trace ! (first + k)) BLAKE3_MSG 16 = map unsigned (ms k) \<and> length (ms k) = 16"
    and cv: "cols (trace ! first) BLAKE3_CV 8 = map unsigned cv" "length cv = 8"
    and nxt: "consume_blake3_state nxt BLAKE3_ROUND = encode_state t" "length t = 16" "nxt IS_NEW_BLAKE = 1"
    and same: "\<forall>k. 1 \<le> k \<and> k \<le> 7 \<longrightarrow> (trace ! (first + k)) IS_NEW_BLAKE = 0"
  defines "S \<equiv> state_before ms (init_words cv tw)" and "R \<equiv> block_rows first (fill_block (first, first + 7, tw) trace) nxt"
  shows "k < 8 \<Longrightarrow> consume_blake3_state (R k) BLAKE3_ROUND = encode_state (S k)"
    and "k < 9 \<Longrightarrow> same_inputs (R k) (input_rows first trace nxt k)"
    and "k < 8 \<Longrightarrow> all_hold n r (verify_round (row_states (R k) (R (Suc k))) (cols (R k) BLAKE3_MSG 16) (1 - R (Suc k) IS_NEW_BLAKE))"
    and "k < 8 \<Longrightarrow> all_hold n r (fst (finalize_blake (row_states (R k) (R (Suc k))) (R (Suc k) IS_NEW_BLAKE)))"
    and "k < 8 \<Longrightarrow> cols (R k) CV_OUT 8 = snd (finalize_blake (row_states (R k) (R (Suc k))) (R (Suc k) IS_NEW_BLAKE))"
    and "cols (R 7) CV_OUT 8 = map unsigned (map (\<lambda>i. S 7 ! i XOR S 7 ! (8 + i)) [0..<8])"
proof -
  have S: "length (S k) = 16" for k by (simp add: S_def length_init_words cv(2))
  have "\<forall>k<7. cols (trace ! (first + k)) BLAKE3_MSG 16 = map unsigned (ms k)" using msg by simp
  note f = fill_block_rows [OF block this cv, where tw = tw, folded S_def]
  have early: "R j = snd (fill_row False (S j) (trace ! (first + j)))" if "j < 7" for j
    using f(3) [OF that] that by (simp add: R_def block_rows_def)
  have seven: "R 7 = postprocess_round8_row (snd (fill_row True (S 7) (trace ! (first + 7)))) nxt" by (simp add: R_def block_rows_def f(4))
  have eight: "R 8 = nxt" by (simp add: R_def block_rows_def)
  have m7: "cols (trace ! (first + 7)) BLAKE3_MSG 16 = map unsigned (ms 7)" "length (ms 7) = 16" using msg by simp_all
  note last = last_row_complete [OF S [of 7] m7 nxt, folded seven]
  show state: "consume_blake3_state (R k) BLAKE3_ROUND = encode_state (S k)" if "k < 8" for k
  proof (cases "k < 7")
    case True
    then show ?thesis using fill_row_state(2) [OF S] msg by (simp add: early)
  next
    case False
    then show ?thesis using that last(5) by (simp add: less_Suc_eq numeral_eq_Suc)
  qed
  show inputs: "same_inputs (R k) (input_rows first trace nxt k)" if k: "k < 9" for k
  proof -
    consider "k < 7" | "k = 7" | "k = 8" using k by linarith
    then show ?thesis
    proof cases
      case 1
      then show ?thesis using fill_row_state(3) [OF S] msg by (simp add: early same_inputs_def input_rows_def)
    next
      case 2
      then show ?thesis using last(4) by (simp add: input_rows_def)
    next
      case 3
      then show ?thesis by (simp add: eight input_rows_def same_inputs_refl)
    qed
  qed
  have idle: "R (Suc k) IS_NEW_BLAKE = 0" if "k < 7" for k
    using inputs [of "Suc k"] same [rule_format, of "Suc k"] that by (simp add: same_inputs_def input_rows_def columns)
  have step: "consume_blake3_state (R (Suc k)) BLAKE3_ROUND = encode_state (compute_blake3_round (S k) (ms k) ! 3)" if "k < 7" for k
    using state [of "Suc k"] that by (simp add: S_def)
  have rows: "all_hold n r (verify_round (row_states (R k) (R (Suc k))) (cols (R k) BLAKE3_MSG 16) (1 - R (Suc k) IS_NEW_BLAKE))
      \<and> all_hold n r (fst (finalize_blake (row_states (R k) (R (Suc k))) (R (Suc k) IS_NEW_BLAKE)))
      \<and> cols (R k) CV_OUT 8 = snd (finalize_blake (row_states (R k) (R (Suc k))) (R (Suc k) IS_NEW_BLAKE))" if "k < 8" for k
  proof (cases "k < 7")
    case True
    then have m: "cols (trace ! (first + k)) BLAKE3_MSG 16 = map unsigned (ms k)" "length (ms k) = 16" using msg by simp_all
    note row = round_row_complete [OF S m step [OF True] idle [OF True], folded early [OF True]]
    show ?thesis using row(1,2) finalize_idle idle [OF True] by metis
  next
    case False
    then have "k = 7" "Suc k = 8" using that by simp_all
    then show ?thesis using last(1,2,3) eight by metis
  qed
  then show "k < 8 \<Longrightarrow> all_hold n r (verify_round (row_states (R k) (R (Suc k))) (cols (R k) BLAKE3_MSG 16) (1 - R (Suc k) IS_NEW_BLAKE))"
    and "k < 8 \<Longrightarrow> all_hold n r (fst (finalize_blake (row_states (R k) (R (Suc k))) (R (Suc k) IS_NEW_BLAKE)))"
    and "k < 8 \<Longrightarrow> cols (R k) CV_OUT 8 = snd (finalize_blake (row_states (R k) (R (Suc k))) (R (Suc k) IS_NEW_BLAKE))" by blast+
  show "cols (R 7) CV_OUT 8 = map unsigned (map (\<lambda>i. S 7 ! i XOR S 7 ! (8 + i)) [0..<8])" by (rule last(6))
qed

lemma filled_init:
  fixes cv :: "u32 list" and tw :: blake3_tweak and ms :: "nat \<Rightarrow> u32 list" and trace :: "(nat \<Rightarrow> goldilocks) list"
  assumes block: "first + 7 < length trace" and msg: "\<forall>k<8. cols (trace ! (first + k)) BLAKE3_MSG 16 = map unsigned (ms k) \<and> length (ms k) = 16"
    and cv: "cols (trace ! first) BLAKE3_CV 8 = map unsigned cv" "length cv = 8"
    and nxt: "consume_blake3_state nxt BLAKE3_ROUND = encode_state t" "length t = 16" "nxt IS_NEW_BLAKE = 1"
    and same: "\<forall>k. 1 \<le> k \<and> k \<le> 7 \<longrightarrow> (trace ! (first + k)) IS_NEW_BLAKE = 0"
    and tweak: "(trace ! (first + 1)) CV_OR_TWEAK_PREP = gl (pack_blake3_tweak tw)" "unat (tweak_flags tw) < 2 ^ 8" "unat (block_len tw) < 2 ^ 7"
  defines "R \<equiv> block_rows first (fill_block (first, first + 7, tw) trace) nxt"
  assumes k: "k < 8"
  shows "all_hold n r (verify_init_state (consume_blake3_state (R k) BLAKE3_ROUND) (R k IS_NEW_BLAKE) (cols (R k) BLAKE3_CV 8) (R (Suc k) CV_OR_TWEAK_PREP))"
proof -
  note rows = filled_rows [OF block msg cv nxt same, where tw = tw, folded R_def]
  show ?thesis
  proof (cases k)
    case 0
    have "R (Suc 0) CV_OR_TWEAK_PREP = gl (pack_blake3_tweak tw)"
      using rows(2) [of 1] tweak(1) by (simp add: same_inputs_def input_rows_def columns)
    moreover have "cols (R 0) BLAKE3_CV 8 = map unsigned cv"
      using same_inputs_cols [OF rows(2) [of 0], of BLAKE3_CV 8] cv(1) by (simp add: input_rows_def columns)
    ultimately show ?thesis using init_complete [OF cv(2) tweak(2,3)] rows(1) [of 0] by (simp add: 0)
  next
    case (Suc j)
    then have "R k IS_NEW_BLAKE = 0" using rows(2) [of k] same [rule_format, of k] k by (simp add: same_inputs_def input_rows_def columns)
    then show ?thesis by (simp only: init_idle)
  qed
qed

lemma filled_block_constraints:
  fixes cv :: "u32 list" and tw :: blake3_tweak and trace :: "(nat \<Rightarrow> goldilocks) list"
  assumes block: "first + 7 < length trace" and m: "length m = 16"
    and msg: "\<forall>k<8. cols (trace ! (first + k)) BLAKE3_MSG 16 = map unsigned ((blake3_permute_msg ^^ k) m)"
    and cv: "cols (trace ! first) BLAKE3_CV 8 = map unsigned cv" "length cv = 8"
    and nxt: "consume_blake3_state nxt BLAKE3_ROUND = encode_state t" "length t = 16" "nxt IS_NEW_BLAKE = 1"
    and same: "\<forall>k. 1 \<le> k \<and> k \<le> 7 \<longrightarrow> (trace ! (first + k)) IS_NEW_BLAKE = 0"
    and tweak: "(trace ! (first + 1)) CV_OR_TWEAK_PREP = gl (pack_blake3_tweak tw)" "unat (tweak_flags tw) < 2 ^ 8" "unat (block_len tw) < 2 ^ 7"
  defines "R \<equiv> block_rows first (fill_block (first, first + 7, tw) trace) nxt"
  shows "k < 8 \<Longrightarrow> all_hold n r (blake3_row_constraints (R k) (R (Suc k)) pub)
      \<longleftrightarrow> all_hold n r (input_constraints (input_rows first trace nxt k) (input_rows first trace nxt (Suc k)) pub)"
    and "cols (R 7) CV_OUT 8 = map unsigned (take 8 (compress cv m (counter_low tw) (ucast (counter_high tw)) (block_len tw) (tweak_flags tw)))"
proof -
  let ?ms = "\<lambda>k. (blake3_permute_msg ^^ k) m"
  have ms: "\<forall>k<8. cols (trace ! (first + k)) BLAKE3_MSG 16 = map unsigned (?ms k) \<and> length (?ms k) = 16" using msg length_permuted [OF m] by blast
  note rows = filled_rows [OF block ms cv nxt same, where tw = tw, folded R_def]
  show "all_hold n r (blake3_row_constraints (R k) (R (Suc k)) pub)
      \<longleftrightarrow> all_hold n r (input_constraints (input_rows first trace nxt k) (input_rows first trace nxt (Suc k)) pub)" if k: "k < 8"
    unfolding row_constraints_iff
    using input_constraints_cong [OF rows(2) [of k] rows(2) [of "Suc k"], of pub] rows(3) [OF k] rows(4) [OF k] rows(5) [OF k]
      filled_init [OF block ms cv nxt same tweak k, folded R_def] k by simp
  let ?S = "state_after m (init_words cv tw) 7"
  have "fold (blake_round m) MSG_SCHEDULE (init_words cv tw) = ?S" using schedule_rounds [OF m] by (simp only: permuted_rounds_state)
  then show "cols (R 7) CV_OUT 8 = map unsigned (take 8 (compress cv m (counter_low tw) (ucast (counter_high tw)) (block_len tw) (tweak_flags tw)))"
    using rows(6) state_before_rounds [OF length_init_words [OF cv(2), of tw], of m 7] 
    by (simp add: compress_def init_words_def Let_def comp_def add.commute)
qed
end
