(* ===== verification/Air_Block.thy ===== *)
theory Air_Block imports Air_Fill begin

unbundle bit_operations_syntax

text \<open>
  The messages a finished compression writes into its rows (circuit/chip/blake3/trace.rs), the rows of a compression that
  is written and filled, and a trace of one compression that satisfies every constraint of the chip.
\<close>

section \<open>The messages of a block\<close>

lemma inverse_permute: "length m = 16 \<Longrightarrow> blake3_inverse_permute_msg m = (blake3_permute_msg ^^ 7) m"
proof -
  assume m: "length m = 16"
  have perm: "blake3_permute_msg (blake3_inverse_permute_msg m) = m" and len: "length (blake3_inverse_permute_msg m) = 16"
    using m by (elim list_16; simp add: blake3_inverse_permute_msg_def permute_msg BLAKE3_MSG_PERMUTATION_def upt_rec)+
  have "blake3_inverse_permute_msg m = (blake3_permute_msg ^^ Suc 7) (blake3_inverse_permute_msg m)"
    using permute_order [OF len] by (simp add: numeral_eq_Suc)
  also have "\<dots> = (blake3_permute_msg ^^ 7) m" unfolding funpow_Suc_right comp_apply perm ..
  finally show ?thesis .
qed

lemma inverse_permute_step: "length m = 16 \<Longrightarrow> blake3_inverse_permute_msg ((blake3_permute_msg ^^ Suc k) m) = (blake3_permute_msg ^^ k) m"
proof -
  assume m: "length m = 16"
  have "blake3_inverse_permute_msg ((blake3_permute_msg ^^ Suc k) m) = (blake3_permute_msg ^^ (k + 8)) m"
    unfolding inverse_permute [OF length_permuted [OF m]] funpow_add [THEN fun_cong, unfolded comp_def, symmetric] by (simp only: add_Suc_right add.commute) (simp only: numeral_eq_Suc add_Suc_right add_0_right BitM.simps pred_numeral_simps arith_simps)
  also have "\<dots> = (blake3_permute_msg ^^ k) m" using permute_order [OF m] by (simp add: funpow_add)
  finally show ?thesis .
qed

lemma written_msgs:
  assumes m: "length m = 16" and "first + 7 \<le> length trace" "k \<le> 7"
  shows "\<exists>trace'. fold (\<lambda>r (msg, trace). let msg = blake3_inverse_permute_msg msg in (msg, trace[r := write_words BLAKE3_MSG msg (trace ! r)]))
      (map (\<lambda>j. first + (6 - j)) [0..<k]) ((blake3_permute_msg ^^ 7) m, trace) = ((blake3_permute_msg ^^ (7 - k)) m, trace')
    \<and> length trace' = length trace \<and> (\<forall>i. i < first + (7 - k) \<or> first + 7 \<le> i \<longrightarrow> trace' ! i = trace ! i)
    \<and> (\<forall>j. 7 - k \<le> j \<and> j < 7 \<longrightarrow> trace' ! (first + j) = write_words BLAKE3_MSG ((blake3_permute_msg ^^ j) m) (trace ! (first + j)))"
  using assms(3)
proof (induction k)
  case (Suc k)
  then obtain trace' where t: "fold (\<lambda>r (msg, trace). let msg = blake3_inverse_permute_msg msg in (msg, trace[r := write_words BLAKE3_MSG msg (trace ! r)]))
      (map (\<lambda>j. first + (6 - j)) [0..<k]) ((blake3_permute_msg ^^ 7) m, trace) = ((blake3_permute_msg ^^ (7 - k)) m, trace')"
    "length trace' = length trace" "\<forall>i. i < first + (7 - k) \<or> first + 7 \<le> i \<longrightarrow> trace' ! i = trace ! i"
    "\<forall>j. 7 - k \<le> j \<and> j < 7 \<longrightarrow> trace' ! (first + j) = write_words BLAKE3_MSG ((blake3_permute_msg ^^ j) m) (trace ! (first + j))" by auto
  have k: "7 - k = Suc (6 - k)" "7 - Suc k = 6 - k" "k \<le> 6" using Suc.prems by simp_all
  let ?msg = "(blake3_permute_msg ^^ (6 - k)) m" and ?r = "first + (6 - k)"
  let ?trace = "trace'[?r := write_words BLAKE3_MSG ?msg (trace ! ?r)]"
  have "trace' ! ?r = trace ! ?r" using t(3) k by simp
  then have "fold (\<lambda>r (msg, trace). let msg = blake3_inverse_permute_msg msg in (msg, trace[r := write_words BLAKE3_MSG msg (trace ! r)]))
      (map (\<lambda>j. first + (6 - j)) [0..<Suc k]) ((blake3_permute_msg ^^ 7) m, trace) = ((blake3_permute_msg ^^ (7 - Suc k)) m, ?trace)"
    unfolding upt_Suc_append [OF le0] map_append fold_append comp_apply t(1)
    using inverse_permute_step [OF m, of "6 - k"] by (simp add: k(1,2) Let_def del: funpow.simps)
  moreover have "?trace ! (first + j) = write_words BLAKE3_MSG ((blake3_permute_msg ^^ j) m) (trace ! (first + j))" if "7 - Suc k \<le> j" "j < 7" for j
  proof (cases "j = 6 - k")
    case True
    then show ?thesis using assms(2) t(2) k by simp
  next
    case False
    then show ?thesis using that t(4) k by simp
  qed
  ultimately show ?case using t(2,3) k by (intro exI [of _ ?trace]) simp
qed (intro exI [of _ trace], auto)

lemma fold_buffers:
  assumes "\<forall>x \<in> set xs. ok x" "P s" "\<And>x s. ok x \<Longrightarrow> P s \<Longrightarrow> P (f x s)"
  shows "P (fold f xs s)"
  using assms by (induction xs arbitrary: s) auto

text \<open>The cells the writing of a message leaves: the messages of the eight rows, the buffer of the last, and all others.\<close>

lemma write_messages_cells:
  assumes m: "length m = 16" and block: "first + 7 < length trace"
  defines "written \<equiv> write_messages (first + 7) m trace"
  shows "length written = length trace"
    and "k < 8 \<Longrightarrow> cols (written ! (first + k)) BLAKE3_MSG 16 = map unsigned ((blake3_permute_msg ^^ k) m)"
    and "cols (written ! (first + 7)) BLAKE3_MSG_BUFFER 16 = map unsigned m"
    and "c < BLAKE3_MSG_BUFFER \<or> BLAKE3_MSG_BUFFER + 16 \<le> c \<Longrightarrow> c < BLAKE3_MSG \<or> BLAKE3_MSG + 16 \<le> c \<Longrightarrow> i < length trace \<Longrightarrow> (written ! i) c = (trace ! i) c"
proof -
  let ?p = "first + 7"
  let ?t0 = "trace[?p := write_words BLAKE3_MSG ((blake3_permute_msg ^^ 7) m) (write_words BLAKE3_MSG_BUFFER m (trace ! ?p))]"
  have len: "length ((blake3_permute_msg ^^ k) m) = 16" for k by (rule length_permuted [OF m])
  obtain t1 where t1: "fold (\<lambda>r (msg, trace). let msg = blake3_inverse_permute_msg msg in (msg, trace[r := write_words BLAKE3_MSG msg (trace ! r)]))
      (map (\<lambda>j. first + (6 - j)) [0..<7]) ((blake3_permute_msg ^^ 7) m, ?t0) = ((blake3_permute_msg ^^ (7 - 7)) m, t1)"
    "length t1 = length trace" "\<forall>i. i < first \<or> first + 7 \<le> i \<longrightarrow> t1 ! i = ?t0 ! i"
    "\<forall>j<7. t1 ! (first + j) = write_words BLAKE3_MSG ((blake3_permute_msg ^^ j) m) (?t0 ! (first + j))"
    using written_msgs [OF m, of first ?t0 7] block by auto
  have rows: "rev [?p - 7..<?p] = map (\<lambda>j. first + (6 - j)) [0..<7]" by (simp add: upt_rec)
  define keeps where "keeps = (\<lambda>tr :: (nat \<Rightarrow> goldilocks) list. length tr = length trace \<and> tr ! ?p = t1 ! ?p
    \<and> (\<forall>i<length trace. \<forall>c. c < BLAKE3_MSG_BUFFER \<or> BLAKE3_MSG_BUFFER + 16 \<le> c \<longrightarrow> (tr ! i) c = (t1 ! i) c))"
  have keep: "keeps (tr[r := write_words (BLAKE3_MSG_BUFFER + off) ws (tr ! r)])" if "keeps tr" "r \<noteq> ?p" "off + length ws \<le> 16" for tr r off ws
    using that unfolding keeps_def write_words_def
    by (cases "r < length tr") (auto simp: nth_list_update intro!: put_outside [THEN trans])
  define t2 where "t2 = fold (\<lambda>r trace. let len = 2 * (r + 8 - ?p)
    in trace[r := write_words (BLAKE3_MSG_BUFFER + 16 - len) (take len m) (trace ! r)]) [?p - 7..<?p] t1"
  have "keeps t2"
    unfolding t2_def
  proof (rule fold_buffers [where ok = "\<lambda>r. first \<le> r \<and> r < ?p"])
    fix r tr assume r: "first \<le> r \<and> r < ?p" and "keeps tr"
    let ?len = "2 * (r + 8 - ?p)"
    have "?len \<le> 16" "BLAKE3_MSG_BUFFER + 16 - ?len = BLAKE3_MSG_BUFFER + (16 - ?len)" using r by linarith+
    then show "keeps (let len = ?len in tr[r := write_words (BLAKE3_MSG_BUFFER + 16 - len) (take len m) (tr ! r)])"
      using keep [OF \<open>keeps tr\<close>, of r "16 - ?len" "take ?len m"] r m by (simp add: Let_def)
  qed (simp_all add: keeps_def t1(2))
  define t3 where "t3 = fold (\<lambda>off (fwd, trace). let fwd = shift_buffer fwd; r = (?p + off) mod length trace
    in (fwd, trace[r := write_words BLAKE3_MSG_BUFFER (take (16 - 2 * off) fwd) (trace ! r)])) [1..<8] (m, t2)"
  have "keeps (snd t3)"
    unfolding t3_def
  proof (rule fold_buffers [where ok = "\<lambda>off. 1 \<le> off \<and> off < 8" and P = "\<lambda>s. keeps (snd s)"])
    fix off :: nat and s :: "u32 list \<times> (nat \<Rightarrow> goldilocks) list" assume off: "1 \<le> off \<and> off < 8" and k: "keeps (snd s)"
    have "(?p + off) mod length trace \<noteq> ?p"
    proof (cases "?p + off < length trace")
      case False
      then have "(?p + off) mod length trace = ?p + off - length trace" using off block by (simp add: le_mod_geq)
      then show ?thesis using off block False by linarith
    qed (use off in simp)
    moreover have "length (snd s) = length trace" using k by (simp add: keeps_def)
    ultimately show "keeps (snd ((\<lambda>(fwd, trace). let fwd = shift_buffer fwd; r = (?p + off) mod length trace
        in (fwd, trace[r := write_words BLAKE3_MSG_BUFFER (take (16 - 2 * off) fwd) (trace ! r)])) s))"
      using keep [OF k, of "(?p + off) mod length trace" 0 "take (16 - 2 * off) (shift_buffer (fst s))"]
      by (simp add: case_prod_unfold Let_def)
  qed (use \<open>keeps t2\<close> in simp_all)
  moreover have "written = snd t3"
    unfolding written_def write_messages_def rows inverse_permute [OF m] t3_def t2_def using t1(1)
    by (simp only: Let_def case_prod_unfold snd_conv)
  ultimately have k: "keeps written" by simp
  then show "length written = length trace" by (simp add: keeps_def)
  have t0: "t1 ! ?p = ?t0 ! ?p" using t1(3) by simp
  show "cols (written ! (first + 7)) BLAKE3_MSG_BUFFER 16 = map unsigned m"
    using k t0 block m len by (simp add: keeps_def write_words_def cols_put_outside cols_put_inside columns)
  show "cols (written ! (first + k)) BLAKE3_MSG 16 = map unsigned ((blake3_permute_msg ^^ k) m)" if "k < 8" for k
  proof -
    have "cols (written ! (first + k)) BLAKE3_MSG 16 = cols (t1 ! (first + k)) BLAKE3_MSG 16"
      using \<open>keeps written\<close> that block by (simp add: keeps_def cols_def columns)
    also have "\<dots> = map unsigned ((blake3_permute_msg ^^ k) m)"
    proof (cases "k < 7")
      case True
      then show ?thesis using t1(4) len by (simp add: write_words_def cols_put_inside del: funpow.simps)
    next
      case False
      then have "k = 7" using that by simp
      then show ?thesis using t0 block len by (simp add: write_words_def cols_put_inside del: funpow.simps)
    qed
    finally show ?thesis .
  qed
  show "(written ! i) c = (trace ! i) c" if c: "c < BLAKE3_MSG_BUFFER \<or> BLAKE3_MSG_BUFFER + 16 \<le> c" "c < BLAKE3_MSG \<or> BLAKE3_MSG + 16 \<le> c" and i: "i < length trace"
  proof -
    have "(written ! i) c = (t1 ! i) c" using k c i unfolding keeps_def by blast
    moreover have "(t1 ! i) c = (?t0 ! i) c"
    proof (cases "first \<le> i \<and> i < first + 7")
      case True
      then obtain j where "i = first + j" "j < 7" by (metis add_less_cancel_left le_Suc_ex)
      then show ?thesis using t1(4) c len by (simp add: write_words_def del: funpow.simps)
    next
      case False
      then show ?thesis using t1(3) by auto
    qed
    moreover have "(?t0 ! i) c = (trace ! i) c" using c len m block by (cases "i = ?p") (auto simp: write_words_def simp del: funpow.simps)
    ultimately show ?thesis by simp
  qed
qed

section \<open>A compression written and filled\<close>

text \<open>The constraints on what the trace loads: the buffer and the chaining value of the row.\<close>

definition load_constraints :: "(nat \<Rightarrow> 'v::comm_ring_1) \<Rightarrow> (nat \<Rightarrow> 'v) \<Rightarrow> (nat \<Rightarrow> 'v) \<Rightarrow> 'v constr list" where
  "load_constraints row nxt pub =
     (let cf = consume_blake3_fields row IS_USE_JOB_KEY
      in verify_buffer_advancement (cols row BLAKE3_MSG_BUFFER 16) (cols nxt BLAKE3_MSG_BUFFER 16) (cols row UINT8_DATA 8) (cols row CV_IN 8)
           (cols row JACKPOT_MSG 16) (cf_is_msg_mat cf) (cf_is_msg_aux_data cf) (cf_is_msg_cv cf) (cf_is_msg_jackpot cf)
         @ map (\<lambda>i. constraint_eq (cols row BLAKE3_CV 8 ! i)
             (inner_product [1 - cf_is_use_job_key cf - cf_is_use_commitment_hash cf, cf_is_use_job_key cf, cf_is_use_commitment_hash cf]
                [cols row CV_IN 8 ! i, cols pub PUB_JOB_KEY 8 ! i, cols pub PUB_COMMITMENT_HASH 8 ! i])) [0..<8])"

lemma input_constraints_split:
  "all_hold n r (input_constraints row nxt pub) \<longleftrightarrow> all_hold n r (load_constraints row nxt pub)
    \<and> all_hold n r (verify_msg_constraints (cols row BLAKE3_MSG 16) (cols row BLAKE3_MSG_BUFFER 16) nxt (row IS_LAST_ROUND))"
  by (auto simp: input_constraints_def load_constraints_def Let_def chip_fields)

lemma load_constraints_cong:
  assumes "same_inputs row row'" "same_inputs nxt nxt'"
  shows "load_constraints row nxt pub = load_constraints row' nxt' pub"
proof -
  note c = same_inputs_cols [OF assms(1)] same_inputs_cols [OF assms(2)]
  have f: "consume_blake3_fields row IS_USE_JOB_KEY = consume_blake3_fields row' IS_USE_JOB_KEY"
    using assms(1) by (simp add: consume_blake3_fields_def same_inputs_def columns)
  have "cols row BLAKE3_MSG_BUFFER 16 = cols row' BLAKE3_MSG_BUFFER 16" "cols nxt BLAKE3_MSG_BUFFER 16 = cols nxt' BLAKE3_MSG_BUFFER 16"
    "cols row UINT8_DATA 8 = cols row' UINT8_DATA 8" "cols row CV_IN 8 = cols row' CV_IN 8" "cols row JACKPOT_MSG 16 = cols row' JACKPOT_MSG 16"
    "cols row BLAKE3_CV 8 = cols row' BLAKE3_CV 8"
    by (rule c, simp add: columns)+
  then show ?thesis unfolding load_constraints_def f by simp
qed

lemma permuted_msg_constraints:
  assumes "length m = 16" "cols row BLAKE3_MSG 16 = map unsigned (m :: u32 list)"
    and "nxt IS_NEW_BLAKE = 1 \<or> cols nxt BLAKE3_MSG 16 = map unsigned (blake3_permute_msg m)"
    and "row IS_LAST_ROUND = 0 \<or> cols row BLAKE3_MSG_BUFFER 16 = map unsigned (blake3_permute_msg m)"
  shows "all_hold n r (verify_msg_constraints (cols row BLAKE3_MSG 16) (cols row BLAKE3_MSG_BUFFER 16) nxt (row IS_LAST_ROUND :: 'v::idom))"
proof -
  have "nxt IS_NEW_BLAKE = 1 \<or> blake3_permute_msg (cols row BLAKE3_MSG 16) ! i = cols nxt BLAKE3_MSG 16 ! i" for i
    using assms(1,2,3) by (metis permute_map)
  moreover have "row IS_LAST_ROUND = 0 \<or> blake3_permute_msg (cols row BLAKE3_MSG 16) ! i = cols row BLAKE3_MSG_BUFFER 16 ! i" for i
    using assms(1,2,4) by (metis permute_map)
  ultimately show ?thesis unfolding verify_msg_constraints_def Let_def by (fastforce simp del: length_cols nth_cols)
qed

text \<open>C40: Let the last row of a compression load the message \<open>m\<close>.  Once \<open>write_messages\<close> has written it, \<open>fill_block\<close> has filled
  the eight rows and \<open>postprocess_round8_row\<close> the last one, each of the rows satisfies all constraints of the BLAKE3 chip
  exactly when it satisfies those on the loaded data (advancement and loading of the buffer, selection of the chaining
  value); the rounds, the finalisation, the initial state, the message schedule and \<open>CV_OUT\<close> hold on every input.  The
  last row keeps \<open>m\<close> in its buffer and the compression of \<open>m\<close> in \<open>CV_OUT\<close>.  The rows need the flags and the tweak of the
  preprocessed columns, and the row after them a state.\<close>

theorem compression_rows_complete:
  fixes cv m t :: "u32 list" and tw :: blake3_tweak and trace :: "(nat \<Rightarrow> goldilocks) list" and nxt :: "nat \<Rightarrow> goldilocks"
  assumes block: "first + 7 < length trace" and m: "length m = 16"
    and cv: "cols (trace ! first) BLAKE3_CV 8 = map unsigned cv" "length cv = 8"
    and flags: "\<forall>k. 1 \<le> k \<and> k \<le> 7 \<longrightarrow> (trace ! (first + k)) IS_NEW_BLAKE = 0" "\<forall>k<7. (trace ! (first + k)) IS_LAST_ROUND = 0"
    and tweak: "(trace ! (first + 1)) CV_OR_TWEAK_PREP = gl (pack_blake3_tweak tw)" "unat (tweak_flags tw) < 2 ^ 8" "unat (block_len tw) < 2 ^ 7"
    and nxt: "consume_blake3_state nxt BLAKE3_ROUND = encode_state t" "length t = 16" "nxt IS_NEW_BLAKE = 1"
  defines "R \<equiv> block_rows first (fill_block (first, first + 7, tw) (write_messages (first + 7) m trace)) nxt"
  shows "(\<forall>k<8. all_hold n (r k) (blake3_row_constraints (R k) (R (Suc k)) pub) = all_hold n (r k) (load_constraints (R k) (R (Suc k)) pub))
    \<and> cols (R 7) CV_OUT 8 = map unsigned (take 8 (compress cv m (counter_low tw) (ucast (counter_high tw)) (block_len tw) (tweak_flags tw)))
    \<and> cols (R 7) BLAKE3_MSG_BUFFER 16 = map unsigned m"
proof -
  let ?w = "write_messages (first + 7) m trace"
  note w = write_messages_cells [OF m block]
  have cell: "(?w ! (first + k)) c = (trace ! (first + k)) c" if "k < 8" "c < BLAKE3_MSG_BUFFER \<or> BLAKE3_MSG_BUFFER + 16 \<le> c" "c < BLAKE3_MSG \<or> BLAKE3_MSG + 16 \<le> c" for k c
    using w(4) [OF that(2,3)] that(1) block by simp
  have block': "first + 7 < length ?w" using block w(1) by simp
  have msg: "\<forall>k<8. cols (?w ! (first + k)) BLAKE3_MSG 16 = map unsigned ((blake3_permute_msg ^^ k) m)" using w(2) by blast
  have cv': "cols (?w ! first) BLAKE3_CV 8 = map unsigned cv" using cell [of 0] by (simp add: cv(1) [symmetric] cols_def columns)
  have new': "\<forall>k. 1 \<le> k \<and> k \<le> 7 \<longrightarrow> (?w ! (first + k)) IS_NEW_BLAKE = 0" using flags(1) cell by (simp add: columns)
  have tweak': "(?w ! (first + 1)) CV_OR_TWEAK_PREP = gl (pack_blake3_tweak tw)" using tweak(1) cell [of 1] by (simp add: columns)
  note filled = filled_block_constraints [OF block' m msg cv' cv(2) nxt new' tweak' tweak(2,3), folded R_def]
  have ms: "\<forall>k<8. cols (?w ! (first + k)) BLAKE3_MSG 16 = map unsigned ((blake3_permute_msg ^^ k) m) \<and> length ((blake3_permute_msg ^^ k) m) = 16"
    using msg length_permuted [OF m] by blast
  note same = filled_rows(2) [OF block' ms cv' cv(2) nxt new', where tw = tw, folded R_def]
  let ?I = "input_rows first ?w nxt"
  have row: "all_hold n (r k) (blake3_row_constraints (R k) (R (Suc k)) pub) = all_hold n (r k) (load_constraints (R k) (R (Suc k)) pub)" if k: "k < 8" for k
  proof -
    have "all_hold n (r k) (verify_msg_constraints (cols (?I k) BLAKE3_MSG 16) (cols (?I k) BLAKE3_MSG_BUFFER 16) (?I (Suc k)) (?I k IS_LAST_ROUND))"
    proof (rule permuted_msg_constraints [of "(blake3_permute_msg ^^ k) m"])
      show "?I (Suc k) IS_NEW_BLAKE = 1 \<or> cols (?I (Suc k)) BLAKE3_MSG 16 = map unsigned (blake3_permute_msg ((blake3_permute_msg ^^ k) m))"
        using nxt(3) msg [rule_format, of "Suc k"] k by (cases "k = 7") (auto simp: input_rows_def simp del: length_cols nth_cols)
      show "?I k IS_LAST_ROUND = 0 \<or> cols (?I k) BLAKE3_MSG_BUFFER 16 = map unsigned (blake3_permute_msg ((blake3_permute_msg ^^ k) m))"
      proof (cases "k = 7")
        case True
        have "blake3_permute_msg ((blake3_permute_msg ^^ 7) m) = m" using permute_order [OF m] by (simp add: numeral_eq_Suc)
        then show ?thesis using w(3) by (simp only: True input_rows_def) simp
      next
        case False
        then show ?thesis using flags(2) cell [of k IS_LAST_ROUND] k by (simp add: input_rows_def columns)
      qed
    qed (use k msg length_permuted [OF m] in \<open>simp_all add: input_rows_def del: length_cols nth_cols\<close>)
    then show ?thesis
      using filled(1) [OF k, of n "r k" pub] load_constraints_cong [OF same [of k] same [of "Suc k"], of pub] k
      by (simp add: input_constraints_split)
  qed
  have "cols (R 7) BLAKE3_MSG_BUFFER 16 = map unsigned m"
    using same_inputs_cols [OF same [of 7], of BLAKE3_MSG_BUFFER 16] w(3) by (simp add: input_rows_def columns)
  then show ?thesis using row filled(2) by blast
qed

section \<open>A trace of one compression\<close>

definition example_tweak :: blake3_tweak where
  "example_tweak = \<lparr>counter_low = 3, counter_high = 0, block_len = 64, tweak_flags = 11\<rparr>"

definition example_row :: "nat \<Rightarrow> nat \<Rightarrow> goldilocks" where
  "example_row k = (\<lambda>c. if c = IS_NEW_BLAKE then of_bool (k = 0) else if c = IS_LAST_ROUND then of_bool (k = 7)
     else if c = CV_OR_TWEAK_PREP then (if k = 1 then gl (pack_blake3_tweak example_tweak) else 0)
     else if BLAKE3_MSG \<le> c \<and> c < BLAKE3_MSG + 16 \<or> BLAKE3_MSG_BUFFER \<le> c \<and> c < BLAKE3_MSG_BUFFER + 16 then 7
     else if CV_IN \<le> c \<and> c < CV_IN + 8 \<or> BLAKE3_CV \<le> c \<and> c < BLAKE3_CV + 8 then 5 else 0)"

definition example_trace :: "(nat \<Rightarrow> goldilocks) list" where "example_trace = map example_row [0..<8]"

lemma cols_const: "(\<And>c. off \<le> c \<Longrightarrow> c < off + k \<Longrightarrow> row c = x) \<Longrightarrow> cols row off k = replicate k x"
  by (auto intro!: nth_equalityI)

lemma example_cells:
  "cols (example_row k) BLAKE3_MSG 16 = replicate 16 7" "cols (example_row k) BLAKE3_MSG_BUFFER 16 = replicate 16 7"
  "cols (example_row k) CV_IN 8 = replicate 8 5" "cols (example_row k) BLAKE3_CV 8 = replicate 8 5"
  "cols (example_row k) UINT8_DATA 8 = replicate 8 0" "cols (example_row k) JACKPOT_MSG 16 = replicate 16 0"
  by (rule cols_const, simp add: example_row_def columns)+

lemma example_selectors:
  "consume_blake3_fields (example_row k) IS_USE_JOB_KEY =
     \<lparr>cf_is_use_job_key = 0, cf_is_use_commitment_hash = 0, cf_is_hash_a = 0, cf_is_hash_b = 0, cf_is_hash_jackpot = 0, cf_is_cv_in = 0,
      cf_is_new_blake = of_bool (k = 0), cf_is_last_round = of_bool (k = 7), cf_is_msg_mat = 0, cf_is_msg_jackpot = 0,
      cf_is_msg_aux_data = 0, cf_is_msg_cv = 0\<rparr>"
  by (simp add: consume_blake3_fields_def example_row_def columns)

lemma example_permuted: "(blake3_permute_msg ^^ k) (replicate 16 x) = replicate 16 x"
proof (induction k)
  case (Suc k)
  have "blake3_permute_msg (replicate 16 x) = replicate 16 x" by (simp add: permute_msg BLAKE3_MSG_PERMUTATION_def numeral_eq_Suc)
  then show ?case using Suc by simp
qed simp

lemma example_words: "(unsigned (7 :: u32) :: goldilocks) = 7" "(unsigned (5 :: u32) :: goldilocks) = 5"
  by (simp_all add: unsigned_goldilocks)

lemma example_inputs: "all_hold n r (input_constraints (example_row j) (example_row k) pub)"
proof -
  have "all_hold n r (verify_msg_constraints (cols (example_row j) BLAKE3_MSG 16) (cols (example_row j) BLAKE3_MSG_BUFFER 16) (example_row k) (example_row j IS_LAST_ROUND))"
    using example_permuted [of 1 "7 :: u32"]
    by (intro permuted_msg_constraints [of "replicate 16 7"]) (simp_all only: example_cells map_replicate example_words length_replicate funpow_simps_right funpow_0 comp_apply One_nat_def id_apply simp_thms)
  moreover have "all_hold n r (load_constraints (example_row j) (example_row k) pub)"
    unfolding load_constraints_def Let_def example_selectors verify_buffer_advancement_def example_cells blake3_control_fields.simps
    by (simp add: inner_product_def mad_def)
  ultimately show ?thesis by (simp only: input_constraints_split)
qed

abbreviation example_block :: "(nat \<Rightarrow> goldilocks) list" where
  "example_block \<equiv> fill_block (0, 7, example_tweak) example_trace"

definition example_rows :: "nat \<Rightarrow> nat \<Rightarrow> goldilocks" where "example_rows = block_rows 0 example_block (example_block ! 0)"

lemma example_shape:
  "length example_trace = 8" "k < 8 \<Longrightarrow> example_trace ! k = example_row k"
  "unat (tweak_flags example_tweak) < 2 ^ 8" "unat (block_len example_tweak) < 2 ^ 7"
  by (simp_all add: example_trace_def example_tweak_def del: upt_Suc)

lemma example_next:
  "consume_blake3_state (example_block ! 0) BLAKE3_ROUND = encode_state (init_words (replicate 8 5) example_tweak)"
  "same_inputs (example_block ! 0) (example_row 0)"
proof -
  have m: "\<forall>k<7. cols (example_trace ! (0 + k)) BLAKE3_MSG 16 = map unsigned (replicate 16 (7 :: u32))"
    by (simp only: example_shape(2) example_cells add_0 map_replicate example_words) (simp add: example_shape(2) example_cells example_words)
  have cv: "cols (example_trace ! 0) BLAKE3_CV 8 = map unsigned (replicate 8 (5 :: u32))"
    by (simp only: example_shape(2) example_cells zero_less_numeral map_replicate example_words)
  have "example_block ! (0 + 0) = snd (fill_row False (state_before (\<lambda>_. replicate 16 7) (init_words (replicate 8 5) example_tweak) 0) (example_trace ! (0 + 0)))"
    using fill_block_rows(3) [OF _ m cv, of 0 example_tweak] by (simp add: example_shape(1))
  then have eq: "example_block ! 0 = snd (fill_row False (init_words (replicate 8 5) example_tweak) (example_trace ! 0))" by simp
  have "cols (example_trace ! 0) BLAKE3_MSG 16 = map unsigned (replicate 16 (7 :: u32))" using m by (metis add_0 zero_less_numeral)
  note row = fill_row_state(2,3) [OF length_init_words [of "replicate 8 5" example_tweak, OF length_replicate] this]
  show "consume_blake3_state (example_block ! 0) BLAKE3_ROUND = encode_state (init_words (replicate 8 5) example_tweak)"
    unfolding eq by (rule row(1))
  show "same_inputs (example_block ! 0) (example_row 0)"
    unfolding eq same_inputs_def using row(2) by (simp add: example_shape(2))
qed

lemma example_row_flags:
  "1 \<le> k \<Longrightarrow> example_row k IS_NEW_BLAKE = 0" "example_row 0 IS_NEW_BLAKE = 1" "k < 7 \<Longrightarrow> example_row k IS_LAST_ROUND = 0"
  "example_row 7 IS_LAST_ROUND = 1" "example_row 1 CV_OR_TWEAK_PREP = gl (pack_blake3_tweak example_tweak)"
  by (simp_all add: example_row_def columns)

lemma example_hypotheses:
  "0 + 7 < length example_trace" "cols (example_trace ! 0) BLAKE3_CV 8 = map unsigned (replicate 8 (5 :: u32))" "length (replicate 8 (5 :: u32)) = 8"
  "\<forall>k. 1 \<le> k \<and> k \<le> 7 \<longrightarrow> (example_trace ! (0 + k)) IS_NEW_BLAKE = 0" "\<forall>k<7. (example_trace ! (0 + k)) IS_LAST_ROUND = 0"
  "(example_trace ! (0 + 1)) CV_OR_TWEAK_PREP = gl (pack_blake3_tweak example_tweak)"
  "(example_block ! 0) IS_NEW_BLAKE = 1"
proof -
  have "(example_block ! 0) IS_NEW_BLAKE = example_row 0 IS_NEW_BLAKE"
    using example_next(2) by (simp add: same_inputs_def columns del: fill_block_def)
  then show "(example_block ! 0) IS_NEW_BLAKE = 1" by (simp only: example_row_flags)
qed (simp_all add: example_shape example_row_flags example_row_flags(5) [unfolded One_nat_def] example_cells example_words)

text \<open>The filled rows satisfy every constraint, whatever the public inputs.\<close>

lemma example_rows_hold:
  shows "k < 8 \<Longrightarrow> all_hold n r (blake3_row_constraints (example_rows k) (example_rows (Suc k)) pub)"
    and "k < 9 \<Longrightarrow> same_inputs (example_rows k) (example_row (k mod 8))"
proof -
  have msg: "\<forall>k<8. cols (example_trace ! (0 + k)) BLAKE3_MSG 16 = map unsigned ((blake3_permute_msg ^^ k) (replicate 16 (7 :: u32)))"
    by (simp only: example_permuted) (simp add: example_shape(2) example_cells example_words)
  have ms: "\<forall>k<8. cols (example_trace ! (0 + k)) BLAKE3_MSG 16 = map unsigned ((blake3_permute_msg ^^ k) (replicate 16 (7 :: u32)))
      \<and> length ((blake3_permute_msg ^^ k) (replicate 16 (7 :: u32))) = 16"
    using msg length_permuted [of "replicate 16 (7 :: u32)"] by simp
  have t: "length (init_words (replicate 8 5) example_tweak) = 16" by (simp add: length_init_words)
  note h = example_hypotheses
  note filled = filled_block_constraints(1) [OF h(1) length_replicate msg h(2,3) example_next(1) t h(7,4,6) example_shape(3,4),
    unfolded add_0, folded example_rows_def]
  note same = filled_rows(2) [OF h(1) ms h(2,3) example_next(1) t h(7,4), where tw = example_tweak, unfolded add_0, folded example_rows_def]
  have rows: "same_inputs (input_rows 0 example_trace (example_block ! 0) k) (example_row (k mod 8))" if "k < 9" for k
  proof (cases "k < 8")
    case True
    then show ?thesis by (simp add: input_rows_def example_shape(2) same_inputs_refl)
  next
    case False
    then have "k = 8" using that by simp
    then show ?thesis using example_next(2) by (simp add: input_rows_def)
  qed
  show "all_hold n r (blake3_row_constraints (example_rows k) (example_rows (Suc k)) pub)" if k: "k < 8"
    unfolding filled [OF k] using input_constraints_cong [OF rows [of k] rows [of "Suc k"], of pub] k example_inputs by simp
  show "same_inputs (example_rows k) (example_row (k mod 8))" if "k < 9"
    using same [OF that] rows [OF that] by (simp add: same_inputs_def)
qed

theorem compression_rows_complete_witness:
  "cols (block_rows 0 (fill_block (0, 7, example_tweak) (write_messages 7 (map of_nat [0..<16]) example_trace)) (example_block ! 0) 7) CV_OUT 8
     = map unsigned (take 8 (compress (replicate 8 5) (map of_nat [0..<16]) 3 0 64 11))"
  using compression_rows_complete [OF example_hypotheses(1) _ example_hypotheses(2,3,4,5,6) example_shape(3,4) example_next(1) _ example_hypotheses(7),
    of "map of_nat [0..<16]", unfolded add_0]
  by (simp add: length_init_words example_tweak_def)

theorem blake3_rows_sound_witness:
  "cols (example_rows 7) CV_OUT 8 = map unsigned (take 8 (compress (replicate 8 5) (replicate 16 7) 3 0 64 11))"
proof -
  have cell: "example_rows k c = example_row (k mod 8) c" if "c < BLAKE3_ROUND" "k < 9" for k c
    using example_rows_hold(2) [OF that(2)] that(1) by (simp add: same_inputs_def)
  have off: "IS_NEW_BLAKE < BLAKE3_ROUND" "IS_LAST_ROUND < BLAKE3_ROUND" "CV_OR_TWEAK_PREP < BLAKE3_ROUND" by (simp_all add: columns)
  have prev: "all_hold n p (blake3_row_constraints (example_rows 7) (example_rows 0) pub)" for n p pub
  proof -
    have "example_rows (Suc 7) = example_rows 0" by (simp add: example_rows_def block_rows_def)
    then show ?thesis using example_rows_hold(1) [of 7] by simp
  qed
  have rows: "\<forall>k<8. all_hold 8 k (blake3_row_constraints (example_rows k) (example_rows (Suc k)) (\<lambda>_. 0))" 
    using example_rows_hold(1) by blast
  have flags: "example_rows 0 IS_NEW_BLAKE = 1" "\<forall>k. 1 \<le> k \<and> k \<le> 7 \<longrightarrow> example_rows k IS_NEW_BLAKE = 0" "example_rows 8 IS_NEW_BLAKE = 1"
    "example_rows 7 IS_LAST_ROUND = 1" "example_rows 1 CV_OR_TWEAK_PREP = gl (pack_blake3_tweak example_tweak)"
    using cell off by (simp_all add: example_row_flags example_row_flags(5) [unfolded One_nat_def])
  have inputs: "cols (example_rows 7) BLAKE3_MSG_BUFFER 16 = map unsigned (replicate 16 (7 :: u32))"
    "cols (example_rows 0) BLAKE3_CV 8 = map unsigned (replicate 8 (5 :: u32))"
    using same_inputs_cols [OF example_rows_hold(2) [of 7], of BLAKE3_MSG_BUFFER 16] same_inputs_cols [OF example_rows_hold(2) [of 0], of BLAKE3_CV 8]
    by (simp_all add: example_cells example_words) (simp_all add: columns)
  show ?thesis
    using blake3_rows_sound [where n = 8 and p = 7 and r = "\<lambda>k. k", OF prev rows flags(1-4) inputs(1) length_replicate inputs(2) length_replicate flags(5) example_shape(3,4)]
    by (simp add: example_tweak_def)
qed

end
