(* ===== verification/Spec2Isabelle.thy ===== *)
theory Spec2Isabelle
  imports Live_System Stark_Limits Air_Block
begin

text \<open>
  A verification development for the Pearl hashrate miner: the Rust miner under \<open>src/\<close> and the protocol crates it uses,
  \<open>deps/pearl-blake3\<close> (the keyed Merkle tree) and \<open>deps/zk-pow\<close> (formats, difficulty, plain proofs, the layout of the
  STARK).  Paths below are relative to the repository's \<open>src/\<close> directory.

  The program.  The live miner asks a node for a block template, derives a job from it, and runs one worker per GPU.
  A worker fills two matrices with random bytes, adds noise derived from the job's keying hash and the matrices'
  Merkle roots, multiplies them on the device and lets the kernel compare the hash of every tile's jackpot with the
  job's target.  A hit leaves a header in pinned memory; the hit poller turns it into Merkle openings of the rows and
  columns of the tile (a plain proof), has it proved, wraps the proof into a certificate and submits the block.
  The verifier recomputes noise, jackpot and difficulty from the openings; the STARK lays the same computation out in
  rows.  The theories follow this path from the bytes upwards, and the properties say that the two sides agree.

  Conventions.  A Rust result is the type \<open>res\<close> of \<open>Prelude\<close>: \<open>Ok\<close>, \<open>Err\<close> with the crate's error, or \<open>Panic\<close> for every
  unwrap, index, assertion and division that aborts.  Machine integers are words of their width and wrap as in the
  release profile the repository ships (no overflow checks); debug assertions are not evaluated.  A \<open>usize\<close> that only
  counts or indexes is a natural number, and where its width matters the definition says so (\<open>saturate\<close>, \<open>USIZE_MAX\<close>,
  64-bit words).  Recursion is structural or has a termination proof; the walk of \<open>compute_cv\<close>, which need not end on
  unchecked proofs, and the mining loop return options where \<open>None\<close> is not returning, and the theorems that need a
  result prove \<open>Some\<close>.  Strings are ASCII.  Error messages are their fixed text without the interpolated values.

  Parameters.  Code that is not in the repository, or is vendored, is an argument of the definitions: the blake3
  crate (\<open>blake3_lib\<close>), double SHA-256, bech32 and the encodings of the bitcoin crate (\<open>node_lib\<close>), the hex and base64
  codecs, the HTTP exchange and JSON decoder, the random generator, the CUDA driver (a state machine that answers
  calls), pinned memory as the device leaves it, and the filling, compilation and recursion of the STARK (\<open>zk_lib\<close>).
  What is assumed of them is stated as named predicates of documented behaviour (\<open>blake3_spec\<close>, \<open>blake3_contract\<close>,
  \<open>digest32\<close>, \<open>zk_typed\<close>, the capture rules of \<open>Graph_Replay\<close>), and each property that uses one has a witness with a
  concrete function in its place.

  Shared material.
  \<^item> \<open>Prelude\<close>: results, little-endian codecs, slices, chunked copies, grids.
  \<^item> \<open>Miner_Error\<close>: \<open>src/error.rs\<close>.

  Formats and difficulty.
  \<^item> \<open>Periodic_Pattern\<close>: \<open>PeriodicPattern\<close> of \<open>zk-pow/api/proof_utils.rs\<close>: construction from a list, the six-byte codec,
    expansion.  Decoding accepts canonical patterns only, list and pattern determine each other, the offsets of a
    pattern partition a dimension among the threads; the constructor's panics are characterised.
  \<^item> \<open>Headers\<close>: \<open>api/proof.rs\<close>: header, configuration, public data, proof.  Round trips and injectivity, through the
    locale \<open>wire_format\<close> that every codec of this kind interprets.
  \<^item> \<open>Difficulty\<close>: compact targets of the miner (\<open>src/gateway/mining_job.rs\<close>) and of the verifier (\<open>proof_utils.rs\<close>,
    \<open>sanity_checks.rs\<close>).  The byte-wise product is exact below 2 ^ 264 and a residue above, both sides use the same target on the
    exponents they share, checked parameters are decided by the integer comparison; where the sides differ is proved too.
  \<^item> \<open>Pearl_Block\<close>, \<open>Rpc_Client\<close>, \<open>Mining_Job\<close>: \<open>src/gateway/\<close>: block bytes and their reading back, the transaction
    Merkle root binds the transactions, the coinbase commits to height and address; every answer of the node; the job's
    keying hash, configuration and target are the ones the verifier derives.

  Matrices, trees, noise.
  \<^item> \<open>Merkle_Tree\<close>: \<open>pearl-blake3/hasher.rs\<close> and \<open>merkle.rs\<close>.  The layered tree's root is BLAKE3's left-balanced tree, a
    multi-leaf proof verifies and reveals exactly the rows it opens, a single-leaf tree is rejected.
  \<^item> \<open>Noise\<close>: the CPU references of the kernels (\<open>src/kernels/\<close>) and \<open>circuit/pearl_noise.rs\<close>.  The dense and sparse factors of
    the miner give entry by entry the verifier's noise; entries stay within 63, random bytes within 64.
  \<^item> \<open>Blake_Program\<close>: compression, program compiler and evaluator (\<open>circuit/chip/blake3/\<close>).  The unrolled schedule is the
    specification's, and a compiled program evaluates to the two Merkle roots.
  \<^item> \<open>Sibling_Ranges\<close>: the verifier's view of an opening (\<open>compute_sibling_ranges\<close>, \<open>compute_cv\<close>): it returns, and finds the
    subtree values the proof carries.

  The device.
  \<^item> \<open>Cuda_Driver\<close>, \<open>Kernel_Launch\<close>, \<open>Miner_Bufs\<close>: \<open>src/driver.rs\<close>, \<open>src/kernels/\<close>, \<open>src/miner_bufs.rs\<close> as programs that issue
    driver calls: every launcher with its asserts, grid and arguments, the allocation per shape, the iteration, the
    capture of one graph per ring slot and its replay.
  \<^item> \<open>Call_Sequences\<close>: each shape's iteration issues its calls in order or stops at the first failing one; one shipped
    shape panics, and the theorem names it.
  \<^item> \<open>Graph_Replay\<close>: replaying the captured graph of a slot issues the calls of the eager iteration.

  Proofs and mining.
  \<^item> \<open>Signal_Header\<close>: \<open>src/proof/signal_header.rs\<close>: the layout of a hit and the indices of its tile.
  \<^item> \<open>Plain_Proof\<close>, \<open>Mine_Verify\<close>: the openings (\<open>src/proof/plain_proof.rs\<close>, \<open>ffi/plain_proof.rs\<close>), the reference miner
    (\<open>ffi/mine.rs\<close>) and the verifier (\<open>api/verify.rs\<close>).  The openings parse to the strips of the matrices; what the
    reference miner returns, the verifier accepts, and the miner returns when a tile below the target exists.
  \<^item> \<open>Submit\<close>: \<open>api/prove.rs\<close>, \<open>src/proof/submit.rs\<close>: a hit of the verifier's matrices becomes a block whose bytes carry
    header, commitment and proof, and is submitted once.
  \<^item> \<open>Live_Miner\<close>, \<open>Live_System\<close>: \<open>src/bin/live_miner.rs\<close>: start-up, worker turn, hit poller, and the threads as an
    inductive step relation; reachable states keep the workers' slots and counters in step, and every hit is
    submitted, rejected or counted as failed, in the order of the channel.

  The STARK program.
  \<^item> \<open>Stark_Program\<close>: \<open>circuit/pearl_program.rs\<close>: rounds, tile products, register instructions, numbering of words, length.
  \<^item> \<open>Jackpot_Trace\<close>, \<open>Jackpot_Program\<close>: the columns CUMSUM_TILE, CUMSUM_BUFFER, BIT_REG and JACKPOT_MSG
    (\<open>circuit/chip/matmul/trace.rs\<close>, \<open>circuit/chip/jackpot/trace.rs\<close>) as the integers they encode.  Both passes interpret the
    locale \<open>row_pass\<close>; the backward fill of the buffer, the back shifts that undo the rotations of later subtiles, and
    the sum over subtiles are lemmas of their own.
  \<^item> \<open>Stark_Run\<close>: compiled hash programs are well formed, the layout exists for every admitted rank whose shifts fit,
    and the trace ends with the words \<open>compute_jackpot\<close> returns.
  \<^item> \<open>Stark_Limits\<close>: accepted parameters for which the layout fails, a bound on the hash program, the numbering of words.
  \<^item> \<open>Goldilocks\<close>: the field (\<open>deps/plonky2/field/goldilocks_field.rs\<close>): residues without zero divisors, and the word
    arithmetic that computes in them from any representatives, its optimiser hints included.
  \<^item> \<open>Trace_Utils\<close>, \<open>Stark_Preprocess\<close>: packing (\<open>utils/trace_utils.rs\<close>) and the preprocessed columns
    (\<open>pearl_preprocess.rs\<close>); packing is undone by unpacking, and a control word determines the flags of its row.
  \<^item> \<open>Air_Eval\<close>, \<open>Pearl_Layout\<close>: the evaluator of the constraints over any commutative ring (\<open>utils/evaluator.rs\<close>,
    \<open>utils/air_utils.rs\<close>) and the columns of a row (\<open>pearl_layout.rs\<close>); what each kind of constraint says in a field, and
    words as field elements and as lists of bits.
  \<^item> \<open>Air_Blake\<close>, \<open>Air_Chip\<close>: the constraints of the BLAKE3 chip (\<open>chip/blake3/blake3_air.rs\<close>, \<open>constraints.rs\<close>) and
    the round the trace computes (\<open>trace.rs\<close>); each group of constraints forces the words it is about, so that eight rows
    which satisfy them hold \<open>compress\<close> of their buffer, CV and tweak in \<open>CV_OUT\<close>.
  \<^item> \<open>Air_Fill\<close>, \<open>Air_Block\<close>: how the trace is filled with compressions (\<open>trace.rs\<close>).  The rows that \<open>write_messages\<close>,
    \<open>fill_block\<close> and \<open>postprocess_round8_row\<close> leave satisfy every constraint of the chip but those on the data they load.
    \<open>fill_blake_data\<close> is modelled whole; that its first phase loads what these last constraints ask is not proved.

  Not modelled.  \<open>src/bin/miner.rs\<close>, \<open>bench_breakdown.rs\<close> and \<open>triton_smoke.rs\<close> drive the modelled wrappers and print.
  The CUDA and Triton kernels are not Rust; the launchers and the CPU references beside them stand for their interface
  and their result.  \<open>load_fatbin_file\<close> reads a file.  Of the STARK, the lookup frequencies, the input columns, the
  constraints of the other chips and the recursion circuits (\<open>pearl_circuit.rs\<close>, \<open>circuit_utils.rs\<close>) are not modelled; the
  vendored plonky2 and starky under \<open>deps/plonky2\<close> are third-party code, of which only the field arithmetic is; \<open>circuit/blake_program.rs\<close> is declared by no module.  \<open>verify_block\<close> checks a
  STARK proof and belongs there.  The Python and Go bindings convert arguments of modelled functions.  Logging,
  sleeping, destructors and serde adapters have no effect on the modelled state.
\<close>

end
